(* ===== verification/Prelude.thy ===== *)
theory Prelude
  imports Main "HOL-Library.Word"
begin

text \<open>
  Shared vocabulary of the development: machine integers, the error-or-value result that
  models \<^verbatim>\<open>Result\<close>, parsers over the bytes that are left of a header, and the law
  \<open>decodes\<close> (a parser reads back exactly what a writer produced) with the lemmas that
  compose it. The components build on these lemmas.
\<close>

unbundle bit_operations_syntax

type_synonym byte = "8 word"
type_synonym u8 = "8 word"
type_synonym u16 = "16 word"
type_synonym u32 = "32 word"
type_synonym u64 = "64 word"

text \<open>
  \<open>usize\<close> is the 64-bit one. A \<open>usize\<close> that only counts or indexes is a \<open>nat\<close>; the places where
  the code checks a \<open>usize\<close> sum for overflow compare with \<open>usize_max\<close>.
\<close>

definition usize_max :: nat where
  "usize_max = 2 ^ 64 - 1"

named_theorems parser_simps \<open>unfolding of the parser combinators\<close>
named_theorems decode_intros \<open>decoding what a writer wrote\<close>

section \<open>Results\<close>

definition bindE :: "'e + 'a \<Rightarrow> ('a \<Rightarrow> 'e + 'b) \<Rightarrow> 'e + 'b" where
  "bindE r f = (case r of Inl e \<Rightarrow> Inl e | Inr x \<Rightarrow> f x)"

lemma bindE_simps [simp]:
  "bindE (Inl e) f = Inl e"
  "bindE (Inr x) f = f x"
  by (simp_all add: bindE_def)

lemma bindE_Inr_iff: "bindE r f = Inr y \<longleftrightarrow> (\<exists>x. r = Inr x \<and> f x = Inr y)"
  by (cases r) auto

lemma bindE_assoc: "bindE (bindE r f) g = bindE r (\<lambda>x. bindE (f x) g)"
  by (cases r) auto

text \<open>\<^verbatim>\<open>Option::ok_or\<close>.\<close>

definition ok_or :: "'e \<Rightarrow> 'a option \<Rightarrow> 'e + 'a" where
  "ok_or e o' = (case o' of None \<Rightarrow> Inl e | Some x \<Rightarrow> Inr x)"

lemma ok_or_simps [simp]: "ok_or e None = Inl e" "ok_or e (Some x) = Inr x"
  by (simp_all add: ok_or_def)

lemma ok_or_Inr_iff [simp]: "ok_or e m = Inr x \<longleftrightarrow> m = Some x"
  by (cases m) auto

text \<open>A loop that may stop with an error, over a list, threading a state.\<close>

fun foldE :: "('a \<Rightarrow> 's \<Rightarrow> 'e + 's) \<Rightarrow> 'a list \<Rightarrow> 's \<Rightarrow> 'e + 's" where
  "foldE f [] s = Inr s"
| "foldE f (x # xs) s = bindE (f x s) (foldE f xs)"

lemma foldE_append: "foldE f (xs @ ys) s = bindE (foldE f xs s) (foldE f ys)"
proof (induction xs arbitrary: s)
  case Nil
  then show ?case by simp
next
  case (Cons x xs)
  then show ?case by (cases "f x s") auto
qed

lemma foldE_invariant:
  assumes "foldE f xs s = Inr t" and "I s"
    and "\<And>x s t. x \<in> set xs \<Longrightarrow> I s \<Longrightarrow> f x s = Inr t \<Longrightarrow> I t"
  shows "I t"
  using assms
proof (induction xs arbitrary: s)
  case Nil
  then show ?case by simp
next
  case (Cons x xs)
  from Cons.prems(1) obtain u where u: "f x s = Inr u" "foldE f xs u = Inr t"
    by (auto simp: bindE_Inr_iff)
  from u(1) Cons.prems have "I u" by auto
  with u(2) Cons.prems show ?case by (auto intro: Cons.IH)
qed

section \<open>Checked arithmetic\<close>

text \<open>\<^verbatim>\<open>u64::checked_add\<close> and \<^verbatim>\<open>u64::saturating_add\<close>.\<close>

definition checked_add :: "u64 \<Rightarrow> u64 \<Rightarrow> u64 option" where
  "checked_add a b = (if unat a + unat b < 2 ^ 64 then Some (a + b) else None)"

definition saturating_add :: "u64 \<Rightarrow> u64 \<Rightarrow> u64" where
  "saturating_add a b = (if unat a + unat b < 2 ^ 64 then a + b else - 1)"

lemma checked_add_Some_iff:
  "checked_add a b = Some c \<longleftrightarrow> unat a + unat b < 2 ^ 64 \<and> c = a + b"
  by (auto simp: checked_add_def)

lemma unat_add_u64: "unat a + unat b < 2 ^ 64 \<Longrightarrow> unat (a + b) = unat a + unat (b :: u64)"
  by (simp add: unat_word_ariths)

lemma checked_add_unat: "checked_add a b = Some c \<Longrightarrow> unat c = unat a + unat b"
  by (auto simp: checked_add_Some_iff unat_add_u64)

lemma checked_add_None_iff: "checked_add a b = None \<longleftrightarrow> 2 ^ 64 \<le> unat a + unat b"
  by (auto simp: checked_add_def)

text \<open>The same without natural numbers, for evaluation.\<close>

lemma overflow_iff: "a + b < a \<longleftrightarrow> 2 ^ 64 \<le> unat a + unat (b :: u64)"
proof (cases "unat a + unat b < 2 ^ 64")
  case True
  then show ?thesis by (simp add: word_less_nat_alt unat_add_u64)
next
  case False
  have "unat a < 2 ^ 64" "unat b < 2 ^ 64" using unsigned_less [of a] unsigned_less [of b] by simp_all
  moreover from this False have "unat (a + b) = unat a + unat b - 2 ^ 64" by (simp add: unat_word_ariths mod_if)
  ultimately show ?thesis using False by (simp add: word_less_nat_alt)
qed

lemma checked_add_code [code]: "checked_add a b = (let s = a + b in if s < a then None else Some s)"
  by (simp add: checked_add_def Let_def overflow_iff not_less)

lemma saturating_add_code [code]: "saturating_add a b = (let s = a + b in if s < a then - 1 else s)"
  by (simp add: saturating_add_def Let_def overflow_iff not_less)

lemma usize_max_code [code_unfold]:
  "usize_max < n \<longleftrightarrow> (18446744073709551615 :: int) < int n"
  "n \<le> usize_max \<longleftrightarrow> int n \<le> (18446744073709551615 :: int)"
  by (simp_all add: usize_max_def)

text \<open>Sums of a list of sizes with \<^verbatim>\<open>checked_add\<close>.\<close>

fun checked_sum :: "u64 \<Rightarrow> u64 list \<Rightarrow> u64 option" where
  "checked_sum acc [] = Some acc"
| "checked_sum acc (x # xs) = Option.bind (checked_add acc x) (\<lambda>s. checked_sum s xs)"

lemma checked_sum_unat:
  "checked_sum acc xs = Some s \<Longrightarrow> unat s = unat acc + sum_list (map unat xs)"
  by (induction xs arbitrary: acc) (auto split: Option.bind_splits dest: checked_add_unat)

lemma checked_sum_None:
  "checked_sum acc xs = None \<Longrightarrow> 2 ^ 64 \<le> unat acc + sum_list (map unat xs)"
proof (induction xs arbitrary: acc)
  case Nil
  then show ?case by simp
next
  case (Cons x xs)
  show ?case
  proof (cases "checked_add acc x")
    case None
    then show ?thesis by (simp add: checked_add_None_iff)
  next
    case (Some s)
    with Cons.prems have "checked_sum s xs = None" by simp
    from Cons.IH [OF this] checked_add_unat [OF Some] show ?thesis by simp
  qed
qed

section \<open>Parsers\<close>

text \<open>
  A reader positioned in a header is the list of the bytes that are left. \<^verbatim>\<open>read_exact\<close> fails
  when fewer are left, and a forward seek drops bytes (past the end, every later read fails, as
  it does on a \<^verbatim>\<open>Cursor\<close>).
\<close>

type_synonym ('e, 'a) parser = "byte list \<Rightarrow> 'e + ('a \<times> byte list)"

definition returnP :: "'a \<Rightarrow> ('e, 'a) parser" where
  "returnP x = (\<lambda>bs. Inr (x, bs))"

definition failP :: "'e \<Rightarrow> ('e, 'a) parser" where
  "failP e = (\<lambda>bs. Inl e)"

definition bindP :: "('e, 'a) parser \<Rightarrow> ('a \<Rightarrow> ('e, 'b) parser) \<Rightarrow> ('e, 'b) parser" where
  "bindP p f = (\<lambda>bs. case p bs of Inl e \<Rightarrow> Inl e | Inr (x, bs') \<Rightarrow> f x bs')"

definition liftE :: "'e + 'a \<Rightarrow> ('e, 'a) parser" where
  "liftE r = (case r of Inl e \<Rightarrow> failP e | Inr x \<Rightarrow> returnP x)"

definition skipP :: "nat \<Rightarrow> ('e, unit) parser" where
  "skipP n = (\<lambda>bs. Inr ((), drop n bs))"

fun replicateP :: "nat \<Rightarrow> ('e, 'a) parser \<Rightarrow> ('e, 'a list) parser" where
  "replicateP 0 p = returnP []"
| "replicateP (Suc n) p = bindP p (\<lambda>x. bindP (replicateP n p) (\<lambda>xs. returnP (x # xs)))"

fun mapP :: "('a \<Rightarrow> ('e, 'b) parser) \<Rightarrow> 'a list \<Rightarrow> ('e, 'b list) parser" where
  "mapP f [] = returnP []"
| "mapP f (x # xs) = bindP (f x) (\<lambda>y. bindP (mapP f xs) (\<lambda>ys. returnP (y # ys)))"

lemma returnP_apply [simp]: "returnP x bs = Inr (x, bs)"
  by (simp add: returnP_def)

lemma failP_apply [simp]: "failP e bs = Inl e"
  by (simp add: failP_def)

lemma skipP_apply [simp]: "skipP n bs = Inr ((), drop n bs)"
  by (simp add: skipP_def)

lemma liftE_simps [simp]: "liftE (Inl e) = failP e" "liftE (Inr x) = returnP x"
  by (simp_all add: liftE_def)

lemma bindP_return [simp]: "bindP (returnP x) f = f x"
  by (simp add: bindP_def returnP_def)

lemma bindP_return_right [simp]: "bindP p returnP = p"
  by (auto simp: bindP_def returnP_def fun_eq_iff split: sum.splits)

lemma bindP_fail [simp]: "bindP (failP e) f = failP e"
  by (simp add: bindP_def failP_def)

lemma bindP_assoc [simp]: "bindP (bindP p f) g = bindP p (\<lambda>x. bindP (f x) g)"
  by (auto simp: bindP_def fun_eq_iff split: sum.splits prod.splits)

lemma bindP_if: "bindP (if c then p else q) f = (if c then bindP p f else bindP q f)"
  by simp

lemma bindP_Inr_iff:
  "bindP p f bs = Inr r \<longleftrightarrow> (\<exists>x bs'. p bs = Inr (x, bs') \<and> f x bs' = Inr r)"
  by (auto simp: bindP_def split: sum.splits)

lemma bindP_apply_Inr: "p bs = Inr (x, bs') \<Longrightarrow> bindP p f bs = f x bs'"
  by (simp add: bindP_def)

lemma bindP_apply_Inl: "p bs = Inl e \<Longrightarrow> bindP p f bs = Inl e"
  by (simp add: bindP_def)

lemma liftE_Inr_iff [simp]: "liftE r bs = Inr (x, bs') \<longleftrightarrow> r = Inr x \<and> bs' = bs"
  by (cases r) auto

lemma bindP_cong [fundef_cong]:
  assumes "p = p'" "bs = bs'" "\<And>x cs. p' bs' = Inr (x, cs) \<Longrightarrow> f x cs = f' x cs"
  shows "bindP p f bs = bindP p' f' bs'"
  using assms by (auto simp: bindP_def split: sum.splits)

lemma length_replicateP: "replicateP n p bs = Inr (xs, bs') \<Longrightarrow> length xs = n"
  by (induction n arbitrary: bs xs) (auto simp: bindP_Inr_iff)

lemma length_mapP: "mapP f xs bs = Inr (ys, bs') \<Longrightarrow> length ys = length xs"
  by (induction xs arbitrary: bs ys) (auto simp: bindP_Inr_iff)

text \<open>Every parser of the reader leaves a suffix of the bytes it was given.\<close>

definition suffixing :: "('e, 'a) parser \<Rightarrow> bool" where
  "suffixing p \<longleftrightarrow> (\<forall>bs x bs'. p bs = Inr (x, bs') \<longrightarrow> (\<exists>pre. bs = pre @ bs'))"

lemma suffixingD: "suffixing p \<Longrightarrow> p bs = Inr (x, bs') \<Longrightarrow> \<exists>pre. bs = pre @ bs'"
  by (auto simp: suffixing_def)

lemma suffixing_length: "suffixing p \<Longrightarrow> p bs = Inr (x, bs') \<Longrightarrow> length bs' \<le> length bs"
  by (auto dest!: suffixingD)

named_theorems suffixing_intros \<open>parsers that leave a suffix\<close>

lemma suffixing_return [suffixing_intros]: "suffixing (returnP x)"
  by (simp add: suffixing_def)

lemma suffixing_fail [suffixing_intros]: "suffixing (failP e)"
  by (simp add: suffixing_def)

lemma suffixing_lift [suffixing_intros]: "suffixing (liftE r)"
  by (cases r) (simp_all add: suffixing_intros)

lemma suffixing_skip [suffixing_intros]: "suffixing (skipP n)"
  unfolding suffixing_def by (metis Inr_inject append_take_drop_id prod.inject skipP_apply)

lemma suffixing_bind [suffixing_intros]:
  "suffixing p \<Longrightarrow> (\<And>x. suffixing (f x)) \<Longrightarrow> suffixing (bindP p f)"
  unfolding suffixing_def by (auto simp: bindP_Inr_iff) (metis append.assoc)

lemma suffixing_if [suffixing_intros]:
  "(c \<Longrightarrow> suffixing p) \<Longrightarrow> (\<not> c \<Longrightarrow> suffixing q) \<Longrightarrow> suffixing (if c then p else q)"
  by simp

lemma suffixing_replicate [suffixing_intros]: "suffixing p \<Longrightarrow> suffixing (replicateP n p)"
  by (induction n) (auto intro!: suffixing_intros)

lemma suffixing_map [suffixing_intros]: "(\<And>x. suffixing (f x)) \<Longrightarrow> suffixing (mapP f xs)"
  by (induction xs) (auto intro!: suffixing_intros)

section \<open>Decoding what was written\<close>

text \<open>
  \<open>decodes p ys x\<close>: in front of any continuation, \<open>p\<close> reads \<open>ys\<close>, all of it and nothing
  more, and returns \<open>x\<close>. Sequencing parsers corresponds to appending what they read.
\<close>

definition decodes :: "('e, 'a) parser \<Rightarrow> byte list \<Rightarrow> 'a \<Rightarrow> bool" where
  "decodes p ys x \<longleftrightarrow> (\<forall>rest. p (ys @ rest) = Inr (x, rest))"

lemma decodesI: "(\<And>rest. p (ys @ rest) = Inr (x, rest)) \<Longrightarrow> decodes p ys x"
  by (simp add: decodes_def)

lemma decodesD: "decodes p ys x \<Longrightarrow> p (ys @ rest) = Inr (x, rest)"
  by (simp add: decodes_def)

lemma decodes_all: "decodes p ys x \<Longrightarrow> p ys = Inr (x, [])"
  using decodesD [of p ys x "[]"] by simp

lemma decodes_return [decode_intros]: "decodes (returnP x) [] x"
  by (simp add: decodes_def)

lemma decodes_lift: "r = Inr x \<Longrightarrow> decodes (liftE r) [] x"
  by (simp add: decodes_def)

lemma decodes_bind:
  "decodes p ys x \<Longrightarrow> decodes (f x) zs y \<Longrightarrow> decodes (bindP p f) (ys @ zs) y"
  by (simp add: decodes_def bindP_def)

lemma decodes_bind_end: "decodes p ys x \<Longrightarrow> decodes (f x) [] y \<Longrightarrow> decodes (bindP p f) ys y"
  using decodes_bind [of p ys x f "[]" y] by simp

lemma decodes_bind_lift: "r = Inr x \<Longrightarrow> decodes (f x) zs y \<Longrightarrow> decodes (bindP (liftE r) f) zs y"
  by (simp add: decodes_def)

lemma decodes_skip [decode_intros]: "n = length ys \<Longrightarrow> decodes (skipP n) ys ()"
  by (simp add: decodes_def)

lemma decodes_unique: "decodes p ys x \<Longrightarrow> decodes p ys y \<Longrightarrow> x = y"
  by (auto simp: decodes_def)

text \<open>
  The contract between a writer and the reader of the same field, and what a client of the
  contract gets: a counted sequence of the fields reads back.
\<close>

locale codec =
  fixes enc :: "'a \<Rightarrow> byte list"
    and dec :: "('e, 'a) parser"
    and ok :: "'a \<Rightarrow> bool"
  assumes dec_enc: "ok x \<Longrightarrow> decodes dec (enc x) x"
begin

lemma dec_enc_append: "ok x \<Longrightarrow> dec (enc x @ rest) = Inr (x, rest)"
  by (rule decodesD [OF dec_enc])

lemma enc_prefix_free: "ok x \<Longrightarrow> ok y \<Longrightarrow> enc x @ xs = enc y @ ys \<Longrightarrow> x = y \<and> xs = ys"
proof -
  assume a: "ok x" "ok y" and eq: "enc x @ xs = enc y @ ys"
  have "Inr (x, xs) = dec (enc y @ ys)"
    using dec_enc_append [OF a(1), of xs] unfolding eq by (rule sym)
  also have "\<dots> = Inr (y, ys)"
    by (rule dec_enc_append [OF a(2)])
  finally show ?thesis by (simp only: sum.inject prod.inject)
qed

lemma enc_inj: "ok x \<Longrightarrow> ok y \<Longrightarrow> enc x = enc y \<Longrightarrow> x = y"
  using enc_prefix_free [of x y "[]" "[]"] by (simp only: append_Nil2)

lemma dec_enc_list: "list_all ok xs \<Longrightarrow> decodes (replicateP (length xs) dec) (concat (map enc xs)) xs"
proof (induction xs)
  case Nil
  then show ?case by (simp add: decodes_def)
next
  case (Cons x xs)
  then have "decodes (replicateP (length xs) dec) (concat (map enc xs)) xs" by simp
  then have "decodes (bindP (replicateP (length xs) dec) (\<lambda>ys. returnP (x # ys)))
      (concat (map enc xs)) (x # xs)"
    by (rule decodes_bind_end) (rule decodes_return)
  moreover have "decodes dec (enc x) x" using Cons.prems dec_enc by simp
  ultimately show ?case by (simp add: decodes_bind)
qed

end

lemma decodes_mapP:
  assumes "list_all2 (\<lambda>x (ys, y). decodes (f x) ys y) xs zs"
  shows "decodes (mapP f xs) (concat (map fst zs)) (map snd zs)"
  using assms
proof (induction rule: list_all2_induct)
  case Nil
  then show ?case by (simp add: decodes_def)
next
  case (Cons x xs z zs)
  obtain ys y where z: "z = (ys, y)" by force
  from Cons.IH have "decodes (bindP (mapP f xs) (\<lambda>ys. returnP (y # ys)))
      (concat (map fst zs)) (y # map snd zs)"
    by (rule decodes_bind_end) (rule decodes_return)
  with Cons.hyps z show ?case by (simp add: decodes_bind)
qed

end
