(* ===== verification/Errors.thy ===== *)
theory Errors
  imports Prelude
begin

text \<open>
  The crate's error type (\<^verbatim>\<open>src/src/error.rs\<close>): the constructors of \<^verbatim>\<open>Error\<close>, \<^verbatim>\<open>Limit\<close> and
  \<^verbatim>\<open>BlockErrorKind\<close>, the I/O errors they carry, and the functions that unwrap, classify and
  locate an error. Messages are kept as the source has them; where the source formats a number
  into a message only the fixed text is kept.
\<close>

text \<open>\<^verbatim>\<open>enum Limit\<close>: which bound an \<^verbatim>\<open>Error::LimitExceeded\<close> hit.\<close>

datatype limit =
    EndHeaderBytes | HeaderUnpackedBytes | HeaderDepth | Entries | NameBytes | TotalNameBytes
  | CodersPerBlock | StreamsPerCoder | TotalCoders | MemoryBytes | UnpackBytes | UnpackRatio
  | AesCyclesPower | AesKdfRounds | ArchiveBytes

definition limit_field :: "limit \<Rightarrow> string" where
  "limit_field l = (case l of
      EndHeaderBytes \<Rightarrow> ''max_end_header_bytes''
    | HeaderUnpackedBytes \<Rightarrow> ''max_header_unpacked_bytes''
    | HeaderDepth \<Rightarrow> ''max_header_depth''
    | Entries \<Rightarrow> ''max_entries''
    | NameBytes \<Rightarrow> ''max_name_bytes''
    | TotalNameBytes \<Rightarrow> ''max_total_name_bytes''
    | CodersPerBlock \<Rightarrow> ''max_coders_per_block''
    | StreamsPerCoder \<Rightarrow> ''max_streams_per_coder''
    | TotalCoders \<Rightarrow> ''max_total_coders''
    | MemoryBytes \<Rightarrow> ''memory_limit_bytes''
    | UnpackBytes \<Rightarrow> ''max_unpack_bytes''
    | UnpackRatio \<Rightarrow> ''max_unpack_ratio''
    | AesCyclesPower \<Rightarrow> ''max_aes_cycles_power''
    | AesKdfRounds \<Rightarrow> ''max_aes_kdf_rounds''
    | ArchiveBytes \<Rightarrow> ''the bytes the archive has'')"

datatype block_error_kind =
    BlockCorrupted | ChecksumMismatch | UnsupportedMethod | BlockIo | BadPasswordKind

text \<open>
  A Rust \<^verbatim>\<open>String\<close> that comes from an archive is the list of its Unicode scalar values.
\<close>

type_synonym ustring = "nat list"

text \<open>
  \<^verbatim>\<open>std::io::Error\<close>: a kind and an optional payload, which is either one of this crate's own
  errors or an error of another crate. A foreign payload is known only by an identity; what the
  code learns of it by downcasting (\<^verbatim>\<open>Error::from_coder\<close>, the LZ4 frame checksum errors) is a
  function argument of the definitions that ask.
\<close>

datatype io_kind =
    UnexpectedEof | InvalidData | InvalidInput | WriteZero | OutOfMemory | Interrupted | OtherKind

text \<open>
  \<open>Panic\<close> is not a constructor of the source: it is the value the model gives a Rust panic
  (an index out of range, a failed \<^verbatim>\<open>expect\<close> or \<^verbatim>\<open>assert\<close>, an arithmetic overflow), so that
  the absence of panics can be stated.
\<close>

datatype error =
    BadSignature "byte list"
  | UnsupportedVersion u8 u8
  | ChecksumVerificationFailed
  | NextHeaderCrcMismatch
  | Io io_error string
  | FileOpen io_error string
  | Other string
  | Corrupted string
  | InvalidArgument string
  | Cancelled
  | Internal string
  | BadTerminatedStreamsInfo u8
  | BadTerminatedUnpackInfo
  | BadTerminatedPackInfo u8
  | BadTerminatedSubStreamsInfo
  | BadTerminatedHeader u8
  | ExternalUnsupported
  | UnsupportedCompressionMethod string
  | MaxMemLimited nat nat
  | PasswordRequired
  | Unsupported string
  | MaybeBadPassword io_error
  | FileNotFound
  | EndHeaderTooLarge u64 u64
  | MemoryLimited u64 u64
  | LimitExceeded limit u64 u64
  | UnsafeEntryName ustring string
  | BlockDecode nat u64 block_error_kind error
  | WriterPoisoned string
  | Panic string
and io_error =
    IoBare io_kind
  | IoOwn io_kind error
  | IoForeign io_kind nat

type_synonym 'a result = "error + 'a"
type_synonym 'a reader = "(error, 'a) parser"

text \<open>\<^verbatim>\<open>impl From<std::io::Error> for Error\<close> of the end-of-file error \<^verbatim>\<open>read_exact\<close> raises.\<close>

definition eof_error :: error where
  "eof_error = Io (IoBare UnexpectedEof) ''''"

definition bad_password :: "io_error \<Rightarrow> bool \<Rightarrow> error" where
  "bad_password e encrypted = (if encrypted then MaybeBadPassword e else Io e '''')"

definition maybe_bad_password :: "error \<Rightarrow> bool \<Rightarrow> error" where
  "maybe_bad_password self encrypted =
     (if \<not> encrypted then self
      else case self of
          Io e s \<Rightarrow> (if s = '''' then MaybeBadPassword e else self)
        | _ \<Rightarrow> self)"

definition limit_hit :: "error \<Rightarrow> limit option" where
  "limit_hit e = (case e of
      LimitExceeded what _ _ \<Rightarrow> Some what
    | EndHeaderTooLarge _ _ \<Rightarrow> Some EndHeaderBytes
    | MemoryLimited _ _ \<Rightarrow> Some MemoryBytes
    | _ \<Rightarrow> None)"

definition into_io :: "error \<Rightarrow> io_error" where
  "into_io self = IoOwn (case self of
      Corrupted _ \<Rightarrow> InvalidData
    | ChecksumVerificationFailed \<Rightarrow> InvalidData
    | InvalidArgument _ \<Rightarrow> InvalidInput
    | _ \<Rightarrow> OtherKind) self"

definition is_checksum_failure :: "error \<Rightarrow> bool" where
  "is_checksum_failure e = (case e of
      ChecksumVerificationFailed \<Rightarrow> True
    | Io (IoOwn _ inner) _ \<Rightarrow> inner = ChecksumVerificationFailed
    | _ \<Rightarrow> False)"

text \<open>
  \<open>from_coder\<close> stands for \<^verbatim>\<open>Error::from_coder\<close> on a foreign payload; on a bare error or one of
  this crate's own it is \<open>None\<close>, as the downcasts to the coders' types are.
\<close>

fun out_of_io :: "(nat \<Rightarrow> error option) \<Rightarrow> error \<Rightarrow> error" where
  "out_of_io from_coder (Io (IoOwn k e) context) = out_of_io from_coder e"
| "out_of_io from_coder (Io (IoForeign k n) context) =
     (case from_coder n of Some e \<Rightarrow> e | None \<Rightarrow> Io (IoForeign k n) context)"
| "out_of_io from_coder (MaybeBadPassword (IoOwn k e)) =
     (case e of
        Cancelled \<Rightarrow> e
      | Internal _ \<Rightarrow> e
      | _ \<Rightarrow> MaybeBadPassword (IoOwn k e))"
| "out_of_io from_coder (MaybeBadPassword (IoForeign k n)) =
     (case from_coder n of Some e \<Rightarrow> e | None \<Rightarrow> MaybeBadPassword (IoForeign k n))"
| "out_of_io from_coder e = e"

definition in_block :: "(nat \<Rightarrow> error option) \<Rightarrow> error \<Rightarrow> nat \<Rightarrow> u64 \<Rightarrow> error" where
  "in_block from_coder self block_index packed_offset =
     (let error = out_of_io from_coder self
      in case error of
          BlockDecode _ _ _ _ \<Rightarrow> error
        | LimitExceeded _ _ _ \<Rightarrow> error
        | Cancelled \<Rightarrow> error
        | InvalidArgument _ \<Rightarrow> error
        | Internal _ \<Rightarrow> error
        | _ \<Rightarrow>
          BlockDecode block_index packed_offset
            (case error of
               Io _ _ \<Rightarrow> BlockIo
             | FileOpen _ _ \<Rightarrow> BlockIo
             | UnsupportedCompressionMethod _ \<Rightarrow> UnsupportedMethod
             | Unsupported _ \<Rightarrow> UnsupportedMethod
             | ExternalUnsupported \<Rightarrow> UnsupportedMethod
             | ChecksumVerificationFailed \<Rightarrow> ChecksumMismatch
             | NextHeaderCrcMismatch \<Rightarrow> ChecksumMismatch
             | PasswordRequired \<Rightarrow> BadPasswordKind
             | MaybeBadPassword _ \<Rightarrow> BadPasswordKind
             | _ \<Rightarrow> BlockCorrupted)
            error)"

fun io_error_of :: "error \<Rightarrow> io_error option" where
  "io_error_of (Io e _) = Some e"
| "io_error_of (FileOpen e _) = Some e"
| "io_error_of (MaybeBadPassword e) = Some e"
| "io_error_of (BlockDecode _ _ _ cause) = io_error_of cause"
| "io_error_of _ = None"

fun is_password_required :: "error \<Rightarrow> bool" where
  "is_password_required PasswordRequired = True"
| "is_password_required (BlockDecode _ _ _ cause) = is_password_required cause"
| "is_password_required _ = False"

text \<open>\<open>lz4_checksum\<close> says whether a foreign payload is one of the LZ4 frame checksum errors.\<close>

fun has_checksum_mismatch :: "(nat \<Rightarrow> bool) \<Rightarrow> error \<Rightarrow> bool"
and io_error_has_checksum_mismatch :: "(nat \<Rightarrow> bool) \<Rightarrow> io_error \<Rightarrow> bool" where
  "has_checksum_mismatch lz4_checksum ChecksumVerificationFailed = True"
| "has_checksum_mismatch lz4_checksum NextHeaderCrcMismatch = True"
| "has_checksum_mismatch lz4_checksum (BlockDecode _ _ kind cause) =
     (kind = ChecksumMismatch \<or> has_checksum_mismatch lz4_checksum cause)"
| "has_checksum_mismatch lz4_checksum (Io e _) = io_error_has_checksum_mismatch lz4_checksum e"
| "has_checksum_mismatch lz4_checksum (FileOpen e _) = io_error_has_checksum_mismatch lz4_checksum e"
| "has_checksum_mismatch lz4_checksum (MaybeBadPassword e) =
     io_error_has_checksum_mismatch lz4_checksum e"
| "has_checksum_mismatch lz4_checksum _ = False"
| "io_error_has_checksum_mismatch lz4_checksum (IoBare _) = False"
| "io_error_has_checksum_mismatch lz4_checksum (IoOwn _ inner) = has_checksum_mismatch lz4_checksum inner"
| "io_error_has_checksum_mismatch lz4_checksum (IoForeign _ n) = lz4_checksum n"

section \<open>Indexing\<close>

text \<open>\<^verbatim>\<open>v[i]\<close> and \<^verbatim>\<open>v[i] = x\<close> of a Rust slice panic out of range; \<^verbatim>\<open>v.get(i)\<close> is an option.\<close>

definition vec_get :: "'a list \<Rightarrow> nat \<Rightarrow> 'a result" where
  "vec_get xs i = (if i < length xs then Inr (xs ! i) else Inl (Panic ''index out of bounds''))"

definition vec_set :: "'a list \<Rightarrow> nat \<Rightarrow> 'a \<Rightarrow> 'a list result" where
  "vec_set xs i x = (if i < length xs then Inr (xs[i := x]) else Inl (Panic ''index out of bounds''))"

definition get :: "'a list \<Rightarrow> nat \<Rightarrow> 'a option" where
  "get xs i = (if i < length xs then Some (xs ! i) else None)"

lemma vec_get_in [simp]: "i < length xs \<Longrightarrow> vec_get xs i = Inr (xs ! i)"
  by (simp add: vec_get_def)

lemma vec_set_in [simp]: "i < length xs \<Longrightarrow> vec_set xs i x = Inr (xs[i := x])"
  by (simp add: vec_set_def)

lemma vec_get_Inr_iff: "vec_get xs i = Inr x \<longleftrightarrow> i < length xs \<and> x = xs ! i"
  by (auto simp: vec_get_def)

lemma vec_set_Inr_iff: "vec_set xs i x = Inr ys \<longleftrightarrow> i < length xs \<and> ys = xs[i := x]"
  by (auto simp: vec_set_def)

lemma get_Some_iff: "get xs i = Some x \<longleftrightarrow> i < length xs \<and> x = xs ! i"
  by (auto simp: get_def)

lemma get_None_iff: "get xs i = None \<longleftrightarrow> length xs \<le> i"
  by (auto simp: get_def)

section \<open>Freedom from panics\<close>

text \<open>A result or a parser that never is, or never gives, the model's panic value.\<close>

definition is_panic :: "error \<Rightarrow> bool" where
  "is_panic e = (case e of Panic _ \<Rightarrow> True | _ \<Rightarrow> False)"

definition no_panic :: "'a result \<Rightarrow> bool" where
  "no_panic r = (case r of Inl e \<Rightarrow> \<not> is_panic e | Inr _ \<Rightarrow> True)"

named_theorems no_panic_intros \<open>computations that do not panic\<close>

lemma is_panic_simps [simp]:
  "is_panic (Panic s)" "\<not> is_panic (Corrupted s)" "\<not> is_panic (LimitExceeded l a b)"
  "\<not> is_panic (Unsupported s)" "\<not> is_panic eof_error" "\<not> is_panic (BadTerminatedPackInfo n)"
  "\<not> is_panic (BadTerminatedStreamsInfo n)" "\<not> is_panic BadTerminatedUnpackInfo"
  "\<not> is_panic BadTerminatedSubStreamsInfo" "\<not> is_panic (BadTerminatedHeader n)"
  "\<not> is_panic ExternalUnsupported" "\<not> is_panic (EndHeaderTooLarge a b)"
  "\<not> is_panic NextHeaderCrcMismatch" "\<not> is_panic (UnsafeEntryName nm s)"
  "\<not> is_panic (BadSignature bs)" "\<not> is_panic (UnsupportedVersion v w)"
  "\<not> is_panic ChecksumVerificationFailed" "\<not> is_panic (Io i s)" "\<not> is_panic (MaxMemLimited k m)"
  by (simp_all add: is_panic_def eof_error_def)

lemma no_panic_Inr [simp, no_panic_intros]: "no_panic (Inr x)"
  by (simp add: no_panic_def)

lemma no_panic_Inl [simp]: "no_panic (Inl e) \<longleftrightarrow> \<not> is_panic e"
  by (simp add: no_panic_def)

lemma no_panic_bindE [no_panic_intros]:
  "no_panic r \<Longrightarrow> (\<And>x. r = Inr x \<Longrightarrow> no_panic (f x)) \<Longrightarrow> no_panic (bindE r f)"
  by (cases r) auto

lemma no_panic_bindP [no_panic_intros]:
  "no_panic (p bs) \<Longrightarrow> (\<And>x bs'. p bs = Inr (x, bs') \<Longrightarrow> no_panic (f x bs')) \<Longrightarrow> no_panic (bindP p f bs)"
  by (cases "p bs") (auto simp: bindP_def)

lemma no_panic_liftE [no_panic_intros]: "no_panic r \<Longrightarrow> no_panic (liftE r bs)"
  by (cases r) auto

lemma no_panic_ok_or [no_panic_intros]: "\<not> is_panic e \<Longrightarrow> no_panic (ok_or e m)"
  by (cases m) auto

lemma no_panic_replicateP [no_panic_intros]: "(\<And>bs. no_panic (p bs)) \<Longrightarrow> no_panic (replicateP n p bs)"
  by (induction n arbitrary: bs) (auto intro!: no_panic_intros)

lemma no_panic_mapP [no_panic_intros]:
  "(\<And>x bs. x \<in> set xs \<Longrightarrow> no_panic (f x bs)) \<Longrightarrow> no_panic (mapP f xs bs)"
  by (induction xs arbitrary: bs) (auto intro!: no_panic_intros)

end
