(* ===== verification/Wire.thy ===== *)
theory Wire
  imports Errors
begin

text \<open>
  The integers of the 7z header on the wire: the fixed-width little-endian fields of
  \<^verbatim>\<open>ByteReader\<close> and \<^verbatim>\<open>ByteWriter\<close> (\<^verbatim>\<open>src/src/lib.rs\<close>) and the variable-length number of
  \<^verbatim>\<open>read_variable_u64\<close> (\<^verbatim>\<open>src/src/reader.rs\<close>) and \<^verbatim>\<open>write_u64\<close> (\<^verbatim>\<open>src/src/writer.rs\<close>), with
  their round trips.
\<close>

section \<open>Fixed-width fields\<close>

definition read_exact :: "nat \<Rightarrow> byte list reader" where
  "read_exact n = (\<lambda>bs. if n \<le> length bs then Inr (take n bs, drop n bs) else Inl eof_error)"

text \<open>\<^verbatim>\<open>to_le_bytes\<close> and \<^verbatim>\<open>from_le_bytes\<close> of an integer of \<open>n\<close> bytes.\<close>

fun to_le_bytes :: "nat \<Rightarrow> u64 \<Rightarrow> byte list" where
  "to_le_bytes 0 v = []"
| "to_le_bytes (Suc n) v = ucast (v AND 0xFF) # to_le_bytes n (drop_bit 8 v)"

fun from_le_bytes :: "byte list \<Rightarrow> u64" where
  "from_le_bytes [] = 0"
| "from_le_bytes (b # bs) = ucast b OR push_bit 8 (from_le_bytes bs)"

definition read_u8 :: "u8 reader" where
  "read_u8 = bindP (read_exact 1) (\<lambda>buf. returnP (buf ! 0))"

definition read_u16 :: "u16 reader" where
  "read_u16 = bindP (read_exact 2) (\<lambda>buf. returnP (ucast (from_le_bytes buf)))"

definition read_u32 :: "u32 reader" where
  "read_u32 = bindP (read_exact 4) (\<lambda>buf. returnP (ucast (from_le_bytes buf)))"

definition read_u64 :: "u64 reader" where
  "read_u64 = bindP (read_exact 8) (\<lambda>buf. returnP (from_le_bytes buf))"

definition write_u8 :: "u8 \<Rightarrow> byte list" where
  "write_u8 v = [v]"

definition write_u16 :: "u16 \<Rightarrow> byte list" where
  "write_u16 v = to_le_bytes 2 (ucast v)"

definition write_u32 :: "u32 \<Rightarrow> byte list" where
  "write_u32 v = to_le_bytes 4 (ucast v)"

definition write_u64_le :: "u64 \<Rightarrow> byte list" where
  "write_u64_le v = to_le_bytes 8 v"

lemma length_to_le_bytes [simp]: "length (to_le_bytes n v) = n"
  by (induction n arbitrary: v) auto

lemma ucast_low_byte: "(ucast (ucast (v AND 0xFF) :: byte) :: u64) = take_bit 8 v"
proof -
  have "v AND 0xFF = take_bit 8 v"
    by (simp add: take_bit_eq_mask mask_numeral)
  then show ?thesis
    by (simp add: bit_eq_iff bit_simps)
qed

lemma from_to_le_bytes: "from_le_bytes (to_le_bytes n v) = take_bit (8 * n) v"
proof (induction n arbitrary: v)
  case 0
  then show ?case by simp
next
  case (Suc n)
  have "take_bit 8 v OR push_bit 8 (take_bit (8 * n) (drop_bit 8 v)) = take_bit (8 * Suc n) v"
    by (rule bit_word_eqI) (auto simp: bit_simps)
  with Suc show ?case by (simp add: ucast_low_byte)
qed

lemma read_exact_append: "length ys = n \<Longrightarrow> decodes (read_exact n) ys ys"
  by (simp add: decodes_def read_exact_def)

lemma read_exact_Inr_iff:
  "read_exact n bs = Inr (xs, bs') \<longleftrightarrow> n \<le> length bs \<and> xs = take n bs \<and> bs' = drop n bs"
  by (auto simp: read_exact_def)

lemma read_u8_Cons [simp]: "read_u8 (b # bs) = Inr (b, bs)"
  by (simp add: read_u8_def read_exact_def bindP_def)

lemma read_u8_Nil [simp]: "read_u8 [] = Inl eof_error"
  by (simp add: read_u8_def read_exact_def bindP_def)

lemma read_u8_Inr_iff: "read_u8 bs = Inr (b, bs') \<longleftrightarrow> bs = b # bs'"
  by (cases bs) auto

lemma decodes_u8: "decodes read_u8 (write_u8 v) v"
  by (simp add: decodes_def write_u8_def)

lemma decodes_u16: "decodes read_u16 (write_u16 v) v"
  unfolding read_u16_def write_u16_def
  by (rule decodes_bind_end [OF read_exact_append])
    (simp_all add: from_to_le_bytes decodes_def bit_eq_iff bit_simps)

lemma decodes_u32: "decodes read_u32 (write_u32 v) v"
  unfolding read_u32_def write_u32_def
  by (rule decodes_bind_end [OF read_exact_append])
    (simp_all add: from_to_le_bytes decodes_def bit_eq_iff bit_simps)

lemma decodes_u64: "decodes read_u64 (write_u64_le v) v"
  unfolding read_u64_def write_u64_le_def
  by (rule decodes_bind_end [OF read_exact_append]) (simp_all add: from_to_le_bytes decodes_def bit_eq_iff bit_simps)

lemma suffixing_read_exact [suffixing_intros]: "suffixing (read_exact n)"
  unfolding suffixing_def by (auto simp: read_exact_Inr_iff) (metis append_take_drop_id)

lemma suffixing_fixed [suffixing_intros]:
  "suffixing read_u8" "suffixing read_u16" "suffixing read_u32" "suffixing read_u64"
  by (auto simp: read_u8_def read_u16_def read_u32_def read_u64_def intro!: suffixing_intros)

section \<open>Variable-length numbers\<close>

text \<open>
  \<^verbatim>\<open>read_variable_u64\<close>: the leading ones of the first byte count the bytes that follow; its other
  bits are the high bits of the value.
\<close>

function read_variable_loop :: "nat \<Rightarrow> u64 \<Rightarrow> u64 \<Rightarrow> u64 \<Rightarrow> u64 reader" where
  "read_variable_loop i first mask' value =
     (if i < 8 then
        (if first AND mask' = 0 then
           returnP (value OR push_bit (8 * i) (first AND (mask' - 1)))
         else bindP read_u8 (\<lambda>b.
           read_variable_loop (i + 1) first (drop_bit 1 mask') (value OR push_bit (8 * i) (ucast b))))
      else returnP value)"
  by pat_completeness auto
termination
  by (relation "measure (\<lambda>(i, _). 8 - i)") auto

declare read_variable_loop.simps [simp del]

definition read_variable_u64 :: "u64 reader" where
  "read_variable_u64 = bindP read_u8 (\<lambda>b. read_variable_loop 0 (ucast b) 0x80 0)"

text \<open>\<^verbatim>\<open>write_u64\<close> of the writer: the first loop finds the first byte and how many follow it.\<close>

function write_u64_first :: "u64 \<Rightarrow> nat \<Rightarrow> u64 \<Rightarrow> u64 \<Rightarrow> u64 \<times> nat" where
  "write_u64_first value i mask' first =
     (if i < 8 then
        (if value < push_bit (7 * (i + 1)) 1 then (first OR drop_bit (8 * i) value, i)
         else write_u64_first value (i + 1) (drop_bit 1 mask') (first OR mask'))
      else (first, i))"
  by pat_completeness auto
termination
  by (relation "measure (\<lambda>(_, i, _). 8 - i)") auto

declare write_u64_first.simps [simp del]

definition write_u64 :: "u64 \<Rightarrow> byte list" where
  "write_u64 value =
     (let (first, i) = write_u64_first value 0 0x80 0
      in ucast (first AND 0xFF) # to_le_bytes i value)"

section \<open>The round trip of variable-length numbers\<close>

lemma bit_nat_le: "bit (n :: nat) m \<Longrightarrow> 2 ^ m \<le> n"
  by (metis bit_iff_odd div_less even_zero not_le)

lemma unat_exp: "n < 64 \<Longrightarrow> unat (2 ^ n :: u64) = 2 ^ n"
proof -
  assume n: "n < 64"
  then have "unat (of_nat (2 ^ n) :: u64) = 2 ^ n"
    unfolding unsigned_of_nat by simp
  then show ?thesis by simp
qed

lemma bit_below_exp: "v < push_bit n 1 \<Longrightarrow> bit v m \<Longrightarrow> m < n" for v :: u64
proof (rule ccontr)
  assume a: "v < push_bit n 1" "bit v m" "\<not> m < n"
  from a(2) have m: "m < 64" using bit_imp_le_length by fastforce
  with a(3) have "n < 64" by simp
  with a(1) have "unat v < 2 ^ n" by (simp add: word_less_nat_alt unat_exp)
  moreover have "2 ^ m \<le> unat v"
    using a(2) by (intro bit_nat_le) (simp add: bit_unsigned_iff)
  moreover have "(2::nat) ^ n \<le> 2 ^ m" using a(3) by simp
  ultimately show False by linarith
qed

lemma bit_0x80: "bit (0x80 :: u64) m \<longleftrightarrow> m = 7"
proof -
  have "bit (2 ^ 7 :: u64) m \<longleftrightarrow> m = 7" by (subst bit_exp_iff) auto
  then show ?thesis by simp
qed

text \<open>The loop mask of round \<open>i\<close> is the single bit \<open>7 - i\<close>, and zero after eight rounds.\<close>

definition round_mask :: "nat \<Rightarrow> u64 \<Rightarrow> bool" where
  "round_mask i k \<longleftrightarrow> (\<forall>m. bit k m \<longleftrightarrow> i + m = 7)"

lemma round_mask_0: "round_mask 0 0x80"
  unfolding round_mask_def bit_0x80 by simp

lemma round_mask_Suc: "round_mask i k \<Longrightarrow> round_mask (i + 1) (drop_bit 1 k)"
  by (auto simp: round_mask_def bit_drop_bit_eq)

lemma round_mask_exp:
  assumes "round_mask i k" "i < 8"
  shows "k = 2 ^ (7 - i)"
proof (rule bit_word_eqI)
  fix m assume m: "m < LENGTH(64)"
  have "bit k m \<longleftrightarrow> i + m = 7" using assms(1) unfolding round_mask_def by (rule spec)
  also have "\<dots> \<longleftrightarrow> 7 - i = m" using assms(2) by arith
  also have "\<dots> \<longleftrightarrow> bit (2 ^ (7 - i) :: u64) m" using m by (simp add: bit_exp_iff eq_commute)
  finally show "bit k m = bit (2 ^ (7 - i) :: u64) m" .
qed

lemma and_round_mask:
  assumes "round_mask i k" "i < 8"
  shows "first AND k = 0 \<longleftrightarrow> \<not> bit first (7 - i)"
  unfolding round_mask_exp [OF assms] by (rule and_exp_eq_0_iff_not_bit)

lemma and_round_mask_low:
  assumes "round_mask i k" "i < 8"
  shows "first AND (k - 1) = take_bit (7 - i) first"
  unfolding round_mask_exp [OF assms] take_bit_eq_mask mask_eq_exp_minus_1 ..

lemma write_u64_first_bits:
  assumes "write_u64_first v i k hi = (first, n)" and "i \<le> 8" and "round_mask i k"
    and "\<And>m. bit hi m \<longleftrightarrow> m \<le> 7 \<and> 7 < m + i"
  shows "n \<le> 8 \<and> (n < 8 \<longrightarrow> v < push_bit (7 * (n + 1)) 1) \<and>
    (\<forall>m. bit first m \<longleftrightarrow> m \<le> 7 \<and> 7 < m + n \<or> n < 8 \<and> bit v (8 * n + m))"
  using assms
proof (induction v i k hi rule: write_u64_first.induct)
  case (1 v i k hi)
  show ?case
  proof (cases "i < 8 \<and> \<not> v < push_bit (7 * (i + 1)) 1")
    case True
    have hi': "bit (hi OR k) m \<longleftrightarrow> m \<le> 7 \<and> 7 < m + (i + 1)" for m
      using True "1.prems"(3,4) by (auto simp: bit_simps round_mask_def)
    have rec: "write_u64_first v (i + 1) (drop_bit 1 k) (hi OR k) = (first, n)"
      using "1.prems"(1) True by (subst (asm) write_u64_first.simps) simp
    show ?thesis
      by (rule "1.IH") (use True rec hi' "1.prems"(3) round_mask_Suc in auto)
  next
    case False
    have "\<not> bit v (64 + m)" for m
      by (simp add: bit_word.rep_eq)
    with False show ?thesis
      using "1.prems" by (subst (asm) write_u64_first.simps) (auto simp: bit_simps split: if_splits)
  qed
qed

lemma read_variable_loop_decodes:
  assumes "round_mask i k" "i \<le> n" "n \<le> 8"
    and "\<And>m. bit first m \<longleftrightarrow> m \<le> 7 \<and> 7 < m + n \<or> n < 8 \<and> bit v (8 * n + m)"
    and "n < 8 \<Longrightarrow> v < push_bit (7 * (n + 1)) 1"
  shows "decodes (read_variable_loop i first k (take_bit (8 * i) v))
    (to_le_bytes (n - i) (drop_bit (8 * i) v)) v"
  using assms(1,2)
proof (induction "n - i" arbitrary: i k)
  case 0
  then have i: "i = n" by simp
  have low: "take_bit (8 * n) v OR push_bit (8 * n) (take_bit (7 - n) first) = v" if "n < 8"
  proof (rule bit_word_eqI)
    fix m assume "m < LENGTH(64)"
    have "bit v j \<Longrightarrow> j < 7 * n + 7" for j
      using bit_below_exp [OF assms(5) [OF that], of j] by simp
    then show "bit (take_bit (8 * n) v OR push_bit (8 * n) (take_bit (7 - n) first)) m = bit v m"
      using that \<open>m < LENGTH(64)\<close> assms(4) [of "m - 8 * n"]
      by (cases "m < 8 * n") (force simp: bit_simps)+
  qed
  have no: "\<not> bit first (7 - n)" if "n < 8"
    using bit_below_exp [OF assms(5) [OF that], of "8 * n + (7 - n)"] assms(4) [of "7 - n"] that
    by auto
  show ?case
  proof (cases "n < 8")
    case True
    then show ?thesis
      using i 0 no low and_round_mask [of n k first] and_round_mask_low [of n k first]
      by (subst read_variable_loop.simps) (simp add: decodes_def)
  next
    case False
    then have "n = 8" using assms(3) by simp
    moreover have "take_bit 64 v = v" by (simp add: bit_eq_iff bit_simps)
    ultimately show ?thesis
      using i by (subst read_variable_loop.simps) (simp add: decodes_def)
  qed
next
  case (Suc d)
  then have i: "i < 8" "i < n" using assms(3) by auto
  have set: "bit first (7 - i)" using assms(4) [of "7 - i"] i assms(3) by auto
  let ?b = "ucast (drop_bit (8 * i) v AND 0xFF) :: byte"
  have val: "take_bit (8 * i) v OR push_bit (8 * i) (ucast ?b) = take_bit (8 * (i + 1)) v"
    unfolding ucast_low_byte by (rule bit_word_eqI) (auto simp: bit_simps)
  have bytes: "to_le_bytes (n - i) (drop_bit (8 * i) v)
      = ?b # to_le_bytes (n - (i + 1)) (drop_bit (8 * (i + 1)) v)"
    using i(2) Suc_diff_Suc [of i n] by (simp add: add.commute flip: Suc_diff_Suc)
  have "decodes (read_variable_loop (i + 1) first (drop_bit 1 k) (take_bit (8 * (i + 1)) v))
      (to_le_bytes (n - (i + 1)) (drop_bit (8 * (i + 1)) v)) v"
    by (rule Suc.hyps(1)) (use Suc i round_mask_Suc in auto)
  then show ?case
    using i set Suc.prems and_round_mask [of i k first] unfolding bytes
    by (subst read_variable_loop.simps) (simp add: decodes_def bindP_def val)
qed

lemma decodes_variable_u64: "decodes read_variable_u64 (write_u64 v) v"
proof -
  obtain first n where fn: "write_u64_first v 0 0x80 0 = (first, n)" by force
  note bits = write_u64_first_bits [OF fn, simplified, OF round_mask_0]
  have low: "ucast (ucast (first AND 0xFF) :: byte) = first"
  proof -
    have "bit first m \<Longrightarrow> m < 8" for m
    proof -
      assume "bit first m"
      with bits have "m \<le> 7 \<or> n < 8 \<and> bit v (8 * n + m)" by auto
      then show "m < 8"
        using bits bit_below_exp [of v "7 * (n + 1)" "8 * n + m"] by auto
    qed
    then show ?thesis unfolding ucast_low_byte by (intro bit_word_eqI) (auto simp: bit_simps)
  qed
  have "decodes (read_variable_loop 0 first 0x80 (take_bit (8 * 0) v))
     (to_le_bytes (n - 0) (drop_bit (8 * 0) v)) v"
    by (rule read_variable_loop_decodes) (use bits round_mask_0 in auto)
  then show ?thesis
    by (simp add: write_u64_def fn read_variable_u64_def decodes_def bindP_def low)
qed


lemma write_u64_length: "length (write_u64 v) \<le> 9"
proof -
  obtain first n where fn: "write_u64_first v 0 0x80 0 = (first, n)" by force
  have "n \<le> 8" using write_u64_first_bits [OF fn, simplified, OF round_mask_0] by simp
  then show ?thesis by (simp add: write_u64_def fn)
qed

lemma write_u64_not_Nil [simp]: "write_u64 v \<noteq> []"
  by (simp add: write_u64_def split: prod.splits)

lemma length_write_u64_pos: "0 < length (write_u64 v)"
  by simp

lemma write_u64_small:
  assumes "v < 0x80"
  shows "write_u64 v = [ucast v]"
proof -
  have "v AND 0xFF = v"
  proof (rule bit_word_eqI)
    fix m assume "m < LENGTH(64)"
    have "v AND 0xFF = take_bit 8 v" by (simp add: take_bit_eq_mask mask_numeral)
    moreover have "bit v m \<Longrightarrow> m < 8"
      using bit_below_exp [of v 7 m] assms by simp
    ultimately show "bit (v AND 0xFF) m = bit v m" by (auto simp: bit_simps)
  qed
  then show ?thesis
    using assms by (subst write_u64_def, subst write_u64_first.simps) simp
qed

lemma suffixing_variable_loop: "suffixing (read_variable_loop i first k v)"
  by (induction i first k v rule: read_variable_loop.induct)
    (subst read_variable_loop.simps, auto intro!: suffixing_intros)

lemma suffixing_variable_u64 [suffixing_intros]: "suffixing read_variable_u64"
  by (auto simp: read_variable_u64_def intro!: suffixing_intros suffixing_variable_loop)

lemma read_variable_u64_progress:
  "read_variable_u64 bs = Inr (v, bs') \<Longrightarrow> length bs' < length bs"
  unfolding read_variable_u64_def
  by (auto simp: bindP_Inr_iff read_u8_Inr_iff dest!: suffixing_length [OF suffixing_variable_loop])

lemma no_panic_read_exact [no_panic_intros, simp]: "no_panic (read_exact n bs)"
  by (simp add: read_exact_def)

lemma no_panic_fixed [no_panic_intros, simp]:
  "no_panic (read_u8 bs)" "no_panic (read_u16 bs)" "no_panic (read_u32 bs)" "no_panic (read_u64 bs)"
  by (auto simp: read_u8_def read_u16_def read_u32_def read_u64_def intro!: no_panic_intros)

lemma no_panic_variable_loop: "no_panic (read_variable_loop i first k v bs)"
  by (induction i first k v arbitrary: bs rule: read_variable_loop.induct)
    (subst read_variable_loop.simps, auto intro!: no_panic_intros)

lemma no_panic_variable_u64 [no_panic_intros, simp]: "no_panic (read_variable_u64 bs)"
  by (auto simp: read_variable_u64_def intro!: no_panic_intros no_panic_variable_loop)

section \<open>The codecs of the header's fields\<close>

interpretation wu8: codec write_u8 read_u8 "\<lambda>_. True"
  by unfold_locales (rule decodes_u8)

interpretation wu16: codec write_u16 read_u16 "\<lambda>_. True"
  by unfold_locales (rule decodes_u16)

interpretation wu32: codec write_u32 read_u32 "\<lambda>_. True"
  by unfold_locales (rule decodes_u32)

interpretation wu64: codec write_u64_le read_u64 "\<lambda>_. True"
  by unfold_locales (rule decodes_u64)

interpretation wvar: codec write_u64 read_variable_u64 "\<lambda>_. True"
  by unfold_locales (rule decodes_variable_u64)

end
