(* ===== verification/Bit_Set.thy ===== *)
theory Bit_Set
  imports Wire
begin

text \<open>
  The bit vector of \<^verbatim>\<open>src/src/bitset.rs\<close> (64-bit blocks and a bit count), its serialization
  \<^verbatim>\<open>write_bit_set\<close> and the reader's \<^verbatim>\<open>read_bits\<close> and \<^verbatim>\<open>read_all_or_bits\<close>
  (\<^verbatim>\<open>src/src/reader.rs\<close>). The bit vector refines a finite set of indices; the interface its clients
  rely on is the locale \<open>index_set\<close>.
\<close>

record bit_set =
  bits :: "u64 list"
  bit_count :: nat

definition blocks_for_bits :: "nat \<Rightarrow> nat" where
  "blocks_for_bits n = (if n = 0 then 0 else (n - 1) div 64 + 1)"

definition bit_indices :: "nat \<Rightarrow> nat \<times> nat" where
  "bit_indices bit_pos = (bit_pos div 64, bit_pos mod 64)"

definition bs_new :: bit_set where
  "bs_new = \<lparr>bits = [], bit_count = 0\<rparr>"

definition with_capacity :: "nat \<Rightarrow> bit_set" where
  "with_capacity n = \<lparr>bits = replicate (blocks_for_bits n) 0, bit_count = n\<rparr>"

definition count_ones :: "u64 \<Rightarrow> nat" where
  "count_ones w = length (filter (bit w) [0..<64])"

definition bs_len :: "bit_set \<Rightarrow> nat" where
  "bs_len s = sum_list (map count_ones (bits s))"

definition contains :: "bit_set \<Rightarrow> nat \<Rightarrow> bool" where
  "contains s value =
     (if value \<ge> bit_count s then False
      else let (block_idx, bit_idx) = bit_indices value
           in if block_idx \<ge> length (bits s) then False
              else bits s ! block_idx AND push_bit bit_idx 1 \<noteq> 0)"

definition bs_grow :: "bit_set \<Rightarrow> nat \<Rightarrow> bit_set" where
  "bs_grow s new_len =
     (if new_len \<le> bit_count s then s
      else let new_num_blocks = blocks_for_bits new_len
           in s\<lparr>bits := bits s @ replicate (new_num_blocks - length (bits s)) 0,
                bit_count := new_len\<rparr>)"

definition bs_insert :: "bit_set \<Rightarrow> nat \<Rightarrow> bool \<times> bit_set" where
  "bs_insert s value =
     (if contains s value then (False, s)
      else let s' = (if value \<ge> bit_count s then bs_grow s (value + 1) else s);
               (block_idx, bit_idx) = bit_indices value
           in (True, s'\<lparr>bits := (bits s')[block_idx := bits s' ! block_idx OR push_bit bit_idx 1]\<rparr>))"

definition bs_remove :: "bit_set \<Rightarrow> nat \<Rightarrow> bool \<times> bit_set" where
  "bs_remove s value =
     (if \<not> contains s value then (False, s)
      else let (block_idx, bit_idx) = bit_indices value
           in (True, s\<lparr>bits := (bits s)[block_idx := bits s ! block_idx AND NOT (push_bit bit_idx 1)]\<rparr>))"

definition reserve_len_exact :: "bit_set \<Rightarrow> nat \<Rightarrow> bit_set" where
  "reserve_len_exact s count =
     (if count > bit_count s then
        s\<lparr>bits := bits s @ replicate (blocks_for_bits count - length (bits s)) 0, bit_count := count\<rparr>
      else s)"

text \<open>The loop \<^verbatim>\<open>for i in is { if p(i) { set.insert(i) } }\<close> that readers and writers share.\<close>

fun insert_where :: "(nat \<Rightarrow> bool) \<Rightarrow> nat list \<Rightarrow> bit_set \<Rightarrow> bit_set" where
  "insert_where p [] s = s"
| "insert_where p (i # is) s = insert_where p is (if p i then snd (bs_insert s i) else s)"

section \<open>Invariant and abstraction\<close>

text \<open>The blocks are exactly those the bit count needs, and no bit at or past the count is set.\<close>

definition bs_wf :: "bit_set \<Rightarrow> bool" where
  "bs_wf s \<longleftrightarrow> length (bits s) = blocks_for_bits (bit_count s) \<and>
     (\<forall>v. v div 64 < length (bits s) \<and> bit_count s \<le> v \<longrightarrow> \<not> bit (bits s ! (v div 64)) (v mod 64))"

lemma div_blocks: "v < n \<Longrightarrow> v div 64 < blocks_for_bits n"
  by (cases n) (auto simp: blocks_for_bits_def less_Suc_eq_le div_le_mono)

lemma blocks_mono: "m \<le> n \<Longrightarrow> blocks_for_bits m \<le> blocks_for_bits n"
  by (auto simp: blocks_for_bits_def div_le_mono)

lemma contains_iff:
  "bs_wf s \<Longrightarrow> contains s v \<longleftrightarrow> v < bit_count s \<and> bit (bits s ! (v div 64)) (v mod 64)"
  using div_blocks [of v "bit_count s"]
  by (auto simp: contains_def bit_indices_def and_exp_eq_0_iff_not_bit bs_wf_def not_le)

lemma contains_bound: "contains s v \<Longrightarrow> v < bit_count s"
  by (auto simp: contains_def split: if_splits)

lemma bs_wf_with_capacity [simp]: "bs_wf (with_capacity n)"
  by (simp add: bs_wf_def with_capacity_def)

lemma bs_wf_new [simp]: "bs_wf bs_new"
  by (simp add: bs_wf_def bs_new_def blocks_for_bits_def)

lemma contains_with_capacity [simp]: "\<not> contains (with_capacity n) v"
  using contains_iff [OF bs_wf_with_capacity, of n v] by (auto simp: with_capacity_def div_blocks)

lemma contains_new [simp]: "\<not> contains bs_new v"
  by (simp add: contains_def bs_new_def)

lemma bit_count_with_capacity [simp]: "bit_count (with_capacity n) = n"
  by (simp add: with_capacity_def)

lemma bit_count_new [simp]: "bit_count bs_new = 0"
  by (simp add: bs_new_def)

lemma length_bits_grow:
  "bs_wf s \<Longrightarrow> length (bits (bs_grow s n)) = blocks_for_bits (max (bit_count s) n)"
  using blocks_mono [of "bit_count s" n]
  by (auto simp: bs_grow_def bs_wf_def Let_def max_def)

lemma bit_count_grow [simp]: "bit_count (bs_grow s n) = max (bit_count s) n"
  by (auto simp: bs_grow_def Let_def)

lemma nth_grow: "bs_wf s \<Longrightarrow> b < length (bits (bs_grow s n)) \<Longrightarrow>
   bits (bs_grow s n) ! b = (if b < length (bits s) then bits s ! b else 0)"
  by (auto simp: bs_grow_def Let_def nth_append)

lemma bs_wf_grow: "bs_wf s \<Longrightarrow> bs_wf (bs_grow s n)"
  using length_bits_grow [of s n] nth_grow [of s _ n]
  by (subst bs_wf_def) (auto simp: bs_wf_def)

lemma contains_grow:
  assumes s: "bs_wf s"
  shows "contains (bs_grow s n) v \<longleftrightarrow> contains s v"
proof (cases "v < max (bit_count s) n")
  case True
  then have len: "v div 64 < length (bits (bs_grow s n))"
    using length_bits_grow [OF s, of n] by (simp add: div_blocks)
  have "v < bit_count s \<Longrightarrow> v div 64 < length (bits s)"
    using s by (simp add: bs_wf_def div_blocks)
  moreover have "v div 64 < length (bits s) \<Longrightarrow> bit (bits s ! (v div 64)) (v mod 64) \<Longrightarrow> v < bit_count s"
    using s by (auto simp: bs_wf_def not_le [symmetric])
  ultimately show ?thesis
    using True unfolding contains_iff [OF s] contains_iff [OF bs_wf_grow [OF s]] nth_grow [OF s len]
    by (cases "v div 64 < length (bits s)") auto
next
  case False
  then show ?thesis using contains_bound [of _ v] by fastforce
qed

text \<open>Writing one block of a well-formed vector.\<close>

lemma contains_update:
  assumes s: "bs_wf s" and v: "v < bit_count s"
    and w: "\<And>m. m < 64 \<Longrightarrow> m \<noteq> v mod 64 \<Longrightarrow> bit w m = bit (bits s ! (v div 64)) m"
  defines "t \<equiv> s\<lparr>bits := (bits s)[v div 64 := w]\<rparr>"
  shows "bs_wf t" and "contains t u \<longleftrightarrow> (if u = v then bit w (v mod 64) else contains s u)"
proof -
  have same: "u div 64 = v div 64 \<Longrightarrow> u \<noteq> v \<Longrightarrow> bit w (u mod 64) = bit (bits s ! (v div 64)) (u mod 64)" for u
    by (intro w) (auto, metis div_mult_mod_eq)
  have "v div 64 < length (bits s)" using s div_blocks [OF v] by (simp add: bs_wf_def)
  then have nth: "bits t ! b = (if b = v div 64 then w else bits s ! b)" if "b < length (bits s)" for b
    using that by (simp add: t_def nth_list_update)
  show t: "bs_wf t"
    unfolding bs_wf_def
  proof (intro conjI allI impI)
    show "length (bits t) = blocks_for_bits (bit_count t)"
      using s by (simp add: t_def bs_wf_def)
    fix u assume "u div 64 < length (bits t) \<and> bit_count t \<le> u"
    then have u: "u div 64 < length (bits s)" "bit_count s \<le> u" by (simp_all add: t_def)
    then have "u \<noteq> v" "\<not> bit (bits s ! (u div 64)) (u mod 64)" using s v by (auto simp: bs_wf_def)
    then show "\<not> bit (bits t ! (u div 64)) (u mod 64)"
      using nth [OF u(1)] same [of u] by auto
  qed
  show "contains t u \<longleftrightarrow> (if u = v then bit w (v mod 64) else contains s u)"
  proof (cases "u < bit_count s")
    case True
    then have "u div 64 < length (bits s)" using s div_blocks by (simp add: bs_wf_def)
    then show ?thesis
      using contains_iff [OF t, of u] contains_iff [OF s, of u] nth [of "u div 64"] same [of u] True
      by (auto simp: t_def)
  next
    case False
    then show ?thesis
      using contains_iff [OF t, of u] contains_iff [OF s, of u] v by (auto simp: t_def)
  qed
qed

lemma bs_insert_grown:
  assumes "bs_wf s" "\<not> contains s v"
  defines "g \<equiv> bs_grow s (v + 1)"
  shows "snd (bs_insert s v) = g\<lparr>bits := (bits g)[v div 64 := bits g ! (v div 64) OR push_bit (v mod 64) 1]\<rparr>"
  using assms(2) unfolding g_def
  by (auto simp: bs_insert_def bit_indices_def Let_def bs_grow_def)

lemma bs_insert_spec:
  assumes s: "bs_wf s"
  shows "bs_wf (snd (bs_insert s v))"
    and "contains (snd (bs_insert s v)) u \<longleftrightarrow> u = v \<or> contains s u"
    and "bit_count (snd (bs_insert s v)) = max (bit_count s) (v + 1)"
    and "fst (bs_insert s v) \<longleftrightarrow> \<not> contains s v"
proof -
  let ?g = "bs_grow s (v + 1)"
  let ?w = "bits ?g ! (v div 64) OR push_bit (v mod 64) 1"
  have g: "bs_wf ?g" "v < bit_count ?g" using bs_wf_grow [OF s] by simp_all
  have "bit ?w m = bit (bits ?g ! (v div 64)) m" if "m < 64" "m \<noteq> v mod 64" for m
    using that by (auto simp: bit_simps)
  note upd = contains_update [OF g this]
  have "bit ?w (v mod 64)" by (simp add: bit_simps)
  with upd show "bs_wf (snd (bs_insert s v))" "contains (snd (bs_insert s v)) u \<longleftrightarrow> u = v \<or> contains s u"
      "bit_count (snd (bs_insert s v)) = max (bit_count s) (v + 1)"
    using s contains_grow [OF s] contains_bound [of s v] bs_insert_grown [OF s, of v]
    by (cases "contains s v"; auto simp: bs_insert_def; fail)+
  show "fst (bs_insert s v) \<longleftrightarrow> \<not> contains s v"
    by (simp add: bs_insert_def Let_def split: prod.splits)
qed

lemma bs_remove_spec:
  assumes s: "bs_wf s"
  shows "bs_wf (snd (bs_remove s v))"
    and "contains (snd (bs_remove s v)) u \<longleftrightarrow> u \<noteq> v \<and> contains s u"
    and "bit_count (snd (bs_remove s v)) = bit_count s"
    and "fst (bs_remove s v) \<longleftrightarrow> contains s v"
proof -
  let ?w = "bits s ! (v div 64) AND NOT (push_bit (v mod 64) 1)"
  have w: "bit ?w m = bit (bits s ! (v div 64)) m" if "m < 64" "m \<noteq> v mod 64" for m
    using that by (auto simp: bit_simps)
  have nv: "\<not> bit ?w (v mod 64)" by (simp add: bit_simps)
  note upd = contains_update [OF s _ w]
  show "bs_wf (snd (bs_remove s v))" "contains (snd (bs_remove s v)) u \<longleftrightarrow> u \<noteq> v \<and> contains s u"
    using s nv upd contains_bound [of s v]
    by (cases "contains s v"; auto simp add: bs_remove_def bit_indices_def; fail)+
  show "bit_count (snd (bs_remove s v)) = bit_count s" "fst (bs_remove s v) \<longleftrightarrow> contains s v"
    by (simp_all add: bs_remove_def bit_indices_def)
qed

lemma reserve_len_exact_spec:
  assumes s: "bs_wf s"
  shows "bs_wf (reserve_len_exact s n)"
    and "contains (reserve_len_exact s n) u \<longleftrightarrow> contains s u"
    and "bit_count (reserve_len_exact s n) = max (bit_count s) n"
proof -
  have "reserve_len_exact s n = bs_grow s n"
    by (simp add: reserve_len_exact_def bs_grow_def Let_def)
  then show "bs_wf (reserve_len_exact s n)" "contains (reserve_len_exact s n) u \<longleftrightarrow> contains s u"
    "bit_count (reserve_len_exact s n) = max (bit_count s) n"
    using bs_wf_grow [OF s] contains_grow [OF s] by simp_all
qed

text \<open>A well-formed vector is determined by its bit count and the indices it contains.\<close>

lemma bs_ext:
  assumes s: "bs_wf s" and t: "bs_wf t" and n: "bit_count s = bit_count t"
    and eq: "\<And>v. contains s v \<longleftrightarrow> contains t v"
  shows "s = t"
proof -
  have len: "length (bits s) = length (bits t)" using s t n by (simp add: bs_wf_def)
  have "bits s ! b = bits t ! b" if b: "b < length (bits s)" for b
  proof (rule bit_word_eqI)
    fix m assume m: "m < LENGTH(64)"
    let ?v = "64 * b + m"
    have v: "?v div 64 = b" "?v mod 64 = m" using m by simp_all
    show "bit (bits s ! b) m = bit (bits t ! b) m"
    proof (cases "?v < bit_count s")
      case True
      then show ?thesis using eq [of ?v] contains_iff [OF s, of ?v] contains_iff [OF t, of ?v] n
        unfolding v by simp
    next
      case False
      have "\<not> bit (bits s ! (?v div 64)) (?v mod 64)" "\<not> bit (bits t ! (?v div 64)) (?v mod 64)"
        using s t n b len False unfolding bs_wf_def by (metis v(1) not_le)+
      then show ?thesis unfolding v by simp
    qed
  qed
  then have "bits s = bits t" using len by (simp add: list_eq_iff_nth_eq)
  then show ?thesis using n by simp
qed

lemma count_ones_card: "count_ones w = card {m. m < 64 \<and> bit w m}"
proof -
  have "count_ones w = card (set (filter (bit w) [0..<64]))"
    unfolding count_ones_def by (intro distinct_card [symmetric] distinct_filter distinct_upt)
  also have "set (filter (bit w) [0..<64]) = {m. m < 64 \<and> bit w m}" by auto
  finally show ?thesis .
qed

lemma sum_count_ones:
  "sum_list (map count_ones ws) = card {v. v div 64 < length ws \<and> bit (ws ! (v div 64)) (v mod 64)}"
proof (induction ws rule: rev_induct)
  case Nil
  then show ?case by simp
next
  case (snoc w ws)
  let ?A = "{v. v div 64 < length ws \<and> bit (ws ! (v div 64)) (v mod 64)}"
  let ?B = "(\<lambda>m. 64 * length ws + m) ` {m. m < 64 \<and> bit w m}"
  have fin: "finite ?A" by (rule finite_subset [of _ "{..<64 * length ws}"]) auto
  have "{v. v div 64 < length (ws @ [w]) \<and> bit ((ws @ [w]) ! (v div 64)) (v mod 64)} = ?A \<union> ?B"
    (is "?L = _")
  proof (intro set_eqI iffI)
    fix v assume "v \<in> ?L"
    then show "v \<in> ?A \<union> ?B"
      by (cases "v div 64 < length ws")
        (auto simp: nth_append less_Suc_eq image_iff intro!: exI [of _ "v mod 64"]
           dest!: sym [of _ "length ws"])
  next
    fix v assume "v \<in> ?A \<union> ?B"
    then show "v \<in> ?L" by (auto simp: nth_append)
  qed
  moreover have "card (?A \<union> ?B) = card ?A + card ?B"
    by (rule card_Un_disjoint) (use fin in auto)
  moreover have "card ?B = count_ones w"
    unfolding count_ones_card by (rule card_image) (simp add: inj_on_def)
  ultimately show ?case using snoc by simp
qed

lemma bs_len_card:
  assumes s: "bs_wf s"
  shows "bs_len s = card {v. contains s v}"
proof -
  have "{v. v div 64 < length (bits s) \<and> bit (bits s ! (v div 64)) (v mod 64)} = {v. contains s v}"
    using s div_blocks by (auto simp: contains_iff [OF s] bs_wf_def not_le [symmetric])
  then show ?thesis unfolding bs_len_def sum_count_ones by simp
qed

section \<open>The interface\<close>

text \<open>
  What the parser and the writer rely on: insertion, removal and membership of indices, under a
  capacity that only insertion past it changes. The client lemma is the loop that fills a vector.
\<close>

locale index_set =
  fixes empty :: "nat \<Rightarrow> 's"
    and member :: "'s \<Rightarrow> nat \<Rightarrow> bool"
    and ins :: "'s \<Rightarrow> nat \<Rightarrow> 's"
    and del :: "'s \<Rightarrow> nat \<Rightarrow> 's"
    and capacity :: "'s \<Rightarrow> nat"
    and inv :: "'s \<Rightarrow> bool"
  assumes inv_empty: "inv (empty n)"
    and inv_ins: "inv s \<Longrightarrow> inv (ins s v)"
    and inv_del: "inv s \<Longrightarrow> inv (del s v)"
    and member_empty: "\<not> member (empty n) v"
    and member_ins: "inv s \<Longrightarrow> member (ins s v) u \<longleftrightarrow> u = v \<or> member s u"
    and member_del: "inv s \<Longrightarrow> member (del s v) u \<longleftrightarrow> u \<noteq> v \<and> member s u"
    and capacity_empty: "capacity (empty n) = n"
    and capacity_ins: "inv s \<Longrightarrow> capacity (ins s v) = max (capacity s) (v + 1)"
    and capacity_del: "inv s \<Longrightarrow> capacity (del s v) = capacity s"
begin

lemma fill:
  fixes p :: "nat \<Rightarrow> bool" and "is" :: "nat list"
  assumes "inv s"
  defines "t \<equiv> fold (\<lambda>i s. if p i then ins s i else s) is s"
  shows "inv t \<and> (\<forall>u. member t u \<longleftrightarrow> u \<in> set is \<and> p u \<or> member s u)
    \<and> ((\<forall>i \<in> set is. i < capacity s) \<longrightarrow> capacity t = capacity s)"
  using assms(1) unfolding t_def
proof (induction "is" arbitrary: s)
  case Nil
  then show ?case by simp
next
  case (Cons i "is")
  let ?s = "if p i then ins s i else s"
  have s: "inv ?s" using Cons.prems inv_ins by simp
  have m: "member ?s u \<longleftrightarrow> u = i \<and> p i \<or> member s u" for u
    using Cons.prems member_ins by auto
  have c: "i < capacity s \<Longrightarrow> capacity ?s = capacity s"
    using Cons.prems capacity_ins by simp
  show ?case using Cons.IH [OF s] m c by auto
qed

end

interpretation bs: index_set with_capacity contains "\<lambda>s v. snd (bs_insert s v)"
  "\<lambda>s v. snd (bs_remove s v)" bit_count bs_wf
  by unfold_locales (simp_all add: bs_insert_spec bs_remove_spec)

lemma insert_where_fold:
  "insert_where p is s = fold (\<lambda>i s. if p i then snd (bs_insert s i) else s) is s"
  by (induction "is" arbitrary: s) auto

lemma insert_where_spec:
  assumes "bs_wf s"
  shows "bs_wf (insert_where p is s)"
    and "contains (insert_where p is s) u \<longleftrightarrow> u \<in> set is \<and> p u \<or> contains s u"
    and "\<forall>i \<in> set is. i < bit_count s \<Longrightarrow> bit_count (insert_where p is s) = bit_count s"
  using bs.fill [OF assms, of p "is"] unfolding insert_where_fold by blast+

lemma insert_where_capacity:
  "bs_wf (insert_where p [0..<n] (with_capacity n))"
  "contains (insert_where p [0..<n] (with_capacity n)) u \<longleftrightarrow> u < n \<and> p u"
  "bit_count (insert_where p [0..<n] (with_capacity n)) = n"
  by (simp_all add: insert_where_spec)


section \<open>Serialization\<close>

text \<open>\<^verbatim>\<open>write_bit_set\<close>: most significant bit first, the last byte padded with zeros.\<close>

fun write_bit_set_loop :: "bit_set \<Rightarrow> nat list \<Rightarrow> u8 \<Rightarrow> int \<Rightarrow> byte list" where
  "write_bit_set_loop s [] cache shift = (if shift \<noteq> 7 then write_u8 cache else [])"
| "write_bit_set_loop s (i # is) cache shift =
     (let set_bit = (if contains s i then 1 else 0);
          cache' = cache OR push_bit (nat shift) set_bit;
          shift' = shift - 1
      in if shift' < 0 then write_u8 cache' @ write_bit_set_loop s is 0 7
         else write_bit_set_loop s is cache' shift')"

definition write_bit_set :: "bit_set \<Rightarrow> byte list" where
  "write_bit_set s = write_bit_set_loop s [0..<bit_count s] 0 7"

fun read_bits_loop :: "nat list \<Rightarrow> u32 \<Rightarrow> u32 \<Rightarrow> bit_set \<Rightarrow> bit_set reader" where
  "read_bits_loop [] mask' cache s = returnP s"
| "read_bits_loop (i # is) mask' cache s =
     bindP (if mask' = 0 then bindP read_u8 (\<lambda>b. returnP (0x80, ucast b)) else returnP (mask', cache))
       (\<lambda>(mask', cache).
          read_bits_loop is (drop_bit 1 mask') cache
            (if cache AND mask' \<noteq> 0 then snd (bs_insert s i) else s))"

definition read_bits :: "nat \<Rightarrow> bit_set reader" where
  "read_bits n = read_bits_loop [0..<n] 0 0 (with_capacity n)"

definition read_all_or_bits :: "nat \<Rightarrow> bit_set reader" where
  "read_all_or_bits n = bindP read_u8 (\<lambda>all.
     if all \<noteq> 0 then returnP (insert_where (\<lambda>_. True) [0..<n] (with_capacity n))
     else read_bits n)"

text \<open>The bits already placed in a byte survive until it is written.\<close>

lemma write_loop_Cons:
  assumes "0 \<le> k" "k \<le> 7" "k \<noteq> 7 \<or> is \<noteq> []"
  shows "\<exists>b bs. write_bit_set_loop s is c k = b # bs \<and> (\<forall>j > nat k. bit b j = bit c j)"
  using assms
proof (induction "is" arbitrary: c k)
  case Nil
  then show ?case by (auto simp: write_u8_def)
next
  case (Cons i "is")
  let ?c = "c OR push_bit (nat k) (if contains s i then 1 else 0)"
  have same: "bit ?c j = bit c j" if "nat k < j" for j
    using that by (auto simp: bit_simps)
  show ?case
  proof (cases "k = 0")
    case True
    then show ?thesis using same by (simp add: write_u8_def)
  next
    case False
    obtain b bs where "write_bit_set_loop s is ?c (k - 1) = b # bs" "\<forall>j > nat (k - 1). bit b j = bit ?c j"
      using Cons.IH [of "k - 1" ?c] Cons.prems False by auto
    then show ?thesis using same Cons.prems False by (auto simp: Let_def)
  qed
qed

lemma drop_bit_exp_u32: "drop_bit 1 (2 ^ Suc k :: u32) = 2 ^ k" if "k < 31"
  using that by (intro bit_word_eqI) (auto simp: bit_simps)

lemma and_exp_ucast: "j < 8 \<Longrightarrow> ucast (b :: byte) AND (2 ^ j :: u32) \<noteq> 0 \<longleftrightarrow> bit b j"
  by (simp add: and_exp_eq_0_iff_not_bit bit_simps)

lemma read_write_bits_loop:
  "0 \<le> k \<Longrightarrow> k \<le> 7 \<Longrightarrow> k \<noteq> 7 \<or> is \<noteq> [] \<Longrightarrow> (\<And>j. j \<le> nat k \<Longrightarrow> \<not> bit c j) \<Longrightarrow>
     decodes (read_bits_loop is (2 ^ nat k) (ucast (hd (write_bit_set_loop s is c k))) t)
       (tl (write_bit_set_loop s is c k)) (insert_where (contains s) is t)"
  "decodes (read_bits_loop is 0 cache t) (write_bit_set_loop s is 0 7) (insert_where (contains s) is t)"
proof (induction "is" arbitrary: c k cache t)
  case Nil
  { case 1
    then show ?case by (auto simp: decodes_def write_u8_def)
  next
    case 2
    then show ?case by (simp add: decodes_def) }
next
  case (Cons i "is")
  have one: "decodes (read_bits_loop (i # is) (2 ^ nat k) (ucast (hd (write_bit_set_loop s (i # is) c k))) t)
       (tl (write_bit_set_loop s (i # is) c k)) (insert_where (contains s) (i # is) t)"
    if k: "0 \<le> k" "k \<le> 7" and c: "\<And>j. j \<le> nat k \<Longrightarrow> \<not> bit c j" for k c t
  proof -
    let ?c = "c OR push_bit (nat k) (if contains s i then 1 else 0)"
    let ?t = "if contains s i then snd (bs_insert t i) else t"
    have ck: "bit ?c (nat k) \<longleftrightarrow> contains s i" using c k by (auto simp: bit_simps)
    have nz: "(2 ^ nat k :: u32) \<noteq> 0" using k by simp
    show ?thesis
    proof (cases "k = 0")
      case True
      have "decodes (read_bits_loop is 0 (ucast ?c) ?t) (write_bit_set_loop s is 0 7)
          (insert_where (contains s) is ?t)"
        by (rule Cons.IH(2))
      then show ?thesis
        using True ck and_exp_ucast [of 0 ?c] by (simp add: Let_def write_u8_def)
    next
      case False
      have c': "\<not> bit ?c j" if "j \<le> nat (k - 1)" for j
        using c [of j] that False k by (auto simp: bit_simps)
      obtain b bs where b: "write_bit_set_loop s is ?c (k - 1) = b # bs"
          "\<forall>j > nat (k - 1). bit b j = bit ?c j"
        using write_loop_Cons [of "k - 1" "is" s ?c] k False by auto
      then have bk: "bit b (nat k) \<longleftrightarrow> contains s i" using ck k False by auto
      have "decodes (read_bits_loop is (2 ^ nat (k - 1)) (ucast b) ?t) bs (insert_where (contains s) is ?t)"
        using Cons.IH(1) [of "k - 1" ?c ?t] b c' k False by auto
      moreover have "drop_bit 1 (2 ^ nat k :: u32) = 2 ^ nat (k - 1)"
        using drop_bit_exp_u32 [of "nat (k - 1)"] k False by (simp add: Suc_nat_eq_nat_zadd1)
      ultimately show ?thesis
        using False k b(1) nz bk and_exp_ucast [of "nat k" b] by (simp add: Let_def)
    qed
  qed
  {
    case 1
    then show ?case using one by blast
  next
    case 2
    obtain b bs where b: "write_bit_set_loop s (i # is) 0 7 = b # bs"
      using write_loop_Cons [of 7 "i # is" s 0] by auto
    have "decodes (read_bits_loop (i # is) (2 ^ nat 7) (ucast b) t) bs (insert_where (contains s) (i # is) t)"
      using one [of 7 0 t] unfolding b by simp
    then show ?case unfolding b by (simp add: decodes_def bindP_def)
  }
qed

lemma decodes_bits:
  assumes s: "bs_wf s"
  shows "decodes (read_bits (bit_count s)) (write_bit_set s) s"
proof -
  have "insert_where (contains s) [0..<bit_count s] (with_capacity (bit_count s)) = s"
    by (rule bs_ext) (use s insert_where_capacity contains_bound in auto)
  then show ?thesis
    using read_write_bits_loop(2) [of "[0..<bit_count s]" 0 "with_capacity (bit_count s)" s]
    unfolding read_bits_def write_bit_set_def by simp
qed

lemma decodes_all_or_bits:
  assumes s: "bs_wf s"
  shows "decodes (read_all_or_bits (bit_count s)) (write_u8 0 @ write_bit_set s) s"
  unfolding read_all_or_bits_def
  by (rule decodes_bind [OF decodes_u8]) (simp add: decodes_bits [OF s])

lemma decodes_all_set:
  "b \<noteq> 0 \<Longrightarrow> decodes (read_all_or_bits n) (write_u8 b)
     (insert_where (\<lambda>_. True) [0..<n] (with_capacity n))"
  unfolding read_all_or_bits_def
  by (rule decodes_bind_end [OF decodes_u8]) (simp add: decodes_def)

lemma suffixing_bits_loop: "suffixing (read_bits_loop is m c s)"
  by (induction "is" arbitrary: m c s) (auto intro!: suffixing_intros split: prod.splits)

lemma suffixing_bits [suffixing_intros]:
  "suffixing (read_bits n)" "suffixing (read_all_or_bits n)"
  by (auto simp: read_bits_def read_all_or_bits_def intro!: suffixing_intros suffixing_bits_loop)

lemma no_panic_bits_loop: "no_panic (read_bits_loop is m c s bs)"
  by (induction "is" arbitrary: m c s bs) (auto intro!: no_panic_intros split: prod.splits)

lemma no_panic_bits [no_panic_intros, simp]:
  "no_panic (read_bits n bs)" "no_panic (read_all_or_bits n bs)"
  by (auto simp: read_bits_def read_all_or_bits_def intro!: no_panic_intros no_panic_bits_loop)

lemma read_bits_loop_wf:
  "read_bits_loop is m c s bs = Inr (t, bs') \<Longrightarrow> bs_wf s \<Longrightarrow> \<forall>i \<in> set is. i < bit_count s \<Longrightarrow>
     bs_wf t \<and> bit_count t = bit_count s"
proof (induction "is" arbitrary: m c s bs)
  case Nil
  then show ?case by simp
next
  case (Cons i "is")
  from Cons.prems(1) obtain m' c' bs'' where
    "read_bits_loop is m' c' (if c' AND drop_bit 0 m' \<noteq> 0 then s else s) bs'' = Inr (t, bs')
     \<or> read_bits_loop is m' c' (snd (bs_insert s i)) bs'' = Inr (t, bs')"
    by (auto simp: bindP_Inr_iff split: if_splits)
  moreover have "bs_wf (snd (bs_insert s i))" "bit_count (snd (bs_insert s i)) = bit_count s"
    using bs_insert_spec [OF Cons.prems(2)] Cons.prems(3) by auto
  ultimately show ?case using Cons.IH Cons.prems by (auto split: if_splits)
qed

lemma read_bits_wf: "read_bits n bs = Inr (t, bs') \<Longrightarrow> bs_wf t \<and> bit_count t = n"
  unfolding read_bits_def by (drule read_bits_loop_wf) auto

lemma read_all_or_bits_wf: "read_all_or_bits n bs = Inr (t, bs') \<Longrightarrow> bs_wf t \<and> bit_count t = n"
  unfolding read_all_or_bits_def
  by (auto simp: bindP_Inr_iff insert_where_capacity split: if_splits dest: read_bits_wf)

text \<open>One byte for every eight bits, rounded up.\<close>

lemma length_write_bit_set_loop:
  "0 \<le> k \<Longrightarrow> k \<le> 7 \<Longrightarrow>
     int (length (write_bit_set_loop s is c k)) = (int (length is) + (7 - k) + 7) div 8"
proof (induction "is" arbitrary: c k)
  case Nil
  then show ?case by (auto simp: write_u8_def)
next
  case (Cons i "is")
  then show ?case by (auto simp: write_u8_def Let_def)
qed

lemma length_write_bit_set: "length (write_bit_set s) = (bit_count s + 7) div 8"
  using length_write_bit_set_loop [of 7 s "[0..<bit_count s]" 0] unfolding write_bit_set_def by simp

end
