(* ===== verification/Block_Model.thy ===== *)
theory Block_Model
  imports Bit_Set
begin

text \<open>
  Blocks and coders (\<^verbatim>\<open>src/src/block.rs\<close>): the inline-or-heap slices, the packed representation
  of a coder and the compact representation of a block's stream tables, each with the view
  (\<^verbatim>\<open>encoder_method_id\<close>, \<^verbatim>\<open>properties\<close>, \<^verbatim>\<open>counts\<close>; \<^verbatim>\<open>bind_pairs\<close>, \<^verbatim>\<open>packed_streams\<close>,
  \<^verbatim>\<open>unpack_sizes\<close>) its clients see, and the walk over the coder chain.
\<close>

section \<open>Small slices\<close>

text \<open>\<^verbatim>\<open>SmallSlice<T, N>\<close> on a 64-bit target; \<open>N\<close> and \<open>T::default()\<close> are arguments.\<close>

datatype 'a small_slice = SInline nat "'a list" | SHeap "'a list"

definition ss_with_len :: "nat \<Rightarrow> 'a \<Rightarrow> nat \<Rightarrow> 'a small_slice" where
  "ss_with_len N dflt len =
     (if len \<le> N then SInline len (replicate N dflt) else SHeap (replicate len dflt))"

definition ss_deref :: "'a small_slice \<Rightarrow> 'a list" where
  "ss_deref s = (case s of SInline len values \<Rightarrow> take len values | SHeap values \<Rightarrow> values)"

text \<open>\<^verbatim>\<open>copy_from_slice\<close> through \<^verbatim>\<open>DerefMut\<close>: the source must have the slice's length.\<close>

definition ss_copy_from :: "'a small_slice \<Rightarrow> 'a list \<Rightarrow> 'a small_slice" where
  "ss_copy_from s xs = (case s of
      SInline len values \<Rightarrow> SInline len (xs @ drop len values)
    | SHeap values \<Rightarrow> SHeap xs)"

definition ss_from_vec :: "nat \<Rightarrow> 'a \<Rightarrow> 'a list \<Rightarrow> 'a small_slice" where
  "ss_from_vec N dflt values =
     (if length values \<le> N then ss_copy_from (ss_with_len N dflt (length values)) values
      else SHeap values)"

lemma ss_deref_with_len: "ss_deref (ss_with_len N d n) = replicate n d"
  by (simp add: ss_deref_def ss_with_len_def min_def)

lemma ss_deref_copy: "length xs = length (ss_deref s) \<Longrightarrow> ss_deref (ss_copy_from s xs) = xs"
  by (cases s) (auto simp: ss_deref_def ss_copy_from_def min_def split: if_splits)

lemma ss_deref_from_vec: "ss_deref (ss_from_vec N d xs) = xs"
  by (auto simp: ss_from_vec_def ss_deref_copy ss_deref_with_len) (simp add: ss_deref_def)

section \<open>Coders\<close>

record full_coder =
  fc_id :: "byte list"
  fc_id_size :: u8
  fc_counts :: "u64 \<times> u64"
  fc_properties :: "byte list"

text \<open>
  \<^verbatim>\<open>CoderStorage\<close>: 15 bytes of method ID, 7 of properties and a descriptor byte (low four bits
  the ID length, next three the property length, high bit set for the 0/0 stream counts), or the
  full record on the heap.
\<close>

datatype coder = Inline "byte list" "byte list" u8 | Full full_coder

definition single_stream :: coder where
  "single_stream = Inline (replicate 15 0) (replicate 7 0) 0"

definition inline_counts :: "u8 \<Rightarrow> u64 \<times> u64" where
  "inline_counts d = (if d AND 0x80 = 0 then (1, 1) else (0, 0))"

definition counts :: "coder \<Rightarrow> u64 \<times> u64" where
  "counts c = (case c of Inline _ _ d \<Rightarrow> inline_counts d | Full f \<Rightarrow> fc_counts f)"

definition num_in_streams :: "coder \<Rightarrow> u64" where
  "num_in_streams c = fst (counts c)"

definition num_out_streams :: "coder \<Rightarrow> u64" where
  "num_out_streams c = snd (counts c)"

definition encoder_method_id :: "coder \<Rightarrow> byte list" where
  "encoder_method_id c = (case c of
      Inline i _ d \<Rightarrow> take (unat (d AND 15)) i
    | Full f \<Rightarrow> take (unat (fc_id_size f)) (fc_id f))"

definition properties :: "coder \<Rightarrow> byte list" where
  "properties c = (case c of
      Inline _ p d \<Rightarrow> take (unat (drop_bit 4 d AND 7)) p
    | Full f \<Rightarrow> fc_properties f)"

definition promote :: "coder \<Rightarrow> full_coder" where
  "promote c = (case c of
      Inline i p d \<Rightarrow> \<lparr>fc_id = i, fc_id_size = d AND 15, fc_counts = inline_counts d,
                      fc_properties = take (unat (drop_bit 4 d AND 7)) p\<rparr>
    | Full f \<Rightarrow> f)"

definition compact :: "coder \<Rightarrow> coder" where
  "compact c = (case c of
      Full f \<Rightarrow>
        if length (fc_properties f) \<le> 7 \<and> (fc_counts f = (0, 0) \<or> fc_counts f = (1, 1)) then
          Inline (fc_id f)
            (fc_properties f @ replicate (7 - length (fc_properties f)) 0)
            (fc_id_size f OR push_bit 4 (of_nat (length (fc_properties f)))
              OR (if fc_counts f = (0, 0) then 0x80 else 0))
        else c
    | Inline _ _ _ \<Rightarrow> c)"

definition set_stream_counts :: "coder \<Rightarrow> u64 \<Rightarrow> u64 \<Rightarrow> coder" where
  "set_stream_counts c input output =
     (let general = compact (Full ((promote c)\<lparr>fc_counts := (input, output)\<rparr>))
      in case c of
          Inline i p d \<Rightarrow>
            if (input, output) = (0, 0) \<or> (input, output) = (1, 1) then
              Inline i p ((d AND 0x7f) OR (if input = 0 then 0x80 else 0))
            else general
        | Full _ \<Rightarrow> general)"

text \<open>\<^verbatim>\<open>set_id_size\<close>: the ID length is at most 15 (asserted).\<close>

definition set_id_size :: "coder \<Rightarrow> u8 \<Rightarrow> coder result" where
  "set_id_size c n =
     (if 15 < n then Inl (Panic ''method ID exceeds wire width'')
      else Inr (case c of
          Inline i p d \<Rightarrow> Inline i p ((d AND 0xf0) OR n)
        | Full f \<Rightarrow> Full (f\<lparr>fc_id_size := n\<rparr>)))"

definition set_properties :: "coder \<Rightarrow> byte list \<Rightarrow> coder" where
  "set_properties c props =
     (let general = compact (Full ((promote c)\<lparr>fc_properties := props\<rparr>))
      in case c of
          Inline i p d \<Rightarrow>
            if length props \<le> 7 then
              Inline i (props @ replicate (7 - length props) 0)
                ((d AND 0x8f) OR push_bit 4 (of_nat (length props)))
            else general
        | Full _ \<Rightarrow> general)"

text \<open>Filling \<^verbatim>\<open>decompression_method_id_mut\<close>, a slice of the ID's length.\<close>

definition write_method_id :: "coder \<Rightarrow> byte list \<Rightarrow> coder" where
  "write_method_id c bs = (case c of
      Inline i p d \<Rightarrow> Inline (bs @ drop (length bs) i) p d
    | Full f \<Rightarrow> Full (f\<lparr>fc_id := bs @ drop (length bs) (fc_id f)\<rparr>))"

definition coder_default :: coder where
  "coder_default = set_stream_counts single_stream 0 0"

text \<open>\<^verbatim>\<open>PartialEq for Coder\<close> compares the views.\<close>

definition coder_eq :: "coder \<Rightarrow> coder \<Rightarrow> bool" where
  "coder_eq c d \<longleftrightarrow> encoder_method_id c = encoder_method_id d \<and> properties c = properties d
     \<and> counts c = counts d"

definition coder_wf :: "coder \<Rightarrow> bool" where
  "coder_wf c \<longleftrightarrow> (case c of
      Inline i p d \<Rightarrow> length i = 15 \<and> length p = 7
    | Full f \<Rightarrow> length (fc_id f) = 15 \<and> fc_id_size f \<le> 15)"

section \<open>The packed coder representation\<close>

lemma u8_eqI:
  assumes "bit x 0 = bit y 0" "bit x 1 = bit y 1" "bit x 2 = bit y 2" "bit x 3 = bit y 3"
    "bit x 4 = bit y 4" "bit x 5 = bit y 5" "bit x 6 = bit y 6" "bit x 7 = bit y 7"
  shows "x = (y :: u8)"
proof (rule bit_word_eqI)
  fix n assume "n < LENGTH(8)"
  then have "n = 0 \<or> n = 1 \<or> n = 2 \<or> n = 3 \<or> n = 4 \<or> n = 5 \<or> n = 6 \<or> n = 7"
    by simp arith
  with assms show "bit x n = bit y n" by auto
qed

lemma u8_low4: "n \<le> 15 \<Longrightarrow> n AND 15 = (n :: u8)"
proof -
  assume "n \<le> 15"
  then have "unat n < 2 ^ 4" by (simp add: word_le_nat_alt)
  then have "take_bit 4 n = n"
    by (metis take_bit_nat_eq_self unsigned_take_bit_eq word_unat_eq_iff unsigned_take_bit_eq)
  then show ?thesis by (simp add: take_bit_eq_mask mask_numeral)
qed

lemma u8_low4_bits: "n \<le> 15 \<Longrightarrow> \<not> bit (n :: u8) 4 \<and> \<not> bit n 5 \<and> \<not> bit n 6 \<and> \<not> bit n 7"
  by (drule u8_low4, erule subst) (simp add: bit_simps)

lemma u8_low3_bits: "k \<le> 7 \<Longrightarrow> \<not> bit (of_nat k :: u8) 3 \<and> \<not> bit (of_nat k :: u8) 4
   \<and> \<not> bit (of_nat k :: u8) 5 \<and> \<not> bit (of_nat k :: u8) 6 \<and> \<not> bit (of_nat k :: u8) 7"
proof -
  assume "k \<le> 7"
  then have "k = 0 \<or> k = 1 \<or> k = 2 \<or> k = 3 \<or> k = 4 \<or> k = 5 \<or> k = 6 \<or> k = 7" by arith
  then show ?thesis by (elim disjE) (simp_all)
qed

lemma unat_u8_7: "k \<le> 7 \<Longrightarrow> unat (of_nat k :: u8) = k"
  by (simp add: unsigned_of_nat take_bit_nat_eq_self)

text \<open>The descriptor's three fields do not interfere.\<close>

lemma desc_compact: fixes n f :: u8
  assumes "n \<le> 15" "k \<le> 7" "f = 0 \<or> f = 0x80"
  defines "d \<equiv> n OR push_bit 4 (of_nat k) OR f"
  shows "d AND 15 = n" "drop_bit 4 d AND 7 = of_nat k" "d AND 0x80 = (f :: u8)"
proof -
  note b = u8_low4_bits [OF assms(1)] u8_low3_bits [OF assms(2)]
  show "d AND 15 = n" "drop_bit 4 d AND 7 = of_nat k" "d AND 0x80 = (f :: u8)"
    unfolding d_def using b assms(3)
    by - (elim disjE, auto intro!: u8_eqI simp: bit_simps)+
qed

lemma desc_set_counts: fixes d f :: u8
  assumes "f = 0 \<or> f = 0x80"
  defines "e \<equiv> (d AND 0x7f) OR f"
  shows "e AND 15 = d AND 15" "drop_bit 4 e AND 7 = drop_bit 4 d AND 7" "e AND 0x80 = (f :: u8)"
  unfolding e_def using assms by - (elim disjE, auto intro!: u8_eqI simp: bit_simps)+

lemma desc_set_id: fixes d n :: u8
  assumes "n \<le> 15"
  defines "e \<equiv> (d AND 0xf0) OR n"
  shows "e AND 15 = n" "drop_bit 4 e AND 7 = drop_bit 4 d AND 7" "e AND 0x80 = d AND (0x80 :: u8)"
  unfolding e_def using u8_low4_bits [OF assms(1)] by - (auto intro!: u8_eqI simp: bit_simps)+

lemma desc_set_properties: fixes d :: u8
  assumes "k \<le> 7"
  defines "e \<equiv> (d AND 0x8f) OR push_bit 4 (of_nat k)"
  shows "e AND 15 = d AND 15" "drop_bit 4 e AND 7 = of_nat k" "e AND 0x80 = d AND (0x80 :: u8)"
  unfolding e_def using u8_low3_bits [OF assms(1)] by - (auto intro!: u8_eqI simp: bit_simps)+


text \<open>What each operation does to the view, and that it keeps the representation well formed.\<close>

lemma word4_le: "(d :: u8) AND 15 \<le> 15"
  by (rule word_and_le1)

lemma word3_le: "unat ((d :: u8) AND 7) \<le> 7"
  using word_and_le1 [of d 7] by (simp add: word_le_nat_alt)

lemmas coder_view_defs = encoder_method_id_def properties_def counts_def

lemma promote_view:
  "coder_wf c \<Longrightarrow> coder_wf (Full (promote c)) \<and> encoder_method_id (Full (promote c)) = encoder_method_id c
     \<and> properties (Full (promote c)) = properties c \<and> counts (Full (promote c)) = counts c"
  by (cases c) (auto simp: coder_view_defs promote_def coder_wf_def word4_le)

lemma compact_view:
  assumes "coder_wf c"
  shows "coder_wf (compact c) \<and> encoder_method_id (compact c) = encoder_method_id c
     \<and> properties (compact c) = properties c \<and> counts (compact c) = counts c"
proof (cases c)
  case (Full f)
  show ?thesis
  proof (cases "length (fc_properties f) \<le> 7 \<and> (fc_counts f = (0, 0) \<or> fc_counts f = (1, 1))")
    case True
    have le: "fc_id_size f \<le> 15" using assms by (simp add: Full coder_wf_def)
    note d = desc_compact [OF le, of "length (fc_properties f)" "if fc_counts f = (0, 0) then 0x80 else 0"]
    from True d assms show ?thesis
      by (auto simp: Full compact_def coder_view_defs coder_wf_def inline_counts_def unat_u8_7)
  qed (use assms in \<open>auto simp: Full compact_def\<close>)
qed (use assms in \<open>auto simp: compact_def\<close>)

lemma set_stream_counts_view:
  assumes "coder_wf c"
  shows "coder_wf (set_stream_counts c i k) \<and> encoder_method_id (set_stream_counts c i k) = encoder_method_id c
     \<and> properties (set_stream_counts c i k) = properties c \<and> counts (set_stream_counts c i k) = (i, k)"
proof -
  let ?f = "Full ((promote c)\<lparr>fc_counts := (i, k)\<rparr>)"
  have "coder_wf ?f \<and> encoder_method_id ?f = encoder_method_id c \<and> properties ?f = properties c
     \<and> counts ?f = (i, k)"
    using promote_view [OF assms] by (auto simp: coder_view_defs coder_wf_def)
  with compact_view [of ?f] have gen: "coder_wf (compact ?f) \<and> encoder_method_id (compact ?f) = encoder_method_id c
     \<and> properties (compact ?f) = properties c \<and> counts (compact ?f) = (i, k)" by simp
  show ?thesis
  proof (cases c)
    case (Inline a p d)
    with gen assms desc_set_counts [of "0x80" d] desc_set_counts [of "0" d] show ?thesis
      by (auto simp: set_stream_counts_def coder_view_defs coder_wf_def inline_counts_def)
  qed (use gen in \<open>auto simp: set_stream_counts_def\<close>)
qed

lemma set_properties_view:
  assumes "coder_wf c"
  shows "coder_wf (set_properties c ps) \<and> encoder_method_id (set_properties c ps) = encoder_method_id c
     \<and> properties (set_properties c ps) = ps \<and> counts (set_properties c ps) = counts c"
proof -
  let ?f = "Full ((promote c)\<lparr>fc_properties := ps\<rparr>)"
  have "coder_wf ?f \<and> encoder_method_id ?f = encoder_method_id c \<and> properties ?f = ps
     \<and> counts ?f = counts c"
    using promote_view [OF assms] by (auto simp: coder_view_defs coder_wf_def)
  with compact_view [of ?f] have gen: "coder_wf (compact ?f) \<and> encoder_method_id (compact ?f) = encoder_method_id c
     \<and> properties (compact ?f) = ps \<and> counts (compact ?f) = counts c" by simp
  show ?thesis
  proof (cases c)
    case (Inline a p d)
    with gen assms desc_set_properties [of "length ps" d] show ?thesis
      by (auto simp: set_properties_def coder_view_defs coder_wf_def inline_counts_def unat_u8_7)
  qed (use gen in \<open>auto simp: set_properties_def\<close>)
qed

lemma set_id_size_view:
  assumes "coder_wf c" "n \<le> 15"
  obtains c' where "set_id_size c n = Inr c'" "coder_wf c'" "length (encoder_method_id c') = unat n"
    "properties c' = properties c" "counts c' = counts c"
proof
  let ?c = "case c of Inline i p d \<Rightarrow> Inline i p ((d AND 0xf0) OR n) | Full f \<Rightarrow> Full (f\<lparr>fc_id_size := n\<rparr>)"
  have "unat n \<le> 15" using assms(2) by (simp add: word_le_nat_alt)
  then show "set_id_size c n = Inr ?c" "coder_wf ?c" "length (encoder_method_id ?c) = unat n"
    "properties ?c = properties c" "counts ?c = counts c"
    using assms desc_set_id [OF assms(2)]
    by (auto simp: set_id_size_def coder_view_defs coder_wf_def inline_counts_def
        split: coder.splits)
qed

lemma write_method_id_view:
  assumes "coder_wf c" "length bs = length (encoder_method_id c)"
  shows "coder_wf (write_method_id c bs) \<and> encoder_method_id (write_method_id c bs) = bs
     \<and> properties (write_method_id c bs) = properties c \<and> counts (write_method_id c bs) = counts c"
proof -
  have "unat (d AND 15) \<le> 15" for d :: u8 using word4_le [of d] by (simp add: word_le_nat_alt)
  moreover have "fc_id_size f \<le> 15 \<Longrightarrow> unat (fc_id_size f) \<le> 15" for f :: full_coder
    by (simp add: word_le_nat_alt)
  ultimately show ?thesis using assms
    by (cases c) (auto simp: write_method_id_def coder_view_defs coder_wf_def)
qed

lemma single_stream_view:
  "coder_wf single_stream \<and> encoder_method_id single_stream = [] \<and> properties single_stream = []
     \<and> counts single_stream = (1, 1)"
  by (simp add: single_stream_def coder_view_defs coder_wf_def inline_counts_def)

text \<open>
  The contract of a coder: what its three observers see after each of its operations. A client
  that builds a coder the way \<^verbatim>\<open>read_block\<close> does gets the fields it wrote, whichever storage
  the intermediate steps used.
\<close>

locale coder_storage =
  fixes wf :: "'c \<Rightarrow> bool"
    and mid :: "'c \<Rightarrow> byte list" and props :: "'c \<Rightarrow> byte list" and cnt :: "'c \<Rightarrow> u64 \<times> u64"
    and new :: 'c
    and set_id :: "'c \<Rightarrow> u8 \<Rightarrow> 'c result" and write_id :: "'c \<Rightarrow> byte list \<Rightarrow> 'c"
    and set_cnt :: "'c \<Rightarrow> u64 \<Rightarrow> u64 \<Rightarrow> 'c" and set_props :: "'c \<Rightarrow> byte list \<Rightarrow> 'c"
  assumes new: "wf new" "cnt new = (1, 1)" "props new = []"
    and set_id: "wf c \<Longrightarrow> n \<le> 15 \<Longrightarrow> \<exists>c'. set_id c n = Inr c' \<and> wf c' \<and> length (mid c') = unat n
                   \<and> props c' = props c \<and> cnt c' = cnt c"
    and write_id: "wf c \<Longrightarrow> length bs = length (mid c) \<Longrightarrow> wf (write_id c bs)
                   \<and> mid (write_id c bs) = bs \<and> props (write_id c bs) = props c
                   \<and> cnt (write_id c bs) = cnt c"
    and set_cnt: "wf c \<Longrightarrow> wf (set_cnt c i k) \<and> mid (set_cnt c i k) = mid c
                   \<and> props (set_cnt c i k) = props c \<and> cnt (set_cnt c i k) = (i, k)"
    and set_props: "wf c \<Longrightarrow> wf (set_props c ps) \<and> mid (set_props c ps) = mid c
                   \<and> props (set_props c ps) = ps \<and> cnt (set_props c ps) = cnt c"
begin

lemma id_built:
  assumes "length bs \<le> 15"
  obtains c where "set_id new (of_nat (length bs)) = Inr c" "wf (write_id c bs)"
    "mid (write_id c bs) = bs" "props (write_id c bs) = []" "cnt (write_id c bs) = (1, 1)"
proof -
  have u: "unat (of_nat (length bs) :: u8) = length bs"
    using assms by (simp add: unsigned_of_nat take_bit_nat_eq_self)
  have "(of_nat (length bs) :: u8) \<le> 15" using assms by (simp add: word_le_nat_alt u)
  from set_id [OF new(1) this] obtain c where c: "set_id new (of_nat (length bs)) = Inr c" "wf c"
    "length (mid c) = length bs" "props c = []" "cnt c = (1, 1)"
    using new u by auto
  from that [OF c(1)] write_id [OF c(2) c(3) [symmetric]] c show thesis by auto
qed

lemma rebuilt:
  assumes "wf c"
  shows "wf (set_props (set_cnt c i k) ps) \<and> mid (set_props (set_cnt c i k) ps) = mid c
     \<and> props (set_props (set_cnt c i k) ps) = ps \<and> cnt (set_props (set_cnt c i k) ps) = (i, k)"
  using set_cnt [OF assms, of i k] set_props by metis

end

interpretation cs: coder_storage coder_wf encoder_method_id properties counts single_stream
    set_id_size write_method_id set_stream_counts set_properties
proof
  fix c :: coder and n :: u8
  assume "coder_wf c" "n \<le> 15"
  then show "\<exists>c'. set_id_size c n = Inr c' \<and> coder_wf c' \<and> length (encoder_method_id c') = unat n
      \<and> properties c' = properties c \<and> counts c' = counts c"
    by (metis set_id_size_view)
qed (use single_stream_view set_stream_counts_view set_properties_view write_method_id_view in blast)+


section \<open>Blocks\<close>

record bind_pair =
  in_index :: u64
  out_index :: u64

record stream_graph =
  sg_total_input_streams :: nat
  sg_total_output_streams :: nat
  sg_bind_pairs :: "bind_pair list"
  sg_packed_streams :: "u64 list"
  sg_unpack_sizes :: "u64 list"

datatype block_streams =
    SEmpty
  | SSingle u64
  | SPairForward u64 u64
  | SPairReverse u64 u64
  | SGraph stream_graph

record block =
  coders :: "coder list"
  has_crc :: bool
  crc :: u64
  streams :: block_streams
  num_unpack_sub_streams :: nat

definition with_coders :: "coder list \<Rightarrow> block" where
  "with_coders cs = \<lparr>coders = cs, has_crc = False, crc = 0, streams = SEmpty,
     num_unpack_sub_streams = 0\<rparr>"

definition size_or_zero :: "u64 list \<Rightarrow> nat \<Rightarrow> u64" where
  "size_or_zero sizes i = (if i < length sizes then sizes ! i else 0)"

definition set_streams ::
    "block \<Rightarrow> nat \<Rightarrow> nat \<Rightarrow> bind_pair list \<Rightarrow> u64 list \<Rightarrow> u64 list \<Rightarrow> block" where
  "set_streams b ti to' binds packed sizes =
     (let pair = ti = 2 \<and> to' = 2 \<and> length binds = 1 \<and> (sizes = [] \<or> length sizes = 2)
      in b\<lparr>streams :=
        (if ti = 1 \<and> to' = 1 \<and> binds = [] \<and> packed = [0] \<and> length sizes \<le> 1 then
           SSingle (size_or_zero sizes 0)
         else if pair \<and> in_index (binds ! 0) = 1 \<and> out_index (binds ! 0) = 0 \<and> packed = [0] then
           SPairForward (size_or_zero sizes 0) (size_or_zero sizes 1)
         else if pair \<and> in_index (binds ! 0) = 0 \<and> out_index (binds ! 0) = 1 \<and> packed = [1] then
           SPairReverse (size_or_zero sizes 0) (size_or_zero sizes 1)
         else
           SGraph \<lparr>sg_total_input_streams = ti, sg_total_output_streams = to', sg_bind_pairs = binds,
                   sg_packed_streams = packed, sg_unpack_sizes = sizes\<rparr>)\<rparr>)"

definition total_input_streams :: "block \<Rightarrow> nat" where
  "total_input_streams b = (case streams b of
      SEmpty \<Rightarrow> 0 | SSingle _ \<Rightarrow> 1 | SPairForward _ _ \<Rightarrow> 2 | SPairReverse _ _ \<Rightarrow> 2
    | SGraph g \<Rightarrow> sg_total_input_streams g)"

definition total_output_streams :: "block \<Rightarrow> nat" where
  "total_output_streams b = (case streams b of
      SEmpty \<Rightarrow> 0 | SSingle _ \<Rightarrow> 1 | SPairForward _ _ \<Rightarrow> 2 | SPairReverse _ _ \<Rightarrow> 2
    | SGraph g \<Rightarrow> sg_total_output_streams g)"

definition bind_pairs :: "block \<Rightarrow> bind_pair list" where
  "bind_pairs b = (case streams b of
      SPairForward _ _ \<Rightarrow> [\<lparr>in_index = 1, out_index = 0\<rparr>]
    | SPairReverse _ _ \<Rightarrow> [\<lparr>in_index = 0, out_index = 1\<rparr>]
    | SGraph g \<Rightarrow> sg_bind_pairs g
    | _ \<Rightarrow> [])"

definition packed_streams :: "block \<Rightarrow> u64 list" where
  "packed_streams b = (case streams b of
      SEmpty \<Rightarrow> [] | SSingle _ \<Rightarrow> [0] | SPairForward _ _ \<Rightarrow> [0] | SPairReverse _ _ \<Rightarrow> [1]
    | SGraph g \<Rightarrow> sg_packed_streams g)"

definition unpack_sizes :: "block \<Rightarrow> u64 list" where
  "unpack_sizes b = (case streams b of
      SEmpty \<Rightarrow> [] | SSingle s \<Rightarrow> [s] | SPairForward s t \<Rightarrow> [s, t] | SPairReverse s t \<Rightarrow> [s, t]
    | SGraph g \<Rightarrow> sg_unpack_sizes g)"

text \<open>
  Assigning every element of \<^verbatim>\<open>unpack_sizes_mut\<close>, a slice as long as \<^verbatim>\<open>unpack_sizes\<close>.
\<close>

definition fill_unpack_sizes :: "block \<Rightarrow> u64 list \<Rightarrow> block" where
  "fill_unpack_sizes b ss = b\<lparr>streams := (case streams b of
      SEmpty \<Rightarrow> SEmpty
    | SSingle _ \<Rightarrow> SSingle (ss ! 0)
    | SPairForward _ _ \<Rightarrow> SPairForward (ss ! 0) (ss ! 1)
    | SPairReverse _ _ \<Rightarrow> SPairReverse (ss ! 0) (ss ! 1)
    | SGraph g \<Rightarrow> SGraph (g\<lparr>sg_unpack_sizes := ss\<rparr>))\<rparr>"

definition prepare_unpack_sizes :: "block \<Rightarrow> block" where
  "prepare_unpack_sizes b = (case streams b of
      SGraph g \<Rightarrow> b\<lparr>streams := SGraph (g\<lparr>sg_unpack_sizes :=
                    ss_deref (ss_with_len 1 0 (sg_total_output_streams g))\<rparr>)\<rparr>
    | _ \<Rightarrow> b)"

definition find_bind_pair_for_in_stream :: "block \<Rightarrow> u64 \<Rightarrow> bind_pair option" where
  "find_bind_pair_for_in_stream b i = find (\<lambda>bp. in_index bp = i) (bind_pairs b)"

definition find_bind_pair_for_out_stream :: "block \<Rightarrow> u64 \<Rightarrow> bind_pair option" where
  "find_bind_pair_for_out_stream b i = find (\<lambda>bp. out_index bp = i) (bind_pairs b)"

text \<open>The index \<^verbatim>\<open>get_unpack_size\<close> stops at, scanning down from \<open>n\<close>.\<close>

fun last_unbound_output :: "block \<Rightarrow> nat \<Rightarrow> nat option" where
  "last_unbound_output b 0 = None"
| "last_unbound_output b (Suc i) =
     (if find_bind_pair_for_out_stream b (of_nat i) = None then Some i else last_unbound_output b i)"

definition get_unpack_size :: "block \<Rightarrow> u64 result" where
  "get_unpack_size b = (case last_unbound_output b (total_output_streams b) of
      Some i \<Rightarrow> vec_get (unpack_sizes b) i
    | None \<Rightarrow> Inr 0)"

definition get_unpack_size_at_index :: "block \<Rightarrow> nat \<Rightarrow> u64" where
  "get_unpack_size_at_index b i = size_or_zero (unpack_sizes b) i"

definition ID_AES256_SHA256 :: "byte list" where
  "ID_AES256_SHA256 = [0x06, 0xF1, 0x07, 0x01]"

definition is_encrypted :: "block \<Rightarrow> bool" where
  "is_encrypted b \<longleftrightarrow> (\<exists>c \<in> set (coders b). encoder_method_id c = ID_AES256_SHA256)"

text \<open>
  \<^verbatim>\<open>OrderedCoderIter::next\<close>: from \<open>(current, remaining)\<close>, the item yielded and the next state.
\<close>

type_synonym coder_iter = "u64 option \<times> nat"

definition ordered_coder_iter :: "block \<Rightarrow> coder_iter" where
  "ordered_coder_iter b =
     ((case packed_streams b of [] \<Rightarrow> None | i # _ \<Rightarrow> Some i), length (coders b))"

definition iter_next :: "block \<Rightarrow> coder_iter \<Rightarrow> (nat \<times> coder) option \<times> coder_iter" where
  "iter_next b st = (case st of (current, remaining) \<Rightarrow>
     if remaining = 0 then (None, st)
     else (case current of
         None \<Rightarrow> (None, st)
       | Some i \<Rightarrow>
           let current' = map_option in_index (find_bind_pair_for_out_stream b i)
           in if unat i < length (coders b)
              then (Some (unat i, coders b ! unat i), (current', remaining - 1))
              else (None, (current', remaining))))"

text \<open>Collecting the iterator: \<^verbatim>\<open>next\<close> until it yields nothing.\<close>

function collect :: "block \<Rightarrow> coder_iter \<Rightarrow> (nat \<times> coder) list" where
  "collect b st = (case iter_next b st of
      (Some x, st') \<Rightarrow> x # collect b st'
    | (None, _) \<Rightarrow> [])"
  by pat_completeness auto
termination
  by (relation "measure (\<lambda>(b, st). snd st)")
     (auto simp: iter_next_def Let_def split: prod.splits option.splits if_splits)

declare collect.simps [simp del]

section \<open>The compact stream tables\<close>

lemmas block_table_defs = total_input_streams_def total_output_streams_def bind_pairs_def
  packed_streams_def unpack_sizes_def

lemma singleton_pair: "length xs = 1 \<Longrightarrow> xs = [\<lparr>in_index = in_index (xs ! 0), out_index = out_index (xs ! 0)\<rparr>]"
  for xs :: "bind_pair list"
  by (cases xs) auto

lemma set_streams_tables:
  "total_input_streams (set_streams b ti to' binds packed sizes) = ti"
  "total_output_streams (set_streams b ti to' binds packed sizes) = to'"
  "bind_pairs (set_streams b ti to' binds packed sizes) = binds"
  "packed_streams (set_streams b ti to' binds packed sizes) = packed"
  using singleton_pair [of binds]
  by (auto simp: set_streams_def block_table_defs Let_def)

lemma set_streams_other [simp]:
  "coders (set_streams b ti to' binds packed sizes) = coders b"
  "has_crc (set_streams b ti to' binds packed sizes) = has_crc b"
  "crc (set_streams b ti to' binds packed sizes) = crc b"
  "num_unpack_sub_streams (set_streams b ti to' binds packed sizes) = num_unpack_sub_streams b"
  by (simp_all add: set_streams_def Let_def)

lemma list_of_length_2: "length xs = 2 \<Longrightarrow> xs = [xs ! 0, xs ! 1]"
  by (cases xs; cases "tl xs") auto

lemma set_streams_sizes:
  assumes "length sizes = to'"
  shows "unpack_sizes (set_streams b ti to' binds packed sizes) = sizes"
proof -
  have "length sizes = 1 \<Longrightarrow> sizes = [sizes ! 0]" by (cases sizes) auto
  then show ?thesis
    using assms list_of_length_2 [of sizes]
    by (auto simp: set_streams_def unpack_sizes_def Let_def size_or_zero_def)
qed

lemma prepare_unpack_sizes_tables [simp]:
  "total_input_streams (prepare_unpack_sizes b) = total_input_streams b"
  "total_output_streams (prepare_unpack_sizes b) = total_output_streams b"
  "bind_pairs (prepare_unpack_sizes b) = bind_pairs b"
  "packed_streams (prepare_unpack_sizes b) = packed_streams b"
  "coders (prepare_unpack_sizes b) = coders b"
  "has_crc (prepare_unpack_sizes b) = has_crc b"
  "crc (prepare_unpack_sizes b) = crc b"
  "num_unpack_sub_streams (prepare_unpack_sizes b) = num_unpack_sub_streams b"
  by (cases "streams b"; simp add: prepare_unpack_sizes_def block_table_defs)+

lemma prepare_unpack_sizes_len:
  "length (unpack_sizes (prepare_unpack_sizes b)) = total_output_streams b"
  by (cases "streams b") (auto simp: prepare_unpack_sizes_def block_table_defs ss_deref_with_len)

lemma set_streams_prepare:
  "unpack_sizes (prepare_unpack_sizes (set_streams b ti to' binds packed [])) = replicate to' 0"
  by (auto simp: set_streams_def prepare_unpack_sizes_def unpack_sizes_def Let_def size_or_zero_def
      ss_deref_with_len numeral_2_eq_2)

lemma fill_unpack_sizes_sizes:
  "length ss = length (unpack_sizes b) \<Longrightarrow> unpack_sizes (fill_unpack_sizes b ss) = ss"
  by (cases "streams b"; cases ss; cases "tl ss") (auto simp: fill_unpack_sizes_def block_table_defs)

lemma fill_unpack_sizes_other [simp]:
  "total_input_streams (fill_unpack_sizes b ss) = total_input_streams b"
  "total_output_streams (fill_unpack_sizes b ss) = total_output_streams b"
  "bind_pairs (fill_unpack_sizes b ss) = bind_pairs b"
  "packed_streams (fill_unpack_sizes b ss) = packed_streams b"
  "coders (fill_unpack_sizes b ss) = coders b"
  "has_crc (fill_unpack_sizes b ss) = has_crc b"
  "crc (fill_unpack_sizes b ss) = crc b"
  "num_unpack_sub_streams (fill_unpack_sizes b ss) = num_unpack_sub_streams b"
  by (cases "streams b"; simp add: fill_unpack_sizes_def block_table_defs)+

lemma vec_get_in_range: "i < length xs \<Longrightarrow> vec_get xs i = Inr (xs ! i)"
  by (simp add: vec_get_def)

lemma last_unbound_output_lt: "last_unbound_output b n = Some i \<Longrightarrow> i < n"
  by (induction n) (auto split: if_splits intro: less_SucI)

lemma get_unpack_size_ok:
  "length (unpack_sizes b) = total_output_streams b \<Longrightarrow> \<exists>v. get_unpack_size b = Inr v"
  using last_unbound_output_lt [of b "total_output_streams b"]
  by (auto simp: get_unpack_size_def vec_get_in_range split: option.splits)

lemma collect_length: "length (collect b st) \<le> snd st"
proof (induction b st rule: collect.induct)
  case (1 b st)
  then show ?case
    by (subst collect.simps)
       (fastforce simp: iter_next_def Let_def split: prod.splits option.splits if_splits)
qed

lemma iter_next_Some:
  "iter_next b st = (Some (i, c), st') \<Longrightarrow>
     i < length (coders b) \<and> c = coders b ! i \<and> fst st = Some (of_nat i) \<and> snd st = Suc (snd st') \<and>
     fst st' = map_option in_index (find_bind_pair_for_out_stream b (of_nat i))"
  by (auto simp: iter_next_def Let_def split: prod.splits option.splits if_splits)

lemma collect_items: "(i, c) \<in> set (collect b st) \<Longrightarrow> i < length (coders b) \<and> c = coders b ! i"
proof (induction b st rule: collect.induct)
  case (1 b st)
  show ?case
  proof (cases "iter_next b st")
    case (fields x cur rem)
    show ?thesis
    proof (cases x)
      case None
      with 1(2) fields show ?thesis by (subst (asm) collect.simps) simp
    next
      case (Some y)
      with 1(2) fields have "(i, c) = y \<or> (i, c) \<in> set (collect b (cur, rem))"
        by (subst (asm) collect.simps) auto
      with 1(1) [of x "(cur, rem)" y] fields Some iter_next_Some [of b st] show ?thesis by auto
    qed
  qed
qed

end
