(* ===== verification/Unicode.thy ===== *)
theory Unicode
  imports Wire
begin

text \<open>
  The encodings of a Rust \<^verbatim>\<open>String\<close> the archive code uses: \<^verbatim>\<open>str::encode_utf16\<close> (the writer),
  \<^verbatim>\<open>String::from_utf16\<close> (the reader's \<^verbatim>\<open>NamesReader\<close>) and \<^verbatim>\<open>str::as_bytes\<close> (UTF-8).
\<close>

definition scalar_value :: "nat \<Rightarrow> bool" where
  "scalar_value c \<longleftrightarrow> c < 0xD800 \<or> 0xDFFF < c \<and> c < 0x110000"

definition encode_utf16_char :: "nat \<Rightarrow> u16 list" where
  "encode_utf16_char c =
     (if c < 0x10000 then [of_nat c]
      else [of_nat (0xD800 + (c - 0x10000) div 0x400), of_nat (0xDC00 + (c - 0x10000) mod 0x400)])"

definition encode_utf16 :: "ustring \<Rightarrow> u16 list" where
  "encode_utf16 s = concat (map encode_utf16_char s)"

definition high_surrogate :: "u16 \<Rightarrow> bool" where
  "high_surrogate u \<longleftrightarrow> 0xD800 \<le> unat u \<and> unat u < 0xDC00"

definition low_surrogate :: "u16 \<Rightarrow> bool" where
  "low_surrogate u \<longleftrightarrow> 0xDC00 \<le> unat u \<and> unat u < 0xE000"

fun from_utf16 :: "u16 list \<Rightarrow> ustring option" where
  "from_utf16 [] = Some []"
| "from_utf16 (u # us) =
     (if \<not> high_surrogate u \<and> \<not> low_surrogate u then map_option (\<lambda>s. unat u # s) (from_utf16 us)
      else if low_surrogate u then None
      else case us of
          [] \<Rightarrow> None
        | v # vs \<Rightarrow>
            if low_surrogate v then
              map_option (\<lambda>s. (0x10000 + (unat u - 0xD800) * 0x400 + (unat v - 0xDC00)) # s)
                (from_utf16 vs)
            else None)"

definition utf8_char :: "nat \<Rightarrow> byte list" where
  "utf8_char c =
     (if c < 0x80 then [of_nat c]
      else if c < 0x800 then [of_nat (0xC0 + c div 0x40), of_nat (0x80 + c mod 0x40)]
      else if c < 0x10000 then
        [of_nat (0xE0 + c div 0x1000), of_nat (0x80 + c div 0x40 mod 0x40), of_nat (0x80 + c mod 0x40)]
      else [of_nat (0xF0 + c div 0x40000), of_nat (0x80 + c div 0x1000 mod 0x40),
            of_nat (0x80 + c div 0x40 mod 0x40), of_nat (0x80 + c mod 0x40)])"

definition as_bytes :: "ustring \<Rightarrow> byte list" where
  "as_bytes s = concat (map utf8_char s)"

lemma surrogate_code [code]:
  "high_surrogate u \<longleftrightarrow> 0xD800 \<le> u \<and> u < 0xDC00"
  "low_surrogate u \<longleftrightarrow> 0xDC00 \<le> u \<and> u < 0xE000"
  by (simp_all add: high_surrogate_def low_surrogate_def word_le_nat_alt word_less_nat_alt)

lemma unat_u16: "n < 0x10000 \<Longrightarrow> unat (of_nat n :: u16) = n"
  by (simp add: unsigned_of_nat take_bit_nat_eq_self)

lemma from_encode_char:
  assumes "scalar_value c"
  shows "from_utf16 (encode_utf16_char c @ us) = map_option ((#) c) (from_utf16 us)"
proof (cases "c < 0x10000")
  case True
  then have "unat (of_nat c :: u16) = c" by (rule unat_u16)
  then show ?thesis
    using True assms
    by (auto simp: encode_utf16_char_def high_surrogate_def low_surrogate_def scalar_value_def)
next
  case False
  let ?h = "0xD800 + (c - 0x10000) div 0x400" and ?l = "0xDC00 + (c - 0x10000) mod 0x400"
  have "?h < 0xDC00" using assms False by (simp add: scalar_value_def)
  then have h: "unat (of_nat ?h :: u16) = ?h" by (intro unat_u16) linarith
  have "?l < 0xE000" using mod_less_divisor [of "0x400" "c - 0x10000"] by linarith
  then have l: "unat (of_nat ?l :: u16) = ?l" by (intro unat_u16) linarith
  have hs: "high_surrogate (of_nat ?h)" "\<not> low_surrogate (of_nat ?h)" "low_surrogate (of_nat ?l)"
    using \<open>?h < 0xDC00\<close> \<open>?l < 0xE000\<close> unfolding high_surrogate_def low_surrogate_def h l by auto
  have "0x10000 + (?h - 0xD800) * 0x400 + (?l - 0xDC00) = c"
    using False by simp
  then show ?thesis
    using False hs unfolding encode_utf16_char_def
    by (simp only: if_False append_Cons append_Nil from_utf16.simps h l list.case if_True simp_thms)
qed

lemma from_encode_utf16: "list_all scalar_value s \<Longrightarrow> from_utf16 (encode_utf16 s) = Some s"
  by (induction s) (simp_all add: encode_utf16_def from_encode_char)

lemma of_nat_u16_nonzero: "0 < n \<Longrightarrow> n < 0x10000 \<Longrightarrow> of_nat n \<noteq> (0 :: u16)"
  using unat_u16 [of n] by (metis neq0_conv unsigned_0)

lemma encode_char_no_nul:
  assumes "c \<noteq> 0" "scalar_value c" "u \<in> set (encode_utf16_char c)"
  shows "u \<noteq> 0"
proof (cases "c < 0x10000")
  case True
  then show ?thesis
    using assms of_nat_u16_nonzero [of c] by (simp add: encode_utf16_char_def)
next
  case False
  let ?h = "0xD800 + (c - 0x10000) div 0x400" and ?l = "0xDC00 + (c - 0x10000) mod 0x400"
  have "?h < 0x10000" "?l < 0x10000"
    using assms(2) False mod_less_divisor [of "0x400" "c - 0x10000"] by (simp_all add: scalar_value_def)
  then have "of_nat ?h \<noteq> (0 :: u16)" "of_nat ?l \<noteq> (0 :: u16)"
    using of_nat_u16_nonzero [of ?h] of_nat_u16_nonzero [of ?l] by linarith+
  moreover have "u = of_nat ?h \<or> u = of_nat ?l"
    using assms(3) False by (simp only: encode_utf16_char_def if_False list.set) blast
  ultimately show ?thesis by metis
qed

lemma encode_utf16_no_nul: "0 \<notin> set s \<Longrightarrow> list_all scalar_value s \<Longrightarrow> 0 \<notin> set (encode_utf16 s)"
  by (induction s) (auto simp: encode_utf16_def dest: encode_char_no_nul [rotated 2])

end
