(* ===== verification/Archive_Model.thy ===== *)
theory Archive_Model
  imports Block_Model Unicode
begin

text \<open>
  The parsed archive (\<^verbatim>\<open>src/src/archive.rs\<close>): property identifiers, entries and their Unix mode,
  the check of entry names, the table of methods, the stream map's sub-stream offsets; and the
  Windows file times entries carry (\<^verbatim>\<open>src/src/time.rs\<close>).
\<close>

section \<open>Constants\<close>

definition SIGNATURE_HEADER_SIZE :: u64 where "SIGNATURE_HEADER_SIZE = 32"
definition SEVEN_Z_SIGNATURE :: "byte list" where
  "SEVEN_Z_SIGNATURE = [0x37, 0x7A, 0xBC, 0xAF, 0x27, 0x1C]"

abbreviation (input) K_END :: u8 where "K_END \<equiv> 0x00"
abbreviation (input) K_HEADER :: u8 where "K_HEADER \<equiv> 0x01"
abbreviation (input) K_ARCHIVE_PROPERTIES :: u8 where "K_ARCHIVE_PROPERTIES \<equiv> 0x02"
abbreviation (input) K_ADDITIONAL_STREAMS_INFO :: u8 where "K_ADDITIONAL_STREAMS_INFO \<equiv> 0x03"
abbreviation (input) K_MAIN_STREAMS_INFO :: u8 where "K_MAIN_STREAMS_INFO \<equiv> 0x04"
abbreviation (input) K_FILES_INFO :: u8 where "K_FILES_INFO \<equiv> 0x05"
abbreviation (input) K_PACK_INFO :: u8 where "K_PACK_INFO \<equiv> 0x06"
abbreviation (input) K_UNPACK_INFO :: u8 where "K_UNPACK_INFO \<equiv> 0x07"
abbreviation (input) K_SUB_STREAMS_INFO :: u8 where "K_SUB_STREAMS_INFO \<equiv> 0x08"
abbreviation (input) K_SIZE :: u8 where "K_SIZE \<equiv> 0x09"
abbreviation (input) K_CRC :: u8 where "K_CRC \<equiv> 0x0A"
abbreviation (input) K_FOLDER :: u8 where "K_FOLDER \<equiv> 0x0B"
abbreviation (input) K_CODERS_UNPACK_SIZE :: u8 where "K_CODERS_UNPACK_SIZE \<equiv> 0x0C"
abbreviation (input) K_NUM_UNPACK_STREAM :: u8 where "K_NUM_UNPACK_STREAM \<equiv> 0x0D"
abbreviation (input) K_EMPTY_STREAM :: u8 where "K_EMPTY_STREAM \<equiv> 0x0E"
abbreviation (input) K_EMPTY_FILE :: u8 where "K_EMPTY_FILE \<equiv> 0x0F"
abbreviation (input) K_ANTI :: u8 where "K_ANTI \<equiv> 0x10"
abbreviation (input) K_NAME :: u8 where "K_NAME \<equiv> 0x11"
abbreviation (input) K_C_TIME :: u8 where "K_C_TIME \<equiv> 0x12"
abbreviation (input) K_A_TIME :: u8 where "K_A_TIME \<equiv> 0x13"
abbreviation (input) K_M_TIME :: u8 where "K_M_TIME \<equiv> 0x14"
abbreviation (input) K_WIN_ATTRIBUTES :: u8 where "K_WIN_ATTRIBUTES \<equiv> 0x15"
abbreviation (input) K_ENCODED_HEADER :: u8 where "K_ENCODED_HEADER \<equiv> 0x17"
abbreviation (input) K_START_POS :: u8 where "K_START_POS \<equiv> 0x18"
abbreviation (input) K_DUMMY :: u8 where "K_DUMMY \<equiv> 0x19"

section \<open>Windows file times\<close>

text \<open>
  \<^verbatim>\<open>NtTime\<close>: 100 ns units since 1601. A \<^verbatim>\<open>SystemTime\<close> is its signed number of nanoseconds since
  the Unix epoch; the platform's range is that of 64-bit seconds (Unix).
\<close>

datatype nt_time_error = Negative | Overflow

type_synonym nt_time = u64
type_synonym system_time = int

definition FILE_TIMES_PER_SEC :: int where "FILE_TIMES_PER_SEC = 10000000"

definition UNIX_EPOCH :: nt_time where "UNIX_EPOCH = 134774 * 86400 * 10000000"

definition nt_epoch_nanos :: int where "nt_epoch_nanos = - (uint UNIX_EPOCH * 100)"

definition system_time_range :: "system_time \<Rightarrow> bool" where
  "system_time_range st \<longleftrightarrow> - (2 ^ 63) \<le> st div 1000000000 \<and> st div 1000000000 < 2 ^ 63"

definition nt_time_of_i64 :: "int \<Rightarrow> nt_time_error + nt_time" where
  "nt_time_of_i64 ft = (if ft < 0 then Inl Negative else Inr (word_of_int ft))"

definition checked_system_time :: "nt_time \<Rightarrow> system_time option" where
  "checked_system_time t =
     (let secs = uint t div FILE_TIMES_PER_SEC; nanos = uint t mod FILE_TIMES_PER_SEC * 100;
          st = nt_epoch_nanos + secs * 1000000000 + nanos
      in if system_time_range st then Some st else None)"

definition nt_time_of_system :: "system_time \<Rightarrow> nt_time_error + nt_time" where
  "nt_time_of_system st =
     (let elapsed = st - nt_epoch_nanos
      in if elapsed < 0 then Inl Negative
         else if 2 ^ 64 \<le> elapsed div 100 then Inl Overflow
         else Inr (word_of_int (elapsed div 100)))"

section \<open>Entries\<close>

record archive_entry =
  ae_name :: ustring
  ae_has_stream :: bool
  ae_is_directory :: bool
  ae_is_anti_item :: bool
  ae_has_creation_date :: bool
  ae_has_last_modified_date :: bool
  ae_has_access_date :: bool
  ae_creation_date :: nt_time
  ae_last_modified_date :: nt_time
  ae_access_date :: nt_time
  ae_has_windows_attributes :: bool
  ae_windows_attributes :: u32
  ae_has_crc :: bool
  ae_crc :: u64
  ae_compressed_crc :: u64
  ae_size :: u64
  ae_compressed_size :: u64

definition entry_default :: archive_entry where
  "entry_default = \<lparr>ae_name = [], ae_has_stream = False, ae_is_directory = False,
     ae_is_anti_item = False, ae_has_creation_date = False, ae_has_last_modified_date = False,
     ae_has_access_date = False, ae_creation_date = 0, ae_last_modified_date = 0,
     ae_access_date = 0, ae_has_windows_attributes = False, ae_windows_attributes = 0,
     ae_has_crc = False, ae_crc = 0, ae_compressed_crc = 0, ae_size = 0, ae_compressed_size = 0\<rparr>"

definition new_file :: "ustring \<Rightarrow> archive_entry" where
  "new_file n = entry_default\<lparr>ae_name := n, ae_has_stream := True\<rparr>"

definition new_directory :: "ustring \<Rightarrow> archive_entry" where
  "new_directory n = entry_default\<lparr>ae_name := n, ae_is_directory := True\<rparr>"

definition UNIX_EXTENSION :: u32 where "UNIX_EXTENSION = 0x8000"

definition unix_mode :: "archive_entry \<Rightarrow> u32 option" where
  "unix_mode e =
     (if ae_has_windows_attributes e \<and> ae_windows_attributes e AND UNIX_EXTENSION \<noteq> 0
      then Some (drop_bit 16 (ae_windows_attributes e)) else None)"

definition is_symlink :: "archive_entry \<Rightarrow> bool" where
  "is_symlink e \<longleftrightarrow>
     (case unix_mode e of Some mode \<Rightarrow> mode AND 0xF000 = 0xA000 | None \<Rightarrow> False)
     \<or> ae_has_windows_attributes e \<and> ae_windows_attributes e AND 0x400 \<noteq> 0"

subsection \<open>Names that are not safe to join\<close>

definition is_separator :: "nat \<Rightarrow> bool" where
  "is_separator c \<longleftrightarrow> c = 0x2F \<or> c = 0x5C"

text \<open>\<^verbatim>\<open>str::split\<close> on the two separators; there is always at least one component.\<close>

fun split_components :: "ustring \<Rightarrow> ustring list" where
  "split_components [] = [[]]"
| "split_components (c # cs) =
     (if is_separator c then [] # split_components cs
      else case split_components cs of [] \<Rightarrow> [[c]] | p # ps \<Rightarrow> (c # p) # ps)"

definition ascii_alphabetic :: "u8 \<Rightarrow> bool" where
  "ascii_alphabetic b \<longleftrightarrow> 0x41 \<le> b \<and> b \<le> 0x5A \<or> 0x61 \<le> b \<and> b \<le> 0x7A"

definition names_drive :: "ustring \<Rightarrow> bool" where
  "names_drive s \<longleftrightarrow> (let b = as_bytes s in
     2 \<le> length b \<and> b ! 1 = 0x3A \<and> ascii_alphabetic (b ! 0))"

definition dot_dot :: ustring where "dot_dot = [0x2E, 0x2E]"

definition unsafe_path_reason :: "ustring \<Rightarrow> string option" where
  "unsafe_path_reason s =
     (if s = [] then Some ''the entry has no name''
      else if 0 \<in> set s then Some ''the name contains a NUL''
      else if is_separator (hd s) then Some ''the name is an absolute path''
      else if names_drive s then Some ''the name names a drive''
      else if dot_dot \<in> set (split_components s)
      then Some ''the name walks out of the extraction directory''
      else None)"

definition is_unsafe_path :: "archive_entry \<Rightarrow> bool" where
  "is_unsafe_path e \<longleftrightarrow> unsafe_path_reason (ae_name e) \<noteq> None"

section \<open>Methods\<close>

text \<open>\<^verbatim>\<open>EncoderMethod\<close>: a name and the identifier bytes; the table is searched in order.\<close>

type_synonym encoder_method = "string \<times> byte list"

definition ID_COPY :: "byte list" where "ID_COPY = [0x00]"
definition ID_DELTA :: "byte list" where "ID_DELTA = [0x03]"
definition ID_LZMA :: "byte list" where "ID_LZMA = [0x03, 0x01, 0x01]"
definition ID_BCJ_X86 :: "byte list" where "ID_BCJ_X86 = [0x03, 0x03, 0x01, 0x03]"
definition ID_BCJ2 :: "byte list" where "ID_BCJ2 = [0x03, 0x03, 0x01, 0x1B]"
definition ID_BCJ_PPC :: "byte list" where "ID_BCJ_PPC = [0x03, 0x03, 0x02, 0x05]"
definition ID_BCJ_IA64 :: "byte list" where "ID_BCJ_IA64 = [0x03, 0x03, 0x04, 0x01]"
definition ID_BCJ_ARM :: "byte list" where "ID_BCJ_ARM = [0x03, 0x03, 0x05, 0x01]"
definition ID_BCJ_ARM64 :: "byte list" where "ID_BCJ_ARM64 = [0xA]"
definition ID_BCJ_ARM_THUMB :: "byte list" where "ID_BCJ_ARM_THUMB = [0x03, 0x03, 0x07, 0x01]"
definition ID_BCJ_SPARC :: "byte list" where "ID_BCJ_SPARC = [0x03, 0x03, 0x08, 0x05]"
definition ID_BCJ_RISCV :: "byte list" where "ID_BCJ_RISCV = [0xB]"
definition ID_PPMD :: "byte list" where "ID_PPMD = [0x03, 0x04, 0x01]"
definition ID_LZMA2 :: "byte list" where "ID_LZMA2 = [0x21]"
definition ID_BZIP2 :: "byte list" where "ID_BZIP2 = [0x04, 0x02, 0x02]"
definition ID_ZSTD :: "byte list" where "ID_ZSTD = [0x04, 0xF7, 0x11, 0x01]"
definition ID_BROTLI :: "byte list" where "ID_BROTLI = [0x04, 0xF7, 0x11, 0x02]"
definition ID_LZ4 :: "byte list" where "ID_LZ4 = [0x04, 0xF7, 0x11, 0x04]"
definition ID_LZS :: "byte list" where "ID_LZS = [0x04, 0xF7, 0x11, 0x05]"
definition ID_LIZARD :: "byte list" where "ID_LIZARD = [0x04, 0xF7, 0x11, 0x06]"
definition ID_DEFLATE :: "byte list" where "ID_DEFLATE = [0x04, 0x01, 0x08]"
definition ID_DEFLATE64 :: "byte list" where "ID_DEFLATE64 = [0x04, 0x01, 0x09]"

lemmas method_id_defs = ID_COPY_def ID_DELTA_def ID_LZMA_def ID_BCJ_X86_def ID_BCJ2_def
  ID_BCJ_PPC_def ID_BCJ_IA64_def ID_BCJ_ARM_def ID_BCJ_ARM64_def ID_BCJ_ARM_THUMB_def
  ID_BCJ_SPARC_def ID_BCJ_RISCV_def ID_PPMD_def ID_LZMA2_def ID_BZIP2_def ID_ZSTD_def
  ID_BROTLI_def ID_LZ4_def ID_LZS_def ID_LIZARD_def ID_DEFLATE_def ID_DEFLATE64_def
  ID_AES256_SHA256_def

definition ENCODING_METHODS :: "encoder_method list" where
  "ENCODING_METHODS =
     [(''COPY'', ID_COPY), (''LZMA'', ID_LZMA), (''LZMA2'', ID_LZMA2), (''PPMD'', ID_PPMD),
      (''BZIP2'', ID_BZIP2), (''ZSTD'', ID_ZSTD), (''BROTLI'', ID_BROTLI), (''LZ4'', ID_LZ4),
      (''LZS'', ID_LZS), (''LIZARD'', ID_LIZARD), (''DEFLATE'', ID_DEFLATE),
      (''DEFLATE64'', ID_DEFLATE64), (''AES256_SHA256'', ID_AES256_SHA256),
      (''BCJ_X86'', ID_BCJ_X86), (''BCJ_PPC'', ID_BCJ_PPC), (''BCJ_IA64'', ID_BCJ_IA64),
      (''BCJ_ARM'', ID_BCJ_ARM), (''BCJ_ARM64'', ID_BCJ_ARM64),
      (''BCJ_ARM_THUMB'', ID_BCJ_ARM_THUMB), (''BCJ_SPARC'', ID_BCJ_SPARC),
      (''BCJ_RISCV'', ID_BCJ_RISCV), (''DELTA'', ID_DELTA), (''BCJ2'', ID_BCJ2)]"

definition by_id :: "byte list \<Rightarrow> encoder_method option" where
  "by_id i = find (\<lambda>m. snd m = i) ENCODING_METHODS"

section \<open>The archive\<close>

record sub_streams_info =
  ssi_unpack_sizes :: "u64 list"
  ssi_has_crc :: bit_set
  ssi_crcs :: "u32 list"

datatype sub_stream_offsets = Identity nat | Explicit "nat list"

text \<open>\<^verbatim>\<open>SubStreamOffsets::from_counts\<close>; the running offset is a \<^verbatim>\<open>usize\<close>.\<close>

fun offsets_loop :: "nat \<Rightarrow> nat list \<Rightarrow> nat list result" where
  "offsets_loop next [] = Inr []"
| "offsets_loop next (count # cs) =
     (if usize_max < next + count then Inl (Corrupted ''sub-stream index overflow'')
      else bindE (offsets_loop (next + count) cs) (\<lambda>os. Inr (next # os)))"

definition from_counts :: "nat list \<Rightarrow> sub_stream_offsets result" where
  "from_counts cs =
     (if list_all (\<lambda>c. c = 1) cs then Inr (Identity (length cs))
      else bindE (offsets_loop 0 cs) (\<lambda>os. Inr (Explicit os)))"

definition sso_get :: "sub_stream_offsets \<Rightarrow> nat \<Rightarrow> nat option" where
  "sso_get o' i = (case o' of
      Identity len \<Rightarrow> if i < len then Some i else None
    | Explicit offsets \<Rightarrow> get offsets i)"

record stream_map =
  sm_block_first_pack_stream_index :: "nat list"
  sm_pack_stream_offsets :: "u64 list"
  sm_block_first_sub_stream_index :: sub_stream_offsets
  sm_block_first_file_index :: "nat list"
  sm_file_block_index :: "nat option list"

record archive =
  ar_pack_pos :: u64
  ar_pack_sizes :: "u64 list"
  ar_pack_crcs_defined :: bit_set
  ar_pack_crcs :: "u64 list"
  ar_sub_streams_info :: "sub_streams_info option"
  ar_blocks :: "block list"
  ar_files :: "archive_entry list"
  ar_stream_map :: stream_map
  ar_is_solid :: bool

definition stream_map_default :: stream_map where
  "stream_map_default = \<lparr>sm_block_first_pack_stream_index = [], sm_pack_stream_offsets = [],
     sm_block_first_sub_stream_index = Identity 0, sm_block_first_file_index = [],
     sm_file_block_index = []\<rparr>"

definition archive_default :: archive where
  "archive_default = \<lparr>ar_pack_pos = 0, ar_pack_sizes = [], ar_pack_crcs_defined = bs_new,
     ar_pack_crcs = [], ar_sub_streams_info = None, ar_blocks = [], ar_files = [],
     ar_stream_map = stream_map_default, ar_is_solid = False\<rparr>"

record start_header =
  next_header_offset :: u64
  next_header_size :: u64
  next_header_crc :: u64

section \<open>Lemmas\<close>

lemma uint_u64: "0 \<le> uint (t :: u64)" "uint t < 2 ^ 64"
  using uint_lt2p [of t] by simp_all

lemma nt_epoch_nanos_val: "nt_epoch_nanos = - 11644473600000000000"
  by (simp add: nt_epoch_nanos_def UNIX_EPOCH_def)

lemma checked_system_time_val: "checked_system_time t = Some (nt_epoch_nanos + uint t * 100)"
proof -
  have eq: "nt_epoch_nanos + uint t div 10000000 * 1000000000 + uint t mod 10000000 * 100 =
      nt_epoch_nanos + uint t * 100"
    using div_mult_mod_eq [of "uint t" 10000000] by linarith
  have "system_time_range (nt_epoch_nanos + uint t * 100)"
    using uint_u64 [of t] zdiv_mono1 [of "nt_epoch_nanos" "nt_epoch_nanos + uint t * 100" 1000000000]
      zdiv_mono1 [of "nt_epoch_nanos + uint t * 100" "nt_epoch_nanos + 2 ^ 64 * 100" 1000000000]
    by (simp add: system_time_range_def nt_epoch_nanos_val)
  then show ?thesis
    unfolding checked_system_time_def Let_def FILE_TIMES_PER_SEC_def eq by simp
qed

lemma nt_time_round_trip:
  "\<exists>st. checked_system_time t = Some st \<and> nt_time_of_system st = Inr t"
  using uint_u64 [of t]
  by (simp add: checked_system_time_val nt_time_of_system_def Let_def)

lemma nt_time_of_system_mono:
  assumes "nt_time_of_system s = Inr a" "nt_time_of_system t = Inr b" "s \<le> t"
  shows "a \<le> b"
proof -
  have "(s - nt_epoch_nanos) div 100 \<le> (t - nt_epoch_nanos) div 100"
    using assms(3) by (simp add: zdiv_mono1)
  with assms show ?thesis
    by (auto simp: nt_time_of_system_def Let_def word_le_def uint_word_of_int_eq take_bit_int_eq_self
        split: if_splits)
qed

subsection \<open>Joining a checked name\<close>

text \<open>
  What joining a name to a directory means to a consumer that separates on both characters: an
  absolute name or one with a drive replaces the directory, otherwise each component descends,
  stays (empty and \<^verbatim>\<open>.\<close>) or climbs (\<^verbatim>\<open>..\<close>). Directories are stacks of components.
\<close>

definition step_component :: "ustring list \<Rightarrow> ustring \<Rightarrow> ustring list" where
  "step_component dir c =
     (if c = [] \<or> c = [0x2E] then dir else if c = dot_dot then tl dir else c # dir)"

definition join_steps :: "ustring list \<Rightarrow> ustring \<Rightarrow> nat \<Rightarrow> ustring list" where
  "join_steps base s n =
     foldl step_component (if (s \<noteq> [] \<and> is_separator (hd s)) \<or> names_drive s then [] else base)
       (take n (split_components s))"

lemma foldl_descends:
  "dot_dot \<notin> set cs \<Longrightarrow> \<exists>below. foldl step_component dir cs = below @ dir"
proof (induction cs arbitrary: dir)
  case (Cons c cs)
  then obtain below where "foldl step_component (step_component dir c) cs = below @ step_component dir c"
    by fastforce
  moreover have "\<exists>below. step_component dir c = below @ dir"
    using Cons.prems by (auto simp: step_component_def)
  ultimately show ?case by auto
qed simp

lemma unsafe_path_reason_None:
  "unsafe_path_reason s = None \<longleftrightarrow> s \<noteq> [] \<and> 0 \<notin> set s \<and> \<not> is_separator (hd s) \<and> \<not> names_drive s
     \<and> dot_dot \<notin> set (split_components s)"
  by (simp add: unsafe_path_reason_def)

lemma checked_name_stays_inside:
  "unsafe_path_reason s = None \<Longrightarrow> \<exists>below. join_steps base s n = below @ base"
  by (auto simp: unsafe_path_reason_None join_steps_def intro!: foldl_descends dest: in_set_takeD)

text \<open>Splitting loses nothing: the components are the name between separators.\<close>

lemma split_components_not_Nil: "split_components s \<noteq> []"
  by (induction s) (auto split: list.splits)

lemma split_components_no_separator:
  "c \<in> set (split_components s) \<Longrightarrow> x \<in> set c \<Longrightarrow> \<not> is_separator x"
  by (induction s arbitrary: c) (fastforce split: list.splits if_splits)+

subsection \<open>Finding a method\<close>

lemma methods_distinct: "distinct (map snd ENCODING_METHODS)"
  by (simp add: ENCODING_METHODS_def method_id_defs)

lemma find_distinct:
  "distinct (map f xs) \<Longrightarrow> x \<in> set xs \<Longrightarrow> find (\<lambda>y. f y = f x) xs = Some x"
  by (induction xs) auto

lemma by_id_iff: "by_id i = Some m \<longleftrightarrow> m \<in> set ENCODING_METHODS \<and> snd m = i"
  using find_distinct [OF methods_distinct, of m]
  by (auto simp: by_id_def find_Some_iff)

subsection \<open>Sub-stream offsets\<close>

lemma offsets_loop_eq:
  "offsets_loop k cs =
     (if cs = [] \<or> k + sum_list cs \<le> usize_max
      then Inr (map (\<lambda>i. k + sum_list (take i cs)) [0..<length cs])
      else Inl (Corrupted ''sub-stream index overflow''))"
proof (induction cs arbitrary: k)
  case (Cons c cs)
  have m: "map (\<lambda>i. k + sum_list (take i (c # cs))) [0..<length (c # cs)] =
      k # map (\<lambda>i. k + c + sum_list (take i cs)) [0..<length cs]"
    by (simp add: map_upt_Suc add.assoc del: upt_Suc)
  show ?case
    unfolding m using Cons.IH [of "k + c"] by (auto simp: bindE_def add.assoc)
qed simp

lemma sum_list_ones: "list_all (\<lambda>c. c = 1) cs \<Longrightarrow> i \<le> length cs \<Longrightarrow> sum_list (take i cs) = (i :: nat)"
  by (induction cs arbitrary: i) (auto simp: take_Cons' split: if_splits)

lemma from_counts_spec:
  assumes "from_counts cs = Inr off"
  shows "sso_get off i = (if i < length cs then Some (sum_list (take i cs)) else None)"
  using assms sum_list_ones [of cs i]
  by (auto simp: from_counts_def sso_get_def bindE_def offsets_loop_eq get_def split: if_splits)

lemma from_counts_total:
  "sum_list cs \<le> usize_max \<Longrightarrow> \<exists>off. from_counts cs = Inr off"
  by (auto simp: from_counts_def bindE_def offsets_loop_eq)

end
