(* ===== verification/Limits.thy ===== *)
theory Limits
  imports Archive_Model
begin

text \<open>
  What a caller allows an archive to claim (\<^verbatim>\<open>ArchiveLimits\<close> of \<^verbatim>\<open>src/src/container.rs\<close>,
  \<^verbatim>\<open>HeaderBounds\<close> of \<^verbatim>\<open>src/src/reader.rs\<close>), the decoder memory model, the bound on AES key
  derivation work and the read-only views of the container's sub-streams and packed ranges.
\<close>

section \<open>Limits\<close>

record archive_limits =
  memory_limit_bytes :: u64
  max_end_header_bytes :: u64
  max_header_unpacked_bytes :: u64
  max_header_depth :: u8
  max_entries :: u64
  max_name_bytes :: u64
  max_total_name_bytes :: u64
  max_coders_per_block :: u64
  max_streams_per_coder :: u64
  max_total_coders :: u64
  max_unpack_bytes :: u64
  max_unpack_ratio :: u64
  max_aes_cycles_power :: u8
  max_aes_kdf_rounds :: u64
  reject_unsafe_paths :: bool

definition KIB :: u64 where "KIB = 1024"
definition MIB :: u64 where "MIB = 1024 * KIB"

definition limits_default :: archive_limits where
  "limits_default = \<lparr>memory_limit_bytes = - 1, max_end_header_bytes = - 1,
     max_header_unpacked_bytes = 64 * MIB, max_header_depth = 2, max_entries = 1000000,
     max_name_bytes = 64 * KIB, max_total_name_bytes = 64 * MIB, max_coders_per_block = 8,
     max_streams_per_coder = 8, max_total_coders = 1000000, max_unpack_bytes = - 1,
     max_unpack_ratio = - 1, max_aes_cycles_power = 24, max_aes_kdf_rounds = 2 ^ 28,
     reject_unsafe_paths = False\<rparr>"

definition limits_new :: "u64 \<Rightarrow> u64 \<Rightarrow> archive_limits" where
  "limits_new mem hdr = limits_default\<lparr>memory_limit_bytes := mem, max_end_header_bytes := hdr\<rparr>"

definition limits_memory :: "u64 \<Rightarrow> archive_limits" where
  "limits_memory mem = limits_default\<lparr>memory_limit_bytes := mem\<rparr>"

definition with_max_unpack_bytes :: "archive_limits \<Rightarrow> u64 \<Rightarrow> archive_limits" where
  "with_max_unpack_bytes l bytes = l\<lparr>max_unpack_bytes := bytes\<rparr>"

definition rejecting_unsafe_paths :: "archive_limits \<Rightarrow> archive_limits" where
  "rejecting_unsafe_paths l = l\<lparr>reject_unsafe_paths := True\<rparr>"

definition limits_unlimited :: archive_limits where
  "limits_unlimited = \<lparr>memory_limit_bytes = - 1, max_end_header_bytes = - 1,
     max_header_unpacked_bytes = - 1, max_header_depth = - 1, max_entries = - 1,
     max_name_bytes = - 1, max_total_name_bytes = - 1, max_coders_per_block = - 1,
     max_streams_per_coder = - 1, max_total_coders = - 1, max_unpack_bytes = - 1,
     max_unpack_ratio = - 1, max_aes_cycles_power = 63, max_aes_kdf_rounds = - 1,
     reject_unsafe_paths = False\<rparr>"

text \<open>\<^verbatim>\<open>u64::div_ceil\<close>; the result is a 64-bit \<^verbatim>\<open>usize\<close>.\<close>

definition memory_limit_kb :: "archive_limits \<Rightarrow> nat" where
  "memory_limit_kb l = (unat (memory_limit_bytes l) + 1023) div 1024"

section \<open>Bounds on what a header declares\<close>

record header_bounds =
  hb_bytes :: nat
  hb_limits :: archive_limits

definition limit_cap :: "archive_limits \<Rightarrow> limit \<Rightarrow> u64" where
  "limit_cap l what = (case what of
      CodersPerBlock \<Rightarrow> max_coders_per_block l
    | TotalCoders \<Rightarrow> max_total_coders l
    | TotalNameBytes \<Rightarrow> max_total_name_bytes l
    | _ \<Rightarrow> max_entries l)"

definition hb_count :: "header_bounds \<Rightarrow> u64 \<Rightarrow> limit \<Rightarrow> nat result" where
  "hb_count b value what =
     (if hb_bytes b < unat value then Inl (LimitExceeded ArchiveBytes (of_nat (hb_bytes b)) value)
      else let cap = limit_cap (hb_limits b) what in
        if cap < value then Inl (LimitExceeded what cap value)
        else Inr (unat value))"

definition hb_add_count :: "header_bounds \<Rightarrow> nat \<Rightarrow> nat \<Rightarrow> nat result" where
  "hb_add_count b tot additional =
     (if usize_max < tot + additional then Inl (Corrupted ''total unpack streams overflow'')
      else hb_count b (of_nat (tot + additional)) Entries)"

definition hb_size :: "header_bounds \<Rightarrow> u64 \<Rightarrow> nat result" where
  "hb_size b value =
     (if hb_bytes b < unat value then Inl (LimitExceeded ArchiveBytes (of_nat (hb_bytes b)) value)
      else Inr (unat value))"

section \<open>Decoder memory\<close>

definition LZ_STATE_BYTES :: u64 where "LZ_STATE_BYTES = MIB"
definition PPMD_STATE_BYTES :: u64 where "PPMD_STATE_BYTES = MIB"
definition BZIP2_BYTES :: u64 where "BZIP2_BYTES = 8 * MIB"
definition DEFLATE_BYTES :: u64 where "DEFLATE_BYTES = MIB"
definition BROTLI_BYTES :: u64 where "BROTLI_BYTES = 32 * MIB"
definition ZSTD_BYTES :: u64 where "ZSTD_BYTES = 160 * MIB"
definition LZ4_BYTES :: u64 where "LZ4_BYTES = 16 * MIB"
definition FILTER_BYTES :: u64 where "FILTER_BYTES = MIB"
definition BCJ2_BYTES :: u64 where "BCJ2_BYTES = 16 * MIB"
definition BLOCK_INPUT_BYTES :: u64 where "BLOCK_INPUT_BYTES = 65536"

record unsized_coder =
  uc_method_id :: "byte list"
  uc_reason :: string

definition unsized' :: "byte list \<Rightarrow> string \<Rightarrow> unsized_coder + 'a" where
  "unsized' mid reason = Inl \<lparr>uc_method_id = mid, uc_reason = reason\<rparr>"

text \<open>The little-endian \<^verbatim>\<open>u32\<close> at bytes 1 to 4 of the properties.\<close>

definition props_u32 :: "byte list \<Rightarrow> u64" where
  "props_u32 ps = from_le_bytes [ps ! 1, ps ! 2, ps ! 3, ps ! 4]"

definition lzma_dictionary_bytes :: "byte list \<Rightarrow> byte list \<Rightarrow> unsized_coder + u64" where
  "lzma_dictionary_bytes mid ps =
     (if length ps < 5 then unsized' mid ''LZMA properties shorter than five bytes''
      else Inr (props_u32 ps))"

definition lzma2_dictionary_bytes :: "byte list \<Rightarrow> byte list \<Rightarrow> unsized_coder + u64" where
  "lzma2_dictionary_bytes mid ps = (case ps of
      [] \<Rightarrow> unsized' mid ''LZMA2 properties empty''
    | p # _ \<Rightarrow>
        let bits = ucast p :: u64 in
        if bits AND NOT 0x3F \<noteq> 0 then unsized' mid ''LZMA2 property byte has reserved bits set''
        else if 40 < bits then unsized' mid ''LZMA2 dictionary larger than the 4 GiB maximum''
        else
          let dict = if bits = 40 then 0xFFFFFFFF
                     else push_bit (unat (bits div 2 + 11)) (2 OR (bits AND 1))
          in Inr ((dict + 15) AND NOT 15))"

definition ppmd_model_bytes :: "byte list \<Rightarrow> byte list \<Rightarrow> unsized_coder + u64" where
  "ppmd_model_bytes mid ps =
     (if length ps < 5 then unsized' mid ''PPMd properties shorter than five bytes''
      else Inr (props_u32 ps))"

definition coder_memory_estimate :: "coder \<Rightarrow> unsized_coder + u64" where
  "coder_memory_estimate c =
     (let mid = encoder_method_id c; ps = properties c in
      if mid = ID_COPY then Inr 0
      else if mid = ID_LZMA then
        bindE (lzma_dictionary_bytes mid ps) (\<lambda>d. Inr (saturating_add d LZ_STATE_BYTES))
      else if mid = ID_LZMA2 then
        bindE (lzma2_dictionary_bytes mid ps) (\<lambda>d. Inr (saturating_add d LZ_STATE_BYTES))
      else if mid = ID_PPMD then
        bindE (ppmd_model_bytes mid ps) (\<lambda>d. Inr (saturating_add d PPMD_STATE_BYTES))
      else if mid = ID_BZIP2 then Inr BZIP2_BYTES
      else if mid = ID_DEFLATE then Inr DEFLATE_BYTES
      else if mid = ID_BROTLI then Inr BROTLI_BYTES
      else if mid = ID_ZSTD then Inr ZSTD_BYTES
      else if mid = ID_LZ4 then Inr LZ4_BYTES
      else if mid = ID_BCJ2 then Inr BCJ2_BYTES
      else if mid \<in> {ID_AES256_SHA256, ID_DELTA, ID_BCJ_X86, ID_BCJ_ARM, ID_BCJ_ARM64,
                     ID_BCJ_ARM_THUMB, ID_BCJ_PPC, ID_BCJ_IA64, ID_BCJ_SPARC, ID_BCJ_RISCV}
      then Inr FILTER_BYTES
      else unsized' mid ''no memory model for this coder'')"

definition chain_memory :: "coder list \<Rightarrow> unsized_coder + u64" where
  "chain_memory cs =
     foldE (\<lambda>c chain. bindE (coder_memory_estimate c) (\<lambda>m. Inr (saturating_add chain m)))
       cs BLOCK_INPUT_BYTES"

definition decoder_memory_estimate :: "archive \<Rightarrow> unsized_coder + u64" where
  "decoder_memory_estimate a =
     foldE (\<lambda>b largest. bindE (chain_memory (coders b)) (\<lambda>chain. Inr (max largest chain)))
       (ar_blocks a) 0"

section \<open>AES work\<close>

definition MAX_AES_CYCLES_POWER :: u8 where "MAX_AES_CYCLES_POWER = 24"

definition check_aes_coder :: "archive_limits \<Rightarrow> coder \<Rightarrow> unit result" where
  "check_aes_coder l c =
     (if encoder_method_id c \<noteq> ID_AES256_SHA256 then Inr ()
      else case properties c of
          [] \<Rightarrow> Inl (Corrupted ''AES256 properties too short'')
        | p # _ \<Rightarrow>
            let power = p AND 63; cap = min (max_aes_cycles_power l) MAX_AES_CYCLES_POWER
            in if power \<noteq> 63 \<and> cap < power
               then Inl (LimitExceeded AesCyclesPower (ucast cap) (ucast power))
               else Inr ())"

definition check_aes_coders :: "archive_limits \<Rightarrow> coder list \<Rightarrow> unit result" where
  "check_aes_coders l cs = foldE (\<lambda>c _. check_aes_coder l c) cs ()"

definition check_aes_work :: "archive \<Rightarrow> archive_limits \<Rightarrow> unit result" where
  "check_aes_work a l = check_aes_coders l (concat (map coders (ar_blocks a)))"

section \<open>Views of the container\<close>

record sub_stream =
  ss_index :: nat
  ss_size :: u64
  ss_crc :: "u32 option"

record pack_stream_range =
  ps_index :: nat
  ps_offset :: u64
  ps_size :: u64

definition range_end :: "pack_stream_range \<Rightarrow> u64" where
  "range_end r = saturating_add (ps_offset r) (ps_size r)"

definition total_unpack_sub_streams :: "archive \<Rightarrow> nat" where
  "total_unpack_sub_streams a = sum_list (map num_unpack_sub_streams (ar_blocks a))"

definition sub_stream_at :: "archive \<Rightarrow> nat \<Rightarrow> sub_stream option" where
  "sub_stream_at a i = (case ar_sub_streams_info a of
      None \<Rightarrow> None
    | Some info \<Rightarrow> (case get (ssi_unpack_sizes info) i of
          None \<Rightarrow> None
        | Some sz \<Rightarrow> Some \<lparr>ss_index = i, ss_size = sz,
            ss_crc = (if contains (ssi_has_crc info) i then get (ssi_crcs info) i else None)\<rparr>))"

definition block_sub_streams :: "archive \<Rightarrow> nat \<Rightarrow> sub_stream list" where
  "block_sub_streams a bi = (case get (ar_blocks a) bi of
      None \<Rightarrow> []
    | Some b \<Rightarrow> (case sso_get (sm_block_first_sub_stream_index (ar_stream_map a)) bi of
          None \<Rightarrow> []
        | Some first \<Rightarrow>
            List.map_filter (sub_stream_at a) [first..<first + num_unpack_sub_streams b]))"

definition pack_range_at :: "archive \<Rightarrow> nat \<Rightarrow> pack_stream_range option" where
  "pack_range_at a i = (case get (sm_pack_stream_offsets (ar_stream_map a)) i of
      None \<Rightarrow> None
    | Some off \<Rightarrow> (case get (ar_pack_sizes a) i of
          None \<Rightarrow> None
        | Some sz \<Rightarrow> Some \<lparr>ps_index = i,
            ps_offset = saturating_add (saturating_add SIGNATURE_HEADER_SIZE (ar_pack_pos a)) off,
            ps_size = sz\<rparr>))"

definition block_pack_streams :: "archive \<Rightarrow> nat \<Rightarrow> pack_stream_range list" where
  "block_pack_streams a bi = (case get (ar_blocks a) bi of
      None \<Rightarrow> []
    | Some b \<Rightarrow> (case get (sm_block_first_pack_stream_index (ar_stream_map a)) bi of
          None \<Rightarrow> []
        | Some first \<Rightarrow>
            List.map_filter (pack_range_at a)
              [first..<first + max (length (packed_streams b)) 1]))"

definition block_coders :: "archive \<Rightarrow> nat \<Rightarrow> coder list" where
  "block_coders a bi = (case get (ar_blocks a) bi of None \<Rightarrow> [] | Some b \<Rightarrow> coders b)"

section \<open>Lemmas\<close>

lemma hb_count_Inr_iff:
  "hb_count b v what = Inr n \<longleftrightarrow> n = unat v \<and> n \<le> hb_bytes b \<and> n \<le> unat (limit_cap (hb_limits b) what)"
  by (auto simp: hb_count_def Let_def word_less_nat_alt not_less)

lemma hb_size_Inr_iff: "hb_size b v = Inr n \<longleftrightarrow> n = unat v \<and> n \<le> hb_bytes b"
  by (auto simp: hb_size_def)

lemma unat_of_usize: "n \<le> usize_max \<Longrightarrow> unat (of_nat n :: u64) = n"
  by (simp add: usize_max_def unsigned_of_nat take_bit_nat_eq_self)

lemma hb_add_count_Inr_iff:
  "hb_add_count b t k = Inr n \<longleftrightarrow> t + k \<le> usize_max \<and> n = t + k \<and> n \<le> hb_bytes b
     \<and> n \<le> unat (max_entries (hb_limits b))"
  using unat_of_usize [of "t + k"]
  by (auto simp: hb_add_count_def hb_count_Inr_iff limit_cap_def simp del: of_nat_add)

lemma no_panic_hb [no_panic_intros]:
  "no_panic (hb_count b v what)" "no_panic (hb_size b v)" "no_panic (hb_add_count b t k)"
  by (simp_all add: hb_count_def hb_size_def hb_add_count_def Let_def)

lemma unat_saturating_add: "unat (saturating_add a b) = min (unat a + unat b) (2 ^ 64 - 1)"
proof (cases "unat a + unat b < 2 ^ 64")
  case True
  then show ?thesis by (simp add: saturating_add_def unat_add_u64)
next
  case False
  have "unat (- 1 :: u64) = 2 ^ 64 - 1" by (simp add: unsigned_minus_1_eq_mask mask_eq_exp_minus_1)
  with False show ?thesis by (simp add: saturating_add_def)
qed

text \<open>The LZMA2 dictionary: the 7-Zip formula, with its 4 GiB maximum.\<close>

definition lzma2_dictionary :: "nat \<Rightarrow> nat" where
  "lzma2_dictionary p = (if p = 40 then 2 ^ 32 else (2 + p mod 2) * 2 ^ (p div 2 + 11))"

lemma lzma2_dictionary_small:
  "\<forall>k \<in> set [0..<41]. lzma2_dictionary_bytes mid (of_nat k # ps) = Inr (of_nat (lzma2_dictionary k))"
  by (simp add: lzma2_dictionary_bytes_def lzma2_dictionary_def Let_def upt_rec)

lemma lzma2_dictionary_bytes_spec:
  "lzma2_dictionary_bytes mid ps = Inr d \<longleftrightarrow>
     (\<exists>p rest. ps = p # rest \<and> unat p \<le> 40 \<and> d = of_nat (lzma2_dictionary (unat p)))"
proof (cases ps)
  case Nil
  then show ?thesis by (simp add: lzma2_dictionary_bytes_def unsized'_def)
next
  case (Cons p rest)
  show ?thesis
  proof (cases "unat p \<le> 40")
    case True
    then have "unat p \<in> set [0..<41]" by simp
    with lzma2_dictionary_small have
      "lzma2_dictionary_bytes mid (of_nat (unat p) # rest) = Inr (of_nat (lzma2_dictionary (unat p)))"
      by blast
    with True Cons show ?thesis by auto
  next
    case False
    moreover have "unat (ucast p :: u64) = unat p"
      using unsigned_less [of p, where 'a = nat] by (simp add: unsigned_ucast_eq take_bit_nat_eq_self)
    ultimately have "40 < (ucast p :: u64)" by (simp add: word_less_nat_alt)
    with False Cons show ?thesis by (auto simp: lzma2_dictionary_bytes_def unsized'_def Let_def)
  qed
qed

text \<open>
  The estimate is the largest block's: the chain of its coders' figures, saturating, on top of the
  read buffer.
\<close>

definition chain_total :: "coder list \<Rightarrow> nat" where
  "chain_total cs = unat BLOCK_INPUT_BYTES
     + sum_list (map (\<lambda>c. case coder_memory_estimate c of Inr m \<Rightarrow> unat m | Inl _ \<Rightarrow> 0) cs)"

lemma chain_memory_loop:
  "foldE (\<lambda>c chain. bindE (coder_memory_estimate c) (\<lambda>m. Inr (saturating_add chain m))) cs s = Inr m \<Longrightarrow>
     unat m = min (unat s + sum_list (map (\<lambda>c. case coder_memory_estimate c of Inr m \<Rightarrow> unat m | Inl _ \<Rightarrow> 0) cs))
       (2 ^ 64 - 1)"
proof (induction cs arbitrary: s)
  case Nil
  then show ?case using unsigned_less [of m, where 'a = nat] by (simp add: min_def)
next
  case (Cons c cs)
  from Cons.prems obtain k where k: "coder_memory_estimate c = Inr k"
    "foldE (\<lambda>c chain. bindE (coder_memory_estimate c) (\<lambda>m. Inr (saturating_add chain m))) cs
       (saturating_add s k) = Inr m"
    by (auto simp: bindE_Inr_iff)
  from Cons.IH [OF k(2)] k(1) show ?case by (simp add: unat_saturating_add min_def)
qed

lemma chain_memory_val: "chain_memory cs = Inr m \<Longrightarrow> unat m = min (chain_total cs) (2 ^ 64 - 1)"
  unfolding chain_memory_def chain_total_def by (rule chain_memory_loop)

lemma estimate_loop:
  "foldE (\<lambda>b largest. bindE (chain_memory (coders b)) (\<lambda>chain. Inr (max largest chain))) bs s = Inr m \<Longrightarrow>
     s \<le> m \<and> (\<forall>b \<in> set bs. \<exists>k. chain_memory (coders b) = Inr k \<and> k \<le> m) \<and>
     (m = s \<or> (\<exists>b \<in> set bs. chain_memory (coders b) = Inr m))"
proof (induction bs arbitrary: s)
  case (Cons b bs)
  from Cons.prems obtain k where k: "chain_memory (coders b) = Inr k"
    "foldE (\<lambda>b largest. bindE (chain_memory (coders b)) (\<lambda>chain. Inr (max largest chain))) bs (max s k) = Inr m"
    by (auto simp: bindE_Inr_iff)
  from Cons.IH [OF k(2)] k(1) show ?case by (auto simp: max_def split: if_splits)
qed simp

lemma check_aes_coder_ok_iff:
  "check_aes_coder l c = Inr () \<longleftrightarrow>
     (encoder_method_id c = ID_AES256_SHA256 \<longrightarrow>
        properties c \<noteq> [] \<and> (hd (properties c) AND 63 = 63 \<or>
          hd (properties c) AND 63 \<le> min (max_aes_cycles_power l) MAX_AES_CYCLES_POWER))"
  by (auto simp: check_aes_coder_def Let_def min_def not_less split: list.splits if_splits)

lemma check_aes_coders_ok_iff:
  "check_aes_coders l cs = Inr () \<longleftrightarrow> (\<forall>c \<in> set cs. check_aes_coder l c = Inr ())"
  unfolding check_aes_coders_def by (induction cs) (auto simp: bindE_Inr_iff)

lemma check_aes_work_ok_iff:
  "check_aes_work a l = Inr () \<longleftrightarrow>
     (\<forall>b \<in> set (ar_blocks a). \<forall>c \<in> set (coders b). check_aes_coder l c = Inr ())"
  by (auto simp: check_aes_work_def check_aes_coders_ok_iff)

text \<open>The blocks' sub-streams partition the archive's.\<close>

lemma concat_intervals:
  "concat (map (\<lambda>i. [sum_list (take i cs)..<sum_list (take i cs) + cs ! i]) [0..<length cs]) = [0..<sum_list cs]"
proof (induction cs rule: rev_induct)
  case (snoc c cs)
  have "map (\<lambda>i. [sum_list (take i (cs @ [c]))..<sum_list (take i (cs @ [c])) + (cs @ [c]) ! i]) [0..<length cs]
      = map (\<lambda>i. [sum_list (take i cs)..<sum_list (take i cs) + cs ! i]) [0..<length cs]"
    by (auto simp: nth_append)
  with snoc.IH have "concat (map (\<lambda>i. [sum_list (take i (cs @ [c]))..<
      sum_list (take i (cs @ [c])) + (cs @ [c]) ! i]) [0..<length cs]) = [0..<sum_list cs]"
    by (simp only:)
  moreover have "take (length cs) (cs @ [c]) = cs" by simp
  ultimately show ?case by (simp add: upt_add_eq_append [of 0] del: take_append)
qed simp

lemma map_filter_append: "List.map_filter f (xs @ ys) = List.map_filter f xs @ List.map_filter f ys"
  by (simp add: List.map_filter_def)

lemma map_filter_concat: "concat (map (List.map_filter f) xss) = List.map_filter f (concat xss)"
  by (induction xss) (auto simp: map_filter_append)

lemma block_sub_streams_partition:
  assumes "from_counts (map num_unpack_sub_streams (ar_blocks a)) =
      Inr (sm_block_first_sub_stream_index (ar_stream_map a))"
  shows "concat (map (block_sub_streams a) [0..<length (ar_blocks a)]) =
      List.map_filter (sub_stream_at a) [0..<total_unpack_sub_streams a]"
proof -
  let ?cs = "map num_unpack_sub_streams (ar_blocks a)"
  have b: "block_sub_streams a i = List.map_filter (sub_stream_at a) [sum_list (take i ?cs)..<sum_list (take i ?cs) + ?cs ! i]"
    if "i < length (ar_blocks a)" for i
    using that by (simp add: block_sub_streams_def get_def from_counts_spec [OF assms])
  have "concat (map (block_sub_streams a) [0..<length (ar_blocks a)]) =
      concat (map (\<lambda>i. List.map_filter (sub_stream_at a) [sum_list (take i ?cs)..<sum_list (take i ?cs) + ?cs ! i]) [0..<length (ar_blocks a)])"
    using b by (intro arg_cong [of _ _ concat] map_cong) auto
  also have "\<dots> = List.map_filter (sub_stream_at a)
      (concat (map (\<lambda>i. [sum_list (take i ?cs)..<sum_list (take i ?cs) + ?cs ! i]) [0..<length ?cs]))"
    by (simp add: map_filter_concat [symmetric] o_def)
  finally show ?thesis
    by (simp only: concat_intervals total_unpack_sub_streams_def)
qed

end
