(* ===== verification/Coder_Graph.thy ===== *)
theory Coder_Graph
  imports Limits
begin

text \<open>
  The check of a block's coder graph (\<^verbatim>\<open>validate_coder_graph\<close> of \<^verbatim>\<open>src/src/reader.rs\<close>): stream
  indices in range and used once, one unbound output, and a depth-first walk from that output
  that refuses a cycle. The walk is shown to end, never to index out of range on the blocks
  \<^verbatim>\<open>read_block\<close> builds, and to accept exactly when no coder it reaches lies on a cycle.
\<close>

section \<open>The model\<close>

text \<open>The duplicate check of the bind pairs, over the two tables of bound streams.\<close>

definition bind_pair_step :: "bind_pair \<Rightarrow> bool list \<times> bool list \<Rightarrow> (bool list \<times> bool list) result" where
  "bind_pair_step bp t = (case t of (in_bound, out_bound) \<Rightarrow>
     let i = unat (in_index bp); o' = unat (out_index bp); twice = Inl (Corrupted ''bind pairs bind a stream twice'') in
     bindE (vec_get in_bound i) (\<lambda>x. if x then twice else
     bindE (vec_get out_bound o') (\<lambda>y. if y then twice else
       Inr (in_bound[i := True], out_bound[o' := True]))))"

definition packed_step :: "nat \<Rightarrow> u64 \<Rightarrow> bool list \<Rightarrow> bool list result" where
  "packed_step total_in ps in_bound =
     (if unat ps < total_in then
        bindE (vec_get in_bound (unat ps)) (\<lambda>x.
          if x then Inl (Corrupted ''packed stream is also bound by a bind pair'')
          else Inr (in_bound[unat ps := True]))
      else Inl (Corrupted ''packed stream references an out-of-range stream''))"

text \<open>Which coder owns each stream index.\<close>

definition owners :: "(coder \<Rightarrow> u64) \<Rightarrow> coder list \<Rightarrow> nat list" where
  "owners num cs = concat (map (\<lambda>ci. replicate (unat (num (cs ! ci))) ci) [0..<length cs])"

datatype mark = UNSEEN | ON_PATH | DONE

definition first_in :: "block \<Rightarrow> nat \<Rightarrow> nat" where
  "first_in b c = sum_list (map (\<lambda>x. unat (num_in_streams x)) (take c (coders b)))"

text \<open>
  One turn of the walk, for the entry \<open>(c, s)\<close> popped from the stack: the entries it pushes (top
  first) and the marks after it.
\<close>

definition dfs_enter :: "nat \<Rightarrow> nat \<Rightarrow> mark list \<Rightarrow> mark list option result" where
  "dfs_enter c s st =
     (if s = 0 then
        bindE (vec_get st c) (\<lambda>m. case m of
            ON_PATH \<Rightarrow> Inl (Corrupted ''block's coders form a cycle'')
          | DONE \<Rightarrow> Inr None
          | UNSEEN \<Rightarrow> Inr (Some (st[c := ON_PATH])))
      else Inr (Some st))"

definition dfs_turn :: "block \<Rightarrow> nat list \<Rightarrow> nat \<Rightarrow> nat \<Rightarrow> mark list \<Rightarrow> ((nat \<times> nat) list \<times> mark list) result" where
  "dfs_turn b coder_of_out c s st =
     bindE (dfs_enter c s st) (\<lambda>v. case v of
         None \<Rightarrow> Inr ([], st)
       | Some st' \<Rightarrow>
           bindE (vec_get (coders b) c) (\<lambda>cd.
             if s < unat (num_in_streams cd) then
               (case find_bind_pair_for_in_stream b (of_nat (first_in b c + s)) of
                   None \<Rightarrow> Inr ([(c, s + 1)], st')
                 | Some bp \<Rightarrow> bindE (vec_get coder_of_out (unat (out_index bp)))
                     (\<lambda>d. Inr ([(d, 0), (c, s + 1)], st')))
             else bindE (vec_set st' c DONE) (\<lambda>st''. Inr ([], st''))))"

text \<open>The walk ends: a potential of the stack entries and the unseen coders falls at every turn.\<close>

definition nin :: "block \<Rightarrow> nat \<Rightarrow> nat" where
  "nin b c = unat (num_in_streams (coders b ! c))"

definition unseen_weight :: "block \<Rightarrow> mark list \<Rightarrow> nat" where
  "unseen_weight b st = (\<Sum>c | c < length st \<and> st ! c = UNSEEN. 2 * nin b c + 2)"

definition entry_weight :: "block \<Rightarrow> nat \<times> nat \<Rightarrow> nat" where
  "entry_weight b e = (case e of (c, s) \<Rightarrow> if s = 0 then 1 else 2 * (nin b c - s) + 1)"

definition dfs_weight :: "block \<Rightarrow> (nat \<times> nat) list \<Rightarrow> mark list \<Rightarrow> nat" where
  "dfs_weight b stack st = sum_list (map (entry_weight b) stack) + unseen_weight b st"

lemma unseen_weight_mark:
  assumes "c < length st" "st ! c = UNSEEN" "m \<noteq> UNSEEN"
  shows "unseen_weight b st = unseen_weight b (st[c := m]) + (2 * nin b c + 2)"
proof -
  let ?A = "{i. i < length st \<and> st ! i = UNSEEN}"
  have "{i. i < length (st[c := m]) \<and> st[c := m] ! i = UNSEEN} = ?A - {c}"
    using assms by (auto simp: nth_list_update)
  moreover have "finite ?A" "c \<in> ?A" using assms by auto
  ultimately show ?thesis
    by (simp add: unseen_weight_def sum.remove [of ?A c] del: length_list_update)
qed

lemma unseen_weight_le: "unseen_weight b (st[c := DONE]) \<le> unseen_weight b st"
proof (cases "c < length st")
  case True
  then show ?thesis
    unfolding unseen_weight_def
    by (intro sum_mono2) (auto simp: nth_list_update split: if_splits)
qed (simp add: list_update_beyond)

lemma dfs_turn_decreases:
  assumes "dfs_turn b ow c s st = Inr (push, st')"
  shows "dfs_weight b push st' < entry_weight b (c, s) + unseen_weight b st"
proof -
  from assms obtain v where v: "dfs_enter c s st = Inr v"
    by (auto simp: dfs_turn_def bindE_Inr_iff)
  show ?thesis
  proof (cases v)
    case None
    with assms v show ?thesis by (simp add: dfs_turn_def dfs_weight_def entry_weight_def split: if_splits)
  next
    case (Some st1)
    have w: "unseen_weight b st1 + (if s = 0 then 2 * nin b c + 2 else 0) = unseen_weight b st"
    proof (cases "s = 0")
      case True
      with v Some have "c < length st" "st ! c = UNSEEN" "st1 = st[c := ON_PATH]"
        by (auto simp: dfs_enter_def bindE_Inr_iff vec_get_Inr_iff split: mark.splits)
      with True unseen_weight_mark [of c st ON_PATH b] show ?thesis by simp
    qed (use v Some in \<open>simp add: dfs_enter_def\<close>)
    from assms v Some obtain cd where "vec_get (coders b) c = Inr cd"
      by (auto simp: dfs_turn_def bindE_Inr_iff)
    then have nin: "unat (num_in_streams cd) = nin b c" by (simp add: vec_get_Inr_iff nin_def)
    show ?thesis
      using assms v Some w \<open>vec_get (coders b) c = Inr cd\<close> unseen_weight_le [of b st1 c]
      by (auto simp: dfs_turn_def bindE_Inr_iff vec_set_Inr_iff dfs_weight_def entry_weight_def nin
          split: if_splits option.splits)
  qed
qed

function dfs :: "block \<Rightarrow> nat list \<Rightarrow> (nat \<times> nat) list \<Rightarrow> mark list \<Rightarrow> unit result" where
  "dfs b coder_of_out [] st = Inr ()"
| "dfs b coder_of_out ((c, s) # stack) st = (case dfs_turn b coder_of_out c s st of
      Inl e \<Rightarrow> Inl e
    | Inr (push, st') \<Rightarrow> dfs b coder_of_out (push @ stack) st')"
  by pat_completeness auto
termination
proof (relation "measure (\<lambda>(b, ow, stack, st). dfs_weight b stack st)")
  fix b ow c s stack st x push and st' :: "mark list"
  assume "dfs_turn b ow c s st = Inr x" "(push, st') = x"
  then show "((b, ow, push @ stack, st'), b, ow, (c, s) # stack, st)
      \<in> measure (\<lambda>(b, ow, stack, st). dfs_weight b stack st)"
    using dfs_turn_decreases [of b ow c s st push st'] by (simp add: dfs_weight_def)
qed simp

definition position_unbound :: "bool list \<Rightarrow> nat option" where
  "position_unbound xs = (case filter (\<lambda>i. \<not> xs ! i) [0..<length xs] of [] \<Rightarrow> None | i # _ \<Rightarrow> Some i)"

definition simple_folder :: "block \<Rightarrow> bool" where
  "simple_folder b \<longleftrightarrow> total_input_streams b = 1 \<and> total_output_streams b = 1 \<and> bind_pairs b = []
     \<and> packed_streams b = [0]
     \<and> (case coders b of [c] \<Rightarrow> num_in_streams c = 1 \<and> num_out_streams c = 1 | _ \<Rightarrow> False)"

definition validate_coder_graph :: "block \<Rightarrow> unit result" where
  "validate_coder_graph b =
     (if simple_folder b then Inr ()
      else
        let total_in = total_input_streams b; total_out = total_output_streams b in
        bindE (foldE bind_pair_step (bind_pairs b) (replicate total_in False, replicate total_out False))
          (\<lambda>(in_bound, out_bound).
        bindE (foldE (packed_step total_in) (packed_streams b) in_bound) (\<lambda>in_bound.
        if False \<in> set in_bound then Inl (Corrupted ''block leaves an input stream unaccounted for'')
        else if length (filter Not out_bound) \<noteq> 1
        then Inl (Corrupted ''block must have exactly one unbound output stream'')
        else
          let coder_of_out = owners num_out_streams (coders b) in
          case position_unbound out_bound of
              None \<Rightarrow> Inl (Panic ''exactly one unbound output'')
            | Some final_out \<Rightarrow>
                bindE (vec_get coder_of_out final_out) (\<lambda>c.
                  dfs b coder_of_out [(c, 0)] (replicate (length (coders b)) UNSEEN)))))"

section \<open>What the walk decides\<close>

text \<open>
  \<open>graph b ow\<close> has an edge from a coder to each coder whose output is bound to one of its inputs.
\<close>

definition edge_at :: "block \<Rightarrow> nat list \<Rightarrow> nat \<Rightarrow> nat \<Rightarrow> nat option" where
  "edge_at b ow c s =
     map_option (\<lambda>bp. ow ! unat (out_index bp)) (find_bind_pair_for_in_stream b (of_nat (first_in b c + s)))"

definition graph :: "block \<Rightarrow> nat list \<Rightarrow> (nat \<times> nat) set" where
  "graph b ow = {(c, d). c < length (coders b) \<and> (\<exists>s < nin b c. edge_at b ow c s = Some d)}"

definition marked :: "mark list \<Rightarrow> mark \<Rightarrow> nat \<Rightarrow> bool" where
  "marked st m c \<longleftrightarrow> c < length st \<and> st ! c = m"

text \<open>
  The entries below the top: coders on the current path, all of whose inputs walked so far are
  finished, except the last one, which is the entry above.
\<close>

fun spine :: "block \<Rightarrow> nat list \<Rightarrow> mark list \<Rightarrow> nat option \<Rightarrow> (nat \<times> nat) list \<Rightarrow> bool" where
  "spine b ow st up [] = True"
| "spine b ow st up ((c, s) # rest) \<longleftrightarrow>
     marked st ON_PATH c \<and> c \<notin> fst ` set rest
     \<and> (\<forall>j < s. \<forall>d. edge_at b ow c j = Some d \<longrightarrow> marked st DONE d \<or> Suc j = s \<and> up = Some d)
     \<and> (case up of Some d \<Rightarrow> (c, d) \<in> graph b ow | None \<Rightarrow> True)
     \<and> 0 < s \<and> spine b ow st (Some c) rest"

definition done_ok :: "block \<Rightarrow> nat list \<Rightarrow> mark list \<Rightarrow> bool" where
  "done_ok b ow st \<longleftrightarrow> (\<forall>c. marked st DONE c \<longrightarrow>
     (\<forall>d. (c, d) \<in> graph b ow \<longrightarrow> marked st DONE d) \<and> (c, c) \<notin> (graph b ow)\<^sup>+)"

definition top_ok :: "block \<Rightarrow> nat list \<Rightarrow> mark list \<Rightarrow> (nat \<times> nat) list \<Rightarrow> bool" where
  "top_ok b ow st stack \<longleftrightarrow>
     (case stack of (c, 0) # rest \<Rightarrow> spine b ow st (Some c) rest | _ \<Rightarrow> spine b ow st None stack)"

definition dfs_inv :: "block \<Rightarrow> nat list \<Rightarrow> nat \<Rightarrow> (nat \<times> nat) list \<Rightarrow> mark list \<Rightarrow> bool" where
  "dfs_inv b ow root stack st \<longleftrightarrow> done_ok b ow st
     \<and> top_ok b ow st stack
     \<and> (\<forall>c. marked st ON_PATH c \<longrightarrow> (\<exists>s > 0. (c, s) \<in> set stack))
     \<and> (\<forall>c \<in> fst ` set stack. (root, c) \<in> (graph b ow)\<^sup>* \<and> c < length (coders b))
     \<and> (marked st DONE root \<or> root \<in> fst ` set stack)
     \<and> length st = length (coders b)"

lemma spine_finish:
  assumes "spine b ow st (Some d) rest" "marked st DONE d"
  shows "spine b ow st None rest"
  using assms by (cases rest) fastforce+

lemma spine_top: "spine b ow st None rest \<Longrightarrow> top_ok b ow st rest"
  unfolding top_ok_def by (cases rest) (force split: nat.splits)+

lemma top_ok_zero: "top_ok b ow st ((c, 0) # rest) \<longleftrightarrow> spine b ow st (Some c) rest"
  by (simp add: top_ok_def)

lemma top_ok_pos: "0 < s \<Longrightarrow> top_ok b ow st ((c, s) # rest) \<longleftrightarrow> spine b ow st None ((c, s) # rest)"
  by (cases s) (auto simp: top_ok_def)

lemma marked_update:
  "marked (st[c := m]) m' x \<longleftrightarrow> (if x = c \<and> c < length st then m' = m else marked st m' x)"
  by (auto simp: marked_def nth_list_update)

lemma marked_unique: "marked st m c \<Longrightarrow> marked st m' c \<Longrightarrow> m = m'"
  by (simp add: marked_def)

lemma spine_mark:
  assumes "spine b ow st up rest" "c \<notin> fst ` set rest" "\<not> marked st DONE c"
  shows "spine b ow (st[c := m]) up rest"
  using assms
proof (induction rest arbitrary: up)
  case (Cons e rest)
  obtain x s where [simp]: "e = (x, s)" by force
  from Cons show ?case by (auto simp: marked_update)
qed simp

lemma spine_reaches: "spine b ow st (Some d) rest \<Longrightarrow> x \<in> fst ` set rest \<Longrightarrow> (x, d) \<in> (graph b ow)\<^sup>+"
proof (induction rest arbitrary: d)
  case (Cons e rest)
  obtain c s where [simp]: "e = (c, s)" by force
  from Cons.prems(1) have "(c, d) \<in> graph b ow" "spine b ow st (Some c) rest" by auto
  with Cons show ?case by (auto intro: trancl.trancl_into_trancl)
qed simp

lemma spine_on_path: "spine b ow st up rest \<Longrightarrow> x \<in> fst ` set rest \<Longrightarrow> marked st ON_PATH x"
proof (induction rest arbitrary: up)
  case (Cons e rest)
  then show ?case by (cases e) auto
qed simp

lemma done_closed: "(c, d) \<in> (graph b ow)\<^sup>* \<Longrightarrow> done_ok b ow st \<Longrightarrow> marked st DONE c \<Longrightarrow> marked st DONE d"
  by (induction rule: rtrancl_induct) (auto simp: done_ok_def)

text \<open>Finishing a coder all of whose inputs are finished keeps the finished part free of cycles.\<close>

lemma done_ok_finish:
  assumes "done_ok b ow st" "marked st ON_PATH c"
    and succ: "\<And>d. (c, d) \<in> graph b ow \<Longrightarrow> marked st DONE d"
  shows "done_ok b ow (st[c := DONE])"
proof -
  have "(c, c) \<notin> (graph b ow)\<^sup>+"
  proof
    assume "(c, c) \<in> (graph b ow)\<^sup>+"
    then obtain d where "(c, d) \<in> graph b ow" "(d, c) \<in> (graph b ow)\<^sup>*" by (meson tranclD)
    with succ done_closed assms have "marked st DONE c" by blast
    with assms(2) show False using marked_unique by blast
  qed
  with assms show ?thesis by (auto simp: done_ok_def marked_update)
qed

text \<open>The three turns that visit a coder: finish it, or walk its next input.\<close>

lemma graphI: "c < length (coders b) \<Longrightarrow> s < nin b c \<Longrightarrow> edge_at b ow c s = Some d \<Longrightarrow> (c, d) \<in> graph b ow"
  by (auto simp: graph_def)

lemma visit_inv:
  assumes inv: "done_ok b ow st" "spine b ow st (Some c) rest" "marked st ON_PATH c" "c \<notin> fst ` set rest"
    and walked: "\<And>j d. j < s \<Longrightarrow> edge_at b ow c j = Some d \<Longrightarrow> marked st DONE d"
    and on: "\<And>x. marked st ON_PATH x \<Longrightarrow> x = c \<or> (\<exists>s > 0. (x, s) \<in> set rest)"
    and reach: "\<And>x. x \<in> insert c (fst ` set rest) \<Longrightarrow> (root, x) \<in> (graph b ow)\<^sup>* \<and> x < length (coders b)"
    and root: "marked st DONE root \<or> root \<in> insert c (fst ` set rest)"
    and len: "length st = length (coders b)"
    and rng: "\<forall>d \<in> set ow. d < length (coders b)"
    and turn: "bindE (vec_get (coders b) c) (\<lambda>cd.
             if s < unat (num_in_streams cd) then
               (case find_bind_pair_for_in_stream b (of_nat (first_in b c + s)) of
                   None \<Rightarrow> Inr ([(c, s + 1)], st)
                 | Some bp \<Rightarrow> bindE (vec_get ow (unat (out_index bp)))
                     (\<lambda>d. Inr ([(d, 0), (c, s + 1)], st)))
             else bindE (vec_set st c DONE) (\<lambda>st''. Inr ([], st''))) = Inr (push, st')"
  shows "dfs_inv b ow root (push @ rest) st'"
proof -
  from turn have c: "c < length (coders b)" by (auto simp: bindE_Inr_iff vec_get_Inr_iff)
  then have cd: "vec_get (coders b) c = Inr (coders b ! c)" "unat (num_in_streams (coders b ! c)) = nin b c"
    by (auto simp: nin_def)
  show ?thesis
  proof (cases "s < nin b c")
    case False
    with turn cd len c have t: "push = []" "st' = st[c := DONE]"
      by (auto simp: bindE_Inr_iff vec_set_Inr_iff)
    have "marked st DONE d" if "(c, d) \<in> graph b ow" for d
    proof -
      from that obtain j where "j < nin b c" "edge_at b ow c j = Some d" by (auto simp: graph_def)
      with False show ?thesis by (intro walked [of j]) auto
    qed
    then have "done_ok b ow st'" unfolding t by (intro done_ok_finish inv)
    moreover have "\<not> marked st DONE c" using inv(3) marked_unique by blast
    then have "spine b ow st' (Some c) rest" unfolding t by (intro spine_mark inv) auto
    then have "spine b ow st' None rest"
      by (rule spine_finish) (simp add: t marked_update len c)
    then have "top_ok b ow st' rest"
      by (rule spine_top)
    ultimately show ?thesis
      using on reach root len c unfolding dfs_inv_def t
      by (auto simp: marked_update split: if_splits)
  next
    case True
    have on': "\<forall>x. marked st ON_PATH x \<longrightarrow> (\<exists>k > 0. (x, k) \<in> set ((c, s + 1) # rest))"
      using on by fastforce
    show ?thesis
    proof (cases "find_bind_pair_for_in_stream b (of_nat (first_in b c + s))")
      case None
      with turn cd True have t: "push = [(c, s + 1)]" "st' = st" by auto
      have "edge_at b ow c s = None" using None by (simp add: edge_at_def)
      with walked have "spine b ow st None ((c, s + 1) # rest)"
        using inv by (auto simp: less_Suc_eq)
      then show ?thesis using inv on' reach root len by (auto simp: dfs_inv_def t top_ok_pos)
    next
      case (Some bp)
      with turn cd True obtain d where d: "vec_get ow (unat (out_index bp)) = Inr d"
        and t: "push = [(d, 0), (c, s + 1)]" "st' = st" by (auto simp: bindE_Inr_iff)
      then have e: "edge_at b ow c s = Some d" using Some by (auto simp: edge_at_def vec_get_Inr_iff)
      then have g: "(c, d) \<in> graph b ow" using True c by (auto intro: graphI)
      have "d < length (coders b)" using d rng by (auto simp: vec_get_Inr_iff)
      moreover have "spine b ow st (Some d) ((c, s + 1) # rest)"
        using inv walked g e by (auto simp: less_Suc_eq)
      moreover have "(root, d) \<in> (graph b ow)\<^sup>*" using g reach [of c] by auto
      ultimately show ?thesis using inv on' reach root len by (auto simp: dfs_inv_def t top_ok_zero)
    qed
  qed
qed

lemma dfs_turn_inv:
  assumes inv: "dfs_inv b ow root ((c, s) # rest) st" and rng: "\<forall>d \<in> set ow. d < length (coders b)"
    and turn: "dfs_turn b ow c s st = Inr (push, st')"
  shows "dfs_inv b ow root (push @ rest) st'"
proof (cases "s = 0")
  case False
  then obtain k where k: "s = Suc k" by (cases s) auto
  from inv have sp: "spine b ow st None ((c, s) # rest)" by (simp add: dfs_inv_def k top_ok_pos)
  have e: "dfs_enter c s st = Inr (Some st)" using False by (simp add: dfs_enter_def)
  show ?thesis
  proof (rule visit_inv [where s = s and st = st and c = c])
    show "\<And>j d. j < s \<Longrightarrow> edge_at b ow c j = Some d \<Longrightarrow> marked st DONE d" using sp by fastforce
  qed (use inv sp rng turn e False in \<open>auto simp: dfs_inv_def dfs_turn_def\<close>)
next
  case True
  from inv True have sp: "spine b ow st (Some c) rest" and len: "length st = length (coders b)"
    and c: "c < length st" by (auto simp: dfs_inv_def top_ok_zero)
  from turn obtain v where v: "dfs_enter c s st = Inr v" by (auto simp: dfs_turn_def bindE_Inr_iff)
  show ?thesis
  proof (cases "st ! c")
    case DONE
    with v c True have "v = None" by (auto simp: dfs_enter_def)
    with v turn have t: "push = []" "st' = st" by (auto simp: dfs_turn_def)
    from DONE c have d: "marked st DONE c" by (simp add: marked_def)
    have "spine b ow st None rest" by (rule spine_finish [OF sp d])
    then have "top_ok b ow st rest"
      by (rule spine_top)
    with inv True d show ?thesis by (fastforce simp: dfs_inv_def t)
  next
    case ON_PATH
    with v c True show ?thesis by (auto simp: dfs_enter_def)
  next
    case UNSEEN
    then have u: "marked st UNSEEN c" using c by (simp add: marked_def)
    then have nd: "\<not> marked st DONE c" "\<not> marked st ON_PATH c" by (auto simp: marked_def)
    with sp have nr: "c \<notin> fst ` set rest" using spine_on_path by blast
    from UNSEEN v c True have v': "dfs_enter c s st = Inr (Some (st[c := ON_PATH]))"
      by (auto simp: dfs_enter_def)
    show ?thesis
    proof (rule visit_inv [where s = 0 and st = "st[c := ON_PATH]" and c = c])
      show "done_ok b ow (st[c := ON_PATH])"
        using inv nd by (auto simp: dfs_inv_def done_ok_def marked_update)
      show "spine b ow (st[c := ON_PATH]) (Some c) rest" by (rule spine_mark [OF sp nr nd(1)])
    qed (use inv nr c len rng turn v' True in
        \<open>auto simp: dfs_inv_def marked_update dfs_turn_def split: if_splits\<close>)
  qed
qed

lemma dfs_turn_error:
  assumes "dfs_turn b ow c s st = Inl e" "c < length (coders b)" "length st = length (coders b)"
    and "\<forall>bp \<in> set (bind_pairs b). unat (out_index bp) < length ow"
  shows "s = 0 \<and> st ! c = ON_PATH \<and> e = Corrupted ''block's coders form a cycle''"
proof (cases "dfs_enter c s st")
  case (Inl e')
  with assms show ?thesis
    by (cases "st ! c") (auto simp: dfs_enter_def dfs_turn_def split: if_splits)
next
  case (Inr v)
  then have "\<forall>st'. v = Some st' \<longrightarrow> length st' = length (coders b)"
    using assms by (cases "st ! c") (auto simp: dfs_enter_def split: if_splits)
  moreover have "find_bind_pair_for_in_stream b i = Some bp \<Longrightarrow> unat (out_index bp) < length ow" for i bp
    using assms(4) by (auto simp: find_bind_pair_for_in_stream_def find_Some_iff)
  ultimately show ?thesis using assms Inr
    by (auto simp: dfs_turn_def split: option.splits if_splits)
qed

text \<open>The walk from an invariant state: success means no reachable cycle, its error a real one.\<close>

lemma dfs_decides:
  assumes "dfs_inv b ow root stack st" "\<forall>d \<in> set ow. d < length (coders b)"
    "\<forall>bp \<in> set (bind_pairs b). unat (out_index bp) < length ow"
  shows "dfs b ow stack st =
     (if \<exists>x. (root, x) \<in> (graph b ow)\<^sup>* \<and> (x, x) \<in> (graph b ow)\<^sup>+
      then Inl (Corrupted ''block's coders form a cycle'') else Inr ())"
  using assms
proof (induction b ow stack st rule: dfs.induct)
  case (1 b ow st)
  then have "done_ok b ow st" "marked st DONE root" by (auto simp: dfs_inv_def)
  then have "(x, x) \<notin> (graph b ow)\<^sup>+" if "(root, x) \<in> (graph b ow)\<^sup>*" for x
    using done_closed [OF that] unfolding done_ok_def by blast
  then have "\<not> (\<exists>x. (root, x) \<in> (graph b ow)\<^sup>* \<and> (x, x) \<in> (graph b ow)\<^sup>+)" by blast
  then show ?case by simp
next
  case (2 b ow c s stack st)
  show ?case
  proof (cases "dfs_turn b ow c s st")
    case (Inr r)
    obtain push st' where r: "r = (push, st')" by force
    from dfs_turn_inv [OF 2(2,3)] Inr r have "dfs_inv b ow root (push @ stack) st'" by simp
    from 2(1) [OF Inr r [symmetric] this 2(3,4)] Inr r show ?thesis by simp
  next
    case (Inl e)
    from 2(2) have c: "c < length (coders b)" "length st = length (coders b)"
      and reach: "(root, c) \<in> (graph b ow)\<^sup>*" by (auto simp: dfs_inv_def)
    have "s = 0 \<and> st ! c = ON_PATH \<and> e = Corrupted ''block's coders form a cycle''"
      by (rule dfs_turn_error [OF Inl c 2(4)])
    then have s: "s = 0" "marked st ON_PATH c" and e: "e = Corrupted ''block's coders form a cycle''"
      using c by (auto simp: marked_def)
    with 2(2) obtain k where "0 < k" "(c, k) \<in> set ((c, 0) # stack)" and sp: "spine b ow st (Some c) stack"
      unfolding dfs_inv_def s(1) top_ok_zero by blast
    then have "c \<in> fst ` set stack" by (auto simp: image_iff intro: bexI [of _ "(c, k)"])
    with sp have "(c, c) \<in> (graph b ow)\<^sup>+" by (intro spine_reaches)
    with reach Inl e show ?thesis by auto
  qed
qed

section \<open>The structural checks\<close>

definition bound_marks :: "nat set \<Rightarrow> nat \<Rightarrow> bool list" where
  "bound_marks A n = map (\<lambda>i. i \<in> A) [0..<n]"

lemma bound_marks_simps [simp]:
  "length (bound_marks A n) = n" "i < n \<Longrightarrow> bound_marks A n ! i = (i \<in> A)"
  by (simp_all add: bound_marks_def)

lemma bound_marks_empty: "replicate n False = bound_marks {} n"
  by (simp add: bound_marks_def map_replicate_trivial)

lemma bound_marks_insert: "i < n \<Longrightarrow> (bound_marks A n)[i := True] = bound_marks (insert i A) n"
  by (rule nth_equalityI) (auto simp: nth_list_update)

definition in_indices :: "bind_pair list \<Rightarrow> nat list" where
  "in_indices bps = map (\<lambda>bp. unat (in_index bp)) bps"

definition out_indices :: "bind_pair list \<Rightarrow> nat list" where
  "out_indices bps = map (\<lambda>bp. unat (out_index bp)) bps"

text \<open>The tables' loops accept exactly when no stream is used twice.\<close>

lemma bind_pairs_loop:
  assumes "set (in_indices bps) \<subseteq> {..<n}" "set (out_indices bps) \<subseteq> {..<m}"
  shows "foldE bind_pair_step bps (bound_marks A n, bound_marks B m) =
     (if distinct (in_indices bps) \<and> distinct (out_indices bps)
         \<and> A \<inter> set (in_indices bps) = {} \<and> B \<inter> set (out_indices bps) = {}
      then Inr (bound_marks (A \<union> set (in_indices bps)) n, bound_marks (B \<union> set (out_indices bps)) m)
      else Inl (Corrupted ''bind pairs bind a stream twice''))"
  using assms
proof (induction bps arbitrary: A B)
  case (Cons bp bps)
  let ?i = "unat (in_index bp)" and ?o = "unat (out_index bp)"
  have r: "?i < n" "?o < m" using Cons.prems by (auto simp: in_indices_def out_indices_def)
  have IH: "foldE bind_pair_step bps (bound_marks A n, bound_marks B m) =
     (if distinct (in_indices bps) \<and> distinct (out_indices bps)
         \<and> A \<inter> set (in_indices bps) = {} \<and> B \<inter> set (out_indices bps) = {}
      then Inr (bound_marks (A \<union> set (in_indices bps)) n, bound_marks (B \<union> set (out_indices bps)) m)
      else Inl (Corrupted ''bind pairs bind a stream twice''))" for A B
    using Cons by (auto simp: in_indices_def out_indices_def)
  have step: "bind_pair_step bp (bound_marks A n, bound_marks B m) =
     (if ?i \<in> A \<or> ?o \<in> B then Inl (Corrupted ''bind pairs bind a stream twice'')
      else Inr (bound_marks (insert ?i A) n, bound_marks (insert ?o B) m))"
    using r by (simp add: bind_pair_step_def Let_def bound_marks_insert)
  show ?case
    by (simp add: step IH) (auto simp: in_indices_def out_indices_def)
qed (simp add: in_indices_def out_indices_def)

lemma packed_loop:
  "foldE (packed_step n) ps (bound_marks A n) = Inr t \<longleftrightarrow>
     distinct ps \<and> unat ` set ps \<subseteq> {..<n} \<and> A \<inter> unat ` set ps = {} \<and> t = bound_marks (A \<union> unat ` set ps) n"
proof (induction ps arbitrary: A)
  case (Cons p ps)
  show ?case
  proof (cases "unat p < n \<and> unat p \<notin> A")
    case True
    then have "packed_step n p (bound_marks A n) = Inr (bound_marks (insert (unat p) A) n)"
      by (simp add: packed_step_def bound_marks_insert)
    with Cons.IH [of "insert (unat p) A"] True show ?thesis
      by (auto simp: word_unat_eq_iff [symmetric])
  next
    case False
    then have "\<exists>e. packed_step n p (bound_marks A n) = Inl e" by (auto simp: packed_step_def)
    with False show ?thesis by auto
  qed
qed auto

lemma no_panic_packed_loop: "no_panic (foldE (packed_step n) ps (bound_marks A n))"
proof (induction ps arbitrary: A)
  case (Cons p ps)
  then show ?case by (auto simp: packed_step_def bound_marks_insert)
qed simp

lemma length_owners: "length (owners f cs) = sum_list (map (\<lambda>c. unat (f c)) cs)"
proof -
  have "map (\<lambda>ci. unat (f (cs ! ci))) [0..<length cs] = map (\<lambda>c. unat (f c)) cs"
    by (rule nth_equalityI) auto
  then show ?thesis by (simp add: owners_def length_concat o_def)
qed

lemma owners_range: "d \<in> set (owners f cs) \<Longrightarrow> d < length cs"
  by (auto simp: owners_def)

text \<open>
  What \<^verbatim>\<open>read_block\<close> has established when it calls the check: the totals are the sums of the
  coders' counts, within the 64-stream ceiling, and the bind pairs are in range.
\<close>

definition block_ranges :: "block \<Rightarrow> bool" where
  "block_ranges b \<longleftrightarrow>
     total_input_streams b = sum_list (map (\<lambda>c. unat (num_in_streams c)) (coders b))
     \<and> total_output_streams b = sum_list (map (\<lambda>c. unat (num_out_streams c)) (coders b))
     \<and> set (in_indices (bind_pairs b)) \<subseteq> {..<total_input_streams b}
     \<and> set (out_indices (bind_pairs b)) \<subseteq> {..<total_output_streams b}"

definition unbound_outputs :: "block \<Rightarrow> nat list" where
  "unbound_outputs b = filter (\<lambda>i. i \<notin> set (out_indices (bind_pairs b))) [0..<total_output_streams b]"

definition coder_graph :: "block \<Rightarrow> (nat \<times> nat) set" where
  "coder_graph b = graph b (owners num_out_streams (coders b))"

definition output_coder :: "block \<Rightarrow> nat" where
  "output_coder b = owners num_out_streams (coders b) ! hd (unbound_outputs b)"

text \<open>
  The contract: every input stream is either bound once or packed once, no output is bound twice,
  one output is left, and no coder the output depends on lies on a cycle.
\<close>

definition decodable :: "block \<Rightarrow> bool" where
  "decodable b \<longleftrightarrow>
     distinct (in_indices (bind_pairs b) @ map unat (packed_streams b))
     \<and> set (in_indices (bind_pairs b) @ map unat (packed_streams b)) = {..<total_input_streams b}
     \<and> distinct (out_indices (bind_pairs b)) \<and> length (unbound_outputs b) = 1
     \<and> (\<forall>x. (output_coder b, x) \<in> (coder_graph b)\<^sup>* \<longrightarrow> (x, x) \<notin> (coder_graph b)\<^sup>+)"

lemma dfs_inv_start: "c < length (coders b) \<Longrightarrow> dfs_inv b ow c [(c, 0)] (replicate (length (coders b)) UNSEEN)"
  by (auto simp: dfs_inv_def done_ok_def marked_def top_ok_zero)

lemma dfs_start:
  assumes "block_ranges b" "c < length (coders b)"
  shows "dfs b (owners num_out_streams (coders b)) [(c, 0)] (replicate (length (coders b)) UNSEEN) =
     (if \<exists>x. (c, x) \<in> (coder_graph b)\<^sup>* \<and> (x, x) \<in> (coder_graph b)\<^sup>+
      then Inl (Corrupted ''block's coders form a cycle'') else Inr ())"
  unfolding coder_graph_def
proof (rule dfs_decides [OF dfs_inv_start [OF assms(2)]])
  show "\<forall>bp \<in> set (bind_pairs b). unat (out_index bp) < length (owners num_out_streams (coders b))"
    using assms(1) by (auto simp: block_ranges_def length_owners out_indices_def)
qed (use owners_range in auto)

lemma unbound_marks:
  "length (filter Not (bound_marks (set (out_indices (bind_pairs b))) (total_output_streams b))) =
     length (unbound_outputs b)"
  "unbound_outputs b = i # is \<Longrightarrow>
     position_unbound (bound_marks (set (out_indices (bind_pairs b))) (total_output_streams b)) = Some i"
proof -
  show "length (filter Not (bound_marks (set (out_indices (bind_pairs b))) (total_output_streams b))) =
     length (unbound_outputs b)"
    by (simp add: bound_marks_def unbound_outputs_def filter_map o_def)
  have "filter (\<lambda>i. \<not> bound_marks (set (out_indices (bind_pairs b))) (total_output_streams b) ! i)
      [0..<total_output_streams b] = unbound_outputs b"
    unfolding unbound_outputs_def by (rule filter_cong) auto
  then show "unbound_outputs b = i # is \<Longrightarrow>
     position_unbound (bound_marks (set (out_indices (bind_pairs b))) (total_output_streams b)) = Some i"
    by (simp add: position_unbound_def)
qed

lemma simple_folder_decodable:
  assumes "simple_folder b"
  shows "decodable b"
proof -
  from assms obtain c where c: "coders b = [c]" "num_out_streams c = 1"
    by (auto simp: simple_folder_def split: list.splits)
  have "coder_graph b = {}"
    using assms by (auto simp: simple_folder_def coder_graph_def graph_def edge_at_def
        find_bind_pair_for_in_stream_def)
  then show ?thesis using assms c
    by (auto simp: decodable_def simple_folder_def in_indices_def out_indices_def unbound_outputs_def)
qed

lemma validate_coder_graph_iff:
  assumes ranges: "block_ranges b"
  shows "validate_coder_graph b = Inr () \<longleftrightarrow> decodable b"
proof (cases "simple_folder b")
  case True
  then show ?thesis using simple_folder_decodable by (simp add: validate_coder_graph_def)
next
  case False
  let ?ins = "set (in_indices (bind_pairs b))" and ?outs = "set (out_indices (bind_pairs b))"
  let ?n = "total_input_streams b" and ?m = "total_output_streams b"
  let ?A = "?ins \<union> unat ` set (packed_streams b)"
  note loop = bind_pairs_loop [of "bind_pairs b" ?n ?m "{}" "{}", folded bound_marks_empty]
  have full: "False \<in> set (bound_marks ?A ?n) \<longleftrightarrow> \<not> {..<?n} \<subseteq> ?A"
    by (auto simp: bound_marks_def)
  have dfs: "(case position_unbound (bound_marks ?outs ?m) of
        None \<Rightarrow> Inl (Panic ''exactly one unbound output'')
      | Some final_out \<Rightarrow> bindE (vec_get (owners num_out_streams (coders b)) final_out) (\<lambda>c.
          dfs b (owners num_out_streams (coders b)) [(c, 0)] (replicate (length (coders b)) UNSEEN))) = Inr ()
      \<longleftrightarrow> (\<forall>x. (output_coder b, x) \<in> (coder_graph b)\<^sup>* \<longrightarrow> (x, x) \<notin> (coder_graph b)\<^sup>+)"
    if one: "length (unbound_outputs b) = 1"
  proof -
    from one obtain i where i: "unbound_outputs b = [i]" by (auto simp: length_Suc_conv)
    then have "i \<in> set (unbound_outputs b)" by simp
    then have "i < length (owners num_out_streams (coders b))"
      using ranges by (simp add: unbound_outputs_def length_owners block_ranges_def)
    moreover from this have "output_coder b < length (coders b)"
      using i by (auto simp: output_coder_def intro!: owners_range [of _ num_out_streams])
    ultimately show ?thesis
      using dfs_start [OF ranges, of "output_coder b"] i unbound_marks(2) [OF i]
      by (auto simp: output_coder_def)
  qed
  have rng: "set (in_indices (bind_pairs b)) \<subseteq> {..<?n}" "set (out_indices (bind_pairs b)) \<subseteq> {..<?m}"
    using ranges by (auto simp: block_ranges_def)
  note loop = loop [OF rng]
  have uinj: "distinct (map unat ps) \<longleftrightarrow> distinct ps" for ps :: "u64 list"
    by (simp add: distinct_map inj_on_def word_unat_eq_iff)
  show ?thesis
  proof (cases "distinct (in_indices (bind_pairs b)) \<and> distinct (out_indices (bind_pairs b))")
    case nodup: True
    note packed = packed_loop [of ?n "packed_streams b" ?ins]
    show ?thesis
    proof (cases "foldE (packed_step ?n) (packed_streams b) (bound_marks ?ins ?n)")
      case (Inl e)
      then have "\<not> (distinct (packed_streams b) \<and> unat ` set (packed_streams b) \<subseteq> {..<?n}
          \<and> ?ins \<inter> unat ` set (packed_streams b) = {})"
        using packed by auto
      with False nodup Inl loop show ?thesis
        by (auto simp: validate_coder_graph_def Let_def decodable_def uinj)
    next
      case (Inr t)
      from packed [of t, THEN iffD1, OF Inr] have t: "t = bound_marks ?A ?n"
        and p: "distinct (packed_streams b)" "unat ` set (packed_streams b) \<subseteq> {..<?n}"
          "?ins \<inter> unat ` set (packed_streams b) = {}" by blast+
      have "?A \<subseteq> {..<?n}" using p(2) rng(1) by (rule Un_least [rotated])
      then have eq: "?A = {..<?n} \<longleftrightarrow> {..<?n} \<subseteq> ?A" by (auto simp del: lessThan_subset_iff)
      have "decodable b \<longleftrightarrow> {..<?n} \<subseteq> ?A \<and> length (unbound_outputs b) = 1
          \<and> (\<forall>x. (output_coder b, x) \<in> (coder_graph b)\<^sup>* \<longrightarrow> (x, x) \<notin> (coder_graph b)\<^sup>+)"
        unfolding decodable_def distinct_append uinj set_append set_map eq using p nodup by simp
      with False nodup Inr loop t full dfs unbound_marks(1) [of b] show ?thesis
        by (simp add: validate_coder_graph_def Let_def)
    qed
  next
    case dup: False
    with False loop show ?thesis by (auto simp: validate_coder_graph_def Let_def decodable_def)
  qed
qed

lemma no_panic_validate:
  assumes ranges: "block_ranges b"
  shows "no_panic (validate_coder_graph b)"
proof -
  let ?ins = "set (in_indices (bind_pairs b))" and ?outs = "set (out_indices (bind_pairs b))"
  let ?n = "total_input_streams b" and ?m = "total_output_streams b"
  have rng: "?ins \<subseteq> {..<?n}" "?outs \<subseteq> {..<?m}" using ranges by (auto simp: block_ranges_def)
  note loop = bind_pairs_loop [of "bind_pairs b" ?n ?m "{}" "{}", folded bound_marks_empty, OF rng]
  have tail: "no_panic (case position_unbound (bound_marks ?outs ?m) of
        None \<Rightarrow> Inl (Panic ''exactly one unbound output'')
      | Some final_out \<Rightarrow> bindE (vec_get (owners num_out_streams (coders b)) final_out) (\<lambda>c.
          dfs b (owners num_out_streams (coders b)) [(c, 0)] (replicate (length (coders b)) UNSEEN)))"
    if one: "length (unbound_outputs b) = 1"
  proof -
    from one obtain i where i: "unbound_outputs b = [i]" by (auto simp: length_Suc_conv)
    then have "i \<in> set (unbound_outputs b)" by simp
    then have "i < length (owners num_out_streams (coders b))"
      using ranges by (simp add: unbound_outputs_def length_owners block_ranges_def)
    moreover from this have "owners num_out_streams (coders b) ! i < length (coders b)"
      by (auto intro!: owners_range [of _ num_out_streams])
    ultimately show ?thesis
      using dfs_start [OF ranges] i unbound_marks(2) [OF i] by simp
  qed
  show ?thesis
    unfolding validate_coder_graph_def Let_def loop
    by (auto intro!: no_panic_bindE no_panic_packed_loop tail simp: unbound_marks(1))
qed

text \<open>
  The walk only sees what the output depends on. Three coders, the first fed by the packed stream
  and two feeding each other, pass every check although their graph has a cycle.
\<close>

definition detached_cycle :: block where
  "detached_cycle = set_streams (with_coders (replicate 3 single_stream)) 3 3
     [\<lparr>in_index = 1, out_index = 2\<rparr>, \<lparr>in_index = 2, out_index = 1\<rparr>] [0] []"

lemma detached_cycle_accepted:
  "validate_coder_graph detached_cycle = Inr () \<and> (1, 1) \<in> (coder_graph detached_cycle)\<^sup>+"
proof
  have c: "coders detached_cycle = [single_stream, single_stream, single_stream]"
    by (simp add: detached_cycle_def with_coders_def numeral_3_eq_3)
  note t = detached_cycle_def set_streams_tables
  note v = num_in_streams_def num_out_streams_def single_stream_view
  have tabs: "bind_pairs detached_cycle = [\<lparr>in_index = 1, out_index = 2\<rparr>, \<lparr>in_index = 2, out_index = 1\<rparr>]"
    "packed_streams detached_cycle = [0]" "total_input_streams detached_cycle = 3"
    "total_output_streams detached_cycle = 3"
    by (simp_all add: t)
  have ow: "owners num_out_streams (coders detached_cycle) = [0, 1, 2]"
    by (simp add: owners_def c v upt_rec)
  have e: "edge_at detached_cycle [0, 1, 2] 1 0 = Some 2" "edge_at detached_cycle [0, 1, 2] 2 0 = Some 1"
    by (simp_all add: edge_at_def find_bind_pair_for_in_stream_def tabs first_in_def c v)
  then have "(1, 2) \<in> coder_graph detached_cycle" "(2, 1) \<in> coder_graph detached_cycle"
    unfolding coder_graph_def ow graph_def by (auto simp: c nin_def v)
  then show "(1, 1) \<in> (coder_graph detached_cycle)\<^sup>+" by auto
  have no: "(0, d) \<notin> coder_graph detached_cycle" for d
    unfolding coder_graph_def ow graph_def
    by (simp add: c nin_def v edge_at_def find_bind_pair_for_in_stream_def tabs first_in_def)
  have ub: "unbound_outputs detached_cycle = [0]"
    by (simp add: unbound_outputs_def tabs out_indices_def upt_rec)
  then have oc: "output_coder detached_cycle = 0" by (simp add: output_coder_def ow)
  have "(0, x) \<in> (coder_graph detached_cycle)\<^sup>* \<Longrightarrow> x = 0" for x
    using no by (auto elim: converse_rtranclE)
  moreover have "(0, 0) \<notin> (coder_graph detached_cycle)\<^sup>+" using no by (auto dest: tranclD)
  ultimately have "decodable detached_cycle"
    unfolding decodable_def oc ub tabs by (auto simp: in_indices_def out_indices_def)
  moreover have "block_ranges detached_cycle"
    by (auto simp: block_ranges_def tabs in_indices_def out_indices_def c v)
  ultimately show "validate_coder_graph detached_cycle = Inr ()"
    by (simp add: validate_coder_graph_iff)
qed

end
