(* ===== verification/Streams_Reader.thy ===== *)
theory Streams_Reader
  imports Coder_Graph
begin

text \<open>
  The streams part of a header (\<^verbatim>\<open>read_pack_info\<close>, \<^verbatim>\<open>read_block\<close>, \<^verbatim>\<open>read_unpack_info\<close>,
  \<^verbatim>\<open>read_sub_streams_info\<close>, \<^verbatim>\<open>read_streams_info\<close> of \<^verbatim>\<open>src/src/reader.rs\<close>): each is a parser
  from the bytes left to the archive it updates.
\<close>

section \<open>Pack information\<close>

text \<open>One \<^verbatim>\<open>u32\<close> for each defined index, zero for the others.\<close>

definition read_defined_u32 :: "bit_set \<Rightarrow> nat \<Rightarrow> u32 list reader" where
  "read_defined_u32 defined n =
     mapP (\<lambda>i. if contains defined i then read_u32 else returnP 0) [0..<n]"

definition read_pack_info :: "header_bounds \<Rightarrow> archive \<Rightarrow> archive reader" where
  "read_pack_info bnd a =
     bindP read_variable_u64 (\<lambda>pos.
     bindP read_variable_u64 (\<lambda>count.
     bindP (liftE (hb_count bnd count Entries)) (\<lambda>num_pack_streams.
     bindP read_u8 (\<lambda>nid.
     bindP (if nid = K_SIZE then
              bindP (replicateP num_pack_streams read_variable_u64) (\<lambda>sizes.
              bindP read_u8 (\<lambda>nid. returnP (a\<lparr>ar_pack_pos := pos, ar_pack_sizes := sizes\<rparr>, nid)))
            else returnP (a\<lparr>ar_pack_pos := pos\<rparr>, nid)) (\<lambda>(a, nid).
     bindP (if nid = K_CRC then
              bindP (read_all_or_bits num_pack_streams) (\<lambda>defined.
              bindP (read_defined_u32 defined num_pack_streams) (\<lambda>crcs.
              bindP read_u8 (\<lambda>nid.
                returnP (a\<lparr>ar_pack_crcs_defined := defined, ar_pack_crcs := map ucast crcs\<rparr>, nid))))
            else returnP (a, nid)) (\<lambda>(a, nid).
     if nid \<noteq> K_END then failP (BadTerminatedPackInfo nid) else returnP a))))))"

section \<open>A block\<close>

definition MAX_BLOCK_CODERS_AND_STREAMS :: u64 where "MAX_BLOCK_CODERS_AND_STREAMS = 64"

text \<open>The checks on the stream counts of one coder, with the totals after it.\<close>

definition check_stream_counts :: "header_bounds \<Rightarrow> u64 \<Rightarrow> u64 \<Rightarrow> u64 \<Rightarrow> u64 \<Rightarrow> (u64 \<times> u64) result" where
  "check_stream_counts bnd total_in total_out ins outs =
     (let exceed = Corrupted ''coder stream counts exceed available input'';
          cap = max_streams_per_coder (hb_limits bnd) in
      if outs \<noteq> 1 then Inl (Corrupted ''coder must have exactly one output stream'')
      else bindE (ok_or exceed (checked_add total_in ins)) (\<lambda>total_in.
      bindE (ok_or exceed (checked_add total_out outs)) (\<lambda>total_out.
      if cap < ins \<or> cap < outs then Inl (LimitExceeded StreamsPerCoder cap (max ins outs))
      else if MAX_BLOCK_CODERS_AND_STREAMS < total_in
      then Inl (Corrupted ''block has more than 64 input streams'')
      else bindE (hb_count bnd total_in Entries) (\<lambda>_.
      bindE (hb_count bnd total_out Entries) (\<lambda>_. Inr (total_in, total_out))))))"

definition read_coder :: "header_bounds \<Rightarrow> u64 \<Rightarrow> u64 \<Rightarrow> (coder \<times> u64 \<times> u64) reader" where
  "read_coder bnd total_in total_out =
     bindP read_u8 (\<lambda>bits.
     bindP (liftE (set_id_size single_stream (bits AND 0xF))) (\<lambda>cd.
     bindP (read_exact (length (encoder_method_id cd))) (\<lambda>mid.
     let cd = write_method_id cd mid in
     bindP (if bits AND 0x10 = 0 then returnP (1, 1)
            else bindP read_variable_u64 (\<lambda>i. bindP read_variable_u64 (\<lambda>k. returnP (i, k)))) (\<lambda>(ins, outs).
     bindP (liftE (check_stream_counts bnd total_in total_out ins outs)) (\<lambda>(total_in, total_out).
     let cd = set_stream_counts cd ins outs in
     bindP (if bits AND 0x20 \<noteq> 0 then
              bindP read_variable_u64 (\<lambda>sz.
              bindP (liftE (hb_size bnd sz)) (\<lambda>n.
              bindP (read_exact n) (\<lambda>props. returnP (set_properties cd props))))
            else returnP cd) (\<lambda>cd.
     if bits AND 0x80 \<noteq> 0 then
       failP (Unsupported ''Alternative methods are unsupported, please report. The reference implementation doesn't support them either.'')
     else returnP (cd, total_in, total_out)))))))"

fun read_coders :: "header_bounds \<Rightarrow> nat \<Rightarrow> u64 \<Rightarrow> u64 \<Rightarrow> (coder list \<times> u64 \<times> u64) reader" where
  "read_coders bnd 0 total_in total_out = returnP ([], total_in, total_out)"
| "read_coders bnd (Suc n) total_in total_out =
     bindP (read_coder bnd total_in total_out) (\<lambda>(cd, total_in, total_out).
     bindP (read_coders bnd n total_in total_out) (\<lambda>(cs, t). returnP (cd # cs, t)))"

definition read_bind_pair :: "nat \<Rightarrow> nat \<Rightarrow> bind_pair reader" where
  "read_bind_pair total_in total_out =
     bindP read_variable_u64 (\<lambda>i.
     bindP read_variable_u64 (\<lambda>k.
     if of_nat total_in \<le> i \<or> of_nat total_out \<le> k
     then failP (Corrupted ''bind pair references an out-of-range stream'')
     else returnP \<lparr>in_index = i, out_index = k\<rparr>))"

text \<open>The packed stream a header leaves out when there is only one: the unbound input.\<close>

definition implied_packed_stream :: "nat \<Rightarrow> bind_pair list \<Rightarrow> u64 result" where
  "implied_packed_stream total_in bps =
     (let index = (case find (\<lambda>i. \<not> list_ex (\<lambda>bp. in_index bp = of_nat i) bps) [0..<total_in] of
                     None \<Rightarrow> - 1 | Some i \<Rightarrow> of_nat i)
      in if index = - 1 then Inl (Corrupted ''Couldn't find stream's bind pair index'')
         else Inr index)"

definition read_block :: "header_bounds \<Rightarrow> block reader" where
  "read_block bnd =
     bindP read_variable_u64 (\<lambda>count.
     bindP (liftE (hb_count bnd count CodersPerBlock)) (\<lambda>num_coders.
     if MAX_BLOCK_CODERS_AND_STREAMS < of_nat num_coders
     then failP (Corrupted ''block has more than 64 coders'')
     else
     bindP (read_coders bnd num_coders 0 0) (\<lambda>(cs, total_in, total_out).
     let b = with_coders cs; total_in = unat total_in; total_out = unat total_out in
     if total_out = 0 then failP (Corrupted ''Total output streams can't be 0'')
     else
     let num_bind_pairs = total_out - 1 in
     bindP (replicateP num_bind_pairs (read_bind_pair total_in total_out)) (\<lambda>bps.
     if total_in < num_bind_pairs
     then failP (Corrupted ''Total input streams can't be less than the number of bind pairs'')
     else
     let num_packed_streams = total_in - num_bind_pairs in
     if num_packed_streams = 0 then failP (Corrupted ''block has no packed streams'')
     else
     bindP (if num_packed_streams = 1
            then bindP (liftE (implied_packed_stream total_in bps)) (\<lambda>i. returnP [i])
            else replicateP num_packed_streams read_variable_u64) (\<lambda>packed.
     let b = set_streams b total_in total_out bps packed [] in
     bindP (liftE (validate_coder_graph b)) (\<lambda>_. returnP b))))))"

section \<open>Unpack information\<close>

fun read_blocks :: "header_bounds \<Rightarrow> nat \<Rightarrow> u64 \<Rightarrow> block list reader" where
  "read_blocks bnd 0 total_coders = returnP []"
| "read_blocks bnd (Suc n) total_coders =
     bindP (read_block bnd) (\<lambda>b.
     let total_coders = saturating_add total_coders (of_nat (length (coders b)));
         cap = max_total_coders (hb_limits bnd) in
     if cap < total_coders then failP (LimitExceeded TotalCoders cap total_coders)
     else bindP (read_blocks bnd n total_coders) (\<lambda>bs. returnP (b # bs)))"

definition read_unpack_sizes :: "block \<Rightarrow> block reader" where
  "read_unpack_sizes b =
     (let b = prepare_unpack_sizes b in
      bindP (replicateP (length (unpack_sizes b)) read_variable_u64) (\<lambda>ss.
        returnP (fill_unpack_sizes b ss)))"

fun read_block_crcs :: "bit_set \<Rightarrow> nat list \<Rightarrow> block list \<Rightarrow> block list reader" where
  "read_block_crcs defined [] blocks = returnP blocks"
| "read_block_crcs defined (i # is) blocks =
     bindP (liftE (vec_get blocks i)) (\<lambda>b.
     bindP (if contains defined i
            then bindP read_u32 (\<lambda>v. returnP (b\<lparr>has_crc := True, crc := ucast v\<rparr>))
            else returnP (b\<lparr>has_crc := False\<rparr>)) (\<lambda>b.
     read_block_crcs defined is (blocks[i := b])))"

definition read_unpack_info :: "header_bounds \<Rightarrow> archive \<Rightarrow> archive reader" where
  "read_unpack_info bnd a =
     bindP read_u8 (\<lambda>nid.
     if nid \<noteq> K_FOLDER then failP (Corrupted ''Expected kFolder, got '')
     else
     bindP read_variable_u64 (\<lambda>count.
     bindP (liftE (hb_count bnd count Entries)) (\<lambda>num_blocks.
     bindP read_u8 (\<lambda>external.
     if external \<noteq> 0 then failP ExternalUnsupported
     else
     bindP (read_blocks bnd num_blocks 0) (\<lambda>new.
     bindP read_u8 (\<lambda>nid.
     if nid \<noteq> K_CODERS_UNPACK_SIZE then failP (Corrupted ''Expected kCodersUnpackSize, got '')
     else
     bindP (mapP read_unpack_sizes (ar_blocks a @ new)) (\<lambda>blocks.
     bindP read_u8 (\<lambda>nid.
     bindP (if nid = K_CRC then
              bindP (read_all_or_bits num_blocks) (\<lambda>defined.
              bindP (read_block_crcs defined [0..<num_blocks] blocks) (\<lambda>blocks.
              bindP read_u8 (\<lambda>nid. returnP (blocks, nid))))
            else returnP (blocks, nid)) (\<lambda>(blocks, nid).
     if nid \<noteq> K_END then failP BadTerminatedUnpackInfo
     else returnP (a\<lparr>ar_blocks := blocks\<rparr>))))))))))"

section \<open>Sub-stream information\<close>

fun read_num_unpack_streams :: "header_bounds \<Rightarrow> nat \<Rightarrow> block list \<Rightarrow> (block list \<times> nat) reader" where
  "read_num_unpack_streams bnd t [] = returnP ([], t)"
| "read_num_unpack_streams bnd t (b # bs) =
     bindP read_variable_u64 (\<lambda>count.
     bindP (liftE (hb_count bnd count Entries)) (\<lambda>num_streams.
     bindP (liftE (hb_add_count bnd t num_streams)) (\<lambda>t.
     bindP (read_num_unpack_streams bnd t bs) (\<lambda>(bs, t).
       returnP (b\<lparr>num_unpack_sub_streams := num_streams\<rparr> # bs, t)))))"

text \<open>The sizes given for the first sub-streams of a block, with their sum.\<close>

fun read_sub_sizes :: "nat \<Rightarrow> nat \<Rightarrow> u64 \<Rightarrow> u64 list \<Rightarrow> (u64 list \<times> nat \<times> u64) reader" where
  "read_sub_sizes 0 next acc sizes = returnP (sizes, next, acc)"
| "read_sub_sizes (Suc k) next acc sizes =
     bindP read_variable_u64 (\<lambda>sz.
     bindP (liftE (vec_set sizes next sz)) (\<lambda>sizes.
     bindP (liftE (ok_or (Corrupted ''sub-stream size sum overflow'') (checked_add acc sz))) (\<lambda>acc.
       read_sub_sizes k (next + 1) acc sizes)))"

definition block_sub_sizes :: "u8 \<Rightarrow> block \<Rightarrow> nat \<Rightarrow> u64 list \<Rightarrow> (u64 list \<times> nat) reader" where
  "block_sub_sizes nid b next sizes =
     (if num_unpack_sub_streams b = 0 then returnP (sizes, next)
      else
        bindP (if nid = K_SIZE then read_sub_sizes (num_unpack_sub_streams b - 1) next 0 sizes
               else returnP (sizes, next, 0)) (\<lambda>(sizes, next, acc).
        bindP (liftE (get_unpack_size b)) (\<lambda>total_size.
        if total_size < acc
        then failP (Corrupted ''sum of unpack sizes of block exceeds total unpack size'')
        else bindP (liftE (vec_set sizes next (total_size - acc))) (\<lambda>sizes.
          returnP (sizes, next + 1)))))"

fun all_sub_sizes :: "u8 \<Rightarrow> block list \<Rightarrow> nat \<Rightarrow> u64 list \<Rightarrow> u64 list reader" where
  "all_sub_sizes nid [] next sizes = returnP sizes"
| "all_sub_sizes nid (b # bs) next sizes =
     bindP (block_sub_sizes nid b next sizes) (\<lambda>(sizes, next). all_sub_sizes nid bs next sizes)"

definition own_digest :: "block \<Rightarrow> bool" where
  "own_digest b \<longleftrightarrow> num_unpack_sub_streams b = 1 \<and> has_crc b"

definition digest_step :: "nat \<Rightarrow> block \<Rightarrow> nat \<Rightarrow> nat result" where
  "digest_step total_streams b n =
     (if own_digest b then Inr n
      else if n + num_unpack_sub_streams b \<le> usize_max \<and> n + num_unpack_sub_streams b \<le> total_streams
      then Inr (n + num_unpack_sub_streams b)
      else Inl (Corrupted ''sub-stream digest count out of range''))"

definition count_digests :: "nat \<Rightarrow> block list \<Rightarrow> nat result" where
  "count_digests total_streams bs = foldE (digest_step total_streams) bs 0"

text \<open>Distributing the digests read over the sub-streams that lack their own.\<close>

fun place_digests :: "bit_set \<Rightarrow> u32 list \<Rightarrow> nat \<Rightarrow> nat \<Rightarrow> nat \<Rightarrow> bit_set \<times> u32 list
    \<Rightarrow> (bit_set \<times> u32 list) result" where
  "place_digests defined missing 0 next_crc next_missing st = Inr st"
| "place_digests defined missing (Suc k) next_crc next_missing (has, crcs) =
     bindE (vec_get missing next_missing) (\<lambda>v.
     bindE (vec_set crcs next_crc v) (\<lambda>crcs.
     place_digests defined missing k (next_crc + 1) (next_missing + 1)
       (snd (if contains defined next_missing then bs_insert has next_crc else bs_remove has next_crc), crcs)))"

fun distribute_digests :: "bit_set \<Rightarrow> u32 list \<Rightarrow> block list \<Rightarrow> nat \<Rightarrow> nat \<Rightarrow> bit_set \<times> u32 list
    \<Rightarrow> (bit_set \<times> u32 list) result" where
  "distribute_digests defined missing [] next_crc next_missing st = Inr st"
| "distribute_digests defined missing (b # bs) next_crc next_missing st =
     (if own_digest b then distribute_digests defined missing bs (next_crc + 1) next_missing st
      else bindE (place_digests defined missing (num_unpack_sub_streams b) next_crc next_missing st)
        (distribute_digests defined missing bs (next_crc + num_unpack_sub_streams b)
          (next_missing + num_unpack_sub_streams b)))"

text \<open>A single sub-stream inherits the CRC of its block.\<close>

fun inherit_digests :: "block list \<Rightarrow> nat \<Rightarrow> bit_set \<times> u32 list \<Rightarrow> (bit_set \<times> u32 list) result" where
  "inherit_digests [] first st = Inr st"
| "inherit_digests (b # bs) first (has, crcs) =
     (if own_digest b then
        bindE (vec_set crcs first (ucast (crc b))) (\<lambda>crcs.
          inherit_digests bs (first + num_unpack_sub_streams b) (snd (bs_insert has first), crcs))
      else inherit_digests bs (first + num_unpack_sub_streams b) (has, crcs))"

definition one_sub_stream :: "block \<Rightarrow> block" where
  "one_sub_stream b = b\<lparr>num_unpack_sub_streams := 1\<rparr>"

text \<open>
  The three parts of \<^verbatim>\<open>read_sub_streams_info\<close>: the counts, one per block unless given; the
  sizes; and the digests.
\<close>

definition read_sub_counts :: "header_bounds \<Rightarrow> block list \<Rightarrow> (block list \<times> nat \<times> u8) reader" where
  "read_sub_counts bnd bs =
     (let blocks = map one_sub_stream bs in
      bindP read_u8 (\<lambda>nid.
      if nid = K_NUM_UNPACK_STREAM then
        bindP (read_num_unpack_streams bnd 0 blocks) (\<lambda>(blocks, t).
        bindP read_u8 (\<lambda>nid. returnP (blocks, t, nid)))
      else returnP (blocks, length blocks, nid)))"

definition read_sub_digests :: "nat \<Rightarrow> block list \<Rightarrow> u8 \<Rightarrow> ((bit_set \<times> u32 list) \<times> u8) reader" where
  "read_sub_digests total_streams blocks nid =
     (let st = (reserve_len_exact bs_new total_streams, replicate total_streams 0) in
      bindP (liftE (count_digests total_streams blocks)) (\<lambda>num_digests.
      if nid = K_CRC then
        bindP (read_all_or_bits num_digests) (\<lambda>defined.
        bindP (read_defined_u32 defined num_digests) (\<lambda>missing.
        bindP (liftE (distribute_digests defined missing blocks 0 0 st)) (\<lambda>st.
        bindP read_u8 (\<lambda>nid. returnP (st, nid)))))
      else returnP (st, nid)))"

definition read_sub_streams_info :: "header_bounds \<Rightarrow> archive \<Rightarrow> archive reader" where
  "read_sub_streams_info bnd a =
     bindP (read_sub_counts bnd (ar_blocks a)) (\<lambda>(blocks, total_streams, nid).
     bindP (all_sub_sizes nid blocks 0 (replicate total_streams 0)) (\<lambda>sizes.
     bindP (if nid = K_SIZE then read_u8 else returnP nid) (\<lambda>nid.
     bindP (read_sub_digests total_streams blocks nid) (\<lambda>(st, nid).
     if nid \<noteq> K_END then failP BadTerminatedSubStreamsInfo
     else
     bindP (liftE (inherit_digests blocks 0 st)) (\<lambda>(has, crcs).
     returnP (a\<lparr>ar_blocks := blocks, ar_sub_streams_info :=
       Some \<lparr>ssi_unpack_sizes = sizes, ssi_has_crc = has, ssi_crcs = crcs\<rparr>\<rparr>))))))"

section \<open>All of it\<close>

text \<open>Without sub-stream information a block is one sub-stream.\<close>

definition default_step :: "nat \<times> block \<Rightarrow> sub_streams_info \<Rightarrow> sub_streams_info result" where
  "default_step ib info = (case ib of (i, b) \<Rightarrow>
     bindE (get_unpack_size b) (\<lambda>sz. Inr \<lparr>
       ssi_unpack_sizes = ssi_unpack_sizes info @ [sz],
       ssi_has_crc = (if has_crc b then snd (bs_insert (ssi_has_crc info) i) else ssi_has_crc info),
       ssi_crcs = ssi_crcs info @ [if has_crc b then ucast (crc b) else 0]\<rparr>))"

definition default_sub_streams :: "block list \<Rightarrow> sub_streams_info result" where
  "default_sub_streams bs =
     foldE default_step (enumerate 0 bs)
       \<lparr>ssi_unpack_sizes = [], ssi_has_crc = with_capacity (length bs), ssi_crcs = []\<rparr>"

text \<open>
  A section that is read when its identifier was read, followed by the next identifier.
\<close>

definition section_if :: "bool \<Rightarrow> archive reader \<Rightarrow> archive \<Rightarrow> u8 \<Rightarrow> (archive \<times> u8) reader" where
  "section_if present p a nid =
     (if present then bindP p (\<lambda>a. bindP read_u8 (\<lambda>nid. returnP (a, nid))) else returnP (a, nid))"

definition read_streams_info :: "header_bounds \<Rightarrow> archive \<Rightarrow> archive reader" where
  "read_streams_info bnd a =
     bindP read_u8 (\<lambda>nid.
     bindP (section_if (nid = K_PACK_INFO) (read_pack_info bnd a) a nid) (\<lambda>(a, nid).
     bindP (section_if (nid = K_UNPACK_INFO) (read_unpack_info bnd a) (a\<lparr>ar_blocks := []\<rparr>) nid) (\<lambda>(a, nid).
     let explicit = nid = K_SUB_STREAMS_INFO in
     bindP (section_if explicit (read_sub_streams_info bnd a) a nid) (\<lambda>(a, nid).
     if nid \<noteq> K_END then failP (BadTerminatedStreamsInfo nid)
     else if explicit then returnP a
     else
       bindP (liftE (hb_count bnd (of_nat (length (ar_blocks a))) Entries)) (\<lambda>_.
       let blocks = map one_sub_stream (ar_blocks a) in
       bindP (liftE (default_sub_streams blocks)) (\<lambda>info.
       returnP (a\<lparr>ar_blocks := blocks, ar_sub_streams_info := Some info\<rparr>)))))))"

section \<open>What a parsed block satisfies\<close>

lemma no_panic_ifP [no_panic_intros]:
  "(c \<Longrightarrow> no_panic (p bs)) \<Longrightarrow> (\<not> c \<Longrightarrow> no_panic (q bs)) \<Longrightarrow> no_panic ((if c then p else q) bs)"
  by simp

lemma id_size_le: "(w :: u8) AND 0xF \<le> 15"
  by (rule word_and_le1)

lemma check_stream_counts_spec:
  assumes "check_stream_counts bnd ti to' i k = Inr (ti', to'')"
  shows "k = 1 \<and> unat ti' = unat ti + unat i \<and> unat to'' = unat to' + 1 \<and> ti' \<le> 64
     \<and> i \<le> max_streams_per_coder (hb_limits bnd)"
  using assms
  by (auto simp: check_stream_counts_def Let_def bindE_Inr_iff ok_or_Inr_iff not_less
      MAX_BLOCK_CODERS_AND_STREAMS_def split: if_splits dest: checked_add_unat)

lemma no_panic_check_counts [no_panic_intros]: "no_panic (check_stream_counts bnd ti to' i k)"
  by (auto simp: check_stream_counts_def Let_def intro!: no_panic_intros)

lemma set_id_wf: "set_id_size single_stream (w AND 0xF) = Inr c \<Longrightarrow> coder_wf c"
  using cs.set_id [OF cs.new(1) id_size_le, of w] by auto

lemma coder_steps:
  assumes "coder_wf c" "length mid = length (encoder_method_id c)"
  shows "coder_wf (set_stream_counts (write_method_id c mid) i k)"
    "counts (set_stream_counts (write_method_id c mid) i k) = (i, k)"
    "coder_wf (set_properties (set_stream_counts (write_method_id c mid) i k) ps)"
    "counts (set_properties (set_stream_counts (write_method_id c mid) i k) ps) = (i, k)"
  using write_method_id_view [OF assms] set_stream_counts_view set_properties_view by auto

lemma read_coder_spec:
  assumes "read_coder bnd ti to' bs = Inr ((cd, ti', to''), bs')"
  shows "coder_wf cd \<and> num_out_streams cd = 1 \<and> unat ti' = unat ti + unat (num_in_streams cd)
     \<and> unat to'' = unat to' + 1 \<and> ti' \<le> 64 \<and> num_in_streams cd \<le> max_streams_per_coder (hb_limits bnd)"
  using assms
  by (auto simp: read_coder_def Let_def bindP_Inr_iff read_exact_Inr_iff coder_steps
      num_in_streams_def num_out_streams_def split: if_splits
      dest!: check_stream_counts_spec set_id_wf)

lemma no_panic_read_coder [no_panic_intros]: "no_panic (read_coder bnd ti to' bs)"
proof -
  have "no_panic (set_id_size single_stream (w AND 0xF))" for w
    by (rule set_id_size_view [OF _ id_size_le, of single_stream w]) (use single_stream_view in auto)
  then show ?thesis
    by (auto simp: read_coder_def Let_def intro!: no_panic_intros split: prod.splits)
qed

definition coder_ok :: "header_bounds \<Rightarrow> coder \<Rightarrow> bool" where
  "coder_ok bnd c \<longleftrightarrow> coder_wf c \<and> num_out_streams c = 1
     \<and> num_in_streams c \<le> max_streams_per_coder (hb_limits bnd)"

lemma read_coders_spec:
  assumes "read_coders bnd n ti to' bs = Inr ((cs, ti', to''), bs')" "unat ti \<le> 64"
  shows "length cs = n \<and> (\<forall>c \<in> set cs. coder_ok bnd c)
     \<and> unat ti' = unat ti + sum_list (map (\<lambda>c. unat (num_in_streams c)) cs)
     \<and> unat to'' = unat to' + sum_list (map (\<lambda>c. unat (num_out_streams c)) cs)
     \<and> sum_list (map (\<lambda>c. unat (num_out_streams c)) cs) = n \<and> unat ti' \<le> 64"
  using assms
proof (induction n arbitrary: ti to' bs cs)
  case (Suc n)
  from Suc.prems obtain cd t1 u1 bs1 cs' where r: "read_coder bnd ti to' bs = Inr ((cd, t1, u1), bs1)"
    "read_coders bnd n t1 u1 bs1 = Inr ((cs', ti', to''), bs')" "cs = cd # cs'"
    by (auto simp: bindP_Inr_iff)
  note c = read_coder_spec [OF r(1)]
  then have "unat t1 \<le> 64" by (simp add: word_le_nat_alt)
  from Suc.IH [OF r(2) this] c r(3) show ?case by (auto simp: coder_ok_def)
qed simp

lemma no_panic_read_coders [no_panic_intros]: "no_panic (read_coders bnd n ti to' bs)"
  by (induction n arbitrary: ti to' bs) (auto intro!: no_panic_intros split: prod.splits)

lemma of_nat_le_u64: "n \<le> 64 \<Longrightarrow> (of_nat n :: u64) \<le> i \<longleftrightarrow> n \<le> unat i"
  using unat_of_usize [of n] by (simp add: word_le_nat_alt usize_max_def)

lemma read_bind_pair_spec:
  "read_bind_pair ti to' bs = Inr (bp, bs') \<Longrightarrow> ti \<le> 64 \<Longrightarrow> to' \<le> 64 \<Longrightarrow>
     unat (in_index bp) < ti \<and> unat (out_index bp) < to'"
  by (auto simp: read_bind_pair_def bindP_Inr_iff of_nat_le_u64 not_le split: if_splits)

lemma replicateP_all:
  assumes "\<And>bs x bs'. p bs = Inr (x, bs') \<Longrightarrow> P x" "replicateP n p bs = Inr (xs, bs')"
  shows "\<forall>x \<in> set xs. P x"
  using assms(2)
proof (induction n arbitrary: bs xs)
  case (Suc n)
  then obtain y ys bs1 where "p bs = Inr (y, bs1)" "replicateP n p bs1 = Inr (ys, bs')" "xs = y # ys"
    by (auto simp: bindP_Inr_iff)
  with Suc.IH assms(1) show ?case by auto
qed simp

lemma read_bind_pairs_range:
  assumes "replicateP n (read_bind_pair ti to') bs = Inr (bps, bs')" "ti \<le> 64" "to' \<le> 64"
  shows "set (in_indices bps) \<subseteq> {..<ti} \<and> set (out_indices bps) \<subseteq> {..<to'}"
  using replicateP_all [OF _ assms(1), of "\<lambda>bp. unat (in_index bp) < ti \<and> unat (out_index bp) < to'"]
    read_bind_pair_spec assms(2,3)
  by (auto simp: in_indices_def out_indices_def)

text \<open>
  What a block has after \<^verbatim>\<open>read_block\<close>: coders within the limits, one output each; stream tables
  whose totals are the sums of the coders' counts; and a decodable graph.
\<close>

definition block_ok :: "header_bounds \<Rightarrow> block \<Rightarrow> bool" where
  "block_ok bnd b \<longleftrightarrow>
     0 < length (coders b) \<and> length (coders b) \<le> 64
     \<and> length (coders b) \<le> unat (max_coders_per_block (hb_limits bnd))
     \<and> (\<forall>c \<in> set (coders b). coder_ok bnd c)
     \<and> total_input_streams b \<le> 64 \<and> total_output_streams b = length (coders b)
     \<and> length (bind_pairs b) = total_output_streams b - 1 \<and> packed_streams b \<noteq> []
     \<and> block_ranges b \<and> decodable b"

lemma num_coders_le: "n \<le> unat (v :: u64) \<Longrightarrow> \<not> MAX_BLOCK_CODERS_AND_STREAMS < of_nat n \<Longrightarrow> n \<le> 64"
  using unat_of_usize [of n] unsigned_less [of v, where 'a = nat]
  by (simp add: MAX_BLOCK_CODERS_AND_STREAMS_def word_less_nat_alt usize_max_def)

lemma read_block_spec:
  assumes "read_block bnd bs = Inr (b, bs')"
  shows "block_ok bnd b"
proof -
  obtain cnt bs1 n where cnt: "read_variable_u64 bs = Inr (cnt, bs1)" "hb_count bnd cnt CodersPerBlock = Inr n"
    and n64: "\<not> MAX_BLOCK_CODERS_AND_STREAMS < of_nat n"
    using assms by (auto simp: read_block_def bindP_Inr_iff split: if_splits)
  have n: "n = unat cnt" "n \<le> unat (max_coders_per_block (hb_limits bnd))"
    using cnt(2) by (auto simp: hb_count_Inr_iff limit_cap_def)
  have "n \<le> 64" using num_coders_le [of n cnt] n(1) n64 by simp
  obtain cs wi wo bs2 where cs: "read_coders bnd n 0 0 bs1 = Inr ((cs, wi, wo), bs2)" and wo: "unat wo \<noteq> 0"
    using assms cnt n64
    by (auto simp: read_block_def bindP_Inr_iff Let_def split: if_splits)
  obtain bps bs3 where bps: "replicateP (unat wo - 1) (read_bind_pair (unat wi) (unat wo)) bs2 = Inr (bps, bs3)"
    and le: "unat wo - 1 < unat wi"
    using assms cnt n64 cs wo
    by (auto simp: read_block_def bindP_Inr_iff Let_def split: if_splits)
  obtain packed bs4 where pk: "(if unat wi - (unat wo - 1) = 1
            then bindP (liftE (implied_packed_stream (unat wi) bps)) (\<lambda>i. returnP [i])
            else replicateP (unat wi - (unat wo - 1)) read_variable_u64) bs3 = Inr (packed, bs4)"
    and v: "validate_coder_graph (set_streams (with_coders cs) (unat wi) (unat wo) bps packed []) = Inr ()"
    and b: "b = set_streams (with_coders cs) (unat wi) (unat wo) bps packed []"
    using assms cnt n64 cs wo bps le
    by (auto simp: read_block_def bindP_Inr_iff Let_def split: if_splits)
  note c = read_coders_spec [OF cs, simplified]
  then have "unat wo \<le> 64" using \<open>n \<le> 64\<close> by simp
  note r = read_bind_pairs_range [OF bps _ this]
  have ranges: "block_ranges b"
    using c r by (simp add: block_ranges_def b set_streams_tables with_coders_def)
  have "packed \<noteq> []"
    using pk le length_replicateP [of "unat wi - (unat wo - 1)" read_variable_u64 bs3 packed bs4]
    by (auto simp: bindP_Inr_iff split: if_splits)
  moreover have "length bps = unat wo - 1" using bps by (rule length_replicateP)
  moreover have "decodable b" using v validate_coder_graph_iff [OF ranges] b by simp
  ultimately show ?thesis
    using c n \<open>n \<le> 64\<close> ranges wo
    by (auto simp: block_ok_def b set_streams_tables with_coders_def)
qed

lemma block_ranges_built:
  assumes "read_coders bnd n 0 0 bs1 = Inr ((cs, wi, wo), bs2)" "n \<le> 64"
    and "replicateP k (read_bind_pair (unat wi) (unat wo)) bs2 = Inr (bps, bs3)"
  shows "block_ranges (set_streams (with_coders cs) (unat wi) (unat wo) bps packed [])"
proof -
  note c = read_coders_spec [OF assms(1), simplified]
  then have "unat wo \<le> 64" using assms(2) by simp
  note r = read_bind_pairs_range [OF assms(3) _ this]
  show ?thesis using c r by (simp add: block_ranges_def set_streams_tables with_coders_def)
qed

lemma no_panic_implied [no_panic_intros]: "no_panic (implied_packed_stream n bps)"
  by (simp add: implied_packed_stream_def Let_def)

lemma no_panic_read_bind_pair [no_panic_intros]: "no_panic (read_bind_pair ti to' bs)"
  by (auto simp: read_bind_pair_def intro!: no_panic_intros)

lemma no_panic_read_block [no_panic_intros]: "no_panic (read_block bnd bs)"
  unfolding read_block_def
proof (intro no_panic_bindP no_panic_liftE no_panic_hb no_panic_variable_u64, goal_cases)
  case (1 cnt bs1 n bs2)
  then have n: "n = unat cnt" by (simp add: hb_count_Inr_iff)
  show ?case
  proof (cases "MAX_BLOCK_CODERS_AND_STREAMS < (of_nat n :: u64)")
    case False
    then have "n \<le> 64" using num_coders_le [of n cnt] n by simp
    from False show ?thesis
      by (auto simp: Let_def intro!: no_panic_intros no_panic_validate)
         (erule (1) block_ranges_built [OF _ \<open>n \<le> 64\<close>])+
  qed simp
qed

text \<open>Later updates of the block's sizes, CRC and sub-stream count keep all of this.\<close>

lemma block_ok_cong:
  assumes "coders b = coders b'" "total_input_streams b = total_input_streams b'"
    "total_output_streams b = total_output_streams b'" "bind_pairs b = bind_pairs b'"
    "packed_streams b = packed_streams b'"
  shows "block_ok bnd b \<longleftrightarrow> block_ok bnd b'"
proof -
  have f: "find_bind_pair_for_in_stream b = find_bind_pair_for_in_stream b'"
    by (simp add: fun_eq_iff find_bind_pair_for_in_stream_def assms)
  have "coder_graph b = coder_graph b'"
    by (simp add: coder_graph_def graph_def edge_at_def nin_def first_in_def f assms)
  then show ?thesis
    by (simp add: block_ok_def block_ranges_def decodable_def output_coder_def unbound_outputs_def assms)
qed

definition block_sized :: "block \<Rightarrow> bool" where
  "block_sized b \<longleftrightarrow> length (unpack_sizes b) = total_output_streams b"

lemma block_field_updates [simp]:
  "total_input_streams (b\<lparr>has_crc := h\<rparr>) = total_input_streams b"
  "total_output_streams (b\<lparr>has_crc := h\<rparr>) = total_output_streams b"
  "bind_pairs (b\<lparr>has_crc := h\<rparr>) = bind_pairs b" "packed_streams (b\<lparr>has_crc := h\<rparr>) = packed_streams b"
  "unpack_sizes (b\<lparr>has_crc := h\<rparr>) = unpack_sizes b"
  "total_input_streams (b\<lparr>crc := v\<rparr>) = total_input_streams b"
  "total_output_streams (b\<lparr>crc := v\<rparr>) = total_output_streams b"
  "bind_pairs (b\<lparr>crc := v\<rparr>) = bind_pairs b" "packed_streams (b\<lparr>crc := v\<rparr>) = packed_streams b"
  "unpack_sizes (b\<lparr>crc := v\<rparr>) = unpack_sizes b"
  "total_input_streams (b\<lparr>num_unpack_sub_streams := n\<rparr>) = total_input_streams b"
  "total_output_streams (b\<lparr>num_unpack_sub_streams := n\<rparr>) = total_output_streams b"
  "bind_pairs (b\<lparr>num_unpack_sub_streams := n\<rparr>) = bind_pairs b"
  "packed_streams (b\<lparr>num_unpack_sub_streams := n\<rparr>) = packed_streams b"
  "unpack_sizes (b\<lparr>num_unpack_sub_streams := n\<rparr>) = unpack_sizes b"
  by (simp_all add: block_table_defs)

lemma block_ok_updates [simp]:
  "block_ok bnd (b\<lparr>has_crc := h\<rparr>) = block_ok bnd b"
  "block_ok bnd (b\<lparr>crc := v\<rparr>) = block_ok bnd b"
  "block_ok bnd (b\<lparr>num_unpack_sub_streams := n\<rparr>) = block_ok bnd b"
  "block_ok bnd (prepare_unpack_sizes b) = block_ok bnd b"
  "block_ok bnd (fill_unpack_sizes b ss) = block_ok bnd b"
  by (rule block_ok_cong; simp)+

lemma block_sized_updates [simp]:
  "block_sized (b\<lparr>has_crc := h\<rparr>) = block_sized b" "block_sized (b\<lparr>crc := v\<rparr>) = block_sized b"
  "block_sized (b\<lparr>num_unpack_sub_streams := n\<rparr>) = block_sized b"
  by (simp_all add: block_sized_def)

lemma one_sub_stream_simps [simp]:
  "block_ok bnd (one_sub_stream b) = block_ok bnd b" "block_sized (one_sub_stream b) = block_sized b"
  "num_unpack_sub_streams (one_sub_stream b) = 1" "coders (one_sub_stream b) = coders b"
  by (simp_all add: one_sub_stream_def)

section \<open>The tables of the archive\<close>

lemma read_blocks_spec:
  assumes "read_blocks bnd n t bs = Inr (bl, bs')"
  shows "length bl = n \<and> (\<forall>b \<in> set bl. block_ok bnd b)
     \<and> (n = 0 \<or> min (unat t + sum_list (map (\<lambda>b. length (coders b)) bl)) (2 ^ 64 - 1)
              \<le> unat (max_total_coders (hb_limits bnd)))"
  using assms
proof (induction n arbitrary: t bs bl)
  case (Suc n)
  from Suc.prems obtain b bs1 bl' where r: "read_block bnd bs = Inr (b, bs1)" "bl = b # bl'"
    and cap: "\<not> max_total_coders (hb_limits bnd) < saturating_add t (of_nat (length (coders b)))"
    and rec: "read_blocks bnd n (saturating_add t (of_nat (length (coders b)))) bs1 = Inr (bl', bs')"
    by (auto simp: bindP_Inr_iff Let_def split: if_splits)
  note b = read_block_spec [OF r(1)]
  then have u: "unat (of_nat (length (coders b)) :: u64) = length (coders b)"
    by (intro unat_of_usize) (simp add: block_ok_def usize_max_def)
  from Suc.IH [OF rec] b r(2) cap u show ?case
    by (auto simp: unat_saturating_add word_less_nat_alt not_less min_def split: if_splits)
qed simp

lemma read_unpack_sizes_spec:
  assumes "read_unpack_sizes b bs = Inr (b', bs')"
  shows "block_ok bnd b' = block_ok bnd b \<and> block_sized b' \<and> coders b' = coders b"
proof -
  from assms obtain ss where ss: "length ss = length (unpack_sizes (prepare_unpack_sizes b))"
    "b' = fill_unpack_sizes (prepare_unpack_sizes b) ss"
    by (auto simp: read_unpack_sizes_def Let_def bindP_Inr_iff dest: length_replicateP)
  then show ?thesis
    by (simp add: block_sized_def fill_unpack_sizes_sizes prepare_unpack_sizes_len)
qed

lemma mapP_all:
  assumes "\<And>x bs y bs'. x \<in> set xs \<Longrightarrow> f x bs = Inr (y, bs') \<Longrightarrow> P y" "mapP f xs bs = Inr (ys, bs')"
  shows "\<forall>y \<in> set ys. P y"
  using assms
proof (induction xs arbitrary: bs ys)
  case (Cons x xs)
  then obtain z zs bs1 where "f x bs = Inr (z, bs1)" "mapP f xs bs1 = Inr (zs, bs')" "ys = z # zs"
    by (auto simp: bindP_Inr_iff)
  with Cons show ?case by fastforce
qed simp

lemma block_crc_kept:
  "(if c then bindP read_u32 (\<lambda>v. returnP (b\<lparr>has_crc := True, crc := ucast v\<rparr>))
    else returnP (b\<lparr>has_crc := False\<rparr>)) bs = Inr (b', bs') \<Longrightarrow>
   block_ok bnd b' = block_ok bnd b \<and> block_sized b' = block_sized b"
  by (auto simp: bindP_Inr_iff split: if_splits)

lemma read_block_crcs_spec:
  assumes "read_block_crcs d is bl bs = Inr (bl', bs')" "\<forall>b \<in> set bl. block_ok bnd b \<and> block_sized b"
  shows "length bl' = length bl \<and> (\<forall>b \<in> set bl'. block_ok bnd b \<and> block_sized b)"
  using assms
proof (induction "is" arbitrary: bl bs)
  case (Cons i "is")
  from Cons.prems(1) obtain b' bs1 where i: "i < length bl"
    and b': "(if contains d i
        then bindP read_u32 (\<lambda>v. returnP ((bl ! i)\<lparr>has_crc := True, crc := ucast v\<rparr>))
        else returnP ((bl ! i)\<lparr>has_crc := False\<rparr>)) bs = Inr (b', bs1)"
    and rec: "read_block_crcs d is (bl[i := b']) bs1 = Inr (bl', bs')"
    by (auto simp: bindP_Inr_iff vec_get_Inr_iff)
  have "\<forall>b \<in> set (bl[i := b']). block_ok bnd b \<and> block_sized b"
    using Cons.prems(2) i block_crc_kept [OF b'] by (auto dest!: set_update_subset_insert [THEN subsetD])
  from Cons.IH [OF rec this] show ?case by simp
qed simp

lemma no_panic_read_block_crcs:
  "\<forall>i \<in> set is. i < length bl \<Longrightarrow> no_panic (read_block_crcs d is bl bs)"
  by (induction "is" arbitrary: bl bs) (auto intro!: no_panic_intros)

lemma read_unpack_info_spec:
  assumes "read_unpack_info bnd a bs = Inr (a', bs')" "ar_blocks a = []"
  shows "(\<forall>b \<in> set (ar_blocks a'). block_ok bnd b \<and> block_sized b)
     \<and> length (ar_blocks a') \<le> unat (max_entries (hb_limits bnd))
     \<and> length (ar_blocks a') \<le> hb_bytes bnd \<and> a' = a\<lparr>ar_blocks := ar_blocks a'\<rparr>"
proof -
  obtain cnt n new bs1 bs2 bl bs3 bs4 where n: "hb_count bnd cnt Entries = Inr n"
    and new: "read_blocks bnd n 0 bs1 = Inr (new, bs2)"
    and bl: "mapP read_unpack_sizes new bs3 = Inr (bl, bs4)"
    and bl': "ar_blocks a' = bl \<or> (\<exists>d cs cs'. read_block_crcs d [0..<n] bl cs = Inr (ar_blocks a', cs'))"
    and a': "a' = a\<lparr>ar_blocks := ar_blocks a'\<rparr>"
    using assms by (auto simp: read_unpack_info_def bindP_Inr_iff split: if_splits) blast
  have "\<forall>b \<in> set bl. block_ok bnd b \<and> block_sized b"
    using read_blocks_spec [OF new] read_unpack_sizes_spec by (intro mapP_all [OF _ bl]) blast
  then have "length (ar_blocks a') = length bl \<and> (\<forall>b \<in> set (ar_blocks a'). block_ok bnd b \<and> block_sized b)"
    using bl' read_block_crcs_spec by blast
  moreover have "length bl = n" using read_blocks_spec [OF new] length_mapP [OF bl] by simp
  ultimately show ?thesis using n a' by (auto simp: hb_count_Inr_iff limit_cap_def)
qed

lemma no_panic_read_blocks [no_panic_intros]: "no_panic (read_blocks bnd n t bs)"
  by (induction n arbitrary: t bs) (auto simp: Let_def intro!: no_panic_intros)

lemma no_panic_read_unpack_sizes [no_panic_intros]: "no_panic (read_unpack_sizes b bs)"
  by (auto simp: read_unpack_sizes_def Let_def intro!: no_panic_intros)

lemma no_panic_read_unpack_info [no_panic_intros]: "no_panic (read_unpack_info bnd a bs)"
  by (auto simp: read_unpack_info_def intro!: no_panic_intros no_panic_read_block_crcs
      dest!: length_mapP read_blocks_spec)

lemma no_panic_read_defined [no_panic_intros]: "no_panic (read_defined_u32 d n bs)"
  by (auto simp: read_defined_u32_def intro!: no_panic_intros)

lemma no_panic_read_pack_info [no_panic_intros]: "no_panic (read_pack_info bnd a bs)"
  by (auto simp: read_pack_info_def intro!: no_panic_intros split: prod.splits)

section \<open>Sub-streams\<close>

lemma read_num_unpack_streams_spec:
  assumes "read_num_unpack_streams bnd t bl bs = Inr ((bl', t'), bs')"
  shows "length bl' = length bl \<and> t' = t + sum_list (map num_unpack_sub_streams bl')
     \<and> (\<forall>i < length bl. bl' ! i = (bl ! i)\<lparr>num_unpack_sub_streams := num_unpack_sub_streams (bl' ! i)\<rparr>)
     \<and> (bl = [] \<or> t' \<le> hb_bytes bnd \<and> t' \<le> unat (max_entries (hb_limits bnd)))"
  using assms
proof (induction bl arbitrary: t bs bl')
  case (Cons b bl)
  from Cons.prems obtain n bs1 bl1 where n: "hb_add_count bnd t n = Inr (t + n)"
    and rec: "read_num_unpack_streams bnd (t + n) bl bs1 = Inr ((bl1, t'), bs')"
    and bl': "bl' = b\<lparr>num_unpack_sub_streams := n\<rparr> # bl1"
    by (auto simp: bindP_Inr_iff hb_add_count_Inr_iff)
  from Cons.IH [OF rec] n bl' show ?case
    by (auto simp: hb_add_count_Inr_iff nth_Cons split: nat.splits)
qed simp

lemma no_panic_read_num [no_panic_intros]: "no_panic (read_num_unpack_streams bnd t bl bs)"
  by (induction bl arbitrary: t bs) (auto intro!: no_panic_intros split: prod.splits)

text \<open>The sizes: a segment of the table per block, filled in order.\<close>

definition only_seg :: "'a list \<Rightarrow> 'a list \<Rightarrow> nat \<Rightarrow> nat \<Rightarrow> bool" where
  "only_seg xs ys i k \<longleftrightarrow> length ys = length xs \<and> (\<forall>j < length xs. j < i \<or> i + k \<le> j \<longrightarrow> ys ! j = xs ! j)"

lemma read_sub_sizes_spec:
  assumes "read_sub_sizes k i acc sizes bs = Inr ((sizes', i', acc'), bs')"
  shows "i' = i + k \<and> only_seg sizes sizes' i k \<and> (k = 0 \<or> i + k \<le> length sizes)
     \<and> unat acc' = unat acc + (\<Sum>j = i..<i + k. unat (sizes' ! j))"
  using assms
proof (induction k arbitrary: i acc sizes bs)
  case (Suc k)
  from Suc.prems obtain sz bs1 acc1 where v: "read_variable_u64 bs = Inr (sz, bs1)" "i < length sizes"
    "checked_add acc sz = Some acc1"
    and rec: "read_sub_sizes k (i + 1) acc1 (sizes[i := sz]) bs1 = Inr ((sizes', i', acc'), bs')"
    by (auto simp: bindP_Inr_iff vec_set_Inr_iff)
  note r = Suc.IH [OF rec]
  have "sizes' ! i = sz" using r v(2) by (auto simp: only_seg_def)
  moreover have "(\<Sum>j = i..<i + Suc k. unat (sizes' ! j)) =
      unat (sizes' ! i) + (\<Sum>j = i + 1..<i + 1 + k. unat (sizes' ! j))"
    by (simp add: sum.atLeast_Suc_lessThan)
  ultimately show ?case using r v(2) checked_add_unat [OF v(3)]
    by (auto simp: only_seg_def nth_list_update)
qed (simp add: only_seg_def)

lemma only_seg_trans:
  "only_seg xs ys i k \<Longrightarrow> only_seg ys zs (i + k) m \<Longrightarrow> only_seg xs zs i (k + m)"
  by (auto simp: only_seg_def)

lemma block_sub_sizes_len:
  assumes "block_sub_sizes nid b i sizes bs = Inr ((sizes', i'), bs')"
  shows "length sizes' = length sizes \<and> i \<le> i' \<and> i' \<le> i + num_unpack_sub_streams b"
  using assms
  by (auto simp: block_sub_sizes_def bindP_Inr_iff vec_set_Inr_iff only_seg_def split: if_splits
      dest!: read_sub_sizes_spec)

lemma all_sub_sizes_len: "all_sub_sizes nid bl i sizes bs = Inr (sizes', bs') \<Longrightarrow> length sizes' = length sizes"
  by (induction bl arbitrary: i sizes bs) (fastforce simp: bindP_Inr_iff dest!: block_sub_sizes_len)+

lemma no_panic_read_sub_sizes:
  "k = 0 \<or> i + k \<le> length sizes \<Longrightarrow> no_panic (read_sub_sizes k i acc sizes bs)"
  by (induction k arbitrary: i acc sizes bs) (auto intro!: no_panic_intros)

lemma no_panic_block_sub_sizes:
  assumes "i + num_unpack_sub_streams b \<le> length sizes" "block_sized b"
  shows "no_panic (block_sub_sizes nid b i sizes bs)"
proof -
  from assms(2) obtain v where v: "get_unpack_size b = Inr v"
    using get_unpack_size_ok [of b] by (auto simp: block_sized_def)
  show ?thesis
  proof (cases "num_unpack_sub_streams b")
    case (Suc k)
    with assms(1) show ?thesis
      by (auto simp: block_sub_sizes_def v only_seg_def dest!: read_sub_sizes_spec
          intro!: no_panic_intros no_panic_read_sub_sizes)
  qed (simp add: block_sub_sizes_def)
qed

lemma no_panic_all_sub_sizes:
  assumes "i + sum_list (map num_unpack_sub_streams bl) \<le> length sizes" "\<forall>b \<in> set bl. block_sized b"
  shows "no_panic (all_sub_sizes nid bl i sizes bs)"
  using assms
proof (induction bl arbitrary: i sizes bs)
  case (Cons b bl)
  have "no_panic (block_sub_sizes nid b i sizes bs)" using Cons.prems by (intro no_panic_block_sub_sizes) auto
  moreover have "no_panic (all_sub_sizes nid bl i' sizes' bs1)"
    if "block_sub_sizes nid b i sizes bs = Inr ((sizes', i'), bs1)" for sizes' i' bs1
    using block_sub_sizes_len [OF that] Cons.prems by (intro Cons.IH) auto
  ultimately show ?case by (auto intro!: no_panic_bindP split: prod.splits)
qed simp

text \<open>With \<^verbatim>\<open>kSize\<close>, a block's sub-stream sizes add up to what the block unpacks to.\<close>

lemma block_sub_sizes_sum:
  assumes "block_sub_sizes K_SIZE b i sizes bs = Inr ((sizes', i'), bs')"
  shows "i' = i + num_unpack_sub_streams b \<and> only_seg sizes sizes' i (num_unpack_sub_streams b)
     \<and> (num_unpack_sub_streams b = 0 \<or> i' \<le> length sizes \<and>
          (\<exists>v. get_unpack_size b = Inr v \<and> (\<Sum>j = i..<i'. unat (sizes' ! j)) = unat v))"
proof (cases "num_unpack_sub_streams b")
  case (Suc k)
  with assms obtain s1 acc bs1 w where r: "read_sub_sizes k i 0 sizes bs = Inr ((s1, i + k, acc), bs1)"
    and w: "get_unpack_size b = Inr w" "\<not> w < acc" and l: "i + k < length s1"
    and s: "sizes' = s1[i + k := w - acc]" "i' = i + k + 1"
    by (auto simp: block_sub_sizes_def bindP_Inr_iff vec_set_Inr_iff split: if_splits
        dest: read_sub_sizes_spec)
  note rs = read_sub_sizes_spec [OF r]
  have "(\<Sum>j = i..<i + k. unat (sizes' ! j)) = (\<Sum>j = i..<i + k. unat (s1 ! j))"
    using s by (intro sum.cong) auto
  moreover have "unat (w - acc) = unat w - unat acc" using w(2) by (simp add: unat_sub not_less)
  moreover have "unat acc \<le> unat w" using w(2) by (simp add: word_le_nat_alt not_less)
  ultimately show ?thesis
    using rs l s w Suc by (auto simp: only_seg_def nth_list_update)
qed (use assms in \<open>auto simp: block_sub_sizes_def only_seg_def\<close>)

lemma all_sub_sizes_sum:
  assumes "all_sub_sizes K_SIZE bl i sizes bs = Inr (sizes', bs')"
  shows "only_seg sizes sizes' i (sum_list (map num_unpack_sub_streams bl))
     \<and> (\<forall>j < length bl. num_unpack_sub_streams (bl ! j) \<noteq> 0 \<longrightarrow>
          (\<exists>v. get_unpack_size (bl ! j) = Inr v \<and>
             (let f = i + sum_list (take j (map num_unpack_sub_streams bl)) in
              f + num_unpack_sub_streams (bl ! j) \<le> length sizes \<and>
              (\<Sum>m = f..<f + num_unpack_sub_streams (bl ! j). unat (sizes' ! m)) = unat v)))"
  using assms
proof (induction bl arbitrary: i sizes bs)
  case (Cons b bl)
  from Cons.prems obtain s1 i1 bs1 where b: "block_sub_sizes K_SIZE b i sizes bs = Inr ((s1, i1), bs1)"
    and rec: "all_sub_sizes K_SIZE bl i1 s1 bs1 = Inr (sizes', bs')"
    by (auto simp: bindP_Inr_iff)
  note bs = block_sub_sizes_sum [OF b]
  then have i1: "i1 = i + num_unpack_sub_streams b" by simp
  note IH = Cons.IH [OF rec, unfolded i1]
  have len: "length s1 = length sizes" using bs by (simp add: only_seg_def)
  have first: "(\<Sum>m = i..<i1. unat (sizes' ! m)) = (\<Sum>m = i..<i1. unat (s1 ! m))"
    if "i1 \<le> length sizes"
    using IH that i1 len by (intro sum.cong) (auto simp: only_seg_def)
  show ?case
  proof (intro conjI allI impI)
    show "only_seg sizes sizes' i (sum_list (map num_unpack_sub_streams (b # bl)))"
      using only_seg_trans [of sizes s1 i "num_unpack_sub_streams b" sizes'] bs IH by simp
    fix j assume "j < length (b # bl)" "num_unpack_sub_streams ((b # bl) ! j) \<noteq> 0"
    then show "\<exists>v. get_unpack_size ((b # bl) ! j) = Inr v \<and>
             (let f = i + sum_list (take j (map num_unpack_sub_streams (b # bl))) in
              f + num_unpack_sub_streams ((b # bl) ! j) \<le> length sizes \<and>
              (\<Sum>m = f..<f + num_unpack_sub_streams ((b # bl) ! j). unat (sizes' ! m)) = unat v)"
      using bs first i1 IH len by (cases j) (auto simp: Let_def add.assoc)
  qed
qed (simp add: only_seg_def)

text \<open>The digests.\<close>

definition digests_ok :: "nat \<Rightarrow> bit_set \<times> u32 list \<Rightarrow> bool" where
  "digests_ok n st \<longleftrightarrow> bs_wf (fst st) \<and> bit_count (fst st) = n \<and> length (snd st) = n"

lemma place_digests_spec:
  assumes "i + k \<le> n" "m + k \<le> length missing" "digests_ok n st"
  shows "\<exists>st'. place_digests d missing k i m st = Inr st' \<and> digests_ok n st'"
  using assms
proof (induction k arbitrary: i m st)
  case (Suc k)
  obtain has crcs where st: "st = (has, crcs)" by force
  let ?has = "snd (if contains d m then bs_insert has i else bs_remove has i)"
  have ok: "digests_ok n (?has, crcs[i := missing ! m])"
    using Suc.prems by (auto simp: digests_ok_def st bs_insert_spec bs_remove_spec max_def)
  have "\<exists>st'. place_digests d missing k (i + 1) (m + 1) (?has, crcs[i := missing ! m]) = Inr st' \<and> digests_ok n st'"
    using Suc.prems by (intro Suc.IH ok) auto
  with Suc.prems show ?case by (auto simp: st digests_ok_def)
qed simp

definition digests_needed :: "block list \<Rightarrow> nat" where
  "digests_needed bl = sum_list (map num_unpack_sub_streams (filter (\<lambda>b. \<not> own_digest b) bl))"

lemma distribute_digests_spec:
  assumes "i + sum_list (map num_unpack_sub_streams bl) \<le> n"
    "m + digests_needed bl \<le> length missing" "digests_ok n st"
  shows "\<exists>st'. distribute_digests d missing bl i m st = Inr st' \<and> digests_ok n st'"
  using assms
proof (induction bl arbitrary: i m st)
  case (Cons b bl)
  show ?case
  proof (cases "own_digest b")
    case True
    then have "num_unpack_sub_streams b = 1" by (simp add: own_digest_def)
    with True Cons.prems have "\<exists>st'. distribute_digests d missing bl (i + 1) m st = Inr st' \<and> digests_ok n st'"
      by (intro Cons.IH) (auto simp: digests_needed_def)
    with True show ?thesis by simp
  next
    case False
    with Cons.prems obtain st1 where "place_digests d missing (num_unpack_sub_streams b) i m st = Inr st1"
      "digests_ok n st1"
      using place_digests_spec [of i "num_unpack_sub_streams b" n m missing st d]
      by (auto simp: digests_needed_def)
    moreover from this False Cons.prems have "\<exists>st'. distribute_digests d missing bl (i + num_unpack_sub_streams b)
        (m + num_unpack_sub_streams b) st1 = Inr st' \<and> digests_ok n st'"
      by (intro Cons.IH) (auto simp: digests_needed_def)
    ultimately show ?thesis using False by simp
  qed
qed simp

lemma inherit_digests_spec:
  assumes "i + sum_list (map num_unpack_sub_streams bl) \<le> n" "digests_ok n st"
  shows "\<exists>st'. inherit_digests bl i st = Inr st' \<and> digests_ok n st'"
  using assms
proof (induction bl arbitrary: i st)
  case (Cons b bl)
  obtain has crcs where st: "st = (has, crcs)" by force
  show ?case
  proof (cases "own_digest b")
    case True
    then have "num_unpack_sub_streams b = 1" by (simp add: own_digest_def)
    moreover from this have "digests_ok n (snd (bs_insert has i), crcs[i := ucast (crc b)])"
      using Cons.prems by (auto simp: digests_ok_def st bs_insert_spec max_def)
    ultimately have "\<exists>st'. inherit_digests bl (i + 1) (snd (bs_insert has i), crcs[i := ucast (crc b)]) = Inr st'
        \<and> digests_ok n st'"
      using Cons.prems by (intro Cons.IH) auto
    with True Cons.prems \<open>num_unpack_sub_streams b = 1\<close> show ?thesis by (auto simp: st digests_ok_def)
  next
    case False
    have "\<exists>st'. inherit_digests bl (i + num_unpack_sub_streams b) (has, crcs) = Inr st' \<and> digests_ok n st'"
      using Cons.prems by (intro Cons.IH) (auto simp: st)
    with False show ?thesis by (simp add: st)
  qed
qed simp

lemma digests_needed_Cons:
  "digests_needed (b # bl) = (if own_digest b then 0 else num_unpack_sub_streams b) + digests_needed bl"
  by (simp add: digests_needed_def)

lemma digest_fold: "foldE (digest_step t) bl k = Inr n \<Longrightarrow> n = k + digests_needed bl"
proof (induction bl arbitrary: k)
  case (Cons b bl)
  from Cons.prems obtain k' where "digest_step t b k = Inr k'" "foldE (digest_step t) bl k' = Inr n"
    by (auto simp: bindE_Inr_iff)
  then have "n = k' + digests_needed bl" "k' = k + (if own_digest b then 0 else num_unpack_sub_streams b)"
    by (simp add: Cons.IH) (use \<open>digest_step t b k = Inr k'\<close> in \<open>auto simp: digest_step_def split: if_splits\<close>)
  then show ?case by (simp add: digests_needed_Cons)
qed (simp add: digests_needed_def)

lemma count_digests_spec: "count_digests t bl = Inr n \<Longrightarrow> n = digests_needed bl"
  using digest_fold [of t bl 0 n] by (simp add: count_digests_def)

lemma digest_fold_ok:
  "k + digests_needed bl \<le> t \<Longrightarrow> t \<le> usize_max \<Longrightarrow> foldE (digest_step t) bl k = Inr (k + digests_needed bl)"
proof (induction bl arbitrary: k)
  case (Cons b bl)
  then show ?case by (cases "own_digest b") (auto simp: digests_needed_Cons digest_step_def add.assoc)
qed (simp add: digests_needed_def)

lemma no_panic_count_digests [no_panic_intros]: "no_panic (count_digests t bl)"
proof -
  have "no_panic (foldE (digest_step t) bl k)" for k
    by (induction bl arbitrary: k) (auto simp: digest_step_def)
  then show ?thesis by (simp add: count_digests_def)
qed

lemma reserved_digests_ok: "digests_ok n (reserve_len_exact bs_new n, replicate n 0)"
  using reserve_len_exact_spec [of bs_new n] by (simp add: digests_ok_def)

text \<open>The tables of \<^verbatim>\<open>SubStreamsInfo\<close> all have one element per sub-stream.\<close>

definition sub_streams_ok :: "archive \<Rightarrow> bool" where
  "sub_streams_ok a \<longleftrightarrow> (\<exists>info. ar_sub_streams_info a = Some info
     \<and> length (ssi_unpack_sizes info) = total_unpack_sub_streams a
     \<and> digests_ok (total_unpack_sub_streams a) (ssi_has_crc info, ssi_crcs info))"

definition blocks_ok :: "header_bounds \<Rightarrow> archive \<Rightarrow> bool" where
  "blocks_ok bnd a \<longleftrightarrow> (\<forall>b \<in> set (ar_blocks a). block_ok bnd b \<and> block_sized b)
     \<and> length (ar_blocks a) \<le> unat (max_entries (hb_limits bnd)) \<and> length (ar_blocks a) \<le> hb_bytes bnd"

text \<open>The counts a header gives, or the default of one per block.\<close>

lemma read_sub_counts_spec:
  assumes "read_sub_counts bnd bl0 bs = Inr ((bl, t, nid), bs')" "\<forall>b \<in> set bl0. block_ok bnd b \<and> block_sized b"
    "length bl0 \<le> unat (max_entries (hb_limits bnd))" "length bl0 \<le> hb_bytes bnd"
  shows "t = sum_list (map num_unpack_sub_streams bl) \<and> length bl = length bl0
     \<and> t \<le> hb_bytes bnd \<and> t \<le> unat (max_entries (hb_limits bnd))
     \<and> (\<forall>b \<in> set bl. block_ok bnd b \<and> block_sized b)"
proof (cases "\<exists>bs0 bs1. read_num_unpack_streams bnd 0
      (map one_sub_stream bl0) bs0 = Inr ((bl, t), bs1)")
  case True
  then obtain bs0 bs1 where r: "read_num_unpack_streams bnd 0
      (map one_sub_stream bl0) bs0 = Inr ((bl, t), bs1)" by blast
  note s = read_num_unpack_streams_spec [OF r]
  have "block_ok bnd b \<and> block_sized b" if "b \<in> set bl" for b
  proof -
    from that obtain i where i: "i < length bl" "b = bl ! i" by (auto simp: in_set_conv_nth)
    with s have "b = (bl0 ! i)\<lparr>num_unpack_sub_streams := num_unpack_sub_streams b\<rparr>"
      by (auto simp: one_sub_stream_def)
    moreover have "block_ok bnd (bl0 ! i) \<and> block_sized (bl0 ! i)" using assms(2) s i by auto
    ultimately show ?thesis by (metis block_ok_updates(3) block_sized_updates(3))
  qed
  with s assms show ?thesis by (cases bl0) auto
next
  case False
  have "sum_list (map (\<lambda>b. 1 :: nat) xs) = length xs" for xs :: "block list" by (induction xs) auto
  with False assms show ?thesis
    by (auto simp: read_sub_counts_def Let_def bindP_Inr_iff o_def one_sub_stream_def split: if_splits)
qed

lemma no_panic_read_sub_counts [no_panic_intros]: "no_panic (read_sub_counts bnd bl bs)"
  by (auto simp: read_sub_counts_def Let_def intro!: no_panic_intros split: prod.splits)

lemma read_defined_length: "read_defined_u32 d n bs = Inr (xs, bs') \<Longrightarrow> length xs = n"
  by (auto simp: read_defined_u32_def dest: length_mapP)

lemma distribute_reserved:
  assumes "read_defined_u32 d n bs = Inr (missing, bs')" "count_digests t bl = Inr n"
    "t = sum_list (map num_unpack_sub_streams bl)"
  shows "\<exists>st'. distribute_digests d missing bl 0 0 (reserve_len_exact bs_new t, replicate t 0) = Inr st'
     \<and> digests_ok t st'"
  using assms count_digests_spec read_defined_length reserved_digests_ok
  by (intro distribute_digests_spec) auto

lemma read_sub_digests_spec:
  assumes "read_sub_digests t bl nid bs = Inr ((st, nid'), bs')"
    "t = sum_list (map num_unpack_sub_streams bl)"
  shows "digests_ok t st"
  using assms(1) distribute_reserved [OF _ _ assms(2)] reserved_digests_ok [of t]
  by (fastforce simp: read_sub_digests_def Let_def bindP_Inr_iff split: if_splits)

lemma no_panic_read_sub_digests:
  assumes "t = sum_list (map num_unpack_sub_streams bl)"
  shows "no_panic (read_sub_digests t bl nid bs)"
  using distribute_reserved [OF _ _ assms]
  by (fastforce simp: read_sub_digests_def Let_def intro!: no_panic_intros)

lemma read_sub_streams_info_spec:
  assumes "read_sub_streams_info bnd a bs = Inr (a', bs')" "blocks_ok bnd a"
  shows "blocks_ok bnd a' \<and> sub_streams_ok a' \<and> length (ar_blocks a') = length (ar_blocks a)
     \<and> total_unpack_sub_streams a' \<le> hb_bytes bnd
     \<and> total_unpack_sub_streams a' \<le> unat (max_entries (hb_limits bnd))
     \<and> a' = a\<lparr>ar_blocks := ar_blocks a', ar_sub_streams_info := ar_sub_streams_info a'\<rparr>"
proof -
  obtain bl t nid bs1 sizes bs2 nid2 bs3 st nid3 bs4 has crcs where
    cnt: "read_sub_counts bnd (ar_blocks a) bs = Inr ((bl, t, nid), bs1)"
    and sz: "all_sub_sizes nid bl 0 (replicate t 0) bs1 = Inr (sizes, bs2)"
    and dg: "read_sub_digests t bl nid2 bs3 = Inr ((st, nid3), bs4)"
    and inh: "inherit_digests bl 0 st = Inr (has, crcs)"
    and a': "a' = a\<lparr>ar_blocks := bl, ar_sub_streams_info :=
       Some \<lparr>ssi_unpack_sizes = sizes, ssi_has_crc = has, ssi_crcs = crcs\<rparr>\<rparr>"
    using assms(1) by (auto simp: read_sub_streams_info_def bindP_Inr_iff split: if_splits)
  have b: "\<forall>b \<in> set (ar_blocks a). block_ok bnd b \<and> block_sized b"
    "length (ar_blocks a) \<le> unat (max_entries (hb_limits bnd))" "length (ar_blocks a) \<le> hb_bytes bnd"
    using assms(2) by (auto simp: blocks_ok_def)
  note c = read_sub_counts_spec [OF cnt b]
  then have t: "total_unpack_sub_streams a' = t" by (simp add: total_unpack_sub_streams_def a')
  have "digests_ok t st" using read_sub_digests_spec [OF dg] c by simp
  then have "digests_ok t (has, crcs)" using inherit_digests_spec [of 0 bl t st] c inh by auto
  then have "sub_streams_ok a'"
    unfolding sub_streams_ok_def t using all_sub_sizes_len [OF sz] by (simp add: a')
  with c b t show ?thesis by (auto simp: a' blocks_ok_def)
qed

lemma no_panic_read_sub_streams_info [no_panic_intros]:
  assumes "blocks_ok bnd a"
  shows "no_panic (read_sub_streams_info bnd a bs)"
  unfolding read_sub_streams_info_def
proof (rule no_panic_bindP [OF no_panic_read_sub_counts], goal_cases)
  case (1 x bs1)
  obtain bl t nid where x: "x = (bl, t, nid)" by (cases x)
  have c: "t = sum_list (map num_unpack_sub_streams bl)" "\<forall>b \<in> set bl. block_sized b"
    using read_sub_counts_spec [OF 1 [unfolded x]] assms by (auto simp: blocks_ok_def)
  have inh: "digests_ok t st \<Longrightarrow> no_panic (inherit_digests bl 0 st)" for st
    using inherit_digests_spec [of 0 bl t st] c by auto
  show ?case
    unfolding x prod.case
    using c inh read_sub_digests_spec [OF _ c(1)]
    by (auto intro!: no_panic_intros no_panic_all_sub_sizes no_panic_read_sub_digests split: prod.splits)
qed

lemma default_fold_spec:
  assumes "\<forall>b \<in> set bl. block_sized b" "length (ssi_unpack_sizes info) = k" "length (ssi_crcs info) = k"
    "bs_wf (ssi_has_crc info)" "bit_count (ssi_has_crc info) = n" "k + length bl \<le> n"
  shows "\<exists>info'. foldE default_step (enumerate k bl) info = Inr info'
     \<and> length (ssi_unpack_sizes info') = k + length bl \<and> length (ssi_crcs info') = k + length bl
     \<and> bs_wf (ssi_has_crc info') \<and> bit_count (ssi_has_crc info') = n"
  using assms
proof (induction bl arbitrary: k info)
  case (Cons b bl)
  obtain v where v: "get_unpack_size b = Inr v"
    using get_unpack_size_ok [of b] Cons.prems(1) by (auto simp: block_sized_def)
  let ?i = "\<lparr>ssi_unpack_sizes = ssi_unpack_sizes info @ [v],
      ssi_has_crc = (if has_crc b then snd (bs_insert (ssi_has_crc info) k) else ssi_has_crc info),
      ssi_crcs = ssi_crcs info @ [if has_crc b then ucast (crc b) else 0]\<rparr>"
  have "default_step (k, b) info = Inr ?i" by (simp add: default_step_def v)
  moreover have "\<exists>info'. foldE default_step (enumerate (Suc k) bl) ?i = Inr info'
     \<and> length (ssi_unpack_sizes info') = Suc k + length bl \<and> length (ssi_crcs info') = Suc k + length bl
     \<and> bs_wf (ssi_has_crc info') \<and> bit_count (ssi_has_crc info') = n"
    using Cons.prems by (intro Cons.IH) (auto simp: bs_insert_spec)
  ultimately show ?case by auto
qed simp

lemma default_sub_streams_spec:
  assumes "\<forall>b \<in> set bl. block_sized b"
  shows "\<exists>info. default_sub_streams bl = Inr info \<and> length (ssi_unpack_sizes info) = length bl
     \<and> digests_ok (length bl) (ssi_has_crc info, ssi_crcs info)"
  using default_fold_spec [OF assms, of "\<lparr>ssi_unpack_sizes = [], ssi_has_crc = with_capacity (length bl),
    ssi_crcs = []\<rparr>" 0 "length bl"]
  by (auto simp: default_sub_streams_def digests_ok_def)

section \<open>The streams of a header\<close>

lemma read_pack_info_spec:
  assumes "read_pack_info bnd a bs = Inr (a', bs')"
  shows "ar_blocks a' = ar_blocks a \<and> ar_files a' = ar_files a \<and> ar_sub_streams_info a' = ar_sub_streams_info a
     \<and> ar_stream_map a' = ar_stream_map a \<and> ar_is_solid a' = ar_is_solid a
     \<and> (\<exists>n \<le> unat (max_entries (hb_limits bnd)). n \<le> hb_bytes bnd
          \<and> (ar_pack_sizes a' = ar_pack_sizes a \<or> length (ar_pack_sizes a') = n)
          \<and> (ar_pack_crcs a' = ar_pack_crcs a \<and> ar_pack_crcs_defined a' = ar_pack_crcs_defined a
             \<or> length (ar_pack_crcs a') = n \<and> bs_wf (ar_pack_crcs_defined a') \<and> bit_count (ar_pack_crcs_defined a') = n))"
  using assms
  by (auto simp: read_pack_info_def bindP_Inr_iff hb_count_Inr_iff limit_cap_def split: if_splits
      dest!: length_replicateP read_defined_length read_all_or_bits_wf)

definition streams_ok :: "header_bounds \<Rightarrow> archive \<Rightarrow> bool" where
  "streams_ok bnd a \<longleftrightarrow> blocks_ok bnd a \<and> sub_streams_ok a
     \<and> total_unpack_sub_streams a \<le> hb_bytes bnd
     \<and> total_unpack_sub_streams a \<le> unat (max_entries (hb_limits bnd))"

lemma total_ones:
  "total_unpack_sub_streams (a\<lparr>ar_blocks := map one_sub_stream bl, ar_sub_streams_info := i\<rparr>)
     = length bl"
proof -
  have "map (num_unpack_sub_streams \<circ> one_sub_stream) bl = replicate (length bl) 1"
    by (rule nth_equalityI) auto
  then show ?thesis by (simp add: total_unpack_sub_streams_def sum_list_replicate)
qed

lemma section_if_Inr:
  assumes "section_if c p a nid bs = Inr ((a', nid'), bs')"
  obtains (present) cs where c "p bs = Inr (a', cs)" "read_u8 cs = Inr (nid', bs')"
    | (absent) "\<not> c" "a' = a" "nid' = nid" "bs' = bs"
  using assms by (auto simp: section_if_def bindP_Inr_iff split: if_splits)

lemma default_streams_ok:
  assumes "blocks_ok bnd a"
    and "default_sub_streams (map one_sub_stream (ar_blocks a)) = Inr info"
  shows "streams_ok bnd (a\<lparr>ar_blocks := map one_sub_stream (ar_blocks a),
     ar_sub_streams_info := Some info\<rparr>)"
  using assms default_sub_streams_spec [of "map one_sub_stream (ar_blocks a)"]
  by (auto simp: streams_ok_def blocks_ok_def sub_streams_ok_def total_ones)

lemma blocks_ok_Nil [simp]: "blocks_ok bnd (a\<lparr>ar_blocks := []\<rparr>)"
  by (simp add: blocks_ok_def)

lemma read_streams_info_spec:
  assumes "read_streams_info bnd a bs = Inr (a', bs')" "ar_blocks a = []"
  shows "streams_ok bnd a' \<and> ar_files a' = ar_files a \<and> ar_stream_map a' = ar_stream_map a
     \<and> ar_is_solid a' = ar_is_solid a"
proof -
  obtain a1 a2 a3 n0 n1 n2 n3 cs0 cs1 cs2 cs3 where
    s1: "section_if (n0 = K_PACK_INFO) (read_pack_info bnd a) a n0 cs0 = Inr ((a1, n1), cs1)"
    and s2: "section_if (n1 = K_UNPACK_INFO) (read_unpack_info bnd a1) (a1\<lparr>ar_blocks := []\<rparr>) n1 cs1
        = Inr ((a2, n2), cs2)"
    and s3: "section_if (n2 = K_SUB_STREAMS_INFO) (read_sub_streams_info bnd a2) a2 n2 cs2 = Inr ((a3, n3), cs3)"
    and fin: "if n2 = K_SUB_STREAMS_INFO then a' = a3
        else \<exists>info. default_sub_streams (map one_sub_stream (ar_blocks a3)) = Inr info
          \<and> a' = a3\<lparr>ar_blocks := map one_sub_stream (ar_blocks a3), ar_sub_streams_info := Some info\<rparr>"
    using assms(1) unfolding read_streams_info_def Let_def
    by (auto simp: bindP_Inr_iff split: if_splits)
  have a1: "a1 = a \<or> (\<exists>cs cs'. read_pack_info bnd a cs = Inr (a1, cs'))"
    by (rule section_if_Inr [OF s1]) auto
  have a2: "a2 = a1\<lparr>ar_blocks := []\<rparr> \<or> (\<exists>cs cs'. read_unpack_info bnd a1 cs = Inr (a2, cs'))"
    by (rule section_if_Inr [OF s2]) auto
  have a3: "(\<exists>cs cs'. read_sub_streams_info bnd a2 cs = Inr (a', cs')) \<or>
       (\<exists>info. default_sub_streams (map one_sub_stream (ar_blocks a2)) = Inr info \<and>
         a' = a2\<lparr>ar_blocks := map one_sub_stream (ar_blocks a2), ar_sub_streams_info := Some info\<rparr>)"
    by (rule section_if_Inr [OF s3]) (use fin in auto)
  have b1: "ar_blocks a1 = []" "ar_files a1 = ar_files a" "ar_stream_map a1 = ar_stream_map a"
    "ar_is_solid a1 = ar_is_solid a"
    using a1 read_pack_info_spec assms(2) by auto
  have a2': "a2 = a1\<lparr>ar_blocks := ar_blocks a2\<rparr>" using a2 read_unpack_info_spec [OF _ b1(1)] by auto
  have ok2: "blocks_ok bnd a2" using a2 read_unpack_info_spec [OF _ b1(1)] by (auto simp: blocks_ok_def)
  have f2: "ar_files a2 = ar_files a1" "ar_stream_map a2 = ar_stream_map a1" "ar_is_solid a2 = ar_is_solid a1"
    by (subst a2', simp)+
  from a3 show ?thesis
  proof
    assume "\<exists>cs cs'. read_sub_streams_info bnd a2 cs = Inr (a', cs')"
    then obtain cs cs' where "read_sub_streams_info bnd a2 cs = Inr (a', cs')" by blast
    note s = read_sub_streams_info_spec [OF this ok2]
    then have e: "a' = a2\<lparr>ar_blocks := ar_blocks a', ar_sub_streams_info := ar_sub_streams_info a'\<rparr>" by simp
    have "ar_files a' = ar_files a2" "ar_stream_map a' = ar_stream_map a2" "ar_is_solid a' = ar_is_solid a2"
      by (subst e, simp)+
    with s f2 b1 show ?thesis by (simp add: streams_ok_def)
  next
    assume "\<exists>info. default_sub_streams (map one_sub_stream (ar_blocks a2)) = Inr info \<and>
         a' = a2\<lparr>ar_blocks := map one_sub_stream (ar_blocks a2),
            ar_sub_streams_info := Some info\<rparr>"
    with default_streams_ok [OF ok2] f2 b1 show ?thesis by auto
  qed
qed

lemma no_panic_section_if [no_panic_intros]:
  "(c \<Longrightarrow> no_panic (p bs)) \<Longrightarrow> no_panic (section_if c p a nid bs)"
  by (auto simp: section_if_def intro!: no_panic_intros)

lemma no_panic_read_streams_info [no_panic_intros]:
  assumes "ar_blocks a = []"
  shows "no_panic (read_streams_info bnd a bs)"
proof -
  have b1: "ar_blocks a1 = []" if "section_if c (read_pack_info bnd a) a n0 cs = Inr ((a1, n1), cs')" for c n0 cs a1 n1 cs'
    using that by (rule section_if_Inr) (use assms in \<open>auto dest: read_pack_info_spec\<close>)
  have ok2: "blocks_ok bnd a2" if "section_if c (read_unpack_info bnd a1) (a1\<lparr>ar_blocks := []\<rparr>) n1 cs = Inr ((a2, n2), cs')"
    "ar_blocks a1 = []" for c a1 n1 cs a2 n2 cs'
    using that(1) by (rule section_if_Inr) (use that(2) in \<open>auto dest: read_unpack_info_spec simp: blocks_ok_def\<close>)
  have ok3: "\<forall>b \<in> set (ar_blocks a3). block_sized b"
    if "section_if c (read_sub_streams_info bnd a2) a2 n2 cs = Inr ((a3, n3), cs')" "blocks_ok bnd a2" for c a2 n2 cs a3 n3 cs'
    using that(1) by (rule section_if_Inr)
      (use that(2) read_sub_streams_info_spec [OF _ that(2)] in \<open>auto simp: blocks_ok_def\<close>)
  have d: "no_panic (default_sub_streams (map one_sub_stream bl))" if "\<forall>b \<in> set bl. block_sized b" for bl
    using default_sub_streams_spec [of "map one_sub_stream bl"] that by auto
  show ?thesis
    unfolding read_streams_info_def Let_def
    by (auto intro!: no_panic_intros d split: prod.splits) (blast dest: b1 ok2 ok3)+
qed

end
