(* ===== verification/Files_Reader.thy ===== *)
theory Files_Reader
  imports Streams_Reader
begin

text \<open>
  The files part of a header (\<^verbatim>\<open>NamesReader\<close> and \<^verbatim>\<open>read_files_info\<close> of \<^verbatim>\<open>src/src/reader.rs\<close>):
  the names blob, the optional properties in any order, and the pairing of streamed files with
  sub-streams.
\<close>

section \<open>Names\<close>

text \<open>
  \<^verbatim>\<open>NamesReader::next\<close>: the units of one name, with the bytes read so far. The item is a value
  (an error item ends the iteration in its client), the bytes left follow it.
\<close>

function name_units :: "nat \<Rightarrow> nat \<Rightarrow> nat \<Rightarrow> u16 list \<Rightarrow> byte list \<Rightarrow> (error + u16 list) \<times> nat \<times> byte list" where
  "name_units max_bytes max_name rd cache bs =
     (if rd < max_bytes then
        (case read_u16 bs of
            Inl e \<Rightarrow> (Inl e, rd + 2, bs)
          | Inr (u, bs') \<Rightarrow>
              if u = 0 then (Inr cache, rd + 2, bs')
              else if max_name \<le> length cache * 2
              then (Inl (LimitExceeded NameBytes (of_nat max_name) (of_nat max_name + 2)), rd + 2, bs')
              else name_units max_bytes max_name (rd + 2) (cache @ [u]) bs')
      else (Inr cache, rd, bs))"
  by pat_completeness auto
termination
  by (relation "measure (\<lambda>(max_bytes, max_name, rd, cache, bs). max_bytes - rd)") auto

declare name_units.simps [simp del]

definition names_next :: "nat \<Rightarrow> nat \<Rightarrow> nat \<Rightarrow> byte list \<Rightarrow> ((error + ustring) \<times> nat \<times> byte list) option" where
  "names_next max_bytes max_name rd bs =
     (if max_bytes \<le> rd then None
      else case name_units max_bytes max_name rd [] bs of (item, rd', bs') \<Rightarrow>
        Some (bindE item (\<lambda>us. ok_or (Corrupted ''invalid utf-16: lone surrogate found'') (from_utf16 us)),
              rd', bs'))"

lemma name_units_rd: "name_units mx mn rd cache bs = (r, rd', bs') \<Longrightarrow> rd \<le> rd'"
proof (induction mx mn rd cache bs rule: name_units.induct)
  case (1 mx mn rd cache bs)
  show ?case
  proof (cases "read_u16 bs")
    case (Inr x)
    obtain u bs1 where x: "x = (u, bs1)" by force
    from 1 Inr x show ?thesis
      by (subst (asm) name_units.simps) (fastforce split: if_splits)
  qed (use 1(2) in \<open>subst (asm) name_units.simps, auto split: if_splits\<close>)
qed

lemma name_units_progress:
  assumes "name_units mx mn rd [] bs = (r, rd', bs')" "rd < mx"
  shows "rd < rd'"
  using assms
  by (subst (asm) name_units.simps) (auto split: sum.splits if_splits dest!: name_units_rd)

text \<open>The loop of \<^verbatim>\<open>read_files_info\<close> over the names; the index is checked before the item.\<close>

function read_names :: "nat \<Rightarrow> nat \<Rightarrow> nat \<Rightarrow> nat \<Rightarrow> archive_entry list \<Rightarrow> (nat \<times> archive_entry list) reader" where
  "read_names max_bytes max_name rd next_file files bs =
     (case names_next max_bytes max_name rd bs of
         None \<Rightarrow> Inr ((next_file, files), bs)
       | Some (item, rd', bs') \<Rightarrow>
           if length files \<le> next_file then Inl (Corrupted ''Error parsing file names'')
           else (case item of
               Inl e \<Rightarrow> Inl e
             | Inr s \<Rightarrow> read_names max_bytes max_name rd' (next_file + 1)
                 (files[next_file := (files ! next_file)\<lparr>ae_name := s\<rparr>]) bs'))"
  by pat_completeness auto
termination
proof (relation "measure (\<lambda>(mx, mn, rd, nf, files, bs). mx - rd)")
  fix mx mn rd nf files bs x item p rd' bs' s
  assume "names_next mx mn rd bs = Some x" "(item, p) = x" "(rd', bs') = p"
    "\<not> length (files :: archive_entry list) \<le> nf" "item = Inr (s :: ustring)"
  then have "rd < rd'" "rd < mx"
    by (auto simp: names_next_def split: if_splits prod.splits dest: name_units_progress)
  then show "((mx, mn, rd', nf + 1, files[nf := (files ! nf)\<lparr>ae_name := s\<rparr>], bs'), mx, mn, rd, nf, files, bs)
      \<in> measure (\<lambda>(mx, mn, rd, nf, files, bs). mx - rd)" by auto
qed simp

declare read_names.simps [simp del]

section \<open>Properties\<close>

record files_state =
  fs_files :: "archive_entry list"
  fs_empty_stream :: "bit_set option"
  fs_empty_file :: "bit_set option"
  fs_anti :: "bit_set option"

text \<open>A property defined for some of the files: which, not external, then a value for each.\<close>

definition read_per_file :: "string \<Rightarrow> ('v reader) \<Rightarrow> (archive_entry \<Rightarrow> archive_entry)
    \<Rightarrow> ('v \<Rightarrow> archive_entry \<Rightarrow> archive_entry) \<Rightarrow> files_state \<Rightarrow> files_state reader" where
  "read_per_file msg rd unset setv st =
     bindP (read_all_or_bits (length (fs_files st))) (\<lambda>defined.
     bindP read_u8 (\<lambda>external.
     if external \<noteq> 0 then failP (Unsupported msg)
     else
       bindP (mapP (\<lambda>(i, f). if contains defined i then bindP rd (\<lambda>v. returnP (setv v f))
                             else returnP (unset f))
                (enumerate 0 (fs_files st))) (\<lambda>files.
       returnP (st\<lparr>fs_files := files\<rparr>))))"

definition read_name_property :: "header_bounds \<Rightarrow> u64 \<Rightarrow> files_state \<Rightarrow> files_state reader" where
  "read_name_property bnd sz st =
     bindP read_u8 (\<lambda>external.
     if external \<noteq> 0 then failP (Unsupported ''Not implemented:external != 0'')
     else if sz = 0 \<or> (sz - 1) AND 1 \<noteq> 0 then failP (Corrupted ''file names length invalid'')
     else
       bindP (liftE (hb_count bnd sz TotalNameBytes)) (\<lambda>n.
       bindP (read_names (n - 1) (unat (max_name_bytes (hb_limits bnd))) 0 0 (fs_files st)) (\<lambda>(next_file, files).
       if next_file \<noteq> length files then failP (Corrupted ''Error parsing file names'')
       else returnP (st\<lparr>fs_files := files\<rparr>))))"

definition read_empty_bits :: "files_state \<Rightarrow> bit_set reader" where
  "read_empty_bits st = (case fs_empty_stream st of
      Some s \<Rightarrow> read_bits (bs_len s)
    | None \<Rightarrow> failP (Corrupted ''Header format error: kEmptyStream must appear before kEmptyFile''))"

definition skip_property :: "header_bounds \<Rightarrow> u64 \<Rightarrow> files_state \<Rightarrow> files_state reader" where
  "skip_property bnd sz st =
     bindP (liftE (hb_size bnd sz)) (\<lambda>n. bindP (skipP n) (\<lambda>_. returnP st))"

definition read_file_property :: "header_bounds \<Rightarrow> u8 \<Rightarrow> u64 \<Rightarrow> files_state \<Rightarrow> files_state reader" where
  "read_file_property bnd prop_type sz st =
     (if prop_type = K_EMPTY_STREAM then
        bindP (read_bits (length (fs_files st))) (\<lambda>s. returnP (st\<lparr>fs_empty_stream := Some s\<rparr>))
      else if prop_type = K_EMPTY_FILE then
        bindP (read_empty_bits st) (\<lambda>s. returnP (st\<lparr>fs_empty_file := Some s\<rparr>))
      else if prop_type = K_ANTI then
        bindP (read_empty_bits st) (\<lambda>s. returnP (st\<lparr>fs_anti := Some s\<rparr>))
      else if prop_type = K_NAME then read_name_property bnd sz st
      else if prop_type = K_C_TIME then
        read_per_file ''kCTime Unimplemented:external='' read_u64
          (\<lambda>f. f\<lparr>ae_has_creation_date := False\<rparr>)
          (\<lambda>t f. f\<lparr>ae_has_creation_date := True, ae_creation_date := t\<rparr>) st
      else if prop_type = K_A_TIME then
        read_per_file ''kATime Unimplemented:external='' read_u64
          (\<lambda>f. f\<lparr>ae_has_access_date := False\<rparr>)
          (\<lambda>t f. f\<lparr>ae_has_access_date := True, ae_access_date := t\<rparr>) st
      else if prop_type = K_M_TIME then
        read_per_file ''kMTime Unimplemented:external='' read_u64
          (\<lambda>f. f\<lparr>ae_has_last_modified_date := False\<rparr>)
          (\<lambda>t f. f\<lparr>ae_has_last_modified_date := True, ae_last_modified_date := t\<rparr>) st
      else if prop_type = K_WIN_ATTRIBUTES then
        read_per_file ''kWinAttributes Unimplemented:external='' read_u32
          (\<lambda>f. f\<lparr>ae_has_windows_attributes := False\<rparr>)
          (\<lambda>t f. f\<lparr>ae_has_windows_attributes := True, ae_windows_attributes := t\<rparr>) st
      else if prop_type = K_START_POS then failP (Unsupported ''kStartPos is unsupported, please report'')
      else if prop_type = K_DUMMY then skip_property bnd sz st
      else skip_property bnd sz st)"

lemma name_units_suffix:
  "name_units mx mn rd cache bs = (r, rd', bs') \<Longrightarrow> \<exists>pre. bs = pre @ bs'"
proof (induction mx mn rd cache bs arbitrary: r rd' bs' rule: name_units.induct)
  case (1 mx mn rd cache bs)
  show ?case
  proof (cases "read_u16 bs")
    case (Inr x)
    obtain u bs1 where x: "x = (u, bs1)" by force
    have "\<exists>pre. bs = pre @ bs1" using suffixingD [OF suffixing_fixed(2)] Inr x by blast
    with 1 Inr x show ?thesis
      by (subst (asm) (2) name_units.simps) (fastforce split: if_splits)
  qed (use 1(2) in \<open>subst (asm) name_units.simps, auto split: if_splits\<close>)
qed

lemma suffixing_read_names [suffixing_intros]: "suffixing (read_names mx mn rd nf files)"
  unfolding suffixing_def
proof (intro allI impI)
  fix bs x bs'
  assume "read_names mx mn rd nf files bs = Inr (x, bs')"
  then show "\<exists>pre. bs = pre @ bs'"
  proof (induction mx mn rd nf files bs rule: read_names.induct)
    case (1 mx mn rd nf files bs)
    show ?case
    proof (cases "names_next mx mn rd bs")
      case None
      with 1(2) show ?thesis by (subst (asm) read_names.simps) auto
    next
      case (Some y)
      obtain item rd' bs1 where y: "y = (item, rd', bs1)" by (cases y)
      obtain pre where pre: "bs = pre @ bs1"
        using Some y name_units_suffix by (fastforce simp: names_next_def split: if_splits prod.splits)
      from 1(2) Some y obtain s where "\<not> length files \<le> nf" "item = Inr s"
        "read_names mx mn rd' (nf + 1) (files[nf := (files ! nf)\<lparr>ae_name := s\<rparr>]) bs1 = Inr (x, bs')"
        by (subst (asm) read_names.simps) (auto split: if_splits sum.splits)
      with 1(1) [OF Some y [symmetric] refl] pre show ?thesis by auto
    qed
  qed
qed

lemma suffixing_case_prod [suffixing_intros]:
  "(\<And>a b. suffixing (f a b)) \<Longrightarrow> suffixing (case x of (a, b) \<Rightarrow> f a b)"
  by (cases x) simp

lemma suffixing_file_property [suffixing_intros]: "suffixing (read_file_property bnd pt sz st)"
  unfolding read_file_property_def read_per_file_def read_name_property_def read_empty_bits_def
    skip_property_def
  by (auto intro!: suffixing_intros split: option.split)

text \<open>
  The property loop; every turn reads at least the property's type byte.
\<close>

function read_properties :: "header_bounds \<Rightarrow> files_state \<Rightarrow> files_state reader" where
  "read_properties bnd st bs =
     (case read_u8 bs of
         Inl e \<Rightarrow> Inl e
       | Inr (prop_type, bs1) \<Rightarrow>
           if prop_type = 0 then Inr (st, bs1)
           else (case read_variable_u64 bs1 of
               Inl e \<Rightarrow> Inl e
             | Inr (sz, bs2) \<Rightarrow> (case read_file_property bnd prop_type sz st bs2 of
                   Inl e \<Rightarrow> Inl e
                 | Inr (st', bs3) \<Rightarrow> read_properties bnd st' bs3)))"
  by pat_completeness auto
termination
proof (relation "measure (\<lambda>(bnd, st, bs). length bs)")
  fix bnd :: header_bounds and st st' :: files_state and bs bs1 bs2 bs3 pt sz x y z
  assume "read_u8 bs = Inr x" "(pt, bs1) = x" "read_variable_u64 bs1 = Inr y" "(sz, bs2) = y"
    "read_file_property bnd pt sz st bs2 = Inr z" "(st', bs3) = z"
  then have "bs = pt # bs1" "length bs2 \<le> length bs1" "length bs3 \<le> length bs2"
    using suffixing_length [OF suffixing_variable_u64] suffixing_length [OF suffixing_file_property]
    by (auto simp: read_u8_Inr_iff)
  then show "((bnd, st', bs3), bnd, st, bs) \<in> measure (\<lambda>(bnd, st, bs). length bs)" by simp
qed simp

declare read_properties.simps [simp del]

section \<open>Pairing files with sub-streams\<close>

definition streamed_entry :: "sub_streams_info \<Rightarrow> nat \<Rightarrow> archive_entry \<Rightarrow> archive_entry result" where
  "streamed_entry info k f = (case (get (ssi_crcs info) k, get (ssi_unpack_sizes info) k) of
      (Some c, Some sz) \<Rightarrow> Inr (f\<lparr>ae_has_stream := True, ae_is_directory := False, ae_is_anti_item := False,
         ae_has_crc := contains (ssi_has_crc info) k, ae_crc := ucast c, ae_size := sz\<rparr>)
    | _ \<Rightarrow> Inl (Corrupted ''Archive declares more streamed files than sub-streams''))"

definition empty_entry :: "files_state \<Rightarrow> nat \<Rightarrow> archive_entry \<Rightarrow> archive_entry" where
  "empty_entry st k f = f\<lparr>ae_has_stream := False,
     ae_is_directory := (case fs_empty_file st of Some s \<Rightarrow> \<not> contains s k | None \<Rightarrow> True),
     ae_is_anti_item := (case fs_anti st of Some s \<Rightarrow> contains s k | None \<Rightarrow> False),
     ae_has_crc := False, ae_size := 0\<rparr>"

definition has_stream_at :: "files_state \<Rightarrow> nat \<Rightarrow> bool" where
  "has_stream_at st i \<longleftrightarrow> (case fs_empty_stream st of Some s \<Rightarrow> \<not> contains s i | None \<Rightarrow> True)"

fun assign_files :: "files_state \<Rightarrow> sub_streams_info option \<Rightarrow> nat \<Rightarrow> nat \<Rightarrow> nat \<Rightarrow> archive_entry list
    \<Rightarrow> (archive_entry list \<times> nat) result" where
  "assign_files st info i non_empty empties [] = Inr ([], non_empty)"
| "assign_files st info i non_empty empties (f # fs) =
     (if has_stream_at st i then
        (case info of
            None \<Rightarrow> Inl (Corrupted ''Archive contains file with streams but no subStreamsInfo'')
          | Some s \<Rightarrow>
              bindE (streamed_entry s non_empty f) (\<lambda>f.
              bindE (assign_files st info (i + 1) (non_empty + 1) empties fs) (\<lambda>(fs, n). Inr (f # fs, n))))
      else
        bindE (assign_files st info (i + 1) non_empty (empties + 1) fs) (\<lambda>(fs, n).
          Inr (empty_entry st empties f # fs, n)))"

definition read_files_info :: "header_bounds \<Rightarrow> archive \<Rightarrow> archive reader" where
  "read_files_info bnd a =
     bindP read_variable_u64 (\<lambda>count.
     bindP (liftE (hb_count bnd count Entries)) (\<lambda>num_files.
     bindP (read_properties bnd \<lparr>fs_files = replicate num_files entry_default, fs_empty_stream = None,
              fs_empty_file = None, fs_anti = None\<rparr>) (\<lambda>st.
     bindP (liftE (assign_files st (ar_sub_streams_info a) 0 0 0 (fs_files st))) (\<lambda>(files, non_empty).
     let sub_streams = (case ar_sub_streams_info a of None \<Rightarrow> 0 | Some s \<Rightarrow> length (ssi_unpack_sizes s)) in
     if non_empty \<noteq> sub_streams
     then failP (Corrupted ''Archive declares fewer streamed files than sub-streams'')
     else returnP (a\<lparr>ar_files := files\<rparr>)))))"

section \<open>Lemmas\<close>

lemma read_names_spec:
  assumes "read_names mx mn rd nf files bs = Inr ((nf', files'), bs')"
  shows "length files' = length files \<and> nf \<le> nf' \<and> nf' \<le> max nf (length files)"
  using assms
proof (induction mx mn rd nf files bs rule: read_names.induct)
  case (1 mx mn rd nf files bs)
  show ?case
  proof (cases "names_next mx mn rd bs")
    case None
    with 1(2) show ?thesis by (subst (asm) read_names.simps) auto
  next
    case (Some y)
    obtain item rd' bs1 where y: "y = (item, rd', bs1)" by (cases y)
    from 1(2) Some y obtain s where i: "\<not> length files \<le> nf" "item = Inr s"
      "read_names mx mn rd' (nf + 1) (files[nf := (files ! nf)\<lparr>ae_name := s\<rparr>]) bs1 = Inr ((nf', files'), bs')"
      by (subst (asm) read_names.simps) (auto split: if_splits sum.splits)
    from 1(1) [OF Some y [symmetric] refl i(1,2,3)] i(1) show ?thesis by auto
  qed
qed

text \<open>Names read from a header have no NUL, and no more units than the limit allows.\<close>

lemma name_units_spec:
  "name_units mx mn rd cache bs = (Inr us, rd', bs') \<Longrightarrow> 0 \<notin> set cache \<Longrightarrow> length cache * 2 < mn + 2 \<Longrightarrow>
     0 \<notin> set us \<and> length us * 2 < mn + 2"
proof (induction mx mn rd cache bs rule: name_units.induct)
  case (1 mx mn rd cache bs)
  show ?case
  proof (cases "read_u16 bs")
    case (Inr x)
    obtain u bs1 where x: "x = (u, bs1)" by force
    from 1 Inr x show ?thesis
      by (subst (asm) (2) name_units.simps) (auto split: if_splits)
  qed (use 1(2-) in \<open>subst (asm) name_units.simps, auto split: if_splits\<close>)
qed

lemma from_utf16_no_nul: "from_utf16 us = Some s \<Longrightarrow> 0 \<notin> set us \<Longrightarrow> 0 \<notin> set s"
  by (induction us arbitrary: s rule: from_utf16.induct)
     (auto split: if_splits list.splits simp: unat_eq_0)

lemma names_next_spec:
  "names_next mx mn rd bs = Some (Inr s, rd', bs') \<Longrightarrow> 0 \<notin> set s"
  by (auto simp: names_next_def bindE_Inr_iff split: if_splits prod.splits
      dest!: name_units_spec dest: from_utf16_no_nul)

lemma read_names_no_nul:
  assumes "read_names mx mn rd nf files bs = Inr ((nf', files'), bs')" "\<forall>f \<in> set files. 0 \<notin> set (ae_name f)"
  shows "\<forall>f \<in> set files'. 0 \<notin> set (ae_name f)"
  using assms
proof (induction mx mn rd nf files bs rule: read_names.induct)
  case (1 mx mn rd nf files bs)
  show ?case
  proof (cases "names_next mx mn rd bs")
    case None
    with 1(2,3) show ?thesis by (subst (asm) read_names.simps) auto
  next
    case (Some y)
    obtain item rd' bs1 where y: "y = (item, rd', bs1)" by (cases y)
    from 1(2) Some y obtain s where i: "\<not> length files \<le> nf" "item = Inr s"
      "read_names mx mn rd' (nf + 1) (files[nf := (files ! nf)\<lparr>ae_name := s\<rparr>]) bs1 = Inr ((nf', files'), bs')"
      by (subst (asm) read_names.simps) (auto split: if_splits sum.splits)
    have "0 \<notin> set s" using names_next_spec Some y i(2) by blast
    then have "\<forall>f \<in> set (files[nf := (files ! nf)\<lparr>ae_name := s\<rparr>]). 0 \<notin> set (ae_name f)"
      using 1(3) by (auto dest!: set_update_subset_insert [THEN subsetD])
    from 1(1) [OF Some y [symmetric] refl i(1,2,3) this] show ?thesis .
  qed
qed

definition names_nul_free :: "files_state \<Rightarrow> bool" where
  "names_nul_free st \<longleftrightarrow> (\<forall>f \<in> set (fs_files st). 0 \<notin> set (ae_name f))"

definition files_kept :: "files_state \<Rightarrow> files_state \<Rightarrow> bool" where
  "files_kept st st' \<longleftrightarrow> length (fs_files st') = length (fs_files st)
     \<and> (names_nul_free st \<longrightarrow> names_nul_free st')"

lemma read_per_file_kept:
  assumes "read_per_file msg rd unset setv st bs = Inr (st', bs')"
    and "\<And>f. ae_name (unset f) = ae_name f" "\<And>v f. ae_name (setv v f) = ae_name f"
  shows "files_kept st st'"
proof -
  obtain d bs1 files bs2 where m: "mapP (\<lambda>(i, f). if contains d i then bindP rd (\<lambda>v. returnP (setv v f))
        else returnP (unset f)) (enumerate 0 (fs_files st)) bs1 = Inr (files, bs2)"
    and st': "st' = st\<lparr>fs_files := files\<rparr>"
    using assms(1) by (auto simp: read_per_file_def bindP_Inr_iff split: if_splits)
  have "\<forall>f \<in> set files. 0 \<notin> set (ae_name f)" if "\<forall>f \<in> set (fs_files st). 0 \<notin> set (ae_name f)"
    using that assms(2,3)
    by (intro mapP_all [OF _ m]) (auto simp: bindP_Inr_iff in_set_enumerate_eq split: if_splits)
  with length_mapP [OF m] st' show ?thesis by (simp add: files_kept_def names_nul_free_def)
qed

lemma read_file_property_kept:
  assumes "read_file_property bnd pt sz st bs = Inr (st', bs')"
  shows "files_kept st st'"
proof -
  have name: "files_kept st st'" if "read_name_property bnd sz st bs = Inr (st', bs')"
    using that
    by (auto simp: read_name_property_def bindP_Inr_iff files_kept_def names_nul_free_def split: if_splits
        dest: read_names_spec read_names_no_nul)
  have skip: "files_kept st st'" if "skip_property bnd sz st bs = Inr (st', bs')"
    using that by (auto simp: skip_property_def bindP_Inr_iff files_kept_def)
  have c: "files_kept st st'" if "read_per_file m read_u64 (\<lambda>f. f\<lparr>ae_has_creation_date := False\<rparr>)
      (\<lambda>t f. f\<lparr>ae_has_creation_date := True, ae_creation_date := t\<rparr>) st bs = Inr (st', bs')" for m
    using that by (rule read_per_file_kept) simp_all
  have a: "files_kept st st'" if "read_per_file m read_u64 (\<lambda>f. f\<lparr>ae_has_access_date := False\<rparr>)
      (\<lambda>t f. f\<lparr>ae_has_access_date := True, ae_access_date := t\<rparr>) st bs = Inr (st', bs')" for m
    using that by (rule read_per_file_kept) simp_all
  have m: "files_kept st st'" if "read_per_file m read_u64 (\<lambda>f. f\<lparr>ae_has_last_modified_date := False\<rparr>)
      (\<lambda>t f. f\<lparr>ae_has_last_modified_date := True, ae_last_modified_date := t\<rparr>) st bs = Inr (st', bs')" for m
    using that by (rule read_per_file_kept) simp_all
  have w: "files_kept st st'" if "read_per_file m read_u32 (\<lambda>f. f\<lparr>ae_has_windows_attributes := False\<rparr>)
      (\<lambda>t f. f\<lparr>ae_has_windows_attributes := True, ae_windows_attributes := t\<rparr>) st bs = Inr (st', bs')" for m
    using that by (rule read_per_file_kept) simp_all
  have b: "files_kept st st'" if "fs_files st' = fs_files st"
    using that by (simp add: files_kept_def names_nul_free_def)
  show ?thesis
    using assms name skip c a m w unfolding read_file_property_def
    by (auto simp: bindP_Inr_iff intro!: b split: if_splits)
qed

lemma files_kept_trans: "files_kept st st' \<Longrightarrow> files_kept st' st'' \<Longrightarrow> files_kept st st''"
  by (simp add: files_kept_def)

lemma read_properties_kept: "read_properties bnd st bs = Inr (st', bs') \<Longrightarrow> files_kept st st'"
proof (induction bnd st bs rule: read_properties.induct)
  case (1 bnd st bs)
  from 1(2) obtain pt bs1 where pt: "read_u8 bs = Inr (pt, bs1)"
    by (subst (asm) read_properties.simps) (auto split: sum.splits)
  show ?case
  proof (cases "pt = 0")
    case True
    with 1(2) pt show ?thesis by (subst (asm) read_properties.simps) (simp add: files_kept_def)
  next
    case False
    with 1(2) pt obtain sz bs2 st1 bs3 where r: "read_variable_u64 bs1 = Inr (sz, bs2)"
      "read_file_property bnd pt sz st bs2 = Inr (st1, bs3)" "read_properties bnd st1 bs3 = Inr (st', bs')"
      by (subst (asm) read_properties.simps) (auto split: sum.splits)
    from 1(1) [OF pt refl False r(1) refl r(2) refl r(3)] read_file_property_kept [OF r(2)]
    show ?thesis by (rule files_kept_trans [rotated])
  qed
qed

lemma name_units_no_panic: "name_units mx mn rd cache bs = (Inl e, r) \<Longrightarrow> \<not> is_panic e"
proof (induction mx mn rd cache bs rule: name_units.induct)
  case (1 mx mn rd cache bs)
  show ?case
  proof (cases "read_u16 bs")
    case (Inl e')
    have "no_panic (read_u16 bs)" by simp
    with Inl 1(2) show ?thesis
      by (subst (asm) name_units.simps) (auto simp del: no_panic_fixed split: if_splits)
  next
    case (Inr x)
    obtain u bs1 where x: "x = (u, bs1)" by force
    from 1 Inr x show ?thesis
      by (subst (asm) (2) name_units.simps) (auto split: if_splits)
  qed
qed

lemma no_panic_read_names [no_panic_intros]: "no_panic (read_names mx mn rd nf files bs)"
proof (induction mx mn rd nf files bs rule: read_names.induct)
  case (1 mx mn rd nf files bs)
  have "\<not> is_panic e" if "names_next mx mn rd bs = Some (Inl e, r)" for e r
    using that name_units_no_panic by (auto simp: names_next_def bindE_def ok_or_def split: if_splits prod.splits sum.splits option.splits)
  with 1 show ?case
    by (subst read_names.simps) (auto split: option.splits sum.splits)
qed

lemma no_panic_skip [no_panic_intros]: "no_panic (skipP n bs)"
  by simp

lemma no_panic_empty_bits [no_panic_intros]: "no_panic (read_empty_bits st bs)"
  by (auto simp: read_empty_bits_def split: option.splits)

lemma no_panic_per_file [no_panic_intros]:
  "(\<And>bs. no_panic (p bs)) \<Longrightarrow> no_panic (read_per_file m p unset setv st bs)"
  by (auto simp: read_per_file_def intro!: no_panic_intros)

lemma no_panic_name_property [no_panic_intros]: "no_panic (read_name_property bnd sz st bs)"
  by (auto simp: read_name_property_def intro!: no_panic_intros)

lemma no_panic_skip_property [no_panic_intros]: "no_panic (skip_property bnd sz st bs)"
  by (auto simp: skip_property_def intro!: no_panic_intros)

lemma no_panic_file_property [no_panic_intros]: "no_panic (read_file_property bnd pt sz st bs)"
  unfolding read_file_property_def by (intro no_panic_ifP no_panic_bindP no_panic_intros) auto

lemma no_panic_read_properties [no_panic_intros]: "no_panic (read_properties bnd st bs)"
proof (induction bnd st bs rule: read_properties.induct)
  case (1 bnd st bs)
  have "\<not> is_panic e" if "read_u8 bs = Inl e" for e using no_panic_fixed(1) [of bs] that by simp
  moreover have "\<not> is_panic e" if "read_variable_u64 bs1 = Inl e" for e bs1
    using no_panic_variable_u64 [of bs1] that by simp
  moreover have "\<not> is_panic e" if "read_file_property bnd pt sz st bs2 = Inl e" for e pt sz bs2
    using no_panic_file_property [of bnd pt sz st bs2] that by simp
  ultimately show ?case
    using 1 by (subst read_properties.simps) (auto split: sum.splits)
qed

text \<open>
  The pairing: the streamed files, in order, take the sub-streams in order; the others are empty.
\<close>

definition entry_from :: "sub_streams_info \<Rightarrow> nat \<Rightarrow> archive_entry \<Rightarrow> bool" where
  "entry_from info k f \<longleftrightarrow> k < length (ssi_unpack_sizes info) \<and> k < length (ssi_crcs info)
     \<and> ae_size f = ssi_unpack_sizes info ! k \<and> ae_has_crc f = contains (ssi_has_crc info) k
     \<and> ae_crc f = ucast (ssi_crcs info ! k) \<and> \<not> ae_is_directory f \<and> \<not> ae_is_anti_item f"

lemma streamed_entry_spec:
  "streamed_entry info k f = Inr f' \<Longrightarrow> entry_from info k f' \<and> ae_has_stream f' \<and> ae_name f' = ae_name f"
  by (auto simp: streamed_entry_def entry_from_def get_def split: if_splits option.splits)

lemma assign_files_spec:
  assumes "assign_files st info i ne em fs = Inr (fs', n)"
  shows "map ae_name fs' = map ae_name fs
     \<and> map ae_has_stream fs' = map (has_stream_at st) [i..<i + length fs]
     \<and> n = ne + length (filter ae_has_stream fs')
     \<and> (\<forall>f \<in> set fs'. \<not> ae_has_stream f \<longrightarrow> ae_size f = 0 \<and> \<not> ae_has_crc f)
     \<and> (\<forall>k < length (filter ae_has_stream fs'). \<exists>s. info = Some s \<and> entry_from s (ne + k) (filter ae_has_stream fs' ! k))"
  using assms
proof (induction fs arbitrary: i ne em fs' n)
  case (Cons f fs)
  show ?case
  proof (cases "has_stream_at st i")
    case True
    with Cons.prems obtain s f1 fs1 where s: "info = Some s" "streamed_entry s ne f = Inr f1"
      and rec: "assign_files st info (i + 1) (ne + 1) em fs = Inr (fs1, n)" and fs': "fs' = f1 # fs1"
      by (auto simp: bindE_Inr_iff split: option.splits)
    from Cons.IH [OF rec] streamed_entry_spec [OF s(2)] s(1) True fs' show ?thesis
      by (auto simp: upt_conv_Cons nth_Cons simp del: upt_Suc split: nat.splits)
  next
    case False
    with Cons.prems obtain fs1 where rec: "assign_files st info (i + 1) ne (em + 1) fs = Inr (fs1, n)"
      and fs': "fs' = empty_entry st em f # fs1"
      by (auto simp: bindE_Inr_iff)
    from Cons.IH [OF rec] False fs' show ?thesis
      by (auto simp: empty_entry_def upt_conv_Cons simp del: upt_Suc)
  qed
qed simp

lemma no_panic_assign [no_panic_intros]: "no_panic (assign_files st info i ne em fs)"
  by (induction fs arbitrary: i ne em)
     (auto simp: streamed_entry_def intro!: no_panic_intros split: option.splits)

definition files_ok :: "archive \<Rightarrow> bool" where
  "files_ok a \<longleftrightarrow>
     (\<forall>f \<in> set (ar_files a). 0 \<notin> set (ae_name f) \<and> (\<not> ae_has_stream f \<longrightarrow> ae_size f = 0 \<and> \<not> ae_has_crc f))
     \<and> length (filter ae_has_stream (ar_files a)) =
         (case ar_sub_streams_info a of None \<Rightarrow> 0 | Some s \<Rightarrow> length (ssi_unpack_sizes s))
     \<and> (\<forall>k < length (filter ae_has_stream (ar_files a)).
          \<exists>s. ar_sub_streams_info a = Some s \<and> entry_from s k (filter ae_has_stream (ar_files a) ! k))"

lemma read_files_info_spec:
  assumes "read_files_info bnd a bs = Inr (a', bs')"
  shows "files_ok a' \<and> length (ar_files a') \<le> hb_bytes bnd
     \<and> length (ar_files a') \<le> unat (max_entries (hb_limits bnd)) \<and> a' = a\<lparr>ar_files := ar_files a'\<rparr>"
proof -
  obtain cnt n st bs1 bs2 files ne where n: "hb_count bnd cnt Entries = Inr n"
    and p: "read_properties bnd \<lparr>fs_files = replicate n entry_default, fs_empty_stream = None,
        fs_empty_file = None, fs_anti = None\<rparr> bs1 = Inr (st, bs2)"
    and as: "assign_files st (ar_sub_streams_info a) 0 0 0 (fs_files st) = Inr (files, ne)"
    and eq: "ne = (case ar_sub_streams_info a of None \<Rightarrow> 0 | Some s \<Rightarrow> length (ssi_unpack_sizes s))"
    and a': "a' = a\<lparr>ar_files := files\<rparr>"
    using assms by (auto simp: read_files_info_def bindP_Inr_iff Let_def split: if_splits)
  have st: "length (fs_files st) = n" "names_nul_free st"
    using read_properties_kept [OF p] by (auto simp: files_kept_def names_nul_free_def entry_default_def)
  note s = assign_files_spec [OF as]
  then have len: "length files = n" using st(1) by (metis length_map)
  have "0 \<notin> set (ae_name f)" if "f \<in> set files" for f
  proof -
    from that s have "ae_name f \<in> ae_name ` set (fs_files st)"
      by (metis image_eqI image_set)
    with st(2) show ?thesis by (auto simp: names_nul_free_def)
  qed
  with s eq a' n len show ?thesis by (auto simp: files_ok_def hb_count_Inr_iff limit_cap_def)
qed

lemma no_panic_read_files_info [no_panic_intros]: "no_panic (read_files_info bnd a bs)"
  by (auto simp: read_files_info_def Let_def intro!: no_panic_intros split: prod.splits)

end
