(* ===== verification/Stream_Map.thy ===== *)
theory Stream_Map
  imports Files_Reader
begin

text \<open>
  The map between files, blocks and pack streams (\<^verbatim>\<open>calculate_stream_map\<close> of
  \<^verbatim>\<open>src/src/reader.rs\<close>), and what it is for: the file of a sub-stream is mapped to the block
  that holds it, and the packed ranges of the blocks follow one another.
\<close>

section \<open>The model\<close>

text \<open>The first pack stream of each block; the running index is a \<^verbatim>\<open>usize\<close>.\<close>

fun block_pack_indices :: "nat \<Rightarrow> nat \<Rightarrow> block list \<Rightarrow> nat list result" where
  "block_pack_indices num_packs next [] = Inr []"
| "block_pack_indices num_packs next (b # bs) =
     (let next' = next + length (packed_streams b) in
      if usize_max < next' then Inl (Corrupted ''pack stream index overflow'')
      else if num_packs < next'
      then Inl (Corrupted ''block references pack streams beyond the available pack sizes'')
      else bindE (block_pack_indices num_packs next' bs) (\<lambda>r. Inr (next # r)))"

fun pack_offsets :: "u64 \<Rightarrow> u64 list \<Rightarrow> u64 list result" where
  "pack_offsets next [] = Inr []"
| "pack_offsets next (s # ss) =
     bindE (ok_or (Corrupted ''pack stream offset overflow'') (checked_add next s)) (\<lambda>next'.
     bindE (pack_offsets next' ss) (\<lambda>r. Inr (next # r)))"

record fm_state =
  fm_first_file :: "nat list"
  fm_file_block :: "nat option list"
  fm_files :: "archive_entry list"
  fm_block :: nat
  fm_stream :: nat

text \<open>The inner \<^verbatim>\<open>while\<close>: blocks without sub-streams start at the file too, and are passed.\<close>

function pass_blocks :: "block list \<Rightarrow> nat \<Rightarrow> nat list \<Rightarrow> nat \<Rightarrow> nat list \<times> nat" where
  "pass_blocks bl i first nb =
     (if nb < length bl then
        let first' = first[nb := i] in
        if 0 < num_unpack_sub_streams (bl ! nb) then (first', nb)
        else pass_blocks bl i first' (nb + 1)
      else (first, nb))"
  by pat_completeness auto
termination
  by (relation "measure (\<lambda>(bl, i, first, nb). length bl - nb)") auto

declare pass_blocks.simps [simp del]

text \<open>The packed bytes of a block: all its pack streams.\<close>

definition block_pack_size :: "archive \<Rightarrow> nat list \<Rightarrow> nat \<Rightarrow> u64 result" where
  "block_pack_size a pack_first nb =
     bindE (vec_get pack_first nb) (\<lambda>k.
     bindE (vec_get (ar_blocks a) nb) (\<lambda>b.
     let e = k + length (packed_streams b) in
     if usize_max < e \<or> length (ar_pack_sizes a) < e
     then Inl (Corrupted ''block references a pack stream index beyond pack_sizes'')
     else ok_or (Corrupted ''block pack size overflow'')
            (checked_sum 0 (take (length (packed_streams b)) (drop k (ar_pack_sizes a))))))"

text \<open>A streamed file, placed in the current block.\<close>

definition place_file :: "archive \<Rightarrow> nat list \<Rightarrow> nat \<Rightarrow> archive_entry \<Rightarrow> fm_state \<Rightarrow> fm_state result" where
  "place_file a pack_first i f st =
     bindE (vec_get (fm_first_file st) (fm_block st)) (\<lambda>ff.
     bindE (if ff = i then bindE (block_pack_size a pack_first (fm_block st)) (\<lambda>sz.
              Inr ((fm_files st)[i := f\<lparr>ae_compressed_size := sz\<rparr>]))
            else Inr (fm_files st)) (\<lambda>files.
     bindE (vec_get (ar_blocks a) (fm_block st)) (\<lambda>b.
     if num_unpack_sub_streams b \<le> fm_stream st + 1
     then Inr (st\<lparr>fm_files := files, fm_block := fm_block st + 1, fm_stream := 0\<rparr>)
     else Inr (st\<lparr>fm_files := files, fm_stream := fm_stream st + 1\<rparr>))))"

definition file_step :: "archive \<Rightarrow> nat list \<Rightarrow> nat \<Rightarrow> fm_state \<Rightarrow> fm_state result" where
  "file_step a pack_first i st =
     bindE (vec_get (fm_files st) i) (\<lambda>f.
     if \<not> ae_has_stream f \<and> fm_stream st = 0 then
       Inr (st\<lparr>fm_file_block := (fm_file_block st)[i := None]\<rparr>)
     else
       let (first, nb) = (if fm_stream st = 0
                          then pass_blocks (ar_blocks a) i (fm_first_file st) (fm_block st)
                          else (fm_first_file st, fm_block st)) in
       if fm_stream st = 0 \<and> length (ar_blocks a) \<le> nb then Inl (Corrupted ''Too few blocks in archive'')
       else
         let st = st\<lparr>fm_first_file := first, fm_block := nb,
                     fm_file_block := (fm_file_block st)[i := Some nb]\<rparr> in
         if \<not> ae_has_stream f then Inr st else place_file a pack_first i f st)"

text \<open>The blocks the files did not reach start after the last file.\<close>

definition mark_unreached :: "nat \<Rightarrow> nat \<Rightarrow> nat list \<Rightarrow> nat list" where
  "mark_unreached unreached num_files first =
     take unreached first @ replicate (length first - unreached) num_files"

fun check_spans :: "nat \<Rightarrow> (nat \<times> block) list \<Rightarrow> unit result" where
  "check_spans num_files [] = Inr ()"
| "check_spans num_files ((start, b) # r) =
     (let e = start + num_unpack_sub_streams b in
      if usize_max < e then Inl (Corrupted ''block file span overflow'')
      else if num_files < e
      then Inl (Corrupted ''block declares more sub-streams than the archive has files'')
      else check_spans num_files r)"

definition calculate_stream_map :: "archive \<Rightarrow> archive result" where
  "calculate_stream_map a =
     (let n = length (ar_blocks a); num_files = length (ar_files a) in
      bindE (block_pack_indices (length (ar_pack_sizes a)) 0 (ar_blocks a)) (\<lambda>pack_first.
      bindE (from_counts (map num_unpack_sub_streams (ar_blocks a))) (\<lambda>sub_first.
      bindE (pack_offsets 0 (ar_pack_sizes a)) (\<lambda>offsets.
      bindE (foldE (file_step a pack_first) [0..<num_files]
               \<lparr>fm_first_file = replicate n 0, fm_file_block = replicate num_files None,
                fm_files = ar_files a, fm_block = 0, fm_stream = 0\<rparr>) (\<lambda>st.
      let first = mark_unreached (fm_block st + (if fm_stream st \<noteq> 0 then 1 else 0)) num_files
                    (fm_first_file st) in
      bindE (check_spans num_files (zip first (ar_blocks a))) (\<lambda>_.
      Inr (a\<lparr>ar_files := fm_files st, ar_stream_map :=
        \<lparr>sm_block_first_pack_stream_index = pack_first, sm_pack_stream_offsets = offsets,
         sm_block_first_sub_stream_index = sub_first, sm_block_first_file_index = first,
         sm_file_block_index = fm_file_block st\<rparr>\<rparr>)))))))"

section \<open>Pack streams\<close>

lemma block_pack_indices_spec:
  assumes "block_pack_indices n k bl = Inr r"
  shows "r = map (\<lambda>i. k + sum_list (map (\<lambda>b. length (packed_streams b)) (take i bl))) [0..<length bl]
     \<and> (bl \<noteq> [] \<longrightarrow> k + sum_list (map (\<lambda>b. length (packed_streams b)) bl) \<le> n)"
  using assms
proof (induction bl arbitrary: k r)
  case (Cons b bl)
  then obtain r' where r': "block_pack_indices n (k + length (packed_streams b)) bl = Inr r'" "r = k # r'"
    and le: "k + length (packed_streams b) \<le> n"
    by (auto simp: Let_def bindE_Inr_iff split: if_splits)
  from Cons.IH [OF r'(1)] r'(2) le show ?case
    by (cases bl) (auto simp: map_upt_Suc add.assoc simp del: upt_Suc)
qed simp

lemma pack_offsets_spec:
  assumes "pack_offsets k ss = Inr r"
  shows "length r = length ss
     \<and> (\<forall>i < length ss. unat (r ! i) = unat k + sum_list (map unat (take i ss)))
     \<and> (ss \<noteq> [] \<longrightarrow> unat k + sum_list (map unat ss) < 2 ^ 64)"
  using assms
proof (induction ss arbitrary: k r)
  case (Cons s ss)
  then obtain k' r' where k': "checked_add k s = Some k'" and r': "pack_offsets k' ss = Inr r'" "r = k # r'"
    by (auto simp: bindE_Inr_iff)
  have "unat k + unat s < 2 ^ 64" using k' by (simp add: checked_add_Some_iff)
  with Cons.IH [OF r'(1)] r'(2) checked_add_unat [OF k'] show ?case
    by (cases ss) (auto simp: nth_Cons split: nat.splits)
qed simp

lemma no_panic_pack_indices [no_panic_intros]: "no_panic (block_pack_indices n k bl)"
  by (induction bl arbitrary: k) (auto simp: Let_def intro!: no_panic_intros)

lemma no_panic_pack_offsets [no_panic_intros]: "no_panic (pack_offsets k ss)"
  by (induction ss arbitrary: k) (auto intro!: no_panic_intros)

lemma no_panic_check_spans [no_panic_intros]: "no_panic (check_spans n xs)"
  by (induction n xs rule: check_spans.induct) (auto simp: Let_def)

lemma no_panic_from_counts [no_panic_intros]: "no_panic (from_counts cs)"
  by (auto simp: from_counts_def offsets_loop_eq intro!: no_panic_intros)

section \<open>Files and blocks\<close>

text \<open>The first sub-stream of a block, and the number of streamed files before a file.\<close>

definition sub_offset :: "block list \<Rightarrow> nat \<Rightarrow> nat" where
  "sub_offset bl b = sum_list (map num_unpack_sub_streams (take b bl))"

definition stream_rank :: "archive_entry list \<Rightarrow> nat \<Rightarrow> nat" where
  "stream_rank files i = length (filter ae_has_stream (take i files))"

text \<open>
  \<open>holds bl b r\<close>: sub-stream \<open>r\<close> lies in block \<open>b\<close>. A file is mapped to the block that holds its
  sub-stream; a file without data lies in a block's span when sub-streams of the block precede and
  follow it.
\<close>

definition holds :: "block list \<Rightarrow> nat \<Rightarrow> nat \<Rightarrow> bool" where
  "holds bl b r \<longleftrightarrow> b < length bl \<and> sub_offset bl b \<le> r
     \<and> r < sub_offset bl b + num_unpack_sub_streams (bl ! b)"

definition file_in_block :: "block list \<Rightarrow> archive_entry list \<Rightarrow> nat \<Rightarrow> nat \<Rightarrow> bool" where
  "file_in_block bl files i b \<longleftrightarrow> holds bl b (stream_rank files i)
     \<and> (ae_has_stream (files ! i) \<or> sub_offset bl b < stream_rank files i)"

lemma sub_offset_Suc: "b < length bl \<Longrightarrow> sub_offset bl (Suc b) = sub_offset bl b + num_unpack_sub_streams (bl ! b)"
  by (simp add: sub_offset_def take_Suc_conv_app_nth)

lemma sub_offset_0 [simp]: "sub_offset bl 0 = 0"
  by (simp add: sub_offset_def)

lemma sub_offset_mono: "b \<le> c \<Longrightarrow> c \<le> length bl \<Longrightarrow> sub_offset bl b \<le> sub_offset bl c"
proof (induction c)
  case (Suc c)
  then show ?case by (cases "b = Suc c") (auto simp: sub_offset_Suc)
qed simp

lemma holds_unique:
  assumes "holds bl b r" "holds bl c r"
  shows "b = c"
proof (rule ccontr)
  have *: False if "holds bl b r" "holds bl c r" "b < c" for b c
    using that sub_offset_mono [of "Suc b" c bl] by (auto simp: holds_def sub_offset_Suc)
  assume "b \<noteq> c"
  with assms * show False by (meson linorder_neqE_nat)
qed

lemma stream_rank_Suc:
  "i < length files \<Longrightarrow> stream_rank files (Suc i) = stream_rank files i + (if ae_has_stream (files ! i) then 1 else 0)"
  by (simp add: stream_rank_def take_Suc_conv_app_nth)

lemma pass_blocks_spec:
  assumes "pass_blocks bl i first nb = (first', nb')" "nb \<le> length bl" "length first = length bl"
  shows "nb \<le> nb' \<and> nb' \<le> length bl \<and> length first' = length bl
     \<and> (\<forall>j. nb \<le> j \<and> j < nb' \<longrightarrow> num_unpack_sub_streams (bl ! j) = 0)
     \<and> (nb' < length bl \<longrightarrow> 0 < num_unpack_sub_streams (bl ! nb'))
     \<and> (\<forall>j < length bl. first' ! j = (if nb \<le> j \<and> j \<le> nb' then i else first ! j))"
  using assms
proof (induction bl i first nb rule: pass_blocks.induct)
  case (1 bl i first nb)
  show ?case
  proof (cases "nb < length bl \<and> num_unpack_sub_streams (bl ! nb) = 0")
    case True
    with 1(2) have rec: "pass_blocks bl i (first[nb := i]) (nb + 1) = (first', nb')"
      by (subst (asm) pass_blocks.simps) (simp add: Let_def)
    from 1(1) [OF _ refl _ rec] True 1(4)
    have IH: "nb + 1 \<le> nb' \<and> nb' \<le> length bl \<and> length first' = length bl
     \<and> (\<forall>j. nb + 1 \<le> j \<and> j < nb' \<longrightarrow> num_unpack_sub_streams (bl ! j) = 0)
     \<and> (nb' < length bl \<longrightarrow> 0 < num_unpack_sub_streams (bl ! nb'))
     \<and> (\<forall>j < length bl. first' ! j = (if nb + 1 \<le> j \<and> j \<le> nb' then i else first[nb := i] ! j))"
      by simp
    have "num_unpack_sub_streams (bl ! j) = 0" if "nb \<le> j" "j < nb'" for j
      using IH True that by (cases "j = nb") auto
    with IH 1(4) show ?thesis by (auto simp: nth_list_update)
  next
    case False
    with 1(2,3,4) show ?thesis
      by (subst (asm) pass_blocks.simps) (auto simp: Let_def nth_list_update split: if_splits)
  qed
qed

lemma sub_offset_const:
  assumes "\<forall>j. nb \<le> j \<and> j < nb' \<longrightarrow> num_unpack_sub_streams (bl ! j) = 0" "nb \<le> nb'" "nb' \<le> length bl"
  shows "sub_offset bl nb' = sub_offset bl nb"
  using assms(2,1,3)
proof (induction nb' rule: dec_induct)
  case (step m)
  then show ?case by (simp add: sub_offset_Suc)
qed simp

text \<open>The loop's invariant before file \<open>i\<close>.\<close>

definition fm_inv :: "block list \<Rightarrow> archive_entry list \<Rightarrow> nat \<Rightarrow> fm_state \<Rightarrow> bool" where
  "fm_inv bl files i st \<longleftrightarrow>
     length (fm_first_file st) = length bl \<and> length (fm_file_block st) = length files
     \<and> map (ae_compressed_size_update (\<lambda>_. 0)) (fm_files st) = map (ae_compressed_size_update (\<lambda>_. 0)) files
     \<and> fm_block st \<le> length bl
     \<and> stream_rank files i = sub_offset bl (fm_block st) + fm_stream st
     \<and> (fm_stream st = 0 \<or> fm_block st < length bl \<and> fm_stream st < num_unpack_sub_streams (bl ! fm_block st))
     \<and> (\<forall>j < i. \<forall>b. fm_file_block st ! j = Some b \<longleftrightarrow> file_in_block bl files j b)
     \<and> (\<forall>b < length bl. (b < fm_block st \<or> b = fm_block st \<and> 0 < fm_stream st)
          \<and> 0 < num_unpack_sub_streams (bl ! b) \<longrightarrow>
          fm_first_file st ! b < i \<and> ae_has_stream (files ! (fm_first_file st ! b))
          \<and> stream_rank files (fm_first_file st ! b) = sub_offset bl b)"

lemma same_stream_flags:
  assumes "map (ae_compressed_size_update (\<lambda>_. 0)) fs = map (ae_compressed_size_update (\<lambda>_. 0)) files"
    "i < length files"
  shows "ae_has_stream (fs ! i) = ae_has_stream (files ! i)" "length fs = length files"
proof -
  show l: "length fs = length files" using assms(1) by (metis length_map)
  have "(ae_compressed_size_update (\<lambda>_. 0)) (fs ! i) = (ae_compressed_size_update (\<lambda>_. 0)) (files ! i)"
    using assms l by (metis nth_map)
  from arg_cong [OF this, of ae_has_stream] show "ae_has_stream (fs ! i) = ae_has_stream (files ! i)" by simp
qed

lemma fm_inv_start:
  "fm_inv bl files 0 \<lparr>fm_first_file = replicate (length bl) 0, fm_file_block = replicate (length files) None,
     fm_files = files, fm_block = 0, fm_stream = 0\<rparr>"
  by (simp add: fm_inv_def stream_rank_def)

text \<open>Before the file is placed: the block that takes it is open.\<close>

definition fm_open :: "block list \<Rightarrow> archive_entry list \<Rightarrow> nat \<Rightarrow> nat list \<Rightarrow> nat \<Rightarrow> nat \<Rightarrow> bool" where
  "fm_open bl files i first nb ns \<longleftrightarrow>
     length first = length bl \<and> nb < length bl \<and> ns < num_unpack_sub_streams (bl ! nb)
     \<and> stream_rank files i = sub_offset bl nb + ns
     \<and> (ns = 0 \<longrightarrow> first ! nb = i)
     \<and> (\<forall>b < length bl. (b < nb \<or> b = nb \<and> 0 < ns) \<and> 0 < num_unpack_sub_streams (bl ! b) \<longrightarrow>
          first ! b < i \<and> ae_has_stream (files ! (first ! b))
          \<and> stream_rank files (first ! b) = sub_offset bl b)"

lemma fm_open_step:
  assumes inv: "fm_inv bl files i st" and "i < length files"
    and sel: "(first, nb) = (if fm_stream st = 0 then pass_blocks bl i (fm_first_file st) (fm_block st)
                else (fm_first_file st, fm_block st))"
    and few: "\<not> (fm_stream st = 0 \<and> length bl \<le> nb)"
  shows "fm_open bl files i first nb (fm_stream st)"
proof (cases "fm_stream st = 0")
  case True
  have l: "fm_block st \<le> length bl" "length (fm_first_file st) = length bl"
    using inv by (simp_all add: fm_inv_def)
  note p = pass_blocks_spec [OF sel [unfolded True, simplified, symmetric] l]
  have "nb < length bl" using few True by simp
  moreover have "sub_offset bl nb = sub_offset bl (fm_block st)"
    using p by (intro sub_offset_const) auto
  moreover have "first ! b < i \<and> ae_has_stream (files ! (first ! b)) \<and> stream_rank files (first ! b) = sub_offset bl b"
    if "b < nb" "b < length bl" "0 < num_unpack_sub_streams (bl ! b)" for b
  proof -
    from p that have "b < fm_block st" by (metis leI neq0_conv)
    with p that inv show ?thesis by (simp add: fm_inv_def)
  qed
  ultimately show ?thesis using p inv True by (auto simp: fm_open_def fm_inv_def)
next
  case False
  with inv sel show ?thesis by (auto simp: fm_open_def fm_inv_def)
qed

lemma in_block_iff:
  assumes "fm_open bl files i first nb ns" "ae_has_stream (files ! i) \<or> ns \<noteq> 0"
  shows "file_in_block bl files i b \<longleftrightarrow> b = nb"
proof -
  have "holds bl nb (stream_rank files i)" using assms(1) by (simp add: fm_open_def holds_def)
  moreover from this have "holds bl b (stream_rank files i) \<Longrightarrow> b = nb" using holds_unique by blast
  ultimately show ?thesis using assms by (auto simp: file_in_block_def fm_open_def)
qed

lemma not_in_block:
  assumes "fm_inv bl files i st" "\<not> ae_has_stream (files ! i)" "fm_stream st = 0"
  shows "\<not> file_in_block bl files i b"
proof
  assume "file_in_block bl files i b"
  with assms have h: "b < length bl" "sub_offset bl b < sub_offset bl (fm_block st)"
    "sub_offset bl (fm_block st) < sub_offset bl (Suc b)"
    by (auto simp: file_in_block_def holds_def fm_inv_def sub_offset_Suc)
  then show False
    using sub_offset_mono [of "fm_block st" b bl] sub_offset_mono [of "Suc b" "fm_block st" bl] assms(1)
    by (cases "fm_block st \<le> b") (auto simp: fm_inv_def)
qed

lemma fm_inv_placed:
  assumes inv: "fm_inv bl files i st" and i: "i < length files"
    and op: "fm_open bl files i first nb (fm_stream st)" and some: "ae_has_stream (files ! i) \<or> fm_stream st \<noteq> 0"
    and fl: "map (ae_compressed_size_update (\<lambda>_. 0)) fs = map (ae_compressed_size_update (\<lambda>_. 0)) files"
    and st': "fm_first_file st' = first" "fm_file_block st' = (fm_file_block st)[i := Some nb]" "fm_files st' = fs"
      "(fm_block st', fm_stream st') = (if \<not> ae_has_stream (files ! i) then (nb, fm_stream st)
         else if num_unpack_sub_streams (bl ! nb) \<le> fm_stream st + 1 then (nb + 1, 0) else (nb, fm_stream st + 1))"
  shows "fm_inv bl files (Suc i) st'"
proof -
  have fb: "\<forall>j < Suc i. \<forall>b. fm_file_block st' ! j = Some b \<longleftrightarrow> file_in_block bl files j b"
    using inv i in_block_iff [OF op some] by (auto simp: st' fm_inv_def less_Suc_eq nth_list_update)
  have first: "first ! b < Suc i \<and> ae_has_stream (files ! (first ! b)) \<and> stream_rank files (first ! b) = sub_offset bl b"
    if "b \<le> nb" "b < length bl" "0 < num_unpack_sub_streams (bl ! b)" "b = nb \<and> fm_stream st = 0 \<longrightarrow> ae_has_stream (files ! i)" for b
    using op that by (cases "b = nb"; cases "fm_stream st = 0") (auto simp: fm_open_def less_Suc_eq)
  show ?thesis
    using inv op fb fl st' i first some
    by (auto simp: fm_inv_def fm_open_def stream_rank_Suc sub_offset_Suc less_Suc_eq_le split: if_splits)
qed

lemma compressed_size_kept:
  "map (ae_compressed_size_update (\<lambda>_. 0)) fs = map (ae_compressed_size_update (\<lambda>_. 0)) files \<Longrightarrow> i < length fs \<Longrightarrow>
   map (ae_compressed_size_update (\<lambda>_. 0)) (fs[i := (fs ! i)\<lparr>ae_compressed_size := v\<rparr>])
     = map (ae_compressed_size_update (\<lambda>_. 0)) files"
  by (simp add: map_update list_update_same_conv flip: nth_map [of i fs "ae_compressed_size_update (\<lambda>_. 0)"])

lemma place_file_spec:
  assumes "place_file a pf i f st = Inr st'"
  shows "fm_first_file st' = fm_first_file st \<and> fm_file_block st' = fm_file_block st
     \<and> (fm_files st' = fm_files st \<or> (\<exists>sz. fm_files st' = (fm_files st)[i := f\<lparr>ae_compressed_size := sz\<rparr>]))
     \<and> (fm_block st', fm_stream st') =
         (if num_unpack_sub_streams (ar_blocks a ! fm_block st) \<le> fm_stream st + 1
          then (fm_block st + 1, 0) else (fm_block st, fm_stream st + 1))"
  using assms
  by (cases "num_unpack_sub_streams (ar_blocks a ! fm_block st) \<le> fm_stream st + 1")
     (auto simp: place_file_def bindE_Inr_iff vec_get_Inr_iff split: if_splits)

lemma file_step_inv:
  assumes inv: "fm_inv (ar_blocks a) files i st" and i: "i < length files"
    and step: "file_step a pf i st = Inr st'"
  shows "fm_inv (ar_blocks a) files (Suc i) st'"
proof -
  let ?bl = "ar_blocks a"
  have fl: "map (ae_compressed_size_update (\<lambda>_. 0)) (fm_files st) = map (ae_compressed_size_update (\<lambda>_. 0)) files"
    using inv by (simp add: fm_inv_def)
  note hs = same_stream_flags [OF fl i]
  then have f: "vec_get (fm_files st) i = Inr (fm_files st ! i)" using i by simp
  show ?thesis
  proof (cases "\<not> ae_has_stream (files ! i) \<and> fm_stream st = 0")
    case True
    with step f hs have st': "st' = st\<lparr>fm_file_block := (fm_file_block st)[i := None]\<rparr>"
      by (simp add: file_step_def)
    have "\<forall>j < Suc i. \<forall>b. fm_file_block st' ! j = Some b \<longleftrightarrow> file_in_block ?bl files j b"
      using inv i not_in_block [OF inv] True by (auto simp: st' fm_inv_def less_Suc_eq nth_list_update)
    moreover have "fm_first_file st ! b < Suc i" if "fm_first_file st ! b < i" for b using that by simp
    ultimately show ?thesis
      using inv True i unfolding fm_inv_def by (auto simp: st' stream_rank_Suc)
  next
    case False
    obtain first nb where sel: "(first, nb) = (if fm_stream st = 0
        then pass_blocks ?bl i (fm_first_file st) (fm_block st) else (fm_first_file st, fm_block st))"
      by (metis surj_pair)
    have few: "\<not> (fm_stream st = 0 \<and> length ?bl \<le> nb)"
      using step f hs False by (auto simp: file_step_def Let_def sel [symmetric])
    note op = fm_open_step [OF inv i sel few]
    have g: "vec_get first nb = Inr (first ! nb)" "vec_get ?bl nb = Inr (?bl ! nb)"
      using op by (simp_all add: fm_open_def)
    show ?thesis
    proof (cases "ae_has_stream (files ! i)")
      case True
      from step f hs False True few have
        "place_file a pf i (fm_files st ! i) (st\<lparr>fm_first_file := first, fm_block := nb,
           fm_file_block := (fm_file_block st)[i := Some nb]\<rparr>) = Inr st'"
        by (auto simp: file_step_def Let_def sel [symmetric])
      note p = place_file_spec [OF this, simplified]
      then have "map (ae_compressed_size_update (\<lambda>_. 0)) (fm_files st') = map (ae_compressed_size_update (\<lambda>_. 0)) files"
        using compressed_size_kept [OF fl] hs(2) i fl by auto
      then show ?thesis
        by (intro fm_inv_placed [OF inv i op]) (use True p in auto)
    next
      case noStream: False
      with step f hs False few sel have
        "st' = st\<lparr>fm_first_file := first, fm_block := nb, fm_file_block := (fm_file_block st)[i := Some nb]\<rparr>"
        by (auto simp: file_step_def Let_def split: if_splits)
      then show ?thesis
        by (intro fm_inv_placed [OF inv i op _ fl]) (use False noStream in auto)
    qed
  qed
qed

lemma file_loop_inv:
  assumes "foldE (file_step a pf) [i..<length files] st = Inr st'" "fm_inv (ar_blocks a) files i st" "i \<le> length files"
  shows "fm_inv (ar_blocks a) files (length files) st'"
  using assms
proof (induction "length files - i" arbitrary: i st)
  case (Suc k)
  then have i: "i < length files" by simp
  with Suc.prems(1) obtain st1 where "file_step a pf i st = Inr st1"
    "foldE (file_step a pf) [Suc i..<length files] st1 = Inr st'"
    by (auto simp: upt_conv_Cons bindE_Inr_iff)
  with Suc i show ?case using file_step_inv [OF Suc.prems(2) i] by (intro Suc.hyps(1) [of "Suc i"]) auto
qed simp

lemma no_panic_file_step:
  assumes inv: "fm_inv (ar_blocks a) files i st" and i: "i < length files" and pf: "length pf = length (ar_blocks a)"
  shows "no_panic (file_step a pf i st)"
proof -
  let ?bl = "ar_blocks a"
  have fl: "map (ae_compressed_size_update (\<lambda>_. 0)) (fm_files st) = map (ae_compressed_size_update (\<lambda>_. 0)) files"
    using inv by (simp add: fm_inv_def)
  note hs = same_stream_flags [OF fl i]
  then have f: "vec_get (fm_files st) i = Inr (fm_files st ! i)" using i by simp
  obtain first nb where sel: "(first, nb) = (if fm_stream st = 0
      then pass_blocks ?bl i (fm_first_file st) (fm_block st) else (fm_first_file st, fm_block st))"
    by (metis surj_pair)
  have place: "no_panic (place_file a pf i fe (st\<lparr>fm_first_file := first, fm_block := nb,
      fm_file_block := (fm_file_block st)[i := Some nb]\<rparr>))"
    if few: "\<not> (fm_stream st = 0 \<and> length ?bl \<le> nb)" for fe
  proof -
    note op = fm_open_step [OF inv i sel few]
    have "no_panic (block_pack_size a pf nb)"
      using op pf by (auto simp: block_pack_size_def Let_def fm_open_def intro!: no_panic_intros)
    then show ?thesis using op by (auto simp: place_file_def fm_open_def intro!: no_panic_intros)
  qed
  then show ?thesis
    using f by (auto simp: file_step_def Let_def sel [symmetric])
qed

lemma no_panic_file_loop:
  assumes "fm_inv (ar_blocks a) files i st" "i \<le> length files" "length pf = length (ar_blocks a)"
  shows "no_panic (foldE (file_step a pf) [i..<length files] st)"
  using assms
proof (induction "length files - i" arbitrary: i st)
  case (Suc k)
  then have i: "i < length files" by simp
  have "no_panic (file_step a pf i st)" by (rule no_panic_file_step [OF Suc.prems(1) i Suc.prems(3)])
  moreover have "no_panic (foldE (file_step a pf) [Suc i..<length files] st1)"
    if "file_step a pf i st = Inr st1" for st1
    using Suc.hyps(2) file_step_inv [OF Suc.prems(1) i that] i Suc.prems(3) by (intro Suc.hyps(1)) auto
  ultimately show ?case using i by (auto simp: upt_conv_Cons intro!: no_panic_bindE)
qed simp

lemma no_panic_calculate [no_panic_intros]: "no_panic (calculate_stream_map a)"
  unfolding calculate_stream_map_def Let_def
  by (auto intro!: no_panic_intros no_panic_file_loop fm_inv_start dest!: block_pack_indices_spec)

text \<open>
  What the map says. Blocks and files: a file is mapped to the block that holds its sub-stream (or
  whose sub-streams it lies between), a reached block starts at the file of its first sub-stream.
  Packs: running sums.
\<close>

definition stream_map_ok :: "archive \<Rightarrow> archive_entry list \<Rightarrow> stream_map \<Rightarrow> bool" where
  "stream_map_ok a files sm \<longleftrightarrow>
     length (sm_file_block_index sm) = length files
     \<and> (\<forall>i < length files. \<forall>b. sm_file_block_index sm ! i = Some b \<longleftrightarrow> file_in_block (ar_blocks a) files i b)
     \<and> length (sm_block_first_file_index sm) = length (ar_blocks a)
     \<and> (\<forall>b < length (ar_blocks a). 0 < num_unpack_sub_streams (ar_blocks a ! b)
          \<and> sub_offset (ar_blocks a) b < stream_rank files (length files) \<longrightarrow>
          sm_block_first_file_index sm ! b < length files
          \<and> ae_has_stream (files ! (sm_block_first_file_index sm ! b))
          \<and> stream_rank files (sm_block_first_file_index sm ! b) = sub_offset (ar_blocks a) b)
     \<and> (\<forall>b < length (ar_blocks a). sm_block_first_file_index sm ! b
          + num_unpack_sub_streams (ar_blocks a ! b) \<le> length files)
     \<and> from_counts (map num_unpack_sub_streams (ar_blocks a)) = Inr (sm_block_first_sub_stream_index sm)"

definition pack_map_ok :: "archive \<Rightarrow> stream_map \<Rightarrow> bool" where
  "pack_map_ok a sm \<longleftrightarrow>
     sm_block_first_pack_stream_index sm =
       map (\<lambda>i. sum_list (map (\<lambda>b. length (packed_streams b)) (take i (ar_blocks a)))) [0..<length (ar_blocks a)]
     \<and> sum_list (map (\<lambda>b. length (packed_streams b)) (ar_blocks a)) \<le> length (ar_pack_sizes a)
     \<and> length (sm_pack_stream_offsets sm) = length (ar_pack_sizes a)
     \<and> (\<forall>i < length (ar_pack_sizes a).
          unat (sm_pack_stream_offsets sm ! i) = sum_list (map unat (take i (ar_pack_sizes a))))"

lemma check_spans_ok:
  "check_spans n (zip xs bl) = Inr () \<Longrightarrow> length xs = length bl \<Longrightarrow>
     \<forall>b < length bl. xs ! b + num_unpack_sub_streams (bl ! b) \<le> n"
proof (induction xs bl rule: list_induct2')
  case (4 x xs b bl)
  then show ?case by (auto simp: Let_def nth_Cons split: if_splits nat.splits)
qed auto

lemma reached_blocks:
  assumes inv: "fm_inv bl files (length files) st" and b: "b < length bl" "sub_offset bl b < stream_rank files (length files)"
  shows "b < fm_block st \<or> b = fm_block st \<and> 0 < fm_stream st"
proof (rule ccontr)
  assume n: "\<not> ?thesis"
  then consider "b = fm_block st" "fm_stream st = 0" | "fm_block st < b" by force
  then show False
  proof cases
    case 2
    then show False
      using inv b sub_offset_mono [of "Suc (fm_block st)" b bl] sub_offset_mono [of "fm_block st" b bl]
      by (auto simp: fm_inv_def sub_offset_Suc)
  qed (use inv b in \<open>simp add: fm_inv_def\<close>)
qed

lemma calculate_stream_map_spec:
  assumes "calculate_stream_map a = Inr a'"
  shows "stream_map_ok a (ar_files a) (ar_stream_map a') \<and> pack_map_ok a (ar_stream_map a')
     \<and> map (ae_compressed_size_update (\<lambda>_. 0)) (ar_files a') = map (ae_compressed_size_update (\<lambda>_. 0)) (ar_files a)
     \<and> a' = a\<lparr>ar_files := ar_files a', ar_stream_map := ar_stream_map a'\<rparr>"
proof -
  let ?bl = "ar_blocks a" and ?files = "ar_files a"
  from assms obtain pf sub offs st where pf: "block_pack_indices (length (ar_pack_sizes a)) 0 ?bl = Inr pf"
    and sub: "from_counts (map num_unpack_sub_streams ?bl) = Inr sub"
    and offs: "pack_offsets 0 (ar_pack_sizes a) = Inr offs"
    and st: "foldE (file_step a pf) [0..<length ?files]
               \<lparr>fm_first_file = replicate (length ?bl) 0, fm_file_block = replicate (length ?files) None,
                fm_files = ?files, fm_block = 0, fm_stream = 0\<rparr> = Inr st"
    and spans: "check_spans (length ?files) (zip (mark_unreached (fm_block st + (if fm_stream st \<noteq> 0 then 1 else 0))
        (length ?files) (fm_first_file st)) ?bl) = Inr ()"
    and a': "a' = a\<lparr>ar_files := fm_files st, ar_stream_map :=
        \<lparr>sm_block_first_pack_stream_index = pf, sm_pack_stream_offsets = offs,
         sm_block_first_sub_stream_index = sub,
         sm_block_first_file_index = mark_unreached (fm_block st + (if fm_stream st \<noteq> 0 then 1 else 0))
            (length ?files) (fm_first_file st),
         sm_file_block_index = fm_file_block st\<rparr>\<rparr>"
    by (auto simp: calculate_stream_map_def Let_def bindE_Inr_iff)
  let ?u = "fm_block st + (if fm_stream st \<noteq> 0 then 1 else 0)"
  let ?first = "mark_unreached ?u (length ?files) (fm_first_file st)"
  note inv = file_loop_inv [OF st fm_inv_start, simplified]
  have u: "?u \<le> length ?bl" and lf: "length (fm_first_file st) = length ?bl"
    using inv by (auto simp: fm_inv_def)
  then have len: "length ?first = length ?bl" by (simp add: mark_unreached_def)
  have keep: "?first ! b = fm_first_file st ! b" if "b < ?u" for b
    using that u lf by (simp add: mark_unreached_def nth_append)
  have first: "?first ! b < length ?files \<and> ae_has_stream (?files ! (?first ! b))
      \<and> stream_rank ?files (?first ! b) = sub_offset ?bl b"
    if "b < length ?bl" "0 < num_unpack_sub_streams (?bl ! b)" "sub_offset ?bl b < stream_rank ?files (length ?files)" for b
  proof -
    note r = reached_blocks [OF inv that(1,3)]
    then have "?first ! b = fm_first_file st ! b" by (intro keep) auto
    with r inv that show ?thesis by (simp add: fm_inv_def)
  qed
  have "stream_map_ok a ?files (ar_stream_map a')"
    using inv first len check_spans_ok [OF spans len] sub
    unfolding stream_map_ok_def a' by (simp add: fm_inv_def)
  moreover have "pack_map_ok a (ar_stream_map a')"
    using block_pack_indices_spec [OF pf] pack_offsets_spec [OF offs]
    unfolding pack_map_ok_def a' by (cases ?bl) (auto simp del: upt_Suc)
  ultimately show ?thesis using inv by (simp add: a' fm_inv_def)
qed

end
