(* ===== verification/Decoder_Memory.thy ===== *)
theory Decoder_Memory
  imports Limits
begin

text \<open>
  The decoder's own memory check (\<^verbatim>\<open>check_chain_memory\<close> and its model in
  \<^verbatim>\<open>src/src/decoder.rs\<close>, the dictionary arithmetic of \<^verbatim>\<open>src/src/codec/lzma_turbo.rs\<close>): what each
  coder of a chain is charged, the dictionary clamp, the chain's admission, and how this relates
  to the estimate of \<^verbatim>\<open>src/src/container.rs\<close> a caller budgets with.
\<close>

section \<open>Dictionaries\<close>

definition u32_max :: nat where "u32_max = 2 ^ 32 - 1"

definition lzma_dictionary_size :: "byte list \<Rightarrow> u32 result" where
  "lzma_dictionary_size ps =
     (if length ps < 5 then Inl (Corrupted ''LZMA properties too short'')
      else if 225 \<le> ps ! 0 then Inl (Corrupted ''invalid LZMA lc/lp/pb byte'')
      else Inr (ucast (props_u32 ps)))"

definition lzma2_dictionary_size :: "byte list \<Rightarrow> u32 result" where
  "lzma2_dictionary_size ps = (case ps of
      [] \<Rightarrow> Inl (Corrupted ''LZMA2 properties too short'')
    | p # _ \<Rightarrow>
        let bits = ucast p :: u32 in
        if bits AND NOT 0x3F \<noteq> 0 then Inl (Corrupted ''reserved LZMA2 property bits set'')
        else if 40 < bits then Inl (Corrupted ''LZMA2 dictionary larger than the 4 GiB maximum'')
        else if bits = 40 then Inr 0xFFFFFFFF
        else Inr (push_bit (unat (bits div 2 + 11)) (2 OR (bits AND 1))))"

definition clamp_dictionary :: "u32 \<Rightarrow> u64 \<Rightarrow> u32" where
  "clamp_dictionary dict unpacked =
     (let needed = min (max unpacked 0x1000) 0xFFFFFFFF in min dict (ucast needed))"

text \<open>The first candidate, counting up from zero, whose dictionary is large enough.\<close>

definition lzma2_clamped_prop :: "u8 \<Rightarrow> u64 \<Rightarrow> u8" where
  "lzma2_clamped_prop p unpacked = (case lzma2_dictionary_size [p] of
      Inl _ \<Rightarrow> p
    | Inr dict \<Rightarrow>
        let target = clamp_dictionary dict unpacked in
        (case find (\<lambda>c. case lzma2_dictionary_size [of_nat c] of Inl _ \<Rightarrow> False | Inr n \<Rightarrow> target \<le> n)
                [0..<unat p + 1] of
            Some c \<Rightarrow> of_nat c
          | None \<Rightarrow> p))"

definition div_ceil :: "nat \<Rightarrow> nat \<Rightarrow> nat" where
  "div_ceil n d = (n + (d - 1)) div d"

definition lzma2_memory_usage_kb :: "u32 \<Rightarrow> nat" where
  "lzma2_memory_usage_kb dict = div_ceil (unat (saturating_add (ucast dict) LZ_STATE_BYTES)) 1024"

definition INPUT_BUF_SIZE :: nat where "INPUT_BUF_SIZE = 65536"

definition ppmd_memory_kb :: "nat \<Rightarrow> nat" where
  "ppmd_memory_kb memory_size = min (div_ceil memory_size 1024 + div_ceil INPUT_BUF_SIZE 1024) usize_max"

section \<open>The chain\<close>

definition sized_coder_memory_kb :: "coder \<Rightarrow> u64 \<Rightarrow> nat option" where
  "sized_coder_memory_kb c unpacked =
     (let mid = encoder_method_id c; ps = properties c in
      if mid = ID_LZMA then
        (case lzma_dictionary_size ps of
            Inl _ \<Rightarrow> None
          | Inr dict \<Rightarrow> Some (lzma2_memory_usage_kb (clamp_dictionary dict unpacked)))
      else if mid = ID_LZMA2 then
        (case ps of
            [] \<Rightarrow> None
          | p # _ \<Rightarrow> (case lzma2_dictionary_size [lzma2_clamped_prop p unpacked] of
                Inl _ \<Rightarrow> None
              | Inr dict \<Rightarrow> Some (lzma2_memory_usage_kb dict)))
      else if mid = ID_PPMD then
        (if length ps < 5 then None else Some (ppmd_memory_kb (unat (props_u32 ps))))
      else None)"

definition usize_saturating_add :: "nat \<Rightarrow> nat \<Rightarrow> nat" where
  "usize_saturating_add a b = min (a + b) usize_max"

definition check_chain_memory :: "(coder \<times> u64) list \<Rightarrow> archive_limits \<Rightarrow> nat \<Rightarrow> nat result" where
  "check_chain_memory cs l base_kb =
     (let total_kb = foldl usize_saturating_add base_kb
                       (List.map_filter (\<lambda>(c, n). sized_coder_memory_kb c n) cs)
      in if memory_limit_kb l < total_kb then Inl (MaxMemLimited (memory_limit_kb l) total_kb)
         else Inr total_kb)"

definition unsized_coders_memory_kb :: "(coder \<times> u64) list \<Rightarrow> nat" where
  "unsized_coders_memory_kb cs =
     foldl usize_saturating_add 0
       (map (\<lambda>m. div_ceil (unat m) 1024)
         (List.map_filter (\<lambda>(c, n). case coder_memory_estimate c of Inl _ \<Rightarrow> None | Inr m \<Rightarrow> Some m)
           (filter (\<lambda>(c, n). sized_coder_memory_kb c n = None) cs)))"

text \<open>What the LZMA2 plan of one coder may hold: the limit less the rest of the chain.\<close>

definition lzma2_plan_budget :: "u64 \<Rightarrow> nat \<Rightarrow> nat \<Rightarrow> nat \<Rightarrow> u64" where
  "lzma2_plan_budget limit reserved_kb unsized_kb own_kb =
     (if limit = - 1 then - 1
      else
        let others_kb = usize_saturating_add (reserved_kb - own_kb) unsized_kb
        in of_nat (unat limit - min (others_kb * 1024) (2 ^ 64 - 1)))"

section \<open>Lemmas\<close>

lemma div_ceil_bounds: "0 < d \<Longrightarrow> n \<le> div_ceil n d * d \<and> div_ceil n d * d < n + d"
  using div_mult_mod_eq [of "n + (d - 1)" d] mod_less_divisor [of d "n + (d - 1)"]
  unfolding div_ceil_def by linarith

lemma div_ceil_mono: "m \<le> n \<Longrightarrow> div_ceil m d \<le> div_ceil n d"
  by (simp add: div_ceil_def div_le_mono)

text \<open>The dictionaries of the table, the largest one less a byte in 32 bits.\<close>

definition lzma2_dictionary32 :: "nat \<Rightarrow> nat" where
  "lzma2_dictionary32 k = min (lzma2_dictionary k) (2 ^ 32 - 1)"

lemma lzma2_dictionary_size_small:
  "\<forall>k \<in> set [0..<41]. lzma2_dictionary_size [of_nat k] = Inr (of_nat (lzma2_dictionary32 k))"
  by (simp add: lzma2_dictionary_size_def lzma2_dictionary32_def lzma2_dictionary_def Let_def upt_rec)

lemma lzma2_dictionary_size_spec:
  "lzma2_dictionary_size [p] = Inr d \<longleftrightarrow> unat p \<le> 40 \<and> d = of_nat (lzma2_dictionary32 (unat p))"
proof (cases "unat p \<le> 40")
  case True
  then have "unat p \<in> set [0..<41]" by simp
  with lzma2_dictionary_size_small have
    "lzma2_dictionary_size [of_nat (unat p)] = Inr (of_nat (lzma2_dictionary32 (unat p)))" by blast
  with True show ?thesis by auto
next
  case False
  moreover have "unat (ucast p :: u32) = unat p"
    using unsigned_less [of p, where 'a = nat] by (simp add: unsigned_ucast_eq take_bit_nat_eq_self)
  ultimately have "40 < (ucast p :: u32)" by (simp add: word_less_nat_alt)
  with False show ?thesis by (auto simp: lzma2_dictionary_size_def Let_def)
qed

lemma unat_dictionary32: "unat (of_nat (lzma2_dictionary32 k) :: u32) = lzma2_dictionary32 k"
proof -
  have "lzma2_dictionary32 k < 2 ^ 32" by (simp add: lzma2_dictionary32_def)
  then show ?thesis by (simp add: unsigned_of_nat take_bit_nat_eq_self)
qed

lemma min_clamp: "x \<le> u \<Longrightarrow> min x (min y u) = min x (y :: nat)"
  by (simp add: min_def)

lemma unat_clamp: "unat (clamp_dictionary d n) = min (unat d) (max (unat n) 4096)"
proof -
  let ?m = "min (max n 0x1000) 0xFFFFFFFF :: u64"
  have m: "unat ?m = min (max (unat n) 4096) (2 ^ 32 - 1)"
    by (simp add: min_def max_def word_le_nat_alt)
  then have "unat (ucast ?m :: u32) = unat ?m"
    by (simp add: unsigned_ucast_eq take_bit_nat_eq_self)
  then have "unat (min d (ucast ?m)) = min (unat d) (unat ?m)"
    by (simp add: min_def word_le_nat_alt)
  moreover have "unat d \<le> 2 ^ 32 - 1" using unsigned_less [of d, where 'a = nat] by simp
  ultimately show ?thesis unfolding clamp_dictionary_def Let_def by (simp only: m min_clamp)
qed

text \<open>
  The clamped property byte: its dictionary still holds all the coder can reach back to, no
  smaller byte's does, and it is never above the declared byte.
\<close>

lemma lzma2_clamped_prop_spec:
  fixes n :: u64
  assumes "unat p \<le> 40"
  defines "q \<equiv> unat (lzma2_clamped_prop p n)"
  shows "q \<le> unat p \<and> min (lzma2_dictionary32 (unat p)) (max (unat n) 4096) \<le> lzma2_dictionary32 q
     \<and> (\<forall>c < q. lzma2_dictionary32 c < min (lzma2_dictionary32 (unat p)) (max (unat n) 4096))"
proof -
  let ?t = "clamp_dictionary (of_nat (lzma2_dictionary32 (unat p))) n"
  have t: "unat ?t = min (lzma2_dictionary32 (unat p)) (max (unat n) 4096)"
    by (simp add: unat_clamp unat_dictionary32)
  have d: "lzma2_dictionary_size [p] = Inr (of_nat (lzma2_dictionary32 (unat p)))"
    using assms(1) by (simp add: lzma2_dictionary_size_spec)
  have cand: "(case lzma2_dictionary_size [of_nat c] of Inl _ \<Rightarrow> False | Inr k \<Rightarrow> ?t \<le> k) \<longleftrightarrow> unat ?t \<le> lzma2_dictionary32 c"
    if "c \<le> unat p" for c
  proof -
    have "c \<in> set [0..<41]" using that assms(1) by simp
    then have "lzma2_dictionary_size [of_nat c] = Inr (of_nat (lzma2_dictionary32 c))"
      using lzma2_dictionary_size_small by blast
    then show ?thesis by (simp add: word_le_nat_alt unat_dictionary32)
  qed
  define P where "P = (\<lambda>c. case lzma2_dictionary_size [of_nat c] of Inl _ \<Rightarrow> False | Inr k \<Rightarrow> ?t \<le> k)"
  have "P (unat p)" unfolding P_def using cand [of "unat p"] t by simp
  then obtain c where c: "find P [0..<unat p + 1] = Some c"
    by (cases "find P [0..<unat p + 1]") (auto simp: find_None_iff)
  then obtain i where i: "i < unat p + 1" "P c" "c = i" "\<forall>j < i. \<not> P j"
    by (auto simp: find_Some_iff simp del: upt_Suc)
  have "lzma2_clamped_prop p n = of_nat c"
    using c by (simp add: lzma2_clamped_prop_def d Let_def P_def del: upt_Suc)
  moreover have "unat (of_nat c :: u8) = c"
    using i assms(1) by (simp add: unsigned_of_nat take_bit_nat_eq_self)
  ultimately have q: "q = c" by (simp add: q_def)
  have "lzma2_dictionary32 j < unat ?t" if "j < c" for j
    using that i cand [of j] unfolding P_def by (auto simp: not_le)
  with q i cand [of c] t show ?thesis unfolding P_def by auto
qed

text \<open>A chain that is admitted has room for each of its coders, and for all of them.\<close>

lemma fold_saturating: "b \<le> usize_max \<Longrightarrow> foldl usize_saturating_add b xs = min (b + sum_list xs) usize_max"
  by (induction xs arbitrary: b) (auto simp: usize_saturating_add_def min_def)

definition sized_total_kb :: "(coder \<times> u64) list \<Rightarrow> nat" where
  "sized_total_kb cs = sum_list (List.map_filter (\<lambda>(c, n). sized_coder_memory_kb c n) cs)"

lemma memory_limit_kb_max: "memory_limit_kb l \<le> 2 ^ 54"
proof -
  have "unat (memory_limit_bytes l) < 2 ^ 64" using unsigned_less [of "memory_limit_bytes l", where 'a = nat] by simp
  then show ?thesis by (simp add: memory_limit_kb_def)
qed

lemma check_chain_memory_spec:
  "check_chain_memory cs l base = Inr k \<Longrightarrow> base \<le> usize_max \<Longrightarrow>
     k = base + sized_total_kb cs \<and> k \<le> memory_limit_kb l"
  using memory_limit_kb_max [of l]
  by (auto simp: check_chain_memory_def Let_def fold_saturating sized_total_kb_def usize_max_def split: if_splits)

lemma sized_coder_in_total:
  assumes "(c, n) \<in> set cs" "sized_coder_memory_kb c n = Some k"
  shows "k \<le> sized_total_kb cs"
proof -
  have "k \<in> set (List.map_filter (\<lambda>(c, n). sized_coder_memory_kb c n) cs)"
    using assms by (force simp: List.map_filter_def)
  then show ?thesis unfolding sized_total_kb_def by (simp add: member_le_sum_list)
qed

text \<open>
  The estimate a caller budgets with and the decoder's charge agree up to rounding: the charge is
  in whole kilobytes per coder, so it may exceed the estimate by less than one per coder.
\<close>

lemma charge_LZ:
  assumes "unat d \<le> m" "m < 2 ^ 33"
  shows "lzma2_memory_usage_kb d * 1024 < m + 1048576 + 1024"
proof -
  have "unat (ucast d :: u64) = unat d"
    using unsigned_less [of d, where 'a = nat] by (simp add: unsigned_ucast_eq take_bit_nat_eq_self)
  moreover have "unat d + 1048576 < 2 ^ 64" using unsigned_less [of d, where 'a = nat] by simp
  ultimately have "unat (saturating_add (ucast d) LZ_STATE_BYTES) = unat d + 1048576"
    by (simp add: unat_saturating_add LZ_STATE_BYTES_def MIB_def KIB_def)
  then show ?thesis
    using div_ceil_bounds [of 1024 "unat d + 1048576"] assms by (simp add: lzma2_memory_usage_kb_def)
qed

lemma clamp_le: "unat (clamp_dictionary d n) \<le> unat d"
  by (simp add: unat_clamp)

lemma from_le_bytes_take: "take_bit (8 * length bs) (from_le_bytes bs) = from_le_bytes bs"
proof (induction bs)
  case (Cons b bs)
  have "take_bit (8 + 8 * length bs) (push_bit 8 (from_le_bytes bs)) = push_bit 8 (take_bit (8 * length bs) (from_le_bytes bs))"
    by (simp add: take_bit_push_bit)
  moreover have "take_bit (8 + 8 * length bs) (ucast b :: u64) = ucast b"
    by (rule bit_eqI) (auto simp: bit_simps dest: bit_imp_le_length)
  ultimately show ?case using Cons.IH by (simp add: take_bit_or)
qed simp

lemma props_u32_lt: "unat (props_u32 ps) < 2 ^ 32"
proof -
  have "props_u32 ps = take_bit 32 (props_u32 ps)"
    using from_le_bytes_take [of "[ps ! 1, ps ! 2, ps ! 3, ps ! 4]"] by (simp add: props_u32_def del: from_le_bytes.simps)
  then have "unat (props_u32 ps) = take_bit 32 (unat (props_u32 ps))" by (metis unsigned_take_bit_eq)
  then show ?thesis by (metis take_bit_nat_less_exp)
qed

lemma dictionary_step: "\<forall>k \<in> set [0..<40]. lzma2_dictionary k \<le> lzma2_dictionary (Suc k)"
  by (simp add: lzma2_dictionary_def upt_rec)

lemma dictionary_mono: "a \<le> b \<Longrightarrow> b \<le> 40 \<Longrightarrow> lzma2_dictionary a \<le> lzma2_dictionary b"
proof (induction b rule: dec_induct)
  case (step k)
  then have "k \<in> set [0..<40]" by simp
  with dictionary_step have "lzma2_dictionary k \<le> lzma2_dictionary (Suc k)" by blast
  with step show ?case by simp
qed simp

text \<open>One coder's charge against its estimate.\<close>

lemma sized_coder_le_estimate:
  assumes "sized_coder_memory_kb c n = Some k" "coder_memory_estimate c = Inr m"
  shows "k * 1024 < unat m + 1024"
proof -
  let ?ps = "properties c"
  have ids: "ID_LZMA \<noteq> ID_COPY" "ID_LZMA2 \<noteq> ID_COPY" "ID_LZMA2 \<noteq> ID_LZMA" "ID_PPMD \<noteq> ID_COPY"
    "ID_PPMD \<noteq> ID_LZMA" "ID_PPMD \<noteq> ID_LZMA2" by (simp_all add: method_id_defs)
  have mib: "unat LZ_STATE_BYTES = 1048576" "unat PPMD_STATE_BYTES = 1048576"
    by (simp_all add: LZ_STATE_BYTES_def PPMD_STATE_BYTES_def MIB_def KIB_def)
  consider "encoder_method_id c = ID_LZMA" | "encoder_method_id c = ID_LZMA2" | "encoder_method_id c = ID_PPMD"
    using assms(1) by (auto simp: sized_coder_memory_kb_def Let_def split: if_splits)
  then show ?thesis
  proof cases
    case 1
    then obtain d where d: "lzma_dictionary_size ?ps = Inr d" and k: "k = lzma2_memory_usage_kb (clamp_dictionary d n)"
      using assms(1) by (auto simp: sized_coder_memory_kb_def split: sum.splits)
    then have "5 \<le> length ?ps" "d = ucast (props_u32 ?ps)" by (auto simp: lzma_dictionary_size_def split: if_splits)
    then have ud: "unat d = unat (props_u32 ?ps)" and m: "m = saturating_add (props_u32 ?ps) LZ_STATE_BYTES"
      using props_u32_lt [of ?ps] assms(2) 1 ids
      by (auto simp: unsigned_ucast_eq take_bit_nat_eq_self coder_memory_estimate_def lzma_dictionary_bytes_def)
    have "unat m = unat (props_u32 ?ps) + 1048576"
      using props_u32_lt [of ?ps] by (simp add: m unat_saturating_add mib)
    then show ?thesis
      using charge_LZ [of "clamp_dictionary d n" "unat (props_u32 ?ps)"] clamp_le [of d n] ud props_u32_lt [of ?ps] k
      by simp
  next
    case 2
    then obtain p r d where p: "?ps = p # r" and d: "lzma2_dictionary_size [lzma2_clamped_prop p n] = Inr d"
      and k: "k = lzma2_memory_usage_kb d"
      using assms(1) ids by (auto simp: sized_coder_memory_kb_def split: list.splits sum.splits)
    from assms(2) 2 p ids obtain e where e: "lzma2_dictionary_bytes ID_LZMA2 ?ps = Inr e"
      and m: "m = saturating_add e LZ_STATE_BYTES"
      by (auto simp: coder_memory_estimate_def bindE_Inr_iff)
    then have p40: "unat p \<le> 40" and e': "e = of_nat (lzma2_dictionary (unat p))"
      using p by (auto simp: lzma2_dictionary_bytes_spec)
    have le: "lzma2_dictionary (unat p) \<le> 2 ^ 32"
      using dictionary_mono [OF p40] by (simp add: lzma2_dictionary_def)
    then have "unat e = lzma2_dictionary (unat p)" by (simp add: e' unsigned_of_nat take_bit_nat_eq_self)
    with le have um: "unat m = lzma2_dictionary (unat p) + 1048576" by (simp add: m unat_saturating_add mib)
    have "unat (lzma2_clamped_prop p n) \<le> unat p" using lzma2_clamped_prop_spec [OF p40] by blast
    with d p40 have "unat d \<le> lzma2_dictionary (unat p)"
      using dictionary_mono [of "unat (lzma2_clamped_prop p n)" "unat p"]
      by (auto simp: lzma2_dictionary_size_spec unat_dictionary32) (simp add: lzma2_dictionary32_def)
    then show ?thesis using charge_LZ [of d "lzma2_dictionary (unat p)"] le um k by simp
  next
    case 3
    then have "5 \<le> length ?ps" and k: "k = ppmd_memory_kb (unat (props_u32 ?ps))"
      using assms(1) ids by (auto simp: sized_coder_memory_kb_def Let_def split: if_splits)
    then have "m = saturating_add (props_u32 ?ps) PPMD_STATE_BYTES"
      using assms(2) 3 ids by (auto simp: coder_memory_estimate_def ppmd_model_bytes_def)
    then have "unat m = unat (props_u32 ?ps) + 1048576"
      using props_u32_lt [of ?ps] by (simp add: unat_saturating_add mib)
    moreover have "k \<le> div_ceil (unat (props_u32 ?ps)) 1024 + 64"
      unfolding k ppmd_memory_kb_def by (simp add: INPUT_BUF_SIZE_def div_ceil_def)
    ultimately show ?thesis using div_ceil_bounds [of 1024 "unat (props_u32 ?ps)"] by linarith
  qed
qed

text \<open>
  The two-coder chain that is refused at the limit its own estimate names: two LZMA coders whose
  dictionaries are one byte over 4 KiB are each rounded up.
\<close>

definition odd_lzma :: coder where
  "odd_lzma = Inline (ID_LZMA @ replicate 12 0) [0x5D, 0x01, 0x10, 0, 0, 0, 0] 0x53"

lemma odd_lzma_sizes:
  "sized_coder_memory_kb odd_lzma 100000 = Some 1029" "coder_memory_estimate odd_lzma = Inr 1052673"
proof -
  have v: "encoder_method_id odd_lzma = ID_LZMA" "properties odd_lzma = [0x5D, 0x01, 0x10, 0, 0]"
    by (simp_all add: odd_lzma_def encoder_method_id_def properties_def ID_LZMA_def)
  have p: "props_u32 [0x5D, 0x01, 0x10, 0, 0] = 4097" by (simp add: props_u32_def)
  have d: "lzma_dictionary_size [0x5D, 0x01, 0x10, 0, 0] = Inr 4097"
    by (simp add: lzma_dictionary_size_def p)
  show "sized_coder_memory_kb odd_lzma 100000 = Some 1029"
    by (simp add: sized_coder_memory_kb_def v d clamp_dictionary_def lzma2_memory_usage_kb_def
        saturating_add_def LZ_STATE_BYTES_def MIB_def KIB_def div_ceil_def)
  show "coder_memory_estimate odd_lzma = Inr 1052673"
    by (simp add: coder_memory_estimate_def v lzma_dictionary_bytes_def p saturating_add_def
        LZ_STATE_BYTES_def MIB_def KIB_def)
      (simp add: method_id_defs lzma_dictionary_bytes_def p saturating_add_def
        LZ_STATE_BYTES_def MIB_def KIB_def)
qed

lemma odd_chain_refused:
  "chain_memory [odd_lzma, odd_lzma] = Inr 2170882 \<and>
   check_chain_memory [(odd_lzma, 100000), (odd_lzma, 100000)] (limits_memory 2170882) 64
     = Inl (MaxMemLimited 2121 2122)"
  by (simp add: chain_memory_def odd_lzma_sizes saturating_add_def BLOCK_INPUT_BYTES_def check_chain_memory_def
        List.map_filter_simps usize_saturating_add_def usize_max_def memory_limit_kb_def limits_memory_def)

end
