(* ===== verification/Archive_Reader.thy ===== *)
theory Archive_Reader
  imports Files_Reader Stream_Map Decoder_Memory
begin

text \<open>
  Opening an archive (\<^verbatim>\<open>Archive::read_with_limits\<close> and what it calls, \<^verbatim>\<open>src/src/reader.rs\<close>): the
  start header, the end header found or guessed, plain or compressed, and the checks the whole
  archive has to pass before it is handed to the caller. The archive is the list of its bytes.
  The CRC-32 function and the coders (\<^verbatim>\<open>add_decoder\<close>) are arguments.
\<close>

section \<open>Decoded streams\<close>

text \<open>
  What a reader yields over its life: its bytes, and the error it then fails with, or \<open>None\<close> when
  it ends.
\<close>

type_synonym byte_stream = "byte list \<times> io_error option"

definition bounded_stream :: "byte list \<Rightarrow> nat \<Rightarrow> byte_stream" where
  "bounded_stream bs n =
     (if n \<le> length bs then (take n bs, None) else (bs, Some (IoBare UnexpectedEof)))"

text \<open>
  \<^verbatim>\<open>Crc32VerifyingReader\<close>. How many bytes are handed out before a mismatch depends on the sizes
  of the reads; the stream has none of them, and whoever reads it to its declared end fails with
  the same error.
\<close>

definition crc_stream :: "(byte list \<Rightarrow> u32) \<Rightarrow> byte_stream \<Rightarrow> nat \<Rightarrow> u64 \<Rightarrow> byte_stream" where
  "crc_stream crc32 s remaining expected =
     (case s of (bs, e) \<Rightarrow>
        let n = min remaining (2 ^ 63 - 1) in
        if n = 0 then ([], None)
        else if length bs < n then (bs, e)
        else if ucast (crc32 (take n bs)) = expected then (take n bs, None)
        else ([], Some (IoOwn OtherKind ChecksumVerificationFailed)))"

text \<open>\<^verbatim>\<open>take(declared).read_to_end\<close>.\<close>

definition read_to_end :: "byte_stream \<Rightarrow> nat \<Rightarrow> io_error + byte list" where
  "read_to_end s n = (case s of (bs, e) \<Rightarrow>
     if n \<le> length bs then Inr (take n bs)
     else case e of Some err \<Rightarrow> Inl err | None \<Rightarrow> Inr bs)"

text \<open>\<^verbatim>\<open>DecodeOptions\<close>: the fields that vary in a header decode; the others are \<^verbatim>\<open>header\<close>'s.\<close>

record decode_options =
  do_limits :: archive_limits
  do_reserved_kb :: nat
  do_unsized_kb :: nat
  do_encrypted :: bool

type_synonym decoder_builder = "byte_stream \<Rightarrow> u64 \<Rightarrow> coder \<Rightarrow> decode_options \<Rightarrow> byte_stream result"

section \<open>The plain header\<close>

function read_archive_properties :: "header_bounds \<Rightarrow> unit reader" where
  "read_archive_properties bnd bs = (case read_u8 bs of
      Inl e \<Rightarrow> Inl e
    | Inr (nid, bs1) \<Rightarrow>
        if nid = K_END then Inr ((), bs1)
        else (case read_variable_u64 bs1 of
            Inl e \<Rightarrow> Inl e
          | Inr (sz, bs2) \<Rightarrow> (case hb_size bnd sz of
                Inl e \<Rightarrow> Inl e
              | Inr n \<Rightarrow> read_archive_properties bnd (drop n bs2))))"
  by pat_completeness auto
termination
proof (relation "measure (\<lambda>(bnd, bs). length bs)")
  fix bnd :: header_bounds and bs bs1 bs2 nid sz n x y
  assume "read_u8 bs = Inr x" "(nid, bs1) = x" "read_variable_u64 bs1 = Inr y" "(sz, bs2) = y"
  then have "bs = nid # bs1" "length bs2 \<le> length bs1"
    using suffixing_length [OF suffixing_variable_u64] by (auto simp: read_u8_Inr_iff)
  then show "((bnd, drop n bs2), bnd, bs) \<in> measure (\<lambda>(bnd, bs). length bs)" by simp
qed simp

declare read_archive_properties.simps [simp del]

definition read_header :: "header_bounds \<Rightarrow> archive \<Rightarrow> archive reader" where
  "read_header bnd a =
     bindP read_u8 (\<lambda>nid.
     bindP (section_if (nid = K_ARCHIVE_PROPERTIES)
              (bindP (read_archive_properties bnd) (\<lambda>_. returnP a)) a nid) (\<lambda>(a, nid).
     if nid = K_ADDITIONAL_STREAMS_INFO then failP (Unsupported ''Additional streams unsupported'')
     else
     bindP (section_if (nid = K_MAIN_STREAMS_INFO) (read_streams_info bnd a) a nid) (\<lambda>(a, nid).
     bindP (section_if (nid = K_FILES_INFO) (read_files_info bnd a) a nid) (\<lambda>(a, nid).
     if nid \<noteq> K_END then failP (BadTerminatedHeader nid) else returnP a))))"

section \<open>The compressed header\<close>

definition coder_sizes :: "block \<Rightarrow> (coder \<times> u64) list" where
  "coder_sizes b =
     map (\<lambda>(i, c). (c, get_unpack_size_at_index b i)) (collect b (ordered_coder_iter b))"

definition decode_stage ::
  "decoder_builder \<Rightarrow> block \<Rightarrow> decode_options \<Rightarrow> nat \<times> coder \<Rightarrow> byte_stream \<Rightarrow> byte_stream result" where
  "decode_stage add_decoder b opts ic s = (case ic of (i, c) \<Rightarrow>
     if num_in_streams c \<noteq> 1 \<or> num_out_streams c \<noteq> 1
     then Inl (Unsupported ''Multi input/output stream coders are not yet supported'')
     else add_decoder s (get_unpack_size_at_index b i) c opts)"

definition decode_chain ::
  "decoder_builder \<Rightarrow> block \<Rightarrow> decode_options \<Rightarrow> byte_stream \<Rightarrow> byte_stream result" where
  "decode_chain add_decoder b opts s =
     (if coders b = [] then Inr s
      else foldE (decode_stage add_decoder b opts) (collect b (ordered_coder_iter b)) s)"

text \<open>The source of the chain: the first packed stream of the file.\<close>

definition encoded_header_source :: "byte list \<Rightarrow> archive \<Rightarrow> byte_stream result" where
  "encoded_header_source f a =
     bindE (ok_or (Corrupted ''pack position out of range'')
              (checked_add SIGNATURE_HEADER_SIZE (ar_pack_pos a))) (\<lambda>off.
     case ar_pack_sizes a of
       [] \<Rightarrow> Inl (Corrupted ''no packed streams, can't read encoded header'')
     | pack_size # _ \<Rightarrow> Inr (bounded_stream (drop (unat off) f) (unat pack_size)))"

definition header_options :: "archive_limits \<Rightarrow> block \<Rightarrow> nat \<Rightarrow> decode_options" where
  "header_options l b reserved_kb =
     \<lparr>do_limits = l, do_reserved_kb = reserved_kb,
      do_unsized_kb = unsized_coders_memory_kb (coder_sizes b), do_encrypted = is_encrypted b\<rparr>"

definition read_encoded_header ::
  "(byte list \<Rightarrow> u32) \<Rightarrow> decoder_builder \<Rightarrow> header_bounds \<Rightarrow> byte list \<Rightarrow> byte list
     \<Rightarrow> (archive \<times> byte_stream \<times> u64) result" where
  "read_encoded_header crc32 add_decoder bnd f header =
     bindE (read_streams_info bnd archive_default header) (\<lambda>(a, _).
     bindE (check_aes_work a (hb_limits bnd)) (\<lambda>_.
     bindE (ok_or (Corrupted ''no blocks, can't read encoded header'') (get (ar_blocks a) 0)) (\<lambda>b.
     bindE (encoded_header_source f a) (\<lambda>packed.
     bindE (get_unpack_size b) (\<lambda>declared.
     if max_header_unpacked_bytes (hb_limits bnd) < declared
     then Inl (LimitExceeded HeaderUnpackedBytes (max_header_unpacked_bytes (hb_limits bnd)) declared)
     else
     bindE (check_chain_memory (coder_sizes b) (hb_limits bnd) 0) (\<lambda>reserved_kb.
     bindE (decode_chain add_decoder b (header_options (hb_limits bnd) b reserved_kb) packed) (\<lambda>s.
     Inr (a, if has_crc b then crc_stream crc32 s (unat declared) (crc b) else s, declared))))))))"

text \<open>
  \<^verbatim>\<open>Vec::try_reserve_exact\<close> refuses a capacity above \<^verbatim>\<open>isize::MAX\<close>; smaller ones are granted here.
\<close>

definition read_decoded_header :: "byte_stream \<Rightarrow> u64 \<Rightarrow> bool \<Rightarrow> byte list result" where
  "read_decoded_header s declared encrypted =
     (if 2 ^ 63 \<le> unat declared
      then Inl (Io (IoForeign OutOfMemory 0) ''encoded header unpack size cannot be allocated'')
      else case read_to_end s (unat declared) of
          Inl e \<Rightarrow> Inl (bad_password e encrypted)
        | Inr buf \<Rightarrow>
            if length buf \<noteq> unat declared
            then Inl (bad_password (IoBare UnexpectedEof) encrypted)
            else Inr buf)"

section \<open>From the start header to an archive\<close>

text \<open>The header bytes the start header names: within the limits and inside the file.\<close>

definition load_header ::
  "(byte list \<Rightarrow> u32) \<Rightarrow> byte list \<Rightarrow> start_header \<Rightarrow> bool \<Rightarrow> archive_limits \<Rightarrow> byte list result" where
  "load_header crc32 f sh verify_crc l =
     (let len = unat (next_header_size sh) in
      if max_end_header_bytes l < next_header_size sh
      then Inl (EndHeaderTooLarge (max_end_header_bytes l) (next_header_size sh))
      else if usize_max < len \<or> length f < len
      then Inl (Corrupted ''Cannot handle next_header_size'')
      else
        bindE (ok_or (Corrupted ''next header offset out of range'')
                 (case checked_add SIGNATURE_HEADER_SIZE (next_header_offset sh) of
                    None \<Rightarrow> None
                  | Some pos \<Rightarrow> if unat pos \<le> length f then Some pos else None)) (\<lambda>pos.
        bindE (read_exact len (drop (unat pos) f)) (\<lambda>(buf, _).
        if verify_crc \<and> ucast (crc32 buf) \<noteq> next_header_crc sh then Inl NextHeaderCrcMismatch
        else Inr buf)))"

text \<open>Past the compression, if any: the header's type byte and the bytes after it.\<close>

definition unwrap_header ::
  "(byte list \<Rightarrow> u32) \<Rightarrow> decoder_builder \<Rightarrow> archive_limits \<Rightarrow> byte list \<Rightarrow> byte list \<Rightarrow> (u8 \<times> byte list) result" where
  "unwrap_header crc32 add_decoder l f buf =
     bindE (read_u8 buf) (\<lambda>(nid, rest).
     if nid = K_ENCODED_HEADER then
       if max_header_depth l < 2 then Inl (LimitExceeded HeaderDepth (ucast (max_header_depth l)) 2)
       else
         bindE (read_encoded_header crc32 add_decoder \<lparr>hb_bytes = length buf, hb_limits = l\<rparr> f rest)
           (\<lambda>(a, s, declared).
         bindE (read_decoded_header s declared
             (case ar_blocks a of [] \<Rightarrow> False | b # _ \<Rightarrow> is_encrypted b)) (\<lambda>decoded.
         read_u8 decoded))
     else Inr (nid, rest))"

definition parse_header :: "archive_limits \<Rightarrow> u8 \<Rightarrow> byte list \<Rightarrow> archive result" where
  "parse_header l nid rest =
     (if nid = K_HEADER then
        bindE (read_header \<lparr>hb_bytes = length rest, hb_limits = l\<rparr> archive_default rest) (\<lambda>(a, _). Inr a)
      else if nid = K_ENCODED_HEADER
      then Inl (LimitExceeded HeaderDepth (ucast (max_header_depth l)) 3)
      else Inl (Corrupted ''Broken or unsupported archive: no Header''))"

text \<open>Every packed byte lies inside the file.\<close>

definition check_packed_range :: "nat \<Rightarrow> archive \<Rightarrow> u64 result" where
  "check_packed_range reader_len a =
     bindE (ok_or (Corrupted ''pack sizes overflow'') (checked_sum 0 (ar_pack_sizes a))) (\<lambda>packed_total.
     bindE (ok_or (Corrupted ''pack stream range out of range'')
              (Option.bind (checked_add SIGNATURE_HEADER_SIZE (ar_pack_pos a))
                 (\<lambda>start. checked_add start packed_total))) (\<lambda>packed_end.
     if reader_len < unat packed_end then Inl (Corrupted ''pack streams end past the end of the archive'')
     else Inr packed_total))"

definition add_unpacked :: "block \<Rightarrow> u64 \<Rightarrow> u64 result" where
  "add_unpacked b acc =
     bindE (get_unpack_size b) (\<lambda>n. ok_or (Corrupted ''unpacked sizes overflow'') (checked_add acc n))"

definition check_unpacked_totals :: "archive_limits \<Rightarrow> u64 \<Rightarrow> archive \<Rightarrow> unit result" where
  "check_unpacked_totals l packed_total a =
     (if max_unpack_bytes l < - 1 \<or> max_unpack_ratio l < - 1 then
        bindE (foldE add_unpacked (ar_blocks a) 0) (\<lambda>unpacked_total.
        if max_unpack_bytes l < unpacked_total
        then Inl (LimitExceeded UnpackBytes (max_unpack_bytes l) unpacked_total)
        else if max_unpack_ratio l < - 1 \<and> 0 < packed_total \<and> max_unpack_ratio l < unpacked_total div packed_total
        then Inl (LimitExceeded UnpackRatio (max_unpack_ratio l) (unpacked_total div packed_total))
        else Inr ())
      else Inr ())"

definition check_entry_name :: "archive_entry \<Rightarrow> unit \<Rightarrow> unit result" where
  "check_entry_name e _ = (case unsafe_path_reason (ae_name e) of
      None \<Rightarrow> Inr ()
    | Some reason \<Rightarrow> Inl (UnsafeEntryName (ae_name e) reason))"

definition check_names :: "archive_limits \<Rightarrow> archive \<Rightarrow> unit result" where
  "check_names l a = (if reject_unsafe_paths l then foldE check_entry_name (ar_files a) () else Inr ())"

definition check_archive :: "archive_limits \<Rightarrow> nat \<Rightarrow> archive \<Rightarrow> archive result" where
  "check_archive l reader_len a =
     bindE (check_packed_range reader_len a) (\<lambda>packed_total.
     bindE (check_unpacked_totals l packed_total a) (\<lambda>_.
     bindE (check_names l a) (\<lambda>_.
     bindE (check_aes_work a l) (\<lambda>_.
     Inr (a\<lparr>ar_is_solid := (\<exists>b \<in> set (ar_blocks a). 1 < num_unpack_sub_streams b)\<rparr>)))))"

definition init_archive ::
  "(byte list \<Rightarrow> u32) \<Rightarrow> decoder_builder \<Rightarrow> byte list \<Rightarrow> start_header \<Rightarrow> bool \<Rightarrow> archive_limits
     \<Rightarrow> archive result" where
  "init_archive crc32 add_decoder f sh verify_crc l =
     bindE (load_header crc32 f sh verify_crc l) (\<lambda>buf.
     if buf = [] then
       if next_header_offset sh \<noteq> 0
       then Inl (Corrupted ''empty next header at a non-zero offset: the archive is corrupt'')
       else Inr archive_default
     else
       bindE (unwrap_header crc32 add_decoder l f buf) (\<lambda>(nid, rest).
       bindE (parse_header l nid rest) (\<lambda>a.
       bindE (calculate_stream_map a) (check_archive l (length f)))))"

section \<open>The start of the file\<close>

definition read_start_header :: "(byte list \<Rightarrow> u32) \<Rightarrow> u32 \<Rightarrow> start_header reader" where
  "read_start_header crc32 start_header_crc =
     bindP (read_exact 20) (\<lambda>buf.
     if crc32 buf \<noteq> start_header_crc then failP ChecksumVerificationFailed
     else
       liftE (bindE (bindP read_u64 (\<lambda>offset. bindP read_u64 (\<lambda>sz. bindP read_u32 (\<lambda>crc.
         returnP \<lparr>next_header_offset = offset, next_header_size = sz, next_header_crc = ucast crc\<rparr>))) buf)
         (\<lambda>(sh, _). Inr sh)))"

text \<open>
  The search for an end header when the start header is blank, downwards from the end of the file.
  The reader stands at byte 12 (after the start header's checksum) when it begins.
\<close>

fun locate_loop ::
  "(start_header \<Rightarrow> archive result) \<Rightarrow> byte list \<Rightarrow> nat \<Rightarrow> nat \<Rightarrow> archive result" where
  "locate_loop open f min_pos 0 =
     Inl (Corrupted ''Start header corrupt and unable to guess end header'')"
| "locate_loop open f min_pos (Suc pos) =
     (if Suc pos \<le> min_pos then Inl (Corrupted ''Start header corrupt and unable to guess end header'')
      else if (f ! pos = K_ENCODED_HEADER \<or> f ! pos = K_HEADER) \<and> 32 \<le> pos then
        bindE (open \<lparr>next_header_offset = of_nat (pos - 32), next_header_size = of_nat (length f - pos),
                 next_header_crc = 0\<rparr>) (\<lambda>result.
        if ar_files result \<noteq> [] then Inr result else locate_loop open f min_pos pos)
      else locate_loop open f min_pos pos)"

definition try_to_locale_end_header ::
  "(byte list \<Rightarrow> u32) \<Rightarrow> decoder_builder \<Rightarrow> byte list \<Rightarrow> archive_limits \<Rightarrow> archive result" where
  "try_to_locale_end_header crc32 add_decoder f l =
     (let search_limit = 1024 * 1024;
          min_pos = if length f < 12 + search_limit then 12 else length f - search_limit
      in locate_loop (\<lambda>sh. init_archive crc32 add_decoder f sh False l) f min_pos (length f - 1))"

definition read_with_limits ::
  "(byte list \<Rightarrow> u32) \<Rightarrow> decoder_builder \<Rightarrow> byte list \<Rightarrow> archive_limits \<Rightarrow> archive result" where
  "read_with_limits crc32 add_decoder f l =
     bindE (read_exact 6 f) (\<lambda>(signature, f1).
     if signature \<noteq> SEVEN_Z_SIGNATURE then Inl (BadSignature signature)
     else
     bindE (read_exact 2 f1) (\<lambda>(versions, f2).
     if versions ! 0 \<noteq> 0 then Inl (UnsupportedVersion (versions ! 0) (versions ! 1))
     else
     bindE (read_u32 f2) (\<lambda>(start_header_crc, f3).
     bindE (if start_header_crc = 0
            then bindE (read_exact 20 f3) (\<lambda>(buf, _). Inr (\<exists>b \<in> set buf. b \<noteq> 0))
            else Inr True) (\<lambda>header_valid.
     if header_valid then
       bindE (read_start_header crc32 start_header_crc f3) (\<lambda>(sh, _).
       init_archive crc32 add_decoder f sh True l)
     else try_to_locale_end_header crc32 add_decoder f l))))"

section \<open>What a parsed header satisfies\<close>

definition streams_absent :: "archive \<Rightarrow> bool" where
  "streams_absent a \<longleftrightarrow> ar_blocks a = [] \<and> ar_sub_streams_info a = None \<and> ar_pack_sizes a = [] \<and> ar_pack_pos a = 0"

definition header_ok :: "header_bounds \<Rightarrow> archive \<Rightarrow> bool" where
  "header_ok bnd a \<longleftrightarrow> (streams_ok bnd a \<or> streams_absent a)
     \<and> (files_ok a \<and> length (ar_files a) \<le> unat (max_entries (hb_limits bnd)) \<or> ar_files a = [])"

lemma default_absent: "streams_absent archive_default" "ar_files archive_default = []"
  "ar_blocks archive_default = []"
  by (simp_all add: streams_absent_def archive_default_def)

lemma streams_ok_files [simp]: "streams_ok bnd (a\<lparr>ar_files := fs\<rparr>) = streams_ok bnd a"
  by (simp add: streams_ok_def blocks_ok_def sub_streams_ok_def total_unpack_sub_streams_def)

lemma streams_absent_files [simp]: "streams_absent (a\<lparr>ar_files := fs\<rparr>) = streams_absent a"
  by (simp add: streams_absent_def)

lemma read_header_spec:
  assumes "read_header bnd archive_default bs = Inr (a, bs')"
  shows "header_ok bnd a"
proof -
  from assms obtain n0 cs0 a1 n1 cs1 where
    s1: "section_if (n0 = K_ARCHIVE_PROPERTIES) (bindP (read_archive_properties bnd) (\<lambda>_. returnP archive_default))
        archive_default n0 cs0 = Inr ((a1, n1), cs1)"
    and rest: "(if n1 = K_ADDITIONAL_STREAMS_INFO then failP (Unsupported ''Additional streams unsupported'')
      else bindP (section_if (n1 = K_MAIN_STREAMS_INFO) (read_streams_info bnd a1) a1 n1) (\<lambda>(a, nid).
           bindP (section_if (nid = K_FILES_INFO) (read_files_info bnd a) a nid) (\<lambda>(a, nid).
           if nid \<noteq> K_END then failP (BadTerminatedHeader nid) else returnP a))) cs1 = Inr (a, bs')"
    unfolding read_header_def by (auto simp: bindP_Inr_iff)
  have a1: "a1 = archive_default" using s1 by (rule section_if_Inr) (auto simp: bindP_Inr_iff)
  from rest obtain a2 n2 cs2 n3 cs3 where
    s2: "section_if (n1 = K_MAIN_STREAMS_INFO) (read_streams_info bnd a1) a1 n1 cs1 = Inr ((a2, n2), cs2)"
    and s3: "section_if (n2 = K_FILES_INFO) (read_files_info bnd a2) a2 n2 cs2 = Inr ((a, n3), cs3)"
    by (auto simp: bindP_Inr_iff split: if_splits)
  have a2: "(streams_ok bnd a2 \<or> streams_absent a2) \<and> ar_files a2 = []"
    using s2 unfolding a1
    by (rule section_if_Inr) (auto dest: read_streams_info_spec simp: default_absent)
  show ?thesis
    using s3
  proof (rule section_if_Inr)
    fix cs assume "read_files_info bnd a2 cs2 = Inr (a, cs)"
    then have "files_ok a \<and> length (ar_files a) \<le> unat (max_entries (hb_limits bnd))"
      and "a = a2\<lparr>ar_files := ar_files a\<rparr>" by (auto dest: read_files_info_spec)
    with a2 show ?thesis unfolding header_ok_def by (metis streams_ok_files streams_absent_files)
  qed (use a2 in \<open>auto simp: header_ok_def\<close>)
qed

lemma header_ok_sized: "header_ok bnd a \<Longrightarrow> b \<in> set (ar_blocks a) \<Longrightarrow> block_sized b"
  by (auto simp: header_ok_def streams_ok_def blocks_ok_def streams_absent_def)

section \<open>No panic\<close>

lemma no_panic_archive_properties [no_panic_intros]: "no_panic (read_archive_properties bnd bs)"
proof (induction bnd bs rule: read_archive_properties.induct)
  case (1 bnd bs)
  have u: "no_panic (read_u8 bs)" "no_panic (read_variable_u64 cs)" "no_panic (hb_size bnd v)" for cs v
    by (intro no_panic_intros)+
  show ?case
    using 1 u by (subst read_archive_properties.simps) (fastforce simp: no_panic_def split: sum.splits prod.splits)
qed

lemma no_panic_read_header [no_panic_intros]: "no_panic (read_header bnd archive_default bs)"
proof -
  have blocks: "section_if c (bindP p (\<lambda>_. returnP archive_default)) archive_default n cs = Inr ((a, n'), cs') \<Longrightarrow>
     ar_blocks a = []" for c and p :: "unit reader" and n cs a n' cs'
    by (erule section_if_Inr) (auto simp: bindP_Inr_iff archive_default_def)
  show ?thesis
    unfolding read_header_def
    by (auto intro!: no_panic_intros split: prod.splits dest: blocks)
qed

lemma no_panic_chain:
  assumes "\<And>s n c opts. no_panic (add_decoder s n c opts)"
  shows "no_panic (decode_chain add_decoder b opts s)"
proof -
  have "no_panic (foldE (decode_stage add_decoder b opts) ics s)" for ics
    by (induction ics arbitrary: s) (auto simp: decode_stage_def assms intro!: no_panic_intros)
  then show ?thesis by (simp add: decode_chain_def)
qed

lemma no_panic_size: "block_sized b \<Longrightarrow> no_panic (get_unpack_size b)"
  using get_unpack_size_ok [of b] by (auto simp: block_sized_def)

lemma get_Inr: "get xs i = Some x \<Longrightarrow> x \<in> set xs"
  by (auto simp: get_def split: if_splits)

lemma no_panic_header_source [no_panic_intros]: "no_panic (encoded_header_source f a)"
  by (auto simp: encoded_header_source_def intro!: no_panic_intros split: list.split)

lemma no_panic_chain_memory [no_panic_intros]: "no_panic (check_chain_memory cs l k)"
  by (simp add: check_chain_memory_def Let_def)

lemma no_panic_aes [no_panic_intros]: "no_panic (check_aes_work a l)"
proof -
  have "no_panic (foldE (\<lambda>c _. check_aes_coder l c) cs ())" for cs
    by (induction cs) (auto simp: check_aes_coder_def Let_def intro!: no_panic_intros split: list.split)
  then show ?thesis by (simp add: check_aes_work_def check_aes_coders_def)
qed

lemma no_panic_encoded:
  assumes "\<And>s n c opts. no_panic (add_decoder s n c opts)"
  shows "no_panic (read_encoded_header crc32 add_decoder bnd f header)"
proof -
  have sized: "read_streams_info bnd archive_default header = Inr (a, cs) \<Longrightarrow> get (ar_blocks a) 0 = Some b \<Longrightarrow>
     no_panic (get_unpack_size b)" for a cs b
    by (auto dest!: read_streams_info_spec get_Inr intro!: no_panic_size
        simp: streams_ok_def blocks_ok_def default_absent)
  show ?thesis
    unfolding read_encoded_header_def Let_def
    by (auto intro!: no_panic_intros no_panic_chain assms split: prod.split dest: sized simp: default_absent)
qed

lemma no_panic_decoded [no_panic_intros]: "no_panic (read_decoded_header s n e)"
  by (auto simp: read_decoded_header_def bad_password_def is_panic_def split: sum.split)

lemma no_panic_unwrap:
  assumes "\<And>s n c opts. no_panic (add_decoder s n c opts)"
  shows "no_panic (unwrap_header crc32 add_decoder l f buf)"
  unfolding unwrap_header_def
  by (auto intro!: no_panic_intros no_panic_encoded assms split: prod.split)

lemma no_panic_unpacked:
  assumes "\<forall>b \<in> set (ar_blocks a). block_sized b"
  shows "no_panic (check_unpacked_totals l n a)"
proof -
  have "\<forall>b \<in> set bl. block_sized b \<Longrightarrow> no_panic (foldE add_unpacked bl acc)" for bl acc
    by (induction bl arbitrary: acc) (auto simp: add_unpacked_def intro!: no_panic_intros no_panic_size)
  with assms show ?thesis
    unfolding check_unpacked_totals_def by (auto intro!: no_panic_intros)
qed

lemma no_panic_names [no_panic_intros]: "no_panic (check_names l a)"
proof -
  have "no_panic (foldE check_entry_name fs ())" for fs
    by (induction fs) (auto simp: check_entry_name_def intro!: no_panic_intros split: option.split)
  then show ?thesis by (simp add: check_names_def)
qed

lemma no_panic_check_archive:
  assumes "\<forall>b \<in> set (ar_blocks a). block_sized b"
  shows "no_panic (check_archive l n a)"
  unfolding check_archive_def
  by (auto simp: check_packed_range_def intro!: no_panic_intros no_panic_unpacked assms)

lemma parse_header_spec: "parse_header l nid rest = Inr a \<Longrightarrow> \<exists>n. header_ok \<lparr>hb_bytes = n, hb_limits = l\<rparr> a"
  by (auto simp: parse_header_def bindE_Inr_iff split: if_splits dest: read_header_spec)

lemma calculated_blocks: "calculate_stream_map a = Inr a' \<Longrightarrow> ar_blocks a' = ar_blocks a"
  by (metis archive.select_convs(6) archive.surjective archive.update_convs(7,8) calculate_stream_map_spec)

lemma no_panic_init:
  assumes "\<And>s n c opts. no_panic (add_decoder s n c opts)"
  shows "no_panic (init_archive crc32 add_decoder f sh v l)"
proof -
  have load: "no_panic (load_header crc32 f sh v l)"
    by (auto simp: load_header_def Let_def intro!: no_panic_intros split: option.split prod.split)
  have parse: "no_panic (parse_header l nid rest)" for nid rest
    by (auto simp: parse_header_def intro!: no_panic_intros split: prod.split)
  have check: "parse_header l nid rest = Inr a \<Longrightarrow> calculate_stream_map a = Inr a' \<Longrightarrow>
      no_panic (check_archive l n a')" for nid rest a a' n
    by (auto dest!: parse_header_spec simp: calculated_blocks intro!: no_panic_check_archive header_ok_sized)
  show ?thesis
    unfolding init_archive_def
    by (auto intro!: no_panic_intros load parse no_panic_unwrap assms check split: prod.split)
qed

lemma no_panic_locate:
  assumes "\<And>sh. no_panic (open sh)"
  shows "no_panic (locate_loop open f m n)"
  by (induction n) (auto intro!: no_panic_intros assms)

lemma no_panic_read_with_limits:
  assumes "\<And>s n c opts. no_panic (add_decoder s n c opts)"
  shows "no_panic (read_with_limits crc32 add_decoder f l)"
proof -
  have start: "no_panic (read_start_header crc32 c bs)" for c bs
    unfolding read_start_header_def by (auto intro!: no_panic_intros split: prod.split)
  have loc: "no_panic (try_to_locale_end_header crc32 add_decoder f l)"
    unfolding try_to_locale_end_header_def Let_def by (intro no_panic_locate no_panic_init assms)
  show ?thesis
    unfolding read_with_limits_def
    by (auto intro!: no_panic_intros start loc no_panic_init assms split: prod.split)
qed

section \<open>What an opened archive satisfies\<close>

text \<open>
  \<open>a\<close> is what an accepted header describes, with its stream map, of a file of \<open>n\<close> bytes.
\<close>

definition opened :: "archive_limits \<Rightarrow> nat \<Rightarrow> archive \<Rightarrow> bool" where
  "opened l n a \<longleftrightarrow> (\<exists>k a0 a1. header_ok \<lparr>hb_bytes = k, hb_limits = l\<rparr> a0 \<and> calculate_stream_map a0 = Inr a1
     \<and> check_archive l n a1 = Inr a)"

lemma init_archive_opened:
  assumes "init_archive crc32 add_decoder f sh v l = Inr a"
  shows "a = archive_default \<or> opened l (length f) a"
proof -
  have "parse_header l nid rest = Inr a0 \<Longrightarrow> calculate_stream_map a0 = Inr a1 \<Longrightarrow>
      check_archive l (length f) a1 = Inr a \<Longrightarrow> opened l (length f) a" for nid rest a0 a1
    unfolding opened_def by (blast dest: parse_header_spec)
  with assms show ?thesis
    unfolding init_archive_def by (auto simp: bindE_Inr_iff split: if_splits)
qed

lemma locate_loop_Inr: "locate_loop open f m n = Inr a \<Longrightarrow> \<exists>sh. open sh = Inr a \<and> ar_files a \<noteq> []"
  by (induction n) (auto simp: bindE_Inr_iff split: if_splits)

lemma read_with_limits_opened:
  assumes "read_with_limits crc32 add_decoder f l = Inr a"
  shows "a = archive_default \<or> opened l (length f) a"
  using assms unfolding read_with_limits_def try_to_locale_end_header_def Let_def
  by (auto simp: bindE_Inr_iff split: if_splits dest: init_archive_opened dest!: locate_loop_Inr)

lemma check_archive_Inr:
  assumes "check_archive l n a1 = Inr a"
  shows "a = a1\<lparr>ar_is_solid := (\<exists>b \<in> set (ar_blocks a1). 1 < num_unpack_sub_streams b)\<rparr>"
    "\<exists>t. check_packed_range n a1 = Inr t \<and> check_unpacked_totals l t a1 = Inr ()"
    "check_names l a1 = Inr ()" "check_aes_work a1 l = Inr ()"
  using assms by (auto simp: check_archive_def bindE_Inr_iff)

lemma check_packed_range_Inr:
  "check_packed_range n a = Inr t \<Longrightarrow>
     unat t = sum_list (map unat (ar_pack_sizes a)) \<and> 32 + unat (ar_pack_pos a) + unat t \<le> n"
  by (auto simp: check_packed_range_def bindE_Inr_iff SIGNATURE_HEADER_SIZE_def
      split: if_splits Option.bind_splits dest!: checked_sum_unat checked_add_unat)

lemma add_unpacked_Inr:
  "add_unpacked b acc = Inr t \<longleftrightarrow> (\<exists>n. get_unpack_size b = Inr n \<and> checked_add acc n = Some t)"
  by (auto simp: add_unpacked_def bindE_Inr_iff)

lemma foldE_unpacked:
  "foldE add_unpacked bl acc = Inr t \<Longrightarrow>
     \<exists>ns. length ns = length bl \<and> (\<forall>i < length bl. get_unpack_size (bl ! i) = Inr (ns ! i))
       \<and> unat t = unat acc + sum_list (map unat ns)"
proof (induction bl arbitrary: acc)
  case (Cons b bl)
  from Cons.prems obtain n acc' where n: "get_unpack_size b = Inr n" "checked_add acc n = Some acc'"
    and r: "foldE add_unpacked bl acc' = Inr t"
    by (auto simp: add_unpacked_Inr bindE_Inr_iff)
  from Cons.IH [OF r] obtain ns where "length ns = length bl"
    "\<forall>i < length bl. get_unpack_size (bl ! i) = Inr (ns ! i)" "unat t = unat acc' + sum_list (map unat ns)" by blast
  with n show ?case
    by (intro exI [of _ "n # ns"]) (auto simp: nth_Cons checked_add_unat split: nat.split)
qed simp

text \<open>What the archive says it will produce.\<close>

definition declared_output :: "archive \<Rightarrow> nat" where
  "declared_output a =
     sum_list (map (\<lambda>b. case get_unpack_size b of Inl _ \<Rightarrow> 0 | Inr n \<Rightarrow> unat n) (ar_blocks a))"

lemma unpacked_total_eq: "foldE add_unpacked (ar_blocks a) 0 = Inr t \<Longrightarrow> unat t = declared_output a"
proof -
  assume t: "foldE add_unpacked (ar_blocks a) 0 = Inr t"
  obtain ns where ns: "length ns = length (ar_blocks a)"
    "\<forall>i < length (ar_blocks a). get_unpack_size (ar_blocks a ! i) = Inr (ns ! i)" "unat t = sum_list (map unat ns)"
    using foldE_unpacked [OF t] by auto
  from ns have "map (\<lambda>b. case get_unpack_size b of Inl _ \<Rightarrow> 0 | Inr n \<Rightarrow> unat n) (ar_blocks a) = map unat ns"
    by (intro nth_equalityI) auto
  with ns(3) show ?thesis by (simp add: declared_output_def)
qed

lemma check_unpacked_totals_Inr:
  assumes "check_unpacked_totals l packed a = Inr ()"
  shows "max_unpack_bytes l < - 1 \<Longrightarrow> declared_output a \<le> unat (max_unpack_bytes l)"
    and "max_unpack_ratio l < - 1 \<Longrightarrow> 0 < packed \<Longrightarrow> declared_output a div unat packed \<le> unat (max_unpack_ratio l)"
  using assms
  by (auto simp: check_unpacked_totals_def bindE_Inr_iff not_less word_le_nat_alt unat_div
      dest!: unpacked_total_eq split: if_splits)

lemma check_names_Inr:
  assumes "check_names l a = Inr ()" "reject_unsafe_paths l" "e \<in> set (ar_files a)"
  shows "unsafe_path_reason (ae_name e) = None"
proof -
  have "foldE check_entry_name fs () = Inr () \<Longrightarrow> e \<in> set fs \<Longrightarrow> unsafe_path_reason (ae_name e) = None" for fs
    by (induction fs) (auto simp: bindE_Inr_iff check_entry_name_def split: option.splits)
  with assms show ?thesis by (auto simp: check_names_def)
qed

lemma opened_map:
  assumes "opened l n a"
  obtains k a0 a1 where "header_ok \<lparr>hb_bytes = k, hb_limits = l\<rparr> a0" "calculate_stream_map a0 = Inr a1"
    "check_archive l n a1 = Inr a" "ar_blocks a = ar_blocks a0" "ar_pack_sizes a = ar_pack_sizes a0"
    "ar_pack_pos a = ar_pack_pos a0" "ar_sub_streams_info a = ar_sub_streams_info a0"
    "ar_files a = ar_files a1" "ar_stream_map a = ar_stream_map a1" "a1 = a\<lparr>ar_is_solid := ar_is_solid a1\<rparr>"
proof -
  from assms obtain k a0 a1 where o: "header_ok \<lparr>hb_bytes = k, hb_limits = l\<rparr> a0"
    "calculate_stream_map a0 = Inr a1" "check_archive l n a1 = Inr a" by (auto simp: opened_def)
  have e: "a1 = a0\<lparr>ar_files := ar_files a1, ar_stream_map := ar_stream_map a1\<rparr>"
    using calculate_stream_map_spec [OF o(2)] by blast
  have "ar_blocks a1 = ar_blocks a0" "ar_pack_sizes a1 = ar_pack_sizes a0"
    "ar_pack_pos a1 = ar_pack_pos a0" "ar_sub_streams_info a1 = ar_sub_streams_info a0"
    by (subst e, simp)+
  with that [OF o] check_archive_Inr(1) [OF o(3)] show ?thesis by simp
qed

text \<open>Every packed range a block is handed lies after the start header and inside the file.\<close>

lemma take_unat_le: "i < length xs \<Longrightarrow> sum_list (map unat (take i xs)) + unat (xs ! i) \<le> sum_list (map unat xs)"
proof -
  assume "i < length xs"
  then have "sum_list (map unat xs) = sum_list (map unat (take i xs)) + sum_list (map unat (drop i xs))"
    by (metis append_take_drop_id map_append sum_list_append)
  moreover have "sum_list (map unat (drop i xs)) = unat (xs ! i) + sum_list (map unat (drop (Suc i) xs))"
    using \<open>i < length xs\<close> by (simp add: Cons_nth_drop_Suc [symmetric])
  ultimately show ?thesis by simp
qed

lemma pack_range_inside:
  assumes "opened l n a" "n < 2 ^ 64" "pack_range_at a i = Some r"
  shows "ps_index r = i \<and> unat (ps_offset r) = 32 + unat (ar_pack_pos a) + sum_list (map unat (take i (ar_pack_sizes a)))
     \<and> unat (ps_offset r) + unat (ps_size r) \<le> n"
proof -
  from assms(1) obtain k a0 a1 where o: "calculate_stream_map a0 = Inr a1" "check_archive l n a1 = Inr a"
    and eq: "ar_pack_sizes a = ar_pack_sizes a0" "ar_stream_map a = ar_stream_map a1"
    "a1 = a\<lparr>ar_is_solid := ar_is_solid a1\<rparr>" by (rule opened_map)
  have r: "i < length (ar_pack_sizes a)" "ps_index r = i" "ps_size r = ar_pack_sizes a ! i"
    and off: "ps_offset r = saturating_add (saturating_add SIGNATURE_HEADER_SIZE (ar_pack_pos a)) (sm_pack_stream_offsets (ar_stream_map a) ! i)"
    using assms(3) by (auto simp: pack_range_at_def get_def split: if_splits option.splits)
  have m: "unat (sm_pack_stream_offsets (ar_stream_map a) ! i) = sum_list (map unat (take i (ar_pack_sizes a)))"
    using calculate_stream_map_spec [OF o(1)] r(1) eq by (auto simp: pack_map_ok_def)
  have "32 + unat (ar_pack_pos a1) + sum_list (map unat (ar_pack_sizes a1)) \<le> n"
    using check_archive_Inr(2) [OF o(2)] check_packed_range_Inr by fastforce
  then have n: "32 + unat (ar_pack_pos a) + sum_list (map unat (ar_pack_sizes a)) \<le> n"
    by (subst (asm) (1 2) eq(3)) simp
  note t = take_unat_le [OF r(1)]
  have "unat (SIGNATURE_HEADER_SIZE + ar_pack_pos a) = 32 + unat (ar_pack_pos a)"
    using n assms(2) by (subst unat_add_u64) (simp_all add: SIGNATURE_HEADER_SIZE_def)
  then have "unat (ps_offset r) = 32 + unat (ar_pack_pos a) + sum_list (map unat (take i (ar_pack_sizes a)))"
    using n t assms(2) m by (simp add: off saturating_add_def unat_add_u64 SIGNATURE_HEADER_SIZE_def)
  with n t r show ?thesis by simp
qed

text \<open>The compressed sizes, which the stream map fills in, do not matter to the pairing of entries.\<close>

definition unsized_entry :: "archive_entry \<Rightarrow> archive_entry" where
  "unsized_entry = ae_compressed_size_update (\<lambda>_. 0)"

lemma unsized_entry_simps [simp]:
  "ae_name (unsized_entry f) = ae_name f" "ae_has_stream (unsized_entry f) = ae_has_stream f"
  "ae_size (unsized_entry f) = ae_size f" "ae_has_crc (unsized_entry f) = ae_has_crc f"
  "ae_crc (unsized_entry f) = ae_crc f" "ae_is_directory (unsized_entry f) = ae_is_directory f"
  "ae_is_anti_item (unsized_entry f) = ae_is_anti_item f"
  "entry_from s k (unsized_entry f) = entry_from s k f"
  by (simp_all add: unsized_entry_def entry_from_def)

lemma filter_unsized: "filter ae_has_stream (map unsized_entry fs) = map unsized_entry (filter ae_has_stream fs)"
  by (simp add: filter_map o_def)

lemma files_ok_unsized: "files_ok (a\<lparr>ar_files := map unsized_entry (ar_files a)\<rparr>) = files_ok a"
  unfolding files_ok_def by (simp add: filter_unsized)

lemma files_ok_files:
  assumes "ar_files a = ar_files b" "ar_sub_streams_info a = ar_sub_streams_info b"
  shows "files_ok a = files_ok b"
  using assms by (simp add: files_ok_def)

lemma opened_files:
  assumes "opened l n a"
  shows "(files_ok a \<or> ar_files a = []) \<and> length (ar_files a) \<le> unat (max_entries l)"
proof -
  from assms obtain k a0 a1 where o: "header_ok \<lparr>hb_bytes = k, hb_limits = l\<rparr> a0"
    "calculate_stream_map a0 = Inr a1" and eq: "ar_files a = ar_files a1"
    "ar_sub_streams_info a = ar_sub_streams_info a0" by (rule opened_map)
  have m: "map unsized_entry (ar_files a) = map unsized_entry (ar_files a0)"
    using calculate_stream_map_spec [OF o(2)] unfolding unsized_entry_def eq by blast
  have "files_ok a = files_ok (a\<lparr>ar_files := map unsized_entry (ar_files a)\<rparr>)" by (simp add: files_ok_unsized)
  also have "\<dots> = files_ok (a0\<lparr>ar_files := map unsized_entry (ar_files a0)\<rparr>)"
    by (rule files_ok_files) (simp_all add: m eq(2))
  also have "\<dots> = files_ok a0" by (rule files_ok_unsized)
  finally have f: "files_ok a = files_ok a0" .
  have "length (ar_files a) = length (ar_files a0)" using arg_cong [OF m, of length] by simp
  with o(1) f show ?thesis by (auto simp: header_ok_def)
qed

lemma opened_blocks:
  assumes "opened l n a" "b \<in> set (ar_blocks a)"
  shows "\<exists>k. block_ok \<lparr>hb_bytes = k, hb_limits = l\<rparr> b \<and> block_sized b"
proof -
  from assms(1) obtain k a0 a1 where o: "header_ok \<lparr>hb_bytes = k, hb_limits = l\<rparr> a0"
    and "ar_blocks a = ar_blocks a0" by (rule opened_map)
  with assms(2) show ?thesis
    by (auto simp: header_ok_def streams_ok_def blocks_ok_def streams_absent_def)
qed



section \<open>The search for an end header\<close>

text \<open>
  What the search amounts to: among the positions a header may start at, from the end of the file
  down, the first one that decides, by an error or by an archive with entries.
\<close>

definition candidate_header :: "byte list \<Rightarrow> nat \<Rightarrow> start_header" where
  "candidate_header f pos = \<lparr>next_header_offset = of_nat (pos - 32), next_header_size = of_nat (length f - pos), next_header_crc = 0\<rparr>"

definition decides :: "(start_header \<Rightarrow> archive result) \<Rightarrow> byte list \<Rightarrow> nat \<Rightarrow> bool" where
  "decides open f pos \<longleftrightarrow> f ! pos \<in> {K_ENCODED_HEADER, K_HEADER} \<and> 32 \<le> pos
     \<and> (case open (candidate_header f pos) of Inl _ \<Rightarrow> True | Inr a \<Rightarrow> ar_files a \<noteq> [])"

lemma locate_loop_find:
  "locate_loop open f m n = (case find (decides open f) (rev [m..<n]) of
      None \<Rightarrow> Inl (Corrupted ''Start header corrupt and unable to guess end header'')
    | Some pos \<Rightarrow> open (candidate_header f pos))"
proof (induction n)
  case (Suc n)
  show ?case
  proof (cases "m \<le> n")
    case True
    then show ?thesis
      using Suc by (cases "open (candidate_header f n)")
        (simp_all add: locate_loop.simps(2) [folded candidate_header_def] decides_def del: locate_loop.simps)
  qed simp
qed simp

end
