(* ===== verification/Sample.thy ===== *)
theory Sample
  imports Archive_Reader
begin

text \<open>
  A complete archive small enough to evaluate: one stored block of one byte, holding one file named
  \<^verbatim>\<open>a\<close>. The checksum function is constantly 1, so the checksums in it are 1; the header is plain,
  so the builder of coders is never asked.
\<close>

definition sample_limits :: archive_limits where
  "sample_limits = \<lparr>memory_limit_bytes = - 1, max_end_header_bytes = 64,
     max_header_unpacked_bytes = 64, max_header_depth = 2, max_entries = 9,
     max_name_bytes = 16, max_total_name_bytes = 64, max_coders_per_block = 8,
     max_streams_per_coder = 8, max_total_coders = 9, max_unpack_bytes = 9,
     max_unpack_ratio = 9, max_aes_cycles_power = 24, max_aes_kdf_rounds = 9,
     reject_unsafe_paths = True\<rparr>"

definition sample_crc :: "byte list \<Rightarrow> u32" where
  "sample_crc bs = 1"

definition sample_builder :: decoder_builder where
  "sample_builder s n c opts = Inr s"

definition sample_header :: "byte list" where
  "sample_header =
     [0x01, 0x04, 0x06, 0x00, 0x01, 0x09, 0x01, 0x00,
      0x07, 0x0B, 0x01, 0x00, 0x01, 0x01, 0x00, 0x0C, 0x01, 0x00,
      0x08, 0x0A, 0x01, 0x2A, 0x00, 0x00, 0x00, 0x00, 0x00,
      0x05, 0x01, 0x11, 0x05, 0x00, 0x61, 0x00, 0x00, 0x00, 0x00, 0x00]"

definition sample_file :: "byte list" where
  "sample_file =
     [0x37, 0x7A, 0xBC, 0xAF, 0x27, 0x1C, 0x00, 0x04, 0x01, 0x00, 0x00, 0x00,
      0x01, 0x00, 0x00, 0x00, 0x00, 0x00, 0x00, 0x00, 0x26, 0x00, 0x00, 0x00, 0x00, 0x00, 0x00, 0x00,
      0x01, 0x00, 0x00, 0x00, 0x58] @ sample_header"

definition sample_bounds :: header_bounds where
  "sample_bounds = \<lparr>hb_bytes = 37, hb_limits = sample_limits\<rparr>"


definition sample_archive :: archive where
  "sample_archive = (case read_with_limits sample_crc sample_builder sample_file sample_limits of
      Inl _ \<Rightarrow> archive_default | Inr a \<Rightarrow> a)"

lemma sample_accepted:
  "map_sum (\<lambda>_. ()) (\<lambda>_. ()) (read_with_limits sample_crc sample_builder sample_file sample_limits) = Inr ()"
  by code_simp

lemma sample_opens: "read_with_limits sample_crc sample_builder sample_file sample_limits = Inr sample_archive"
  using sample_accepted unfolding sample_archive_def
  by (cases "read_with_limits sample_crc sample_builder sample_file sample_limits") auto

lemma sample_builder_total: "no_panic (sample_builder s n c opts)"
  by (simp add: sample_builder_def)

lemma sample_content:
  "map ae_name (ar_files sample_archive) = [[0x61]]" "map ae_has_stream (ar_files sample_archive) = [True]"
  "length (ar_blocks sample_archive) = 1" "reject_unsafe_paths sample_limits"
  "pack_range_at sample_archive 0 = Some \<lparr>ps_index = 0, ps_offset = 32, ps_size = 1\<rparr>"
  "block_pack_streams sample_archive 0 = [\<lparr>ps_index = 0, ps_offset = 32, ps_size = 1\<rparr>]"
  by code_simp+

lemma sample_length: "length sample_file = 71"
  by code_simp

lemma sample_remapped: "calculate_stream_map sample_archive = Inr sample_archive"
  by code_simp

text \<open>An archive of two packed streams and nothing else.\<close>

definition two_packs_file :: "byte list" where
  "two_packs_file =
     [0x37, 0x7A, 0xBC, 0xAF, 0x27, 0x1C, 0x00, 0x04, 0x01, 0x00, 0x00, 0x00,
      0x03, 0x00, 0x00, 0x00, 0x00, 0x00, 0x00, 0x00, 0x0B, 0x00, 0x00, 0x00, 0x00, 0x00, 0x00, 0x00,
      0x01, 0x00, 0x00, 0x00, 0x58, 0x59, 0x5A,
      0x01, 0x04, 0x06, 0x00, 0x02, 0x09, 0x01, 0x02, 0x00, 0x00, 0x00]"

definition two_packs_archive :: archive where
  "two_packs_archive = (case read_with_limits sample_crc sample_builder two_packs_file sample_limits of
      Inl _ \<Rightarrow> archive_default | Inr a \<Rightarrow> a)"

lemma two_packs_accepted:
  "map_sum (\<lambda>_. ()) (\<lambda>_. ()) (read_with_limits sample_crc sample_builder two_packs_file sample_limits) = Inr ()"
  by code_simp

lemma two_packs_opens: "read_with_limits sample_crc sample_builder two_packs_file sample_limits = Inr two_packs_archive"
  using two_packs_accepted unfolding two_packs_archive_def
  by (cases "read_with_limits sample_crc sample_builder two_packs_file sample_limits") auto

lemma two_packs_content:
  "pack_range_at two_packs_archive 0 = Some \<lparr>ps_index = 0, ps_offset = 32, ps_size = 1\<rparr>"
  "pack_range_at two_packs_archive (Suc 0) = Some \<lparr>ps_index = 1, ps_offset = 33, ps_size = 2\<rparr>"
  "length two_packs_file = 46"
  by code_simp+

text \<open>A block of ten bytes in two sub-streams.\<close>

definition ten_byte_block :: block where
  "ten_byte_block = (set_streams (with_coders [single_stream]) 1 1 [] [0] [10])\<lparr>num_unpack_sub_streams := 2\<rparr>"

lemma ten_byte_block_read:
  "all_sub_sizes K_SIZE [ten_byte_block] 0 [0, 0] [4] = Inr ([4, 6], [])"
  "num_unpack_sub_streams ten_byte_block = 2" "get_unpack_size ten_byte_block = Inr 10"
  by code_simp+

text \<open>Names the check of paths lets through: \<^verbatim>\<open>a\b\<close> and \<^verbatim>\<open>a/C:/x\<close>.\<close>

lemma backslash_name_accepted: "unsafe_path_reason [0x61, 0x5C, 0x62] = None"
  by code_simp

lemma inner_drive_accepted: "unsafe_path_reason [0x61, 0x2F, 0x43, 0x3A, 0x2F, 0x78] = None"
  by code_simp

end
