(* ===== verification/Histories.thy ===== *)
theory Histories
  imports Block_Model
begin

text \<open>
  Runs of operations on the two data structures with a packed representation, the bit set and the
  coder, against what they represent: a finite set of indices under a capacity, and a record of
  the three observable fields. The simulations go through the interfaces \<open>index_set\<close> and
  \<open>coder_storage\<close>.
\<close>

section \<open>Bit sets\<close>

datatype bit_op = Insert nat | Remove nat | Reserve nat

fun bit_apply :: "bit_op \<Rightarrow> bit_set \<Rightarrow> bit_set" where
  "bit_apply (Insert v) s = snd (bs_insert s v)"
| "bit_apply (Remove v) s = snd (bs_remove s v)"
| "bit_apply (Reserve n) s = reserve_len_exact s n"

type_synonym index_model = "nat set \<times> nat"

fun model_apply :: "bit_op \<Rightarrow> index_model \<Rightarrow> index_model" where
  "model_apply (Insert v) (A, n) = (insert v A, max n (v + 1))"
| "model_apply (Remove v) (A, n) = (A - {v}, n)"
| "model_apply (Reserve k) (A, n) = (A, max n k)"

definition represents :: "bit_set \<Rightarrow> index_model \<Rightarrow> bool" where
  "represents s m \<longleftrightarrow> bs_wf s \<and> {v. contains s v} = fst m \<and> bit_count s = snd m"

lemma represents_new: "represents bs_new ({}, 0)"
  by (simp add: represents_def)

lemma represents_apply: "represents s m \<Longrightarrow> represents (bit_apply k s) (model_apply k m)"
  by (cases m; cases k) (auto simp: represents_def bs_insert_spec bs_remove_spec reserve_len_exact_spec)

lemma represents_run: "represents s m \<Longrightarrow> represents (fold bit_apply ks s) (fold model_apply ks m)"
proof (induction ks arbitrary: s m)
  case (Cons k ks)
  from Cons.IH [OF represents_apply [OF Cons.prems, of k]] show ?case by simp
qed simp

lemma represents_len: "represents s m \<Longrightarrow> bs_len s = card (fst m)"
  by (auto simp: represents_def bs_len_card)

section \<open>Coders\<close>

datatype coder_op = SetId u8 | WriteId "byte list" | SetCounts u64 u64 | SetProperties "byte list"

fun coder_apply :: "coder_op \<Rightarrow> coder \<Rightarrow> coder result" where
  "coder_apply (SetId n) c = set_id_size c n"
| "coder_apply (WriteId bs) c = Inr (write_method_id c bs)"
| "coder_apply (SetCounts i k) c = Inr (set_stream_counts c i k)"
| "coder_apply (SetProperties ps) c = Inr (set_properties c ps)"

record coder_view =
  cv_id_size :: nat
  cv_properties :: "byte list"
  cv_counts :: "u64 \<times> u64"

definition view_of :: "coder \<Rightarrow> coder_view" where
  "view_of c = \<lparr>cv_id_size = length (encoder_method_id c), cv_properties = properties c, cv_counts = counts c\<rparr>"

text \<open>An operation the reader may make: identifiers of at most 15 bytes, written at their size.\<close>

fun op_allowed :: "coder_op \<Rightarrow> coder_view \<Rightarrow> bool" where
  "op_allowed (SetId n) v \<longleftrightarrow> n \<le> 15"
| "op_allowed (WriteId bs) v \<longleftrightarrow> length bs = cv_id_size v"
| "op_allowed (SetCounts i k) v \<longleftrightarrow> True"
| "op_allowed (SetProperties ps) v \<longleftrightarrow> True"

fun view_apply :: "coder_op \<Rightarrow> coder_view \<Rightarrow> coder_view" where
  "view_apply (SetId n) v = v\<lparr>cv_id_size := unat n\<rparr>"
| "view_apply (WriteId bs) v = v"
| "view_apply (SetCounts i k) v = v\<lparr>cv_counts := (i, k)\<rparr>"
| "view_apply (SetProperties ps) v = v\<lparr>cv_properties := ps\<rparr>"

fun ops_allowed :: "coder_op list \<Rightarrow> coder_view \<Rightarrow> bool" where
  "ops_allowed [] v \<longleftrightarrow> True"
| "ops_allowed (k # ks) v \<longleftrightarrow> op_allowed k v \<and> ops_allowed ks (view_apply k v)"

lemma view_of_apply:
  assumes "coder_wf c" "op_allowed k (view_of c)"
  shows "\<exists>c'. coder_apply k c = Inr c' \<and> coder_wf c' \<and> view_of c' = view_apply k (view_of c)"
proof (cases k)
  case (SetId n)
  with assms cs.set_id [of c n] show ?thesis by (auto simp: view_of_def)
next
  case (WriteId bs)
  with assms cs.write_id [of c bs] show ?thesis by (auto simp: view_of_def)
next
  case (SetCounts i j)
  with assms cs.set_cnt [of c i j] show ?thesis by (auto simp: view_of_def)
next
  case (SetProperties ps)
  with assms cs.set_props [of c ps] show ?thesis by (auto simp: view_of_def)
qed

lemma view_of_run:
  assumes "coder_wf c" "ops_allowed ks (view_of c)"
  shows "\<exists>c'. foldE coder_apply ks c = Inr c' \<and> coder_wf c' \<and> view_of c' = fold view_apply ks (view_of c)"
  using assms
proof (induction ks arbitrary: c)
  case (Cons k ks)
  then obtain c1 where c1: "coder_apply k c = Inr c1" "coder_wf c1" "view_of c1 = view_apply k (view_of c)"
    using view_of_apply [of c k] by auto
  with Cons.prems Cons.IH [of c1] show ?case by auto
qed simp

end
