(* ===== verification/Key_Derivation.thy ===== *)
theory Key_Derivation
  imports Decoder_Memory "HOL-Library.List_Lexorder" "HOL-Library.Product_Lexorder"
begin

text \<open>
  The public facts of an AES coder and the derivation of its key (\<^verbatim>\<open>src/src/encryption/aes.rs\<close>,
  \<^verbatim>\<open>src/src/encryption/password.rs\<close>): the properties, the batched rounds of the derivation, and
  the cache of derived keys with the budget of rounds each copy of a password may spend. SHA-256
  is an argument: a function of all the bytes fed to it.
\<close>

section \<open>AES properties\<close>

record aes_properties =
  ap_cycles_power :: u8
  ap_salt :: "byte list"
  ap_salt_len :: u8
  ap_iv :: "byte list"

text \<open>A slice copied over the front of a zeroed array of sixteen bytes.\<close>

definition zero_extended :: "byte list \<Rightarrow> byte list" where
  "zero_extended bs = bs @ replicate (16 - length bs) 0"

definition aes_parse :: "byte list \<Rightarrow> aes_properties result" where
  "aes_parse ps = (case ps of
      [] \<Rightarrow> Inl (Corrupted ''AES256 properties too short'')
    | b0 # _ \<Rightarrow>
        let b1 = (case get ps 1 of Some b \<Rightarrow> b | None \<Rightarrow> 0);
            iv_len = unat ((drop_bit 6 b0 AND 1) + (b1 AND 15));
            salt_len = unat ((drop_bit 7 b0 AND 1) + drop_bit 4 b1)
        in if salt_len + iv_len \<noteq> 0 \<and> length ps < 2 + salt_len + iv_len
           then Inl (Corrupted ''Salt size + IV size too long'')
           else Inr \<lparr>ap_cycles_power = b0 AND 63,
                     ap_salt = zero_extended (take salt_len (drop 2 ps)),
                     ap_salt_len = of_nat salt_len,
                     ap_iv = zero_extended (take iv_len (drop (2 + salt_len) ps))\<rparr>)"

definition aes_salt :: "aes_properties \<Rightarrow> byte list" where
  "aes_salt p = take (unat (ap_salt_len p)) (ap_salt p)"

definition coder_aes_properties :: "coder \<Rightarrow> aes_properties option result" where
  "coder_aes_properties c =
     (if encoder_method_id c \<noteq> ID_AES256_SHA256 then Inr None
      else bindE (aes_parse (properties c)) (\<lambda>p. Inr (Some p)))"

definition block_aes_properties :: "archive \<Rightarrow> nat \<Rightarrow> aes_properties list result" where
  "block_aes_properties a i =
     bindE (ok_or (InvalidArgument ''AES block index out of range'') (get (ar_blocks a) i)) (\<lambda>b.
     foldE (\<lambda>c ps. bindE (coder_aes_properties c) (\<lambda>p.
        Inr (case p of None \<Rightarrow> ps | Some p \<Rightarrow> ps @ [p]))) (coders b) [])"

section \<open>The rounds\<close>

text \<open>
  The hash object is the bytes it has been fed; \<open>finalize\<close> applies \<open>sha\<close> to them. A round feeds
  the salt, the password and the round's number in eight little-endian bytes.
\<close>

definition KDF_UNROLL_POWER :: nat where "KDF_UNROLL_POWER = 6"
definition KDF_BATCH_BYTES :: nat where "KDF_BATCH_BYTES = 64 * 1024"

fun lower_power :: "nat \<Rightarrow> nat \<Rightarrow> nat result" where
  "lower_power round_len 0 =
     (if KDF_BATCH_BYTES < round_len then Inl (Panic ''attempt to subtract with overflow'') else Inr 0)"
| "lower_power round_len (Suc cycles) =
     (if KDF_BATCH_BYTES div 2 ^ (Suc cycles) < round_len then lower_power round_len cycles
      else Inr (Suc cycles))"

definition kdf_unroll_power :: "nat \<Rightarrow> nat \<Rightarrow> nat option result" where
  "kdf_unroll_power cycles_power round_len =
     (if KDF_BATCH_BYTES < round_len then Inr None
      else bindE (lower_power round_len (min cycles_power KDF_UNROLL_POWER)) (\<lambda>p. Inr (Some p)))"

definition kdf_round :: "byte list \<Rightarrow> byte list \<Rightarrow> nat \<Rightarrow> byte list" where
  "kdf_round salt password counter = salt @ password @ to_le_bytes 8 (of_nat counter)"

function chunks_exact :: "nat \<Rightarrow> 'a list \<Rightarrow> 'a list list" where
  "chunks_exact n xs =
     (if n = 0 \<or> length xs < n then [] else take n xs # chunks_exact n (drop n xs))"
  by pat_completeness auto
termination by (relation "measure (\<lambda>(n, xs). length xs)") auto

declare chunks_exact.simps [simp del]

text \<open>Every counter in the buffer advanced by the number of rounds it holds.\<close>

definition advance_rounds :: "nat \<Rightarrow> nat \<Rightarrow> byte list \<Rightarrow> byte list" where
  "advance_rounds round_len unroll rounds =
     concat (map (\<lambda>round. take (round_len - 8) round
         @ to_le_bytes 8 (from_le_bytes (drop (round_len - 8) round) + of_nat unroll))
       (chunks_exact round_len rounds))"

fun feed_batches :: "nat \<Rightarrow> nat \<Rightarrow> nat \<Rightarrow> byte list \<Rightarrow> byte list \<Rightarrow> byte list" where
  "feed_batches round_len unroll 0 rounds fed = fed"
| "feed_batches round_len unroll (Suc n) rounds fed =
     feed_batches round_len unroll n (advance_rounds round_len unroll rounds) (fed @ rounds)"

definition derive_key_with :: "(byte list \<Rightarrow> byte list) \<Rightarrow> nat \<Rightarrow> byte list \<Rightarrow> byte list \<Rightarrow> byte list result" where
  "derive_key_with sha cycles_power salt password =
     (let round_len = usize_saturating_add (usize_saturating_add (length salt) (length password)) 8 in
      bindE (kdf_unroll_power cycles_power round_len) (\<lambda>u. case u of
          None \<Rightarrow> Inr (sha (fold (\<lambda>counter fed.
              fed @ salt @ password @ to_le_bytes 8 (of_nat counter)) [0..<2 ^ cycles_power] []))
        | Some unroll_power \<Rightarrow>
            let unroll = 2 ^ unroll_power;
                rounds = concat (map (kdf_round salt password) [0..<unroll])
            in Inr (sha (feed_batches round_len unroll (2 ^ (cycles_power - unroll_power)) rounds []))))"

section \<open>The cache of keys\<close>

record cached_key =
  ck_power :: u8
  ck_salt :: "byte list"
  ck_key :: "byte list"

type_synonym key_id = "u8 \<times> byte list"

text \<open>A \<^verbatim>\<open>BTreeMap\<close>: its entries in increasing order of their keys.\<close>

fun btree_insert :: "'k :: linorder \<Rightarrow> 'v \<Rightarrow> ('k \<times> 'v) list \<Rightarrow> ('k \<times> 'v) list" where
  "btree_insert k v [] = [(k, v)]"
| "btree_insert k v ((k', v') # m) =
     (if k < k' then (k, v) # (k', v') # m
      else if k = k' then (k, v) # m
      else (k', v') # btree_insert k v m)"

fun pop_first :: "('k \<times> 'v) list \<Rightarrow> ('k \<times> 'v) list" where
  "pop_first [] = []"
| "pop_first (_ # m) = m"

record key_cache =
  kc_entries :: "cached_key list"
  kc_capacity :: nat
  kc_retained :: "(key_id \<times> byte list) list"

definition KEY_CACHE_ENTRIES :: nat where "KEY_CACHE_ENTRIES = 4"

definition key_cache_default :: key_cache where
  "key_cache_default = \<lparr>kc_entries = [], kc_capacity = 0, kc_retained = []\<rparr>"

definition cache_capacity :: "key_cache \<Rightarrow> nat" where
  "cache_capacity c = (if kc_capacity c = 0 then KEY_CACHE_ENTRIES else kc_capacity c)"

function pop_to :: "nat \<Rightarrow> ('k \<times> 'v) list \<Rightarrow> ('k \<times> 'v) list" where
  "pop_to keep m = (if keep < length m then pop_to keep (pop_first m) else m)"
  by pat_completeness auto
termination
proof (relation "measure (\<lambda>(keep, m). length m)")
  show "keep < length m \<Longrightarrow> ((keep, pop_first m), keep, m) \<in> measure (\<lambda>(keep, m). length m)"
    for keep and m :: "('k \<times> 'v) list" by (cases m) auto
qed simp

declare pop_to.simps [simp del]

definition set_capacity :: "nat \<Rightarrow> key_cache \<Rightarrow> key_cache" where
  "set_capacity n c =
     (let c = c\<lparr>kc_capacity := n\<rparr>; keep = cache_capacity c in
      if KEY_CACHE_ENTRIES < keep then
        c\<lparr>kc_entries := [],
          kc_retained := pop_to keep (fold (\<lambda>e. btree_insert (ck_power e, ck_salt e) (ck_key e))
                           (kc_entries c) (kc_retained c))\<rparr>
      else
        let es = kc_entries c @ map (\<lambda>((p, s), k). \<lparr>ck_power = p, ck_salt = s, ck_key = k\<rparr>) (kc_retained c)
        in c\<lparr>kc_retained := [],
             kc_entries := (if keep < length es then drop (length es - keep) es else es)\<rparr>)"

text \<open>The position of the entry for a key, if any, and that entry moved to the end.\<close>

fun position :: "('a \<Rightarrow> bool) \<Rightarrow> 'a list \<Rightarrow> nat option" where
  "position P [] = None"
| "position P (x # xs) = (if P x then Some 0 else map_option Suc (position P xs))"

definition store_key :: "u8 \<Rightarrow> byte list \<Rightarrow> byte list \<Rightarrow> key_cache \<Rightarrow> key_cache" where
  "store_key cycles salt key c =
     (if KEY_CACHE_ENTRIES < cache_capacity c then
        let m = (if length (kc_retained c) = cache_capacity c then pop_first (kc_retained c)
                 else kc_retained c)
        in c\<lparr>kc_retained := btree_insert (cycles, salt) key m\<rparr>
      else
        let es = (if length (kc_entries c) = cache_capacity c then tl (kc_entries c) else kc_entries c)
        in c\<lparr>kc_entries := es @ [\<lparr>ck_power = cycles, ck_salt = salt, ck_key = key\<rparr>]\<rparr>)"

text \<open>
  \<^verbatim>\<open>derive_key_with_budget\<close>: the key or an error, the cache after the call and the rounds the
  copy of the password has spent.
\<close>

definition derive_key_with_budget ::
  "(byte list \<Rightarrow> byte list) \<Rightarrow> u8 \<Rightarrow> byte list \<Rightarrow> byte list \<Rightarrow> u64 \<Rightarrow> key_cache \<times> u64
     \<Rightarrow> byte list result \<times> key_cache \<times> u64" where
  "derive_key_with_budget sha cycles salt password max_rounds st = (case st of (c, spent) \<Rightarrow>
     case (if kc_retained c \<noteq> [] then map_of (kc_retained c) (cycles, salt) else None) of
       Some key \<Rightarrow> (Inr key, c, spent)
     | None \<Rightarrow>
       (case position (\<lambda>e. ck_power e = cycles \<and> ck_salt e = salt) (kc_entries c) of
          Some hit \<Rightarrow>
            let e = kc_entries c ! hit;
                rest = take hit (kc_entries c) @ drop (Suc hit) (kc_entries c)
            in (Inr (ck_key e), c\<lparr>kc_entries := rest @ [e]\<rparr>, spent)
        | None \<Rightarrow>
          (case checked_add spent (push_bit (unat cycles) 1) of
             None \<Rightarrow> (Inl (Corrupted ''AES KDF work total overflow''), c, spent)
           | Some rounds \<Rightarrow>
             if max_rounds < rounds then (Inl (LimitExceeded AesKdfRounds max_rounds rounds), c, spent)
             else (case derive_key_with sha (unat cycles) salt password of
                 Inl e \<Rightarrow> (Inl e, c, rounds)
               | Inr key \<Rightarrow> (Inr key, store_key cycles salt key c, rounds)))))"

definition aes_derive ::
  "(byte list \<Rightarrow> byte list) \<Rightarrow> aes_properties \<Rightarrow> byte list \<Rightarrow> u8 \<Rightarrow> u64 \<Rightarrow> key_cache \<times> u64
     \<Rightarrow> byte list result \<times> key_cache \<times> u64" where
  "aes_derive sha p password max_cycles_power max_kdf_rounds st =
     (if password = [] then (Inl PasswordRequired, st)
      else if ap_cycles_power p = 63 then
        let salt = aes_salt p; n = min (length password) (32 - length salt)
        in (Inr (salt @ take n password @ replicate (32 - length salt - n) 0), st)
      else
        let cap = min max_cycles_power MAX_AES_CYCLES_POWER in
        if cap < ap_cycles_power p
        then (Inl (LimitExceeded AesCyclesPower (ucast cap) (ucast (ap_cycles_power p))), st)
        else derive_key_with_budget sha (ap_cycles_power p) (aes_salt p) password max_kdf_rounds st)"

definition get_aes_key ::
  "(byte list \<Rightarrow> byte list) \<Rightarrow> byte list \<Rightarrow> byte list \<Rightarrow> u8 \<Rightarrow> u64 \<Rightarrow> key_cache \<times> u64
     \<Rightarrow> (byte list \<times> byte list) result \<times> key_cache \<times> u64" where
  "get_aes_key sha ps password max_cycles_power max_kdf_rounds st = (case aes_parse ps of
      Inl e \<Rightarrow> (Inl e, st)
    | Inr p \<Rightarrow>
        (case aes_derive sha p password max_cycles_power max_kdf_rounds st of (r, st') \<Rightarrow>
          (bindE r (\<lambda>key. Inr (key, ap_iv p)), st')))"

definition password_of_str :: "ustring \<Rightarrow> byte list" where
  "password_of_str s = concat (map write_u16 (encode_utf16 s))"

section \<open>The rounds, laid out or not\<close>

definition kdf_input :: "byte list \<Rightarrow> byte list \<Rightarrow> nat \<Rightarrow> byte list" where
  "kdf_input salt password n = concat (map (kdf_round salt password) [0..<n])"

lemma length_kdf_round: "length (kdf_round s p c) = length s + length p + 8"
  by (simp add: kdf_round_def)

lemma chunks_exact_concat:
  "\<forall>x \<in> set xs. length x = n \<Longrightarrow> 0 < n \<Longrightarrow> chunks_exact n (concat xs) = xs"
  by (induction xs) (subst chunks_exact.simps, simp)+

lemma advance_round:
  assumes "round_len = length s + length p + 8"
  shows "advance_rounds round_len u (concat (map (kdf_round s p) cs)) = concat (map (\<lambda>c. kdf_round s p (c + u)) cs)"
proof -
  have "chunks_exact round_len (concat (map (kdf_round s p) cs)) = map (kdf_round s p) cs"
    by (rule chunks_exact_concat) (auto simp: length_kdf_round assms)
  moreover have "take (round_len - 8) (kdf_round s p c)
      @ to_le_bytes 8 (from_le_bytes (drop (round_len - 8) (kdf_round s p c)) + of_nat u) = kdf_round s p (c + u)" for c
    by (simp add: kdf_round_def assms from_to_le_bytes take_bit_word_eq_self)
  ultimately show ?thesis by (simp add: advance_rounds_def comp_def)
qed

lemma feed_batches_eq:
  assumes "round_len = length s + length p + 8"
  shows "feed_batches round_len u n (concat (map (kdf_round s p) [k..<k + u])) fed
    = fed @ concat (map (kdf_round s p) [k..<k + n * u])"
proof (induction n arbitrary: k fed)
  case (Suc n)
  have "map (\<lambda>c. kdf_round s p (c + u)) [k..<k + u] = map (kdf_round s p) [k + u..<k + u + u]"
    by (rule nth_equalityI) (simp_all add: add_ac)
  then have "feed_batches round_len u (Suc n) (concat (map (kdf_round s p) [k..<k + u])) fed
      = (fed @ concat (map (kdf_round s p) [k..<k + u])) @ concat (map (kdf_round s p) [k + u..<k + u + n * u])"
    by (simp add: advance_round [OF assms] Suc.IH)
  also have "\<dots> = fed @ concat (map (kdf_round s p) ([k..<k + u] @ [k + u..<k + u + n * u]))" by simp
  also have "[k..<k + u] @ [k + u..<k + u + n * u] = [k..<k + Suc n * u]"
    using upt_add_eq_append [of k "k + u" "n * u"] by (simp add: add_ac)
  finally show ?case .
qed simp

lemma kdf_batch_val: "KDF_BATCH_BYTES = 65536" "KDF_BATCH_BYTES < usize_max"
  by (simp_all add: KDF_BATCH_BYTES_def usize_max_def)

lemma lower_power_spec:
  assumes "round_len \<le> KDF_BATCH_BYTES"
  shows "\<exists>p \<le> n. lower_power round_len n = Inr p \<and> round_len * 2 ^ p \<le> KDF_BATCH_BYTES"
proof (induction n)
  case (Suc n)
  show ?case
  proof (cases "KDF_BATCH_BYTES div 2 ^ Suc n < round_len")
    case False
    then have "round_len * 2 ^ Suc n \<le> KDF_BATCH_BYTES div 2 ^ Suc n * 2 ^ Suc n"
      by (intro mult_le_mono1) simp
    also have "\<dots> \<le> KDF_BATCH_BYTES" by (rule div_times_less_eq_dividend)
    finally show ?thesis using False by auto
  qed (use Suc in \<open>auto intro: le_SucI\<close>)
qed (use assms in auto)

lemma kdf_unroll_power_spec:
  obtains "KDF_BATCH_BYTES < round_len" "kdf_unroll_power n round_len = Inr None"
  | p where "round_len \<le> KDF_BATCH_BYTES" "kdf_unroll_power n round_len = Inr (Some p)"
      "p \<le> n" "p \<le> 6" "round_len * 2 ^ p \<le> KDF_BATCH_BYTES"
proof (cases "KDF_BATCH_BYTES < round_len")
  case False
  then obtain p where "p \<le> min n KDF_UNROLL_POWER" "lower_power round_len (min n KDF_UNROLL_POWER) = Inr p"
      "round_len * 2 ^ p \<le> KDF_BATCH_BYTES"
    using lower_power_spec [of round_len "min n KDF_UNROLL_POWER"] by auto
  with False that show ?thesis by (auto simp: kdf_unroll_power_def KDF_UNROLL_POWER_def)
qed (use that in \<open>auto simp: kdf_unroll_power_def\<close>)

lemma feed_direct:
  "fold (\<lambda>c fed. fed @ s @ p @ to_le_bytes 8 (of_nat c)) cs fed = fed @ concat (map (kdf_round s p) cs)"
  by (induction cs arbitrary: fed) (auto simp: kdf_round_def)

lemma derive_key_with_eq: "derive_key_with sha n s p = Inr (sha (kdf_input s p (2 ^ n)))"
proof -
  let ?rl = "usize_saturating_add (usize_saturating_add (length s) (length p)) 8"
  show ?thesis
  proof (cases rule: kdf_unroll_power_spec [of ?rl n])
    case 1
    then show ?thesis by (simp add: derive_key_with_def feed_direct kdf_input_def)
  next
    case (2 u)
    from 2(1) kdf_batch_val have rl: "?rl = length s + length p + 8"
      by (auto simp: usize_saturating_add_def min_def split: if_splits)
    have "2 ^ (n - u) * 2 ^ u = (2 ^ n :: nat)" using 2(3) by (simp flip: power_add)
    with feed_batches_eq [OF rl, of "2 ^ u" "2 ^ (n - u)" 0 "[]"] 2(2) show ?thesis
      by (simp add: derive_key_with_def kdf_input_def)
  qed
qed

section \<open>What the cache keeps\<close>

definition key_for :: "(byte list \<Rightarrow> byte list) \<Rightarrow> byte list \<Rightarrow> key_id \<Rightarrow> byte list" where
  "key_for sha password k = sha (kdf_input (snd k) password (2 ^ unat (fst k)))"

definition entry_id :: "cached_key \<Rightarrow> key_id" where
  "entry_id e = (ck_power e, ck_salt e)"

definition holds_key :: "key_cache \<Rightarrow> key_id \<Rightarrow> bool" where
  "holds_key c k \<longleftrightarrow> k \<in> entry_id ` set (kc_entries c) \<or> k \<in> fst ` set (kc_retained c)"

text \<open>
  One of the two stores is in use, as the capacity says; neither is over it, neither holds an
  identity twice, the map is in order, and every key is the one its identity derives.
\<close>

definition cache_ok :: "(byte list \<Rightarrow> byte list) \<Rightarrow> byte list \<Rightarrow> key_cache \<Rightarrow> bool" where
  "cache_ok sha password c \<longleftrightarrow>
     (if KEY_CACHE_ENTRIES < cache_capacity c then kc_entries c = [] else kc_retained c = [])
     \<and> length (kc_entries c) \<le> cache_capacity c \<and> length (kc_retained c) \<le> cache_capacity c
     \<and> distinct (map entry_id (kc_entries c)) \<and> sorted_wrt (<) (map fst (kc_retained c))
     \<and> (\<forall>e \<in> set (kc_entries c). ck_key e = key_for sha password (entry_id e))
     \<and> (\<forall>(k, v) \<in> set (kc_retained c). v = key_for sha password k)"

lemma set_btree_insert:
  "sorted_wrt (<) (map fst m) \<Longrightarrow> set (btree_insert k v m) = insert (k, v) {x \<in> set m. fst x \<noteq> k}"
proof (induction m)
  case (Cons x m)
  obtain k' v' where x: "x = (k', v')" by force
  from Cons.prems x have above: "\<forall>y \<in> set m. k' < fst y" by simp
  consider "k < k'" | "k = k'" | "k' < k" by (rule linorder_cases)
  then show ?case
  proof cases
    case 1
    with above have "\<forall>y \<in> set m. fst y \<noteq> k" by (auto dest: less_trans)
    with 1 x show ?thesis by auto
  next
    case 2
    with above have "\<forall>y \<in> set m. fst y \<noteq> k" by auto
    with 2 x show ?thesis by auto
  next
    case 3
    with Cons x show ?thesis by auto
  qed
qed simp

lemma btree_insert_keys:
  "sorted_wrt (<) (map fst m) \<Longrightarrow> fst ` set (btree_insert k v m) = insert k (fst ` set m)"
  by (force simp: set_btree_insert)

lemma btree_insert_sorted:
  "sorted_wrt (<) (map fst m) \<Longrightarrow> sorted_wrt (<) (map fst (btree_insert k v m))"
proof (induction m)
  case (Cons x m)
  obtain k' v' where x: "x = (k', v')" by force
  from Cons.prems x have above: "\<forall>y \<in> fst ` set m. k' < y" and m: "sorted_wrt (<) (map fst m)" by auto
  consider "k < k'" | "k = k'" | "k' < k" by (rule linorder_cases)
  then show ?case
  proof cases
    case 1
    with above m x show ?thesis by (auto dest: less_trans)
  next
    case 2
    with above m x show ?thesis by auto
  next
    case 3
    from above 3 have "\<forall>y \<in> fst ` set (btree_insert k v m). k' < y" by (simp add: btree_insert_keys [OF m])
    with 3 Cons.IH [OF m] x show ?thesis by auto
  qed
qed simp

lemma btree_insert_length: "length (btree_insert k v m) \<le> Suc (length m)"
  by (induction m) auto

lemma pop_to_drop: "pop_to keep m = drop (length m - keep) m"
proof (induction keep m rule: pop_to.induct)
  case (1 keep m)
  then show ?case
    by (subst pop_to.simps, cases m) (auto simp: Suc_diff_le not_less)
qed

lemma cache_capacity_pos: "0 < cache_capacity c"
  by (simp add: cache_capacity_def KEY_CACHE_ENTRIES_def)

lemma cache_capacity_update [simp]:
  "cache_capacity (c\<lparr>kc_entries := es\<rparr>) = cache_capacity c"
  "cache_capacity (c\<lparr>kc_retained := m\<rparr>) = cache_capacity c"
  by (simp_all add: cache_capacity_def)

lemma cache_ok_default: "cache_ok sha pw key_cache_default"
  by (simp add: cache_ok_def key_cache_default_def cache_capacity_def)

lemma insert_entries_ok:
  assumes "sorted_wrt (<) (map fst m)" "\<forall>e \<in> set es. ck_key e = key_for sha pw (entry_id e)"
    "\<forall>(k, v) \<in> set m. v = key_for sha pw k"
  defines "m' \<equiv> fold (\<lambda>e. btree_insert (ck_power e, ck_salt e) (ck_key e)) es m"
  shows "sorted_wrt (<) (map fst m') \<and> (\<forall>(k, v) \<in> set m'. v = key_for sha pw k)"
  unfolding m'_def using assms(1-3)
proof (induction es arbitrary: m)
  case (Cons e es)
  let ?m = "btree_insert (ck_power e, ck_salt e) (ck_key e) m"
  have "\<forall>(k, v) \<in> set ?m. v = key_for sha pw k"
    using Cons.prems by (auto simp: set_btree_insert entry_id_def)
  from Cons.IH [OF btree_insert_sorted [OF Cons.prems(1)] _ this] Cons.prems(2) show ?case by simp
qed simp

lemma sorted_keys_distinct: "sorted_wrt (<) (ks :: 'a :: linorder list) \<Longrightarrow> distinct ks"
  by (induction ks) auto

lemma set_capacity_ok:
  assumes "cache_ok sha pw c"
  shows "cache_ok sha pw (set_capacity n c)"
proof (cases "KEY_CACHE_ENTRIES < cache_capacity (c\<lparr>kc_capacity := n\<rparr>)")
  case True
  let ?m = "fold (\<lambda>e. btree_insert (ck_power e, ck_salt e) (ck_key e)) (kc_entries c) (kc_retained c)"
  let ?k = "length ?m - cache_capacity (c\<lparr>kc_capacity := n\<rparr>)"
  have "sorted_wrt (<) (map fst ?m) \<and> (\<forall>(k, v) \<in> set ?m. v = key_for sha pw k)"
    by (rule insert_entries_ok) (use assms in \<open>auto simp: cache_ok_def\<close>)
  then have "sorted_wrt (<) (map fst (drop ?k ?m)) \<and> (\<forall>(k, v) \<in> set (drop ?k ?m). v = key_for sha pw k)"
    by (auto simp: drop_map [symmetric] sorted_wrt_drop dest!: in_set_dropD)
  then show ?thesis
    using True by (simp add: cache_ok_def set_capacity_def Let_def pop_to_drop)
next
  case False
  let ?new = "map (\<lambda>((p, s), k). \<lparr>ck_power = p, ck_salt = s, ck_key = k\<rparr>) (kc_retained c)"
  let ?es = "kc_entries c @ ?new"
  have ids: "map entry_id ?new = map fst (kc_retained c)"
    by (auto simp: entry_id_def split: prod.splits)
  have one: "kc_entries c = [] \<or> kc_retained c = []"
    using assms by (auto simp: cache_ok_def split: if_splits)
  have all: "distinct (map entry_id ?es)"
    using one assms ids by (auto simp: cache_ok_def sorted_keys_distinct simp del: map_map)
  have keys: "\<forall>e \<in> set ?es. ck_key e = key_for sha pw (entry_id e)"
    using assms by (auto simp: cache_ok_def entry_id_def split: prod.splits)
  have ok: "distinct (map entry_id (drop k ?es)) \<and> (\<forall>e \<in> set (drop k ?es). ck_key e = key_for sha pw (entry_id e))" for k
  proof
    from all show "distinct (map entry_id (drop k ?es))" unfolding drop_map [symmetric] by (rule distinct_drop)
    from keys show "\<forall>e \<in> set (drop k ?es). ck_key e = key_for sha pw (entry_id e)"
      by (blast dest: in_set_dropD)
  qed
  define keep where "keep = cache_capacity (c\<lparr>kc_capacity := n\<rparr>)"
  define es where "es = (if keep < length ?es then drop (length ?es - keep) ?es else ?es)"
  have es: "distinct (map entry_id es) \<and> (\<forall>e \<in> set es. ck_key e = key_for sha pw (entry_id e))"
  proof -
    have dropped: "es = drop (length ?es - keep) ?es" by (simp add: es_def)
    show ?thesis unfolding dropped by (rule ok)
  qed
  have len: "length es \<le> keep"
    unfolding es_def by (cases "keep < length ?es") (simp_all del: length_append drop_append)
  have eq: "set_capacity n c = c\<lparr>kc_capacity := n, kc_retained := [], kc_entries := es\<rparr>"
    using False by (simp add: set_capacity_def Let_def keep_def es_def)
  have "cache_capacity (set_capacity n c) = keep"
    by (simp add: eq keep_def cache_capacity_def)
  with False es len show ?thesis by (simp add: cache_ok_def eq keep_def)
qed

lemma position_Some: "position P xs = Some i \<Longrightarrow> i < length xs \<and> P (xs ! i)"
  by (induction xs arbitrary: i) (auto split: if_splits)

lemma position_None: "position P xs = None \<longleftrightarrow> (\<forall>x \<in> set xs. \<not> P x)"
  by (induction xs) auto

lemma move_to_end:
  assumes "i < length xs"
  defines "ys \<equiv> take i xs @ drop (Suc i) xs @ [xs ! i]"
  shows "set ys = set xs" "length ys = length xs" "distinct (map f ys) = distinct (map f xs)"
proof -
  have *: "set xs = set (take i xs @ xs ! i # drop (Suc i) xs)"
    "distinct (map f xs) = distinct (map f (take i xs @ xs ! i # drop (Suc i) xs))"
    using id_take_nth_drop [OF assms(1)] by simp_all
  show "set ys = set xs" "distinct (map f ys) = distinct (map f xs)"
    unfolding * ys_def by auto
  show "length ys = length xs" using assms(1) by (simp add: ys_def)
qed

lemma store_key_ok:
  assumes "cache_ok sha pw c" "\<not> holds_key c (p, s)" "key = key_for sha pw (p, s)"
  shows "cache_ok sha pw (store_key p s key c) \<and> holds_key (store_key p s key c) (p, s)
    \<and> kc_capacity (store_key p s key c) = kc_capacity c"
proof (cases "KEY_CACHE_ENTRIES < cache_capacity c")
  case True
  let ?m = "if length (kc_retained c) = cache_capacity c then pop_first (kc_retained c) else kc_retained c"
  have "pop_first m = drop 1 m" for m :: "(key_id \<times> byte list) list" by (cases m) auto
  then have m: "sorted_wrt (<) (map fst ?m)" "length ?m < cache_capacity c"
    "\<forall>(k, v) \<in> set ?m. v = key_for sha pw k"
    using assms(1) cache_capacity_pos [of c]
    by (auto simp: cache_ok_def drop_map [symmetric] sorted_wrt_drop dest!: in_set_dropD split: if_splits)
  show ?thesis
    using True assms(1,3) m btree_insert_length [of "(p, s)" key ?m]
    by (auto simp: store_key_def cache_ok_def holds_key_def btree_insert_sorted
        set_btree_insert btree_insert_keys)
next
  case False
  have es: "tl (kc_entries c) = drop 1 (kc_entries c)" by (simp add: drop_Suc)
  have "kc_entries c \<noteq> []" if "length (kc_entries c) = cache_capacity c"
    using that cache_capacity_pos [of c] by auto
  with False assms cache_capacity_pos [of c] show ?thesis
    by (auto simp: store_key_def cache_ok_def holds_key_def entry_id_def es
        drop_map [symmetric] dest!: in_set_dropD)
qed

lemma retained_lookup: "(if m \<noteq> [] then map_of m k else None) = map_of m k"
  by simp

text \<open>
  The contract of the derivation: the key is the one of the identity, a key the cache holds costs
  nothing, one it does not costs its rounds, which stay within the limit or are not spent.
\<close>

lemma derive_with_budget_spec:
  assumes ok: "cache_ok sha pw c" and cyc: "unat cyc < 64"
    and run: "derive_key_with_budget sha cyc s pw m (c, n) = (r, c', n')"
  shows "cache_ok sha pw c' \<and> kc_capacity c' = kc_capacity c \<and>
    (if holds_key c (cyc, s)
     then r = Inr (key_for sha pw (cyc, s)) \<and> n' = n \<and> (\<forall>k. holds_key c' k = holds_key c k)
     else if unat n + 2 ^ unat cyc \<le> unat m
     then r = Inr (key_for sha pw (cyc, s)) \<and> unat n' = unat n + 2 ^ unat cyc \<and> holds_key c' (cyc, s)
     else (\<exists>e. r = Inl e \<and> \<not> is_panic e) \<and> n' = n \<and> c' = c)"
proof -
  let ?P = "\<lambda>e. ck_power e = cyc \<and> ck_salt e = s"
  have held: "holds_key c (cyc, s) \<longleftrightarrow> (\<exists>e \<in> set (kc_entries c). ?P e) \<or> (cyc, s) \<in> fst ` set (kc_retained c)"
    by (auto simp: holds_key_def entry_id_def)
  show ?thesis
  proof (cases "map_of (kc_retained c) (cyc, s)")
    case (Some key)
    then have "(cyc, s) \<in> fst ` set (kc_retained c)" "kc_retained c \<noteq> []"
      by (auto dest: map_of_SomeD intro: rev_image_eqI)
    moreover have "key = key_for sha pw (cyc, s)" using ok Some by (auto simp: cache_ok_def dest: map_of_SomeD)
    ultimately show ?thesis using run Some ok held by (simp add: derive_key_with_budget_def retained_lookup)
  next
    case absent: None
    then have not_in: "(cyc, s) \<notin> fst ` set (kc_retained c)" by (simp add: map_of_eq_None_iff)
    show ?thesis
    proof (cases "position ?P (kc_entries c)")
      case (Some i)
      then have i: "i < length (kc_entries c)" "?P (kc_entries c ! i)" by (auto dest: position_Some)
      let ?es = "take i (kc_entries c) @ drop (Suc i) (kc_entries c) @ [kc_entries c ! i]"
      from run absent Some have r: "r = Inr (ck_key (kc_entries c ! i))" "n' = n" "c' = c\<lparr>kc_entries := ?es\<rparr>"
        by (auto simp: derive_key_with_budget_def retained_lookup Let_def simp del: map_of_eq_None_iff)
      have "ck_key (kc_entries c ! i) = key_for sha pw (cyc, s)"
        using ok i by (auto simp: cache_ok_def entry_id_def)
      moreover have "set ?es = set (kc_entries c)" "length ?es = length (kc_entries c)"
        "distinct (map entry_id ?es) = distinct (map entry_id (kc_entries c))"
        using move_to_end [OF i(1)] by blast+
      moreover have "holds_key c (cyc, s)" using i held by auto
      moreover have "?es = [] \<longleftrightarrow> kc_entries c = []" using i(1) by auto
      ultimately show ?thesis using ok r by (auto simp: cache_ok_def holds_key_def)
    next
      case None
      then have miss: "\<not> holds_key c (cyc, s)" using held not_in by (auto simp: position_None)
      let ?w = "push_bit (unat cyc) 1 :: u64"
      have w: "unat ?w = 2 ^ unat cyc" using cyc by (simp add: push_bit_eq_mult unat_exp)
      show ?thesis
      proof (cases "checked_add n ?w")
        case over: None
        then have "\<not> unat n + 2 ^ unat cyc \<le> unat m"
          using w unsigned_less [of m, where 'a = nat] by (auto simp: checked_add_None_iff)
        with run absent None over miss ok show ?thesis
          by (auto simp: derive_key_with_budget_def retained_lookup simp del: map_of_eq_None_iff)
      next
        case (Some k)
        then have k: "unat k = unat n + 2 ^ unat cyc" using w by (auto dest: checked_add_unat)
        show ?thesis
        proof (cases "m < k")
          case True
          with run absent None Some miss ok k show ?thesis
            by (auto simp: derive_key_with_budget_def retained_lookup word_less_nat_alt simp del: map_of_eq_None_iff)
        next
          case False
          with run absent None Some have r: "r = Inr (key_for sha pw (cyc, s))"
            "c' = store_key cyc s (key_for sha pw (cyc, s)) c" "n' = k"
            by (auto simp: derive_key_with_budget_def retained_lookup derive_key_with_eq key_for_def simp del: map_of_eq_None_iff)
          from False k have "unat n + 2 ^ unat cyc \<le> unat m" by (simp add: word_less_nat_alt)
          with store_key_ok [OF ok miss refl] r k miss show ?thesis by simp
        qed
      qed
    qed
  qed
qed

section \<open>A password and its copies\<close>

text \<open>
  The copies of a password share the cache and count their rounds apart: \<open>ps_spent\<close> has a counter
  for each copy. A step is a derivation by one copy, a clone of one or a change of the capacity.
\<close>

record password_state =
  ps_cache :: key_cache
  ps_spent :: "u64 list"

definition password_new :: password_state where
  "password_new = \<lparr>ps_cache = key_cache_default, ps_spent = [0]\<rparr>"

definition password_clone :: "password_state \<Rightarrow> password_state" where
  "password_clone st = st\<lparr>ps_spent := ps_spent st @ [0]\<rparr>"

definition with_aes_key_cache_capacity :: "nat \<Rightarrow> password_state \<Rightarrow> password_state" where
  "with_aes_key_cache_capacity n st = st\<lparr>ps_cache := set_capacity n (ps_cache st)\<rparr>"

definition derive_by ::
  "(byte list \<Rightarrow> byte list) \<Rightarrow> byte list \<Rightarrow> nat \<Rightarrow> aes_properties \<Rightarrow> u8 \<Rightarrow> u64 \<Rightarrow> password_state
     \<Rightarrow> byte list result \<times> password_state" where
  "derive_by sha password i p max_power max_rounds st =
     (case aes_derive sha p password max_power max_rounds (ps_cache st, ps_spent st ! i) of
        (r, c, n) \<Rightarrow> (r, \<lparr>ps_cache = c, ps_spent = (ps_spent st)[i := n]\<rparr>))"

inductive password_reach :: "(byte list \<Rightarrow> byte list) \<Rightarrow> byte list \<Rightarrow> password_state \<Rightarrow> bool"
  for sha :: "byte list \<Rightarrow> byte list" and password :: "byte list" where
  fresh: "password_reach sha password password_new"
| clone: "password_reach sha password st \<Longrightarrow> password_reach sha password (password_clone st)"
| capacity: "password_reach sha password st \<Longrightarrow>
    password_reach sha password (with_aes_key_cache_capacity n st)"
| derive: "password_reach sha password st \<Longrightarrow> i < length (ps_spent st) \<Longrightarrow> aes_parse ps = Inr p \<Longrightarrow>
    derive_by sha password i p max_power max_rounds st = (r, st') \<Longrightarrow> password_reach sha password st'"

definition pure_key :: "(byte list \<Rightarrow> byte list) \<Rightarrow> byte list \<Rightarrow> aes_properties \<Rightarrow> byte list" where
  "pure_key sha password p =
     (if ap_cycles_power p = 63
      then take 32 (aes_salt p @ password @ replicate 32 0)
      else key_for sha password (ap_cycles_power p, aes_salt p))"

lemma length_zero_extended: "length bs \<le> 16 \<Longrightarrow> length (zero_extended bs) = 16"
  by (simp add: zero_extended_def)

lemma u8_sums:
  fixes b c :: u8
  shows "unat ((drop_bit 7 b AND 1) + drop_bit 4 c) \<le> 16" "unat ((drop_bit 6 b AND 1) + (c AND 15)) \<le> 16"
proof -
  have add: "unat (x + y) \<le> unat x + unat y" for x y :: u8 by (simp add: unat_word_ariths)
  have one: "unat (w AND 1) \<le> 1" for w :: u8
    using word_and_le1 [of w 1] by (simp add: word_le_nat_alt)
  have low: "unat (c AND 15) \<le> 15" using word_and_le1 [of c 15] by (simp add: word_le_nat_alt)
  have high: "unat (drop_bit 4 c) \<le> 15"
    using unsigned_less [of c, where 'a = nat] by (simp add: drop_bit_eq_div unat_div)
  show "unat ((drop_bit 7 b AND 1) + drop_bit 4 c) \<le> 16" "unat ((drop_bit 6 b AND 1) + (c AND 15)) \<le> 16"
    using add [of "drop_bit 7 b AND 1" "drop_bit 4 c"] add [of "drop_bit 6 b AND 1" "c AND 15"]
      one [of "drop_bit 7 b"] one [of "drop_bit 6 b"] low high by linarith+
qed

lemma aes_parse_wf:
  assumes "aes_parse ps = Inr p"
  shows "length (ap_salt p) = 16 \<and> length (ap_iv p) = 16 \<and> unat (ap_salt_len p) \<le> 16
    \<and> unat (ap_cycles_power p) < 64"
proof -
  obtain b0 rest where ps: "ps = b0 # rest" using assms by (cases ps) (auto simp: aes_parse_def)
  define b1 where "b1 = (case get ps 1 of Some b \<Rightarrow> b | None \<Rightarrow> 0)"
  define il where "il = unat ((drop_bit 6 b0 AND 1) + (b1 AND 15))"
  define sl where "sl = unat ((drop_bit 7 b0 AND 1) + drop_bit 4 b1)"
  have le: "sl \<le> 16" "il \<le> 16" unfolding sl_def il_def by (rule u8_sums)+
  have p: "p = \<lparr>ap_cycles_power = b0 AND 63, ap_salt = zero_extended (take sl (drop 2 ps)),
      ap_salt_len = of_nat sl, ap_iv = zero_extended (take il (drop (2 + sl) ps))\<rparr>"
    using assms unfolding aes_parse_def ps list.case Let_def b1_def [unfolded ps, symmetric]
      il_def [symmetric] sl_def [symmetric] by (simp split: if_splits)
  have "unat (b0 AND 63) \<le> 63" using word_and_le1 [of b0 63] by (simp add: word_le_nat_alt)
  moreover have "unat (of_nat sl :: u8) = sl"
    using le(1) by (simp add: unsigned_of_nat take_bit_nat_eq_self)
  ultimately show ?thesis
    using le by (simp add: p length_zero_extended min.coboundedI2)
qed

lemma aes_derive_spec:
  assumes ok: "cache_ok sha pw c" and wf: "length (ap_salt p) = 16" "unat (ap_salt_len p) \<le> 16"
    "unat (ap_cycles_power p) < 64"
    and run: "aes_derive sha p pw mp mr (c, n) = (r, c', n')"
  shows "cache_ok sha pw c' \<and> kc_capacity c' = kc_capacity c
    \<and> (\<forall>key. r = Inr key \<longrightarrow> pw \<noteq> [] \<and> key = pure_key sha pw p) \<and> no_panic r
    \<and> (n' = n \<or> unat n' = unat n + 2 ^ unat (ap_cycles_power p) \<and> n' \<le> mr)"
proof (cases "pw = [] \<or> ap_cycles_power p = 63 \<or> min mp MAX_AES_CYCLES_POWER < ap_cycles_power p")
  case True
  have "length (aes_salt p) \<le> 16" using wf by (simp add: aes_salt_def)
  moreover from this have "take n (replicate 32 0 :: byte list) = replicate (min n 32) 0" for n
    by (simp add: take_replicate)
  ultimately show ?thesis
    using run ok True by (auto simp: aes_derive_def pure_key_def Let_def min_def is_panic_def split: if_splits)
next
  case False
  with run have "derive_key_with_budget sha (ap_cycles_power p) (aes_salt p) pw mr (c, n) = (r, c', n')"
    by (auto simp: aes_derive_def Let_def)
  from derive_with_budget_spec [OF ok wf(3) this] False show ?thesis
    by (auto simp: pure_key_def word_le_nat_alt split: if_splits)
qed

lemma password_reach_ok: "password_reach sha pw st \<Longrightarrow> cache_ok sha pw (ps_cache st)"
proof (induction rule: password_reach.induct)
  case (derive st i ps p mp mr r st')
  obtain c n where "aes_derive sha p pw mp mr (ps_cache st, ps_spent st ! i) = (r, c, n)" "ps_cache st' = c"
    using derive.hyps(4) by (auto simp: derive_by_def split: prod.splits)
  with derive aes_parse_wf [OF derive.hyps(3)] show ?case using aes_derive_spec by blast
qed (auto simp: password_new_def password_clone_def with_aes_key_cache_capacity_def cache_ok_default set_capacity_ok)

text \<open>A derivation after any history.\<close>

lemma derive_by_pure:
  assumes "password_reach sha password st" "aes_parse ps = Inr p" "i < length (ps_spent st)"
    and "derive_by sha password i p max_power max_rounds st = (r, st')"
  shows "no_panic r \<and> (case r of Inl e \<Rightarrow> True | Inr key \<Rightarrow> password \<noteq> [] \<and> key = pure_key sha password p)
    \<and> (ps_spent st' = ps_spent st \<or> (\<exists>n. ps_spent st' = (ps_spent st)[i := n] \<and> n \<le> max_rounds
        \<and> unat n = unat (ps_spent st ! i) + 2 ^ unat (ap_cycles_power p)))"
proof -
  obtain c n where run: "aes_derive sha p password max_power max_rounds (ps_cache st, ps_spent st ! i) = (r, c, n)"
      and st': "ps_spent st' = (ps_spent st)[i := n]"
    using assms(4) by (auto simp: derive_by_def split: prod.splits)
  have wf: "length (ap_salt p) = 16" "unat (ap_salt_len p) \<le> 16" "unat (ap_cycles_power p) < 64"
    using aes_parse_wf [OF assms(2)] by auto
  from aes_derive_spec [OF password_reach_ok [OF assms(1)] wf run] st' show ?thesis
    by (auto split: sum.split)
qed

end
