(* ===== verification/Encoder_Options.thy ===== *)
theory Encoder_Options
  imports Key_Derivation
begin

text \<open>
  What a caller asks of an encoder and what the archive records of it
  (\<^verbatim>\<open>src/src/encoder_options.rs\<close>, the option handling and thread plans of
  \<^verbatim>\<open>src/src/encoder.rs\<close>): the settings with their clamps, the dictionary a folder of a known size
  gets, the threads a chain keeps busy, and the property bytes written for each coder. The
  features \<^verbatim>\<open>compress\<close>, \<^verbatim>\<open>aes256\<close>, \<^verbatim>\<open>bzip2\<close>, \<^verbatim>\<open>ppmd\<close>, \<^verbatim>\<open>brotli\<close>, \<^verbatim>\<open>deflate\<close>, \<^verbatim>\<open>lz4\<close> and
  \<^verbatim>\<open>zstd\<close> are on, the target is 64-bit and has threads.
\<close>

section \<open>LZMA settings\<close>

definition u32_clamp :: "u32 \<Rightarrow> u32 \<Rightarrow> u32 \<Rightarrow> u32" where
  "u32_clamp x lo hi = (if x < lo then lo else if hi < x then hi else x)"

definition DICT_SIZE_MIN :: u32 where "DICT_SIZE_MIN = 4096"
definition DICT_SIZE_MAX :: u32 where "DICT_SIZE_MAX = 4294967280"
definition NICE_LEN_MIN :: u32 where "NICE_LEN_MIN = 8"
definition NICE_LEN_MAX :: u32 where "NICE_LEN_MAX = 273"

definition LEVEL_DICT_SIZE :: "u32 list" where
  "LEVEL_DICT_SIZE = [2 ^ 18, 2 ^ 20, 2 ^ 21, 2 ^ 22, 2 ^ 22, 2 ^ 23, 2 ^ 23, 2 ^ 24, 2 ^ 25, 2 ^ 26]"

definition LEVEL_NICE_LEN :: "u32 list" where
  "LEVEL_NICE_LEN = [128, 128, 273, 273, 16, 32, 64, 64, 64, 64]"

definition LEVEL_DEPTH :: "u32 list" where "LEVEL_DEPTH = [4, 8, 24, 48]"

text \<open>
  The fields are private and \<open>settings_from_level\<close> makes every value, so the level is at most nine
  and indexes the tables above.
\<close>

record lzma_settings =
  ls_level :: u32
  ls_dict_size :: "u32 option"
  ls_nice_len :: "u32 option"
  ls_input_size :: "u64 option"

definition settings_from_level :: "u32 \<Rightarrow> lzma_settings" where
  "settings_from_level level = \<lparr>ls_level = (if 9 < level then 9 else level), ls_dict_size = None,
     ls_nice_len = None, ls_input_size = None\<rparr>"

definition ls_fast :: "lzma_settings \<Rightarrow> bool" where
  "ls_fast s \<longleftrightarrow> ls_level s \<le> 3"

definition hash_chain_depth :: "lzma_settings \<Rightarrow> u32 option" where
  "hash_chain_depth s = (if ls_fast s then Some (LEVEL_DEPTH ! unat (ls_level s)) else None)"

definition set_dict_size :: "u32 \<Rightarrow> lzma_settings \<Rightarrow> lzma_settings" where
  "set_dict_size d s = s\<lparr>ls_dict_size := Some (u32_clamp d DICT_SIZE_MIN DICT_SIZE_MAX)\<rparr>"

definition set_nice_len :: "u32 \<Rightarrow> lzma_settings \<Rightarrow> lzma_settings" where
  "set_nice_len n s = s\<lparr>ls_nice_len := Some (u32_clamp n NICE_LEN_MIN NICE_LEN_MAX)\<rparr>"

definition requested_dict_size :: "lzma_settings \<Rightarrow> u32" where
  "requested_dict_size s = (case ls_dict_size s of
      Some d \<Rightarrow> d | None \<Rightarrow> LEVEL_DICT_SIZE ! unat (ls_level s))"

definition dict_size :: "lzma_settings \<Rightarrow> u32" where
  "dict_size s = (let d = requested_dict_size s in case ls_input_size s of
      Some n \<Rightarrow> if n < ucast d then min d (max (ucast n) DICT_SIZE_MIN) else d
    | None \<Rightarrow> d)"

definition set_input_size :: "u64 \<Rightarrow> lzma_settings \<Rightarrow> lzma_settings" where
  "set_input_size n s = s\<lparr>ls_input_size := Some n\<rparr>"

definition nice_len :: "lzma_settings \<Rightarrow> u32" where
  "nice_len s = (case ls_nice_len s of
      Some n \<Rightarrow> n | None \<Rightarrow> LEVEL_NICE_LEN ! unat (ls_level s))"

definition match_finder_threads :: "lzma_settings \<Rightarrow> u32 \<Rightarrow> u32" where
  "match_finder_threads s threads = (if \<not> ls_fast s \<and> 1 < threads then 2 else 1)"

definition props_byte :: u8 where "props_byte = (2 * 5 + 0) * 9 + 3"

section \<open>The options of each coder\<close>

record lzma2_options =
  lo_settings :: lzma_settings
  lo_threads :: u32
  lo_chunk_size :: "u64 option"

definition lzma2_from_level :: "u32 \<Rightarrow> lzma2_options" where
  "lzma2_from_level level = \<lparr>lo_settings = settings_from_level level, lo_threads = 1, lo_chunk_size = None\<rparr>"

definition lzma2_from_level_mt :: "u32 \<Rightarrow> u32 \<Rightarrow> u64 \<Rightarrow> lzma2_options" where
  "lzma2_from_level_mt level threads chunk =
     \<lparr>lo_settings = settings_from_level level, lo_threads = threads, lo_chunk_size = Some (max chunk 1)\<rparr>"

definition lzma_options_default :: lzma_settings where
  "lzma_options_default = settings_from_level 6"

definition lzma2_options_default :: lzma2_options where
  "lzma2_options_default = lzma2_from_level 6"

definition lo_block_size :: "lzma2_options \<Rightarrow> u64 option" where
  "lo_block_size o' = map_option (\<lambda>chunk. max chunk (ucast (dict_size (lo_settings o')))) (lo_chunk_size o')"

record bzip2_options =
  bz_level :: u32
  bz_threads :: u32
  bz_block_size :: "u32 option"
  bz_passes :: "u32 option"

definition bzip2_from_level :: "u32 \<Rightarrow> bzip2_options" where
  "bzip2_from_level level = \<lparr>bz_level = level, bz_threads = 1, bz_block_size = None, bz_passes = None\<rparr>"

definition bzip2_from_level_mt :: "u32 \<Rightarrow> u32 \<Rightarrow> bzip2_options" where
  "bzip2_from_level_mt level threads = (bzip2_from_level level)\<lparr>bz_threads := threads\<rparr>"

definition MINIMAL_SKIPPABLE_FRAME_SIZE :: u32 where "MINIMAL_SKIPPABLE_FRAME_SIZE = 64 * 1024"
definition DEFAULT_SKIPPABLE_FRAME_SIZE :: u32 where "DEFAULT_SKIPPABLE_FRAME_SIZE = 128 * 1024"

definition skippable_frame :: "u32 \<Rightarrow> u32" where
  "skippable_frame n = (if n = 0 then 0 else max n MINIMAL_SKIPPABLE_FRAME_SIZE)"

record brotli_options =
  br_quality :: u32
  br_window :: u32
  br_skippable_frame_size :: u32

definition from_quality_window :: "u32 \<Rightarrow> u32 \<Rightarrow> brotli_options" where
  "from_quality_window quality window =
     \<lparr>br_quality = (if 11 < quality then 11 else quality), br_window = (if 24 < window then 24 else window),
      br_skippable_frame_size = DEFAULT_SKIPPABLE_FRAME_SIZE\<rparr>"

definition brotli_with_frame :: "u32 \<Rightarrow> brotli_options \<Rightarrow> brotli_options" where
  "brotli_with_frame n o' = o'\<lparr>br_skippable_frame_size := skippable_frame n\<rparr>"

definition brotli_default :: brotli_options where
  "brotli_default = \<lparr>br_quality = 11, br_window = 22, br_skippable_frame_size = DEFAULT_SKIPPABLE_FRAME_SIZE\<rparr>"

definition delta_from_distance :: "u32 \<Rightarrow> u32" where
  "delta_from_distance d = (if d = 0 then 1 else if 256 < d then 256 else d)"

definition deflate_from_level :: "u32 \<Rightarrow> u32" where
  "deflate_from_level level = (if 9 < level then 9 else level)"

definition zstd_from_level :: "u32 \<Rightarrow> u32" where
  "zstd_from_level level = (if 22 < level then 22 else level)"

record ppmd_options =
  pm_order :: u32
  pm_memory_size :: u32

definition PPMD_ORDERS :: "u32 list" where "PPMD_ORDERS = [3, 4, 4, 5, 5, 6, 8, 16, 24, 32]"

definition ppmd_from_level :: "u32 \<Rightarrow> ppmd_options" where
  "ppmd_from_level l =
     (let level = (if 9 < l then 9 else l)
      in \<lparr>pm_order = PPMD_ORDERS ! unat level, pm_memory_size = push_bit (unat (level + 19)) 1\<rparr>)"

record aes_options =
  ao_password :: "byte list"
  ao_iv :: "byte list"
  ao_salt :: "byte list"
  ao_num_cycles_power :: u8

definition DEFAULT_NUM_CYCLES_POWER :: u8 where "DEFAULT_NUM_CYCLES_POWER = 19"
definition RAW_KEY_POWER :: u8 where "RAW_KEY_POWER = 0x3F"

definition checked_num_cycles_power :: "aes_options \<Rightarrow> u8 result" where
  "checked_num_cycles_power o' =
     (let cycles = ao_num_cycles_power o' in
      if MAX_AES_CYCLES_POWER < cycles \<and> cycles \<noteq> RAW_KEY_POWER
      then Inl (LimitExceeded AesCyclesPower (ucast MAX_AES_CYCLES_POWER) (ucast cycles))
      else Inr cycles)"

text \<open>The salt and the initialization vector are arrays of sixteen bytes.\<close>

definition aes_properties_of :: "aes_options \<Rightarrow> byte list" where
  "aes_properties_of o' =
     ((ao_num_cycles_power o' AND 0x3F) OR 0xC0) # 0xFF # ao_salt o' @ ao_iv o'"

datatype encoder_options =
    OptDelta u32
  | OptLzma lzma_settings
  | OptLzma2 lzma2_options
  | OptBrotli brotli_options
  | OptBzip2 bzip2_options
  | OptDeflate u32
  | OptLz4 u32
  | OptPpmd ppmd_options
  | OptZstd u32
  | OptAes aes_options

definition get_lzma_dict_size :: "encoder_options \<Rightarrow> u32" where
  "get_lzma_dict_size o' = (case o' of
      OptLzma s \<Rightarrow> dict_size s | OptLzma2 l \<Rightarrow> dict_size (lo_settings l) | _ \<Rightarrow> 0)"

record encoder_configuration =
  ec_method :: encoder_method
  ec_options :: "encoder_options option"

definition ec_id :: "encoder_configuration \<Rightarrow> byte list" where
  "ec_id mc = snd (ec_method mc)"

definition lzma_settings_of :: "encoder_configuration \<Rightarrow> lzma_settings" where
  "lzma_settings_of mc = (case ec_options mc of Some (OptLzma s) \<Rightarrow> s | _ \<Rightarrow> lzma_options_default)"

definition lzma2_options_of :: "encoder_configuration \<Rightarrow> lzma2_options" where
  "lzma2_options_of mc = (case ec_options mc of Some (OptLzma2 l) \<Rightarrow> l | _ \<Rightarrow> lzma2_options_default)"

text \<open>An LZMA or LZMA2 coder told the size of its folder.\<close>

definition sized_for :: "u64 \<Rightarrow> encoder_configuration \<Rightarrow> encoder_configuration option" where
  "sized_for n mc =
     (if ec_id mc = ID_LZMA then
        Some (mc\<lparr>ec_options := Some (OptLzma (set_input_size n (lzma_settings_of mc)))\<rparr>)
      else if ec_id mc = ID_LZMA2 then
        let l = lzma2_options_of mc
        in Some (mc\<lparr>ec_options := Some (OptLzma2 (l\<lparr>lo_settings := set_input_size n (lo_settings l)\<rparr>))\<rparr>)
      else None)"

section \<open>Property bytes\<close>

definition lzma2_property_for :: "u32 \<Rightarrow> u8" where
  "lzma2_property_for dict =
     (case find (\<lambda>prop. case lzma2_dictionary_size [of_nat prop] of Inl _ \<Rightarrow> False | Inr d \<Rightarrow> dict \<le> d) [0..<41] of
        Some prop \<Rightarrow> of_nat prop | None \<Rightarrow> 40)"

definition BCJ2_SIDE_DICT_SIZE :: u32 where "BCJ2_SIDE_DICT_SIZE = 2 ^ 20"

definition bcj2_side_properties :: "byte list" where
  "bcj2_side_properties = ((2 * 5 + 2) * 9 + 0) # write_u32 BCJ2_SIDE_DICT_SIZE"

text \<open>
  The versions are those of the linked \<^verbatim>\<open>brotli\<close> and \<^verbatim>\<open>zstd\<close> libraries.
\<close>

record codec_versions =
  cv_brotli :: u8
  cv_zstd_major :: u32
  cv_zstd_minor :: u32

definition get_options_as_properties :: "codec_versions \<Rightarrow> encoder_configuration \<Rightarrow> byte list" where
  "get_options_as_properties vs mc =
     (let mid = ec_id mc in
      if mid = ID_DELTA then
        let d = (case ec_options mc of Some (OptDelta d) \<Rightarrow> d | _ \<Rightarrow> 1)
        in [ucast (if d = 0 then 0 else d - 1)]
      else if mid = ID_LZMA2 then [lzma2_property_for (dict_size (lo_settings (lzma2_options_of mc)))]
      else if mid = ID_LZMA then props_byte # write_u32 (dict_size (lzma_settings_of mc))
      else if mid = ID_PPMD then
        let p = (case ec_options mc of Some (OptPpmd p) \<Rightarrow> p | _ \<Rightarrow> ppmd_from_level 6)
        in ucast (pm_order p) # write_u32 (pm_memory_size p)
      else if mid = ID_BROTLI then
        let b = (case ec_options mc of Some (OptBrotli b) \<Rightarrow> b | _ \<Rightarrow> brotli_default)
        in [cv_brotli vs, 0, ucast (br_quality b)]
      else if mid = ID_LZ4 then [1, 0, 3]
      else if mid = ID_ZSTD then
        let z = (case ec_options mc of Some (OptZstd z) \<Rightarrow> z | _ \<Rightarrow> 3)
        in [ucast (cv_zstd_major vs), ucast (cv_zstd_minor vs), ucast z]
      else if mid = ID_AES256_SHA256 then
        (case ec_options mc of Some (OptAes a) \<Rightarrow> aes_properties_of a | _ \<Rightarrow> [])
      else [])"

section \<open>Threads\<close>

definition lzma2_fits_one_block :: "lzma2_options \<Rightarrow> bool" where
  "lzma2_fits_one_block o' \<longleftrightarrow> (case lo_block_size o' of
      None \<Rightarrow> False
    | Some block \<Rightarrow> (case ls_input_size (lo_settings o') of None \<Rightarrow> False | Some n \<Rightarrow> n \<le> block))"

text \<open>The block size, \<open>None\<close> for \<^verbatim>\<open>BLOCK_SIZE_SOLID\<close>, and the block threads of the coder.\<close>

definition lzma2_block_plan :: "lzma2_options \<Rightarrow> u64 option \<times> nat" where
  "lzma2_block_plan o' = (case lo_block_size o' of
      None \<Rightarrow> (None, 1)
    | Some block \<Rightarrow>
        if lo_threads o' \<le> 1 then (None, 1)
        else if lzma2_fits_one_block o' then (Some block, 1)
        else
          let per_block = match_finder_threads (lo_settings o') (lo_threads o');
              blocks = max (unat (lo_threads o') div unat per_block) 1
          in (Some block, case ls_input_size (lo_settings o') of
                None \<Rightarrow> blocks
              | Some n \<Rightarrow> min blocks (max (div_ceil (unat n) (unat block)) 1)))"

definition coder_threads :: "encoder_configuration \<Rightarrow> u32" where
  "coder_threads mc = (case (ec_id mc = ID_BZIP2, ec_options mc) of
      (True, Some (OptBzip2 b)) \<Rightarrow> if bz_threads b \<le> 1 then 0 else min (bz_threads b) 64
    | (_, opts) \<Rightarrow>
        (case (ec_id mc = ID_LZMA2, opts) of
           (True, Some (OptLzma2 l)) \<Rightarrow> of_nat (snd (lzma2_block_plan l))
         | _ \<Rightarrow> if ec_id mc = ID_LZMA \<or> ec_id mc = ID_LZMA2 then 1 else 0))"

definition compresses :: "byte list \<Rightarrow> bool" where
  "compresses mid \<longleftrightarrow> mid \<in> {ID_LZMA, ID_LZMA2, ID_PPMD, ID_BZIP2, ID_DEFLATE, ID_BROTLI, ID_ZSTD, ID_LZ4}"

definition u32_saturating_add :: "u32 \<Rightarrow> u32 \<Rightarrow> u32" where
  "u32_saturating_add a b = (if a + b < a then - 1 else a + b)"

definition folder_threads :: "encoder_configuration list \<Rightarrow> u32" where
  "folder_threads mcs =
     (let own = fold (\<lambda>mc acc. u32_saturating_add acc (coder_threads mc)) mcs 0 in
      if own = 0 then 1
      else u32_saturating_add own
        (if \<exists>mc \<in> set mcs. coder_threads mc = 0 \<and> compresses (ec_id mc) then 1 else 0))"

definition one_thread :: "encoder_configuration \<Rightarrow> encoder_configuration" where
  "one_thread mc = (case ec_options mc of
      Some (OptLzma2 l) \<Rightarrow>
        if 1 < lo_threads l then mc\<lparr>ec_options := Some (OptLzma2 (l\<lparr>lo_threads := 1\<rparr>))\<rparr> else mc
    | Some (OptBzip2 b) \<Rightarrow>
        if 1 < bz_threads b then mc\<lparr>ec_options := Some (OptBzip2 (b\<lparr>bz_threads := 1\<rparr>))\<rparr> else mc
    | _ \<Rightarrow> mc)"

definition one_thread_each :: "encoder_configuration list \<Rightarrow> encoder_configuration list" where
  "one_thread_each mcs = map one_thread mcs"

definition validate_lzma_dictionary_size :: "u32 \<Rightarrow> unit result" where
  "validate_lzma_dictionary_size dict =
     (let max_dict_size = 2 ^ 30 - 1 in
      if dict < DICT_SIZE_MIN \<or> max_dict_size < dict
      then Inl (Io (IoForeign InvalidInput 0) '''') else Inr ())"

section \<open>A folder's methods\<close>

definition sized_methods :: "encoder_configuration list \<Rightarrow> u64 option \<Rightarrow> encoder_configuration list" where
  "sized_methods methods sz = (case sz of
      None \<Rightarrow> methods
    | Some n \<Rightarrow> if \<forall>mc \<in> set methods. sized_for n mc = None then methods
               else map (\<lambda>mc. case sized_for n mc of Some mc' \<Rightarrow> mc' | None \<Rightarrow> mc) methods)"

text \<open>
  Every AES coder gets the next initialization vector the random source gives; the source may fail.
\<close>

fun fresh_ivs :: "(error + byte list) list \<Rightarrow> encoder_configuration list \<Rightarrow> encoder_configuration list result" where
  "fresh_ivs ivs [] = Inr []"
| "fresh_ivs ivs (mc # mcs) = (case ec_options mc of
      Some (OptAes a) \<Rightarrow>
        (case ivs of
           [] \<Rightarrow> Inl (Io (IoForeign OtherKind 0) ''AES IV'')
         | Inl e # _ \<Rightarrow> Inl e
         | Inr iv # ivs \<Rightarrow>
             bindE (fresh_ivs ivs mcs) (\<lambda>mcs.
               Inr (mc\<lparr>ec_options := Some (OptAes (a\<lparr>ao_iv := iv\<rparr>))\<rparr> # mcs)))
    | _ \<Rightarrow> bindE (fresh_ivs ivs mcs) (\<lambda>mcs. Inr (mc # mcs)))"

definition folder_methods ::
  "(error + byte list) list \<Rightarrow> encoder_configuration list \<Rightarrow> u64 option \<Rightarrow> encoder_configuration list result" where
  "folder_methods ivs methods sz = fresh_ivs ivs (sized_methods methods sz)"

fun declared_total :: "archive_entry list \<Rightarrow> u64 \<Rightarrow> u64 option" where
  "declared_total [] acc = (if 0 < acc then Some acc else None)"
| "declared_total (e # es) acc =
     (if ae_size e = 0 then None else declared_total es (saturating_add acc (ae_size e)))"

definition declared_size :: "archive_entry list \<Rightarrow> u64 option" where
  "declared_size es = declared_total (filter (\<lambda>e. \<not> ae_is_directory e) es) 0"

definition OUTPUT_BUF_LEN :: nat where "OUTPUT_BUF_LEN = 256 * 1024"

definition next_power_of_two :: "nat \<Rightarrow> nat" where
  "next_power_of_two n = (case find (\<lambda>k. n \<le> 2 ^ k) [0..<64] of Some k \<Rightarrow> 2 ^ k | None \<Rightarrow> 0)"

definition output_buffer_len :: "u64 option \<Rightarrow> nat" where
  "output_buffer_len sz = (case sz of
      None \<Rightarrow> OUTPUT_BUF_LEN
    | Some n \<Rightarrow> next_power_of_two (max 4096 (min (unat n) OUTPUT_BUF_LEN)))"

definition check_bcj2_methods :: "encoder_configuration list \<Rightarrow> nat \<Rightarrow> unit result" where
  "check_bcj2_methods methods index =
     (if index + 1 \<noteq> length methods
      then Inl (Unsupported ''BCJ2 must be the last content method: it is the first coder the data meets'')
      else if index = 0
      then Inl (Unsupported ''BCJ2 needs a coder for its main stream before it in the content methods'')
      else if \<exists>mc \<in> set methods. ec_id mc = ID_AES256_SHA256
      then Inl (Unsupported ''BCJ2 cannot be combined with AES-256 encryption when writing'')
      else Inr ())"

section \<open>The dictionary a decoder is told of\<close>

lemma lzma2_property_for_spec:
  fixes d :: u32
  defines "q \<equiv> unat (lzma2_property_for d)"
  shows "q \<le> 40 \<and> unat d \<le> lzma2_dictionary32 q \<and> (\<forall>j < q. lzma2_dictionary32 j < unat d)"
proof -
  define P where "P = (\<lambda>prop. case lzma2_dictionary_size [of_nat prop] of Inl _ \<Rightarrow> False | Inr x \<Rightarrow> d \<le> x)"
  have cand: "P k \<longleftrightarrow> unat d \<le> lzma2_dictionary32 k" if "k \<le> 40" for k
  proof -
    from that have "k \<in> set [0..<41]" by simp
    then have "lzma2_dictionary_size [of_nat k] = Inr (of_nat (lzma2_dictionary32 k))"
      using lzma2_dictionary_size_small by blast
    then show ?thesis by (simp add: P_def word_le_nat_alt unat_dictionary32)
  qed
  have "unat d \<le> lzma2_dictionary32 40"
    using unsigned_less [of d, where 'a = nat] by (simp add: lzma2_dictionary32_def lzma2_dictionary_def)
  with cand have "P 40" by simp
  then obtain c where c: "find P [0..<41] = Some c" by (cases "find P [0..<41]") (auto simp: find_None_iff)
  then obtain i where i: "c \<le> 40" "P c" "\<forall>j < c. \<not> P j"
    by (auto simp: find_Some_iff simp del: upt_Suc)
  have "lzma2_property_for d = of_nat c" using c by (simp add: lzma2_property_for_def P_def del: upt_Suc)
  moreover have "unat (of_nat c :: u8) = c" using i(1) by (simp add: unsigned_of_nat take_bit_nat_eq_self)
  ultimately have q: "q = c" by (simp add: q_def)
  have "lzma2_dictionary32 j < unat d" if "j < c" for j
    using i(1,3) that cand [of j] by (auto simp: not_le)
  with q i(1) cand [of c] i(2) show ?thesis by auto
qed

lemma written_lzma2: "ec_id mc = ID_LZMA2 \<Longrightarrow> get_options_as_properties vs mc
    = [lzma2_property_for (dict_size (lo_settings (lzma2_options_of mc)))]"
  by (simp add: get_options_as_properties_def method_id_defs)

lemma written_lzma: "ec_id mc = ID_LZMA \<Longrightarrow> get_options_as_properties vs mc
    = props_byte # write_u32 (dict_size (lzma_settings_of mc))"
  by (simp add: get_options_as_properties_def method_id_defs)

lemma lzma_written_dictionary: "lzma_dictionary_size (props_byte # write_u32 d) = Inr d"
proof -
  obtain a b c e where w: "to_le_bytes 4 (ucast d) = [a, b, c, e]"
    using length_to_le_bytes [of 4 "ucast d"] by (auto simp: length_Suc_conv eval_nat_numeral)
  have "from_le_bytes [a, b, c, e] = ucast d"
    unfolding w [symmetric] from_to_le_bytes
    by (rule bit_eqI) (auto simp: bit_simps dest: bit_imp_le_length)
  moreover have "ucast (ucast d :: u64) = d"
    by (rule bit_eqI) (auto simp: bit_simps dest: bit_imp_le_length)
  ultimately show ?thesis
    by (simp add: lzma_dictionary_size_def write_u32_def w props_u32_def props_byte_def)
qed

lemma dict_size_bounds:
  "dict_size s \<le> requested_dict_size s"
  "ls_input_size s = Some n \<Longrightarrow> min (unat (requested_dict_size s)) (unat n) \<le> unat (dict_size s)"
  "4096 \<le> requested_dict_size s \<Longrightarrow> 4096 \<le> dict_size s"
proof -
  have u: "unat (ucast d :: u64) = unat d" for d :: u32
    using unsigned_less [of d, where 'a = nat] by (simp add: unsigned_ucast_eq take_bit_nat_eq_self)
  show "dict_size s \<le> requested_dict_size s"
    by (auto simp: dict_size_def Let_def split: option.splits)
  show "4096 \<le> requested_dict_size s \<Longrightarrow> 4096 \<le> dict_size s"
    by (auto simp: dict_size_def Let_def DICT_SIZE_MIN_def split: option.splits)
  assume n: "ls_input_size s = Some n"
  show "min (unat (requested_dict_size s)) (unat n) \<le> unat (dict_size s)"
  proof (cases "n < ucast (requested_dict_size s)")
    case True
    then have lt: "unat n < unat (requested_dict_size s)" by (simp add: word_less_nat_alt u)
    then have "unat n < 2 ^ 32" using unsigned_less [of "requested_dict_size s", where 'a = nat] by simp
    then have "unat (ucast n :: u32) = unat n" by (simp add: unsigned_ucast_eq take_bit_nat_eq_self)
    moreover have "unat (max a b) = max (unat a) (unat b)" "unat (min a b) = min (unat a) (unat b)" for a b :: u32
      by (simp_all add: max_def min_def word_le_nat_alt)
    ultimately show ?thesis using n True lt by (simp add: dict_size_def Let_def)
  qed (use n in \<open>simp add: dict_size_def Let_def\<close>)
qed

lemma written_dictionaries:
  "ec_id mc = ID_LZMA2 \<Longrightarrow> \<exists>q. get_options_as_properties vs mc = [of_nat q] \<and> q \<le> 40
      \<and> unat (dict_size (lo_settings (lzma2_options_of mc))) \<le> lzma2_dictionary32 q
      \<and> (\<forall>j < q. lzma2_dictionary32 j < unat (dict_size (lo_settings (lzma2_options_of mc))))"
  "ec_id mc = ID_LZMA \<Longrightarrow>
     lzma_dictionary_size (get_options_as_properties vs mc) = Inr (dict_size (lzma_settings_of mc))"
proof -
  let ?q = "unat (lzma2_property_for (dict_size (lo_settings (lzma2_options_of mc))))"
  assume "ec_id mc = ID_LZMA2"
  then have "get_options_as_properties vs mc = [of_nat ?q]" by (simp add: written_lzma2)
  with lzma2_property_for_spec show "\<exists>q. get_options_as_properties vs mc = [of_nat q] \<and> q \<le> 40
      \<and> unat (dict_size (lo_settings (lzma2_options_of mc))) \<le> lzma2_dictionary32 q
      \<and> (\<forall>j < q. lzma2_dictionary32 j < unat (dict_size (lo_settings (lzma2_options_of mc))))"
    by blast
qed (simp add: written_lzma lzma_written_dictionary)

section \<open>What sizing and single threads change\<close>

lemmas property_defs = get_options_as_properties_def Let_def ec_id_def lzma2_options_of_def lzma_settings_of_def

lemma properties_of_lzma2:
  "ec_options mc = Some (OptLzma2 l) \<Longrightarrow> lo_settings l' = lo_settings l \<Longrightarrow>
     get_options_as_properties vs (mc\<lparr>ec_options := Some (OptLzma2 l')\<rparr>) = get_options_as_properties vs mc"
  by (simp add: property_defs split del: if_split cong: if_cong)

lemma properties_of_bzip2:
  "ec_options mc = Some (OptBzip2 b) \<Longrightarrow>
     get_options_as_properties vs (mc\<lparr>ec_options := Some (OptBzip2 b')\<rparr>) = get_options_as_properties vs mc"
  by (simp add: property_defs split del: if_split cong: if_cong)

lemma one_thread_properties: "get_options_as_properties vs (one_thread mc) = get_options_as_properties vs mc"
proof (cases "ec_options mc")
  case (Some o')
  then show ?thesis
    by (cases o') (simp_all add: one_thread_def properties_of_lzma2 properties_of_bzip2)
qed (simp add: one_thread_def)

lemma div_times_le: "x div y * y \<le> (x :: nat)"
  by (rule div_times_less_eq_dividend)

lemma lzma2_block_plan_threads:
  "snd (lzma2_block_plan o') * unat (match_finder_threads (lo_settings o') (lo_threads o')) \<le> max (unat (lo_threads o')) 1
   \<and> 1 \<le> snd (lzma2_block_plan o')"
proof -
  let ?t = "unat (lo_threads o')" and ?m = "unat (match_finder_threads (lo_settings o') (lo_threads o'))"
  have m: "?m = 1 \<or> ?m = 2 \<and> 2 \<le> ?t"
    by (auto simp: match_finder_threads_def word_less_nat_alt)
  have one: "lo_threads o' \<le> 1 \<longleftrightarrow> ?t \<le> 1" by (simp add: word_le_nat_alt)
  have "max (?t div ?m) 1 * ?m \<le> max ?t 1"
    using m div_times_le [of ?t ?m] by (auto simp: max_def)
  moreover have "min k j * ?m \<le> k * ?m" for k j by simp
  ultimately have blocks: "min (max (?t div ?m) 1) k * ?m \<le> max ?t 1" for k by (meson order_trans)
  have "\<not> ?t \<le> 1 \<Longrightarrow> ?m \<le> max ?t 1" "?t \<le> 1 \<Longrightarrow> ?m = 1" using m by auto
  then show ?thesis
    using one m blocks \<open>max (?t div ?m) 1 * ?m \<le> max ?t 1\<close>
    by (auto simp: lzma2_block_plan_def Let_def match_finder_threads_def split: option.splits if_splits)
qed

definition lzma_coder :: "encoder_configuration \<Rightarrow> bool" where
  "lzma_coder mc \<longleftrightarrow> ec_id mc = ID_LZMA \<or> ec_id mc = ID_LZMA2"

lemma ec_id_one_thread [simp]: "ec_id (one_thread mc) = ec_id mc"
  by (auto simp: one_thread_def ec_id_def split: option.splits encoder_options.splits)

text \<open>On one thread a coder of the LZMA family keeps one thread busy, any other none.\<close>

lemma coder_threads_one: "coder_threads (one_thread mc) = (if lzma_coder mc then 1 else 0)"
proof -
  have ids: "ID_LZMA \<noteq> ID_BZIP2" "ID_LZMA2 \<noteq> ID_BZIP2" by (simp_all add: method_id_defs)
  have solid: "\<not> 1 < lo_threads l \<Longrightarrow> snd (lzma2_block_plan l) = 1" for l
    by (auto simp: lzma2_block_plan_def split: option.splits)
  show ?thesis
  proof (cases "ec_options mc")
    case None
    then show ?thesis using ids
      by (auto simp: coder_threads_def one_thread_def lzma_coder_def ec_id_def split: bool.splits)
  next
    case (Some o')
    show ?thesis
    proof (cases o')
      case (OptLzma2 l)
      with Some ids solid [of l] solid [of "l\<lparr>lo_threads := 1\<rparr>"] show ?thesis
        by (cases "1 < lo_threads l")
           (auto simp: coder_threads_def one_thread_def lzma_coder_def ec_id_def split: bool.splits)
    next
      case (OptBzip2 b)
      with Some ids show ?thesis
        by (cases "1 < bz_threads b")
           (auto simp: coder_threads_def one_thread_def lzma_coder_def ec_id_def split: bool.splits)
    qed (use Some ids in \<open>auto simp: coder_threads_def one_thread_def lzma_coder_def ec_id_def split: bool.splits\<close>)
  qed
qed

lemma unat_u32_saturating_add: "unat (u32_saturating_add a b) = min (unat a + unat b) (2 ^ 32 - 1)"
proof -
  have "unat a < 2 ^ 32" "unat b < 2 ^ 32"
    using unsigned_less [of a, where 'a = nat] unsigned_less [of b, where 'a = nat] by simp_all
  then show ?thesis
    by (auto simp: u32_saturating_add_def word_less_nat_alt unat_plus_if' unsigned_minus_1_eq_mask mask_numeral)
qed

lemma fold_threads:
  "unat (fold (\<lambda>mc acc. u32_saturating_add acc (f mc)) mcs acc)
    = min (unat acc + (\<Sum>mc\<leftarrow>mcs. unat (f mc))) (2 ^ 32 - 1)"
proof (induction mcs arbitrary: acc)
  case Nil
  then show ?case using unsigned_less [of acc, where 'a = nat] by simp
next
  case (Cons mc mcs)
  show ?case by (simp add: Cons.IH unat_u32_saturating_add)
qed

lemma folder_threads_one_each:
  fixes mcs
  defines "n \<equiv> length (filter lzma_coder mcs)"
  assumes "n < 2 ^ 32 - 1"
  shows "unat (folder_threads (one_thread_each mcs)) =
    (if n = 0 then 1 else n + (if \<exists>mc \<in> set mcs. \<not> lzma_coder mc \<and> compresses (ec_id mc) then 1 else 0))"
proof -
  have "(\<Sum>mc\<leftarrow>mcs. unat (coder_threads (one_thread mc))) = n"
    unfolding n_def by (induction mcs) (auto simp: coder_threads_one)
  then have own: "unat (fold (\<lambda>mc acc. u32_saturating_add acc (coder_threads mc)) (one_thread_each mcs) 0) = n"
    using fold_threads [of coder_threads "one_thread_each mcs" 0] assms(2) by (simp add: one_thread_each_def comp_def)
  have "(\<exists>mc \<in> set (one_thread_each mcs). coder_threads mc = 0 \<and> compresses (ec_id mc))
      \<longleftrightarrow> (\<exists>mc \<in> set mcs. \<not> lzma_coder mc \<and> compresses (ec_id mc))"
    by (auto simp: one_thread_each_def coder_threads_one split: if_splits)
  moreover have "fold (\<lambda>mc acc. u32_saturating_add acc (coder_threads mc)) (one_thread_each mcs) 0 = 0 \<longleftrightarrow> n = 0"
    using own by (simp add: word_unat_eq_iff)
  ultimately show ?thesis
    using own assms(2) by (auto simp: folder_threads_def Let_def unat_u32_saturating_add min_def)
qed

section \<open>AES properties\<close>

lemma u8_flag_bits: fixes p :: u8
  defines "b \<equiv> (p AND 0x3F) OR 0xC0"
  shows "b AND 63 = p AND 63" "drop_bit 6 b AND 1 = 1" "drop_bit 7 b AND 1 = 1"
  unfolding b_def by (auto intro!: u8_eqI simp: bit_simps)

lemma aes_properties_round_trip:
  assumes "length (ao_salt o') = 16" "length (ao_iv o') = 16"
  shows "aes_parse (aes_properties_of o') = Inr \<lparr>ap_cycles_power = ao_num_cycles_power o' AND 63,
     ap_salt = ao_salt o', ap_salt_len = 16, ap_iv = ao_iv o'\<rparr>"
  using assms by (simp add: aes_parse_def aes_properties_of_def u8_flag_bits get_def Let_def zero_extended_def)

lemma declared_total_None:
  "declared_total es acc = None \<longleftrightarrow> (\<exists>e \<in> set es. ae_size e = 0) \<or> es = [] \<and> acc = 0"
proof (induction es arbitrary: acc)
  case (Cons e es)
  have "saturating_add acc (ae_size e) = 0 \<Longrightarrow> ae_size e = 0"
    using unat_saturating_add [of acc "ae_size e"] by (simp add: word_unat_eq_iff min_def split: if_splits)
  then show ?case using Cons.IH by auto
qed (simp add: word_gt_0)

lemma declared_total_Some:
  "declared_total es acc = Some n \<Longrightarrow> unat n = min (unat acc + (\<Sum>e\<leftarrow>es. unat (ae_size e))) (2 ^ 64 - 1)"
proof (induction es arbitrary: acc)
  case Nil
  then show ?case using unsigned_less [of acc, where 'a = nat] by (simp split: if_splits)
next
  case (Cons e es)
  then have "declared_total es (saturating_add acc (ae_size e)) = Some n" by (simp split: if_splits)
  from Cons.IH [OF this] show ?case by (simp add: unat_saturating_add)
qed

end
