(* ===== verification/Header_Writer.thy ===== *)
theory Header_Writer
  imports Encoder_Options
begin

text \<open>
  Writing a header (\<^verbatim>\<open>src/src/writer/pack_info.rs\<close>, \<^verbatim>\<open>src/src/writer/unpack_info.rs\<close>, the
  \<^verbatim>\<open>write_*\<close> functions of \<^verbatim>\<open>src/src/writer.rs\<close>): what the writer records of its pack streams and
  folders, the cache of folder descriptors, and the bytes of every part of the header. Each
  \<^verbatim>\<open>write_*\<close> function, which appends to a \<^verbatim>\<open>Vec\<close> and cannot fail, is the bytes it appends.
\<close>

section \<open>Pack streams\<close>

record pack_info =
  pi_crcs :: "u32 list"
  pi_sizes :: "u64 list"
  pi_pos :: u64

definition pack_info_default :: pack_info where
  "pack_info_default = \<lparr>pi_crcs = [], pi_sizes = [], pi_pos = 0\<rparr>"

definition pi_len :: "pack_info \<Rightarrow> nat" where
  "pi_len p = length (pi_sizes p)"

definition add_stream :: "u64 \<Rightarrow> u32 \<Rightarrow> pack_info \<Rightarrow> pack_info" where
  "add_stream sz c p = p\<lparr>pi_sizes := pi_sizes p @ [sz], pi_crcs := pi_crcs p @ [c]\<rparr>"

definition write_pack_info :: "pack_info \<Rightarrow> byte list" where
  "write_pack_info p =
     [K_PACK_INFO] @ write_u64 (pi_pos p) @ write_u64 (of_nat (pi_len p))
     @ [K_SIZE] @ concat (map write_u64 (pi_sizes p))
     @ [K_CRC]
     @ (if \<forall>c \<in> set (pi_crcs p). c \<noteq> 0
        then [1] @ concat (map write_u32 (pi_crcs p))
        else [0]
          @ write_bit_set (insert_where (\<lambda>i. pi_crcs p ! i \<noteq> 0) [0..<length (pi_crcs p)]
              (with_capacity (length (pi_crcs p))))
          @ concat (map write_u32 (filter (\<lambda>c. c \<noteq> 0) (pi_crcs p))))
     @ [K_END]"

section \<open>Folders\<close>

text \<open>A method of a folder: its ID and the property bytes it is described by.\<close>

record header_method =
  hm_id :: "byte list"
  hm_properties :: "byte list"

definition header_method_of :: "codec_versions \<Rightarrow> encoder_configuration \<Rightarrow> header_method" where
  "header_method_of vs mc = \<lparr>hm_id = ec_id mc, hm_properties = get_options_as_properties vs mc\<rparr>"

definition hm_matches :: "codec_versions \<Rightarrow> encoder_configuration \<Rightarrow> header_method \<Rightarrow> bool" where
  "hm_matches vs mc m \<longleftrightarrow> hm_id m = ec_id mc \<and> hm_properties m = get_options_as_properties vs mc"

definition write_single_codec :: "header_method \<Rightarrow> byte list" where
  "write_single_codec m =
     (let codec_flags = of_nat (length (hm_id m)) :: u8;
          codec_flags = (if hm_properties m \<noteq> [] then codec_flags OR 0x20 else codec_flags)
      in [codec_flags] @ hm_id m
         @ (if hm_properties m \<noteq> [] then [of_nat (length (hm_properties m))] @ hm_properties m else []))"

text \<open>The side coders, the main coders, BCJ2, the bind pairs from the highest input down, the pack streams.\<close>

definition write_bcj2_to :: "header_method list \<Rightarrow> byte list" where
  "write_bcj2_to methods =
     (let k = length methods - 1; bcj2 = 2 + k;
          side = [of_nat (length ID_LZMA) OR 0x20] @ ID_LZMA
                 @ [of_nat (length bcj2_side_properties)] @ bcj2_side_properties
      in write_u64 (of_nat (k + 3)) @ side @ side
         @ concat (map write_single_codec (take k methods))
         @ [of_nat (length ID_BCJ2) OR 0x10] @ ID_BCJ2 @ write_u64 4 @ write_u64 1
         @ write_u64 (of_nat (bcj2 + 2)) @ write_u64 0
         @ write_u64 (of_nat (bcj2 + 1)) @ write_u64 1
         @ write_u64 (of_nat bcj2) @ write_u64 (of_nat (bcj2 - 1))
         @ concat (map (\<lambda>i. write_u64 (of_nat (2 + i)) @ write_u64 (of_nat (1 + i))) (rev [1..<k]))
         @ concat (map (\<lambda>i. write_u64 (of_nat i)) [2, bcj2 + 3, 1, 0]))"

text \<open>The number of bind pairs is one less than that of coders, computed in \<^verbatim>\<open>usize\<close>.\<close>

definition write_folder :: "header_method list \<Rightarrow> byte list result" where
  "write_folder methods =
     (if methods \<noteq> [] \<and> hm_id (last methods) = ID_BCJ2 then Inr (write_bcj2_to methods)
      else if methods = [] then Inl (Panic ''attempt to subtract with overflow'')
      else Inr (write_u64 (of_nat (length methods)) @ concat (map write_single_codec methods)
        @ concat (map (\<lambda>i. write_u64 (of_nat i + 1) @ write_u64 (of_nat i)) [0..<length methods - 1])))"

definition write_raw_coder :: "coder \<Rightarrow> byte list" where
  "write_raw_coder c =
     (let mid = encoder_method_id c; ps = properties c;
          simple = num_in_streams c = 1 \<and> num_out_streams c = 1;
          flags = of_nat (length mid) :: u8;
          flags = (if simple then flags else flags OR 0x10);
          flags = (if ps = [] then flags else flags OR 0x20)
      in [flags] @ mid
         @ (if simple then [] else write_u64 (num_in_streams c) @ write_u64 (num_out_streams c))
         @ (if ps = [] then [] else write_u64 (of_nat (length ps)) @ ps))"

definition write_raw_block :: "block \<Rightarrow> byte list" where
  "write_raw_block b =
     write_u64 (of_nat (length (coders b))) @ concat (map write_raw_coder (coders b))
     @ concat (map (\<lambda>p. write_u64 (in_index p) @ write_u64 (out_index p)) (bind_pairs b))
     @ (if 1 < length (packed_streams b) then concat (map write_u64 (packed_streams b)) else [])"

record bcj2_side_sizes =
  bs_call :: u64
  bs_jump :: u64

record block_extra =
  be_num_sub_unpack_streams :: u64
  be_sub_stream_sizes :: "u64 list"
  be_sub_stream_crcs :: "u32 list"
  be_bcj2 :: "bcj2_side_sizes option"
  be_raw_pack_streams :: "nat option"

text \<open>The folder descriptor and the sizes are slices, seen through their elements.\<close>

record block_info =
  bi_methods :: "byte list"
  bi_sizes :: "u64 list"
  bi_crc :: u32
  bi_extra :: "block_extra option"

definition bi_num_sub_unpack_streams :: "block_info \<Rightarrow> u64" where
  "bi_num_sub_unpack_streams b = (case bi_extra b of None \<Rightarrow> 1 | Some e \<Rightarrow> be_num_sub_unpack_streams e)"

definition bi_sub_stream_sizes :: "block_info \<Rightarrow> u64 list" where
  "bi_sub_stream_sizes b = (case bi_extra b of None \<Rightarrow> [] | Some e \<Rightarrow> be_sub_stream_sizes e)"

definition bi_sub_stream_crcs :: "block_info \<Rightarrow> u32 list" where
  "bi_sub_stream_crcs b = (case bi_extra b of None \<Rightarrow> [] | Some e \<Rightarrow> be_sub_stream_crcs e)"

definition bi_bcj2 :: "block_info \<Rightarrow> bcj2_side_sizes option" where
  "bi_bcj2 b = (case bi_extra b of None \<Rightarrow> None | Some e \<Rightarrow> be_bcj2 e)"

definition set_bcj2 :: "bcj2_side_sizes option \<Rightarrow> block_info \<Rightarrow> block_info" where
  "set_bcj2 sizes b = (case sizes of
      Some _ \<Rightarrow>
        let e = (case bi_extra b of
              Some e \<Rightarrow> e
            | None \<Rightarrow> \<lparr>be_num_sub_unpack_streams = 1, be_sub_stream_sizes = [], be_sub_stream_crcs = [],
                        be_bcj2 = None, be_raw_pack_streams = None\<rparr>)
        in b\<lparr>bi_extra := Some (e\<lparr>be_bcj2 := sizes\<rparr>)\<rparr>
    | None \<Rightarrow> b\<lparr>bi_extra := map_option (\<lambda>e. e\<lparr>be_bcj2 := None\<rparr>) (bi_extra b)\<rparr>)"

text \<open>
  \<^verbatim>\<open>UnpackInfo\<close>. An \<^verbatim>\<open>Arc\<close> of methods is its address and its contents; \<open>ui_last_source\<close> is the
  address a \<^verbatim>\<open>Weak\<close> still names, \<open>None\<close> for \<^verbatim>\<open>Weak::new\<close>. Since the \<^verbatim>\<open>Weak\<close> keeps the allocation,
  an address it names is not reused for other methods.
\<close>

type_synonym arc_methods = "nat \<times> encoder_configuration list"

record unpack_info =
  ui_blocks :: "block_info list"
  ui_last_source :: "nat option"
  ui_last_methods :: "header_method list"
  ui_last_header :: "byte list"

definition unpack_info_default :: unpack_info where
  "unpack_info_default = \<lparr>ui_blocks = [], ui_last_source = None, ui_last_methods = [], ui_last_header = []\<rparr>"

definition header_methods :: "codec_versions \<Rightarrow> arc_methods \<Rightarrow> unpack_info \<Rightarrow> (byte list \<times> unpack_info) result" where
  "header_methods vs arc u = (case arc of (addr, methods) \<Rightarrow>
     if ui_last_source u = Some addr then Inr (ui_last_header u, u)
     else if length methods = length (ui_last_methods u)
       \<and> list_all (\<lambda>(source, stored). hm_matches vs source stored) (zip methods (ui_last_methods u))
     then Inr (ui_last_header u, u\<lparr>ui_last_source := Some addr\<rparr>)
     else
       let stored = map (header_method_of vs) methods in
       bindE (write_folder stored) (\<lambda>header.
         Inr (header, u\<lparr>ui_last_source := Some addr, ui_last_methods := stored, ui_last_header := header\<rparr>)))"

definition ui_add :: "codec_versions \<Rightarrow> arc_methods \<Rightarrow> u64 list \<Rightarrow> u32 \<Rightarrow> bcj2_side_sizes option
    \<Rightarrow> unpack_info \<Rightarrow> unpack_info result" where
  "ui_add vs arc sizes c bcj2 u =
     bindE (header_methods vs arc u) (\<lambda>(methods, u).
       Inr (u\<lparr>ui_blocks := ui_blocks u @ [set_bcj2 bcj2
         \<lparr>bi_methods = methods, bi_sizes = sizes, bi_crc = c, bi_extra = None\<rparr>]\<rparr>))"

definition ui_add_multiple :: "codec_versions \<Rightarrow> arc_methods \<Rightarrow> u64 list \<Rightarrow> u32 \<Rightarrow> u64 \<Rightarrow> u64 list \<Rightarrow> u32 list
    \<Rightarrow> bcj2_side_sizes option \<Rightarrow> unpack_info \<Rightarrow> unpack_info result" where
  "ui_add_multiple vs arc sizes c num sub_sizes sub_crcs bcj2 u =
     bindE (header_methods vs arc u) (\<lambda>(methods, u).
       Inr (u\<lparr>ui_blocks := ui_blocks u @ [set_bcj2 bcj2
         \<lparr>bi_methods = methods, bi_sizes = sizes, bi_crc = c,
          bi_extra = Some \<lparr>be_num_sub_unpack_streams = num, be_sub_stream_sizes = sub_sizes,
            be_sub_stream_crcs = sub_crcs, be_bcj2 = None, be_raw_pack_streams = None\<rparr>\<rparr>]\<rparr>))"

definition ui_add_raw :: "block \<Rightarrow> u64 list \<Rightarrow> u32 list \<Rightarrow> unpack_info \<Rightarrow> unpack_info" where
  "ui_add_raw b sub_sizes sub_crcs u =
     u\<lparr>ui_blocks := ui_blocks u @ [
       \<lparr>bi_methods = write_raw_block b, bi_sizes = unpack_sizes b, bi_crc = ucast (crc b),
        bi_extra = Some \<lparr>be_num_sub_unpack_streams = of_nat (num_unpack_sub_streams b),
          be_sub_stream_sizes = sub_sizes, be_sub_stream_crcs = sub_crcs, be_bcj2 = None,
          be_raw_pack_streams = Some (length (packed_streams b))\<rparr>\<rparr>]\<rparr>"

definition bi_pack_streams :: "block_info \<Rightarrow> nat" where
  "bi_pack_streams b = (case Option.bind (bi_extra b) be_raw_pack_streams of
      Some count \<Rightarrow> count
    | None \<Rightarrow> if bi_bcj2 b \<noteq> None then 4 else 1)"

definition ui_pack_streams :: "unpack_info \<Rightarrow> nat" where
  "ui_pack_streams u = sum_list (map bi_pack_streams (ui_blocks u))"

text \<open>The unpacked sizes of a block: of a BCJ2 block's jump and call coders first.\<close>

definition bi_all_sizes :: "block_info \<Rightarrow> u64 list" where
  "bi_all_sizes b =
     (case bi_bcj2 b of Some s \<Rightarrow> [bs_jump s, bs_call s] | None \<Rightarrow> []) @ bi_sizes b"

definition write_unpack_info :: "unpack_info \<Rightarrow> byte list" where
  "write_unpack_info u =
     [K_UNPACK_INFO, K_FOLDER] @ write_u64 (of_nat (length (ui_blocks u))) @ [0]
     @ concat (map bi_methods (ui_blocks u))
     @ [K_CODERS_UNPACK_SIZE]
     @ concat (map (\<lambda>b. concat (map write_u64 (bi_all_sizes b))) (ui_blocks u))
     @ [K_END]"

definition bi_digests :: "block_info \<Rightarrow> u32 list" where
  "bi_digests b =
     (if 1 < bi_num_sub_unpack_streams b then bi_sub_stream_crcs b
      else if bi_num_sub_unpack_streams b = 1
      then [case bi_sub_stream_crcs b of [] \<Rightarrow> bi_crc b | c # _ \<Rightarrow> c]
      else [])"

definition write_substreams :: "unpack_info \<Rightarrow> byte list" where
  "write_substreams u =
     [K_SUB_STREAMS_INFO]
     @ (if \<exists>b \<in> set (ui_blocks u). bi_num_sub_unpack_streams b \<noteq> 1
        then [K_NUM_UNPACK_STREAM] @ concat (map (\<lambda>b. write_u64 (bi_num_sub_unpack_streams b)) (ui_blocks u))
        else [])
     @ (if \<exists>b \<in> set (ui_blocks u). 1 < length (bi_sub_stream_sizes b)
        then [K_SIZE] @ concat (map (\<lambda>b. if 1 < length (bi_sub_stream_sizes b)
               then concat (map write_u64 (butlast (bi_sub_stream_sizes b))) else []) (ui_blocks u))
        else [])
     @ (if \<exists>b \<in> set (ui_blocks u). bi_num_sub_unpack_streams b = 1
             \<or> 1 < bi_num_sub_unpack_streams b \<and> bi_sub_stream_crcs b \<noteq> []
        then [K_CRC, 1] @ concat (map (\<lambda>b. concat (map write_u32 (bi_digests b))) (ui_blocks u))
        else [])
     @ [K_END]"

definition write_streams_info :: "pack_info \<Rightarrow> unpack_info \<Rightarrow> byte list" where
  "write_streams_info p u =
     (if 0 < pi_len p then write_pack_info p @ write_unpack_info u else [])
     @ write_substreams u @ [K_END]"

section \<open>Files\<close>

text \<open>A property: its type, the length of its data, the data.\<close>

definition write_property :: "u8 \<Rightarrow> byte list \<Rightarrow> byte list" where
  "write_property nid temp = [nid] @ write_u64 (of_nat (length temp)) @ temp"

definition index_bits :: "(archive_entry \<Rightarrow> bool) \<Rightarrow> archive_entry list \<Rightarrow> bit_set" where
  "index_bits P es = insert_where (\<lambda>i. P (es ! i)) [0..<length es] (with_capacity (length es))"

definition write_file_empty_streams :: "archive_entry list \<Rightarrow> byte list" where
  "write_file_empty_streams es =
     (if \<exists>e \<in> set es. \<not> ae_has_stream e
      then write_property K_EMPTY_STREAM (write_bit_set (index_bits (\<lambda>e. \<not> ae_has_stream e) es)) else [])"

text \<open>The entries without a stream, which the next two properties number.\<close>

definition empty_entries :: "archive_entry list \<Rightarrow> archive_entry list" where
  "empty_entries es = filter (\<lambda>e. \<not> ae_has_stream e) es"

definition write_file_empty_files :: "archive_entry list \<Rightarrow> byte list" where
  "write_file_empty_files es =
     (if \<exists>e \<in> set (empty_entries es). \<not> ae_is_directory e
      then write_property K_EMPTY_FILE (write_bit_set (index_bits (\<lambda>e. \<not> ae_is_directory e) (empty_entries es)))
      else [])"

definition write_file_anti_items :: "archive_entry list \<Rightarrow> byte list" where
  "write_file_anti_items es =
     (if \<exists>e \<in> set (empty_entries es). ae_is_anti_item e
      then write_property K_ANTI (write_bit_set (index_bits ae_is_anti_item (empty_entries es))) else [])"

definition write_name :: "ustring \<Rightarrow> byte list" where
  "write_name s = concat (map write_u16 (encode_utf16 s)) @ [0, 0]"

definition write_file_names :: "archive_entry list \<Rightarrow> byte list" where
  "write_file_names es = write_property K_NAME ([0] @ concat (map (\<lambda>e. write_name (ae_name e)) es))"

text \<open>\<^verbatim>\<open>write_times!\<close>\<close>

definition write_times :: "u8 \<Rightarrow> (archive_entry \<Rightarrow> bool) \<Rightarrow> (archive_entry \<Rightarrow> byte list)
    \<Rightarrow> archive_entry list \<Rightarrow> byte list" where
  "write_times nid has_time time es =
     (let num = length (filter has_time es) in
      if 0 < num then
        write_property nid
          ((if num \<noteq> length es then [0] @ write_bit_set (index_bits has_time es) else [1])
           @ [0] @ concat (map time (filter has_time es)))
      else [])"

definition write_files_info :: "archive_entry list \<Rightarrow> byte list" where
  "write_files_info es =
     [K_FILES_INFO] @ write_u64 (of_nat (length es))
     @ write_file_empty_streams es @ write_file_empty_files es @ write_file_anti_items es
     @ write_file_names es
     @ write_times K_C_TIME ae_has_creation_date (\<lambda>e. write_u64_le (ae_creation_date e)) es
     @ write_times K_A_TIME ae_has_access_date (\<lambda>e. write_u64_le (ae_access_date e)) es
     @ write_times K_M_TIME ae_has_last_modified_date (\<lambda>e. write_u64_le (ae_last_modified_date e)) es
     @ write_times K_WIN_ATTRIBUTES ae_has_windows_attributes (\<lambda>e. write_u32 (ae_windows_attributes e)) es
     @ [K_END]"

definition write_header :: "pack_info \<Rightarrow> unpack_info \<Rightarrow> archive_entry list \<Rightarrow> byte list" where
  "write_header p u es =
     [K_HEADER, K_MAIN_STREAMS_INFO] @ write_streams_info p u @ write_files_info es @ [K_END]"

end
