(* ===== verification/Folder_Round_Trip.thy ===== *)
theory Folder_Round_Trip
  imports Archive_Reader Header_Writer
begin

text \<open>
  Pack information and folders read back as they were written: the folders of the three kinds of
  writer, a chain of coders, BCJ2, and a block copied from another archive.
\<close>

section \<open>Decoding steps\<close>

lemma decodes_read_u8: "decodes read_u8 [b] b"
  using decodes_u8 [of b] by (simp add: write_u8_def)

lemma decodes_u8_bind: "decodes (f b) zs y \<Longrightarrow> decodes (bindP read_u8 f) (b # zs) y"
  using decodes_bind [OF decodes_read_u8, of f b zs y] by simp

lemma decodes_variable_bind:
  "decodes (f v) zs y \<Longrightarrow> decodes (bindP read_variable_u64 f) (write_u64 v @ zs) y"
  by (rule decodes_bind [OF decodes_variable_u64])

lemma decodes_case_prod: "decodes (f a b) ys y \<Longrightarrow> decodes (case (a, b) of (a, b) \<Rightarrow> f a b) ys y"
  by simp

lemma decodes_section_if:
  assumes "decodes p ys a'"
  shows "decodes (section_if True p a nid) (ys @ [nid']) (a', nid')"
  unfolding section_if_def by (auto intro!: decodes_bind [OF assms] decodes_u8_bind decodes_return)

lemma decodes_section_skip: "decodes (section_if False p a nid) [] (a, nid)"
  by (simp add: section_if_def decodes_return)

lemma decodes_exact: "decodes (read_exact (length ys)) ys ys"
  by (rule read_exact_append) simp

lemma decodes_variable_list: "n = length vs \<Longrightarrow> decodes (replicateP n read_variable_u64) (concat (map write_u64 vs)) vs"
  using wvar.dec_enc_list [of vs] by (simp add: list_all_iff)

section \<open>Pack information\<close>

lemma defined_values:
  assumes "\<And>i. i < length cs \<Longrightarrow> contains d (k + i) \<longleftrightarrow> cs ! i \<noteq> 0"
  shows "decodes (mapP (\<lambda>i. if contains d i then read_u32 else returnP 0) [k..<k + length cs])
     (concat (map write_u32 (filter (\<lambda>c. c \<noteq> 0) cs))) cs"
  using assms
proof (induction cs arbitrary: k)
  case (Cons c cs)
  have "decodes (mapP (\<lambda>i. if contains d i then read_u32 else returnP 0) [Suc k..<Suc k + length cs])
     (concat (map write_u32 (filter (\<lambda>c. c \<noteq> 0) cs))) cs"
    using Cons.prems [of "Suc i" for i] by (intro Cons.IH) auto
  moreover have "[k..<k + length (c # cs)] = k # [Suc k..<Suc k + length cs]"
    by (simp add: upt_rec)
  moreover have "contains d k \<longleftrightarrow> c \<noteq> 0" using Cons.prems [of 0] by simp
  ultimately show ?case
    by (auto intro!: decodes_bind [OF decodes_u32] decodes_bind_end decodes_return)
       (simp_all add: decodes_def)
qed (simp add: decodes_def)

lemma decodes_defined_u32:
  assumes "\<And>i. i < length cs \<Longrightarrow> contains d i \<longleftrightarrow> cs ! i \<noteq> 0"
  shows "decodes (read_defined_u32 d (length cs)) (concat (map write_u32 (filter (\<lambda>c. c \<noteq> 0) cs))) cs"
  using defined_values [of cs d 0] assms unfolding read_defined_u32_def by simp

lemma decodes_all_u32:
  assumes "\<And>i. i < length cs \<Longrightarrow> contains d i"
  shows "decodes (read_defined_u32 d (length cs)) (concat (map write_u32 cs)) cs"
proof -
  have "map (\<lambda>i. if contains d i then read_u32 else returnP 0) [0..<length cs] = replicate (length cs) read_u32"
    using assms by (intro nth_equalityI) auto
  moreover have "mapP (\<lambda>i. if contains d i then read_u32 else returnP 0) is = mapP (\<lambda>_. read_u32) is"
    if "\<forall>i \<in> set is. contains d i" for "is"
    using that by (induction "is") auto
  moreover have "mapP (\<lambda>_. p) is = replicateP (length is) p" for p :: "u32 reader" and "is" :: "nat list"
    by (induction "is") auto
  ultimately show ?thesis
    using wu32.dec_enc_list [of cs] assms by (simp add: read_defined_u32_def list_all_iff)
qed

text \<open>The digests of the pack streams: zero stands for none.\<close>

definition pack_defined :: "u32 list \<Rightarrow> bit_set" where
  "pack_defined cs = insert_where (\<lambda>i. cs ! i \<noteq> 0) [0..<length cs] (with_capacity (length cs))"

lemma pack_defined_all: "\<forall>c \<in> set cs. c \<noteq> 0 \<Longrightarrow> pack_defined cs
    = insert_where (\<lambda>_. True) [0..<length cs] (with_capacity (length cs))"
  unfolding pack_defined_def by (rule bs_ext) (auto simp: insert_where_capacity)

definition with_pack_info :: "pack_info \<Rightarrow> archive \<Rightarrow> archive" where
  "with_pack_info p a = a\<lparr>ar_pack_pos := pi_pos p, ar_pack_sizes := pi_sizes p,
     ar_pack_crcs_defined := pack_defined (pi_crcs p), ar_pack_crcs := map ucast (pi_crcs p)\<rparr>"

text \<open>What the bounds of the reader allow of a count.\<close>

definition count_allowed :: "header_bounds \<Rightarrow> nat \<Rightarrow> bool" where
  "count_allowed bnd n \<longleftrightarrow> n \<le> usize_max \<and> n \<le> hb_bytes bnd \<and> n \<le> unat (max_entries (hb_limits bnd))"

lemma count_allowed_hb: "count_allowed bnd n \<Longrightarrow> hb_count bnd (of_nat n) Entries = Inr n"
  by (simp add: count_allowed_def hb_count_Inr_iff limit_cap_def unat_of_usize)

lemma pack_info_decodes:
  assumes "length (pi_crcs p) = pi_len p" "count_allowed bnd (pi_len p)"
  shows "decodes (read_pack_info bnd a) (tl (write_pack_info p)) (with_pack_info p a)"
proof -
  let ?cs = "pi_crcs p"
  let ?body = "if \<forall>c \<in> set ?cs. c \<noteq> 0 then [1] @ concat (map write_u32 ?cs)
      else [0] @ write_bit_set (pack_defined ?cs) @ concat (map write_u32 (filter (\<lambda>c. c \<noteq> 0) ?cs))"
  have bits: "bs_wf (pack_defined ?cs)" "bit_count (pack_defined ?cs) = length ?cs"
    "contains (pack_defined ?cs) i \<longleftrightarrow> i < length ?cs \<and> ?cs ! i \<noteq> 0" for i
    by (simp_all add: pack_defined_def insert_where_capacity)
  have digests: "decodes (bindP (read_all_or_bits (length ?cs)) (\<lambda>defined.
        bindP (read_defined_u32 defined (length ?cs)) (\<lambda>crcs.
        bindP read_u8 (\<lambda>nid. returnP (x\<lparr>ar_pack_crcs_defined := defined, ar_pack_crcs := map ucast crcs\<rparr>, nid)))))
      (?body @ [K_END]) (x\<lparr>ar_pack_crcs_defined := pack_defined ?cs, ar_pack_crcs := map ucast ?cs\<rparr>, K_END)"
    (is "decodes ?p _ ?r") for x
  proof (cases "\<forall>c \<in> set ?cs. c \<noteq> 0")
    case True
    have "decodes (read_all_or_bits (length ?cs)) [1] (pack_defined ?cs)"
      using decodes_all_set [of 1] by (simp add: pack_defined_all [OF True] write_u8_def)
    then have "decodes ?p ([1] @ concat (map write_u32 ?cs) @ [K_END]) ?r"
      using True bits(3)
      by - (rule decodes_bind, assumption, rule decodes_bind [OF decodes_all_u32 [of ?cs]], simp,
          intro decodes_u8_bind decodes_return)
    with True show ?thesis by simp
  next
    case False
    have "decodes (read_all_or_bits (length ?cs)) ([0] @ write_bit_set (pack_defined ?cs)) (pack_defined ?cs)"
      using decodes_all_or_bits [OF bits(1)] by (simp add: bits(2) write_u8_def)
    then have "decodes ?p (([0] @ write_bit_set (pack_defined ?cs))
        @ concat (map write_u32 (filter (\<lambda>c. c \<noteq> 0) ?cs)) @ [K_END]) ?r"
      using bits(3)
      by - (rule decodes_bind, assumption, rule decodes_bind [OF decodes_defined_u32 [of ?cs]], simp,
          intro decodes_u8_bind decodes_return)
    with False show ?thesis by auto
  qed
  have n: "length ?cs = pi_len p" "length (pi_sizes p) = pi_len p" using assms(1) by (simp_all add: pi_len_def)
  note digests = digests [unfolded n(1)]
  have body: "tl (write_pack_info p) = write_u64 (pi_pos p) @ write_u64 (of_nat (pi_len p))
      @ K_SIZE # (concat (map write_u64 (pi_sizes p)) @ [K_CRC]) @ (?body @ [K_END]) @ []"
    by (simp add: write_pack_info_def pack_defined_def) blast
  show ?thesis
    unfolding read_pack_info_def body
    apply (rule decodes_variable_bind decodes_u8_bind decodes_bind_lift [OF count_allowed_hb [OF assms(2)]])+
    apply (rule decodes_bind)
     apply (simp, rule decodes_bind [OF decodes_variable_list])
      apply (simp add: n)
     apply (rule decodes_u8_bind, rule decodes_return)
    apply (simp only: prod.case, rule decodes_bind)
     apply (subst if_P, rule refl, rule digests)
    by (simp add: with_pack_info_def decodes_return)
qed

section \<open>A coder\<close>

text \<open>The flags byte: the length of the ID in the low nibble, two flags.\<close>

definition coder_flags :: "nat \<Rightarrow> bool \<Rightarrow> bool \<Rightarrow> u8" where
  "coder_flags n multi props = (of_nat n OR (if multi then 0x10 else 0)) OR (if props then 0x20 else 0)"

lemma coder_flags_fields:
  assumes "n \<le> 15"
  shows "coder_flags n m p AND 0xF = of_nat n" "coder_flags n m p AND 0x10 = 0 \<longleftrightarrow> \<not> m"
    "coder_flags n m p AND 0x20 = 0 \<longleftrightarrow> \<not> p" "coder_flags n m p AND 0x80 = 0"
proof -
  have "(of_nat n :: u8) \<le> 15"
    using assms by (simp add: word_le_nat_alt unsigned_of_nat take_bit_nat_eq_self)
  note low = u8_low4_bits [OF this]
  show "coder_flags n m p AND 0xF = of_nat n"
    using low by (auto simp: coder_flags_def intro!: u8_eqI) (simp_all add: bit_simps)
  have "coder_flags n m p AND 0x10 = (if m then 0x10 else 0)"
    using low by (auto simp: coder_flags_def intro!: u8_eqI) (simp_all add: bit_simps)
  then show "coder_flags n m p AND 0x10 = 0 \<longleftrightarrow> \<not> m" by simp
  have "coder_flags n m p AND 0x20 = (if p then 0x20 else 0)"
    using low by (auto simp: coder_flags_def intro!: u8_eqI) (simp_all add: bit_simps)
  then show "coder_flags n m p AND 0x20 = 0 \<longleftrightarrow> \<not> p" by simp
  show "coder_flags n m p AND 0x80 = 0"
    using low by (auto simp: coder_flags_def intro!: u8_eqI) (simp_all add: bit_simps)
qed

text \<open>A coder as its ID, its number of inputs and its properties; it has one output.\<close>

type_synonym coder_spec = "byte list \<times> u64 \<times> byte list"

definition coder_bytes :: "coder_spec \<Rightarrow> byte list" where
  "coder_bytes x = (case x of (mid, ins, ps) \<Rightarrow>
     [coder_flags (length mid) (ins \<noteq> 1) (ps \<noteq> [])] @ mid
     @ (if ins \<noteq> 1 then write_u64 ins @ write_u64 1 else [])
     @ (if ps \<noteq> [] then write_u64 (of_nat (length ps)) @ ps else []))"

definition built_coder :: "coder_spec \<Rightarrow> coder" where
  "built_coder x = (case x of (mid, ins, ps) \<Rightarrow>
     let cd = set_stream_counts (write_method_id
                (case set_id_size single_stream (of_nat (length mid)) of Inr cd \<Rightarrow> cd | Inl _ \<Rightarrow> single_stream) mid) ins 1
     in if ps \<noteq> [] then set_properties cd ps else cd)"

lemma built_coder_view:
  assumes "length mid \<le> 15"
  shows "coder_wf (built_coder (mid, ins, ps)) \<and> encoder_method_id (built_coder (mid, ins, ps)) = mid
    \<and> properties (built_coder (mid, ins, ps)) = ps \<and> counts (built_coder (mid, ins, ps)) = (ins, 1)"
proof (rule cs.id_built [OF assms])
  fix cd
  assume cd: "set_id_size single_stream (of_nat (length mid)) = Inr cd" "coder_wf (write_method_id cd mid)"
    "encoder_method_id (write_method_id cd mid) = mid" "properties (write_method_id cd mid) = []"
    "counts (write_method_id cd mid) = (1, 1)"
  then show ?thesis
    using set_stream_counts_view [OF cd(2), of ins 1] set_properties_view by (auto simp: built_coder_def Let_def)
qed

definition spec_of :: "coder \<Rightarrow> coder_spec" where
  "spec_of c = (encoder_method_id c, num_in_streams c, properties c)"

lemma write_raw_coder_bytes: "num_out_streams c = 1 \<Longrightarrow> write_raw_coder c = coder_bytes (spec_of c)"
  by (auto simp: write_raw_coder_def coder_bytes_def spec_of_def coder_flags_def Let_def)

text \<open>What the reader's limits ask of the coders, and of the totals they add up to.\<close>

definition coder_allowed :: "header_bounds \<Rightarrow> coder_spec \<Rightarrow> bool" where
  "coder_allowed bnd x \<longleftrightarrow> (case x of (mid, ins, ps) \<Rightarrow>
     length mid \<le> 15 \<and> ins \<le> max_streams_per_coder (hb_limits bnd) \<and> length ps \<le> hb_bytes bnd
     \<and> length ps \<le> usize_max)"

definition inputs_of :: "coder_spec list \<Rightarrow> nat" where
  "inputs_of xs = (\<Sum>(_, ins, _)\<leftarrow>xs. unat ins)"

lemma count_allowed_mono: "count_allowed bnd n \<Longrightarrow> m \<le> n \<Longrightarrow> count_allowed bnd m"
  by (simp add: count_allowed_def)

lemma checked_add_of_nat:
  "t + unat i \<le> usize_max \<Longrightarrow> checked_add (of_nat t) i = Some (of_nat (t + unat i))"
  by (auto simp: checked_add_Some_iff usize_max_def unsigned_of_nat take_bit_nat_eq_self)

lemma check_stream_counts_ok:
  assumes "t + unat i \<le> 64" "u + 1 \<le> 64" "count_allowed bnd (t + unat i)" "count_allowed bnd (u + 1)"
    "i \<le> max_streams_per_coder (hb_limits bnd)" "1 \<le> max_streams_per_coder (hb_limits bnd)"
  shows "check_stream_counts bnd (of_nat t) (of_nat u) i 1 = Inr (of_nat (t + unat i), of_nat (u + 1))"
proof -
  have "checked_add (of_nat t) i = Some (of_nat (t + unat i))"
    using assms(1) by (intro checked_add_of_nat) (simp add: usize_max_def)
  moreover have "checked_add (of_nat u) 1 = Some (of_nat (u + 1))"
    using checked_add_of_nat [of u 1] assms(2) by (simp add: usize_max_def)
  moreover have "\<not> MAX_BLOCK_CODERS_AND_STREAMS < of_nat (t + unat i)"
    using assms(1) unat_of_usize [of "t + unat i"]
    by (simp add: MAX_BLOCK_CODERS_AND_STREAMS_def word_less_nat_alt usize_max_def)
  moreover have "max_streams_per_coder (hb_limits bnd) \<noteq> 0" using assms(6) by auto
  moreover note count_allowed_hb [OF assms(3)] count_allowed_hb [OF assms(4)]
  ultimately show ?thesis
    using assms(5,6) by (simp add: check_stream_counts_def Let_def not_less del: of_nat_add of_nat_Suc)
qed

lemma coder_decodes:
  assumes "coder_allowed bnd (mid, i, ps)" "t + unat i \<le> 64" "u + 1 \<le> 64"
    "count_allowed bnd (t + unat i)" "count_allowed bnd (u + 1)" "1 \<le> max_streams_per_coder (hb_limits bnd)"
  shows "decodes (read_coder bnd (of_nat t) (of_nat u)) (coder_bytes (mid, i, ps))
     (built_coder (mid, i, ps), of_nat (t + unat i), of_nat (u + 1))"
proof -
  from assms(1) have ok: "length mid \<le> 15" "i \<le> max_streams_per_coder (hb_limits bnd)" "length ps \<le> hb_bytes bnd"
    "length ps \<le> usize_max" by (simp_all add: coder_allowed_def)
  obtain cd where cd: "set_id_size single_stream (of_nat (length mid)) = Inr cd"
      "length (encoder_method_id cd) = length mid"
    using cs.set_id [OF cs.new(1), of "of_nat (length mid)"] ok(1)
    by (auto simp: word_le_nat_alt unsigned_of_nat take_bit_nat_eq_self)
  note fl = coder_flags_fields [OF ok(1), of "i \<noteq> 1" "ps \<noteq> []"]
  have sz: "hb_size bnd (of_nat (length ps)) = Inr (length ps)"
    using ok(3,4) by (simp add: hb_size_Inr_iff unat_of_usize)
  have counts: "decodes (if coder_flags (length mid) (i \<noteq> 1) (ps \<noteq> []) AND 0x10 = 0 then returnP (1, 1)
       else bindP read_variable_u64 (\<lambda>i. bindP read_variable_u64 (\<lambda>k. returnP (i, k))))
      (if i \<noteq> 1 then write_u64 i @ write_u64 1 else []) (i, 1 :: u64)"
    using decodes_variable_bind [of "\<lambda>j. bindP read_variable_u64 (\<lambda>k. returnP (j, k))" i "write_u64 1" "(i, 1)"]
      decodes_variable_bind [of "\<lambda>k. returnP (i, k)" 1 "[]" "(i, 1)"]
    by (auto simp: fl decodes_return)
  have props: "decodes (if coder_flags (length mid) (i \<noteq> 1) (ps \<noteq> []) AND 0x20 \<noteq> 0
       then bindP read_variable_u64 (\<lambda>sz. bindP (liftE (hb_size bnd sz)) (\<lambda>n.
              bindP (read_exact n) (\<lambda>props. returnP (set_properties c props))))
       else returnP c) (if ps \<noteq> [] then write_u64 (of_nat (length ps)) @ ps @ [] else [])
      (if ps \<noteq> [] then set_properties c ps else c)" for c
    by (auto simp: fl intro!: decodes_variable_bind decodes_bind_lift [OF sz] decodes_bind [OF decodes_exact] decodes_return
        simp del: append_Nil2) (simp add: decodes_return)?
  have body: "coder_bytes (mid, i, ps) = coder_flags (length mid) (i \<noteq> 1) (ps \<noteq> []) # mid
     @ (if i \<noteq> 1 then write_u64 i @ write_u64 1 else [])
     @ (if ps \<noteq> [] then write_u64 (of_nat (length ps)) @ ps @ [] else []) @ []"
    by (simp add: coder_bytes_def)
  show ?thesis
    unfolding read_coder_def body Let_def
    apply (rule decodes_u8_bind, rule decodes_bind_lift, simp only: fl(1), rule cd(1), rule decodes_bind)
     apply (simp only: cd(2), rule decodes_exact)
    apply (rule decodes_bind, rule counts, simp only: prod.case)
    apply (rule decodes_bind_lift, rule check_stream_counts_ok [OF assms(2-5) ok(2) assms(6)], simp only: prod.case)
    apply (rule decodes_bind, rule props)
    by (simp add: fl built_coder_def cd(1) decodes_return)
qed

lemma read_coders_decodes:
  assumes "\<forall>x \<in> set xs. coder_allowed bnd x" "t + inputs_of xs \<le> 64" "u + length xs \<le> 64"
    "count_allowed bnd (t + inputs_of xs)" "count_allowed bnd (u + length xs)"
    "1 \<le> max_streams_per_coder (hb_limits bnd)"
  shows "decodes (read_coders bnd (length xs) (of_nat t) (of_nat u)) (concat (map coder_bytes xs))
     (map built_coder xs, of_nat (t + inputs_of xs), of_nat (u + length xs))"
  using assms
proof (induction xs arbitrary: t u)
  case Nil
  then show ?case by (simp add: inputs_of_def decodes_def)
next
  case (Cons x xs)
  obtain mid i ps where x: "x = (mid, i, ps)" by (cases x)
  have sum: "inputs_of (x # xs) = unat i + inputs_of xs" by (simp add: x inputs_of_def)
  have one: "decodes (read_coder bnd (of_nat t) (of_nat u)) (coder_bytes (mid, i, ps))
     (built_coder (mid, i, ps), of_nat (t + unat i), of_nat (u + 1))"
    using Cons.prems sum x
    by (intro coder_decodes) (auto elim: count_allowed_mono)
  have "decodes (read_coders bnd (length xs) (of_nat (t + unat i)) (of_nat (u + 1))) (concat (map coder_bytes xs))
     (map built_coder xs, of_nat (t + unat i + inputs_of xs), of_nat (u + 1 + length xs))"
    using Cons.prems sum by (intro Cons.IH) (auto simp: add.assoc)
  note two = decodes_bind [OF this, of "\<lambda>r. case r of (cs, t) \<Rightarrow> returnP (built_coder x # cs, t)" "[]"]
  have "decodes (bindP (read_coders bnd (length xs) (of_nat (t + unat i)) (of_nat (u + 1)))
       (\<lambda>r. case r of (cs, t) \<Rightarrow> returnP (built_coder x # cs, t))) (concat (map coder_bytes xs))
     (map built_coder (x # xs), of_nat (t + inputs_of (x # xs)), of_nat (u + length (x # xs)))"
    using two by (simp add: decodes_return sum add.assoc)
  with decodes_bind [OF one, of "\<lambda>(cd, ti, to'). bindP (read_coders bnd (length xs) ti to')
      (\<lambda>r. case r of (cs, t) \<Rightarrow> returnP (cd # cs, t))"]
  show ?case by (simp add: x)
qed

section \<open>A folder\<close>

definition pair_bytes :: "bind_pair \<Rightarrow> byte list" where
  "pair_bytes p = write_u64 (in_index p) @ write_u64 (out_index p)"

definition folder_bytes :: "coder_spec list \<Rightarrow> bind_pair list \<Rightarrow> u64 list \<Rightarrow> byte list" where
  "folder_bytes xs bps packed =
     write_u64 (of_nat (length xs)) @ concat (map coder_bytes xs) @ concat (map pair_bytes bps)
     @ (if 1 < length packed then concat (map write_u64 packed) else [])"

definition built_block :: "coder_spec list \<Rightarrow> bind_pair list \<Rightarrow> u64 list \<Rightarrow> block" where
  "built_block xs bps packed =
     set_streams (with_coders (map built_coder xs)) (inputs_of xs) (length xs) bps packed []"

text \<open>What the reader's limits ask of a folder, and the shape that makes it decodable.\<close>

definition folder_allowed :: "header_bounds \<Rightarrow> coder_spec list \<Rightarrow> bool" where
  "folder_allowed bnd xs \<longleftrightarrow> xs \<noteq> [] \<and> length xs \<le> 64 \<and> inputs_of xs \<le> 64 \<and> (\<forall>x \<in> set xs. coder_allowed bnd x)
     \<and> count_allowed bnd (length xs) \<and> count_allowed bnd (inputs_of xs)
     \<and> length xs \<le> unat (max_coders_per_block (hb_limits bnd)) \<and> 1 \<le> max_streams_per_coder (hb_limits bnd)"

definition folder_shape :: "coder_spec list \<Rightarrow> bind_pair list \<Rightarrow> u64 list \<Rightarrow> bool" where
  "folder_shape xs bps packed \<longleftrightarrow> Suc (length bps) = length xs \<and> length bps + length packed = inputs_of xs
     \<and> packed \<noteq> [] \<and> (\<forall>p \<in> set bps. unat (in_index p) < inputs_of xs \<and> unat (out_index p) < length xs)
     \<and> decodable (built_block xs bps packed)"

lemma built_block_tables [simp]:
  "total_input_streams (built_block xs bps packed) = inputs_of xs"
  "total_output_streams (built_block xs bps packed) = length xs"
  "bind_pairs (built_block xs bps packed) = bps" "packed_streams (built_block xs bps packed) = packed"
  "coders (built_block xs bps packed) = map built_coder xs"
  "has_crc (built_block xs bps packed) = False"
  by (simp_all add: built_block_def set_streams_tables with_coders_def)

lemma built_coder_counts:
  "coder_allowed bnd x \<Longrightarrow> num_in_streams (built_coder x) = fst (snd x) \<and> num_out_streams (built_coder x) = 1"
  using built_coder_view [of "fst x" "fst (snd x)" "snd (snd x)"]
  by (auto simp: coder_allowed_def num_in_streams_def num_out_streams_def)

lemma built_block_ranges:
  assumes "\<forall>x \<in> set xs. coder_allowed bnd x" "folder_shape xs bps packed"
  shows "block_ranges (built_block xs bps packed)"
proof -
  have "sum_list (map (\<lambda>c. unat (num_in_streams c)) (map built_coder xs)) = inputs_of xs"
    unfolding inputs_of_def map_map using built_coder_counts assms(1)
    by (intro arg_cong [where f = sum_list] map_cong) auto
  moreover have "sum_list (map (\<lambda>c. unat (num_out_streams c)) (map built_coder xs)) = length xs"
    using built_coder_counts assms(1) by (induction xs) auto
  ultimately show ?thesis
    using assms(2) unfolding block_ranges_def built_block_tables folder_shape_def in_indices_def out_indices_def
    by auto
qed

lemma implied_packed_stream_ok:
  assumes "folder_shape xs bps [p]" "inputs_of xs \<le> 64"
  shows "implied_packed_stream (inputs_of xs) bps = Inr p"
proof -
  let ?n = "inputs_of xs" and ?P = "\<lambda>i. \<not> list_ex (\<lambda>bp. in_index bp = of_nat i) bps"
  have d: "distinct (map (\<lambda>bp. unat (in_index bp)) bps @ [unat p])"
    "set (map (\<lambda>bp. unat (in_index bp)) bps @ [unat p]) = {..<?n}"
    using assms(1) by (auto simp: folder_shape_def decodable_def in_indices_def)
  then have p: "unat p < ?n" "unat p \<notin> (\<lambda>bp. unat (in_index bp)) ` set bps" by auto
  have u: "i \<le> 64 \<Longrightarrow> unat (of_nat i :: u64) = i" for i by (simp add: unat_of_usize usize_max_def)
  have "?P i \<longleftrightarrow> i = unat p" if "i < ?n" for i
  proof -
    have "?P i \<longleftrightarrow> i \<notin> (\<lambda>bp. unat (in_index bp)) ` set bps"
      using u [of i] that assms(2) by (auto simp: list_ex_iff word_unat_eq_iff)
    also have "\<dots> \<longleftrightarrow> i = unat p" using d that p by auto
    finally show ?thesis .
  qed
  note only = this
  with p(1) have "?P (unat p)" by blast
  with only p(1) have "find ?P [0..<?n] = Some (unat p)"
    unfolding find_Some_iff by (intro exI [of _ "unat p"]) auto
  moreover have "p \<noteq> - 1"
  proof
    assume "p = - 1"
    then have "unat p = 2 ^ 64 - 1" by (simp add: unsigned_minus_1_eq_mask mask_eq_exp_minus_1)
    with p(1) assms(2) show False by simp
  qed
  ultimately show ?thesis by (simp add: implied_packed_stream_def)
qed

lemma hb_count_coders:
  "count_allowed bnd n \<Longrightarrow> n \<le> unat (max_coders_per_block (hb_limits bnd)) \<Longrightarrow>
     hb_count bnd (of_nat n) CodersPerBlock = Inr n"
  by (simp add: count_allowed_def hb_count_Inr_iff limit_cap_def unat_of_usize)

lemma bind_pair_decodes:
  assumes "unat (in_index p) < n" "unat (out_index p) < m" "n \<le> 64" "m \<le> 64"
  shows "decodes (read_bind_pair n m) (pair_bytes p) p"
proof -
  have "\<not> (of_nat n \<le> in_index p \<or> of_nat m \<le> out_index p)"
    using assms of_nat_le_u64 by (auto simp: not_le)
  moreover have "decodes (returnP \<lparr>in_index = in_index p, out_index = out_index p\<rparr>) [] p"
    by (simp add: decodes_def)
  ultimately have "decodes (bindP read_variable_u64 (\<lambda>k. if of_nat n \<le> in_index p \<or> of_nat m \<le> k
        then failP (Corrupted ''bind pair references an out-of-range stream'')
        else returnP \<lparr>in_index = in_index p, out_index = k\<rparr>)) (write_u64 (out_index p) @ []) p"
    by (intro decodes_variable_bind) simp
  then show ?thesis
    unfolding read_bind_pair_def pair_bytes_def by (intro decodes_variable_bind) simp
qed

lemma replicateP_decodes:
  "\<forall>x \<in> set xs. decodes p (enc x) x \<Longrightarrow> decodes (replicateP (length xs) p) (concat (map enc xs)) xs"
proof (induction xs)
  case (Cons x xs)
  then have "decodes (bindP (replicateP (length xs) p) (\<lambda>ys. returnP (x # ys))) (concat (map enc xs)) (x # xs)"
    by (auto intro!: decodes_bind_end decodes_return)
  with Cons.prems show ?case by (auto intro!: decodes_bind)
qed (simp add: decodes_def)

lemma folder_decodes:
  assumes "folder_allowed bnd xs" "folder_shape xs bps packed"
  shows "decodes (read_block bnd) (folder_bytes xs bps packed) (built_block xs bps packed)"
proof -
  from assms(1) have a: "xs \<noteq> []" "length xs \<le> 64" "inputs_of xs \<le> 64" "\<forall>x \<in> set xs. coder_allowed bnd x"
    "count_allowed bnd (length xs)" "count_allowed bnd (inputs_of xs)"
    "length xs \<le> unat (max_coders_per_block (hb_limits bnd))" "1 \<le> max_streams_per_coder (hb_limits bnd)"
    by (simp_all add: folder_allowed_def)
  from assms(2) have s: "length bps = length xs - 1" "length packed = inputs_of xs - (length xs - 1)"
    "\<not> inputs_of xs < length xs - 1" "length packed \<noteq> 0"
    "\<forall>p \<in> set bps. unat (in_index p) < inputs_of xs \<and> unat (out_index p) < length xs"
    by (auto simp: folder_shape_def)
  have u: "unat (of_nat (inputs_of xs) :: u64) = inputs_of xs" "unat (of_nat (length xs) :: u64) = length xs"
    using a(2,3) by (auto intro!: unat_of_usize simp: usize_max_def)
  have cds: "decodes (read_coders bnd (length xs) 0 0) (concat (map coder_bytes xs))
     (map built_coder xs, of_nat (inputs_of xs), of_nat (length xs))"
    using read_coders_decodes [of xs bnd 0 0] a by simp
  have pairs: "decodes (replicateP (length bps) (read_bind_pair (inputs_of xs) (length xs)))
      (concat (map pair_bytes bps)) bps"
    using a(2,3) s(5) by (intro replicateP_decodes ballI bind_pair_decodes) auto
  have pk: "decodes (if length packed = 1
        then bindP (liftE (implied_packed_stream (inputs_of xs) bps)) (\<lambda>i. returnP [i])
        else replicateP (length packed) read_variable_u64)
      (if 1 < length packed then concat (map write_u64 packed) else []) packed"
  proof (cases "length packed = 1")
    case True
    then obtain p where p: "packed = [p]" by (cases packed) auto
    then show ?thesis
      using implied_packed_stream_ok [of xs bps p] assms(2) a(3) by (simp add: decodes_def)
  next
    case False
    with s(4) show ?thesis using decodes_variable_list [of "length packed" packed] by (cases packed) auto
  qed
  have v: "validate_coder_graph (built_block xs bps packed) = Inr ()"
    using validate_coder_graph_iff [OF built_block_ranges [OF a(4) assms(2)]] assms(2)
    by (simp add: folder_shape_def)
  have n64: "\<not> MAX_BLOCK_CODERS_AND_STREAMS < of_nat (length xs)"
    using a(2) u(2) by (simp add: MAX_BLOCK_CODERS_AND_STREAMS_def word_less_nat_alt)
  have out: "unat (of_nat (length xs) :: u64) = 0 \<longleftrightarrow> False" using a(1) u(2) by simp
  have body: "folder_bytes xs bps packed = write_u64 (of_nat (length xs)) @ concat (map coder_bytes xs)
     @ concat (map pair_bytes bps) @ (if 1 < length packed then concat (map write_u64 packed) else []) @ []"
    by (simp add: folder_bytes_def)
  show ?thesis
    unfolding read_block_def body
    apply (rule decodes_variable_bind, rule decodes_bind_lift, rule hb_count_coders [OF a(5,7)])
    apply (subst if_not_P, rule n64, rule decodes_bind, rule cds)
    apply (simp only: prod.case Let_def u, subst if_not_P, use a(1) in simp)
    apply (rule decodes_bind, simp only: s(1) [symmetric], rule pairs)
    apply (subst if_not_P, rule s(3), simp only: s(2) [symmetric], subst if_not_P, rule s(4))
    apply (rule decodes_bind, rule pk)
    by (simp add: v [unfolded built_block_def] built_block_def decodes_def)
qed

section \<open>Coders that only depend on earlier ones\<close>

text \<open>A sufficient shape: each input is fed by the packed streams or by a coder written before.\<close>

definition fed_by_earlier :: "block \<Rightarrow> bool" where
  "fed_by_earlier b \<longleftrightarrow> (\<forall>c < length (coders b). \<forall>s < nin b c. \<forall>p \<in> set (bind_pairs b).
     in_index p = of_nat (first_in b c + s) \<longrightarrow> unat (out_index p) < c)"

lemma owners_one:
  assumes "\<forall>c \<in> set cs. num_out_streams c = 1"
  shows "owners num_out_streams cs = [0..<length cs]"
proof -
  have "map (\<lambda>ci. replicate (unat (num_out_streams (cs ! ci))) ci) [0..<length cs] = map (\<lambda>ci. [ci]) [0..<length cs]"
    using assms by (intro map_cong) auto
  moreover have "concat (map (\<lambda>ci. [ci]) ys) = ys" for ys :: "nat list" by (induction ys) auto
  ultimately show ?thesis unfolding owners_def by (simp only:)
qed

lemma fed_by_earlier_acyclic:
  assumes "\<forall>c \<in> set (coders b). num_out_streams c = 1" "fed_by_earlier b"
  shows "(x, x) \<notin> (coder_graph b)\<^sup>+"
proof -
  have "d < c" if "(c, d) \<in> coder_graph b" for c d
  proof -
    from that obtain s p where s: "c < length (coders b)" "s < nin b c" "d = [0..<length (coders b)] ! unat (out_index p)"
        and p: "find (\<lambda>bp. in_index bp = of_nat (first_in b c + s)) (bind_pairs b) = Some p"
      unfolding coder_graph_def graph_def edge_at_def owners_one [OF assms(1)] find_bind_pair_for_in_stream_def
      by auto
    from p have "p \<in> set (bind_pairs b)" "in_index p = of_nat (first_in b c + s)"
      unfolding find_Some_iff by (metis nth_mem)+
    with assms(2) s(1,2) have "unat (out_index p) < c" by (auto simp: fed_by_earlier_def simp del: of_nat_add)
    with s show "d < c" by simp
  qed
  then have "coder_graph b \<subseteq> less_than\<inverse>" by auto
  moreover have "acyclic (less_than\<inverse>)" by (simp add: acyclic_converse wf_acyclic)
  ultimately show ?thesis by (meson acyclic_def acyclic_subset)
qed

lemma built_one_output: "\<forall>x \<in> set xs. coder_allowed bnd x \<Longrightarrow> \<forall>c \<in> set (coders (built_block xs bps packed)). num_out_streams c = 1"
  using built_coder_counts by auto

lemma folder_shapeI:
  assumes "xs \<noteq> []" "packed \<noteq> []" "\<forall>x \<in> set xs. coder_allowed bnd x"
    and ins: "distinct (in_indices bps @ map unat packed)"
      "set (in_indices bps @ map unat packed) = {..<inputs_of xs}"
    and outs: "distinct (out_indices bps)" "set (out_indices bps) = {..<length xs - 1}"
    and "fed_by_earlier (built_block xs bps packed)"
  shows "folder_shape xs bps packed"
proof -
  have n: "length bps = length xs - 1"
    using distinct_card [OF outs(1)] outs(2) by (simp add: out_indices_def)
  have "length (in_indices bps @ map unat packed) = inputs_of xs"
    using distinct_card [OF ins(1)] ins(2) by (simp only: card_lessThan)
  then have m: "length bps + length packed = inputs_of xs" by (simp add: in_indices_def)
  have ub: "unbound_outputs (built_block xs bps packed) = [length xs - 1]"
  proof -
    have "[0..<length xs] = [0..<length xs - 1] @ [length xs - 1]"
      using assms(1) upt_Suc_append [of 0 "length xs - 1"] by simp
    then show ?thesis by (simp add: unbound_outputs_def outs(2))
  qed
  have "decodable (built_block xs bps packed)"
    unfolding decodable_def built_block_tables using ins outs(1) ub
      fed_by_earlier_acyclic [OF built_one_output [OF assms(3)] assms(8)] by simp
  moreover have "unat (in_index p) < inputs_of xs \<and> unat (out_index p) < length xs" if "p \<in> set bps" for p
  proof
    have "unat (in_index p) \<in> set (in_indices bps @ map unat packed)" using that by (simp add: in_indices_def)
    then show "unat (in_index p) < inputs_of xs" unfolding ins(2) by simp
    have "unat (out_index p) \<in> set (out_indices bps)" using that by (simp add: out_indices_def)
    then show "unat (out_index p) < length xs" unfolding outs(2) by simp
  qed
  ultimately show ?thesis using assms(1,2) n m by (auto simp: folder_shape_def)
qed

section \<open>A chain of coders\<close>

definition method_spec :: "header_method \<Rightarrow> coder_spec" where
  "method_spec m = (hm_id m, 1, hm_properties m)"

definition chain_pairs :: "nat \<Rightarrow> bind_pair list" where
  "chain_pairs n = map (\<lambda>i. \<lparr>in_index = of_nat i + 1, out_index = of_nat i\<rparr>) [0..<n - 1]"

text \<open>The length of the properties is one byte here, and a variable-length number for the reader.\<close>

lemma write_single_codec_bytes:
  assumes "length (hm_properties m) < 128"
  shows "write_single_codec m = coder_bytes (method_spec m)"
proof -
  have l: "unat (of_nat (length (hm_properties m)) :: u64) = length (hm_properties m)"
    using assms by (intro unat_of_usize) (simp add: usize_max_def)
  then have "(of_nat (length (hm_properties m)) :: u64) < 0x80" using assms by (simp add: word_less_nat_alt)
  note small = write_u64_small [OF this]
  have "ucast (of_nat (length (hm_properties m)) :: u64) = (of_nat (length (hm_properties m)) :: u8)"
    using assms by (simp add: unsigned_of_nat take_bit_nat_eq_self)
  with small show ?thesis
    by (auto simp: write_single_codec_def coder_bytes_def method_spec_def coder_flags_def Let_def)
qed

lemma inputs_of_methods: "inputs_of (map method_spec ms) = length ms"
  by (induction ms) (auto simp: inputs_of_def method_spec_def)

lemma unat_small: "i \<le> 64 \<Longrightarrow> unat (of_nat i :: u64) = i"
  by (simp add: unat_of_usize usize_max_def)

lemma nth_first_in:
  assumes "\<forall>c \<in> set (take c (coders b)). num_in_streams c = 1" "c \<le> length (coders b)"
  shows "first_in b c = c"
proof -
  have "(\<Sum>x\<leftarrow>xs. unat (num_in_streams x)) = length xs" if "\<forall>c \<in> set xs. num_in_streams c = 1" for xs
    using that by (induction xs) auto
  from this [OF assms(1)] assms(2) show ?thesis by (simp add: first_in_def)
qed

lemma unat_chain: "i < 64 \<Longrightarrow> unat (of_nat i + 1 :: u64) = Suc i"
  using unat_small [of "Suc i"] by (simp add: add.commute)

lemma chain_shape:
  assumes "ms \<noteq> []" "length ms \<le> 64" "\<forall>x \<in> set (map method_spec ms). coder_allowed bnd x"
  shows "folder_shape (map method_spec ms) (chain_pairs (length ms)) [0]"
proof (rule folder_shapeI [where bnd = bnd])
  let ?n = "length ms" and ?b = "built_block (map method_spec ms) (chain_pairs (length ms)) [0]"
  have i: "in_indices (chain_pairs ?n) = map Suc [0..<?n - 1]"
    using assms(2) by (auto simp: in_indices_def chain_pairs_def unat_chain)
  have o: "out_indices (chain_pairs ?n) = [0..<?n - 1]"
    using assms(2) by (auto simp: out_indices_def chain_pairs_def unat_small intro!: map_idI)
  show "distinct (in_indices (chain_pairs ?n) @ map unat [0 :: u64])" by (simp add: i distinct_map)
  have "Suc ` {0..<?n - 1} = {Suc 0..<?n}" using assms(1) image_Suc_atLeastLessThan [of 0 "?n - 1"] by simp
  then show "set (in_indices (chain_pairs ?n) @ map unat [0 :: u64]) = {..<inputs_of (map method_spec ms)}"
    using assms(1) by (auto simp: i inputs_of_methods)
  show "distinct (out_indices (chain_pairs ?n))" "set (out_indices (chain_pairs ?n)) = {..<length (map method_spec ms) - 1}"
    by (auto simp: o)
  have one: "num_in_streams c = 1" if "c \<in> set (coders ?b)" for c
    using that assms(3) built_coder_counts by (auto simp: method_spec_def)
  show "fed_by_earlier ?b"
    unfolding fed_by_earlier_def
  proof (intro allI impI ballI)
    fix c s p
    assume c: "c < length (coders ?b)" "s < nin ?b c" and p: "p \<in> set (bind_pairs ?b)"
      and e: "in_index p = of_nat (first_in ?b c + s)"
    have "nin ?b c = 1" using one c(1) by (simp add: nin_def del: built_block_tables)
    moreover have "first_in ?b c = c" using one c(1) by (intro nth_first_in) (auto dest: in_set_takeD)
    ultimately have "in_index p = of_nat c" using e c(2) by simp
    moreover from p obtain i where "i < ?n - 1" "in_index p = of_nat i + 1" "out_index p = of_nat i"
      by (auto simp: chain_pairs_def)
    moreover have "c < 64" using c(1) assms(2) by simp
    ultimately have "c = Suc i" "unat (out_index p) = i"
      using unat_small [of c] unat_chain [of i] unat_small [of i] assms(2) by auto
    then show "unat (out_index p) < c" by simp
  qed
qed (use assms in auto)

lemma write_folder_chain:
  assumes "ms \<noteq> []" "hm_id (last ms) \<noteq> ID_BCJ2" "\<forall>m \<in> set ms. length (hm_properties m) < 128"
  shows "write_folder ms = Inr (folder_bytes (map method_spec ms) (chain_pairs (length ms)) [0])"
proof -
  have "concat (map write_single_codec ms) = concat (map (\<lambda>m. coder_bytes (method_spec m)) ms)"
    using assms(3) write_single_codec_bytes by (intro arg_cong [where f = concat] map_cong) auto
  then show ?thesis
    using assms(1,2) by (simp add: write_folder_def folder_bytes_def chain_pairs_def pair_bytes_def o_def)
qed

text \<open>A folder that is not BCJ2 reads back as the block of its methods, each feeding the next.\<close>

lemma chain_decodes:
  assumes "ms \<noteq> []" "hm_id (last ms) \<noteq> ID_BCJ2" "\<forall>m \<in> set ms. length (hm_properties m) < 128"
    "folder_allowed bnd (map method_spec ms)" "write_folder ms = Inr bs"
  shows "decodes (read_block bnd) bs (built_block (map method_spec ms) (chain_pairs (length ms)) [0])"
proof -
  have "folder_shape (map method_spec ms) (chain_pairs (length ms)) [0]"
    using assms(1,4) by (intro chain_shape [where bnd = bnd]) (auto simp: folder_allowed_def)
  from folder_decodes [OF assms(4) this] show ?thesis
    using write_folder_chain [OF assms(1-3)] assms(5) by simp
qed

section \<open>BCJ2\<close>

definition bcj2_specs :: "header_method list \<Rightarrow> coder_spec list" where
  "bcj2_specs ms = [(ID_LZMA, 1, bcj2_side_properties), (ID_LZMA, 1, bcj2_side_properties)]
     @ map method_spec (butlast ms) @ [(ID_BCJ2, 4, [])]"

definition bcj2_pairs :: "nat \<Rightarrow> bind_pair list" where
  "bcj2_pairs k = map (\<lambda>(i, j). \<lparr>in_index = of_nat i, out_index = of_nat j\<rparr>)
     ([(k + 4, 0), (k + 3, 1), (k + 2, k + 1)] @ map (\<lambda>i. (2 + i, 1 + i)) (rev [1..<k]))"

definition bcj2_packed :: "nat \<Rightarrow> u64 list" where
  "bcj2_packed k = map of_nat [2, k + 5, 1, 0]"

lemma length_bcj2_side_properties: "length bcj2_side_properties = 5"
  by (simp add: bcj2_side_properties_def write_u32_def)

lemma bcj2_side_not_Nil: "bcj2_side_properties \<noteq> []"
  by (simp add: bcj2_side_properties_def)

lemma write_folder_bcj2:
  assumes "ms \<noteq> []" "hm_id (last ms) = ID_BCJ2" "\<forall>m \<in> set (butlast ms). length (hm_properties m) < 128"
  shows "write_folder ms = Inr (folder_bytes (bcj2_specs ms) (bcj2_pairs (length ms - 1)) (bcj2_packed (length ms - 1)))"
proof -
  have b: "butlast ms = take (length ms - 1) ms" by (rule butlast_conv_take)
  have methods: "map write_single_codec (take (length ms - 1) ms) = map coder_bytes (map method_spec (butlast ms))"
    using assms(3) write_single_codec_bytes unfolding b by auto
  have side: "[of_nat (length ID_LZMA) OR 0x20] @ ID_LZMA
       @ [of_nat (length bcj2_side_properties)] @ bcj2_side_properties
     = coder_bytes (ID_LZMA, 1, bcj2_side_properties)"
    using write_single_codec_bytes [of "\<lparr>hm_id = ID_LZMA, hm_properties = bcj2_side_properties\<rparr>"]
    by (simp add: write_single_codec_def method_spec_def Let_def length_bcj2_side_properties bcj2_side_not_Nil)
  have main: "[of_nat (length ID_BCJ2) OR 0x10] @ ID_BCJ2 @ write_u64 4 @ write_u64 1 = coder_bytes (ID_BCJ2, 4, [])"
    by (simp add: coder_bytes_def coder_flags_def)
  have len: "length (bcj2_specs ms) = length ms - 1 + 3" using assms(1) by (simp add: bcj2_specs_def)
  have "write_bcj2_to ms = folder_bytes (bcj2_specs ms) (bcj2_pairs (length ms - 1)) (bcj2_packed (length ms - 1))"
    unfolding write_bcj2_to_def folder_bytes_def len Let_def methods
    using side main
    by (simp add: bcj2_specs_def bcj2_pairs_def bcj2_packed_def pair_bytes_def o_def add.commute)
  with assms(1,2) show ?thesis by (simp add: write_folder_def)
qed

lemma bcj2_lengths:
  assumes "ms \<noteq> []" "length ms - 1 = k"
  shows "length (bcj2_specs ms) = k + 3" "inputs_of (bcj2_specs ms) = k + 6"
proof -
  show "length (bcj2_specs ms) = k + 3" using assms by (simp add: bcj2_specs_def)
  have "inputs_of (bcj2_specs ms) = 2 + inputs_of (map method_spec (butlast ms)) + 4"
    by (simp add: bcj2_specs_def inputs_of_def)
  then show "inputs_of (bcj2_specs ms) = k + 6" using assms(2) by (simp add: inputs_of_methods)
qed

lemma map_unat_small: "\<forall>i \<in> set is. i \<le> 64 \<Longrightarrow> map (\<lambda>i. unat (of_nat i :: u64)) is = is"
  by (rule map_idI) (simp add: unat_small)

lemma index_pairs:
  assumes "\<forall>e \<in> set es. fst e \<le> 64 \<and> snd e \<le> 64"
  defines "bps \<equiv> map (\<lambda>(i, j). \<lparr>in_index = of_nat i, out_index = of_nat j\<rparr>) es"
  shows "in_indices bps = map fst es" "out_indices bps = map snd es"
  using assms by (auto simp: in_indices_def out_indices_def unat_small)

lemma bcj2_indices:
  assumes "1 \<le> k" "k + 6 \<le> 64"
  shows "in_indices (bcj2_pairs k) = [k + 4, k + 3, k + 2] @ map (\<lambda>i. 2 + i) (rev [1..<k])"
    and "out_indices (bcj2_pairs k) = [0, 1, k + 1] @ map (\<lambda>i. 1 + i) (rev [1..<k])"
    and "map unat (bcj2_packed k) = [2, k + 5, 1, 0]"
proof -
  let ?es = "[(k + 4, 0), (k + 3, 1), (k + 2, k + 1)] @ map (\<lambda>i. (2 + i, 1 + i)) (rev [1..<k])"
  have "\<forall>e \<in> set ?es. fst e \<le> 64 \<and> snd e \<le> 64" using assms by auto
  note ix = index_pairs [OF this, folded bcj2_pairs_def]
  show "in_indices (bcj2_pairs k) = [k + 4, k + 3, k + 2] @ map (\<lambda>i. 2 + i) (rev [1..<k])"
    unfolding ix by simp
  show "out_indices (bcj2_pairs k) = [0, 1, k + 1] @ map (\<lambda>i. 1 + i) (rev [1..<k])"
    unfolding ix by simp
  show "map unat (bcj2_packed k) = [2, k + 5, 1, 0]"
    unfolding bcj2_packed_def map_map o_def using assms by (intro map_unat_small) simp
qed

lemma upto_split:
  "set (map (\<lambda>i. c + i) (rev [1..<k])) = {c + 1..<c + k}" "distinct (map (\<lambda>i. c + i) (rev [1..<k]))"
proof -
  have "i \<in> (\<lambda>i. c + i) ` {1..<k}" if "c + 1 \<le> i" "i < c + k" for i
    using that by (intro image_eqI [of _ _ "i - c"]) auto
  then show "set (map (\<lambda>i. c + i) (rev [1..<k])) = {c + 1..<c + k}" by auto
  show "distinct (map (\<lambda>i. c + i) (rev [1..<k]))" by (simp add: distinct_map)
qed

lemma bcj2_shape:
  assumes "2 \<le> length ms" "inputs_of (bcj2_specs ms) \<le> 64" "\<forall>x \<in> set (bcj2_specs ms). coder_allowed bnd x"
  shows "folder_shape (bcj2_specs ms) (bcj2_pairs (length ms - 1)) (bcj2_packed (length ms - 1))"
proof (rule folder_shapeI [where bnd = bnd])
  define k where "k = length ms - 1"
  let ?xs = "bcj2_specs ms" and ?bps = "bcj2_pairs k" and ?pk = "bcj2_packed k"
  have ms: "ms \<noteq> []" and k: "1 \<le> k" using assms(1) by (auto simp: k_def)
  note len = bcj2_lengths [OF ms k_def [symmetric]]
  then have k64: "k + 6 \<le> 64" using assms(2) by simp
  note ix = bcj2_indices [OF k k64]
  show "distinct (in_indices (bcj2_pairs (length ms - 1)) @ map unat (bcj2_packed (length ms - 1)))"
    unfolding k_def [symmetric] ix distinct_append set_append upto_split(1) using k by (intro conjI upto_split(2)) auto
  show "set (in_indices (bcj2_pairs (length ms - 1)) @ map unat (bcj2_packed (length ms - 1))) = {..<inputs_of ?xs}"
    unfolding k_def [symmetric] ix set_append upto_split(1) len using k by auto
  show "distinct (out_indices (bcj2_pairs (length ms - 1)))"
    unfolding k_def [symmetric] ix distinct_append set_append upto_split(1) using k by (intro conjI upto_split(2)) auto
  show "set (out_indices (bcj2_pairs (length ms - 1))) = {..<length ?xs - 1}"
    unfolding k_def [symmetric] ix set_append upto_split(1) len using k by auto
  let ?b = "built_block ?xs ?bps ?pk"
  have cs: "coders ?b = map built_coder ?xs" by simp
  have allowed: "coder_allowed bnd x" if "x \<in> set ?xs" for x using assms(3) that by blast
  have one: "num_in_streams c = 1" if "c \<in> set (take (k + 2) (coders ?b))" for c
  proof -
    have "take (k + 2) ?xs = [(ID_LZMA, 1, bcj2_side_properties), (ID_LZMA, 1, bcj2_side_properties)] @ map method_spec (butlast ms)"
      using k_def ms by (cases "length ms") (auto simp: bcj2_specs_def)
    then have "\<forall>x \<in> set (take (k + 2) ?xs). fst (snd x) = 1" by (auto simp: method_spec_def)
    moreover have "c \<in> built_coder ` set (take (k + 2) ?xs)"
      using that unfolding cs take_map by simp
    ultimately obtain x where "x \<in> set (take (k + 2) ?xs)" "fst (snd x) = 1" "c = built_coder x"
      by auto
    then show ?thesis using built_coder_counts [OF allowed] by (metis in_set_takeD)
  qed
  have last: "num_in_streams (coders ?b ! (k + 2)) = 4"
  proof -
    have "?xs ! (k + 2) = (ID_BCJ2, 4, [])"
      using k_def ms by (simp add: bcj2_specs_def nth_append)
    moreover have "?xs ! (k + 2) \<in> set ?xs" using len by simp
    ultimately show ?thesis using built_coder_counts [OF allowed, of "?xs ! (k + 2)"] len(1) by (simp add: cs)
  qed
  show "fed_by_earlier (built_block ?xs (bcj2_pairs (length ms - 1)) (bcj2_packed (length ms - 1)))"
    unfolding k_def [symmetric] fed_by_earlier_def
  proof (intro allI impI ballI)
    fix c s p
    assume c: "c < length (coders ?b)" "s < nin ?b c" and p: "p \<in> set (bind_pairs ?b)"
      and e: "in_index p = of_nat (first_in ?b c + s)"
    have c2: "c \<le> k + 2" using c(1) len by simp
    have sub: "take c (coders ?b) = take c (take (k + 2) (coders ?b))" using c2 by (simp add: min_def)
    have fi: "first_in ?b c = c"
      using one c(1) by (intro nth_first_in) (auto simp only: sub dest: in_set_takeD)
    have nin: "nin ?b c = (if c = k + 2 then 4 else 1)"
    proof (cases "c = k + 2")
      case False
      then have "coders ?b ! c \<in> set (take (k + 2) (coders ?b))"
        using c2 c(1) by (auto simp: in_set_conv_nth simp del: built_block_tables)
      with False show ?thesis by (simp add: nin_def one del: built_block_tables)
    qed (use last in \<open>simp add: nin_def del: built_block_tables\<close>)
    have "unat (in_index p) = c + s"
      using e fi nin c2 c(2) k64 by (simp only:) (subst unat_small, auto split: if_splits)
    moreover have "(unat (in_index p), unat (out_index p)) \<in> set (zip (in_indices ?bps) (out_indices ?bps))"
      using p by (auto simp: in_indices_def out_indices_def zip_map_map zip_same_conv_map)
    then have "(unat (in_index p), unat (out_index p)) \<in> {(k + 4, 0), (k + 3, 1), (k + 2, k + 1)}
        \<or> (\<exists>i \<in> {1..<k}. unat (in_index p) = 2 + i \<and> unat (out_index p) = 1 + i)"
      unfolding ix by (auto simp: zip_map_map zip_same_conv_map)
    ultimately show "unat (out_index p) < c" using nin c(2) k by (auto split: if_splits)
  qed
qed (use assms in \<open>auto simp: bcj2_specs_def bcj2_packed_def\<close>)

lemma bcj2_decodes:
  assumes "2 \<le> length ms" "hm_id (last ms) = ID_BCJ2" "\<forall>m \<in> set (butlast ms). length (hm_properties m) < 128"
    "folder_allowed bnd (bcj2_specs ms)" "write_folder ms = Inr bs"
  shows "decodes (read_block bnd) bs
     (built_block (bcj2_specs ms) (bcj2_pairs (length ms - 1)) (bcj2_packed (length ms - 1)))"
proof -
  have "folder_shape (bcj2_specs ms) (bcj2_pairs (length ms - 1)) (bcj2_packed (length ms - 1))"
    using assms(1,4) by (intro bcj2_shape [where bnd = bnd]) (auto simp: folder_allowed_def)
  from folder_decodes [OF assms(4) this] show ?thesis
    using write_folder_bcj2 [of ms] assms(1-3,5) by (cases ms) auto
qed

section \<open>A block copied from another archive\<close>

definition same_tables :: "block \<Rightarrow> block \<Rightarrow> bool" where
  "same_tables b b' \<longleftrightarrow> map counts (coders b) = map counts (coders b')
     \<and> total_input_streams b = total_input_streams b' \<and> total_output_streams b = total_output_streams b'
     \<and> bind_pairs b = bind_pairs b' \<and> packed_streams b = packed_streams b'"

lemma decodable_same_tables:
  assumes "same_tables b b'" "decodable b"
  shows "decodable b'"
proof -
  note t = assms(1) [unfolded same_tables_def]
  have l: "length (coders b) = length (coders b')" using t by (metis length_map)
  have c: "counts (coders b ! i) = counts (coders b' ! i)" if "i < length (coders b)" for i
    using t that l by (metis nth_map)
  have f: "find_bind_pair_for_in_stream b = find_bind_pair_for_in_stream b'"
    using t by (simp add: fun_eq_iff find_bind_pair_for_in_stream_def)
  have first: "first_in b i = first_in b' i" for i
  proof -
    have "map counts (take i (coders b)) = map counts (take i (coders b'))"
      using t by (metis take_map)
    then have "map (\<lambda>p. unat (fst p)) (map counts (take i (coders b))) = map (\<lambda>p. unat (fst p)) (map counts (take i (coders b')))"
      by simp
    then show ?thesis by (simp add: first_in_def num_in_streams_def o_def)
  qed
  have ow: "owners num_out_streams (coders b) = owners num_out_streams (coders b')"
    unfolding owners_def l using c l by (intro arg_cong [where f = concat] map_cong) (auto simp: num_out_streams_def)
  have "coder_graph b = coder_graph b'"
    using c l by (auto simp: coder_graph_def graph_def edge_at_def nin_def num_in_streams_def f first ow)
  then show ?thesis
    using assms(2) t by (simp add: decodable_def output_coder_def unbound_outputs_def ow)
qed

definition raw_specs :: "block \<Rightarrow> coder_spec list" where
  "raw_specs b = map spec_of (coders b)"

definition raw_built :: "block \<Rightarrow> block" where
  "raw_built b = built_block (raw_specs b) (bind_pairs b) (packed_streams b)"

lemma built_spec_of:
  assumes "coder_wf c" "num_out_streams c = 1"
  shows "coder_eq (built_coder (spec_of c)) c"
proof -
  have "length (encoder_method_id c) \<le> 15"
    using assms(1) by (auto simp: encoder_method_id_def coder_wf_def split: coder.splits)
  from built_coder_view [OF this] assms show ?thesis
    by (auto simp: spec_of_def coder_eq_def num_in_streams_def num_out_streams_def prod_eq_iff)
qed

lemma write_raw_block_bytes:
  assumes "block_ok bnd b"
  shows "write_raw_block b = folder_bytes (raw_specs b) (bind_pairs b) (packed_streams b)"
proof -
  have "concat (map write_raw_coder (coders b)) = concat (map (\<lambda>c. coder_bytes (spec_of c)) (coders b))"
    using assms write_raw_coder_bytes
    by (intro arg_cong [where f = concat] map_cong) (auto simp: block_ok_def coder_ok_def)
  then show ?thesis by (simp add: write_raw_block_def folder_bytes_def raw_specs_def pair_bytes_def [abs_def] o_def)
qed

lemma raw_block_decodes:
  assumes "block_ok bnd' b" "folder_allowed bnd (raw_specs b)"
  shows "decodes (read_block bnd) (write_raw_block b) (raw_built b)"
    and "list_all2 coder_eq (coders (raw_built b)) (coders b)" "bind_pairs (raw_built b) = bind_pairs b"
    "packed_streams (raw_built b) = packed_streams b"
proof -
  have ok: "coder_wf c \<and> num_out_streams c = 1" if "c \<in> set (coders b)" for c
    using assms(1) that by (simp add: block_ok_def coder_ok_def)
  show eq: "list_all2 coder_eq (coders (raw_built b)) (coders b)"
    using ok built_spec_of by (auto simp: raw_built_def raw_specs_def list_all2_conv_all_nth)
  show "bind_pairs (raw_built b) = bind_pairs b" "packed_streams (raw_built b) = packed_streams b"
    by (simp_all add: raw_built_def)
  have ins: "inputs_of (raw_specs b) = total_input_streams b"
    using assms(1) by (simp add: inputs_of_def raw_specs_def spec_of_def comp_def case_prod_unfold block_ok_def block_ranges_def)
  have "map counts (coders (raw_built b)) = map counts (coders b)"
    using eq by (auto simp: list_all2_conv_all_nth coder_eq_def intro!: nth_equalityI)
  then have "same_tables b (raw_built b)"
    using assms(1) ins by (simp add: same_tables_def raw_built_def raw_specs_def block_ok_def del: map_map)
  moreover have "decodable b" using assms(1) by (simp add: block_ok_def)
  ultimately have "decodable (raw_built b)" by (rule decodable_same_tables)
  moreover have "length (bind_pairs b) + length (packed_streams b) = total_input_streams b"
  proof -
    let ?l = "in_indices (bind_pairs b) @ map unat (packed_streams b)"
    have "distinct ?l" "set ?l = {..<total_input_streams b}"
      using assms(1) by (simp_all add: block_ok_def decodable_def)
    then have "length ?l = total_input_streams b" using distinct_card [of ?l] by (simp only: card_lessThan)
    then show ?thesis by (simp add: in_indices_def)
  qed
  moreover have "length (raw_specs b) = total_output_streams b" "Suc (length (bind_pairs b)) = length (raw_specs b)"
    using assms(1) by (auto simp: raw_specs_def block_ok_def)
  moreover have "packed_streams b \<noteq> []" "\<forall>p \<in> set (bind_pairs b). unat (in_index p) < total_input_streams b
      \<and> unat (out_index p) < total_output_streams b"
    using assms(1) unfolding block_ok_def block_ranges_def in_indices_def out_indices_def by auto
  ultimately have "folder_shape (raw_specs b) (bind_pairs b) (packed_streams b)"
    unfolding folder_shape_def raw_built_def ins by simp
  from folder_decodes [OF assms(2) this] show "decodes (read_block bnd) (write_raw_block b) (raw_built b)"
    by (simp add: write_raw_block_bytes [OF assms(1)] raw_built_def)
qed

end
