(* ===== verification/Streams_Round_Trip.thy ===== *)
theory Streams_Round_Trip
  imports Folder_Round_Trip
begin

text \<open>
  The streams part of a header reads back as it was written: the folders with their unpacked sizes,
  and the sub-streams with their counts, sizes and digests.
\<close>

section \<open>What the writer recorded of a block\<close>

text \<open>
  \<open>block_written bnd bi b\<close>: the folder descriptor of \<open>bi\<close> reads back as \<open>b\<close>, and \<open>bi\<close> has
  one size for each of its coders.
\<close>

definition block_written :: "header_bounds \<Rightarrow> block_info \<Rightarrow> block \<Rightarrow> bool" where
  "block_written bnd bi b \<longleftrightarrow> decodes (read_block bnd) (bi_methods bi) b \<and> \<not> has_crc b
     \<and> length (bi_all_sizes bi) = total_output_streams b"

definition sub_count :: "block_info \<Rightarrow> nat" where
  "sub_count bi = unat (bi_num_sub_unpack_streams bi)"

text \<open>The block with its sizes, then with its number of sub-streams.\<close>

definition sized_block :: "block_info \<Rightarrow> block \<Rightarrow> block" where
  "sized_block bi b = fill_unpack_sizes (prepare_unpack_sizes b) (bi_all_sizes bi)"

definition final_block :: "block_info \<Rightarrow> block \<Rightarrow> block" where
  "final_block bi b = (sized_block bi b)\<lparr>num_unpack_sub_streams := sub_count bi\<rparr>"

definition sub_sizes :: "block_info \<Rightarrow> u64 \<Rightarrow> u64 list" where
  "sub_sizes bi main = (if sub_count bi \<le> 1 then replicate (sub_count bi) main else bi_sub_stream_sizes bi)"

text \<open>
  What the records of a block's sub-streams satisfy: a size and a digest for each of several
  sub-streams, the sizes adding up to what the block unpacks to.
\<close>

definition sub_streams_agree :: "block_info \<Rightarrow> u64 \<Rightarrow> bool" where
  "sub_streams_agree bi main \<longleftrightarrow>
     (if sub_count bi \<le> 1 then length (bi_sub_stream_sizes bi) \<le> 1
      else length (bi_sub_stream_sizes bi) = sub_count bi \<and> length (bi_sub_stream_crcs bi) = sub_count bi
        \<and> sum_list (map unat (bi_sub_stream_sizes bi)) = unat main)"

definition block_agrees :: "block_info \<Rightarrow> block \<Rightarrow> bool" where
  "block_agrees bi b \<longleftrightarrow> (\<exists>main. get_unpack_size (sized_block bi b) = Inr main \<and> sub_streams_agree bi main)"

definition main_size :: "block_info \<Rightarrow> block \<Rightarrow> u64" where
  "main_size bi b = projr (get_unpack_size (sized_block bi b))"

lemma block_agreesD:
  "block_agrees bi b \<Longrightarrow> get_unpack_size (sized_block bi b) = Inr (main_size bi b) \<and> sub_streams_agree bi (main_size bi b)"
  by (auto simp: block_agrees_def main_size_def)

lemma unpack_size_sub_streams [simp]: "get_unpack_size (b\<lparr>num_unpack_sub_streams := n\<rparr>) = get_unpack_size b"
proof -
  have "last_unbound_output (b\<lparr>num_unpack_sub_streams := n\<rparr>) i = last_unbound_output b i" for i
    by (induction i) (auto simp: find_bind_pair_for_out_stream_def)
  then show ?thesis by (simp add: get_unpack_size_def split: option.splits)
qed

section \<open>Unpack information\<close>

lemma read_blocks_decodes:
  assumes "list_all2 (block_written bnd) bis bl"
    "unat t + sum_list (map (\<lambda>b. length (coders b)) bl) \<le> unat (max_total_coders (hb_limits bnd))"
  shows "decodes (read_blocks bnd (length bis) t) (concat (map bi_methods bis)) bl"
  using assms
proof (induction arbitrary: t rule: list_all2_induct)
  case (Cons bi bis b bl)
  let ?t = "saturating_add t (of_nat (length (coders b)))"
  have "length (coders b) \<le> usize_max"
    using Cons.prems unsigned_less [of "max_total_coders (hb_limits bnd)", where 'a = nat]
    by (simp add: usize_max_def)
  then have t: "unat ?t = unat t + length (coders b)"
    using Cons.prems unsigned_less [of "max_total_coders (hb_limits bnd)", where 'a = nat]
    by (simp add: unat_saturating_add unat_of_usize)
  have rec: "decodes (read_blocks bnd (length bis) ?t) (concat (map bi_methods bis)) bl"
    using Cons.prems t by (intro Cons.IH) simp
  have cap: "\<not> max_total_coders (hb_limits bnd) < ?t" using Cons.prems t by (simp add: word_less_nat_alt)
  have "decodes (bindP (read_blocks bnd (length bis) ?t) (\<lambda>bs. returnP (b # bs))) (concat (map bi_methods bis)) (b # bl)"
    by (rule decodes_bind_end [OF rec decodes_return])
  with Cons.hyps(1) cap show ?case
    by (auto simp: block_written_def Let_def intro!: decodes_bind)
qed (simp add: decodes_def)

lemma sizes_decodes:
  assumes "length (bi_all_sizes bi) = total_output_streams b"
  shows "decodes (read_unpack_sizes b) (concat (map write_u64 (bi_all_sizes bi))) (sized_block bi b)"
  unfolding read_unpack_sizes_def Let_def sized_block_def
  by (rule decodes_bind_end [OF decodes_variable_list decodes_return])
    (simp add: assms prepare_unpack_sizes_len)

lemma all_sizes_decodes:
  assumes "list_all2 (block_written bnd) bis bl"
  shows "decodes (mapP read_unpack_sizes bl) (concat (map (\<lambda>bi. concat (map write_u64 (bi_all_sizes bi))) bis))
     (map2 sized_block bis bl)"
proof -
  let ?zs = "map2 (\<lambda>bi b. (concat (map write_u64 (bi_all_sizes bi)), sized_block bi b)) bis bl"
  have "list_all2 (\<lambda>x (ys, y). decodes (read_unpack_sizes x) ys y) bl ?zs"
    using assms sizes_decodes by (auto simp: list_all2_conv_all_nth block_written_def)
  moreover have "map fst ?zs = map (\<lambda>bi. concat (map write_u64 (bi_all_sizes bi))) bis"
    "map snd ?zs = map2 sized_block bis bl"
    using list_all2_lengthD [OF assms] by (auto intro!: nth_equalityI)
  ultimately show ?thesis using decodes_mapP [of read_unpack_sizes bl ?zs] by (simp only:)
qed

lemma unpack_info_decodes:
  assumes "list_all2 (block_written bnd) (ui_blocks u) bl" "count_allowed bnd (length (ui_blocks u))"
    "sum_list (map (\<lambda>b. length (coders b)) bl) \<le> unat (max_total_coders (hb_limits bnd))" "ar_blocks a = []"
  shows "decodes (read_unpack_info bnd a) (tl (write_unpack_info u))
     (a\<lparr>ar_blocks := map2 sized_block (ui_blocks u) bl\<rparr>)"
proof -
  have body: "tl (write_unpack_info u) = K_FOLDER # write_u64 (of_nat (length (ui_blocks u))) @ 0
     # concat (map bi_methods (ui_blocks u)) @ K_CODERS_UNPACK_SIZE
     # concat (map (\<lambda>b. concat (map write_u64 (bi_all_sizes b))) (ui_blocks u)) @ K_END # [] @ []"
    by (simp add: write_unpack_info_def)
  show ?thesis
    unfolding read_unpack_info_def body
    apply (rule decodes_u8_bind, subst if_not_P, simp)
    apply (rule decodes_variable_bind, rule decodes_bind_lift, rule count_allowed_hb [OF assms(2)])
    apply (rule decodes_u8_bind, subst if_not_P, simp)
    apply (rule decodes_bind, rule read_blocks_decodes [OF assms(1)], simp add: assms(3))
    apply (rule decodes_u8_bind, subst if_not_P, simp)
    apply (rule decodes_bind, simp only: assms(4) append_Nil, rule all_sizes_decodes [OF assms(1)])
    apply (rule decodes_u8_bind, rule decodes_bind, subst if_not_P, simp, rule decodes_return)
    by (simp add: decodes_def)
qed

section \<open>Sub-streams\<close>

lemma sub_counts_decode:
  assumes "length bis = length bl" "count_allowed bnd (t + sum_list (map sub_count bis))"
  shows "decodes (read_num_unpack_streams bnd t (map one_sub_stream (map2 sized_block bis bl)))
     (concat (map (\<lambda>b. write_u64 (bi_num_sub_unpack_streams b)) bis))
     (map2 final_block bis bl, t + sum_list (map sub_count bis))"
  using assms
proof (induction bis bl arbitrary: t rule: list_induct2)
  case (Cons bi bis b bl)
  have n: "hb_count bnd (bi_num_sub_unpack_streams bi) Entries = Inr (sub_count bi)"
    using count_allowed_mono [OF Cons.prems, of "sub_count bi"]
    by (simp add: hb_count_Inr_iff limit_cap_def sub_count_def count_allowed_def)
  have add: "hb_add_count bnd t (sub_count bi) = Inr (t + sub_count bi)"
    using count_allowed_mono [OF Cons.prems, of "t + sub_count bi"]
    by (simp add: hb_add_count_Inr_iff count_allowed_def)
  have rec: "decodes (read_num_unpack_streams bnd (t + sub_count bi) (map one_sub_stream (map2 sized_block bis bl)))
     (concat (map (\<lambda>b. write_u64 (bi_num_sub_unpack_streams b)) bis))
     (map2 final_block bis bl, t + sub_count bi + sum_list (map sub_count bis))"
    using Cons.prems by (intro Cons.IH) (simp add: add.assoc)
  have one: "(one_sub_stream (sized_block bi b))\<lparr>num_unpack_sub_streams := sub_count bi\<rparr> = final_block bi b"
    by (simp add: one_sub_stream_def final_block_def)
  from decodes_bind_end [OF rec, of "\<lambda>r. case r of (bs, t) \<Rightarrow> returnP (final_block bi b # bs, t)"]
  have "decodes (bindP (read_num_unpack_streams bnd (t + sub_count bi) (map one_sub_stream (map2 sized_block bis bl)))
       (\<lambda>r. case r of (bs, t) \<Rightarrow> returnP (final_block bi b # bs, t)))
     (concat (map (\<lambda>b. write_u64 (bi_num_sub_unpack_streams b)) bis))
     (map2 final_block (bi # bis) (b # bl), t + sum_list (map sub_count (bi # bis)))"
    by (simp add: decodes_def add.assoc)
  then show ?case
    by (auto intro!: decodes_variable_bind decodes_bind_lift [OF n] decodes_bind_lift [OF add] simp: one)
qed (simp add: decodes_def)

text \<open>The sizes of a block's sub-streams but the last, which is what is left.\<close>

lemma sub_sizes_decode:
  assumes "unat acc + sum_list (map unat ss) < 2 ^ 64" "length ss \<le> m"
  shows "decodes (read_sub_sizes (length ss) (length pre) acc (pre @ replicate m 0)) (concat (map write_u64 ss))
     (pre @ ss @ replicate (m - length ss) 0, length pre + length ss, acc + sum_list ss)"
  using assms
proof (induction ss arbitrary: pre acc m)
  case (Cons s ss)
  then obtain m' where m: "m = Suc m'" "length ss \<le> m'" by (cases m) auto
  have set: "vec_set (pre @ replicate m 0) (length pre) s = Inr ((pre @ [s]) @ replicate m' 0)"
    by (simp add: vec_set_def m list_update_append)
  have add: "ok_or e (checked_add acc s) = Inr (acc + s)" for e :: error
    using Cons.prems(1) by (simp add: checked_add_def)
  have u: "unat (acc + s) = unat acc + unat s" using Cons.prems(1) by (intro unat_add_u64) simp
  have "decodes (read_sub_sizes (length ss) (length (pre @ [s])) (acc + s) ((pre @ [s]) @ replicate m' 0))
     (concat (map write_u64 ss))
     ((pre @ [s]) @ ss @ replicate (m' - length ss) 0, length (pre @ [s]) + length ss, acc + s + sum_list ss)"
    using Cons.prems(1) m(2) u by (intro Cons.IH) simp_all
  then show ?case
    by (auto intro!: decodes_variable_bind decodes_bind_lift [OF set] decodes_bind_lift [OF add]
        simp: m add.assoc simp del: append_assoc) simp
qed (simp add: decodes_def)

lemma sum_list_unat: "sum_list (map unat ss) < 2 ^ 64 \<Longrightarrow> unat (sum_list ss :: u64) = sum_list (map unat ss)"
proof (induction ss)
  case (Cons s ss)
  then show ?case using unat_add_u64 [of s "sum_list ss"] by simp
qed simp

text \<open>What a block adds to the bytes of the sizes.\<close>

definition size_bytes :: "block_info \<Rightarrow> byte list" where
  "size_bytes bi = (if 1 < length (bi_sub_stream_sizes bi)
     then concat (map write_u64 (butlast (bi_sub_stream_sizes bi))) else [])"

lemma block_sub_sizes_decode:
  assumes "block_agrees bi b" "sub_count bi \<le> m" "nid = K_SIZE \<or> length (bi_sub_stream_sizes bi) \<le> 1"
  shows "decodes (block_sub_sizes nid (final_block bi b) (length pre) (pre @ replicate m 0)) (size_bytes bi)
     (pre @ sub_sizes bi (main_size bi b) @ replicate (m - sub_count bi) 0, length pre + sub_count bi)"
proof -
  define main where "main = main_size bi b"
  have main: "get_unpack_size (final_block bi b) = Inr main" "sub_streams_agree bi main"
    using block_agreesD [OF assms(1)] by (simp_all add: final_block_def main_def)
  have n: "num_unpack_sub_streams (final_block bi b) = sub_count bi" by (simp add: final_block_def)
  define ss where "ss = (if sub_count bi \<le> 1 then [] else butlast (bi_sub_stream_sizes bi))"
  have last: "decodes (bindP (liftE (get_unpack_size (final_block bi b))) (\<lambda>total_size.
        if total_size < sum_list ss
        then failP (Corrupted ''sum of unpack sizes of block exceeds total unpack size'')
        else bindP (liftE (vec_set (pre @ ss @ replicate (m - length ss) 0) (length pre + length ss)
               (total_size - sum_list ss))) (\<lambda>sizes. returnP (sizes, length pre + length ss + 1)))) []
      (pre @ sub_sizes bi main @ replicate (m - sub_count bi) 0, length pre + sub_count bi)"
    if "sub_count bi \<noteq> 0"
  proof -
    have len: "length ss = sub_count bi - 1"
      using main(2) by (auto simp: ss_def sub_streams_agree_def)
    have sizes: "sub_sizes bi main = ss @ [main - sum_list ss] \<and> \<not> main < sum_list ss"
    proof (cases "sub_count bi \<le> 1")
      case True
      then show ?thesis using that by (simp add: sub_sizes_def ss_def le_Suc_eq)
    next
      case False
      let ?l = "bi_sub_stream_sizes bi"
      have l: "?l \<noteq> []" "sum_list (map unat ?l) = unat main" using main(2) False by (auto simp: sub_streams_agree_def)
      then have split: "?l = ss @ [last ?l]" using False by (simp add: ss_def)
      then have sum: "sum_list (map unat ss) + unat (last ?l) = unat main"
        using l False by (cases ?l rule: rev_cases) (auto simp: ss_def)
      then have "sum_list (map unat ss) < 2 ^ 64" using unsigned_less [of main, where 'a = nat] by simp
      note u = sum_list_unat [OF this]
      then have "main = sum_list ss + last ?l"
        using sum unat_add_u64 [of "sum_list ss" "last ?l"] unsigned_less [of main, where 'a = nat]
        by (simp add: word_unat_eq_iff)
      moreover have "\<not> main < sum_list ss" using sum u by (simp add: word_less_nat_alt)
      ultimately show ?thesis using False split by (simp add: sub_sizes_def)
    qed
    have "m - length ss = Suc (m - sub_count bi)" using len that assms(2) by simp
    then have "vec_set (pre @ ss @ replicate (m - length ss) 0) (length pre + length ss) (main - sum_list ss)
        = Inr (pre @ sub_sizes bi main @ replicate (m - sub_count bi) 0)"
      using sizes by (simp add: vec_set_def list_update_append)
    with sizes len that show ?thesis by (simp add: main decodes_def)
  qed
  show ?thesis
  proof (cases "sub_count bi")
    case 0
    then have "length (bi_sub_stream_sizes bi) \<le> 1" using main(2) by (simp add: sub_streams_agree_def)
    with 0 show ?thesis by (simp add: block_sub_sizes_def n size_bytes_def sub_sizes_def decodes_def)
  next
    case (Suc k)
    have first: "decodes (if nid = K_SIZE then read_sub_sizes (sub_count bi - 1) (length pre) 0 (pre @ replicate m 0)
          else returnP (pre @ replicate m 0, length pre, 0)) (size_bytes bi)
        (pre @ ss @ replicate (m - length ss) 0, length pre + length ss, sum_list ss)"
    proof (cases "sub_count bi \<le> 1")
      case True
      then have "size_bytes bi = []" "sub_count bi - 1 = 0" "ss = []"
        using main(2) by (auto simp: size_bytes_def sub_streams_agree_def ss_def)
      then show ?thesis by (simp add: decodes_def)
    next
      case False
      then have l: "length (bi_sub_stream_sizes bi) = sub_count bi" and "nid = K_SIZE"
        "sum_list (map unat (bi_sub_stream_sizes bi)) = unat main"
        using main(2) assms(3) by (auto simp: sub_streams_agree_def)
      moreover have "sum_list (map unat ss) \<le> sum_list (map unat (bi_sub_stream_sizes bi))"
        using False by (cases "bi_sub_stream_sizes bi" rule: rev_cases) (auto simp: ss_def)
      ultimately have "sum_list (map unat ss) < 2 ^ 64" using unsigned_less [of main, where 'a = nat] by simp
      moreover have "length ss = sub_count bi - 1" "1 < length (bi_sub_stream_sizes bi)"
        using l False by (simp_all add: ss_def)
      moreover have "size_bytes bi = concat (map write_u64 ss)" using False l by (simp add: size_bytes_def ss_def)
      ultimately show ?thesis
        using sub_sizes_decode [of 0 ss m pre] assms(2) \<open>nid = K_SIZE\<close> by simp
    qed
    have "sub_count bi \<noteq> 0" using Suc by simp
    note last = last [OF this]
    show ?thesis
      unfolding block_sub_sizes_def n main_def [symmetric]
      apply (subst if_not_P, rule \<open>sub_count bi \<noteq> 0\<close>)
      apply (rule decodes_bind_end [OF first])
      by (simp only: prod.case) (rule last)
  qed
qed

definition all_sizes :: "block_info list \<Rightarrow> block list \<Rightarrow> u64 list" where
  "all_sizes bis bl = concat (map2 (\<lambda>bi b. sub_sizes bi (main_size bi b)) bis bl)"

definition all_agree :: "block_info list \<Rightarrow> block list \<Rightarrow> bool" where
  "all_agree bis bl \<longleftrightarrow> list_all2 block_agrees bis bl"

lemma all_sub_sizes_decode:
  assumes "all_agree bis bl" "sum_list (map sub_count bis) \<le> m"
    "nid = K_SIZE \<or> (\<forall>bi \<in> set bis. length (bi_sub_stream_sizes bi) \<le> 1)"
  shows "decodes (all_sub_sizes nid (map2 final_block bis bl) (length pre) (pre @ replicate m 0))
     (concat (map size_bytes bis)) (pre @ all_sizes bis bl @ replicate (m - sum_list (map sub_count bis)) 0)"
  using assms unfolding all_agree_def
proof (induction arbitrary: pre m rule: list_all2_induct)
  case Nil
  then show ?case by (simp add: all_sizes_def decodes_def)
next
  case (Cons bi bis b bl)
  let ?ss = "sub_sizes bi (main_size bi b)"
  have len: "length ?ss = sub_count bi"
    using block_agreesD [OF Cons.hyps(1)] by (auto simp: sub_sizes_def sub_streams_agree_def)
  have one: "decodes (block_sub_sizes nid (final_block bi b) (length pre) (pre @ replicate m 0)) (size_bytes bi)
     (pre @ ?ss @ replicate (m - sub_count bi) 0, length pre + sub_count bi)"
    using Cons.prems Cons.hyps(1) by (intro block_sub_sizes_decode) auto
  have two: "decodes (all_sub_sizes nid (map2 final_block bis bl) (length (pre @ ?ss)) ((pre @ ?ss) @ replicate (m - sub_count bi) 0))
     (concat (map size_bytes bis))
     ((pre @ ?ss) @ all_sizes bis bl @ replicate (m - sub_count bi - sum_list (map sub_count bis)) 0)"
    using Cons.prems by (intro Cons.IH) auto
  from decodes_bind [OF one, where f = "\<lambda>(sizes, next). all_sub_sizes nid (map2 final_block bis bl) next sizes"]
    two len show ?case by (simp add: all_sizes_def)
qed

lemma length_all_sizes: "all_agree bis bl \<Longrightarrow> length (all_sizes bis bl) = sum_list (map sub_count bis)"
  unfolding all_agree_def
proof (induction rule: list_all2_induct)
  case (Cons bi bis b bl)
  then show ?case
    using block_agreesD [OF Cons.hyps(1)] by (auto simp: all_sizes_def sub_sizes_def sub_streams_agree_def)
qed (simp add: all_sizes_def)

section \<open>Digests\<close>

lemma length_bi_digests: "sub_streams_agree bi main \<Longrightarrow> length (bi_digests bi) = sub_count bi"
  by (auto simp: sub_streams_agree_def bi_digests_def sub_count_def word_less_nat_alt word_unat_eq_iff
      split: if_splits)

lemma insert_where_append: "insert_where p (is @ js) s = insert_where p js (insert_where p is s)"
  by (induction "is" arbitrary: s) auto

lemma place_all:
  assumes "\<And>i. i < n + k \<Longrightarrow> contains d i" "n + k \<le> length ds" "length ds - n \<le> m"
  shows "place_digests d ds k n n (has, take n ds @ replicate m 0)
     = Inr (insert_where (\<lambda>_. True) [n..<n + k] has, take (n + k) ds @ replicate (m - k) 0)"
  using assms
proof (induction k arbitrary: n m has)
  case (Suc k)
  then obtain m' where m: "m = Suc m'" by (cases m) auto
  have n: "n < length ds" "contains d n" using Suc.prems by auto
  have set: "vec_set (take n ds @ replicate m 0) n (ds ! n) = Inr (take (Suc n) ds @ replicate m' 0)"
    using n(1) by (simp add: vec_set_def m list_update_append take_Suc_conv_app_nth)
  have "place_digests d ds k (Suc n) (Suc n) (snd (bs_insert has n), take (Suc n) ds @ replicate m' 0)
     = Inr (insert_where (\<lambda>_. True) [Suc n..<Suc n + k] (snd (bs_insert has n)),
         take (Suc n + k) ds @ replicate (m' - k) 0)"
    using Suc.prems m by (intro Suc.IH) auto
  moreover have "[n..<n + Suc k] = n # [Suc n..<Suc n + k]" by (simp add: upt_rec)
  ultimately show ?case using n set by (simp add: m del: upt_Suc)
qed simp

lemma distribute_all:
  assumes "\<forall>b \<in> set bl. \<not> has_crc b" "\<And>i. i < length ds \<Longrightarrow> contains d i"
    "length ds = n + sum_list (map num_unpack_sub_streams bl)" "m = sum_list (map num_unpack_sub_streams bl)"
  shows "distribute_digests d ds bl n n (has, take n ds @ replicate m 0)
     = Inr (insert_where (\<lambda>_. True) [n..<length ds] has, ds)"
  using assms
proof (induction bl arbitrary: n m has)
  case (Cons b bl)
  let ?k = "num_unpack_sub_streams b"
  have own: "\<not> own_digest b" using Cons.prems(1) by (simp add: own_digest_def)
  have place: "place_digests d ds ?k n n (has, take n ds @ replicate m 0)
     = Inr (insert_where (\<lambda>_. True) [n..<n + ?k] has, take (n + ?k) ds @ replicate (m - ?k) 0)"
    using Cons.prems by (intro place_all) auto
  have rec: "distribute_digests d ds bl (n + ?k) (n + ?k)
       (insert_where (\<lambda>_. True) [n..<n + ?k] has, take (n + ?k) ds @ replicate (m - ?k) 0)
     = Inr (insert_where (\<lambda>_. True) [n + ?k..<length ds] (insert_where (\<lambda>_. True) [n..<n + ?k] has), ds)"
    using Cons.prems by (intro Cons.IH) auto
  have "[n..<length ds] = [n..<n + ?k] @ [n + ?k..<length ds]"
    using Cons.prems(3) upt_add_eq_append [of n "n + ?k" "sum_list (map num_unpack_sub_streams bl)"]
    by (simp add: add.assoc)
  then show ?case using own place rec by (simp add: insert_where_append)
qed simp

lemma inherit_none: "\<forall>b \<in> set bl. \<not> has_crc b \<Longrightarrow> inherit_digests bl i st = Inr st"
proof (induction bl arbitrary: i)
  case (Cons b bl)
  obtain has crcs where "st = (has, crcs)" by force
  with Cons show ?case by (simp add: own_digest_def)
qed simp

lemma count_digests_none:
  assumes "\<forall>b \<in> set bl. \<not> has_crc b" "sum_list (map num_unpack_sub_streams bl) \<le> usize_max"
  shows "count_digests (sum_list (map num_unpack_sub_streams bl)) bl = Inr (sum_list (map num_unpack_sub_streams bl))"
proof -
  have "filter (\<lambda>b. \<not> own_digest b) bl = bl" using assms(1) by (simp add: own_digest_def filter_id_conv)
  then have "digests_needed bl = sum_list (map num_unpack_sub_streams bl)" by (simp add: digests_needed_def)
  then show ?thesis using digest_fold_ok [of 0 bl] assms(2) by (simp add: count_digests_def)
qed

definition all_digests :: "block_info list \<Rightarrow> u32 list" where
  "all_digests bis = concat (map bi_digests bis)"

text \<open>Every sub-stream has a digest.\<close>

definition full_digests :: "nat \<Rightarrow> bit_set" where
  "full_digests n = insert_where (\<lambda>_. True) [0..<n] (reserve_len_exact bs_new n)"

lemma final_block_simps [simp]:
  "num_unpack_sub_streams (final_block bi b) = sub_count bi" "has_crc (final_block bi b) = has_crc b"
  by (simp_all add: final_block_def sized_block_def)

lemma final_blocks:
  assumes "length bis = length bl"
  shows "sum_list (map num_unpack_sub_streams (map2 final_block bis bl)) = sum_list (map sub_count bis)"
    "length (map2 final_block bis bl) = length bis"
    "\<forall>b \<in> set bl. \<not> has_crc b \<Longrightarrow> \<forall>b \<in> set (map2 final_block bis bl). \<not> has_crc b"
proof -
  have "map num_unpack_sub_streams (map2 final_block bis bl) = map sub_count bis"
    using assms by (auto intro!: nth_equalityI)
  then show "sum_list (map num_unpack_sub_streams (map2 final_block bis bl)) = sum_list (map sub_count bis)"
    by (simp only:)
  show "length (map2 final_block bis bl) = length bis" using assms by simp
  show "\<forall>b \<in> set (map2 final_block bis bl). \<not> has_crc b" if "\<forall>b \<in> set bl. \<not> has_crc b"
    using that by (auto dest: set_zip_rightD)
qed

text \<open>The digests are written when there is a sub-stream.\<close>

definition some_digest :: "block_info list \<Rightarrow> bool" where
  "some_digest bis \<longleftrightarrow> (\<exists>b \<in> set bis. bi_num_sub_unpack_streams b = 1
     \<or> 1 < bi_num_sub_unpack_streams b \<and> bi_sub_stream_crcs b \<noteq> [])"

lemma some_digest_iff:
  assumes "all_agree bis bl"
  shows "some_digest bis \<longleftrightarrow> 0 < sum_list (map sub_count bis)"
proof -
  have a: "\<exists>main. sub_streams_agree bi main" if "bi \<in> set bis" for bi
    using assms that by (auto simp: all_agree_def list_all2_conv_all_nth in_set_conv_nth block_agrees_def)
  have "(bi_num_sub_unpack_streams bi = 1 \<or> 1 < bi_num_sub_unpack_streams bi \<and> bi_sub_stream_crcs bi \<noteq> [])
      \<longleftrightarrow> 0 < sub_count bi" if "bi \<in> set bis" for bi
    using a [OF that]
    by (auto simp: sub_streams_agree_def sub_count_def word_less_nat_alt word_unat_eq_iff split: if_splits)
  then have "some_digest bis \<longleftrightarrow> (\<exists>bi \<in> set bis. 0 < sub_count bi)" by (simp add: some_digest_def)
  moreover have "0 < sum_list (map sub_count bis) \<longleftrightarrow> (\<exists>bi \<in> set bis. 0 < sub_count bi)"
    by (induction bis) auto
  ultimately show ?thesis by simp
qed

lemma length_all_digests: "all_agree bis bl \<Longrightarrow> length (all_digests bis) = sum_list (map sub_count bis)"
  unfolding all_agree_def
proof (induction rule: list_all2_induct)
  case (Cons bi bis b bl)
  then show ?case using block_agreesD [OF Cons.hyps(1)] length_bi_digests by (auto simp: all_digests_def)
qed (simp add: all_digests_def)

lemma sub_digests_decode:
  assumes "all_agree bis bl" "\<forall>b \<in> set bl. \<not> has_crc b" "sum_list (map sub_count bis) \<le> usize_max"
    and that: "nid = K_SIZE \<or> nid = (if some_digest bis then K_CRC else K_END)"
  defines "t \<equiv> sum_list (map sub_count bis)"
  shows "decodes (bindP (if nid = K_SIZE then read_u8 else returnP nid) (read_sub_digests t (map2 final_block bis bl)))
     ((if nid = K_SIZE then (if some_digest bis then [K_CRC] else [K_END]) else [])
      @ (if some_digest bis then [1] @ concat (map write_u32 (all_digests bis)) @ [K_END] else []))
     ((full_digests t, all_digests bis), K_END)"
proof -
  have len: "length bis = length bl" using assms(1) by (simp add: all_agree_def list_all2_lengthD)
  note fb = final_blocks [OF len] 
  have cnt: "count_digests t (map2 final_block bis bl) = Inr t"
    using count_digests_none [of "map2 final_block bis bl"] fb assms(2,3) by (simp add: t_def)
  have nid: "decodes (if nid = K_SIZE then read_u8 else returnP nid)
      (if nid = K_SIZE then (if some_digest bis then [K_CRC] else [K_END]) else [])
      (if some_digest bis then K_CRC else K_END)"
    using that by (auto simp: decodes_read_u8 decodes_def)
  have "decodes (read_sub_digests t (map2 final_block bis bl) (if some_digest bis then K_CRC else K_END))
      (if some_digest bis then [1] @ concat (map write_u32 (all_digests bis)) @ [K_END] else [])
      ((full_digests t, all_digests bis), K_END)"
  proof (cases "some_digest bis")
    case True
    let ?d = "insert_where (\<lambda>_. True) [0..<t] (with_capacity t)"
    have t: "length (all_digests bis) = t" using length_all_digests [OF assms(1)] by (simp add: t_def)
    have "decodes (read_all_or_bits t) [1] ?d"
      using decodes_all_set [of 1 t] by (simp add: write_u8_def)
    moreover have "decodes (read_defined_u32 ?d t) (concat (map write_u32 (all_digests bis))) (all_digests bis)"
      using decodes_all_u32 [of "all_digests bis" ?d] by (simp add: t insert_where_capacity)
    moreover have "distribute_digests ?d (all_digests bis) (map2 final_block bis bl) 0 0
         (reserve_len_exact bs_new t, replicate t 0) = Inr (full_digests t, all_digests bis)"
      using distribute_all [of "map2 final_block bis bl" "all_digests bis" ?d 0 t] fb assms(2) t
      by (simp add: insert_where_capacity full_digests_def t_def)
    ultimately have "decodes (bindP (read_all_or_bits t) (\<lambda>defined.
        bindP (read_defined_u32 defined t) (\<lambda>missing.
        bindP (liftE (distribute_digests defined missing (map2 final_block bis bl) 0 0
           (reserve_len_exact bs_new t, replicate t 0))) (\<lambda>st. bindP read_u8 (\<lambda>nid. returnP (st, nid))))))
      ([1] @ concat (map write_u32 (all_digests bis)) @ [K_END]) ((full_digests t, all_digests bis), K_END)"
      by - (rule decodes_bind, assumption, rule decodes_bind, assumption, rule decodes_bind_lift, assumption,
          rule decodes_u8_bind, rule decodes_return)
    with True show ?thesis unfolding read_sub_digests_def Let_def cnt liftE_simps bindP_return by simp
  next
    case False
    then have "t = 0" using some_digest_iff [OF assms(1)] by (simp add: t_def)
    moreover from this have "all_digests bis = []" using length_all_digests [OF assms(1), folded t_def] by simp
    ultimately show ?thesis
      using False cnt by (simp add: read_sub_digests_def full_digests_def decodes_def)
  qed
  then show ?thesis by (rule decodes_bind [OF nid])
qed

section \<open>The sub-streams of a header\<close>

definition with_sub_streams :: "block_info list \<Rightarrow> block list \<Rightarrow> archive \<Rightarrow> archive" where
  "with_sub_streams bis bl a = a\<lparr>ar_blocks := map2 final_block bis bl, ar_sub_streams_info :=
     Some \<lparr>ssi_unpack_sizes = all_sizes bis bl, ssi_has_crc = full_digests (sum_list (map sub_count bis)),
           ssi_crcs = all_digests bis\<rparr>\<rparr>"

lemma one_sub_streams:
  assumes "\<forall>bi \<in> set bis. bi_num_sub_unpack_streams bi = 1" "length bis = length bl"
  shows "map one_sub_stream (map2 sized_block bis bl) = map2 final_block bis bl" "sum_list (map sub_count bis) = length bis"
proof -
  have c: "sub_count bi = 1" if "bi \<in> set bis" for bi using assms(1) that by (simp add: sub_count_def)
  then show "map one_sub_stream (map2 sized_block bis bl) = map2 final_block bis bl"
    using assms(2) by (auto simp: one_sub_stream_def final_block_def dest: set_zip_leftD)
  show "sum_list (map sub_count bis) = length bis" using c by (induction bis) auto
qed

lemma sub_counts_bytes:
  assumes "length bis = length bl" "count_allowed bnd (sum_list (map sub_count bis))"
    and that: "nid \<noteq> K_NUM_UNPACK_STREAM"
  shows "decodes (read_sub_counts bnd (map2 sized_block bis bl))
     ((if \<exists>b \<in> set bis. bi_num_sub_unpack_streams b \<noteq> 1
       then [K_NUM_UNPACK_STREAM] @ concat (map (\<lambda>b. write_u64 (bi_num_sub_unpack_streams b)) bis) else []) @ [nid])
     (map2 final_block bis bl, sum_list (map sub_count bis), nid)"
    (is "decodes ?p (?pre @ _) ?r")
proof (cases "\<exists>b \<in> set bis. bi_num_sub_unpack_streams b \<noteq> 1")
  case True
  have "decodes (read_num_unpack_streams bnd 0 (map one_sub_stream (map2 sized_block bis bl)))
     (concat (map (\<lambda>b. write_u64 (bi_num_sub_unpack_streams b)) bis))
     (map2 final_block bis bl, 0 + sum_list (map sub_count bis))"
    by (rule sub_counts_decode [OF assms(1)]) (simp add: assms(2))
  then have "decodes (bindP (read_num_unpack_streams bnd 0 (map one_sub_stream (map2 sized_block bis bl)))
        (\<lambda>(blocks, t). bindP read_u8 (\<lambda>nid. returnP (blocks, t, nid))))
      (concat (map (\<lambda>b. write_u64 (bi_num_sub_unpack_streams b)) bis) @ [nid]) ?r"
    by (rule decodes_bind) (auto intro!: decodes_u8_bind decodes_return)
  with True show ?thesis
    unfolding read_sub_counts_def Let_def by (auto intro!: decodes_u8_bind)
next
  case False
  then have one: "map one_sub_stream (map2 sized_block bis bl) = map2 final_block bis bl"
    "sum_list (map sub_count bis) = length (map2 final_block bis bl)"
    using one_sub_streams [of bis bl] assms(1) by simp_all
  have "decodes (bindP read_u8 (\<lambda>nid. if nid = K_NUM_UNPACK_STREAM
        then bindP (read_num_unpack_streams bnd 0 (map2 final_block bis bl))
               (\<lambda>(blocks, t). bindP read_u8 (\<lambda>nid. returnP (blocks, t, nid)))
        else returnP (map2 final_block bis bl, length (map2 final_block bis bl), nid))) (nid # []) ?r"
    using that one(2) by (intro decodes_u8_bind) (simp add: decodes_def)
  with False show ?thesis unfolding read_sub_counts_def Let_def one(1) by simp
qed

lemma concat_map_concat: "concat (map f (concat (map g xs))) = concat (map (\<lambda>x. concat (map f (g x))) xs)"
  by (induction xs) auto

lemma sub_streams_decode:
  assumes "list_all2 (block_written bnd) (ui_blocks u) bl" "all_agree (ui_blocks u) bl"
    "count_allowed bnd (sum_list (map sub_count (ui_blocks u)))"
    "ar_blocks a = map2 sized_block (ui_blocks u) bl"
  shows "decodes (read_sub_streams_info bnd a) (tl (write_substreams u)) (with_sub_streams (ui_blocks u) bl a)"
proof -
  let ?bis = "ui_blocks u"
  let ?t = "sum_list (map sub_count ?bis)"
  have len: "length ?bis = length bl" using assms(1) by (rule list_all2_lengthD)
  have crc: "\<forall>b \<in> set bl. \<not> has_crc b"
    using assms(1) by (auto simp: list_all2_conv_all_nth block_written_def in_set_conv_nth)
  have max: "?t \<le> usize_max" using assms(3) by (simp add: count_allowed_def)
  let ?sizes = "\<exists>b \<in> set ?bis. 1 < length (bi_sub_stream_sizes b)"
  define nid where "nid = (if ?sizes then K_SIZE else if some_digest ?bis then K_CRC else K_END)"
  have body: "tl (write_substreams u) =
      ((if \<exists>b \<in> set ?bis. bi_num_sub_unpack_streams b \<noteq> 1
        then [K_NUM_UNPACK_STREAM] @ concat (map (\<lambda>b. write_u64 (bi_num_sub_unpack_streams b)) ?bis) else []) @ [nid])
      @ concat (map size_bytes ?bis)
      @ (((if nid = K_SIZE then (if some_digest ?bis then [K_CRC] else [K_END]) else [])
      @ (if some_digest ?bis then [1] @ concat (map write_u32 (all_digests ?bis)) @ [K_END] else [])) @ [])"
  proof (cases ?sizes)
    case True
    then show ?thesis
      by (simp add: write_substreams_def nid_def size_bytes_def [abs_def] some_digest_def [symmetric] all_digests_def
          concat_map_concat)
  next
    case False
    then have "size_bytes bi = []" if "bi \<in> set ?bis" for bi using that by (auto simp: size_bytes_def)
    then have "concat (map size_bytes ?bis) = []" by simp
    with False show ?thesis
      by (simp add: write_substreams_def nid_def some_digest_def [symmetric] all_digests_def concat_map_concat)
  qed
  have counts: "nid \<noteq> K_NUM_UNPACK_STREAM" by (simp add: nid_def)
  have sizes: "decodes (all_sub_sizes nid (map2 final_block ?bis bl) 0 (replicate ?t 0))
      (concat (map size_bytes ?bis)) (all_sizes ?bis bl)"
    using all_sub_sizes_decode [OF assms(2) order_refl, of nid "[]"] by (auto simp: nid_def not_less)
  have digests: "decodes (bindP (if nid = K_SIZE then read_u8 else returnP nid) (read_sub_digests ?t (map2 final_block ?bis bl)))
     ((if nid = K_SIZE then (if some_digest ?bis then [K_CRC] else [K_END]) else [])
      @ (if some_digest ?bis then [1] @ concat (map write_u32 (all_digests ?bis)) @ [K_END] else []))
     ((full_digests ?t, all_digests ?bis), K_END)"
    by (rule sub_digests_decode [OF assms(2) crc max]) (simp add: nid_def)
  have inh: "inherit_digests (map2 final_block ?bis bl) 0 st = Inr st" for st
    by (rule inherit_none [OF final_blocks(3) [OF len crc]])
  have assoc: "bindP (if nid = K_SIZE then read_u8 else returnP nid) (\<lambda>nid.
        bindP (read_sub_digests ?t (map2 final_block ?bis bl) nid) f)
      = bindP (bindP (if nid = K_SIZE then read_u8 else returnP nid) (read_sub_digests ?t (map2 final_block ?bis bl))) f" for f
    by (simp only: bindP_assoc)
  show ?thesis
    unfolding read_sub_streams_info_def body assms(4)
    apply (rule decodes_bind, rule sub_counts_bytes [OF len assms(3) counts], simp only: prod.case)
    apply (rule decodes_bind, rule sizes)
    apply (simp only: assoc, rule decodes_bind, rule digests)
    by (simp add: inh with_sub_streams_def decodes_def)
qed

section \<open>The streams of a header\<close>

text \<open>What is read back; the folders and their sub-streams are written only beside pack streams.\<close>

definition with_streams :: "pack_info \<Rightarrow> unpack_info \<Rightarrow> block list \<Rightarrow> archive \<Rightarrow> archive" where
  "with_streams p u bl a = with_sub_streams (ui_blocks u) bl (if 0 < pi_len p then with_pack_info p a else a)"

text \<open>The records the writer kept, within the limits of the reader.\<close>

definition streams_written :: "header_bounds \<Rightarrow> pack_info \<Rightarrow> unpack_info \<Rightarrow> block list \<Rightarrow> bool" where
  "streams_written bnd p u bl \<longleftrightarrow>
     length (pi_crcs p) = pi_len p \<and> count_allowed bnd (pi_len p)
     \<and> list_all2 (block_written bnd) (ui_blocks u) bl \<and> all_agree (ui_blocks u) bl
     \<and> count_allowed bnd (length (ui_blocks u)) \<and> count_allowed bnd (sum_list (map sub_count (ui_blocks u)))
     \<and> sum_list (map (\<lambda>b. length (coders b)) bl) \<le> unat (max_total_coders (hb_limits bnd))
     \<and> (ui_blocks u = [] \<or> 0 < pi_len p)"

lemma streams_info_decodes:
  assumes "streams_written bnd p u bl" "ar_blocks a = []"
  shows "decodes (read_streams_info bnd a) (write_streams_info p u) (with_streams p u bl a)"
proof -
  note w = assms(1) [unfolded streams_written_def]
  have tls: "write_pack_info p = K_PACK_INFO # tl (write_pack_info p)"
    "write_unpack_info u = K_UNPACK_INFO # tl (write_unpack_info u)"
    "write_substreams u = K_SUB_STREAMS_INFO # tl (write_substreams u)"
    by (simp_all add: write_pack_info_def write_unpack_info_def write_substreams_def)
  have sub: "decodes (read_sub_streams_info bnd a') (tl (write_substreams u)) (with_sub_streams (ui_blocks u) bl a')"
    if "ar_blocks a' = map2 sized_block (ui_blocks u) bl" for a'
    using w that by (intro sub_streams_decode) auto
  have upd: "with_sub_streams bis bl (a'\<lparr>ar_blocks := x\<rparr>) = with_sub_streams bis bl a'" for bis a' x
    by (simp add: with_sub_streams_def)
  have unp: "decodes (read_unpack_info bnd (with_pack_info p a)) (tl (write_unpack_info u))
      ((with_pack_info p a)\<lparr>ar_blocks := map2 sized_block (ui_blocks u) bl\<rparr>)"
    using w assms(2) by (intro unpack_info_decodes) (auto simp: with_pack_info_def)
  have pack: "decodes (read_pack_info bnd a) (tl (write_pack_info p)) (with_pack_info p a)"
    using w by (intro pack_info_decodes) auto
  have fin: "decodes (bindP (section_if True (read_sub_streams_info bnd a') a' K_SUB_STREAMS_INFO) (\<lambda>(a, nid).
     if nid \<noteq> K_END then failP (BadTerminatedStreamsInfo nid)
     else if True then returnP a
     else
       bindP (liftE (hb_count bnd (of_nat (length (ar_blocks a))) Entries)) (\<lambda>_.
       let blocks = map one_sub_stream (ar_blocks a) in
       bindP (liftE (default_sub_streams blocks)) (\<lambda>info.
       returnP (a\<lparr>ar_blocks := blocks, ar_sub_streams_info := Some info\<rparr>)))))
      ((tl (write_substreams u) @ [K_END]) @ []) (with_sub_streams (ui_blocks u) bl a')"
    if "ar_blocks a' = map2 sized_block (ui_blocks u) bl" for a'
    by (rule decodes_bind [OF decodes_section_if [OF sub [OF that]]]) (simp add: decodes_def)
  have sized: "ar_blocks ((with_pack_info p a)\<lparr>ar_blocks := map2 sized_block (ui_blocks u) bl\<rparr>)
      = map2 sized_block (ui_blocks u) bl" by simp
  show ?thesis
  proof (cases "0 < pi_len p")
    case True
    have body: "write_streams_info p u = K_PACK_INFO # (tl (write_pack_info p) @ [K_UNPACK_INFO])
        @ (tl (write_unpack_info u) @ [K_SUB_STREAMS_INFO]) @ (tl (write_substreams u) @ [K_END]) @ []"
      using True by (simp add: write_streams_info_def) (metis append_Cons append_assoc tls)
    show ?thesis
      unfolding read_streams_info_def body
      apply (rule decodes_u8_bind, simp only: refl, rule decodes_bind, rule decodes_section_if [OF pack], simp only: prod.case refl)
      apply (rule decodes_bind, rule decodes_section_if [OF unp], simp only: prod.case refl Let_def)
      using fin [OF sized, unfolded Let_def] True
      unfolding Let_def with_streams_def by (simp only: if_True upd simp_thms)
  next
    case False
    then have u: "ui_blocks u = []" using w by simp
    then have "bl = []" using w by simp
    have body: "write_streams_info p u = K_SUB_STREAMS_INFO # [] @ [] @ (tl (write_substreams u) @ [K_END]) @ []"
      using False by (simp add: write_streams_info_def) (metis append_Cons tls(3))
    have a: "a\<lparr>ar_blocks := []\<rparr> = a" using assms(2) by simp
    have no: "(K_SUB_STREAMS_INFO = K_PACK_INFO) = False" "(K_SUB_STREAMS_INFO = K_UNPACK_INFO) = False" by simp_all
    show ?thesis
      unfolding read_streams_info_def body
      apply (rule decodes_u8_bind, simp only: no, rule decodes_bind, rule decodes_section_skip, simp only: prod.case no)
      apply (rule decodes_bind, rule decodes_section_skip, simp only: prod.case refl Let_def a)
      using fin [of a, unfolded Let_def] False assms(2) u unfolding Let_def with_streams_def
      by (simp only: if_False append_Nil list.map zip_Nil simp_thms)
  qed
qed

end
