(* ===== verification/Files_Round_Trip.thy ===== *)
theory Files_Round_Trip
  imports Streams_Round_Trip
begin

text \<open>
  The files part of a header reads back as it was written: the names, the times and attributes, and
  which entries have a stream, are directories or anti-items.
\<close>

section \<open>Names\<close>

lemma write_name_units: "write_name s = concat (map write_u16 (encode_utf16 s)) @ write_u16 0"
  by (simp add: write_name_def write_u16_def numeral_2_eq_2)

definition name_len :: "ustring \<Rightarrow> nat" where
  "name_len s = 2 * (length (encode_utf16 s) + 1)"

lemma length_write_name: "length (write_name s) = name_len s"
proof -
  have "length (concat (map write_u16 us)) = 2 * length us" for us
    by (induction us) (auto simp: write_u16_def)
  then show ?thesis by (simp add: write_name_def name_len_def)
qed

lemma name_units_decode:
  assumes "rd + 2 * (length us + 1) \<le> mx" "0 \<notin> set us" "2 * (length cache + length us) \<le> mn"
  shows "name_units mx mn rd cache (concat (map write_u16 us) @ write_u16 0 @ rest)
     = (Inr (cache @ us), rd + 2 * (length us + 1), rest)"
  using assms
proof (induction us arbitrary: rd cache)
  case Nil
  then show ?case using decodesD [OF decodes_u16, of 0 rest] by (subst name_units.simps) simp
next
  case (Cons u us)
  have "name_units mx mn (rd + 2) (cache @ [u]) (concat (map write_u16 us) @ write_u16 0 @ rest)
     = (Inr ((cache @ [u]) @ us), rd + 2 + 2 * (length us + 1), rest)"
    using Cons.prems by (intro Cons.IH) auto
  with Cons.prems show ?case
    using decodesD [OF decodes_u16, of u "concat (map write_u16 us) @ write_u16 0 @ rest"]
    by (subst name_units.simps) simp
qed

text \<open>A name the reader can take: scalar values, none of them NUL, within the limit on one name.\<close>

definition name_allowed :: "header_bounds \<Rightarrow> ustring \<Rightarrow> bool" where
  "name_allowed bnd s \<longleftrightarrow> list_all scalar_value s \<and> 0 \<notin> set s
     \<and> 2 * length (encode_utf16 s) \<le> unat (max_name_bytes (hb_limits bnd))"

lemma names_next_decode:
  assumes "name_allowed bnd s" "rd + name_len s \<le> mx"
  shows "names_next mx (unat (max_name_bytes (hb_limits bnd))) rd (write_name s @ rest)
     = Some (Inr s, rd + name_len s, rest)"
proof -
  have "0 \<notin> set (encode_utf16 s)" using assms(1) by (auto simp: name_allowed_def dest: encode_utf16_no_nul)
  moreover have "from_utf16 (encode_utf16 s) = Some s" using assms(1) by (simp add: name_allowed_def from_encode_utf16)
  ultimately show ?thesis
    using name_units_decode [of rd "encode_utf16 s" mx "[]"] assms
    by (simp add: names_next_def name_len_def name_allowed_def write_name_units)
qed

lemma read_names_decode:
  assumes "\<forall>s \<in> set ns. name_allowed bnd s" "rd + sum_list (map name_len ns) = mx" "length fs = length ns"
  shows "read_names mx (unat (max_name_bytes (hb_limits bnd))) rd (length pre) (pre @ fs) (concat (map write_name ns) @ rest)
     = Inr ((length pre + length ns, pre @ map2 (\<lambda>f s. f\<lparr>ae_name := s\<rparr>) fs ns), rest)"
  using assms
proof (induction ns arbitrary: rd pre fs)
  case Nil
  then show ?case by (subst read_names.simps) (simp add: names_next_def)
next
  case (Cons s ns)
  then obtain f fs' where fs: "fs = f # fs'" by (cases fs) auto
  have "read_names mx (unat (max_name_bytes (hb_limits bnd))) (rd + name_len s) (length (pre @ [f\<lparr>ae_name := s\<rparr>]))
      ((pre @ [f\<lparr>ae_name := s\<rparr>]) @ fs') (concat (map write_name ns) @ rest)
     = Inr ((length (pre @ [f\<lparr>ae_name := s\<rparr>]) + length ns,
         (pre @ [f\<lparr>ae_name := s\<rparr>]) @ map2 (\<lambda>f s. f\<lparr>ae_name := s\<rparr>) fs' ns), rest)"
    using Cons.prems fs by (intro Cons.IH) auto
  moreover have "names_next mx (unat (max_name_bytes (hb_limits bnd))) rd (write_name s @ concat (map write_name ns) @ rest)
      = Some (Inr s, rd + name_len s, concat (map write_name ns) @ rest)"
    using Cons.prems by (intro names_next_decode) auto
  ultimately show ?case
    using fs by (subst read_names.simps) (simp add: list_update_append nth_append)
qed

section \<open>Properties\<close>

lemma properties_end: "decodes (read_properties bnd st) [K_END] st"
  by (rule decodesI) (subst read_properties.simps, simp)

lemma property_decodes:
  assumes "decodes (read_file_property bnd nid (of_nat (length temp)) st) temp st'" "nid \<noteq> 0"
    "decodes (read_properties bnd st') zs r"
  shows "decodes (read_properties bnd st) (write_property nid temp @ zs) r"
proof (rule decodesI)
  fix rest
  show "read_properties bnd st ((write_property nid temp @ zs) @ rest) = Inr (r, rest)"
    using decodesD [OF assms(1), of "zs @ rest"] decodesD [OF assms(3), of rest] assms(2)
      decodesD [OF decodes_variable_u64, of "of_nat (length temp)" "temp @ zs @ rest"]
    by (subst read_properties.simps) (simp add: write_property_def)
qed

lemma nth_bits_spec:
  "bs_wf (index_bits P es)" "bit_count (index_bits P es) = length es"
  "contains (index_bits P es) i \<longleftrightarrow> i < length es \<and> P (es ! i)"
  by (auto simp: index_bits_def insert_where_capacity)

lemma index_bits_len: "bs_len (index_bits P es) = length (filter P es)"
  using bs_len_card [OF nth_bits_spec(1)] by (simp add: nth_bits_spec(3) length_filter_conv_card)

lemma index_bits_decodes: "n = length es \<Longrightarrow> decodes (read_bits n) (write_bit_set (index_bits P es)) (index_bits P es)"
  using decodes_bits [OF nth_bits_spec(1) [of P es]] by (simp add: nth_bits_spec(2))

text \<open>A property of the entries without a stream is kept when one of them has it.\<close>

definition kept_bits :: "(archive_entry \<Rightarrow> bool) \<Rightarrow> archive_entry list \<Rightarrow> bit_set option" where
  "kept_bits P es = (if \<exists>e \<in> set es. P e then Some (index_bits P es) else None)"

lemma empty_streams_decodes:
  assumes "length (fs_files st) = length es" "fs_empty_stream st = None"
    "decodes (read_properties bnd (st\<lparr>fs_empty_stream := kept_bits (\<lambda>e. \<not> ae_has_stream e) es\<rparr>)) zs r"
  shows "decodes (read_properties bnd st) (write_file_empty_streams es @ zs) r"
proof (cases "\<exists>e \<in> set es. \<not> ae_has_stream e")
  case True
  have "decodes (read_file_property bnd K_EMPTY_STREAM sz st) (write_bit_set (index_bits (\<lambda>e. \<not> ae_has_stream e) es))
      (st\<lparr>fs_empty_stream := Some (index_bits (\<lambda>e. \<not> ae_has_stream e) es)\<rparr>)" for sz
    using assms(1) by (simp add: read_file_property_def)
      (intro decodes_bind_end [OF index_bits_decodes] decodes_return, simp)
  from property_decodes [OF this] True assms(3) show ?thesis
    by (simp add: write_file_empty_streams_def kept_bits_def)
next
  case False
  moreover have "st\<lparr>fs_empty_stream := None\<rparr> = st" using assms(2) by simp
  ultimately show ?thesis using assms(3) by (simp add: write_file_empty_streams_def kept_bits_def)
qed

lemma empty_bits_decode:
  assumes "fs_empty_stream st = kept_bits (\<lambda>e. \<not> ae_has_stream e) es" "empty_entries es \<noteq> []"
  shows "decodes (read_empty_bits st) (write_bit_set (index_bits P (empty_entries es))) (index_bits P (empty_entries es))"
proof -
  have "\<exists>e \<in> set es. \<not> ae_has_stream e" using assms(2) by (auto simp: empty_entries_def filter_empty_conv)
  then show ?thesis
    using assms(1) index_bits_decodes [of _ "empty_entries es"]
    by (simp add: read_empty_bits_def kept_bits_def index_bits_len empty_entries_def)
qed

lemma empty_files_decodes:
  assumes "fs_empty_stream st = kept_bits (\<lambda>e. \<not> ae_has_stream e) es" "fs_empty_file st = None"
    "decodes (read_properties bnd (st\<lparr>fs_empty_file := kept_bits (\<lambda>e. \<not> ae_is_directory e) (empty_entries es)\<rparr>)) zs r"
  shows "decodes (read_properties bnd st) (write_file_empty_files es @ zs) r"
proof (cases "\<exists>e \<in> set (empty_entries es). \<not> ae_is_directory e")
  case True
  then have "empty_entries es \<noteq> []" by auto
  note bits = empty_bits_decode [OF assms(1) this]
  have "decodes (read_file_property bnd K_EMPTY_FILE sz st)
      (write_bit_set (index_bits (\<lambda>e. \<not> ae_is_directory e) (empty_entries es)))
      (st\<lparr>fs_empty_file := Some (index_bits (\<lambda>e. \<not> ae_is_directory e) (empty_entries es))\<rparr>)" for sz
    by (simp add: read_file_property_def) (intro decodes_bind_end [OF bits] decodes_return)
  from property_decodes [OF this] True assms(3) show ?thesis
    by (simp add: write_file_empty_files_def kept_bits_def)
next
  case False
  moreover have "st\<lparr>fs_empty_file := None\<rparr> = st" using assms(2) by simp
  ultimately show ?thesis using assms(3) by (simp add: write_file_empty_files_def kept_bits_def)
qed

lemma anti_items_decodes:
  assumes "fs_empty_stream st = kept_bits (\<lambda>e. \<not> ae_has_stream e) es" "fs_anti st = None"
    "decodes (read_properties bnd (st\<lparr>fs_anti := kept_bits ae_is_anti_item (empty_entries es)\<rparr>)) zs r"
  shows "decodes (read_properties bnd st) (write_file_anti_items es @ zs) r"
proof (cases "\<exists>e \<in> set (empty_entries es). ae_is_anti_item e")
  case True
  then have "empty_entries es \<noteq> []" by auto
  note bits = empty_bits_decode [OF assms(1) this]
  have "decodes (read_file_property bnd K_ANTI sz st)
      (write_bit_set (index_bits ae_is_anti_item (empty_entries es)))
      (st\<lparr>fs_anti := Some (index_bits ae_is_anti_item (empty_entries es))\<rparr>)" for sz
    by (simp add: read_file_property_def) (intro decodes_bind_end [OF bits] decodes_return)
  from property_decodes [OF this] True assms(3) show ?thesis
    by (simp add: write_file_anti_items_def kept_bits_def)
next
  case False
  moreover have "st\<lparr>fs_anti := None\<rparr> = st" using assms(2) by simp
  ultimately show ?thesis using assms(3) by (simp add: write_file_anti_items_def kept_bits_def)
qed

text \<open>What the names add up to.\<close>

definition names_allowed :: "header_bounds \<Rightarrow> archive_entry list \<Rightarrow> bool" where
  "names_allowed bnd es \<longleftrightarrow> (\<forall>e \<in> set es. name_allowed bnd (ae_name e))
     \<and> (let n = 1 + (\<Sum>e\<leftarrow>es. name_len (ae_name e)) in
        n \<le> hb_bytes bnd \<and> n \<le> usize_max \<and> n \<le> unat (max_total_name_bytes (hb_limits bnd)))"

lemma names_length: "length (concat (map (\<lambda>e. write_name (ae_name e)) es)) = (\<Sum>e\<leftarrow>es. name_len (ae_name e))"
  by (induction es) (auto simp: length_write_name)

lemma even_names: "even (\<Sum>e\<leftarrow>es. name_len (ae_name e))"
  by (induction es) (auto simp: name_len_def)

lemma of_nat_even_bit: "even n \<Longrightarrow> (of_nat n :: u64) AND 1 = 0"
  unfolding and_one_eq even_iff_mod_2_eq_zero [symmetric] by (auto elim!: evenE)

lemma file_names_decodes:
  assumes "fs_files st = replicate (length es) entry_default" "names_allowed bnd es"
    "decodes (read_properties bnd (st\<lparr>fs_files := map (\<lambda>e. entry_default\<lparr>ae_name := ae_name e\<rparr>) es\<rparr>)) zs r"
  shows "decodes (read_properties bnd st) (write_file_names es @ zs) r"
proof -
  let ?names = "concat (map (\<lambda>e. write_name (ae_name e)) es)"
  define n where "n = 1 + (\<Sum>e\<leftarrow>es. name_len (ae_name e))"
  have len: "length ([0] @ ?names) = n" by (simp add: n_def names_length)
  have n: "n \<le> hb_bytes bnd" "n \<le> usize_max" "n \<le> unat (max_total_name_bytes (hb_limits bnd))" "n \<noteq> 0"
    using assms(2) by (simp_all add: names_allowed_def Let_def n_def)
  have u: "unat (of_nat n :: u64) = n" using n(2) by (rule unat_of_usize)
  have count: "hb_count bnd (of_nat n) TotalNameBytes = Inr n"
    using n u by (simp add: hb_count_Inr_iff limit_cap_def)
  have "of_nat n - 1 = (of_nat (n - 1) :: u64)" using n(4) by (cases n) auto
  then have odd: "\<not> (of_nat n = (0 :: u64) \<or> (of_nat n - 1) AND 1 \<noteq> (0 :: u64))"
    using u n(4) of_nat_even_bit [OF even_names, of es] by (auto simp: n_def)
  let ?files = "map2 (\<lambda>f s. f\<lparr>ae_name := s\<rparr>) (replicate (length es) entry_default) (map ae_name es)"
  have files: "?files = map (\<lambda>e. entry_default\<lparr>ae_name := ae_name e\<rparr>) es"
    by (rule nth_equalityI) auto
  have "decodes (read_names (n - 1) (unat (max_name_bytes (hb_limits bnd))) 0 0 (fs_files st)) ?names (length es, ?files)"
  proof (rule decodesI)
    fix rest
    show "read_names (n - 1) (unat (max_name_bytes (hb_limits bnd))) 0 0 (fs_files st) (?names @ rest)
       = Inr ((length es, ?files), rest)"
      using read_names_decode [of "map ae_name es" bnd 0 "n - 1" "fs_files st" "[]" rest] assms(1,2)
      by (simp add: names_allowed_def n_def o_def)
  qed
  then have "decodes (read_name_property bnd (of_nat n) st) (0 # ?names)
      (st\<lparr>fs_files := map (\<lambda>e. entry_default\<lparr>ae_name := ae_name e\<rparr>) es\<rparr>)"
    unfolding read_name_property_def files [symmetric]
    apply (intro decodes_u8_bind)
    apply (subst if_not_P, simp, subst if_not_P, rule odd)
    apply (rule decodes_bind_lift, rule count, rule decodes_bind_end, assumption)
    by (simp add: decodes_def)
  then have "decodes (read_file_property bnd K_NAME (of_nat (length ([0] @ ?names))) st) ([0] @ ?names)
      (st\<lparr>fs_files := map (\<lambda>e. entry_default\<lparr>ae_name := ae_name e\<rparr>) es\<rparr>)"
    unfolding len by (simp add: read_file_property_def)
  from property_decodes [OF this _ assms(3)] show ?thesis by (simp add: write_file_names_def)
qed

text \<open>A property with a value for each entry that has it.\<close>

lemma per_file_values:
  assumes "\<And>e. e \<in> set es \<Longrightarrow> has_it e \<Longrightarrow> decodes rd (enc e) (val e)"
    "\<And>i. i < length es \<Longrightarrow> contains d (k + i) \<longleftrightarrow> has_it (es ! i)"
  shows "decodes (mapP (\<lambda>(i, f). if contains d i then bindP rd (\<lambda>v. returnP (setv v f)) else returnP (unset f))
      (enumerate k (map F es))) (concat (map enc (filter has_it es)))
    (map (\<lambda>e. if has_it e then setv (val e) (F e) else unset (F e)) es)"
  using assms
proof (induction es arbitrary: k)
  case (Cons e es)
  let ?f = "\<lambda>e. if has_it e then setv (val e) (F e) else unset (F e)"
  have rec: "decodes (mapP (\<lambda>(i, f). if contains d i then bindP rd (\<lambda>v. returnP (setv v f)) else returnP (unset f))
      (enumerate (Suc k) (map F es))) (concat (map enc (filter has_it es))) (map ?f es)"
    using Cons.prems(1) Cons.prems(2) [of "Suc i" for i] by (intro Cons.IH) auto
  have "contains d k \<longleftrightarrow> has_it e" using Cons.prems(2) [of 0] by simp
  then have one: "decodes (if contains d k then bindP rd (\<lambda>v. returnP (setv v (F e))) else returnP (unset (F e)))
      (if has_it e then enc e else []) (?f e)"
    using Cons.prems(1) [of e] by (auto intro!: decodes_bind_end decodes_return)
  have bytes: "concat (map enc (filter has_it (e # es))) = (if has_it e then enc e else []) @ concat (map enc (filter has_it es))"
    by simp
  show ?case
    unfolding bytes list.map enumerate_simps mapP.simps prod.case
    by (rule decodes_bind [OF one decodes_bind_end [OF rec decodes_return]])
qed (simp add: decodes_def)

lemma times_decodes:
  assumes files: "fs_files st = map F es" "\<And>e. unset (F e) = F e"
    and dispatch: "\<And>sz st. read_file_property bnd nid sz st = read_per_file msg rd unset setv st" "nid \<noteq> 0"
    and field: "\<And>e. decodes rd (enc e) (val e)"
    and rest: "decodes (read_properties bnd (st\<lparr>fs_files := map (\<lambda>e. if has_it e then setv (val e) (F e) else F e) es\<rparr>)) zs r"
  shows "decodes (read_properties bnd st) (write_times nid has_it enc es @ zs) r"
proof (cases "filter has_it es = []")
  case True
  then have "map (\<lambda>e. if has_it e then setv (val e) (F e) else F e) es = map F es"
    by (auto simp: filter_empty_conv)
  with True files(1) rest have "decodes (read_properties bnd st) zs r"
    by (metis (no_types, lifting) files_state.surjective files_state.update_convs(1))
  with True show ?thesis by (simp add: write_times_def Let_def)
next
  case False
  let ?n = "length es" and ?d = "index_bits has_it es"
  let ?all = "if length (filter has_it es) \<noteq> ?n then [0] @ write_bit_set ?d else [1]"
  have all: "length (filter has_it es) = ?n \<Longrightarrow> i < ?n \<Longrightarrow> has_it (es ! i)" for i
    by (metis filter_id_conv length_filter_less nat_neq_iff nth_mem)
  have "insert_where (\<lambda>_. True) [0..<?n] (with_capacity ?n) = ?d" if "length (filter has_it es) = ?n"
    by (rule bs_ext) (use all that in \<open>auto simp: insert_where_capacity nth_bits_spec\<close>)
  then have bits: "decodes (read_all_or_bits ?n) ?all ?d"
    using decodes_all_set [of 1 ?n] decodes_all_or_bits [OF nth_bits_spec(1) [of has_it es]]
    by (auto simp: nth_bits_spec(2) write_u8_def)
  have vals: "decodes (mapP (\<lambda>(i, f). if contains ?d i then bindP rd (\<lambda>v. returnP (setv v f)) else returnP (unset f))
      (enumerate 0 (map F es))) (concat (map enc (filter has_it es)))
      (map (\<lambda>e. if has_it e then setv (val e) (F e) else unset (F e)) es)"
    by (rule per_file_values) (simp_all add: field nth_bits_spec)
  have "decodes (read_per_file msg rd unset setv st) (?all @ 0 # concat (map enc (filter has_it es)))
      (st\<lparr>fs_files := map (\<lambda>e. if has_it e then setv (val e) (F e) else F e) es\<rparr>)"
    unfolding read_per_file_def files(1) length_map
    apply (rule decodes_bind, rule bits, rule decodes_u8_bind, subst if_not_P, simp)
    apply (rule decodes_bind_end, rule vals)
    by (simp add: files(2) decodes_return cong: if_cong)
  then have "decodes (read_file_property bnd nid (of_nat (length (?all @ [0] @ concat (map enc (filter has_it es))))) st)
      (?all @ [0] @ concat (map enc (filter has_it es)))
      (st\<lparr>fs_files := map (\<lambda>e. if has_it e then setv (val e) (F e) else F e) es\<rparr>)"
    by (simp add: dispatch(1))
  from property_decodes [OF this dispatch(2) rest] False show ?thesis by (simp add: write_times_def Let_def)
qed

section \<open>The entries read back\<close>

text \<open>What the properties keep of an entry: its name, and the times and attributes it has.\<close>

definition kept_props :: "archive_entry \<Rightarrow> archive_entry" where
  "kept_props e = entry_default\<lparr>ae_name := ae_name e,
     ae_has_creation_date := ae_has_creation_date e,
     ae_creation_date := (if ae_has_creation_date e then ae_creation_date e else 0),
     ae_has_access_date := ae_has_access_date e,
     ae_access_date := (if ae_has_access_date e then ae_access_date e else 0),
     ae_has_last_modified_date := ae_has_last_modified_date e,
     ae_last_modified_date := (if ae_has_last_modified_date e then ae_last_modified_date e else 0),
     ae_has_windows_attributes := ae_has_windows_attributes e,
     ae_windows_attributes := (if ae_has_windows_attributes e then ae_windows_attributes e else 0)\<rparr>"

text \<open>An entry with a stream takes the next sub-stream's size and digest.\<close>

fun stored_entries :: "sub_streams_info option \<Rightarrow> nat \<Rightarrow> archive_entry list \<Rightarrow> archive_entry list" where
  "stored_entries info k [] = []"
| "stored_entries info k (e # es) =
     (if ae_has_stream e then
        (kept_props e)\<lparr>ae_has_stream := True,
           ae_has_crc := contains (ssi_has_crc (the info)) k, ae_crc := ucast (ssi_crcs (the info) ! k),
           ae_size := ssi_unpack_sizes (the info) ! k\<rparr> # stored_entries info (Suc k) es
      else
        (kept_props e)\<lparr>ae_is_directory := ae_is_directory e, ae_is_anti_item := ae_is_anti_item e\<rparr>
          # stored_entries info k es)"

definition bits_state :: "archive_entry list \<Rightarrow> files_state" where
  "bits_state es = \<lparr>fs_files = map kept_props es,
     fs_empty_stream = kept_bits (\<lambda>e. \<not> ae_has_stream e) es,
     fs_empty_file = kept_bits (\<lambda>e. \<not> ae_is_directory e) (empty_entries es),
     fs_anti = kept_bits ae_is_anti_item (empty_entries es)\<rparr>"

lemma kept_bits_at:
  "i < length es \<Longrightarrow> (case kept_bits P es of Some s \<Rightarrow> contains s i | None \<Rightarrow> False) \<longleftrightarrow> P (es ! i)"
  by (auto simp: kept_bits_def nth_bits_spec)

lemma case_option_not:
  "(case x of Some s \<Rightarrow> \<not> f s | None \<Rightarrow> True) \<longleftrightarrow> \<not> (case x of Some s \<Rightarrow> f s | None \<Rightarrow> False)"
  by (cases x) auto

lemma nth_filter: "P e \<Longrightarrow> filter P (pre @ e # es) ! length (filter P pre) = e"
  by (simp add: nth_append)

lemma assign_stored:
  assumes "es = pre @ post" "length (filter ae_has_stream es) \<le> n"
    "n \<noteq> 0 \<Longrightarrow> \<exists>s. info = Some s \<and> length (ssi_unpack_sizes s) = n \<and> length (ssi_crcs s) = n"
  shows "assign_files (bits_state es) info (length pre) (length (filter ae_has_stream pre))
      (length (empty_entries pre)) (map kept_props post)
    = Inr (stored_entries info (length (filter ae_has_stream pre)) post, length (filter ae_has_stream es))"
  using assms(1)
proof (induction post arbitrary: pre)
  case (Cons e post)
  let ?st = "bits_state es" and ?k = "length (filter ae_has_stream pre)" and ?m = "length (empty_entries pre)"
  have rec: "assign_files ?st info (length (pre @ [e])) (length (filter ae_has_stream (pre @ [e])))
      (length (empty_entries (pre @ [e]))) (map kept_props post)
    = Inr (stored_entries info (length (filter ae_has_stream (pre @ [e]))) post, length (filter ae_has_stream es))"
    using Cons.prems by (intro Cons.IH) simp
  have at: "es ! length pre = e" using Cons.prems by simp
  have stream: "has_stream_at ?st (length pre) \<longleftrightarrow> ae_has_stream e"
    using kept_bits_at [of "length pre" es "\<lambda>e. \<not> ae_has_stream e"] Cons.prems at
    by (auto simp: has_stream_at_def bits_state_def split: option.splits)
  show ?case
  proof (cases "ae_has_stream e")
    case True
    then have "?k < n" using Cons.prems assms(2) by simp
    then obtain s where s: "info = Some s" "length (ssi_unpack_sizes s) = n" "length (ssi_crcs s) = n"
      using assms(3) by (cases n) auto
    with \<open>?k < n\<close> have "streamed_entry s ?k (kept_props e) = Inr ((kept_props e)\<lparr>ae_has_stream := True,
           ae_has_crc := contains (ssi_has_crc s) ?k, ae_crc := ucast (ssi_crcs s ! ?k),
           ae_size := ssi_unpack_sizes s ! ?k\<rparr>)"
      by (simp add: streamed_entry_def get_def kept_props_def entry_default_def)
    with True stream rec s(1) show ?thesis by (simp add: empty_entries_def)
  next
    case False
    have m: "empty_entries es ! ?m = e" "?m < length (empty_entries es)"
      using nth_filter [of "\<lambda>e. \<not> ae_has_stream e" e pre post] False Cons.prems by (auto simp: empty_entries_def)
    have "(case fs_empty_file ?st of Some s \<Rightarrow> \<not> contains s ?m | None \<Rightarrow> True) = ae_is_directory e"
      unfolding bits_state_def files_state.simps case_option_not kept_bits_at [OF m(2)] m(1) by simp
    moreover have "(case fs_anti ?st of Some s \<Rightarrow> contains s ?m | None \<Rightarrow> False) = ae_is_anti_item e"
      unfolding bits_state_def files_state.simps kept_bits_at [OF m(2)] m(1) by simp
    ultimately have "empty_entry ?st ?m (kept_props e)
        = (kept_props e)\<lparr>ae_is_directory := ae_is_directory e, ae_is_anti_item := ae_is_anti_item e\<rparr>"
      by (simp add: empty_entry_def kept_props_def entry_default_def)
    with False stream rec show ?thesis by (simp add: empty_entries_def)
  qed
qed (simp add: bits_state_def)

text \<open>The properties, one after the other.\<close>

lemma properties_decode:
  assumes "names_allowed bnd es"
  shows "decodes (read_properties bnd \<lparr>fs_files = replicate (length es) entry_default, fs_empty_stream = None,
              fs_empty_file = None, fs_anti = None\<rparr>)
    (write_file_empty_streams es @ write_file_empty_files es @ write_file_anti_items es
     @ write_file_names es
     @ write_times K_C_TIME ae_has_creation_date (\<lambda>e. write_u64_le (ae_creation_date e)) es
     @ write_times K_A_TIME ae_has_access_date (\<lambda>e. write_u64_le (ae_access_date e)) es
     @ write_times K_M_TIME ae_has_last_modified_date (\<lambda>e. write_u64_le (ae_last_modified_date e)) es
     @ write_times K_WIN_ATTRIBUTES ae_has_windows_attributes (\<lambda>e. write_u32 (ae_windows_attributes e)) es
     @ [K_END]) (bits_state es)"
proof -
  let ?c = "\<lambda>e f. if ae_has_creation_date e then f\<lparr>ae_has_creation_date := True, ae_creation_date := ae_creation_date e\<rparr> else f"
  let ?a = "\<lambda>e f. if ae_has_access_date e then f\<lparr>ae_has_access_date := True, ae_access_date := ae_access_date e\<rparr> else f"
  let ?m = "\<lambda>e f. if ae_has_last_modified_date e
      then f\<lparr>ae_has_last_modified_date := True, ae_last_modified_date := ae_last_modified_date e\<rparr> else f"
  let ?w = "\<lambda>e f. if ae_has_windows_attributes e
      then f\<lparr>ae_has_windows_attributes := True, ae_windows_attributes := ae_windows_attributes e\<rparr> else f"
  let ?n = "\<lambda>e. entry_default\<lparr>ae_name := ae_name e\<rparr>"
  have all: "?w e (?m e (?a e (?c e (?n e)))) = kept_props e" for e
    by (cases "ae_has_creation_date e"; cases "ae_has_access_date e"; cases "ae_has_last_modified_date e";
        cases "ae_has_windows_attributes e"; simp only: if_True if_False kept_props_def; simp add: entry_default_def)
  show ?thesis
    apply (rule empty_streams_decodes, simp, simp)
    apply (rule empty_files_decodes, simp, simp)
    apply (rule anti_items_decodes, simp, simp)
    apply (rule file_names_decodes, simp, rule assms)
    apply (rule times_decodes [where F = ?n and unset = "\<lambda>f. f\<lparr>ae_has_creation_date := False\<rparr>"
        and val = ae_creation_date, OF _ _ _ _ decodes_u64])
        apply simp
       apply (simp add: entry_default_def)
      apply (simp add: read_file_property_def)
     apply simp
    apply (rule times_decodes [where F = "\<lambda>e. ?c e (?n e)" and unset = "\<lambda>f. f\<lparr>ae_has_access_date := False\<rparr>"
        and val = ae_access_date, OF _ _ _ _ decodes_u64])
        apply simp
       apply (simp add: entry_default_def)
      apply (simp add: read_file_property_def)
     apply simp
    apply (rule times_decodes [where F = "\<lambda>e. ?a e (?c e (?n e))" and unset = "\<lambda>f. f\<lparr>ae_has_last_modified_date := False\<rparr>"
        and val = ae_last_modified_date, OF _ _ _ _ decodes_u64])
        apply simp
       apply (simp add: entry_default_def)
      apply (simp add: read_file_property_def)
     apply simp
    apply (rule times_decodes [where F = "\<lambda>e. ?m e (?a e (?c e (?n e)))" and unset = "\<lambda>f. f\<lparr>ae_has_windows_attributes := False\<rparr>"
        and val = ae_windows_attributes, OF _ _ _ _ decodes_u32])
        apply simp
       apply (simp add: entry_default_def)
      apply (simp add: read_file_property_def)
     apply simp
    using properties_end [of bnd "bits_state es"] by (simp add: bits_state_def all)
qed

lemma files_info_decodes:
  assumes "count_allowed bnd (length es)" "names_allowed bnd es"
    "ar_sub_streams_info a = Some s" "length (ssi_unpack_sizes s) = length (filter ae_has_stream es)"
    "length (ssi_crcs s) = length (filter ae_has_stream es)"
  shows "decodes (read_files_info bnd a) (tl (write_files_info es)) (a\<lparr>ar_files := stored_entries (Some s) 0 es\<rparr>)"
proof -
  have body: "tl (write_files_info es) = write_u64 (of_nat (length es))
      @ (write_file_empty_streams es @ write_file_empty_files es @ write_file_anti_items es
     @ write_file_names es
     @ write_times K_C_TIME ae_has_creation_date (\<lambda>e. write_u64_le (ae_creation_date e)) es
     @ write_times K_A_TIME ae_has_access_date (\<lambda>e. write_u64_le (ae_access_date e)) es
     @ write_times K_M_TIME ae_has_last_modified_date (\<lambda>e. write_u64_le (ae_last_modified_date e)) es
     @ write_times K_WIN_ATTRIBUTES ae_has_windows_attributes (\<lambda>e. write_u32 (ae_windows_attributes e)) es
     @ [K_END])"
    by (simp add: write_files_info_def)
  have "assign_files (bits_state es) (Some s) 0 0 0 (fs_files (bits_state es))
      = Inr (stored_entries (Some s) 0 es, length (filter ae_has_stream es))"
    using assign_stored [of es "[]" es "length (filter ae_has_stream es)" "Some s"] assms
    by (simp add: bits_state_def empty_entries_def)
  note assign = this
  show ?thesis
    unfolding read_files_info_def body
    apply (rule decodes_variable_bind, rule decodes_bind_lift, rule count_allowed_hb [OF assms(1)])
    apply (rule decodes_bind_end, rule properties_decode [OF assms(2)])
    by (simp add: assms(3,4) assign Let_def decodes_def)
qed

section \<open>The header\<close>

definition header_archive :: "pack_info \<Rightarrow> unpack_info \<Rightarrow> block list \<Rightarrow> archive_entry list \<Rightarrow> archive" where
  "header_archive p u bl es =
     (let a = with_streams p u bl archive_default in a\<lparr>ar_files := stored_entries (ar_sub_streams_info a) 0 es\<rparr>)"

definition header_written :: "header_bounds \<Rightarrow> pack_info \<Rightarrow> unpack_info \<Rightarrow> block list \<Rightarrow> archive_entry list \<Rightarrow> bool" where
  "header_written bnd p u bl es \<longleftrightarrow> streams_written bnd p u bl
     \<and> count_allowed bnd (length es) \<and> names_allowed bnd es
     \<and> length (filter ae_has_stream es) = sum_list (map sub_count (ui_blocks u))"

lemma header_decodes:
  assumes "header_written bnd p u bl es"
  shows "decodes (read_header bnd archive_default) (tl (write_header p u es)) (header_archive p u bl es)"
proof -
  let ?a = "with_streams p u bl archive_default"
  have w: "streams_written bnd p u bl" "count_allowed bnd (length es)" "names_allowed bnd es"
    "length (filter ae_has_stream es) = sum_list (map sub_count (ui_blocks u))"
    using assms by (simp_all add: header_written_def)
  have streams: "decodes (read_streams_info bnd archive_default) (write_streams_info p u) ?a"
    by (rule streams_info_decodes [OF w(1)]) (simp add: archive_default_def)
  have agree: "all_agree (ui_blocks u) bl" using w(1) by (simp add: streams_written_def)
  obtain s where s: "ar_sub_streams_info ?a = Some s" "length (ssi_unpack_sizes s) = length (filter ae_has_stream es)"
      "length (ssi_crcs s) = length (filter ae_has_stream es)"
    using length_all_sizes [OF agree] length_all_digests [OF agree] w(4)
    by (simp add: with_streams_def with_sub_streams_def)
  have files: "decodes (read_files_info bnd ?a) (tl (write_files_info es)) (header_archive p u bl es)"
    using files_info_decodes [OF w(2,3) s] by (simp add: header_archive_def Let_def s(1))
  have tls: "write_files_info es = K_FILES_INFO # tl (write_files_info es)" by (simp add: write_files_info_def)
  have body: "tl (write_header p u es) = K_MAIN_STREAMS_INFO # [] @ (write_streams_info p u @ [K_FILES_INFO])
      @ (tl (write_files_info es) @ [K_END]) @ []"
    by (simp add: write_header_def) (metis append_Cons append_Nil append_assoc tls)
  have no: "(K_MAIN_STREAMS_INFO = K_ARCHIVE_PROPERTIES) = False"
    "(K_MAIN_STREAMS_INFO = K_ADDITIONAL_STREAMS_INFO) = False" by simp_all
  show ?thesis
    unfolding read_header_def body
    apply (rule decodes_u8_bind, simp only: no, rule decodes_bind, rule decodes_section_skip, simp only: prod.case no if_False)
    apply (rule decodes_bind, simp only: refl, rule decodes_section_if [OF streams], simp only: prod.case)
    apply (rule decodes_bind, simp only: refl, rule decodes_section_if [OF files], simp only: prod.case)
    by (simp add: decodes_def)
qed

lemma parse_written_header:
  assumes "header_written \<lparr>hb_bytes = length (tl (write_header p u es)), hb_limits = l\<rparr> p u bl es"
  shows "parse_header l K_HEADER (tl (write_header p u es)) = Inr (header_archive p u bl es)"
  using decodes_all [OF header_decodes [OF assms]] by (simp add: parse_header_def)

end
