(* ===== verification/Written_Sample.thy ===== *)
theory Written_Sample
  imports Sample Files_Round_Trip
begin

text \<open>
  What the writer records of a small archive: one stored folder with two files in it, a directory
  beside them; and a password-protected folder's options.
\<close>

definition copy_method :: header_method where
  "copy_method = \<lparr>hm_id = ID_COPY, hm_properties = []\<rparr>"

definition written_limits :: archive_limits where
  "written_limits = sample_limits\<lparr>max_total_coders := 9, max_entries := 40\<rparr>"

definition copied_block :: block_info where
  "copied_block = \<lparr>bi_methods = projr (write_folder [copy_method]), bi_sizes = [10], bi_crc = 7,
     bi_extra = Some \<lparr>be_num_sub_unpack_streams = 2, be_sub_stream_sizes = [4, 6], be_sub_stream_crcs = [3, 5],
       be_bcj2 = None, be_raw_pack_streams = None\<rparr>\<rparr>"

definition copied_pack :: pack_info where
  "copied_pack = add_stream 10 7 pack_info_default"

definition copied_unpack :: unpack_info where
  "copied_unpack = unpack_info_default\<lparr>ui_blocks := [copied_block]\<rparr>"

definition copied_entries :: "archive_entry list" where
  "copied_entries =
     [entry_default\<lparr>ae_name := [0x61], ae_has_stream := True\<rparr>,
      entry_default\<lparr>ae_name := [0x62], ae_is_directory := True\<rparr>,
      entry_default\<lparr>ae_name := [0x63], ae_has_stream := True\<rparr>]"

definition copied_header :: "byte list" where
  "copied_header = tl (write_header copied_pack copied_unpack copied_entries)"

definition written_bounds :: header_bounds where
  "written_bounds = \<lparr>hb_bytes = length copied_header, hb_limits = written_limits\<rparr>"

definition read_copied_block :: block where
  "read_copied_block = built_block (map method_spec [copy_method]) (chain_pairs 1) [0]"

lemma copied_names: "map (\<lambda>e. name_len (ae_name e)) copied_entries = [4, 4, 4]"
  by (simp add: copied_entries_def name_len_def encode_utf16_def encode_utf16_char_def)

lemma copied_length: "13 \<le> hb_bytes written_bounds" and copied_bounds: "hb_limits written_bounds = written_limits"
  using copied_names names_length [of copied_entries]
  by (simp_all add: written_bounds_def copied_header_def write_header_def write_files_info_def write_file_names_def
      write_property_def write_streams_info_def write_substreams_def)

lemma copied_count: "n \<le> 9 \<Longrightarrow> count_allowed written_bounds n"
  using copied_length by (simp add: count_allowed_def copied_bounds usize_max_def written_limits_def)

lemma copied_folder_allowed: "folder_allowed written_bounds (map method_spec [copy_method])"
  using copied_count [of 1]
  by (simp add: folder_allowed_def copy_method_def method_spec_def coder_allowed_def inputs_of_def copied_bounds
      written_limits_def sample_limits_def method_id_defs usize_max_def)

lemma copied_methods:
  "write_folder [copy_method] = Inr (bi_methods copied_block)" "hm_id copy_method \<noteq> ID_BCJ2"
  "length (hm_properties copy_method) < 128"
  by code_simp+

lemma copied_block_decodes: "decodes (read_block written_bounds) (bi_methods copied_block) read_copied_block"
  using chain_decodes [of "[copy_method]" written_bounds] copied_folder_allowed copied_methods
  by (simp add: read_copied_block_def)

lemma copied_block_agrees:
  "get_unpack_size (sized_block copied_block read_copied_block) = Inr 10" "\<not> has_crc read_copied_block"
  "length (bi_all_sizes copied_block) = total_output_streams read_copied_block"
  "length (coders read_copied_block) \<le> unat (max_total_coders written_limits)"
  by code_simp+

lemma copied_counts:
  "sub_count copied_block = 2" "length copied_entries = 3" "pi_len copied_pack = 1"
  "length (filter ae_has_stream copied_entries) = 2" "length (pi_crcs copied_pack) = 1"
  by code_simp+

lemma copied_names_allowed: "names_allowed written_bounds copied_entries"
  using copied_length copied_names
  by (simp add: names_allowed_def name_allowed_def copied_bounds written_limits_def sample_limits_def usize_max_def
      copied_entries_def scalar_value_def encode_utf16_def encode_utf16_char_def)

lemma copied_streams_agree: "sub_streams_agree copied_block 10"
  by code_simp

lemma copied_header_written:
  "header_written written_bounds copied_pack copied_unpack [read_copied_block] copied_entries"
proof -
  have bl: "ui_blocks copied_unpack = [copied_block]" by (simp add: copied_unpack_def)
  have "block_written written_bounds copied_block read_copied_block"
    using copied_block_decodes copied_block_agrees(2,3) by (simp add: block_written_def)
  moreover have "block_agrees copied_block read_copied_block"
    using copied_block_agrees(1) copied_streams_agree by (auto simp: block_agrees_def)
  ultimately show ?thesis
    using copied_counts copied_block_agrees(4) copied_names_allowed copied_count
    by (simp add: header_written_def streams_written_def bl all_agree_def copied_bounds)
qed

text \<open>A folder with BCJ2 and a block copied once more.\<close>

definition jump_methods :: "header_method list" where
  "jump_methods = [\<lparr>hm_id = ID_LZMA, hm_properties = [93, 0, 0, 1, 0]\<rparr>, \<lparr>hm_id = ID_BCJ2, hm_properties = []\<rparr>]"

definition jump_bounds :: header_bounds where
  "jump_bounds = \<lparr>hb_bytes = 100, hb_limits = written_limits\<rparr>"

lemma jump_facts:
  "length jump_methods = 2" "hm_id (last jump_methods) = ID_BCJ2"
  "list_all (\<lambda>m. length (hm_properties m) < 128) (butlast jump_methods)"
  "map_sum (\<lambda>_. ()) (\<lambda>_. ()) (write_folder jump_methods) = Inr ()"
  by code_simp+

lemma jump_written: "write_folder jump_methods = Inr (projr (write_folder jump_methods))"
  using jump_facts(4) by (cases "write_folder jump_methods") auto

lemma jump_allowed: "folder_allowed jump_bounds (bcj2_specs jump_methods)"
  by (simp add: folder_allowed_def bcj2_specs_def jump_methods_def method_spec_def coder_allowed_def inputs_of_def
      jump_bounds_def count_allowed_def written_limits_def sample_limits_def method_id_defs usize_max_def
      length_bcj2_side_properties)

lemma copied_block_ok: "block_ok written_bounds read_copied_block"
  using read_block_spec [OF copied_block_decodes [unfolded decodes_def, rule_format, of "[]"]] by simp

lemma copied_raw_allowed: "folder_allowed written_bounds (raw_specs read_copied_block)"
proof -
  have "raw_specs read_copied_block = map method_spec [copy_method]" by code_simp
  with copied_folder_allowed show ?thesis by simp
qed

lemma plain_power: "aes_parse [2] = Inr \<lparr>ap_cycles_power = 2, ap_salt = replicate 16 0, ap_salt_len = 0,
    ap_iv = replicate 16 0\<rparr>"
  by code_simp

end
