(* ===== verification/Sources.thy ===== *)
theory Sources
  imports Encoder_Options
begin

text \<open>
  Where a folder's bytes come from (\<^verbatim>\<open>src/src/writer/source_reader.rs\<close>,
  \<^verbatim>\<open>src/src/writer/seq_reader.rs\<close>, the read-ahead of \<^verbatim>\<open>src/src/writer.rs\<close>): the caller's readers
  with their checksums and counts, the readers of a solid block one after another, and how much of
  a folder is read to learn its size. A caller's reader is the list of what its reads return: a
  chunk, which a shorter buffer takes in pieces, nothing (an end of file, which a later read may
  get past), or an error. Past the list every read returns nothing. A running CRC-32 is the bytes it
  was given.
\<close>

section \<open>Readers\<close>

datatype read_event = Yields "byte list" | Fails io_error

type_synonym source = "read_event list"

fun read_source :: "nat \<Rightarrow> source \<Rightarrow> (io_error + byte list) \<times> source" where
  "read_source n [] = (Inr [], [])"
| "read_source n (Fails e # s) = (Inl e, s)"
| "read_source n (Yields bs # s) =
     (if length bs \<le> n then (Inr bs, s) else (Inr (take n bs), Yields (drop n bs) # s))"

record source_reader =
  sr_reader :: source
  sr_size :: nat
  sr_crc :: "byte list"
  sr_crc_value :: u32
  sr_finished :: bool

definition source_reader_new :: "source \<Rightarrow> source_reader" where
  "source_reader_new s = \<lparr>sr_reader = s, sr_size = 0, sr_crc = [], sr_crc_value = 0, sr_finished = False\<rparr>"

definition source_read :: "(byte list \<Rightarrow> u32) \<Rightarrow> nat \<Rightarrow> source_reader \<Rightarrow> (io_error + byte list) \<times> source_reader" where
  "source_read crc32 n r =
     (if n = 0 \<or> sr_finished r then (Inr [], r)
      else case read_source n (sr_reader r) of
        (Inl e, s) \<Rightarrow> (Inl e, r\<lparr>sr_reader := s\<rparr>)
      | (Inr bs, s) \<Rightarrow>
          if bs \<noteq> []
          then (Inr bs, r\<lparr>sr_reader := s, sr_size := sr_size r + length bs, sr_crc := sr_crc r @ bs\<rparr>)
          else (Inr bs, r\<lparr>sr_reader := s, sr_crc := [], sr_crc_value := crc32 (sr_crc r), sr_finished := True\<rparr>))"

record seq_reader =
  sq_readers :: "source_reader list"
  sq_current :: nat

definition seq_reader_new :: "source_reader list \<Rightarrow> seq_reader" where
  "seq_reader_new rs = \<lparr>sq_readers = rs, sq_current = 0\<rparr>"

function seq_loop :: "(byte list \<Rightarrow> u32) \<Rightarrow> nat \<Rightarrow> seq_reader \<Rightarrow> (io_error + byte list) \<times> seq_reader" where
  "seq_loop crc32 n q =
     (if sq_current q < length (sq_readers q) then
        case source_read crc32 n (sq_readers q ! sq_current q) of (x, r) \<Rightarrow>
          let q' = q\<lparr>sq_readers := (sq_readers q)[sq_current q := r]\<rparr> in
          case x of
            Inl e \<Rightarrow> (Inl e, q')
          | Inr bs \<Rightarrow> if bs = [] then seq_loop crc32 n (q'\<lparr>sq_current := sq_current q + 1\<rparr>) else (Inr bs, q')
      else (Inr [], q))"
  by pat_completeness auto
termination
  by (relation "measure (\<lambda>(_, _, q). length (sq_readers q) - sq_current q)") auto

declare seq_loop.simps [simp del]

definition seq_read :: "(byte list \<Rightarrow> u32) \<Rightarrow> nat \<Rightarrow> seq_reader \<Rightarrow> (io_error + byte list) \<times> seq_reader" where
  "seq_read crc32 n q = (if n = 0 then (Inr [], q) else seq_loop crc32 n q)"

text \<open>What a folder is coded from: one entry's reader, or a solid block's readers in sequence.\<close>

datatype folder_reader = Entry source | Solid seq_reader

definition folder_read :: "(byte list \<Rightarrow> u32) \<Rightarrow> nat \<Rightarrow> folder_reader \<Rightarrow> (io_error + byte list) \<times> folder_reader" where
  "folder_read crc32 n r = (case r of
      Entry s \<Rightarrow> (case read_source n s of (x, s') \<Rightarrow> (x, Entry s'))
    | Solid q \<Rightarrow> (case seq_read crc32 n q of (x, q') \<Rightarrow> (x, Solid q')))"

section \<open>What is left to read\<close>

definition source_weight :: "source \<Rightarrow> nat" where
  "source_weight s = (\<Sum>x\<leftarrow>s. case x of Yields bs \<Rightarrow> Suc (length bs) | Fails e \<Rightarrow> 1)"

definition reader_weight :: "folder_reader \<Rightarrow> nat" where
  "reader_weight r = (case r of
      Entry s \<Rightarrow> source_weight s
    | Solid q \<Rightarrow> (\<Sum>r\<leftarrow>sq_readers q. source_weight (sr_reader r)))"

lemma source_weight_simps [simp]:
  "source_weight [] = 0"
  "source_weight (Yields bs # s) = Suc (length bs + source_weight s)"
  "source_weight (Fails e # s) = Suc (source_weight s)"
  by (simp_all add: source_weight_def)

lemma read_source_weight:
  "read_source n s = (x, s') \<Longrightarrow> source_weight s' \<le> source_weight s
     \<and> (x \<noteq> Inr [] \<longrightarrow> source_weight s' < source_weight s)"
  by (induction n s rule: read_source.induct) (auto split: if_splits)

lemma source_read_weight:
  "source_read crc32 n r = (x, r') \<Longrightarrow> source_weight (sr_reader r') \<le> source_weight (sr_reader r)
     \<and> (x \<noteq> Inr [] \<longrightarrow> source_weight (sr_reader r') < source_weight (sr_reader r))"
  by (auto simp: source_read_def split: if_splits prod.splits sum.splits dest: read_source_weight)

lemma sum_list_update_less:
  fixes f :: "'a \<Rightarrow> nat"
  assumes "i < length xs"
  shows "f y \<le> f (xs ! i) \<Longrightarrow> sum_list (map f (xs[i := y])) \<le> sum_list (map f xs)"
    and "f y < f (xs ! i) \<Longrightarrow> sum_list (map f (xs[i := y])) < sum_list (map f xs)"
proof -
  have "xs = take i xs @ xs ! i # drop (Suc i) xs" by (simp add: assms id_take_nth_drop)
  moreover have "xs[i := y] = take i xs @ y # drop (Suc i) xs" using assms by (simp add: upd_conv_take_nth_drop)
  ultimately have "sum_list (map f xs) = sum_list (map f (take i xs)) + f (xs ! i) + sum_list (map f (drop (Suc i) xs))"
    "sum_list (map f (xs[i := y])) = sum_list (map f (take i xs)) + f y + sum_list (map f (drop (Suc i) xs))"
    by (metis (no_types, lifting) add.assoc list.simps(9) map_append sum_list.Cons sum_list_append)+
  then show "f y \<le> f (xs ! i) \<Longrightarrow> sum_list (map f (xs[i := y])) \<le> sum_list (map f xs)"
    "f y < f (xs ! i) \<Longrightarrow> sum_list (map f (xs[i := y])) < sum_list (map f xs)"
    by simp_all
qed

lemma seq_loop_weight:
  "seq_loop crc32 n q = (x, q') \<Longrightarrow> reader_weight (Solid q') \<le> reader_weight (Solid q)
     \<and> (x \<noteq> Inr [] \<longrightarrow> reader_weight (Solid q') < reader_weight (Solid q))"
proof (induction crc32 n q arbitrary: x q' rule: seq_loop.induct)
  case (1 crc32 n q)
  show ?case
  proof (cases "sq_current q < length (sq_readers q)")
    case True
    obtain y r where y: "source_read crc32 n (sq_readers q ! sq_current q) = (y, r)" by fastforce
    let ?q = "q\<lparr>sq_readers := (sq_readers q)[sq_current q := r]\<rparr>"
    note w = source_read_weight [OF y]
    have le: "reader_weight (Solid ?q) \<le> reader_weight (Solid q)"
      using sum_list_update_less(1) [OF True, of "\<lambda>r. source_weight (sr_reader r)" r] w by (simp add: reader_weight_def)
    have less: "y \<noteq> Inr [] \<Longrightarrow> reader_weight (Solid ?q) < reader_weight (Solid q)"
      using sum_list_update_less(2) [OF True, of "\<lambda>r. source_weight (sr_reader r)" r] w by (simp add: reader_weight_def)
    show ?thesis
    proof (cases "y = Inr []")
      case rec: True
      with 1(2) True y have "seq_loop crc32 n (?q\<lparr>sq_current := sq_current q + 1\<rparr>) = (x, q')"
        by (subst (asm) seq_loop.simps) simp
      from 1(1) [OF True y [symmetric] refl rec refl this] rec le show ?thesis by (auto simp: reader_weight_def)
    next
      case False
      have "seq_loop crc32 n q = (y, ?q)"
        using True y False by (subst seq_loop.simps) (auto simp: Let_def split: sum.splits if_splits)
      with 1(2) have "x = y" "q' = ?q" by auto
      with less False le show ?thesis by simp
    qed
  next
    case False
    with 1(2) show ?thesis by (subst (asm) seq_loop.simps) simp
  qed
qed

lemma folder_read_weight:
  "folder_read crc32 n r = (x, r') \<Longrightarrow> reader_weight r' \<le> reader_weight r
     \<and> (x \<noteq> Inr [] \<longrightarrow> reader_weight r' < reader_weight r)"
  by (cases r)
     (auto simp: folder_read_def seq_read_def reader_weight_def [where r = "Entry _"] split: prod.splits if_splits
        dest: read_source_weight seq_loop_weight)

section \<open>Reading a folder\<close>

text \<open>
  \<open>read_ahead\<close> is \<^verbatim>\<open>reader.by_ref().take(limit).read_to_end(&mut head)\<close>: it stops at the limit without
  asking for more, at an end of file, or at an error other than an interruption. \<open>spare\<close> is the
  room the standard library has in its buffer when so much is left to the limit.
\<close>

definition interrupted :: "io_error \<Rightarrow> bool" where
  "interrupted e = (case e of IoBare k \<Rightarrow> k = Interrupted | IoOwn k _ \<Rightarrow> k = Interrupted | IoForeign k _ \<Rightarrow> k = Interrupted)"

function read_ahead :: "(byte list \<Rightarrow> u32) \<Rightarrow> (nat \<Rightarrow> nat) \<Rightarrow> nat \<Rightarrow> folder_reader \<Rightarrow> (io_error + byte list) \<times> folder_reader" where
  "read_ahead crc32 spare limit r =
     (if limit = 0 then (Inr [], r)
      else case folder_read crc32 (min (max 1 (spare limit)) limit) r of
          (Inl e, r') \<Rightarrow> if interrupted e then read_ahead crc32 spare limit r' else (Inl e, r')
        | (Inr bs, r') \<Rightarrow>
            if bs = [] then (Inr [], r')
            else case read_ahead crc32 spare (limit - length bs) r' of
                (Inl e, r'') \<Rightarrow> (Inl e, r'')
              | (Inr cs, r'') \<Rightarrow> (Inr (bs @ cs), r''))"
  by pat_completeness auto
termination
  by (relation "measure (\<lambda>(_, _, _, r). reader_weight r)")
     (auto dest!: folder_read_weight [OF sym])

declare read_ahead.simps [simp del]

text \<open>
  The loop that reads a folder into a coder's writer. It stops at an error of the source, or of the
  writer on what it has been fed.
\<close>

datatype stop = ReadFailed io_error | FeedFailed io_error

function push_loop :: "(byte list \<Rightarrow> u32) \<Rightarrow> (byte list \<Rightarrow> io_error option) \<Rightarrow> nat \<Rightarrow> byte list \<Rightarrow> folder_reader
    \<Rightarrow> (stop + byte list) \<times> folder_reader" where
  "push_loop crc32 feed n fed r = (case folder_read crc32 n r of
      (Inl e, r') \<Rightarrow> (Inl (ReadFailed e), r')
    | (Inr bs, r') \<Rightarrow>
        if bs = [] then (Inr fed, r')
        else case feed (fed @ bs) of
            Some e \<Rightarrow> (Inl (FeedFailed e), r')
          | None \<Rightarrow> push_loop crc32 feed n (fed @ bs) r')"
  by pat_completeness auto
termination
  by (relation "measure (\<lambda>(_, _, _, _, r). reader_weight r)")
     (auto dest!: folder_read_weight [OF sym])

declare push_loop.simps [simp del]

definition READ_AHEAD :: nat where "READ_AHEAD = 2 ^ 20"

definition SOURCE_READ_LEN :: nat where "SOURCE_READ_LEN = 2 ^ 20"

definition HUGE_PAGE :: nat where "HUGE_PAGE = 2 * 2 ^ 20"

definition use_large_buffer :: "u64 option \<Rightarrow> encoder_configuration list \<Rightarrow> bool" where
  "use_large_buffer sz methods \<longleftrightarrow>
     (case sz of None \<Rightarrow> False | Some n \<Rightarrow> 8 * 2 ^ 20 \<le> n)
     \<and> (\<exists>mc \<in> set methods. (ec_id mc = ID_LZMA \<or> ec_id mc = ID_LZMA2)
          \<and> (case ec_options mc of None \<Rightarrow> True | Some o' \<Rightarrow> 8 * 2 ^ 20 \<le> get_lzma_dict_size o'))"

text \<open>The length of \<^verbatim>\<open>InputBuffer\<close>, on Linux.\<close>

definition input_buffer_len :: "u64 option \<Rightarrow> encoder_configuration list \<Rightarrow> nat" where
  "input_buffer_len sz methods = (if use_large_buffer sz methods then HUGE_PAGE else SOURCE_READ_LEN)"

definition folder_size :: "(byte list \<Rightarrow> u32) \<Rightarrow> (nat \<Rightarrow> nat) \<Rightarrow> archive_entry list \<Rightarrow> folder_reader
    \<Rightarrow> (io_error + byte list \<times> u64 option) \<times> folder_reader" where
  "folder_size crc32 spare es r = (case declared_size es of
      Some n \<Rightarrow> (Inr ([], Some n), r)
    | None \<Rightarrow>
        (case read_ahead crc32 spare READ_AHEAD r of
           (Inl e, r') \<Rightarrow> (Inl e, r')
         | (Inr head, r') \<Rightarrow>
             (Inr (head, if length head < READ_AHEAD then Some (of_nat (length head)) else None), r')))"

definition exact_folder_size :: "(byte list \<Rightarrow> u32) \<Rightarrow> (nat \<Rightarrow> nat) \<Rightarrow> archive_entry list \<Rightarrow> folder_reader
    \<Rightarrow> (io_error + byte list \<times> u64 option \<times> bool) \<times> folder_reader" where
  "exact_folder_size crc32 spare es r =
     (let declared = declared_size es in
      if (case declared of None \<Rightarrow> False | Some n \<Rightarrow> READ_AHEAD < unat n) then (Inr ([], declared, False), r)
      else case read_ahead crc32 spare (READ_AHEAD + 1) r of
          (Inl e, r') \<Rightarrow> (Inl e, r')
        | (Inr head, r') \<Rightarrow>
            (Inr (if length head \<le> READ_AHEAD then (head, Some (of_nat (length head)), True)
                  else (head, declared, False)), r'))"

section \<open>What a folder holds\<close>

text \<open>
  All a caller's reader returns up to an end of file or an error, and what it is afterwards; the
  same for a checksummed reader and for readers in sequence, each read to its end in turn.
\<close>

fun source_content :: "source \<Rightarrow> byte list \<times> io_error option \<times> source" where
  "source_content [] = ([], None, [])"
| "source_content (Fails e # s) = ([], Some e, s)"
| "source_content (Yields bs # s) =
     (if bs = [] then ([], None, s)
      else case source_content s of (cs, e, s') \<Rightarrow> (bs @ cs, e, s'))"

definition reader_content :: "(byte list \<Rightarrow> u32) \<Rightarrow> source_reader \<Rightarrow> byte list \<times> io_error option \<times> source_reader" where
  "reader_content crc32 r =
     (if sr_finished r then ([], None, r)
      else case source_content (sr_reader r) of (cs, e, s) \<Rightarrow>
        (cs, e, r\<lparr>sr_reader := s, sr_size := sr_size r + length cs,
           sr_crc := (if e = None then [] else sr_crc r @ cs),
           sr_crc_value := (if e = None then crc32 (sr_crc r @ cs) else sr_crc_value r),
           sr_finished := (e = None)\<rparr>))"

fun seq_content :: "(byte list \<Rightarrow> u32) \<Rightarrow> source_reader list \<Rightarrow> byte list \<times> io_error option \<times> source_reader list \<times> nat" where
  "seq_content crc32 [] = ([], None, [], 0)"
| "seq_content crc32 (r # rs) = (case reader_content crc32 r of
      (cs, Some e, r') \<Rightarrow> (cs, Some e, r' # rs, 0)
    | (cs, None, r') \<Rightarrow>
        (case seq_content crc32 rs of (ds, e, rs', k) \<Rightarrow> (cs @ ds, e, r' # rs', Suc k)))"

definition folder_content :: "(byte list \<Rightarrow> u32) \<Rightarrow> folder_reader \<Rightarrow> byte list \<times> io_error option \<times> folder_reader" where
  "folder_content crc32 r = (case r of
      Entry s \<Rightarrow> (case source_content s of (cs, e, s') \<Rightarrow> (cs, e, Entry s'))
    | Solid q \<Rightarrow> (case seq_content crc32 (drop (sq_current q) (sq_readers q)) of (cs, e, rs, k) \<Rightarrow>
        (cs, e, Solid \<lparr>sq_readers = take (sq_current q) (sq_readers q) @ rs, sq_current = sq_current q + k\<rparr>)))"

text \<open>One read against what the reader holds.\<close>

definition reads :: "nat \<Rightarrow> (io_error + byte list) \<Rightarrow> byte list \<times> io_error option \<times> 's
    \<Rightarrow> byte list \<times> io_error option \<times> 's \<Rightarrow> 's \<Rightarrow> bool" where
  "reads n x before after r' = (case x of
      Inl e \<Rightarrow> before = ([], Some e, r')
    | Inr bs \<Rightarrow> if bs = [] then before = ([], None, r')
        else length bs \<le> n \<and> before = (bs @ fst after, snd after))"

lemma read_source_reads:
  "0 < n \<Longrightarrow> read_source n s = (x, s') \<Longrightarrow> reads n x (source_content s) (source_content s') s'"
proof (induction n s rule: read_source.induct)
  case (3 n bs s)
  have "bs = take n bs @ drop n bs" by simp
  moreover have "source_content (Yields (drop n bs) # s) = (drop n bs @ fst (source_content s), snd (source_content s))"
    if "n < length bs"
    using that by (simp add: case_prod_beta)
  ultimately show ?case
    using 3 by (auto simp: reads_def case_prod_beta split: if_splits)
qed (auto simp: reads_def)

lemma source_read_reads:
  assumes "0 < n" "source_read crc32 n r = (x, r')"
  shows "reads n x (reader_content crc32 r) (reader_content crc32 r') r'"
proof (cases "sr_finished r")
  case True
  with assms show ?thesis by (auto simp: source_read_def reader_content_def reads_def)
next
  case False
  obtain y s where y: "read_source n (sr_reader r) = (y, s)" by fastforce
  from read_source_reads [OF assms(1) y] y False assms show ?thesis
    by (auto simp: source_read_def reader_content_def reads_def case_prod_beta split: sum.splits if_splits)
qed

text \<open>A step in the reader that is current, and past one that is at its end.\<close>

lemma solid_content:
  assumes "sq_current q < length (sq_readers q)"
  shows "folder_content crc32 (Solid (q\<lparr>sq_readers := (sq_readers q)[sq_current q := r]\<rparr>)) =
     (case reader_content crc32 r of
        (cs, Some e, r') \<Rightarrow> (cs, Some e, Solid (q\<lparr>sq_readers := (sq_readers q)[sq_current q := r']\<rparr>))
      | (cs, None, r') \<Rightarrow>
          (case folder_content crc32 (Solid (q\<lparr>sq_readers := (sq_readers q)[sq_current q := r'], sq_current := sq_current q + 1\<rparr>)) of
             (ds, e) \<Rightarrow> (cs @ ds, e)))"
proof -
  let ?i = "sq_current q" and ?rs = "sq_readers q"
  have d: "drop ?i (?rs[?i := x]) = x # drop (Suc ?i) ?rs" "take ?i (?rs[?i := x]) = take ?i ?rs"
      "drop (Suc ?i) (?rs[?i := x]) = drop (Suc ?i) ?rs" "take (Suc ?i) (?rs[?i := x]) = take ?i ?rs @ [x]" for x
    using assms by (simp_all add: upd_conv_take_nth_drop)
  have u: "?rs[?i := x] = take ?i ?rs @ x # drop (Suc ?i) ?rs" for x using assms by (rule upd_conv_take_nth_drop)
  obtain cs e r' where rc: "reader_content crc32 r = (cs, e, r')" by (metis prod_cases3)
  show ?thesis
  proof (cases e)
    case None
    then show ?thesis by (simp add: folder_content_def d rc case_prod_beta)
  next
    case (Some x)
    have "q\<lparr>sq_readers := zs\<rparr> = \<lparr>sq_readers = zs, sq_current = ?i\<rparr>" for zs by (cases q) simp
    with Some show ?thesis by (simp add: folder_content_def d rc u [symmetric])
  qed
qed

lemma seq_loop_reads:
  "0 < n \<Longrightarrow> seq_loop crc32 n q = (x, q') \<Longrightarrow>
     reads n x (folder_content crc32 (Solid q)) (folder_content crc32 (Solid q')) (Solid q')"
proof (induction crc32 n q arbitrary: x q' rule: seq_loop.induct)
  case (1 crc32 n q)
  show ?case
  proof (cases "sq_current q < length (sq_readers q)")
    case True
    obtain y r where y: "source_read crc32 n (sq_readers q ! sq_current q) = (y, r)" by fastforce
    let ?q = "\<lambda>r. q\<lparr>sq_readers := (sq_readers q)[sq_current q := r]\<rparr>"
    have q: "?q (sq_readers q ! sq_current q) = q" by simp
    note rd = source_read_reads [OF 1(2) y]
    note now = solid_content [OF True, of crc32 "sq_readers q ! sq_current q", unfolded q]
    note step = 1(3) [symmetric, unfolded seq_loop.simps [of crc32 n q] if_P [OF True] y Let_def prod.case]
    show ?thesis
    proof (cases y)
      case (Inl e)
      with rd step now show ?thesis by (auto simp: reads_def)
    next
      case (Inr bs)
      show ?thesis
      proof (cases "bs = []")
        case rec: True
        with step Inr have "seq_loop crc32 n (?q r\<lparr>sq_current := sq_current q + 1\<rparr>) = (x, q')" by simp
        from 1(1) [OF True y [symmetric] refl Inr rec 1(2) this] rd now rec Inr show ?thesis
          by (simp add: reads_def case_prod_beta)
      next
        case False
        with step Inr have x: "x = Inr bs" "q' = ?q r" by simp_all
        from rd False Inr have "length bs \<le> n"
            "reader_content crc32 (sq_readers q ! sq_current q) = (bs @ fst (reader_content crc32 r), snd (reader_content crc32 r))"
          by (simp_all add: reads_def)
        with now solid_content [OF True, of crc32 r] x False show ?thesis
          by (auto simp: reads_def case_prod_beta split: option.splits)
      qed
    qed
  next
    case False
    with 1(3) have "x = Inr []" "q' = q" by (simp_all add: seq_loop.simps [of crc32 n q])
    with False show ?thesis by (simp add: reads_def folder_content_def)
  qed
qed

lemma folder_read_reads:
  assumes "0 < n" "folder_read crc32 n r = (x, r')"
  shows "reads n x (folder_content crc32 r) (folder_content crc32 r') r'"
proof (cases r)
  case (Entry s)
  then obtain s' where "read_source n s = (x, s')" "r' = Entry s'"
    using assms(2) by (auto simp: folder_read_def split: prod.splits)
  with read_source_reads [OF assms(1)] Entry show ?thesis
    by (fastforce simp: reads_def folder_content_def case_prod_beta split: sum.splits if_splits)
next
  case (Solid q)
  then obtain q' where "seq_loop crc32 n q = (x, q')" "r' = Solid q'"
    using assms by (auto simp: folder_read_def seq_read_def split: prod.splits)
  with seq_loop_reads [OF assms(1)] Solid show ?thesis by blast
qed

text \<open>The loop feeds the coder all the folder holds, when nothing fails.\<close>

lemma push_loop_content:
  assumes "0 < n" "push_loop crc32 feed n fed r = (x, r')"
  shows "(\<forall>bs. x = Inr bs \<longrightarrow> (\<exists>cs. bs = fed @ cs \<and> folder_content crc32 r = (cs, None, r')))
    \<and> ((\<forall>bs. feed bs = None) \<longrightarrow> (case folder_content crc32 r of
         (cs, None, r'') \<Rightarrow> x = Inr (fed @ cs) | (cs, Some e, r'') \<Rightarrow> x = Inl (ReadFailed e)))"
  using assms
proof (induction crc32 feed n fed r arbitrary: x r' rule: push_loop.induct)
  case (1 crc32 feed n fed r)
  obtain y s where y: "folder_read crc32 n r = (y, s)" by fastforce
  note rd = folder_read_reads [OF 1(2) y]
  note step = 1(3) [unfolded push_loop.simps [of crc32 feed n fed r] y prod.case]
  show ?case
  proof (cases y)
    case (Inl e)
    with rd step show ?thesis by (auto simp: reads_def)
  next
    case (Inr bs)
    show ?thesis
    proof (cases "bs = []")
      case True
      with Inr rd step show ?thesis by (auto simp: reads_def)
    next
      case False
      with rd Inr have now: "folder_content crc32 r = (bs @ fst (folder_content crc32 s), snd (folder_content crc32 s))"
        by (simp add: reads_def)
      show ?thesis
      proof (cases "feed (fed @ bs)")
        case None
        with step Inr False have "push_loop crc32 feed n (fed @ bs) s = (x, r')" by simp
        note IH = 1(1) [OF y [symmetric] Inr False None 1(2) this]
        obtain cs e t where t: "folder_content crc32 s = (cs, e, t)" by (metis prod_cases3)
        have c: "folder_content crc32 r = (bs @ cs, e, t)" using now t by simp
        show ?thesis
        proof (intro conjI allI impI)
          fix zs
          assume "x = Inr zs"
          with IH t obtain ds where "zs = (fed @ bs) @ ds" "(cs, e, t) = (ds, None, r')" by auto
          with c show "\<exists>cs. zs = fed @ cs \<and> folder_content crc32 r = (cs, None, r')" by simp
        next
          assume "\<forall>bs. feed bs = None"
          with IH [THEN conjunct2] have "case (cs, e, t) of
              (cs, None, r'') \<Rightarrow> x = Inr ((fed @ bs) @ cs) | (cs, Some e, r'') \<Rightarrow> x = Inl (ReadFailed e)"
            unfolding t by blast
          with c show "case folder_content crc32 r of
              (cs, None, r'') \<Rightarrow> x = Inr (fed @ cs) | (cs, Some e, r'') \<Rightarrow> x = Inl (ReadFailed e)"
            by (cases e) simp_all
        qed
      next
        case (Some e)
        with step Inr False show ?thesis by auto
      qed
    qed
  qed
qed

text \<open>Reading ahead takes a prefix of what the folder holds, when no read is interrupted.\<close>

definition uninterrupted :: "folder_reader \<Rightarrow> bool" where
  "uninterrupted r = (\<forall>s \<in> (case r of Entry s \<Rightarrow> {s} | Solid q \<Rightarrow> sr_reader ` set (sq_readers q)).
     \<forall>e. Fails e \<in> set s \<longrightarrow> \<not> interrupted e)"

lemma read_source_events:
  "read_source n s = (x, s') \<Longrightarrow> (\<forall>e. Fails e \<in> set s' \<longrightarrow> Fails e \<in> set s) \<and> (\<forall>e. x = Inl e \<longrightarrow> Fails e \<in> set s)"
  by (induction n s rule: read_source.induct) (auto split: if_splits)

lemma source_read_events:
  "source_read crc32 n r = (x, r') \<Longrightarrow> (\<forall>e. Fails e \<in> set (sr_reader r') \<longrightarrow> Fails e \<in> set (sr_reader r))
     \<and> (\<forall>e. x = Inl e \<longrightarrow> Fails e \<in> set (sr_reader r))"
  by (auto simp: source_read_def split: if_splits prod.splits sum.splits dest: read_source_events)

lemma seq_loop_events:
  "seq_loop crc32 n q = (x, q') \<Longrightarrow> uninterrupted (Solid q) \<Longrightarrow>
     uninterrupted (Solid q') \<and> (\<forall>e. x = Inl e \<longrightarrow> \<not> interrupted e)"
proof (induction crc32 n q arbitrary: x q' rule: seq_loop.induct)
  case (1 crc32 n q)
  show ?case
  proof (cases "sq_current q < length (sq_readers q)")
    case True
    obtain y r where y: "source_read crc32 n (sq_readers q ! sq_current q) = (y, r)" by fastforce
    let ?q = "q\<lparr>sq_readers := (sq_readers q)[sq_current q := r]\<rparr>"
    have ok: "Fails e \<in> set (sr_reader (sq_readers q ! sq_current q)) \<Longrightarrow> \<not> interrupted e" for e
      using 1(3) nth_mem [OF True] by (auto simp: uninterrupted_def)
    then have un: "uninterrupted (Solid ?q)"
      using 1(3) source_read_events [OF y] by (auto simp: uninterrupted_def dest!: set_update_subset_insert [THEN subsetD])
    note step = 1(2) [unfolded seq_loop.simps [of crc32 n q] if_P [OF True] y Let_def prod.case]
    show ?thesis
    proof (cases "y = Inr []")
      case rec: True
      with step have run: "seq_loop crc32 n (?q\<lparr>sq_current := sq_current q + 1\<rparr>) = (x, q')" by simp
      have "uninterrupted (Solid (?q\<lparr>sq_current := sq_current q + 1\<rparr>))" using un by (simp add: uninterrupted_def)
      from 1(1) [OF True y [symmetric] refl rec refl run this] show ?thesis .
    next
      case False
      with step have "x = y" "q' = ?q" by (auto split: sum.splits if_splits)
      with un ok source_read_events [OF y] show ?thesis by auto
    qed
  next
    case False
    with 1(2,3) show ?thesis by (auto simp: seq_loop.simps [of crc32 n q])
  qed
qed

lemma folder_read_events:
  assumes "folder_read crc32 n r = (x, r')" "uninterrupted r"
  shows "uninterrupted r' \<and> (\<forall>e. x = Inl e \<longrightarrow> \<not> interrupted e)"
proof (cases r)
  case (Entry s)
  with assms show ?thesis
    by (auto simp: folder_read_def uninterrupted_def split: prod.splits dest: read_source_events)
next
  case (Solid q)
  with assms show ?thesis
    by (auto simp: folder_read_def seq_read_def split: prod.splits if_splits dest: seq_loop_events)
qed

lemma read_ahead_content:
  assumes "read_ahead crc32 spare limit r = (x, r')" "uninterrupted r"
  shows "uninterrupted r' \<and> (case x of
      Inl e \<Rightarrow> (\<exists>cs. folder_content crc32 r = (cs, Some e, r'))
    | Inr head \<Rightarrow> (length head < limit \<and> folder_content crc32 r = (head, None, r')
        \<or> length head = limit \<and> folder_content crc32 r = (head @ fst (folder_content crc32 r'), snd (folder_content crc32 r'))))"
  using assms
proof (induction crc32 spare limit r arbitrary: x r' rule: read_ahead.induct)
  case (1 crc32 spare limit r)
  show ?case
  proof (cases "limit = 0")
    case True
    with 1(3,4) show ?thesis by (auto simp: read_ahead.simps [of crc32 spare 0 r])
  next
    case False
    let ?n = "min (max 1 (spare limit)) limit"
    have n: "0 < ?n" "?n \<le> limit" using False by auto
    obtain y s where y: "folder_read crc32 ?n r = (y, s)" by fastforce
    note rd = folder_read_reads [OF n(1) y]
    note ev = folder_read_events [OF y 1(4)]
    note step = 1(3) [unfolded read_ahead.simps [of crc32 spare limit r] if_not_P [OF False] y prod.case]
    show ?thesis
    proof (cases y)
      case (Inl e)
      with ev have "\<not> interrupted e" by simp
      with Inl rd step ev show ?thesis by (auto simp: reads_def)
    next
      case (Inr bs)
      show ?thesis
      proof (cases "bs = []")
        case True
        with Inr rd step ev False show ?thesis by (auto simp: reads_def)
      next
        case bs: False
        with rd Inr have now: "length bs \<le> limit"
            "folder_content crc32 r = (bs @ fst (folder_content crc32 s), snd (folder_content crc32 s))"
          using n(2) by (simp_all add: reads_def)
        obtain z t where z: "read_ahead crc32 spare (limit - length bs) s = (z, t)" by fastforce
        note IH = 1(2) [OF False y [symmetric] Inr bs z ev [THEN conjunct1]]
        show ?thesis
        proof (cases z)
          case (Inl e)
          with IH now z step Inr bs \<open>y = Inr bs\<close> show ?thesis by auto
        next
          case zr: (Inr cs)
          then have "x = Inr (bs @ cs)" "r' = t" using step z \<open>y = Inr bs\<close> bs by auto
          with IH now zr show ?thesis by auto
        qed
      qed
    qed
  qed
qed

end
