(* ===== verification/Folder_Encoder.thy ===== *)
theory Folder_Encoder
  imports Sources Header_Writer
begin

text \<open>
  Coding a folder (\<^verbatim>\<open>src/src/writer.rs\<close> from \<^verbatim>\<open>create_writer\<close> to \<^verbatim>\<open>prepare_block\<close>, the coder plans and
  \<^verbatim>\<open>add_encoder\<close> of \<^verbatim>\<open>src/src/encoder.rs\<close>, \<^verbatim>\<open>PullCoder::drives\<close> of
  \<^verbatim>\<open>src/src/codec/lzma_turbo/writer.rs\<close>): which coders are built and refused, whether the first coder
  pulls its input, how far the folder is read ahead, the bytes that go through the chain, and what
  is recorded of them. The codecs are other libraries: \<open>library\<close> has the bytes each makes of its
  input and the errors they raise. A chain that fails has passed \<open>lib_early\<close> on to the output.
\<close>

section \<open>The coders and their plans\<close>

record lzma_enc_props =
  lp_level :: u32
  lp_dict_size :: u32
  lp_fast_bytes :: u32
  lp_fast_mode :: bool
  lp_match_cycles :: "u32 option"
  lp_num_threads :: "u32 option"
  lp_reduce_size :: "u64 option"

definition REDUCE_SIZE_FLOOR :: u64 where "REDUCE_SIZE_FLOOR = 2 ^ 12"

text \<open>The match finder is \<^verbatim>\<open>Hc4\<close> in fast mode and \<^verbatim>\<open>Bt4\<close> otherwise.\<close>

definition turbo_props :: "lzma_settings \<Rightarrow> u32 \<Rightarrow> lzma_enc_props" where
  "turbo_props s threads =
     \<lparr>lp_level = ls_level s, lp_dict_size = requested_dict_size s, lp_fast_bytes = nice_len s,
      lp_fast_mode = ls_fast s, lp_match_cycles = hash_chain_depth s,
      lp_num_threads = (if hash_chain_depth s = None \<and> 1 < match_finder_threads s threads then Some 2 else None),
      lp_reduce_size = (case ls_input_size s of
          Some n \<Rightarrow> if n < ucast (requested_dict_size s) then Some (max n REDUCE_SIZE_FLOOR) else None
        | None \<Rightarrow> None)\<rparr>"

datatype turbo_coder = TurboLzma | TurboLzma2 "u64 option" nat

record pulled_coder =
  pc_props :: lzma_enc_props
  pc_coder :: turbo_coder
  pc_data_limit :: "u64 option"

record library =
  lib_crc32 :: "byte list \<Rightarrow> u32"
  lib_crc32_combine :: "u32 \<Rightarrow> u32 \<Rightarrow> u64 \<Rightarrow> u32"
  lib_num_threads :: "lzma_enc_props \<Rightarrow> nat"
  lib_new :: "encoder_configuration \<Rightarrow> unit result"
  lib_new_side :: "unit result"
  lib_code :: "encoder_configuration \<Rightarrow> byte list \<Rightarrow> byte list"
  lib_bcj2 :: "byte list \<Rightarrow> byte list \<times> byte list \<times> byte list \<times> byte list"
  lib_side :: "byte list \<Rightarrow> byte list"
  lib_feed :: "encoder_configuration list \<Rightarrow> byte list \<Rightarrow> io_error option"
  lib_flush :: "encoder_configuration list \<Rightarrow> byte list \<Rightarrow> io_error option"
  lib_end :: "encoder_configuration list \<Rightarrow> byte list \<Rightarrow> io_error option"
  lib_early :: "encoder_configuration list \<Rightarrow> folder_reader \<Rightarrow> byte list"
  lib_spare :: "nat \<Rightarrow> nat"
  lib_window :: nat

definition drives :: "library \<Rightarrow> lzma_enc_props \<Rightarrow> turbo_coder \<Rightarrow> bool" where
  "drives lib p c \<longleftrightarrow> (case c of TurboLzma \<Rightarrow> True | TurboLzma2 _ threads \<Rightarrow> threads \<le> 1) \<and> lib_num_threads lib p \<le> 1"

definition drives_send :: "library \<Rightarrow> lzma_enc_props \<Rightarrow> turbo_coder \<Rightarrow> bool" where
  "drives_send lib p c \<longleftrightarrow> drives lib p c \<or> (case c of TurboLzma2 _ _ \<Rightarrow> True | TurboLzma \<Rightarrow> False)"

definition plan_input :: "library \<Rightarrow> bool \<Rightarrow> encoder_configuration \<Rightarrow> pulled_coder option result" where
  "plan_input lib send mc =
     (let pulled = (\<lambda>props c. Inr (if (if send then drives_send lib props c \<or> drives lib props c else drives lib props c)
                     then Some \<lparr>pc_props = props, pc_coder = c, pc_data_limit = None\<rparr> else None))
      in if ec_id mc = ID_LZMA then
           let s = lzma_settings_of mc in
           bindE (validate_lzma_dictionary_size (dict_size s)) (\<lambda>_. pulled (turbo_props s 1) TurboLzma)
         else if ec_id mc = ID_LZMA2 then
           let l = lzma2_options_of mc in
           bindE (validate_lzma_dictionary_size (dict_size (lo_settings l))) (\<lambda>_.
             pulled (turbo_props (lo_settings l) (lo_threads l))
               (TurboLzma2 (fst (lzma2_block_plan l)) (snd (lzma2_block_plan l))))
         else Inr None)"

definition with_data_limit :: "u64 option \<Rightarrow> pulled_coder \<Rightarrow> pulled_coder" where
  "with_data_limit limit p = p\<lparr>pc_data_limit := limit\<rparr>"

text \<open>The coder of a header: LZMA at level 5 with a dictionary of at most a megabyte.\<close>

definition header_coder :: "u64 \<Rightarrow> encoder_configuration" where
  "header_coder n = \<lparr>ec_method = (''LZMA'', ID_LZMA),
     ec_options = Some (OptLzma (set_input_size n (set_dict_size (2 ^ 20) (settings_from_level 5))))\<rparr>"

definition add_encoder :: "library \<Rightarrow> encoder_configuration \<Rightarrow> unit result" where
  "add_encoder lib mc =
     (let mid = ec_id mc in
      if mid \<in> {ID_COPY, ID_DELTA, ID_BCJ_X86, ID_BCJ_ARM, ID_BCJ_ARM_THUMB, ID_BCJ_ARM64, ID_BCJ_IA64,
                ID_BCJ_SPARC, ID_BCJ_PPC, ID_BCJ_RISCV, ID_BZIP2, ID_DEFLATE} then Inr ()
      else if mid = ID_LZMA then
        bindE (validate_lzma_dictionary_size (dict_size (lzma_settings_of mc))) (\<lambda>_. lib_new lib mc)
      else if mid = ID_LZMA2 then
        bindE (validate_lzma_dictionary_size (dict_size (lo_settings (lzma2_options_of mc)))) (\<lambda>_. lib_new lib mc)
      else if mid \<in> {ID_PPMD, ID_BROTLI, ID_LZ4, ID_ZSTD} then lib_new lib mc
      else if mid = ID_AES256_SHA256 then
        (case ec_options mc of
           Some (OptAes a) \<Rightarrow> bindE (checked_num_cycles_power a) (\<lambda>_. lib_new lib mc)
         | _ \<Rightarrow> Inl PasswordRequired)
      else Inl (UnsupportedCompressionMethod (fst (ec_method mc))))"

text \<open>Building the chain: BCJ2 with its two side coders, or the coder of a method, from the output up.\<close>

fun create_from :: "library \<Rightarrow> encoder_configuration list \<Rightarrow> nat \<Rightarrow> encoder_configuration list \<Rightarrow> unit result" where
  "create_from lib methods i [] = Inr ()"
| "create_from lib methods i (mc # mcs) =
     bindE (if ec_id mc = ID_BCJ2
            then bindE (check_bcj2_methods methods i) (\<lambda>_. bindE (lib_new_side lib) (\<lambda>_. lib_new_side lib))
            else add_encoder lib mc) (\<lambda>_. create_from lib methods (Suc i) mcs)"

definition create_writer :: "library \<Rightarrow> encoder_configuration list \<Rightarrow> unit result" where
  "create_writer lib methods = create_from lib methods 0 methods"

record bcj2_tail =
  bt_rc :: "byte list"
  bt_call :: "byte list"
  bt_jump :: "byte list"
  bt_call_size :: u64
  bt_jump_size :: u64

text \<open>
  What a finished chain has made of its input. The first of the list is the coder the data meets,
  the last method; the counters below the coders end up as the sizes, the first method's first.
\<close>

fun run_coders :: "library \<Rightarrow> encoder_configuration list \<Rightarrow> byte list \<Rightarrow> byte list \<times> u64 list \<times> bcj2_tail option" where
  "run_coders lib [] bs = (bs, [], None)"
| "run_coders lib (mc # mcs) bs =
     (if ec_id mc = ID_BCJ2 then
        case lib_bcj2 lib bs of (main, call, jump, rc) \<Rightarrow>
        case run_coders lib mcs main of (out, sizes, _) \<Rightarrow>
          (out, sizes @ [of_nat (length bs)],
           Some \<lparr>bt_rc = rc, bt_call = lib_side lib call, bt_jump = lib_side lib jump,
                 bt_call_size = of_nat (length call), bt_jump_size = of_nat (length jump)\<rparr>)
      else
        case run_coders lib mcs (lib_code lib mc bs) of (out, sizes, tail) \<Rightarrow>
          (out, sizes @ [of_nat (length bs)], tail))"

record bcj2_packed =
  bp_streams :: "(byte list \<times> u32) list"
  bp_sizes :: bcj2_side_sizes

definition bcj2_take :: "library \<Rightarrow> bcj2_tail option \<Rightarrow> bcj2_packed option" where
  "bcj2_take lib = map_option (\<lambda>t.
     \<lparr>bp_streams = map (\<lambda>bytes. (bytes, lib_crc32 lib bytes)) [bt_rc t, bt_call t, bt_jump t],
      bp_sizes = \<lparr>bs_call = bt_call_size t, bs_jump = bt_jump_size t\<rparr>\<rparr>)"

definition bcj2_len :: "bcj2_packed \<Rightarrow> nat" where
  "bcj2_len b = sum_list (map (\<lambda>(bytes, _). length bytes) (bp_streams b))"

section \<open>A folder's methods and their allocation\<close>

text \<open>
  \<open>fresh\<close> is the address a new \<^verbatim>\<open>Arc\<close> gets. Sizing that changes nothing shares the methods it was given;
  \<^verbatim>\<open>Arc::make_mut\<close> copies shared methods before new vectors are drawn into them.
\<close>

definition sized_arc :: "nat \<Rightarrow> arc_methods \<Rightarrow> u64 option \<Rightarrow> arc_methods" where
  "sized_arc fresh arc sz = (case sz of
      None \<Rightarrow> arc
    | Some n \<Rightarrow> if \<forall>mc \<in> set (snd arc). sized_for n mc = None then arc else (fresh, sized_methods (snd arc) sz))"

definition encrypted :: "encoder_configuration \<Rightarrow> bool" where
  "encrypted mc = (case ec_options mc of Some (OptAes _) \<Rightarrow> True | _ \<Rightarrow> False)"

definition folder_arc :: "nat \<Rightarrow> (error + byte list) list \<Rightarrow> arc_methods \<Rightarrow> u64 option \<Rightarrow> arc_methods result" where
  "folder_arc fresh ivs arc sz =
     (let sized = sized_arc fresh arc sz in
      if list_ex encrypted (snd sized)
      then bindE (fresh_ivs ivs (snd sized)) (\<lambda>ms. Inr (fresh, ms)) else Inr sized)"

definition sizes_exactly :: "library \<Rightarrow> bool \<Rightarrow> encoder_configuration list \<Rightarrow> bool result" where
  "sizes_exactly lib send methods =
     (if methods = [] \<or> ec_id (last methods) \<noteq> ID_LZMA2 then Inr False
      else bindE (plan_input lib send (last (sized_methods methods (Some (of_nat READ_AHEAD)))))
             (\<lambda>p. Inr (p \<noteq> None)))"

section \<open>Running a chain\<close>

text \<open>
  A run: the bytes given to the output, and the folder's bytes, what the coders made of them and
  their sizes, or the error. \<open>run_pushed\<close> writes into the chain, \<open>run_pulled\<close> lets the last method's
  coder read the folder itself.
\<close>

record chain_run =
  cr_input :: "byte list"
  cr_more_sizes :: "u64 list"
  cr_bcj2 :: "bcj2_packed option"

text \<open>The messages of the four places a run can fail in.\<close>

record run_messages =
  rm_read :: string
  rm_encode :: string
  rm_flush :: string
  rm_finish :: string

definition one_message :: "string \<Rightarrow> run_messages" where
  "one_message m = \<lparr>rm_read = m, rm_encode = m, rm_flush = m, rm_finish = m\<rparr>"

definition stop_error :: "run_messages \<Rightarrow> stop \<Rightarrow> error" where
  "stop_error msg st = (case st of ReadFailed e \<Rightarrow> Io e (rm_read msg) | FeedFailed e \<Rightarrow> Io e (rm_encode msg))"

text \<open>The end of a chain that has taken \<open>bs\<close>: a flush, then the empty write that finishes every coder.\<close>

definition end_error :: "library \<Rightarrow> run_messages \<Rightarrow> encoder_configuration list \<Rightarrow> byte list \<Rightarrow> error option" where
  "end_error lib msg methods bs = (case lib_flush lib methods bs of
      Some e \<Rightarrow> Some (Io e (rm_flush msg))
    | None \<Rightarrow> map_option (\<lambda>e. Io e (rm_finish msg)) (lib_end lib methods bs))"

definition run_pushed :: "library \<Rightarrow> run_messages \<Rightarrow> nat \<Rightarrow> encoder_configuration list \<Rightarrow> byte list \<Rightarrow> folder_reader
    \<Rightarrow> byte list \<times> chain_run result \<times> folder_reader" where
  "run_pushed lib msg n methods head r = (case create_writer lib methods of
      Inl e \<Rightarrow> ([], Inl e, r)
    | Inr _ \<Rightarrow>
        (case (if head = [] then None else lib_feed lib methods head) of
           Some e \<Rightarrow> (lib_early lib methods r, Inl (Io e (rm_encode msg)), r)
         | None \<Rightarrow>
             (case push_loop (lib_crc32 lib) (lib_feed lib methods) n head r of
                (Inl st, r') \<Rightarrow> (lib_early lib methods r, Inl (stop_error msg st), r')
              | (Inr bs, r') \<Rightarrow>
                  (case end_error lib msg methods bs of
                     Some e \<Rightarrow> (lib_early lib methods r, Inl e, r')
                   | None \<Rightarrow>
                       (case run_coders lib (rev methods) bs of (out, sizes, tail) \<Rightarrow>
                          (out, Inr \<lparr>cr_input = bs, cr_more_sizes = butlast sizes, cr_bcj2 = bcj2_take lib tail\<rparr>, r'))))))"

definition run_pulled :: "library \<Rightarrow> run_messages \<Rightarrow> encoder_configuration list \<Rightarrow> byte list \<Rightarrow> folder_reader
    \<Rightarrow> byte list \<times> chain_run result \<times> folder_reader" where
  "run_pulled lib msg methods head r = (case create_writer lib (butlast methods) of
      Inl e \<Rightarrow> ([], Inl e, r)
    | Inr _ \<Rightarrow>
        (case push_loop (lib_crc32 lib) (lib_feed lib methods) (max 1 (lib_window lib)) head r of
           (Inl st, r') \<Rightarrow> (lib_early lib methods r, Inl (stop_error msg st), r')
         | (Inr bs, r') \<Rightarrow>
             (case end_error lib msg methods bs of
                Some e \<Rightarrow> (lib_early lib methods r, Inl e, r')
              | None \<Rightarrow>
                  (case run_coders lib (rev (butlast methods)) (lib_code lib (last methods) bs) of (out, sizes, tail) \<Rightarrow>
                     (out, Inr \<lparr>cr_input = bs, cr_more_sizes = sizes, cr_bcj2 = bcj2_take lib tail\<rparr>, r')))))"

section \<open>One entry\<close>

record encoded_folder =
  ef_entry :: archive_entry
  ef_methods :: arc_methods
  ef_size :: u64
  ef_more_sizes :: "u64 list"
  ef_crc :: u32
  ef_compressed_len :: u64
  ef_compressed_crc :: u32
  ef_bcj2 :: "bcj2_packed option"

record sized_folder =
  sf_head :: "byte list"
  sf_folder :: "u64 option"
  sf_limit :: "u64 option"

definition encode_sized_entry :: "library \<Rightarrow> nat \<Rightarrow> (error + byte list) list \<Rightarrow> bool \<Rightarrow> arc_methods \<Rightarrow> archive_entry
    \<Rightarrow> folder_reader \<Rightarrow> sized_folder \<Rightarrow> byte list \<times> encoded_folder result" where
  "encode_sized_entry lib fresh ivs send content_methods entry r sized =
     (if snd content_methods = [] then ([], Inl (Panic ''attempt to subtract with overflow''))
      else case folder_arc fresh ivs content_methods (sf_folder sized) of
        Inl e \<Rightarrow> ([], Inl e)
      | Inr arc \<Rightarrow>
          (case plan_input lib send (last (snd arc)) of
             Inl e \<Rightarrow> ([], Inl e)
           | Inr plan \<Rightarrow>
               let pulled = map_option (with_data_limit (sf_limit sized)) plan;
                   run = (if pulled \<noteq> None
                     then run_pulled lib (one_message ''Encode entry:'') (snd arc) (sf_head sized) r
                     else run_pushed lib (one_message ''Encode entry:'') (input_buffer_len (sf_folder sized) (snd arc)) (snd arc)
                            (sf_head sized) r)
               in case run of
                    (out, Inl e, _) \<Rightarrow> (out, Inl e)
                  | (out, Inr c, _) \<Rightarrow>
                      (out, Inr \<lparr>ef_entry = entry, ef_methods = arc, ef_size = of_nat (length (cr_input c)),
                         ef_more_sizes = cr_more_sizes c, ef_crc = lib_crc32 lib (cr_input c),
                         ef_compressed_len = of_nat (length out), ef_compressed_crc = lib_crc32 lib out,
                         ef_bcj2 = cr_bcj2 c\<rparr>)))"

definition entry_size :: "library \<Rightarrow> bool \<Rightarrow> archive_entry \<Rightarrow> folder_reader
    \<Rightarrow> (io_error + byte list \<times> u64 option \<times> bool) \<times> folder_reader" where
  "entry_size lib exactly entry r =
     (if exactly then exact_folder_size (lib_crc32 lib) (lib_spare lib) [entry] r
      else case folder_size (lib_crc32 lib) (lib_spare lib) [entry] r of
          (Inl e, r') \<Rightarrow> (Inl e, r')
        | (Inr (head, folder), r') \<Rightarrow> (Inr (head, folder, False), r'))"

definition encode_entry_input :: "library \<Rightarrow> nat \<Rightarrow> (error + byte list) list \<Rightarrow> bool \<Rightarrow> arc_methods \<Rightarrow> archive_entry
    \<Rightarrow> source \<Rightarrow> byte list \<times> encoded_folder result" where
  "encode_entry_input lib fresh ivs send content_methods entry s =
     (case sizes_exactly lib send (snd content_methods) of
        Inl e \<Rightarrow> ([], Inl e)
      | Inr exactly \<Rightarrow>
          (case entry_size lib exactly entry (Entry s) of
             (Inl e, _) \<Rightarrow> ([], Inl (Io e ''Encode entry:''))
           | (Inr (head, folder, exact), r) \<Rightarrow>
               encode_sized_entry lib fresh ivs send content_methods entry
                 (if exact then Entry [] else r)
                 \<lparr>sf_head = head,
                  sf_folder = (case declared_size [entry] of Some n \<Rightarrow> Some n | None \<Rightarrow> folder),
                  sf_limit = (if exact then folder else None)\<rparr>))"

section \<open>Solid blocks\<close>

text \<open>The sub-streams of a solid block, from its entries and what their readers have counted.\<close>

fun sub_streams :: "archive_entry list \<Rightarrow> source_reader list \<Rightarrow> (archive_entry list \<times> u64 list \<times> u32 list) result" where
  "sub_streams (e # es) (r # rs) =
     (if \<not> ae_has_stream e then
        if sr_size r \<noteq> 0 then Inl (InvalidArgument ''entry has no stream, but its reader returned bytes'')
        else bindE (sub_streams es rs) (\<lambda>(es, sizes, crcs).
          Inr (e\<lparr>ae_crc := 0, ae_size := 0, ae_has_crc := False\<rparr> # es, sizes, crcs))
      else bindE (sub_streams es rs) (\<lambda>(es, sizes, crcs).
        Inr (e\<lparr>ae_crc := ucast (sr_crc_value r), ae_size := of_nat (sr_size r), ae_has_crc := True\<rparr> # es,
             of_nat (sr_size r) # sizes, sr_crc_value r # crcs)))"
| "sub_streams es rs = Inr (es, [], [])"

definition fold_source_crcs :: "library \<Rightarrow> source_reader list \<Rightarrow> u32" where
  "fold_source_crcs lib rs = (case rs of
      [] \<Rightarrow> 0
    | r # rs \<Rightarrow> fold (\<lambda>s c. lib_crc32_combine lib c (sr_crc_value s) (of_nat (sr_size s))) rs (sr_crc_value r))"

record prepared_block =
  pb_compressed :: "byte list"
  pb_compressed_crc :: u32
  pb_entries :: "archive_entry list"
  pb_methods :: arc_methods
  pb_sizes :: "u64 list"
  pb_crc :: u32
  pb_sub_stream_sizes :: "u64 list"
  pb_sub_stream_crcs :: "u32 list"
  pb_bcj2 :: "bcj2_packed option"

definition compressed_len :: "prepared_block \<Rightarrow> nat" where
  "compressed_len b = length (pb_compressed b) + (case pb_bcj2 b of None \<Rightarrow> 0 | Some t \<Rightarrow> bcj2_len t)"

text \<open>What follows a run over a solid block's readers, in \<^verbatim>\<open>push_entries_input\<close> and \<^verbatim>\<open>prepare_block\<close> alike.\<close>

definition finish_solid :: "library \<Rightarrow> arc_methods \<Rightarrow> archive_entry list \<Rightarrow> byte list \<Rightarrow> chain_run \<Rightarrow> source_reader list
    \<Rightarrow> prepared_block result" where
  "finish_solid lib arc es out c rs =
     bindE (sub_streams es rs) (\<lambda>(es, sizes, crcs).
       Inr \<lparr>pb_compressed = out, pb_compressed_crc = lib_crc32 lib out, pb_entries = es, pb_methods = arc,
            pb_sizes = cr_more_sizes c @ [of_nat (length (cr_input c))], pb_crc = fold_source_crcs lib rs,
            pb_sub_stream_sizes = sizes, pb_sub_stream_crcs = crcs, pb_bcj2 = cr_bcj2 c\<rparr>)"

definition seq_readers_of :: "folder_reader \<Rightarrow> source_reader list" where
  "seq_readers_of r = (case r of Solid q \<Rightarrow> sq_readers q | Entry _ \<Rightarrow> [])"

definition encode_entries :: "library \<Rightarrow> nat \<Rightarrow> (error + byte list) list \<Rightarrow> bool \<Rightarrow> arc_methods \<Rightarrow> archive_entry list
    \<Rightarrow> source_reader list \<Rightarrow> byte list \<times> prepared_block result" where
  "encode_entries lib fresh ivs send content_methods es readers =
     (if length readers \<noteq> length es then ([], Inl (Panic ''assertion left == right failed''))
      else case folder_size (lib_crc32 lib) (lib_spare lib) es (Solid (seq_reader_new readers)) of
        (Inl e, _) \<Rightarrow> ([], Inl (Io e ''Encode entries:''))
      | (Inr (head, folder), r) \<Rightarrow>
          (case folder_arc fresh ivs content_methods folder of
             Inl e \<Rightarrow> ([], Inl e)
           | Inr arc \<Rightarrow>
               if snd arc = [] then ([], Inl (Panic ''attempt to subtract with overflow''))
               else case plan_input lib send (last (snd arc)) of
                 Inl e \<Rightarrow> ([], Inl e)
               | Inr pulled \<Rightarrow>
                   (case (if pulled \<noteq> None then run_pulled lib (one_message ''Encode entries:'') (snd arc) head r
                          else run_pushed lib (one_message ''Encode entries:'') (input_buffer_len folder (snd arc)) (snd arc) head r) of
                      (out, Inl e, _) \<Rightarrow> (out, Inl e)
                    | (out, Inr c, r') \<Rightarrow> (out, finish_solid lib arc es out c (seq_readers_of r')))))"

definition prepare_messages :: run_messages where
  "prepare_messages = \<lparr>rm_read = ''prepare_block: read source:'', rm_encode = ''prepare_block: encode:'',
     rm_flush = ''prepare_block: flush:'', rm_finish = ''prepare_block: finish:''\<rparr>"

definition prepare_block :: "library \<Rightarrow> nat \<Rightarrow> (error + byte list) list \<Rightarrow> arc_methods \<Rightarrow> archive_entry list
    \<Rightarrow> source_reader list \<Rightarrow> prepared_block result" where
  "prepare_block lib fresh ivs methods es readers =
     (if snd methods = [] then Inl (InvalidArgument ''prepare_block: `methods` must not be empty'')
      else if length readers \<noteq> length es then Inl (InvalidArgument ''prepare_block: entries against readers'')
      else case folder_size (lib_crc32 lib) (lib_spare lib) es (Solid (seq_reader_new readers)) of
        (Inl e, _) \<Rightarrow> Inl (Io e ''prepare_block: read source:'')
      | (Inr (head, folder), r) \<Rightarrow>
          bindE (folder_arc fresh ivs methods folder) (\<lambda>arc.
            case run_pushed lib prepare_messages (input_buffer_len folder (snd arc)) (snd arc) head r of
              (out, Inl e, _) \<Rightarrow> Inl e
            | (out, Inr c, r') \<Rightarrow> finish_solid lib arc es out c (seq_readers_of r')))"

section \<open>What a chain makes\<close>

lemma run_coders_sizes:
  "run_coders lib ms bs = (out, sizes, tail) \<Longrightarrow> length sizes = length ms
     \<and> (ms \<noteq> [] \<longrightarrow> last sizes = of_nat (length bs)) \<and> (tail = None \<longleftrightarrow> (\<forall>mc \<in> set ms. ec_id mc \<noteq> ID_BCJ2))"
proof (induction lib ms bs arbitrary: out sizes tail rule: run_coders.induct)
  case (2 lib mc mcs bs)
  show ?case
  proof (cases "ec_id mc = ID_BCJ2")
    case True
    obtain main call jump rc where b: "lib_bcj2 lib bs = (main, call, jump, rc)" by (metis prod_cases4)
    obtain out' sizes' tail' where r: "run_coders lib mcs main = (out', sizes', tail')" by (metis prod_cases3)
    from 2(1) [OF True b [symmetric] refl refl r] 2(3) True b r show ?thesis by auto
  next
    case False
    obtain out' sizes' tail' where r: "run_coders lib mcs (lib_code lib mc bs) = (out', sizes', tail')" by (metis prod_cases3)
    from 2(2) [OF False r] 2(3) False r show ?thesis by auto
  qed
qed simp

text \<open>What was recorded of a run is what the whole chain makes of the bytes it was given.\<close>

definition chain_made :: "library \<Rightarrow> encoder_configuration list \<Rightarrow> byte list \<Rightarrow> byte list \<Rightarrow> chain_run \<Rightarrow> bool" where
  "chain_made lib methods bs out c \<longleftrightarrow> cr_input c = bs \<and> (\<exists>tail.
     run_coders lib (rev methods) bs = (out, cr_more_sizes c @ [of_nat (length bs)], tail)
     \<and> cr_bcj2 c = bcj2_take lib tail)"

lemma run_pushed_made:
  assumes "run_pushed lib msg n methods head r = (out, Inr c, r')" "0 < n" "methods \<noteq> []"
  shows "\<exists>cs. folder_content (lib_crc32 lib) r = (cs, None, r') \<and> chain_made lib methods (head @ cs) out c"
proof -
  obtain bs where bs: "push_loop (lib_crc32 lib) (lib_feed lib methods) n head r = (Inr bs, r')"
      and c: "(case run_coders lib (rev methods) bs of (out, sizes, tail) \<Rightarrow>
          (out, Inr \<lparr>cr_input = bs, cr_more_sizes = butlast sizes, cr_bcj2 = bcj2_take lib tail\<rparr>, r')) = (out, Inr c, r')"
    using assms(1) by (auto simp: run_pushed_def split: sum.splits option.splits prod.splits)
  obtain sizes tail where run: "run_coders lib (rev methods) bs = (out, sizes, tail)" using c by (auto split: prod.splits)
  note sz = run_coders_sizes [OF run]
  then have "sizes = butlast sizes @ [of_nat (length bs)]"
    using assms(3) by (metis append_butlast_last_id length_0_conv rev_is_Nil_conv)
  moreover from push_loop_content [OF assms(2) bs] obtain cs where "bs = head @ cs" "folder_content (lib_crc32 lib) r = (cs, None, r')"
    by auto
  ultimately show ?thesis using run c by (auto simp: chain_made_def)
qed

lemma run_coders_last:
  assumes "methods \<noteq> []" "ec_id (last methods) \<noteq> ID_BCJ2"
  shows "run_coders lib (rev methods) bs = (case run_coders lib (rev (butlast methods)) (lib_code lib (last methods) bs) of
     (out, sizes, tail) \<Rightarrow> (out, sizes @ [of_nat (length bs)], tail))"
  using assms by (cases methods rule: rev_cases) simp_all

lemma run_pulled_made:
  assumes "run_pulled lib msg methods head r = (out, Inr c, r')" "methods \<noteq> []" "ec_id (last methods) \<noteq> ID_BCJ2"
  shows "\<exists>cs. folder_content (lib_crc32 lib) r = (cs, None, r') \<and> chain_made lib methods (head @ cs) out c"
proof -
  obtain bs where bs: "push_loop (lib_crc32 lib) (lib_feed lib methods) (max 1 (lib_window lib)) head r = (Inr bs, r')"
      and c: "(case run_coders lib (rev (butlast methods)) (lib_code lib (last methods) bs) of (out, sizes, tail) \<Rightarrow>
          (out, Inr \<lparr>cr_input = bs, cr_more_sizes = sizes, cr_bcj2 = bcj2_take lib tail\<rparr>, r')) = (out, Inr c, r')"
    using assms(1) by (auto simp: run_pulled_def split: sum.splits option.splits prod.splits)
  moreover have "0 < max 1 (lib_window lib)" by simp
  from push_loop_content [OF this bs] obtain cs where "bs = head @ cs" "folder_content (lib_crc32 lib) r = (cs, None, r')"
    by auto
  ultimately show ?thesis
    using run_coders_last [OF assms(2,3), of lib bs] by (auto simp: chain_made_def split: prod.splits)
qed

lemma plan_input_pulled:
  "plan_input lib send mc = Inr (Some p) \<Longrightarrow> ec_id mc = ID_LZMA \<or> ec_id mc = ID_LZMA2"
  by (auto simp: plan_input_def Let_def split: if_splits)

lemma pulled_not_bcj2: "plan_input lib send mc = Inr (Some p) \<Longrightarrow> ec_id mc \<noteq> ID_BCJ2"
  by (auto dest!: plan_input_pulled simp: method_id_defs)

lemma input_buffer_len_pos: "0 < input_buffer_len sz methods"
  by (simp add: input_buffer_len_def HUGE_PAGE_def SOURCE_READ_LEN_def)

lemma folder_arc_methods:
  assumes "folder_arc fresh ivs arc sz = Inr arc'"
  shows "folder_methods ivs (snd arc) sz = Inr (snd arc')" "fst arc' = fst arc \<Longrightarrow> fst arc \<noteq> fresh \<Longrightarrow> snd arc' = snd arc"
    "fst arc' = fst arc \<or> fst arc' = fresh" "length (snd arc') = length (snd arc)"
proof -
  have none: "\<not> list_ex encrypted ms \<Longrightarrow> fresh_ivs ivs ms = Inr ms" for ms
    by (induction ivs ms rule: fresh_ivs.induct) (auto simp: encrypted_def split: option.splits encoder_options.splits)
  have len: "fresh_ivs ivs ms = Inr ms' \<Longrightarrow> length ms' = length ms" for ivs ms ms'
    by (induction ivs ms arbitrary: ms' rule: fresh_ivs.induct)
       (auto simp: bindE_Inr_iff split: option.splits encoder_options.splits list.splits sum.splits)
  have s: "snd (sized_arc fresh arc sz) = sized_methods (snd arc) sz"
    by (auto simp: sized_arc_def sized_methods_def split: option.splits)
  have "length (sized_methods (snd arc) sz) = length (snd arc)" by (simp add: sized_methods_def split: option.splits)
  with assms s show "length (snd arc') = length (snd arc)"
    by (auto simp: folder_arc_def Let_def bindE_Inr_iff dest: len split: if_splits)
  show "folder_methods ivs (snd arc) sz = Inr (snd arc')"
    using assms none s by (auto simp: folder_arc_def folder_methods_def Let_def bindE_Inr_iff split: if_splits)
  show "fst arc' = fst arc \<or> fst arc' = fresh"
    using assms by (auto simp: folder_arc_def sized_arc_def Let_def bindE_Inr_iff split: if_splits option.splits)
  show "fst arc' = fst arc \<Longrightarrow> fst arc \<noteq> fresh \<Longrightarrow> snd arc' = snd arc"
    using assms by (auto simp: folder_arc_def sized_arc_def Let_def bindE_Inr_iff split: if_splits option.splits)
qed

section \<open>The bytes that are coded\<close>

text \<open>A reader whose end of file is final: a solid block's always, an entry's when it never yields nothing.\<close>

definition settled :: "folder_reader \<Rightarrow> bool" where
  "settled r = (case r of Entry s \<Rightarrow> Yields [] \<notin> set s | Solid q \<Rightarrow> True)"

lemma source_content_end: "source_content s = (cs, None, s') \<Longrightarrow> Yields [] \<notin> set s \<Longrightarrow> s' = []"
  by (induction s arbitrary: cs rule: source_content.induct) (auto split: if_splits prod.splits)

lemma seq_content_all: "seq_content crc32 rs = (cs, None, rs', k) \<Longrightarrow> k = length rs \<and> length rs' = length rs"
  by (induction rs arbitrary: cs rs' k) (auto split: prod.splits option.splits)

lemma settled_content:
  assumes "settled r" "folder_content crc32 r = (cs, None, r')"
  shows "folder_content crc32 r' = ([], None, r')"
proof (cases r)
  case (Entry s)
  with assms show ?thesis
    by (auto simp: folder_content_def settled_def split: prod.splits dest: source_content_end)
next
  case (Solid q)
  then obtain rs k where rs: "seq_content crc32 (drop (sq_current q) (sq_readers q)) = (cs, None, rs, k)"
      "r' = Solid \<lparr>sq_readers = take (sq_current q) (sq_readers q) @ rs, sq_current = sq_current q + k\<rparr>"
    using assms(2) by (auto simp: folder_content_def split: prod.splits)
  with seq_content_all [OF rs(1)] show ?thesis by (simp add: folder_content_def)
qed

lemma read_ahead_then:
  assumes "read_ahead crc32 spare limit r = (Inr head, r')" "uninterrupted r" "settled r"
    and "folder_content crc32 r' = (cs, None, r'')"
  shows "folder_content crc32 r = (head @ cs, None, r'')"
  using read_ahead_content [OF assms(1,2)] assms(4) settled_content [OF assms(3), of crc32 head r'] by auto

lemma folder_size_then:
  assumes "folder_size crc32 spare es r = (Inr (head, sz), r')" "uninterrupted r" "settled r"
    and "folder_content crc32 r' = (cs, None, r'')"
  shows "folder_content crc32 r = (head @ cs, None, r'')"
proof (cases "declared_size es")
  case None
  then have "read_ahead crc32 spare READ_AHEAD r = (Inr head, r')"
    using assms(1) by (auto simp: folder_size_def split: prod.splits sum.splits)
  from read_ahead_then [OF this assms(2-4)] show ?thesis .
qed (use assms in \<open>auto simp: folder_size_def\<close>)

lemma exact_folder_size_then:
  assumes "exact_folder_size crc32 spare es r = (Inr (head, sz, exact), r')" "uninterrupted r" "settled r"
  shows "exact \<Longrightarrow> folder_content crc32 r = (head, None, r') \<and> sz = Some (of_nat (length head))"
    and "\<not> exact \<Longrightarrow> folder_content crc32 r' = (cs, None, r'') \<Longrightarrow> folder_content crc32 r = (head @ cs, None, r'')"
proof -
  consider (declared) "r' = r" "head = []" "\<not> exact"
    | (ahead) h where "read_ahead crc32 spare (READ_AHEAD + 1) r = (Inr h, r')" "head = h" "exact \<longleftrightarrow> length h \<le> READ_AHEAD"
        "exact \<longrightarrow> sz = Some (of_nat (length h))"
    using assms(1) by (auto simp: exact_folder_size_def Let_def split: prod.splits sum.splits if_splits)
  note cases = this
  show "exact \<Longrightarrow> folder_content crc32 r = (head, None, r') \<and> sz = Some (of_nat (length head))"
    using cases read_ahead_content [OF _ assms(2), of crc32 spare "READ_AHEAD + 1"] by cases fastforce+
  show "\<not> exact \<Longrightarrow> folder_content crc32 r' = (cs, None, r'') \<Longrightarrow> folder_content crc32 r = (head @ cs, None, r'')"
    using cases read_ahead_then [OF _ assms(2,3), of crc32 spare "READ_AHEAD + 1" head r' cs r''] by cases auto
qed

text \<open>What is recorded of a folder of one entry that holds \<open>bs\<close>.\<close>

definition folder_made :: "library \<Rightarrow> byte list \<Rightarrow> byte list \<Rightarrow> encoded_folder \<Rightarrow> bool" where
  "folder_made lib bs out f \<longleftrightarrow> ef_size f = of_nat (length bs) \<and> ef_crc f = lib_crc32 lib bs
     \<and> ef_compressed_len f = of_nat (length out) \<and> ef_compressed_crc f = lib_crc32 lib out
     \<and> (\<exists>tail. run_coders lib (rev (snd (ef_methods f))) bs = (out, ef_more_sizes f @ [ef_size f], tail)
          \<and> ef_bcj2 f = bcj2_take lib tail)"

lemma encode_sized_entry_made:
  assumes "encode_sized_entry lib fresh ivs send arc e r sized = (out, Inr f)"
  shows "ef_entry f = e \<and> (\<exists>sz. folder_arc fresh ivs arc sz = Inr (ef_methods f)) \<and> snd arc \<noteq> []
    \<and> (\<exists>cs r'. folder_content (lib_crc32 lib) r = (cs, None, r') \<and> folder_made lib (sf_head sized @ cs) out f)"
proof -
  let ?m = "one_message ''Encode entry:''"
  obtain arc' plan where ne: "snd arc \<noteq> []" and arc': "folder_arc fresh ivs arc (sf_folder sized) = Inr arc'"
      and plan: "plan_input lib send (last (snd arc')) = Inr plan"
    using assms by (auto simp: encode_sized_entry_def split: if_splits sum.splits)
  have ne': "snd arc' \<noteq> []" using folder_arc_methods(4) [OF arc'] ne by auto
  define run where "run = (if plan \<noteq> None then run_pulled lib ?m (snd arc') (sf_head sized) r
    else run_pushed lib ?m (input_buffer_len (sf_folder sized) (snd arc')) (snd arc') (sf_head sized) r)"
  obtain c r' where c: "run = (out, Inr c, r')"
      and f: "f = \<lparr>ef_entry = e, ef_methods = arc', ef_size = of_nat (length (cr_input c)),
         ef_more_sizes = cr_more_sizes c, ef_crc = lib_crc32 lib (cr_input c),
         ef_compressed_len = of_nat (length out), ef_compressed_crc = lib_crc32 lib out, ef_bcj2 = cr_bcj2 c\<rparr>"
    using assms ne arc' plan unfolding run_def
    by (simp add: encode_sized_entry_def Let_def split: prod.splits sum.splits option.splits if_splits)
  have "\<exists>cs. folder_content (lib_crc32 lib) r = (cs, None, r') \<and> chain_made lib (snd arc') (sf_head sized @ cs) out c"
  proof (cases plan)
    case None
    with c run_pushed_made [OF _ input_buffer_len_pos ne'] show ?thesis by (auto simp: run_def)
  next
    case (Some p)
    with c plan run_pulled_made [OF _ ne' pulled_not_bcj2] show ?thesis by (auto simp: run_def)
  qed
  then show ?thesis using f ne arc' by (auto simp: folder_made_def chain_made_def)
qed

lemma encode_entry_made:
  assumes run: "encode_entry_input lib fresh ivs send arc e s = (out, Inr f)"
  shows "ef_entry f = e" "\<exists>sz. folder_arc fresh ivs arc sz = Inr (ef_methods f)" "snd arc \<noteq> []"
    "\<exists>bs. folder_made lib bs out f"
    "uninterrupted (Entry s) \<Longrightarrow> Yields [] \<notin> set s \<Longrightarrow> \<exists>bs. source_content s = (bs, None, []) \<and> folder_made lib bs out f"
proof -
  let ?crc = "lib_crc32 lib" and ?decl = "declared_size [e]"
  obtain exactly head folder exact r where
      start: "sizes_exactly lib send (snd arc) = Inr exactly"
        "entry_size lib exactly e (Entry s) = (Inr (head, folder, exact), r)"
      and coded: "encode_sized_entry lib fresh ivs send arc e (if exact then Entry [] else r)
         \<lparr>sf_head = head, sf_folder = (case ?decl of Some n \<Rightarrow> Some n | None \<Rightarrow> folder),
          sf_limit = (if exact then folder else None)\<rparr> = (out, Inr f)"
    using run unfolding encode_entry_input_def by (auto split: sum.splits prod.splits)
  note made = encode_sized_entry_made [OF coded]
  then obtain cs r' where cs: "folder_content ?crc (if exact then Entry [] else r) = (cs, None, r')"
      "folder_made lib (head @ cs) out f" by auto
  from made cs show "ef_entry f = e" "\<exists>sz. folder_arc fresh ivs arc sz = Inr (ef_methods f)" "snd arc \<noteq> []"
    "\<exists>bs. folder_made lib bs out f" by blast+
  assume src: "uninterrupted (Entry s)" "Yields [] \<notin> set s"
  then have st: "settled (Entry s)" by (simp add: settled_def)
  have "\<exists>r3. folder_content ?crc (Entry s) = (head @ cs, None, r3)"
  proof (cases exactly)
    case True
    with start(2) have ex: "exact_folder_size ?crc (lib_spare lib) [e] (Entry s) = (Inr (head, folder, exact), r)"
      by (simp add: entry_size_def)
    have "exact \<Longrightarrow> cs = []" using cs(1) by (simp add: folder_content_def)
    with exact_folder_size_then [OF ex src(1) st] cs(1) show ?thesis by (cases exact) auto
  next
    case False
    with start(2) have "folder_size ?crc (lib_spare lib) [e] (Entry s) = (Inr (head, folder), r)" "\<not> exact"
      by (auto simp: entry_size_def split: prod.splits sum.splits)
    with folder_size_then [OF _ src(1) st] cs(1) show ?thesis by fastforce
  qed
  then obtain s' where "source_content s = (head @ cs, None, s')" by (auto simp: folder_content_def split: prod.splits)
  with source_content_end [OF this src(2)] cs(2) show "\<exists>bs. source_content s = (bs, None, []) \<and> folder_made lib bs out f"
    by auto
qed

section \<open>Solid blocks\<close>

text \<open>What the readers of a solid block have counted, once each has been read to its end.\<close>

lemma new_reader_content:
  "reader_content crc32 (source_reader_new s) = (cs, None, r) \<Longrightarrow>
     fst (source_content s) = cs \<and> sr_size r = length cs \<and> sr_crc_value r = crc32 cs"
  by (auto simp: reader_content_def source_reader_new_def split: prod.splits)

lemma new_readers_content:
  "seq_content crc32 (map source_reader_new ss) = (cs, None, rs, k) \<Longrightarrow>
     cs = concat (map (fst \<circ> source_content) ss) \<and> map sr_size rs = map (length \<circ> fst \<circ> source_content) ss
     \<and> map sr_crc_value rs = map (crc32 \<circ> fst \<circ> source_content) ss"
proof (induction ss arbitrary: cs rs k)
  case (Cons s ss)
  obtain ds e r where r: "reader_content crc32 (source_reader_new s) = (ds, e, r)" by (metis prod_cases3)
  obtain ts e' rs' k' where rest: "seq_content crc32 (map source_reader_new ss) = (ts, e', rs', k')" by (metis prod_cases4)
  from Cons.prems r rest have "e = None" "e' = None" "cs = ds @ ts" "rs = r # rs'" by (auto split: option.splits)
  with Cons.IH [of ts rs' k'] rest new_reader_content [of crc32 s ds r] r show ?case by simp
qed simp

text \<open>The laws of CRC-32 the folded checksum relies on.\<close>

definition crc_laws :: "library \<Rightarrow> bool" where
  "crc_laws lib \<longleftrightarrow> lib_crc32 lib [] = 0 \<and> (\<forall>a b. lib_crc32_combine lib (lib_crc32 lib a) (lib_crc32 lib b) (of_nat (length b))
     = lib_crc32 lib (a @ b))"

lemma fold_crcs:
  assumes "crc_laws lib" "map sr_size rs = map length bss" "map sr_crc_value rs = map (lib_crc32 lib) bss"
  shows "fold (\<lambda>s c. lib_crc32_combine lib c (sr_crc_value s) (of_nat (sr_size s))) rs (lib_crc32 lib a)
    = lib_crc32 lib (a @ concat bss)"
  using assms(2,3)
proof (induction bss arbitrary: rs a)
  case (Cons b bss)
  then obtain r rs' where rs: "rs = r # rs'" by (cases rs) auto
  with Cons.prems have "sr_size r = length b" "sr_crc_value r = lib_crc32 lib b" by simp_all
  then have "lib_crc32_combine lib (lib_crc32 lib a) (sr_crc_value r) (of_nat (sr_size r)) = lib_crc32 lib (a @ b)"
    using assms(1) by (simp add: crc_laws_def)
  with Cons.IH [of rs' "a @ b"] Cons.prems rs show ?case by simp
qed simp

lemma fold_source_crcs_concat:
  assumes "crc_laws lib" "map sr_size rs = map length bss" "map sr_crc_value rs = map (lib_crc32 lib) bss"
  shows "fold_source_crcs lib rs = lib_crc32 lib (concat bss)"
proof (cases bss)
  case Nil
  with assms show ?thesis by (simp add: fold_source_crcs_def crc_laws_def)
next
  case (Cons b bss')
  with assms obtain r rs' where rs: "rs = r # rs'" by (cases rs) auto
  with Cons assms fold_crcs [OF assms(1), of rs' bss' b] show ?thesis by (simp add: fold_source_crcs_def)
qed

lemma sub_streams_spec:
  assumes "sub_streams es rs = Inr (es', sizes, crcs)" "length es = length rs"
  shows "map ae_has_stream es' = map ae_has_stream es \<and> map ae_name es' = map ae_name es \<and> length es' = length es
    \<and> sizes = map (\<lambda>(e, r). of_nat (sr_size r)) (filter (\<lambda>(e, r). ae_has_stream e) (zip es rs))
    \<and> crcs = map (\<lambda>(e, r). sr_crc_value r) (filter (\<lambda>(e, r). ae_has_stream e) (zip es rs))
    \<and> sum_list (map sr_size rs) = sum_list (map (\<lambda>(e, r). sr_size r) (filter (\<lambda>(e, r). ae_has_stream e) (zip es rs)))"
  using assms
proof (induction es rs arbitrary: es' sizes crcs rule: sub_streams.induct)
  case (1 e es r rs)
  then show ?case
    by (cases "ae_has_stream e") (auto simp: bindE_Inr_iff split: if_splits)
qed auto

definition block_made :: "library \<Rightarrow> byte list \<Rightarrow> byte list \<Rightarrow> prepared_block \<Rightarrow> bool" where
  "block_made lib bs out b \<longleftrightarrow> pb_compressed b = out \<and> pb_compressed_crc b = lib_crc32 lib out
     \<and> (\<exists>more tail. run_coders lib (rev (snd (pb_methods b))) bs = (out, pb_sizes b, tail)
          \<and> pb_sizes b = more @ [of_nat (length bs)] \<and> pb_bcj2 b = bcj2_take lib tail)"

text \<open>A solid block coded from new readers over \<open>ss\<close>.\<close>

definition solid_made :: "library \<Rightarrow> archive_entry list \<Rightarrow> source list \<Rightarrow> prepared_block \<Rightarrow> bool" where
  "solid_made lib es ss b \<longleftrightarrow>
     (let held = map (fst \<circ> source_content) ss;
          streamed = map snd (filter (\<lambda>(e, bs). ae_has_stream e) (zip es held))
      in block_made lib (concat held) (pb_compressed b) b \<and> concat streamed = concat held
         \<and> pb_sub_stream_sizes b = map (of_nat \<circ> length) streamed
         \<and> pb_sub_stream_crcs b = map (lib_crc32 lib) streamed
         \<and> map ae_has_stream (pb_entries b) = map ae_has_stream es \<and> map ae_name (pb_entries b) = map ae_name es
         \<and> (crc_laws lib \<longrightarrow> pb_crc b = lib_crc32 lib (concat held)))"

lemma filter_zip_map2:
  assumes "length es = length ss" "length rs = length ss" "map f rs = map g ss"
  shows "map (\<lambda>(e, r). f r) (filter (\<lambda>(e, r). P e) (zip es rs)) = map (\<lambda>(e, s). g s) (filter (\<lambda>(e, s). P e) (zip es ss))"
  using assms by (induction es ss arbitrary: rs rule: list_induct2) (auto simp: length_Suc_conv)

lemma empty_parts:
  assumes "length es = length bss" "sum_list (map length bss) = sum_list (map (\<lambda>(e, bs). length bs) (filter (\<lambda>(e, bs). P e) (zip es bss)))"
  shows "concat (map snd (filter (\<lambda>(e, bs). P e) (zip es bss))) = concat bss"
  using assms
proof (induction es bss rule: list_induct2)
  case (Cons e es bs bss)
  have le: "sum_list (map (\<lambda>(e, bs). length bs) (filter (\<lambda>(e, bs). P e) (zip es bss))) \<le> sum_list (map length bss)"
    using Cons.hyps by (induction es bss rule: list_induct2) auto
  have "\<not> P e \<Longrightarrow> length bs = 0" using Cons.prems le by (simp del: length_0_conv)
  then show ?case using Cons by (cases "P e") auto
qed simp

lemma finish_solid_made:
  assumes "finish_solid lib arc es out c rs = Inr b" "chain_made lib (snd arc) (concat (map (fst \<circ> source_content) ss)) out c"
    and "length es = length ss" "map sr_size rs = map (length \<circ> fst \<circ> source_content) ss"
    and "map sr_crc_value rs = map (lib_crc32 lib \<circ> fst \<circ> source_content) ss"
  shows "solid_made lib es ss b \<and> pb_methods b = arc \<and> pb_compressed b = out"
proof -
  let ?held = "map (fst \<circ> source_content) ss"
  obtain es' sizes crcs where sub: "sub_streams es rs = Inr (es', sizes, crcs)"
      and b: "b = \<lparr>pb_compressed = out, pb_compressed_crc = lib_crc32 lib out, pb_entries = es', pb_methods = arc,
            pb_sizes = cr_more_sizes c @ [of_nat (length (cr_input c))], pb_crc = fold_source_crcs lib rs,
            pb_sub_stream_sizes = sizes, pb_sub_stream_crcs = crcs, pb_bcj2 = cr_bcj2 c\<rparr>"
    using assms(1) by (auto simp: finish_solid_def bindE_Inr_iff)
  have len: "length rs = length ss" using assms(4) by (metis length_map)
  note spec = sub_streams_spec [OF sub, unfolded len, OF assms(3)]
  note by_held = filter_zip_map2 [OF assms(3) len, where P = ae_has_stream]
  have zip: "filter (\<lambda>(e, bs). ae_has_stream e) (zip es ?held)
      = map (\<lambda>(e, s). (e, fst (source_content s))) (filter (\<lambda>(e, s). ae_has_stream e) (zip es ss))"
    by (simp add: zip_map2 filter_map comp_def case_prod_unfold)
  have len': "length es = length ?held" using assms(3) by simp
  have "sum_list (map length ?held) = sum_list (map (\<lambda>(e, bs). length bs) (filter (\<lambda>(e, bs). ae_has_stream e) (zip es ?held)))"
    using spec assms(4) by_held [of sr_size "\<lambda>s. length (fst (source_content s))"]
    by (simp add: zip [unfolded comp_def case_prod_unfold] comp_def case_prod_unfold)
  from empty_parts [OF len' this] have parts:
    "concat (map snd (filter (\<lambda>(e, bs). ae_has_stream e) (zip es ?held))) = concat ?held" .
  have "map sr_size rs = map length ?held" "map sr_crc_value rs = map (lib_crc32 lib) ?held"
    using assms(4,5) by (simp_all add: comp_def)
  then have "crc_laws lib \<Longrightarrow> fold_source_crcs lib rs = lib_crc32 lib (concat ?held)"
    using fold_source_crcs_concat by blast
  moreover have "map (\<lambda>r. of_nat (sr_size r) :: u64) rs = map (\<lambda>s. of_nat (length (fst (source_content s)))) ss"
    using arg_cong [OF assms(4), of "map of_nat"] by (simp add: comp_def)
  then have "sizes = map (of_nat \<circ> length) (map snd (filter (\<lambda>(e, bs). ae_has_stream e) (zip es ?held)))"
    and "crcs = map (lib_crc32 lib) (map snd (filter (\<lambda>(e, bs). ae_has_stream e) (zip es ?held)))"
    using spec by_held [of "\<lambda>r. of_nat (sr_size r) :: u64" "\<lambda>s. of_nat (length (fst (source_content s)))"]
      by_held [of sr_crc_value "\<lambda>s. lib_crc32 lib (fst (source_content s))"] assms(4,5)
    by (simp_all add: zip [unfolded comp_def case_prod_unfold] comp_def case_prod_unfold)
  moreover have "block_made lib (concat ?held) out b" using assms(2) b by (auto simp: block_made_def chain_made_def)
  ultimately show ?thesis using b spec parts by (auto simp: solid_made_def Let_def)
qed

text \<open>Where the readers of a solid block stand when all they hold has been read.\<close>

lemma solid_content_new:
  assumes "folder_content crc32 (Solid (seq_reader_new (map source_reader_new ss))) = (cs, None, r)"
  shows "cs = concat (map (fst \<circ> source_content) ss)
    \<and> map sr_size (seq_readers_of r) = map (length \<circ> fst \<circ> source_content) ss
    \<and> map sr_crc_value (seq_readers_of r) = map (crc32 \<circ> fst \<circ> source_content) ss"
proof -
  obtain rs k where "seq_content crc32 (map source_reader_new ss) = (cs, None, rs, k)" "seq_readers_of r = rs"
    using assms by (auto simp: folder_content_def seq_reader_new_def seq_readers_of_def split: prod.splits)
  with new_readers_content show ?thesis by blast
qed

lemma settled_solid [simp]: "settled (Solid q)"
  by (simp add: settled_def)

lemma encode_entries_made:
  assumes run: "encode_entries lib fresh ivs send arc es (map source_reader_new ss) = (out, Inr b)"
    and src: "uninterrupted (Solid (seq_reader_new (map source_reader_new ss)))"
  shows "solid_made lib es ss b \<and> (\<exists>sz. folder_arc fresh ivs arc sz = Inr (pb_methods b)) \<and> pb_compressed b = out \<and> length es = length ss"
proof -
  let ?r = "Solid (seq_reader_new (map source_reader_new ss))" and ?m = "one_message ''Encode entries:''"
  have len: "length es = length ss" using run by (auto simp: encode_entries_def split: if_splits)
  obtain head folder r arc' pulled where head: "folder_size (lib_crc32 lib) (lib_spare lib) es ?r = (Inr (head, folder), r)"
      and arc': "folder_arc fresh ivs arc folder = Inr arc'" "snd arc' \<noteq> []"
      and plan: "plan_input lib send (last (snd arc')) = Inr pulled"
    using run len by (auto simp: encode_entries_def split: if_splits sum.splits prod.splits)
  define res where "res = (if pulled \<noteq> None then run_pulled lib ?m (snd arc') head r
    else run_pushed lib ?m (input_buffer_len folder (snd arc')) (snd arc') head r)"
  obtain c r' where c: "res = (out, Inr c, r')" "finish_solid lib arc' es out c (seq_readers_of r') = Inr b"
    using run len head arc' plan unfolding res_def
    by (simp add: encode_entries_def split: prod.splits sum.splits if_splits)
  have "\<exists>cs. folder_content (lib_crc32 lib) r = (cs, None, r') \<and> chain_made lib (snd arc') (head @ cs) out c"
  proof (cases pulled)
    case None
    with c run_pushed_made [OF _ input_buffer_len_pos arc'(2)] show ?thesis by (auto simp: res_def)
  next
    case (Some p)
    with c plan run_pulled_made [OF _ arc'(2) pulled_not_bcj2] show ?thesis by (auto simp: res_def)
  qed
  then obtain cs where cs: "folder_content (lib_crc32 lib) r = (cs, None, r')" "chain_made lib (snd arc') (head @ cs) out c"
    by blast
  note all = solid_content_new [OF folder_size_then [OF head src settled_solid cs(1)]]
  then have "chain_made lib (snd arc') (concat (map (fst \<circ> source_content) ss)) out c" using cs(2) by simp
  from finish_solid_made [OF c(2) this len] all arc'(1) show ?thesis using len by blast
qed

lemma prepare_block_made:
  assumes run: "prepare_block lib fresh ivs arc es (map source_reader_new ss) = Inr b"
    and src: "uninterrupted (Solid (seq_reader_new (map source_reader_new ss)))"
  shows "solid_made lib es ss b \<and> (\<exists>sz. folder_arc fresh ivs arc sz = Inr (pb_methods b)) \<and> length es = length ss"
proof -
  let ?r = "Solid (seq_reader_new (map source_reader_new ss))"
  have len: "length es = length ss" using run by (auto simp: prepare_block_def split: if_splits)
  have ne: "snd arc \<noteq> []" using run by (auto simp: prepare_block_def)
  obtain head folder r where head: "folder_size (lib_crc32 lib) (lib_spare lib) es ?r = (Inr (head, folder), r)"
    using run len ne by (cases "folder_size (lib_crc32 lib) (lib_spare lib) es ?r")
      (auto simp: prepare_block_def split: sum.splits)
  obtain arc' where arc': "folder_arc fresh ivs arc folder = Inr arc'" "snd arc \<noteq> []"
    using run len ne head by (cases "folder_arc fresh ivs arc folder") (auto simp: prepare_block_def)
  obtain out c r' where c: "run_pushed lib prepare_messages (input_buffer_len folder (snd arc')) (snd arc') head r = (out, Inr c, r')"
      "finish_solid lib arc' es out c (seq_readers_of r') = Inr b"
    using run len head arc' by (auto simp: prepare_block_def split: prod.splits sum.splits)
  have "snd arc' \<noteq> []" using arc' folder_arc_methods(4) [OF arc'(1)] by auto
  from run_pushed_made [OF c(1) input_buffer_len_pos this] obtain cs where
    cs: "folder_content (lib_crc32 lib) r = (cs, None, r')" "chain_made lib (snd arc') (head @ cs) out c" by blast
  note all = solid_content_new [OF folder_size_then [OF head src settled_solid cs(1)]]
  then have "chain_made lib (snd arc') (concat (map (fst \<circ> source_content) ss)) out c" using cs(2) by simp
  from finish_solid_made [OF c(2) this len] all arc'(1) show ?thesis using len by blast
qed

end
