(* ===== verification/Archive_Writer.thy ===== *)
theory Archive_Writer
  imports Folder_Encoder
begin

text \<open>
  The archive writer (\<^verbatim>\<open>ArchiveWriter\<close> of \<^verbatim>\<open>src/src/writer.rs\<close>): the output with its position, what is
  recorded of it, the pushes with every place they can fail in, the poisoning of a writer whose
  output its records no longer describe, and \<^verbatim>\<open>finish\<close>. An operation is a function of the writer that
  returns a result and the writer after it.
\<close>

section \<open>The output\<close>

text \<open>
  The output is its bytes and a position. Each call on it takes a step of a script: it succeeds, or
  it stops with an error, a write after some of its bytes. Writing nothing is no call.
\<close>

datatype io_step = Succeeds | Stops nat io_error

record sink =
  sk_bytes :: "byte list"
  sk_pos :: nat
  sk_script :: "io_step list"

definition next_step :: "sink \<Rightarrow> io_step \<times> sink" where
  "next_step s = (case sk_script s of [] \<Rightarrow> (Succeeds, s) | x # xs \<Rightarrow> (x, s\<lparr>sk_script := xs\<rparr>))"

definition put_bytes :: "byte list \<Rightarrow> sink \<Rightarrow> sink" where
  "put_bytes bs s =
     (if bs = [] then s
      else let old = sk_bytes s @ replicate (sk_pos s - length (sk_bytes s)) 0
           in s\<lparr>sk_bytes := take (sk_pos s) old @ bs @ drop (sk_pos s + length bs) old, sk_pos := sk_pos s + length bs\<rparr>)"

definition sink_write_all :: "byte list \<Rightarrow> sink \<Rightarrow> (io_error + unit) \<times> sink" where
  "sink_write_all bs s =
     (if bs = [] then (Inr (), s)
      else case next_step s of
          (Succeeds, s') \<Rightarrow> (Inr (), put_bytes bs s')
        | (Stops n e, s') \<Rightarrow> (Inl e, put_bytes (take n bs) s'))"

definition sink_seek :: "nat \<Rightarrow> sink \<Rightarrow> (io_error + unit) \<times> sink" where
  "sink_seek p s = (case next_step s of
      (Succeeds, s') \<Rightarrow> (Inr (), s'\<lparr>sk_pos := p\<rparr>) | (Stops _ e, s') \<Rightarrow> (Inl e, s'))"

definition sink_position :: "sink \<Rightarrow> (io_error + u64) \<times> sink" where
  "sink_position s = (case next_step s of
      (Succeeds, s') \<Rightarrow> (Inr (of_nat (sk_pos s)), s') | (Stops _ e, s') \<Rightarrow> (Inl e, s'))"

definition sink_flush :: "sink \<Rightarrow> (io_error + unit) \<times> sink" where
  "sink_flush s = (case next_step s of (Succeeds, s') \<Rightarrow> (Inr (), s') | (Stops _ e, s') \<Rightarrow> (Inl e, s'))"

section \<open>The writer\<close>

record writer =
  wr_output :: sink
  wr_files :: "archive_entry list"
  wr_content_methods :: arc_methods
  wr_pack_info :: pack_info
  wr_unpack_info :: unpack_info
  wr_encrypt_header :: bool
  wr_poisoned :: "string option"

text \<open>
  The surroundings: the codecs, their versions, the address a new \<^verbatim>\<open>Arc\<close> gets while those of a list are
  allocated, and the text of an error.
\<close>

record env =
  ev_lib :: library
  ev_versions :: codec_versions
  ev_fresh :: "nat list \<Rightarrow> nat"
  ev_show :: "error \<Rightarrow> string"

definition live_arcs :: "writer \<Rightarrow> nat list" where
  "live_arcs w = fst (wr_content_methods w) # (case ui_last_source (wr_unpack_info w) of None \<Rightarrow> [] | Some a \<Rightarrow> [a])"

definition fresh_arc :: "env \<Rightarrow> writer \<Rightarrow> nat" where
  "fresh_arc ev w = ev_fresh ev (live_arcs w)"

definition bindW :: "('w \<Rightarrow> 'a result \<times> 'w) \<Rightarrow> ('a \<Rightarrow> 'w \<Rightarrow> 'b result \<times> 'w) \<Rightarrow> 'w \<Rightarrow> 'b result \<times> 'w" where
  "bindW f g w = (case f w of (Inl e, w') \<Rightarrow> (Inl e, w') | (Inr x, w') \<Rightarrow> g x w')"

definition writer_new :: "sink \<Rightarrow> writer result" where
  "writer_new output = (case sink_seek (unat SIGNATURE_HEADER_SIZE) output of
      (Inl e, _) \<Rightarrow> Inl (Io e '''')
    | (Inr _, output') \<Rightarrow>
        Inr \<lparr>wr_output = output', wr_files = [],
             wr_content_methods = (0, [\<lparr>ec_method = (''LZMA2'', ID_LZMA2), ec_options = None\<rparr>]),
             wr_pack_info = pack_info_default, wr_unpack_info = unpack_info_default,
             wr_encrypt_header = True, wr_poisoned = None\<rparr>)"

definition check_poisoned :: "writer \<Rightarrow> unit result" where
  "check_poisoned w = (case wr_poisoned w of Some cause \<Rightarrow> Inl (WriterPoisoned cause) | None \<Rightarrow> Inr ())"

definition output_matches_records :: "writer \<Rightarrow> bool \<times> writer" where
  "output_matches_records w =
     (if pi_len (wr_pack_info w) \<noteq> ui_pack_streams (wr_unpack_info w) then (False, w)
      else let recorded = fold (\<lambda>len end. Option.bind end (\<lambda>end. checked_add end len)) (pi_sizes (wr_pack_info w))
                 (Some (SIGNATURE_HEADER_SIZE + pi_pos (wr_pack_info w)))
           in case sink_position (wr_output w) of (at, out) \<Rightarrow>
             (case (recorded, at) of (Some r, Inr p) \<Rightarrow> r = p | _ \<Rightarrow> False, w\<lparr>wr_output := out\<rparr>))"

definition poison_unless_consistent :: "env \<Rightarrow> error \<Rightarrow> writer \<Rightarrow> error \<times> writer" where
  "poison_unless_consistent ev e w = (case output_matches_records w of
      (True, w') \<Rightarrow> (e, w') | (False, w') \<Rightarrow> (e, w'\<lparr>wr_poisoned := Some (ev_show ev e)\<rparr>))"

text \<open>\<^verbatim>\<open>pushed_entry\<close> and \<^verbatim>\<open>pushed_self\<close>, without the reference they return.\<close>

definition pushed :: "env \<Rightarrow> unit result \<times> writer \<Rightarrow> unit result \<times> writer" where
  "pushed ev p = (case p of
      (Inr _, w) \<Rightarrow> (Inr (), w)
    | (Inl e, w) \<Rightarrow> (case poison_unless_consistent ev e w of (e', w') \<Rightarrow> (Inl e', w')))"

definition set_content_methods :: "env \<Rightarrow> encoder_configuration list \<Rightarrow> writer \<Rightarrow> writer" where
  "set_content_methods ev ms w = (if ms = [] then w else w\<lparr>wr_content_methods := (fresh_arc ev w, ms)\<rparr>)"

definition set_encrypt_header :: "bool \<Rightarrow> writer \<Rightarrow> writer" where
  "set_encrypt_header b w = w\<lparr>wr_encrypt_header := b\<rparr>"

section \<open>Writing and recording\<close>

definition write_out :: "string \<Rightarrow> byte list \<Rightarrow> writer \<Rightarrow> unit result \<times> writer" where
  "write_out msg bs w = (case sink_write_all bs (wr_output w) of
      (Inl e, out) \<Rightarrow> (Inl (Io e msg), w\<lparr>wr_output := out\<rparr>) | (Inr _, out) \<Rightarrow> (Inr (), w\<lparr>wr_output := out\<rparr>))"

definition add_pack :: "u64 \<Rightarrow> u32 \<Rightarrow> writer \<Rightarrow> unit result \<times> writer" where
  "add_pack sz c w = (Inr (), w\<lparr>wr_pack_info := add_stream sz c (wr_pack_info w)\<rparr>)"

definition add_unpack :: "(unpack_info \<Rightarrow> unpack_info result) \<Rightarrow> writer \<Rightarrow> unit result \<times> writer" where
  "add_unpack f w = (case f (wr_unpack_info w) of
      Inl e \<Rightarrow> (Inl e, w) | Inr u \<Rightarrow> (Inr (), w\<lparr>wr_unpack_info := u\<rparr>))"

definition add_files :: "archive_entry list \<Rightarrow> writer \<Rightarrow> unit result \<times> writer" where
  "add_files es w = (Inr (), w\<lparr>wr_files := wr_files w @ es\<rparr>)"

fun write_bcj2_streams :: "(byte list \<times> u32) list \<Rightarrow> writer \<Rightarrow> unit result \<times> writer" where
  "write_bcj2_streams [] w = (Inr (), w)"
| "write_bcj2_streams ((bytes, _) # ss) w =
     bindW (write_out ''write BCJ2 stream'' bytes) (\<lambda>_. write_bcj2_streams ss) w"

fun write_bcj2_tail :: "(byte list \<times> u32) list \<Rightarrow> writer \<Rightarrow> unit result \<times> writer" where
  "write_bcj2_tail [] w = (Inr (), w)"
| "write_bcj2_tail ((bytes, c) # ss) w =
     bindW (write_out ''write BCJ2 stream'' bytes) (\<lambda>_.
     bindW (add_pack (of_nat (length bytes)) c) (\<lambda>_. write_bcj2_tail ss)) w"

fun add_packs :: "(u64 \<times> u32) list \<Rightarrow> writer \<Rightarrow> unit result \<times> writer" where
  "add_packs [] w = (Inr (), w)"
| "add_packs ((len, c) # ss) w = bindW (add_pack len c) (\<lambda>_. add_packs ss) w"

record bcj2_written =
  bw_streams :: "(u64 \<times> u32) list"
  bw_sizes :: bcj2_side_sizes

definition bcj2_written_of :: "bcj2_packed \<Rightarrow> bcj2_written" where
  "bcj2_written_of b = \<lparr>bw_streams = map (\<lambda>(bytes, c). (of_nat (length bytes), c)) (bp_streams b), bw_sizes = bp_sizes b\<rparr>"

definition record_written_folder :: "env \<Rightarrow> encoded_folder \<Rightarrow> bcj2_written option \<Rightarrow> writer \<Rightarrow> unit result \<times> writer" where
  "record_written_folder ev f tail =
     (let packs = (case tail of None \<Rightarrow> [] | Some t \<Rightarrow> bw_streams t);
          entry = (ef_entry f)\<lparr>ae_has_stream := True, ae_size := ef_size f, ae_crc := ucast (ef_crc f), ae_has_crc := True,
            ae_compressed_crc := ucast (ef_compressed_crc f),
            ae_compressed_size := ef_compressed_len f + sum_list (map fst packs)\<rparr>
      in bindW (add_pack (ef_compressed_len f) (ef_compressed_crc f)) (\<lambda>_.
         bindW (add_packs packs) (\<lambda>_.
         bindW (add_unpack (ui_add (ev_versions ev) (ef_methods f) (ef_more_sizes f @ [ef_size f]) (ef_crc f)
                  (map_option bw_sizes tail))) (\<lambda>_.
         add_files [entry]))))"

definition record_folder :: "env \<Rightarrow> encoded_folder \<Rightarrow> writer \<Rightarrow> unit result \<times> writer" where
  "record_folder ev f = (case ef_bcj2 f of
      Some b \<Rightarrow> bindW (write_bcj2_streams (bp_streams b)) (\<lambda>_.
        record_written_folder ev (f\<lparr>ef_bcj2 := None\<rparr>) (Some (bcj2_written_of b)))
    | None \<Rightarrow> record_written_folder ev f None)"

section \<open>Pushing\<close>

definition unstreamed :: "archive_entry \<Rightarrow> archive_entry" where
  "unstreamed e = e\<lparr>ae_has_stream := False, ae_size := 0, ae_compressed_size := 0, ae_has_crc := False\<rparr>"

text \<open>
  A run writes into the output as it goes. The bytes it gives the output are written first here; a
  write that stops is the run's error.
\<close>

definition push_entry_input :: "env \<Rightarrow> (error + byte list) list \<Rightarrow> bool \<Rightarrow> archive_entry \<Rightarrow> source option \<Rightarrow> writer
    \<Rightarrow> unit result \<times> writer" where
  "push_entry_input ev ivs send entry reader w =
     (case (ae_is_directory entry, reader) of
        (False, Some s) \<Rightarrow>
          (case encode_entry_input (ev_lib ev) (fresh_arc ev w) ivs send (wr_content_methods w) entry s of
             (out, r) \<Rightarrow> bindW (write_out ''Encode entry:'' out) (\<lambda>_ w. case r of
                 Inl e \<Rightarrow> (Inl e, w) | Inr f \<Rightarrow> record_folder ev f w) w)
      | _ \<Rightarrow> add_files [unstreamed entry] w)"

definition push_archive_entry :: "env \<Rightarrow> (error + byte list) list \<Rightarrow> bool \<Rightarrow> archive_entry \<Rightarrow> source option \<Rightarrow> writer
    \<Rightarrow> unit result \<times> writer" where
  "push_archive_entry ev ivs send entry reader w = (case check_poisoned w of
      Inl e \<Rightarrow> (Inl e, w) | Inr _ \<Rightarrow> pushed ev (push_entry_input ev ivs send entry reader w))"

definition push_prepared :: "env \<Rightarrow> prepared_block \<Rightarrow> writer \<Rightarrow> unit result \<times> writer" where
  "push_prepared ev b w =
     (if pb_entries b = [] then (Inr (), w)
      else bindW (write_out ''push_prepared_block: write'' (pb_compressed b)) (\<lambda>_.
           bindW (add_pack (of_nat (length (pb_compressed b))) (pb_compressed_crc b)) (\<lambda>_.
           bindW (write_bcj2_tail (case pb_bcj2 b of None \<Rightarrow> [] | Some t \<Rightarrow> bp_streams t)) (\<lambda>_.
           bindW (add_unpack (ui_add_multiple (ev_versions ev) (pb_methods b) (pb_sizes b) (pb_crc b)
                    (of_nat (length (pb_sub_stream_sizes b))) (pb_sub_stream_sizes b) (pb_sub_stream_crcs b)
                    (map_option bp_sizes (pb_bcj2 b)))) (\<lambda>_.
           add_files (pb_entries b))))) w)"

definition push_prepared_block :: "env \<Rightarrow> prepared_block \<Rightarrow> writer \<Rightarrow> unit result \<times> writer" where
  "push_prepared_block ev b w = (case check_poisoned w of
      Inl e \<Rightarrow> (Inl e, w) | Inr _ \<Rightarrow> pushed ev (push_prepared ev b w))"

definition push_entries_input :: "env \<Rightarrow> (error + byte list) list \<Rightarrow> bool \<Rightarrow> archive_entry list \<Rightarrow> source_reader list \<Rightarrow> writer
    \<Rightarrow> unit result \<times> writer" where
  "push_entries_input ev ivs send es readers w =
     (case encode_entries (ev_lib ev) (fresh_arc ev w) ivs send (wr_content_methods w) es readers of
        (out, r) \<Rightarrow> bindW (write_out ''Encode entries:'' out) (\<lambda>_ w. case r of
            Inl e \<Rightarrow> (Inl e, w)
          | Inr b \<Rightarrow>
              bindW (add_pack (of_nat (length out)) (pb_compressed_crc b)) (\<lambda>_.
              bindW (write_bcj2_tail (case pb_bcj2 b of None \<Rightarrow> [] | Some t \<Rightarrow> bp_streams t)) (\<lambda>_.
              bindW (add_unpack (ui_add_multiple (ev_versions ev) (pb_methods b) (pb_sizes b) (pb_crc b)
                       (of_nat (length (pb_sub_stream_sizes b))) (pb_sub_stream_sizes b) (pb_sub_stream_crcs b)
                       (map_option bp_sizes (pb_bcj2 b)))) (\<lambda>_.
              add_files (pb_entries b)))) w) w)"

definition push_archive_entries :: "env \<Rightarrow> (error + byte list) list \<Rightarrow> bool \<Rightarrow> archive_entry list \<Rightarrow> source_reader list \<Rightarrow> writer
    \<Rightarrow> unit result \<times> writer" where
  "push_archive_entries ev ivs send es readers w = (case check_poisoned w of
      Inl e \<Rightarrow> (Inl e, w) | Inr _ \<Rightarrow> pushed ev (push_entries_input ev ivs send es readers w))"

section \<open>Copying a block\<close>

text \<open>The archive a block is copied from: a seek that may fail, and the bytes a read gets before it ends or fails.\<close>

record raw_source =
  rs_seek :: "u64 \<Rightarrow> io_error option"
  rs_read :: "u64 \<Rightarrow> u64 \<Rightarrow> byte list \<times> io_error option"

definition raw_sub_stream :: "archive \<Rightarrow> block \<Rightarrow> nat \<Rightarrow> (u64 \<times> u32) result" where
  "raw_sub_stream a b index =
     (let count = num_unpack_sub_streams b; info = ar_sub_streams_info a;
          own = (if count = 1 \<and> has_crc b then Some (ucast (crc b)) else None)
      in bindE (ok_or (InvalidArgument ''push_raw_block: block has an entry without a CRC'')
           (case info of
              Some i \<Rightarrow> if contains (ssi_has_crc i) index then get (ssi_crcs i) index else own
            | None \<Rightarrow> own)) (\<lambda>c.
         bindE (case info of
              Some i \<Rightarrow> Inr (get (ssi_unpack_sizes i) index)
            | None \<Rightarrow> if count = 1 then bindE (get_unpack_size b) (\<lambda>n. Inr (Some n)) else Inr None) (\<lambda>n.
         bindE (ok_or (InvalidArgument ''push_raw_block: block is missing from the stream map'') n) (\<lambda>n.
         Inr (n, c)))))"

fun raw_sub_streams :: "archive \<Rightarrow> block \<Rightarrow> nat list \<Rightarrow> (u64 \<times> u32) list result" where
  "raw_sub_streams a b [] = Inr []"
| "raw_sub_streams a b (i # is) =
     bindE (raw_sub_stream a b i) (\<lambda>x. bindE (raw_sub_streams a b is) (\<lambda>xs. Inr (x # xs)))"

definition raw_entries :: "archive \<Rightarrow> nat \<Rightarrow> nat \<Rightarrow> (archive_entry \<Rightarrow> ustring) \<Rightarrow> archive_entry list" where
  "raw_entries a block_index first_file rename =
     map (\<lambda>(e, _). e\<lparr>ae_name := rename e\<rparr>)
       (filter (\<lambda>(e, _). ae_has_stream e)
         (takeWhile (\<lambda>(_, b). b = Some block_index)
           (zip (drop first_file (ar_files a)) (drop first_file (sm_file_block_index (ar_stream_map a))))))"

fun raw_pack_streams :: "archive \<Rightarrow> nat list \<Rightarrow> (u64 \<times> u64 \<times> u32) list result" where
  "raw_pack_streams a [] = Inr []"
| "raw_pack_streams a (i # is) =
     (case (get (ar_pack_sizes a) i, get (sm_pack_stream_offsets (ar_stream_map a)) i) of
        (Some n, Some offset) \<Rightarrow>
          bindE (ok_or (InvalidArgument ''push_raw_block: block lies past the end of any file'')
            (Option.bind (checked_add SIGNATURE_HEADER_SIZE (ar_pack_pos a)) (\<lambda>start. checked_add start offset))) (\<lambda>at.
          bindE (raw_pack_streams a is) (\<lambda>xs.
            Inr ((at, n, if contains (ar_pack_crcs_defined a) i
                         then (case get (ar_pack_crcs a) i of Some c \<Rightarrow> ucast c | None \<Rightarrow> 0) else 0) # xs)))
      | _ \<Rightarrow> Inl (InvalidArgument ''push_raw_block: block is missing from the stream map''))"

fun copy_streams :: "raw_source \<Rightarrow> (u64 \<times> u64 \<times> u32) list \<Rightarrow> writer \<Rightarrow> unit result \<times> writer" where
  "copy_streams src [] w = (Inr (), w)"
| "copy_streams src ((at, n, c) # ss) w =
     (case rs_seek src at of
        Some e \<Rightarrow> (Inl (Io e ''push_raw_block: seek''), w)
      | None \<Rightarrow>
          (case rs_read src at n of (bs, failed) \<Rightarrow>
             bindW (write_out ''push_raw_block: copy'' bs) (\<lambda>_ w.
               case failed of
                 Some e \<Rightarrow> (Inl (Io e ''push_raw_block: copy''), w)
               | None \<Rightarrow>
                   if of_nat (length bs) \<noteq> n
                   then (Inl (Io (IoBare UnexpectedEof) ''push_raw_block: block is truncated in its source''), w)
                   else bindW (add_pack n c) (\<lambda>_. copy_streams src ss) w) w))"

definition raw_checked :: "archive \<Rightarrow> nat \<Rightarrow> (archive_entry \<Rightarrow> ustring)
    \<Rightarrow> (block \<times> (u64 \<times> u32) list \<times> archive_entry list \<times> (u64 \<times> u64 \<times> u32) list) result" where
  "raw_checked a block_index rename =
     (let missing = InvalidArgument ''push_raw_block: block is missing from the stream map''; m = ar_stream_map a in
      bindE (ok_or (InvalidArgument ''push_raw_block: block does not exist'') (get (ar_blocks a) block_index)) (\<lambda>b.
      bindE (ok_or missing (sso_get (sm_block_first_sub_stream_index m) block_index)) (\<lambda>first.
      bindE (raw_sub_streams a b [first..<first + num_unpack_sub_streams b]) (\<lambda>subs.
      bindE (ok_or missing (get (sm_block_first_file_index m) block_index)) (\<lambda>first_file.
      let es = raw_entries a block_index first_file rename in
      if length es \<noteq> num_unpack_sub_streams b then Inl (InvalidArgument ''push_raw_block: block has entries for sub-streams'')
      else
      bindE (ok_or missing (get (sm_block_first_pack_stream_index m) block_index)) (\<lambda>first_pack.
      bindE (raw_pack_streams a [first_pack..<first_pack + length (packed_streams b)]) (\<lambda>packs.
      Inr (b, subs, es, packs))))))))"

definition push_raw :: "archive \<Rightarrow> nat \<Rightarrow> raw_source \<Rightarrow> (archive_entry \<Rightarrow> ustring) \<Rightarrow> writer \<Rightarrow> unit result \<times> writer" where
  "push_raw a block_index src rename w = (case raw_checked a block_index rename of
      Inl e \<Rightarrow> (Inl e, w)
    | Inr (b, subs, es, packs) \<Rightarrow>
        bindW (copy_streams src packs) (\<lambda>_.
        bindW (add_unpack (\<lambda>u. Inr (ui_add_raw b (map fst subs) (map snd subs) u))) (\<lambda>_.
        add_files es)) w)"

definition push_raw_block :: "env \<Rightarrow> archive \<Rightarrow> nat \<Rightarrow> raw_source \<Rightarrow> (archive_entry \<Rightarrow> ustring) \<Rightarrow> writer \<Rightarrow> unit result \<times> writer" where
  "push_raw_block ev a block_index src rename w = (case check_poisoned w of
      Inl e \<Rightarrow> (Inl e, w) | Inr _ \<Rightarrow> pushed ev (push_raw a block_index src rename w))"

section \<open>Many entries, a folder each\<close>

type_synonym opener = "nat \<Rightarrow> archive_entry \<Rightarrow> io_error + source option"

definition push_owned :: "env \<Rightarrow> (nat \<Rightarrow> (error + byte list) list) \<Rightarrow> opener \<Rightarrow> nat \<times> archive_entry \<Rightarrow> writer
    \<Rightarrow> unit result \<times> writer" where
  "push_owned ev ivs open x w = (case x of (index, entry) \<Rightarrow>
     case (if ae_is_directory entry then Inr None else open index entry) of
       Inl e \<Rightarrow> (Inl (Io e ''Open entry:''), w)
     | Inr reader \<Rightarrow> push_entry_input ev (ivs index) False entry reader w)"

fun push_each :: "('a \<Rightarrow> writer \<Rightarrow> unit result \<times> writer) \<Rightarrow> 'a list \<Rightarrow> writer \<Rightarrow> unit result \<times> writer" where
  "push_each f [] w = (Inr (), w)"
| "push_each f (x # xs) w = bindW (f x) (\<lambda>_. push_each f xs) w"

text \<open>
  A folder a worker coded with one thread to each coder, as the writer takes it from the stage: the
  folder's bytes, a BCJ2 folder's other streams, the record. \<open>arc\<close> has the single-threaded methods.
\<close>

definition push_coded :: "env \<Rightarrow> (nat \<Rightarrow> (error + byte list) list) \<Rightarrow> opener \<Rightarrow> arc_methods \<Rightarrow> nat \<times> archive_entry \<Rightarrow> writer
    \<Rightarrow> unit result \<times> writer" where
  "push_coded ev ivs open arc x w = (case x of (index, entry) \<Rightarrow>
     if ae_is_directory entry then push_archive_entry ev [] False entry None w
     else case open index entry of
       Inl e \<Rightarrow> (Inl (Io e ''Open entry:''), w)
     | Inr None \<Rightarrow> push_archive_entry ev [] False entry None w
     | Inr (Some s) \<Rightarrow>
         (case encode_entry_input (ev_lib ev) (ev_fresh ev (fst arc # live_arcs w)) (ivs index) False arc entry s of
            (out, r) \<Rightarrow> bindW (write_out ''write folder'' out) (\<lambda>_ w. case r of
                Inl e \<Rightarrow> (Inl e, w) | Inr f \<Rightarrow> record_folder ev f w) w))"

text \<open>\<open>started\<close>: whether a worker could be started at all.\<close>

definition push_non_solid_parallel :: "env \<Rightarrow> (nat \<Rightarrow> (error + byte list) list) \<Rightarrow> bool \<Rightarrow> opener \<Rightarrow> (nat \<times> archive_entry) list
    \<Rightarrow> writer \<Rightarrow> unit result \<times> writer" where
  "push_non_solid_parallel ev ivs started open run w =
     (if started
      then push_each (push_coded ev ivs open (fresh_arc ev w, one_thread_each (snd (wr_content_methods w)))) run w
      else push_each (push_owned ev ivs open) run w)"

function push_runs :: "env \<Rightarrow> (nat \<Rightarrow> (error + byte list) list) \<Rightarrow> bool \<Rightarrow> opener \<Rightarrow> (archive_entry \<Rightarrow> bool)
    \<Rightarrow> (nat \<times> archive_entry) list \<Rightarrow> writer \<Rightarrow> unit result \<times> writer" where
  "push_runs ev ivs started open eligible xs w =
     (let run = takeWhile (\<lambda>(_, e). eligible e) xs; rest = dropWhile (\<lambda>(_, e). eligible e) xs in
      bindW (if 1 < length run then push_non_solid_parallel ev ivs started open run
             else push_each (push_owned ev ivs open) run) (\<lambda>_ w.
        case rest of
          [] \<Rightarrow> (Inr (), w)
        | x # rest' \<Rightarrow> bindW (push_owned ev ivs open x) (\<lambda>_. push_runs ev ivs started open eligible rest') w) w)"
  by pat_completeness auto
termination
proof (relation "measure (\<lambda>(_, _, _, _, _, xs, _). length xs)")
  show "((ev, ivs, started, open, eligible, rest', w'), ev, ivs, started, open, eligible, xs, w)
      \<in> measure (\<lambda>(_, _, _, _, _, xs, _). length xs)"
    if "rest = dropWhile (\<lambda>(_, e). eligible e) xs" "rest = x # rest'"
    for ev ivs started "open" eligible xs w w' x rest rest'
  proof -
    have "length (x # rest') \<le> length xs" using that by (metis length_dropWhile_le)
    then show ?thesis by simp
  qed
qed auto

declare push_runs.simps [simp del]

definition push_non_solid :: "env \<Rightarrow> (nat \<Rightarrow> (error + byte list) list) \<Rightarrow> bool \<Rightarrow> opener \<Rightarrow> u32 \<Rightarrow> archive_entry list \<Rightarrow> writer
    \<Rightarrow> unit result \<times> writer" where
  "push_non_solid ev ivs started open threads es w =
     (let threads = u32_clamp threads 1 256; methods = snd (wr_content_methods w);
          per_folder = folder_threads (one_thread_each methods); workers = threads div per_folder;
          xs = zip [0..<length es] es;
          eligible = (\<lambda>e. ae_is_directory e \<or> folder_threads (sized_methods methods (declared_size [e])) \<le> per_folder)
      in if workers \<le> 1 then push_each (push_owned ev ivs open) xs w
         else push_runs ev ivs started open eligible xs w)"

definition push_archive_entries_non_solid :: "env \<Rightarrow> (nat \<Rightarrow> (error + byte list) list) \<Rightarrow> bool \<Rightarrow> opener \<Rightarrow> u32
    \<Rightarrow> archive_entry list \<Rightarrow> writer \<Rightarrow> unit result \<times> writer" where
  "push_archive_entries_non_solid ev ivs started open threads es w = (case check_poisoned w of
      Inl e \<Rightarrow> (Inl e, w) | Inr _ \<Rightarrow> pushed ev (push_non_solid ev ivs started open threads es w))"

section \<open>Finishing\<close>

text \<open>The header as it goes to the end of the file: as it is, or coded, when that is smaller or it is encrypted.\<close>

definition header_methods_of :: "writer \<Rightarrow> u64 \<Rightarrow> encoder_configuration list" where
  "header_methods_of w n =
     (if wr_encrypt_header w
      then take 1 (filter (\<lambda>mc. ec_id mc = ID_AES256_SHA256) (snd (wr_content_methods w))) else [])
     @ [header_coder n]"

definition write_encoded_header :: "env \<Rightarrow> (error + byte list) list \<Rightarrow> writer \<Rightarrow> (io_error + byte list) \<times> writer" where
  "write_encoded_header ev ivs w =
     (let raw = write_header (wr_pack_info w) (wr_unpack_info w) (wr_files w);
          w = w\<lparr>wr_files := [], wr_pack_info := pack_info_default, wr_unpack_info := unpack_info_default\<rparr>
      in case sink_position (wr_output w) of
           (Inl e, out) \<Rightarrow> (Inl e, w\<lparr>wr_output := out\<rparr>)
         | (Inr at, out) \<Rightarrow>
             let w = w\<lparr>wr_output := out\<rparr>; lib = ev_lib ev; n = of_nat (length raw);
                 methods = header_methods_of w n; must_encrypt = 1 < length methods
             in case folder_arc (fresh_arc ev w) ivs (fresh_arc ev w, methods) (Some n) of
                  Inl e \<Rightarrow> (Inl (IoOwn OtherKind e), w)
                | Inr arc \<Rightarrow>
                    (case run_pulled lib (one_message []) (snd arc) [] (Entry [Yields raw]) of
                       (_, Inl e, _) \<Rightarrow> (Inl (IoOwn OtherKind e), w)
                     | (encoded, Inr c, _) \<Rightarrow>
                         if \<not> must_encrypt \<and> length raw \<le> length encoded + 20 then (Inr raw, w)
                         else case sink_write_all encoded (wr_output w) of
                             (Inl e, out) \<Rightarrow> (Inl e, w\<lparr>wr_output := out\<rparr>)
                           | (Inr _, out) \<Rightarrow>
                               (case ui_add (ev_versions ev) arc (cr_more_sizes c @ [n]) (lib_crc32 lib raw) None unpack_info_default of
                                  Inl e \<Rightarrow> (Inl (IoOwn OtherKind e), w\<lparr>wr_output := out\<rparr>)
                                | Inr u \<Rightarrow>
                                    (Inr (K_ENCODED_HEADER #
                                        write_pack_info (add_stream (of_nat (length encoded)) (lib_crc32 lib encoded)
                                          (pack_info_default\<lparr>pi_pos := at - SIGNATURE_HEADER_SIZE\<rparr>))
                                        @ write_unpack_info u @ write_substreams u @ [K_END]),
                                     w\<lparr>wr_output := out\<rparr>))))"

definition start_header_bytes :: "env \<Rightarrow> u64 \<Rightarrow> byte list \<Rightarrow> byte list" where
  "start_header_bytes ev pos header =
     (let start = write_u64_le (pos - SIGNATURE_HEADER_SIZE) @ write_u64_le (of_nat (length header))
            @ write_u32 (lib_crc32 (ev_lib ev) header)
      in SEVEN_Z_SIGNATURE @ [0, 4] @ write_u32 (lib_crc32 (ev_lib ev) start) @ start)"

definition finish :: "env \<Rightarrow> (error + byte list) list \<Rightarrow> writer \<Rightarrow> (io_error + byte list) \<times> writer" where
  "finish ev ivs w = (case check_poisoned w of
      Inl e \<Rightarrow> (Inl (IoOwn OtherKind e), w)
    | Inr _ \<Rightarrow>
        (case write_encoded_header ev ivs w of
           (Inl e, w) \<Rightarrow> (Inl e, w)
         | (Inr header, w) \<Rightarrow>
             (case sink_position (wr_output w) of
                (Inl e, out) \<Rightarrow> (Inl e, w\<lparr>wr_output := out\<rparr>)
              | (Inr pos, out) \<Rightarrow>
                  (case sink_write_all header out of
                     (Inl e, out) \<Rightarrow> (Inl e, w\<lparr>wr_output := out\<rparr>)
                   | (Inr _, out) \<Rightarrow>
                       (case sink_seek 0 out of
                          (Inl e, out) \<Rightarrow> (Inl e, w\<lparr>wr_output := out\<rparr>)
                        | (Inr _, out) \<Rightarrow>
                            (case sink_write_all (start_header_bytes ev pos header) out of
                               (Inl e, out) \<Rightarrow> (Inl e, w\<lparr>wr_output := out\<rparr>)
                             | (Inr _, out) \<Rightarrow>
                                 (case sink_flush out of
                                    (Inl e, out) \<Rightarrow> (Inl e, w\<lparr>wr_output := out\<rparr>)
                                  | (Inr _, out) \<Rightarrow> (Inr (sk_bytes out), w\<lparr>wr_output := out\<rparr>))))))))"

end
