(* ===== verification/Writer_Invariants.thy ===== *)
theory Writer_Invariants
  imports Archive_Writer Streams_Round_Trip
begin

text \<open>
  What holds of a writer after any history of pushes, failed ones included. A push goes through
  states whose records describe the output (\<open>balanced\<close>); one that fails leaves the output and the pack
  streams ahead of such a state at most (\<open>partial\<close>), so that the check after a failure, which
  compares counts and positions alone, lets the writer go on only where nothing was added.
\<close>

section \<open>Primitive steps\<close>

definition partial :: "writer \<Rightarrow> writer \<Rightarrow> bool" where
  "partial w w' \<longleftrightarrow> wr_unpack_info w' = wr_unpack_info w \<and> wr_files w' = wr_files w
     \<and> wr_content_methods w' = wr_content_methods w \<and> wr_encrypt_header w' = wr_encrypt_header w
     \<and> wr_poisoned w' = wr_poisoned w \<and> pi_pos (wr_pack_info w') = pi_pos (wr_pack_info w)
     \<and> (\<exists>sizes crcs. length sizes = length crcs \<and> pi_sizes (wr_pack_info w') = pi_sizes (wr_pack_info w) @ sizes
          \<and> pi_crcs (wr_pack_info w') = pi_crcs (wr_pack_info w) @ crcs)
     \<and> sk_pos (wr_output w) \<le> sk_pos (wr_output w')
     \<and> (sk_pos (wr_output w') = sk_pos (wr_output w) \<longrightarrow> sk_bytes (wr_output w') = sk_bytes (wr_output w))"

lemma partial_refl [simp]: "partial w w"
  by (simp add: partial_def)

lemma partial_trans: "partial w1 w2 \<Longrightarrow> partial w2 w3 \<Longrightarrow> partial w1 w3"
proof -
  assume 1: "partial w1 w2" and 2: "partial w2 w3"
  from 1 obtain s1 c1 where s1: "length s1 = length c1" "pi_sizes (wr_pack_info w2) = pi_sizes (wr_pack_info w1) @ s1"
      "pi_crcs (wr_pack_info w2) = pi_crcs (wr_pack_info w1) @ c1" by (auto simp: partial_def)
  from 2 obtain s2 c2 where s2: "length s2 = length c2" "pi_sizes (wr_pack_info w3) = pi_sizes (wr_pack_info w2) @ s2"
      "pi_crcs (wr_pack_info w3) = pi_crcs (wr_pack_info w2) @ c2" by (auto simp: partial_def)
  from s1 s2 have "\<exists>s c. length s = length c \<and> pi_sizes (wr_pack_info w3) = pi_sizes (wr_pack_info w1) @ s
      \<and> pi_crcs (wr_pack_info w3) = pi_crcs (wr_pack_info w1) @ c"
    by (intro exI [of _ "s1 @ s2"] exI [of _ "c1 @ c2"]) simp
  moreover have "sk_pos (wr_output w1) \<le> sk_pos (wr_output w3)
      \<and> (sk_pos (wr_output w3) = sk_pos (wr_output w1) \<longrightarrow> sk_bytes (wr_output w3) = sk_bytes (wr_output w1))"
    using 1 2 by (auto simp: partial_def)
  ultimately show "partial w1 w3" using 1 2 by (simp add: partial_def)
qed

lemma next_step_kept: "next_step s = (x, s') \<Longrightarrow> sk_bytes s' = sk_bytes s \<and> sk_pos s' = sk_pos s"
  by (auto simp: next_step_def split: list.splits)

lemma put_bytes_pos: "sk_pos (put_bytes bs s) = sk_pos s + length bs"
  by (simp add: put_bytes_def Let_def)

lemma put_bytes_Nil [simp]: "put_bytes [] s = s"
  by (simp add: put_bytes_def)

lemma sink_write_grows:
  assumes "sink_write_all bs s = (x, s')"
  shows "sk_pos s \<le> sk_pos s' \<and> (sk_pos s' = sk_pos s \<longrightarrow> sk_bytes s' = sk_bytes s)
    \<and> (x = Inr () \<longrightarrow> sk_pos s' = sk_pos s + length bs)"
proof (cases "bs = []")
  case True
  with assms show ?thesis by (auto simp: sink_write_all_def)
next
  case False
  obtain y t where y: "next_step s = (y, t)" by fastforce
  note kept = next_step_kept [OF y]
  have put: "sk_pos (put_bytes cs t) = sk_pos s + length cs \<and> (cs = [] \<longrightarrow> sk_bytes (put_bytes cs t) = sk_bytes s)" for cs
    using kept put_bytes_pos [of cs t] by auto
  show ?thesis
  proof (cases y)
    case Succeeds
    with assms False y put [of bs] show ?thesis by (auto simp: sink_write_all_def)
  next
    case (Stops n e)
    define cs where "cs = take n bs"
    have "s' = put_bytes cs t" "x = Inl e" using assms False y Stops by (simp_all add: sink_write_all_def cs_def)
    with put [of cs] show ?thesis by auto
  qed
qed

lemma write_out_partial:
  assumes "write_out msg bs w = (r, w')"
  shows "partial w w' \<and> wr_pack_info w' = wr_pack_info w
    \<and> (r = Inr () \<longrightarrow> sk_pos (wr_output w') = sk_pos (wr_output w) + length bs)"
proof -
  obtain x s where x: "sink_write_all bs (wr_output w) = (x, s)" by fastforce
  with assms have "w' = w\<lparr>wr_output := s\<rparr>" "r = Inr () \<longrightarrow> x = Inr ()" by (auto simp: write_out_def split: sum.splits)
  with sink_write_grows [OF x] show ?thesis by (auto simp: partial_def)
qed

lemma add_pack_partial: "add_pack sz c w = (r, w') \<Longrightarrow> partial w w'"
  by (auto simp: add_pack_def partial_def add_stream_def intro!: exI [of _ "[sz]"] exI [of _ "[c]"])

lemma bindW_Inr: "bindW f g w = (Inr y, w'') \<longleftrightarrow> (\<exists>x w'. f w = (Inr x, w') \<and> g x w' = (Inr y, w''))"
  by (auto simp: bindW_def split: prod.splits sum.splits)

lemma bindW_cases:
  assumes "bindW f g w = (r, w'')"
  obtains (stop) e where "f w = (Inl e, w'')" "r = Inl e" | (go) x w' where "f w = (Inr x, w')" "g x w' = (r, w'')"
  using assms by (auto simp: bindW_def split: prod.splits sum.splits)

text \<open>The steps that only add to the output and the pack streams, and how much of each.\<close>

definition put :: "nat \<Rightarrow> (u64 \<times> u32) list \<Rightarrow> writer \<Rightarrow> writer \<Rightarrow> bool" where
  "put n ss w w' \<longleftrightarrow> partial w w' \<and> sk_pos (wr_output w') = sk_pos (wr_output w) + n
     \<and> pi_sizes (wr_pack_info w') = pi_sizes (wr_pack_info w) @ map fst ss
     \<and> pi_crcs (wr_pack_info w') = pi_crcs (wr_pack_info w) @ map snd ss"

lemma put_refl: "put 0 [] w w"
  by (simp add: put_def)

lemma put_trans: "put n ss w1 w2 \<Longrightarrow> put m ts w2 w3 \<Longrightarrow> put (n + m) (ss @ ts) w1 w3"
  using partial_trans by (auto simp: put_def)

lemma write_out_put: "write_out msg bs w = (Inr (), w') \<Longrightarrow> put (length bs) [] w w'"
  using write_out_partial [of msg bs w "Inr ()" w'] by (auto simp: put_def)

lemma add_pack_put: "add_pack sz c w = (r, w') \<Longrightarrow> r = Inr () \<and> put 0 [(sz, c)] w w'"
  using add_pack_partial [of sz c w r w'] by (auto simp: put_def add_pack_def add_stream_def)

lemma write_bcj2_tail_put:
  "write_bcj2_tail ss w = (r, w') \<Longrightarrow> partial w w' \<and> (r = Inr () \<longrightarrow>
     put (sum_list (map (length \<circ> fst) ss)) (map (\<lambda>(b, c). (of_nat (length b), c)) ss) w w')"
proof (induction ss w arbitrary: r w' rule: write_bcj2_tail.induct)
  case (2 bytes c ss w)
  from 2(2) [unfolded write_bcj2_tail.simps] show ?case
  proof (cases rule: bindW_cases)
    case stop
    then show ?thesis using write_out_partial by fastforce
  next
    case (go x w1)
    obtain w2 where w2: "add_pack (of_nat (length bytes)) c w1 = (Inr (), w2)" by (simp add: add_pack_def)
    with go(2) have run: "write_bcj2_tail ss w2 = (r, w')" by (simp add: bindW_def)
    have p: "put (length bytes) [(of_nat (length bytes), c)] w w2"
      using put_trans [OF write_out_put [OF go(1) [unfolded unit_eq [of x]]] add_pack_put [OF w2, THEN conjunct2]] by simp
    note IH = 2(1) [OF run]
    then have "partial w w'" using p partial_trans unfolding put_def by blast
    moreover have "r = Inr () \<longrightarrow> put (sum_list (map (length \<circ> fst) ((bytes, c) # ss)))
        (map (\<lambda>(b, c). (of_nat (length b), c)) ((bytes, c) # ss)) w w'"
    proof
      assume "r = Inr ()"
      with put_trans [OF p IH [THEN conjunct2, rule_format]] show "put (sum_list (map (length \<circ> fst) ((bytes, c) # ss)))
        (map (\<lambda>(b, c). (of_nat (length b), c)) ((bytes, c) # ss)) w w'" by simp
    qed
    ultimately show ?thesis by blast
  qed
qed (simp add: put_refl)

lemma write_bcj2_streams_put:
  "write_bcj2_streams ss w = (r, w') \<Longrightarrow> partial w w' \<and> (r = Inr () \<longrightarrow> put (sum_list (map (length \<circ> fst) ss)) [] w w')"
proof (induction ss w arbitrary: r w' rule: write_bcj2_streams.induct)
  case (2 bytes c ss w)
  from 2(2) [unfolded write_bcj2_streams.simps] show ?case
  proof (cases rule: bindW_cases)
    case stop
    then show ?thesis using write_out_partial by fastforce
  next
    case (go x w1)
    note p = write_out_put [OF go(1) [unfolded unit_eq [of x]]]
    note IH = 2(1) [OF go(2)]
    then have "partial w w'" using p partial_trans unfolding put_def by blast
    moreover have "r = Inr () \<longrightarrow> put (sum_list (map (length \<circ> fst) ((bytes, c) # ss))) [] w w'"
      using put_trans [OF p IH [THEN conjunct2, rule_format]] by simp
    ultimately show ?thesis by blast
  qed
qed (simp add: put_refl)

lemma add_packs_put: "add_packs ss w = (r, w') \<Longrightarrow> r = Inr () \<and> put 0 ss w w'"
proof (induction ss w arbitrary: r w' rule: add_packs.induct)
  case (2 len c ss w)
  obtain w1 where w1: "add_pack len c w = (Inr (), w1)" by (simp add: add_pack_def)
  with 2(2) have "add_packs ss w1 = (r, w')" by (simp add: bindW_def)
  note IH = 2(1) [OF this]
  from put_trans [OF add_pack_put [OF w1, THEN conjunct2] IH [THEN conjunct2]] IH show ?case by simp
qed (simp add: put_refl)

lemma copy_streams_put:
  "copy_streams src ss w = (r, w') \<Longrightarrow> partial w w' \<and> (r = Inr () \<longrightarrow> (\<exists>ns. map of_nat ns = map (fst \<circ> snd) ss
     \<and> put (sum_list ns) (map snd ss) w w'))"
proof (induction src ss w arbitrary: r w' rule: copy_streams.induct)
  case (1 src w)
  then show ?case by (auto simp: put_refl intro: exI [of _ "[]"])
next
  case (2 src at n c ss w)
  show ?case
  proof (cases "rs_seek src at")
    case None
    obtain bs failed where bs: "rs_read src at n = (bs, failed)" by fastforce
    from 2(2) None bs have "bindW (write_out ''push_raw_block: copy'' bs) (\<lambda>_ w.
        case failed of
          Some e \<Rightarrow> (Inl (Io e ''push_raw_block: copy''), w)
        | None \<Rightarrow>
            if of_nat (length bs) \<noteq> n
            then (Inl (Io (IoBare UnexpectedEof) ''push_raw_block: block is truncated in its source''), w)
            else bindW (add_pack n c) (\<lambda>_. copy_streams src ss) w) w = (r, w')" by simp
    then show ?thesis
    proof (cases rule: bindW_cases)
      case stop
      then show ?thesis using write_out_partial by fastforce
    next
      case (go x w1)
      note p1 = write_out_put [OF go(1) [unfolded unit_eq [of x]]]
      show ?thesis
      proof (cases "failed = None \<and> of_nat (length bs) = n")
        case False
        with go(2) have "w' = w1" "\<forall>u. r \<noteq> Inr u" by (auto split: option.splits if_splits)
        with p1 show ?thesis by (auto simp: put_def)
      next
        case True
        obtain w2 where w2: "add_pack n c w1 = (Inr (), w2)" by (simp add: add_pack_def)
        with go(2) True have run: "copy_streams src ss w2 = (r, w')" by (simp add: bindW_def)
        note p = put_trans [OF p1 add_pack_put [OF w2, THEN conjunct2]]
        from True have "\<not> of_nat (length bs) \<noteq> n" "failed = None" by auto
        note IH = 2(1) [OF None bs [symmetric] this(2,1) run]
        then have "partial w w'" using p partial_trans unfolding put_def by blast
        moreover {
          assume "r = Inr ()"
          with IH obtain ns where "map of_nat ns = map (fst \<circ> snd) ss" "put (sum_list ns) (map snd ss) w2 w'" by blast
          with put_trans [OF p this(2)] True have "\<exists>ns. map of_nat ns = map (fst \<circ> snd) ((at, n, c) # ss)
              \<and> put (sum_list ns) (map snd ((at, n, c) # ss)) w w'"
            by (intro exI [of _ "length bs # ns"]) simp
        }
        ultimately show ?thesis by blast
      qed
    qed
  qed (use 2(2) in auto)
qed

section \<open>The records describe the output\<close>

text \<open>A folder coded by a chain, and a block copied from an archive.\<close>

definition coded_record :: "env \<Rightarrow> encoder_configuration list \<Rightarrow> block_info \<Rightarrow> bool" where
  "coded_record ev ms bi \<longleftrightarrow> ms \<noteq> [] \<and> write_folder (map (header_method_of (ev_versions ev)) ms) = Inr (bi_methods bi)
     \<and> length (bi_sizes bi) = length ms \<and> Option.bind (bi_extra bi) be_raw_pack_streams = None
     \<and> (bi_bcj2 bi \<noteq> None \<longleftrightarrow> ec_id (last ms) = ID_BCJ2) \<and> (ec_id (last ms) = ID_BCJ2 \<longrightarrow> 2 \<le> length ms)
     \<and> sub_streams_agree bi (last (bi_sizes bi))"

definition copied_record :: "block \<Rightarrow> block_info \<Rightarrow> bool" where
  "copied_record b bi \<longleftrightarrow> (\<exists>bnd. block_ok bnd b) \<and> block_sized b \<and> bi_methods bi = write_raw_block b \<and> bi_sizes bi = unpack_sizes b
     \<and> bi_bcj2 bi = None \<and> Option.bind (bi_extra bi) be_raw_pack_streams = Some (length (packed_streams b))
     \<and> sub_count bi = num_unpack_sub_streams b \<and> (\<exists>n. get_unpack_size b = Inr n \<and> sub_streams_agree bi n)"

definition block_recorded :: "env \<Rightarrow> block_info \<Rightarrow> bool" where
  "block_recorded ev bi \<longleftrightarrow> (\<exists>ms. coded_record ev ms bi) \<or> (\<exists>b. copied_record b bi)"

text \<open>The cached descriptor is that of the last methods; those of the content methods, if it is from them.\<close>

definition descriptors_ok :: "env \<Rightarrow> writer \<Rightarrow> bool" where
  "descriptors_ok ev w = (let u = wr_unpack_info w in case ui_last_source u of
      None \<Rightarrow> ui_last_methods u = []
    | Some a \<Rightarrow> ui_last_methods u \<noteq> [] \<and> write_folder (ui_last_methods u) = Inr (ui_last_header u)
        \<and> (a = fst (wr_content_methods w) \<longrightarrow>
             ui_last_methods u = map (header_method_of (ev_versions ev)) (snd (wr_content_methods w))))"

text \<open>Methods BCJ2 is used with as the writer means it: last or not at all.\<close>

definition bcj2_last :: "encoder_configuration list \<Rightarrow> bool" where
  "bcj2_last ms \<longleftrightarrow> (\<forall>mc \<in> set (butlast ms). ec_id mc \<noteq> ID_BCJ2)"

definition counted :: "writer \<Rightarrow> bool" where
  "counted w \<longleftrightarrow> length (pi_crcs (wr_pack_info w)) = pi_len (wr_pack_info w)
     \<and> pi_len (wr_pack_info w) = ui_pack_streams (wr_unpack_info w) \<and> pi_pos (wr_pack_info w) = 0
     \<and> sk_pos (wr_output w) = 32 + sum_list (map unat (pi_sizes (wr_pack_info w)))
     \<and> length (filter ae_has_stream (wr_files w)) = sum_list (map sub_count (ui_blocks (wr_unpack_info w)))"

definition balanced :: "env \<Rightarrow> writer \<Rightarrow> bool" where
  "balanced ev w \<longleftrightarrow> counted w \<and> descriptors_ok ev w \<and> (\<forall>bi \<in> set (ui_blocks (wr_unpack_info w)). block_recorded ev bi)
     \<and> snd (wr_content_methods w) \<noteq> [] \<and> bcj2_last (snd (wr_content_methods w)) \<and> wr_poisoned w = None"

text \<open>The sizes of an archive that a stream position can reach and a \<^verbatim>\<open>u64\<close> can count.\<close>

definition fits :: "writer \<Rightarrow> bool" where
  "fits w \<longleftrightarrow> sk_pos (wr_output w) < 2 ^ 64 \<and> length (wr_files w) < 2 ^ 64"

definition grows :: "writer \<Rightarrow> writer \<Rightarrow> bool" where
  "grows w w' \<longleftrightarrow> sk_pos (wr_output w) \<le> sk_pos (wr_output w') \<and> length (wr_files w) \<le> length (wr_files w')"

lemma grows_trans: "grows w1 w2 \<Longrightarrow> grows w2 w3 \<Longrightarrow> grows w1 w3"
  by (auto simp: grows_def)

lemma grows_fits: "grows w w' \<Longrightarrow> fits w' \<Longrightarrow> fits w"
  by (auto simp: grows_def fits_def)

lemma partial_grows: "partial w w' \<Longrightarrow> grows w w'"
  by (auto simp: partial_def grows_def)

section \<open>The cache of descriptors\<close>

definition arc_ok :: "env \<Rightarrow> writer \<Rightarrow> arc_methods \<Rightarrow> bool" where
  "arc_ok ev w arc \<longleftrightarrow> snd arc \<noteq> []
     \<and> (ui_last_source (wr_unpack_info w) = Some (fst arc) \<longrightarrow>
          ui_last_methods (wr_unpack_info w) = map (header_method_of (ev_versions ev)) (snd arc))
     \<and> (fst arc = fst (wr_content_methods w) \<longrightarrow> snd arc = snd (wr_content_methods w))"

definition fresh_ok :: "env \<Rightarrow> bool" where
  "fresh_ok ev \<longleftrightarrow> (\<forall>xs. ev_fresh ev xs \<notin> set xs)"

lemma methods_match:
  "length ms = length hs \<and> list_all (\<lambda>(s, h). hm_matches vs s h) (zip ms hs) \<longleftrightarrow> hs = map (header_method_of vs) ms"
proof (induction ms arbitrary: hs)
  case (Cons m ms)
  then show ?case by (cases hs) (auto simp: hm_matches_def header_method_of_def)
qed auto

lemma write_folder_total: "ms \<noteq> [] \<Longrightarrow> \<exists>bs. write_folder ms = Inr bs"
  by (auto simp: write_folder_def)

lemma header_methods_spec:
  assumes "descriptors_ok ev w" "arc_ok ev w arc"
  shows "\<exists>h u. header_methods (ev_versions ev) arc (wr_unpack_info w) = Inr (h, u) \<and> ui_blocks u = ui_blocks (wr_unpack_info w)
    \<and> ui_last_source u = Some (fst arc) \<and> ui_last_methods u = map (header_method_of (ev_versions ev)) (snd arc)
    \<and> ui_last_header u = h \<and> write_folder (ui_last_methods u) = Inr h"
proof -
  let ?u = "wr_unpack_info w" and ?hs = "map (header_method_of (ev_versions ev)) (snd arc)"
  obtain a ms where arc: "arc = (a, ms)" by fastforce
  have ne: "?hs \<noteq> []" using assms(2) by (simp add: arc_ok_def)
  consider (same) "ui_last_source ?u = Some a" | (match) "ui_last_source ?u \<noteq> Some a" "ui_last_methods ?u = ?hs"
    | (new) "ui_last_source ?u \<noteq> Some a" "ui_last_methods ?u \<noteq> ?hs" by blast
  then show ?thesis
  proof cases
    case same
    with assms arc show ?thesis by (auto simp: header_methods_def descriptors_ok_def arc_ok_def Let_def)
  next
    case match
    with ne have "ui_last_source ?u \<noteq> None" using assms(1) by (auto simp: descriptors_ok_def Let_def split: option.splits)
    with assms(1) match have "write_folder ?hs = Inr (ui_last_header ?u)"
      by (auto simp: descriptors_ok_def Let_def split: option.splits)
    with match arc methods_match [of ms "ui_last_methods ?u" "ev_versions ev"] show ?thesis
      by (auto simp: header_methods_def)
  next
    case new
    obtain h where "write_folder ?hs = Inr h" using write_folder_total [OF ne] by blast
    with new arc methods_match [of ms "ui_last_methods ?u" "ev_versions ev"] show ?thesis
      by (auto simp: header_methods_def Let_def)
  qed
qed

lemma ui_add_spec:
  assumes "descriptors_ok ev w" "arc_ok ev w arc"
  obtains u h where "ui_add (ev_versions ev) arc sizes c bcj2 (wr_unpack_info w) = Inr u"
    "ui_blocks u = ui_blocks (wr_unpack_info w) @ [set_bcj2 bcj2 \<lparr>bi_methods = h, bi_sizes = sizes, bi_crc = c, bi_extra = None\<rparr>]"
    "write_folder (map (header_method_of (ev_versions ev)) (snd arc)) = Inr h"
    "descriptors_ok ev (w\<lparr>wr_unpack_info := u\<rparr>)" "ui_last_source u = Some (fst arc)"
    "ui_last_methods u = map (header_method_of (ev_versions ev)) (snd arc)"
  using header_methods_spec [OF assms] assms(2)
  by (auto simp: ui_add_def descriptors_ok_def arc_ok_def Let_def)

lemma ui_add_multiple_spec:
  assumes "descriptors_ok ev w" "arc_ok ev w arc"
  obtains u h where "ui_add_multiple (ev_versions ev) arc sizes c num ss cs bcj2 (wr_unpack_info w) = Inr u"
    "ui_blocks u = ui_blocks (wr_unpack_info w) @ [set_bcj2 bcj2 \<lparr>bi_methods = h, bi_sizes = sizes, bi_crc = c,
       bi_extra = Some \<lparr>be_num_sub_unpack_streams = num, be_sub_stream_sizes = ss, be_sub_stream_crcs = cs,
         be_bcj2 = None, be_raw_pack_streams = None\<rparr>\<rparr>]"
    "write_folder (map (header_method_of (ev_versions ev)) (snd arc)) = Inr h"
    "descriptors_ok ev (w\<lparr>wr_unpack_info := u\<rparr>)" "ui_last_source u = Some (fst arc)"
    "ui_last_methods u = map (header_method_of (ev_versions ev)) (snd arc)"
  using header_methods_spec [OF assms] assms(2)
  by (auto simp: ui_add_multiple_def descriptors_ok_def arc_ok_def Let_def)

text \<open>The methods of a folder, whether shared with those it was sized from or new, are known to the cache.\<close>

lemma folder_arc_ok:
  assumes "folder_arc fresh ivs arc sz = Inr arc'" "arc_ok ev w arc" "fresh \<notin> set (fst arc # live_arcs w)"
  shows "arc_ok ev w arc'"
proof -
  have ne: "snd arc' \<noteq> []" using folder_arc_methods(4) [OF assms(1)] assms(2) by (auto simp: arc_ok_def)
  show ?thesis
  proof (cases "fst arc' = fst arc")
    case True
    with folder_arc_methods(2) [OF assms(1)] assms(3) have "arc' = arc" by (auto simp: prod_eq_iff)
    with assms(2) show ?thesis by simp
  next
    case False
    with folder_arc_methods(3) [OF assms(1)] have "fst arc' = fresh" by blast
    with assms(3) ne show ?thesis by (auto simp: arc_ok_def live_arcs_def split: option.splits)
  qed
qed

lemma content_arc_ok: "balanced ev w \<Longrightarrow> arc_ok ev w (wr_content_methods w)"
  by (auto simp: balanced_def descriptors_ok_def arc_ok_def Let_def split: option.splits)

end
