(* ===== verification/Writer_Pushes.thy ===== *)
theory Writer_Pushes
  imports Writer_Invariants
begin

text \<open>
  One push of any kind: an entry, a solid block, a block prepared elsewhere, a block copied from
  another archive. It ends in a state whose records describe the output, or stops short of one.
\<close>

section \<open>Methods of a folder\<close>

lemma sized_methods_ids: "map ec_id (sized_methods ms sz) = map ec_id ms"
proof -
  have "ec_id (case sized_for n mc of Some mc' \<Rightarrow> mc' | None \<Rightarrow> mc) = ec_id mc" for n mc
    by (auto simp: sized_for_def ec_id_def Let_def)
  then show ?thesis by (auto simp: sized_methods_def split: option.splits)
qed

lemma fresh_ivs_ids: "fresh_ivs ivs ms = Inr ms' \<Longrightarrow> map ec_id ms' = map ec_id ms"
  by (induction ivs ms arbitrary: ms' rule: fresh_ivs.induct)
     (auto simp: bindE_Inr_iff ec_id_def split: option.splits encoder_options.splits list.splits sum.splits)

lemma folder_arc_ids: "folder_arc fresh ivs arc sz = Inr arc' \<Longrightarrow> map ec_id (snd arc') = map ec_id (snd arc)"
  using folder_arc_methods(1) [of fresh ivs arc sz arc'] fresh_ivs_ids [of ivs "sized_methods (snd arc) sz" "snd arc'"]
  by (simp add: folder_methods_def sized_methods_ids)

lemma bcj2_last_ids: "map ec_id ms = map ec_id ms' \<Longrightarrow> bcj2_last ms = bcj2_last ms'"
proof -
  assume "map ec_id ms = map ec_id ms'"
  then have "map ec_id (butlast ms) = map ec_id (butlast ms')" by (metis map_butlast)
  then have "ec_id ` set (butlast ms) = ec_id ` set (butlast ms')" by (metis set_map)
  moreover have "bcj2_last ms \<longleftrightarrow> ID_BCJ2 \<notin> ec_id ` set (butlast ms)" for ms by (force simp: bcj2_last_def)
  ultimately show ?thesis by simp
qed

text \<open>BCJ2 in a chain that was built: at the end, after a coder for its main stream.\<close>

definition bcj2_built :: "encoder_configuration list \<Rightarrow> bool" where
  "bcj2_built ms \<longleftrightarrow> bcj2_last ms \<and> (ms \<noteq> [] \<longrightarrow> ec_id (last ms) = ID_BCJ2 \<longrightarrow> 2 \<le> length ms)"

lemma create_from_bcj2:
  "create_from lib ms i mcs = Inr () \<Longrightarrow> j < length mcs \<Longrightarrow> ec_id (mcs ! j) = ID_BCJ2 \<Longrightarrow> i + j + 1 = length ms \<and> i + j \<noteq> 0"
proof (induction lib ms i mcs arbitrary: j rule: create_from.induct)
  case (2 lib ms i mc mcs)
  then show ?case
    by (cases j) (auto simp: bindE_Inr_iff check_bcj2_methods_def split: if_splits)
qed simp

lemma create_writer_bcj2: "create_writer lib ms = Inr () \<Longrightarrow> bcj2_built ms"
proof -
  assume "create_writer lib ms = Inr ()"
  then have at: "j < length ms \<Longrightarrow> ec_id (ms ! j) = ID_BCJ2 \<Longrightarrow> j + 1 = length ms \<and> j \<noteq> 0" for j
    using create_from_bcj2 [of lib ms 0 ms j] by (simp add: create_writer_def)
  have "\<forall>mc \<in> set (butlast ms). ec_id mc \<noteq> ID_BCJ2"
  proof
    fix mc assume "mc \<in> set (butlast ms)"
    then obtain j where j: "j < length (butlast ms)" "butlast ms ! j = mc" by (auto simp: in_set_conv_nth)
    then have "j < length ms" "Suc j < length ms" "mc = ms ! j" by (auto simp: nth_butlast)
    with at [of j] show "ec_id mc \<noteq> ID_BCJ2" by auto
  qed
  moreover have "ms \<noteq> [] \<longrightarrow> ec_id (last ms) = ID_BCJ2 \<longrightarrow> 2 \<le> length ms"
  proof (intro impI)
    assume "ms \<noteq> []" "ec_id (last ms) = ID_BCJ2"
    then have "length ms - 1 < length ms" "ec_id (ms ! (length ms - 1)) = ID_BCJ2" by (simp_all add: last_conv_nth)
    from at [OF this] show "2 \<le> length ms" by linarith
  qed
  ultimately show ?thesis by (simp add: bcj2_built_def bcj2_last_def)
qed

lemma run_pushed_bcj2: "run_pushed lib msg n ms head r = (out, Inr c, r') \<Longrightarrow> bcj2_built ms"
  by (rule create_writer_bcj2 [of lib]) (auto simp: run_pushed_def split: sum.splits)

lemma run_built:
  assumes "(if p \<noteq> None then run_pulled lib msg ms head r else run_pushed lib msg n ms head r) = (out, Inr c, r')"
    and "plan_input lib send (last ms) = Inr p" "bcj2_last ms"
  shows "bcj2_built ms"
  using assms run_pushed_bcj2 [of lib msg n ms head r out c r'] pulled_not_bcj2 [of lib send "last ms"]
  by (cases p) (auto simp: bcj2_built_def)

lemma encode_entry_built:
  assumes run: "encode_entry_input lib fresh ivs send arc e s = (out, Inr f)" and last: "bcj2_last (snd arc)"
  shows "bcj2_built (snd (ef_methods f))"
proof -
  obtain r sized where coded: "encode_sized_entry lib fresh ivs send arc e r sized = (out, Inr f)"
    using run by (auto simp: encode_entry_input_def split: sum.splits prod.splits)
  then obtain arc' plan where arc': "folder_arc fresh ivs arc (sf_folder sized) = Inr arc'"
      and plan: "plan_input lib send (last (snd arc')) = Inr plan"
    by (auto simp: encode_sized_entry_def split: if_splits sum.splits)
  from coded arc' plan obtain c r' where "(if plan \<noteq> None
      then run_pulled lib (one_message ''Encode entry:'') (snd arc') (sf_head sized) r
      else run_pushed lib (one_message ''Encode entry:'') (input_buffer_len (sf_folder sized) (snd arc')) (snd arc') (sf_head sized) r)
      = (out, Inr c, r')" and f: "ef_methods f = arc'"
    by (auto simp: encode_sized_entry_def Let_def split: if_splits sum.splits prod.splits)
  from run_built [OF this(1) plan] last bcj2_last_ids [OF folder_arc_ids [OF arc']] f show ?thesis by simp
qed

lemma encode_entries_built:
  assumes run: "encode_entries lib fresh ivs send arc es rs = (out, Inr b)" and last: "bcj2_last (snd arc)"
  shows "bcj2_built (snd (pb_methods b))"
proof -
  obtain head folder r arc' plan where arc': "folder_arc fresh ivs arc folder = Inr arc'"
      and plan: "plan_input lib send (last (snd arc')) = Inr plan"
      and rest: "(case (if plan \<noteq> None then run_pulled lib (one_message ''Encode entries:'') (snd arc') head r
                          else run_pushed lib (one_message ''Encode entries:'') (input_buffer_len folder (snd arc')) (snd arc') head r) of
                      (out, Inl e, _) \<Rightarrow> (out, Inl e)
                    | (out, Inr c, r') \<Rightarrow> (out, finish_solid lib arc' es out c (seq_readers_of r'))) = (out, Inr b)"
    using run by (auto simp: encode_entries_def split: if_splits sum.splits prod.splits)
  then obtain c r' where "(if plan \<noteq> None then run_pulled lib (one_message ''Encode entries:'') (snd arc') head r
                          else run_pushed lib (one_message ''Encode entries:'') (input_buffer_len folder (snd arc')) (snd arc') head r)
      = (out, Inr c, r')" "finish_solid lib arc' es out c (seq_readers_of r') = Inr b"
    by (auto split: prod.splits sum.splits)
  with run_built [OF this(1) plan] last bcj2_last_ids [OF folder_arc_ids [OF arc']] show ?thesis
    by (auto simp: finish_solid_def bindE_Inr_iff)
qed

lemma prepare_block_built:
  assumes "prepare_block lib fresh ivs arc es rs = Inr b"
  shows "bcj2_built (snd (pb_methods b))"
proof -
  have ne: "snd arc \<noteq> []" "length rs = length es" using assms by (auto simp: prepare_block_def split: if_splits)
  obtain head folder r where head: "folder_size (lib_crc32 lib) (lib_spare lib) es (Solid (seq_reader_new rs)) = (Inr (head, folder), r)"
    using assms ne by (cases "folder_size (lib_crc32 lib) (lib_spare lib) es (Solid (seq_reader_new rs))")
      (auto simp: prepare_block_def split: sum.splits)
  obtain arc' where "folder_arc fresh ivs arc folder = Inr arc'"
    using assms ne head by (cases "folder_arc fresh ivs arc folder") (auto simp: prepare_block_def)
  with assms ne head have "(case run_pushed lib prepare_messages (input_buffer_len folder (snd arc')) (snd arc') head r of
              (out, Inl e, _) \<Rightarrow> Inl e
            | (out, Inr c, r') \<Rightarrow> finish_solid lib arc' es out c (seq_readers_of r')) = Inr b"
    by (simp add: prepare_block_def)
  then obtain out c r' where "run_pushed lib prepare_messages (input_buffer_len folder (snd arc')) (snd arc') head r = (out, Inr c, r')"
      "finish_solid lib arc' es out c (seq_readers_of r') = Inr b"
    by (auto split: prod.splits sum.splits)
  with run_pushed_bcj2 [OF this(1)] show ?thesis by (auto simp: finish_solid_def bindE_Inr_iff)
qed


section \<open>Growth\<close>

definition monotone_step :: "(writer \<Rightarrow> 'a result \<times> writer) \<Rightarrow> bool" where
  "monotone_step f \<longleftrightarrow> (\<forall>w r w'. f w = (r, w') \<longrightarrow> grows w w')"

lemma monotone_stepD: "monotone_step f \<Longrightarrow> f w = (r, w') \<Longrightarrow> grows w w'"
  by (simp add: monotone_step_def)

lemma grows_refl: "grows w w"
  by (simp add: grows_def)

named_theorems monotone_steps

lemma monotone_bindW [monotone_steps]:
  "monotone_step f \<Longrightarrow> (\<And>x. monotone_step (g x)) \<Longrightarrow> monotone_step (bindW f g)"
  unfolding monotone_step_def by (elim bindW_cases | intro allI impI | (blast intro: grows_trans))+

lemma monotone_return [monotone_steps]: "monotone_step (\<lambda>w. (r, w))"
  by (simp add: monotone_step_def grows_refl)

lemma monotone_write_out [monotone_steps]: "monotone_step (write_out msg bs)"
  unfolding monotone_step_def using write_out_partial partial_grows by blast

lemma monotone_add_pack [monotone_steps]: "monotone_step (add_pack sz c)"
  unfolding monotone_step_def using add_pack_partial partial_grows by blast

lemma monotone_add_packs [monotone_steps]: "monotone_step (add_packs ss)"
  unfolding monotone_step_def using add_packs_put put_def partial_grows by blast

lemma monotone_add_unpack [monotone_steps]: "monotone_step (add_unpack f)"
  by (auto simp: monotone_step_def add_unpack_def grows_def split: sum.splits)

lemma monotone_add_files [monotone_steps]: "monotone_step (add_files es)"
  by (auto simp: monotone_step_def add_files_def grows_def)

lemma monotone_bcj2_streams [monotone_steps]: "monotone_step (write_bcj2_streams ss)"
  unfolding monotone_step_def using write_bcj2_streams_put partial_grows by blast

lemma monotone_record_folder [monotone_steps]: "monotone_step (record_folder ev f)"
  by (auto simp: record_folder_def record_written_folder_def Let_def intro!: monotone_steps split: option.splits)

lemma sink_position_kept: "sink_position s = (x, s') \<Longrightarrow> sk_bytes s' = sk_bytes s \<and> sk_pos s' = sk_pos s
    \<and> (\<forall>p. x = Inr p \<longrightarrow> p = of_nat (sk_pos s))"
  by (auto simp: sink_position_def dest: next_step_kept split: prod.splits io_step.splits)

lemma monotone_pushed: "grows w w' \<Longrightarrow> pushed ev (r, w') = (r', w'') \<Longrightarrow> grows w w''"
  by (auto simp: pushed_def poison_unless_consistent_def output_matches_records_def grows_def Let_def
      dest!: sink_position_kept split: sum.splits prod.splits if_splits bool.splits)

lemma monotone_guarded:
  assumes "monotone_step f"
  shows "monotone_step (\<lambda>w. case check_poisoned w of Inl e \<Rightarrow> (Inl e, w) | Inr _ \<Rightarrow> pushed ev (f w))"
  unfolding monotone_step_def
proof (intro allI impI)
  fix w r w' assume run: "(case check_poisoned w of Inl e \<Rightarrow> (Inl e, w) | Inr _ \<Rightarrow> pushed ev (f w)) = (r, w')"
  obtain r1 w1 where f: "f w = (r1, w1)" by fastforce
  with run monotone_pushed [OF monotone_stepD [OF assms f]] show "grows w w'"
    by (auto simp: grows_refl split: sum.splits)
qed

lemma monotone_push_entry [monotone_steps]: "monotone_step (push_entry_input ev ivs send entry reader)"
  unfolding monotone_step_def
proof (intro allI impI)
  fix w r w' assume run: "push_entry_input ev ivs send entry reader w = (r, w')"
  obtain out x where x: "encode_entry_input (ev_lib ev) (fresh_arc ev w) ivs send (wr_content_methods w) entry (the reader) = (out, x)"
    by fastforce
  have a: "monotone_step (bindW (write_out ''Encode entry:'' out) (\<lambda>_ w. case x of Inl e \<Rightarrow> (Inl e, w) | Inr f \<Rightarrow> record_folder ev f w))"
    by (cases x) (auto intro!: monotone_steps)
  show "grows w w'"
  proof (cases "\<not> ae_is_directory entry \<and> reader \<noteq> None")
    case True
    with run x have "bindW (write_out ''Encode entry:'' out) (\<lambda>_ w. case x of Inl e \<Rightarrow> (Inl e, w) | Inr f \<Rightarrow> record_folder ev f w) w = (r, w')"
      by (auto simp: push_entry_input_def)
    from monotone_stepD [OF a this] show ?thesis .
  next
    case False
    with run have "add_files [unstreamed entry] w = (r, w')"
      by (auto simp: push_entry_input_def split: bool.splits option.splits)
    from monotone_stepD [OF monotone_add_files this] show ?thesis .
  qed
qed


section \<open>Closing a block\<close>

lemma partialD:
  assumes "partial w w'"
  shows "wr_unpack_info w' = wr_unpack_info w" "wr_files w' = wr_files w" "wr_content_methods w' = wr_content_methods w"
    "wr_encrypt_header w' = wr_encrypt_header w" "wr_poisoned w' = wr_poisoned w"
    "pi_pos (wr_pack_info w') = pi_pos (wr_pack_info w)"
  using assms by (simp_all add: partial_def)

lemma descriptors_partial: "partial w w' \<Longrightarrow> descriptors_ok ev w' = descriptors_ok ev w"
  by (simp add: descriptors_ok_def partialD Let_def split: option.split)

lemma arc_ok_partial: "partial w w' \<Longrightarrow> arc_ok ev w' arc = arc_ok ev w arc"
  by (simp add: partialD arc_ok_def)

lemma unat_sizes: "sum_list ns < 2 ^ 64 \<Longrightarrow> sum_list (map (\<lambda>n. unat (of_nat n :: u64)) ns) = sum_list ns"
proof (induction ns)
  case (Cons n ns)
  then have "unat (of_nat n :: u64) = n" by (simp add: unat_of_usize usize_max_def)
  with Cons show ?case by simp
qed simp

text \<open>
  A block put after the output of a state the records describe, and recorded with its descriptor,
  pack streams and entries, makes the next such state.
\<close>

lemma close_block:
  assumes w: "balanced ev w" and w1: "put n ss w w1"
    and u: "ui_blocks u = ui_blocks (wr_unpack_info w) @ [bi]" "descriptors_ok ev (w1\<lparr>wr_unpack_info := u\<rparr>)" "block_recorded ev bi"
    and ss: "length ss = bi_pack_streams bi" "n = sum_list (map (unat \<circ> fst) ss)"
    and es: "length (filter ae_has_stream es) = sub_count bi"
    and w2: "w2 = w1\<lparr>wr_unpack_info := u, wr_files := wr_files w1 @ es\<rparr>"
  shows "balanced ev w2"
proof -
  have p: "partial w w1" "sk_pos (wr_output w1) = sk_pos (wr_output w) + n"
    "pi_sizes (wr_pack_info w1) = pi_sizes (wr_pack_info w) @ map fst ss"
    "pi_crcs (wr_pack_info w1) = pi_crcs (wr_pack_info w) @ map snd ss"
    using w1 by (auto simp: put_def)
  have c: "counted w" using w by (simp add: balanced_def)
  have "counted w2"
    using c p u(1) ss es by (simp add: counted_def w2 pi_len_def ui_pack_streams_def partialD comp_def)
  moreover have "descriptors_ok ev w2" using u(2) by (simp add: w2 descriptors_ok_def Let_def split: option.splits)
  ultimately show ?thesis using w p(1) u(1,3) by (auto simp: balanced_def w2 partialD)
qed

definition tail_streams :: "bcj2_packed option \<Rightarrow> (byte list \<times> u32) list" where
  "tail_streams t = (case t of None \<Rightarrow> [] | Some b \<Rightarrow> bp_streams b)"

text \<open>A chain's sizes and streams, as a block records them.\<close>

lemma set_bcj2_fields [simp]:
  "bi_methods (set_bcj2 t bi) = bi_methods bi" "bi_sizes (set_bcj2 t bi) = bi_sizes bi" "bi_crc (set_bcj2 t bi) = bi_crc bi"
  "bi_bcj2 (set_bcj2 t bi) = t" "bi_num_sub_unpack_streams (set_bcj2 t bi) = bi_num_sub_unpack_streams bi"
  "bi_sub_stream_sizes (set_bcj2 t bi) = bi_sub_stream_sizes bi" "bi_sub_stream_crcs (set_bcj2 t bi) = bi_sub_stream_crcs bi"
  "Option.bind (bi_extra (set_bcj2 t bi)) be_raw_pack_streams = Option.bind (bi_extra bi) be_raw_pack_streams"
  by (auto simp: set_bcj2_def bi_bcj2_def bi_num_sub_unpack_streams_def bi_sub_stream_sizes_def bi_sub_stream_crcs_def Let_def
      split: option.splits)

lemma chain_recorded:
  assumes run: "run_coders lib (rev ms) bs = (out, sizes, tail)" and ms: "ms \<noteq> []" "bcj2_built ms"
    and bi: "bi_sizes bi = sizes" "bi_bcj2 bi = map_option bp_sizes (bcj2_take lib tail)"
      "Option.bind (bi_extra bi) be_raw_pack_streams = None"
      "write_folder (map (header_method_of (ev_versions ev)) ms) = Inr (bi_methods bi)"
      "sub_streams_agree bi (of_nat (length bs))"
  shows "block_recorded ev bi \<and> bi_pack_streams bi = Suc (length (tail_streams (bcj2_take lib tail)))"
proof -
  note sz = run_coders_sizes [OF run]
  have "(\<forall>mc \<in> set ms. ec_id mc \<noteq> ID_BCJ2) \<longleftrightarrow> ec_id (last ms) \<noteq> ID_BCJ2"
    using ms by (cases ms rule: rev_cases) (auto simp: bcj2_built_def bcj2_last_def)
  then have t: "tail = None \<longleftrightarrow> ec_id (last ms) \<noteq> ID_BCJ2" using sz by simp
  then have "coded_record ev ms bi" using ms sz bi
    by (auto simp: coded_record_def bcj2_built_def bcj2_take_def)
  moreover have "bi_pack_streams bi = Suc (length (tail_streams (bcj2_take lib tail)))"
    using bi(2,3) by (cases tail) (auto simp: bi_pack_streams_def tail_streams_def bcj2_take_def)
  ultimately show ?thesis by (auto simp: block_recorded_def)
qed


lemma record_written_spec:
  assumes run: "record_written_folder ev f tail w = (r, w')" and d: "descriptors_ok ev w" and a: "arc_ok ev w (ef_methods f)"
  obtains w1 u h e where "r = Inr ()"
    "put 0 ((ef_compressed_len f, ef_compressed_crc f) # (case tail of None \<Rightarrow> [] | Some t \<Rightarrow> bw_streams t)) w w1"
    "w' = w1\<lparr>wr_unpack_info := u, wr_files := wr_files w1 @ [e]\<rparr>" "ae_has_stream e"
    "ui_blocks u = ui_blocks (wr_unpack_info w) @ [set_bcj2 (map_option bw_sizes tail)
       \<lparr>bi_methods = h, bi_sizes = ef_more_sizes f @ [ef_size f], bi_crc = ef_crc f, bi_extra = None\<rparr>]"
    "write_folder (map (header_method_of (ev_versions ev)) (snd (ef_methods f))) = Inr h"
    "descriptors_ok ev (w1\<lparr>wr_unpack_info := u\<rparr>)" "ui_last_source u = Some (fst (ef_methods f))"
    "ui_last_methods u = map (header_method_of (ev_versions ev)) (snd (ef_methods f))"
proof -
  let ?packs = "case tail of None \<Rightarrow> [] | Some t \<Rightarrow> bw_streams t"
  obtain wa where wa: "add_pack (ef_compressed_len f) (ef_compressed_crc f) w = (Inr (), wa)" by (simp add: add_pack_def)
  obtain w1 where w1: "add_packs ?packs wa = (Inr (), w1)" using add_packs_put by (metis surj_pair)
  have p: "put 0 ((ef_compressed_len f, ef_compressed_crc f) # ?packs) w w1"
    using put_trans [OF add_pack_put [OF wa, THEN conjunct2] add_packs_put [OF w1, THEN conjunct2]] by simp
  then have p1: "partial w w1" by (simp add: put_def)
  have ok: "descriptors_ok ev w1" "arc_ok ev w1 (ef_methods f)" using d a p1 by (simp_all add: descriptors_partial arc_ok_partial)
  obtain u h where u: "ui_add (ev_versions ev) (ef_methods f) (ef_more_sizes f @ [ef_size f]) (ef_crc f) (map_option bw_sizes tail)
      (wr_unpack_info w1) = Inr u"
    "ui_blocks u = ui_blocks (wr_unpack_info w1) @ [set_bcj2 (map_option bw_sizes tail)
       \<lparr>bi_methods = h, bi_sizes = ef_more_sizes f @ [ef_size f], bi_crc = ef_crc f, bi_extra = None\<rparr>]"
    "write_folder (map (header_method_of (ev_versions ev)) (snd (ef_methods f))) = Inr h"
    "descriptors_ok ev (w1\<lparr>wr_unpack_info := u\<rparr>)" "ui_last_source u = Some (fst (ef_methods f))"
    "ui_last_methods u = map (header_method_of (ev_versions ev)) (snd (ef_methods f))"
    by (rule ui_add_spec [OF ok])
  from run wa w1 u(1) have "r = Inr ()" "\<exists>e. w' = w1\<lparr>wr_unpack_info := u, wr_files := wr_files w1 @ [e]\<rparr> \<and> ae_has_stream e"
    by (auto simp: record_written_folder_def Let_def bindW_def add_unpack_def add_files_def)
  with that p u p1 show ?thesis by (auto simp: partialD)
qed

lemma one_stream_agrees:
  "bi_extra bi = None \<Longrightarrow> sub_streams_agree (set_bcj2 t bi) n \<and> sub_count (set_bcj2 t bi) = 1"
  by (simp add: sub_streams_agree_def sub_count_def) (simp add: bi_num_sub_unpack_streams_def bi_sub_stream_sizes_def)

text \<open>A coded folder after its bytes are out: recorded, or its last streams are cut short.\<close>

lemma folder_stored:
  assumes bal: "balanced ev w" and out: "write_out msg out w = (Inr (), w1)"
    and run: "record_folder ev f w1 = (r, w')" and fit: "fits w'"
    and made: "folder_made (ev_lib ev) bs out f" and arc: "arc_ok ev w (ef_methods f)" and built: "bcj2_built (snd (ef_methods f))"
  shows "r = Inr () \<Longrightarrow> balanced ev w' \<and> wr_content_methods w' = wr_content_methods w
      \<and> ui_last_source (wr_unpack_info w') = Some (fst (ef_methods f))
      \<and> ui_last_methods (wr_unpack_info w') = map (header_method_of (ev_versions ev)) (snd (ef_methods f))"
    and "r \<noteq> Inr () \<Longrightarrow> partial w w'"
proof -
  let ?tail = "map_option bcj2_written_of (ef_bcj2 f)"
  let ?f = "f\<lparr>ef_bcj2 := None\<rparr>"
  obtain tail where chain: "run_coders (ev_lib ev) (rev (snd (ef_methods f))) bs = (out, ef_more_sizes f @ [ef_size f], tail)"
      and tail: "ef_bcj2 f = bcj2_take (ev_lib ev) tail" using made by (auto simp: folder_made_def)
  note p1 = write_out_put [OF out]
  have run': "bindW (write_bcj2_streams (tail_streams (ef_bcj2 f))) (\<lambda>_. record_written_folder ev ?f ?tail) w1 = (r, w')"
    using run by (cases "ef_bcj2 f") (simp_all add: record_folder_def tail_streams_def bindW_def record_written_folder_def)
  then have "(r = Inr () \<longrightarrow> balanced ev w' \<and> wr_content_methods w' = wr_content_methods w
      \<and> ui_last_source (wr_unpack_info w') = Some (fst (ef_methods f))
      \<and> ui_last_methods (wr_unpack_info w') = map (header_method_of (ev_versions ev)) (snd (ef_methods f)))
      \<and> (r \<noteq> Inr () \<longrightarrow> partial w w')"
  proof (cases rule: bindW_cases)
    case stop
    with write_bcj2_streams_put have "partial w1 w'" by blast
    with p1 stop partial_trans show ?thesis unfolding put_def by auto
  next
    case (go x w2)
    let ?ss = "tail_streams (ef_bcj2 f)" and ?n = "length out # map (length \<circ> fst) (tail_streams (ef_bcj2 f))"
    have p2: "put (sum_list ?n) [] w w2"
      using put_trans [OF p1 write_bcj2_streams_put [OF go(1), THEN conjunct2, rule_format]] by simp
    then have part: "partial w w2" by (simp add: put_def)
    have ok: "descriptors_ok ev w2" "arc_ok ev w2 (ef_methods ?f)"
      using bal arc by (simp_all add: descriptors_partial [OF part] arc_ok_partial [OF part] balanced_def)
    obtain w3 u h e where w3: "r = Inr ()"
      "put 0 ((ef_compressed_len ?f, ef_compressed_crc ?f) # (case ?tail of None \<Rightarrow> [] | Some t \<Rightarrow> bw_streams t)) w2 w3"
      "w' = w3\<lparr>wr_unpack_info := u, wr_files := wr_files w3 @ [e]\<rparr>" "ae_has_stream e"
      "ui_blocks u = ui_blocks (wr_unpack_info w2) @ [set_bcj2 (map_option bw_sizes ?tail)
         \<lparr>bi_methods = h, bi_sizes = ef_more_sizes ?f @ [ef_size ?f], bi_crc = ef_crc ?f, bi_extra = None\<rparr>]"
      "write_folder (map (header_method_of (ev_versions ev)) (snd (ef_methods ?f))) = Inr h"
      "descriptors_ok ev (w3\<lparr>wr_unpack_info := u\<rparr>)" "ui_last_source u = Some (fst (ef_methods ?f))"
      "ui_last_methods u = map (header_method_of (ev_versions ev)) (snd (ef_methods ?f))"
      by (rule record_written_spec [OF go(2) ok])
    let ?packs = "(of_nat (length out) :: u64, ef_compressed_crc f) # map (\<lambda>(b, c). (of_nat (length b), c)) ?ss"
    let ?bi = "set_bcj2 (map_option bw_sizes ?tail)
         \<lparr>bi_methods = h, bi_sizes = ef_more_sizes f @ [ef_size f], bi_crc = ef_crc f, bi_extra = None\<rparr>"
    have "put (sum_list ?n) ?packs w w3"
      using put_trans [OF p2 w3(2)] made by (cases "ef_bcj2 f") (auto simp: folder_made_def tail_streams_def bcj2_written_of_def)
    moreover have "sum_list ?n < 2 ^ 64"
      using calculation fit w3(3) by (simp add: put_def fits_def)
    then have "sum_list ?n = sum_list (map (unat \<circ> fst) ?packs)"
      using unat_sizes [of ?n] by (simp add: comp_def case_prod_beta)
    moreover have ne: "snd (ef_methods f) \<noteq> []" using arc by (simp add: arc_ok_def)
    have bi: "block_recorded ev ?bi \<and> bi_pack_streams ?bi = length ?packs"
      using chain_recorded [OF chain ne built, of ?bi ev] w3(6) one_stream_agrees [of "\<lparr>bi_methods = h, bi_sizes = ef_more_sizes f @ [ef_size f], bi_crc = ef_crc f, bi_extra = None\<rparr>" "map_option bw_sizes ?tail"]
      by (simp add: tail option.map_comp comp_def bcj2_written_of_def)
    moreover have "length (filter ae_has_stream [e]) = sub_count ?bi" using one_stream_agrees w3(4) by simp
    ultimately have "balanced ev w'"
      using close_block [OF bal, of _ ?packs w3 u ?bi "[e]" w'] w3(3,5,7) partialD(1) [OF part] by simp
    moreover have "wr_content_methods w3 = wr_content_methods w"
      using w3(2) partialD(3) [OF part] partialD(3) [of w2 w3] by (simp add: put_def)
    ultimately show ?thesis using w3 by simp
  qed
  then show "r = Inr () \<Longrightarrow> balanced ev w' \<and> wr_content_methods w' = wr_content_methods w
      \<and> ui_last_source (wr_unpack_info w') = Some (fst (ef_methods f))
      \<and> ui_last_methods (wr_unpack_info w') = map (header_method_of (ev_versions ev)) (snd (ef_methods f))"
    "r \<noteq> Inr () \<Longrightarrow> partial w w'" by blast+
qed


text \<open>A solid block, whose streams are recorded as they are written.\<close>

definition store_solid :: "env \<Rightarrow> prepared_block \<Rightarrow> writer \<Rightarrow> unit result \<times> writer" where
  "store_solid ev b =
     bindW (add_pack (of_nat (length (pb_compressed b))) (pb_compressed_crc b)) (\<lambda>_.
     bindW (write_bcj2_tail (tail_streams (pb_bcj2 b))) (\<lambda>_.
     bindW (add_unpack (ui_add_multiple (ev_versions ev) (pb_methods b) (pb_sizes b) (pb_crc b)
              (of_nat (length (pb_sub_stream_sizes b))) (pb_sub_stream_sizes b) (pb_sub_stream_crcs b)
              (map_option bp_sizes (pb_bcj2 b)))) (\<lambda>_.
     add_files (pb_entries b))))"

definition solid_record :: "byte list \<Rightarrow> prepared_block \<Rightarrow> block_info" where
  "solid_record h b = set_bcj2 (map_option bp_sizes (pb_bcj2 b)) \<lparr>bi_methods = h, bi_sizes = pb_sizes b, bi_crc = pb_crc b,
     bi_extra = Some \<lparr>be_num_sub_unpack_streams = of_nat (length (pb_sub_stream_sizes b)), be_sub_stream_sizes = pb_sub_stream_sizes b,
       be_sub_stream_crcs = pb_sub_stream_crcs b, be_bcj2 = None, be_raw_pack_streams = None\<rparr>\<rparr>"

lemma solid_record_fields [simp]:
  "bi_methods (solid_record h b) = h" "bi_sizes (solid_record h b) = pb_sizes b"
  "bi_bcj2 (solid_record h b) = map_option bp_sizes (pb_bcj2 b)"
  by (simp_all add: solid_record_def)

definition streams_counted :: "byte list \<Rightarrow> prepared_block \<Rightarrow> bool" where
  "streams_counted bs b \<longleftrightarrow> length (filter ae_has_stream (pb_entries b)) = length (pb_sub_stream_sizes b)
     \<and> length (pb_sub_stream_crcs b) = length (pb_sub_stream_sizes b)
     \<and> sum_list (map unat (pb_sub_stream_sizes b)) = unat (of_nat (length bs) :: u64)"

lemma solid_streams_counted:
  assumes "solid_made lib es ss b" "length es = length ss" "length (concat (map (fst \<circ> source_content) ss)) < 2 ^ 64"
  shows "streams_counted (concat (map (fst \<circ> source_content) ss)) b"
proof -
  let ?held = "map (fst \<circ> source_content) ss"
  let ?streamed = "map snd (filter (\<lambda>(e, bs). ae_has_stream e) (zip es ?held))"
  have m: "concat ?streamed = concat ?held" "pb_sub_stream_sizes b = map (of_nat \<circ> length) ?streamed"
    "pb_sub_stream_crcs b = map (lib_crc32 lib) ?streamed" "map ae_has_stream (pb_entries b) = map ae_has_stream es"
    using assms(1) by (simp_all add: solid_made_def Let_def)
  have "length (filter ae_has_stream (pb_entries b)) = length (filter id (map ae_has_stream (pb_entries b)))"
    by (simp add: filter_map comp_def)
  also have "\<dots> = length (filter ae_has_stream es)" by (simp add: m(4) filter_map comp_def)
  also have "\<dots> = length ?streamed"
    using assms(2) by (induction es ss rule: list_induct2) auto
  finally have 1: "length (filter ae_has_stream (pb_entries b)) = length (pb_sub_stream_sizes b)" by (simp add: m(2))
  have "sum_list (map length ?streamed) = length (concat ?held)" unfolding m(1) [symmetric] by (simp add: length_concat)
  then have "sum_list (map unat (pb_sub_stream_sizes b)) = length (concat ?held)"
    using unat_sizes [of "map length ?streamed"] assms(3) by (simp add: m(2) comp_def)
  with 1 m(2,3) assms(3) show ?thesis by (simp add: streams_counted_def unat_of_usize usize_max_def)
qed

lemma solid_record_agrees:
  assumes "streams_counted bs b" "length (pb_entries b) < 2 ^ 64"
  shows "sub_streams_agree (solid_record h b) (of_nat (length bs)) \<and> sub_count (solid_record h b) = length (filter ae_has_stream (pb_entries b))"
proof -
  have "length (pb_sub_stream_sizes b) < 2 ^ 64"
    using assms length_filter_le [of ae_has_stream "pb_entries b"] by (simp add: streams_counted_def)
  then have "sub_count (solid_record h b) = length (pb_sub_stream_sizes b)"
    by (simp add: sub_count_def solid_record_def)
      (simp add: bi_num_sub_unpack_streams_def unat_of_usize usize_max_def)
  moreover have "bi_sub_stream_sizes (solid_record h b) = pb_sub_stream_sizes b" "bi_sub_stream_crcs (solid_record h b) = pb_sub_stream_crcs b"
    by (simp_all add: solid_record_def) (simp_all add: bi_sub_stream_sizes_def bi_sub_stream_crcs_def)
  ultimately show ?thesis using assms(1) by (simp add: sub_streams_agree_def streams_counted_def)
qed


lemma solid_stored:
  assumes bal: "balanced ev w" and out: "write_out msg (pb_compressed b) w = (Inr (), w1)"
    and run: "store_solid ev b w1 = (r, w')" and fit: "fits w'"
    and made: "block_made (ev_lib ev) bs (pb_compressed b) b" "streams_counted bs b"
    and arc: "arc_ok ev w (pb_methods b)" and built: "bcj2_built (snd (pb_methods b))"
  shows "(r = Inr () \<longrightarrow> balanced ev w') \<and> (r \<noteq> Inr () \<longrightarrow> partial w w')"
proof -
  let ?out = "pb_compressed b" and ?ss = "tail_streams (pb_bcj2 b)"
  let ?n = "length ?out # map (length \<circ> fst) ?ss"
  let ?packs = "(of_nat (length ?out) :: u64, pb_compressed_crc b) # map (\<lambda>(b, c). (of_nat (length b), c)) ?ss"
  obtain w2 where w2: "add_pack (of_nat (length ?out)) (pb_compressed_crc b) w1 = (Inr (), w2)" by (simp add: add_pack_def)
  have p2: "put (length ?out) [(of_nat (length ?out), pb_compressed_crc b)] w w2"
    using put_trans [OF write_out_put [OF out] add_pack_put [OF w2, THEN conjunct2]] by simp
  have "bindW (write_bcj2_tail ?ss) (\<lambda>_. bindW (add_unpack (ui_add_multiple (ev_versions ev) (pb_methods b) (pb_sizes b) (pb_crc b)
              (of_nat (length (pb_sub_stream_sizes b))) (pb_sub_stream_sizes b) (pb_sub_stream_crcs b)
              (map_option bp_sizes (pb_bcj2 b)))) (\<lambda>_. add_files (pb_entries b))) w2 = (r, w')"
    using run w2 by (simp add: store_solid_def bindW_def)
  then show ?thesis
  proof (cases rule: bindW_cases)
    case stop
    with write_bcj2_tail_put have "partial w2 w'" by blast
    with p2 stop partial_trans show ?thesis unfolding put_def by auto
  next
    case (go x w3)
    have p3: "put (sum_list ?n) ?packs w w3"
      using put_trans [OF p2 write_bcj2_tail_put [OF go(1), THEN conjunct2, rule_format]] by simp
    then have part: "partial w w3" by (simp add: put_def)
    have ok: "descriptors_ok ev w3" "arc_ok ev w3 (pb_methods b)"
      using bal arc by (simp_all add: descriptors_partial [OF part] arc_ok_partial [OF part] balanced_def)
    obtain u h where u: "ui_add_multiple (ev_versions ev) (pb_methods b) (pb_sizes b) (pb_crc b)
              (of_nat (length (pb_sub_stream_sizes b))) (pb_sub_stream_sizes b) (pb_sub_stream_crcs b)
              (map_option bp_sizes (pb_bcj2 b)) (wr_unpack_info w3) = Inr u"
      "ui_blocks u = ui_blocks (wr_unpack_info w3) @ [solid_record h b]"
      "write_folder (map (header_method_of (ev_versions ev)) (snd (pb_methods b))) = Inr h"
      "descriptors_ok ev (w3\<lparr>wr_unpack_info := u\<rparr>)"
      unfolding solid_record_def by (rule ui_add_multiple_spec [OF ok])
    have w': "r = Inr ()" "w' = w3\<lparr>wr_unpack_info := u, wr_files := wr_files w3 @ pb_entries b\<rparr>"
      using go(2) u(1) by (auto simp: bindW_def add_unpack_def add_files_def)
    have fits: "sum_list ?n < 2 ^ 64" "length (pb_entries b) < 2 ^ 64" using p3 fit w'(2) by (simp_all add: put_def fits_def)
    then have sizes: "sum_list ?n = sum_list (map (unat \<circ> fst) ?packs)"
      using unat_sizes [of ?n] by (simp add: comp_def case_prod_beta)
    obtain tail where chain: "run_coders (ev_lib ev) (rev (snd (pb_methods b))) bs = (?out, pb_sizes b, tail)"
        and tail: "pb_bcj2 b = bcj2_take (ev_lib ev) tail" using made(1) by (auto simp: block_made_def)
    have ne: "snd (pb_methods b) \<noteq> []" using arc by (simp add: arc_ok_def)
    note agree = solid_record_agrees [OF made(2) fits(2), of h]
    have "Option.bind (bi_extra (solid_record h b)) be_raw_pack_streams = None" unfolding solid_record_def set_bcj2_fields by simp
    then have "block_recorded ev (solid_record h b) \<and> bi_pack_streams (solid_record h b) = length ?packs"
      using chain_recorded [OF chain ne built, of "solid_record h b" ev] u(3) agree by (simp add: tail [symmetric])
    then have "balanced ev w'"
      using close_block [OF bal p3, of u "solid_record h b" "pb_entries b" w'] u(2,4) w'(2) sizes agree partialD(1) [OF part] by simp
    with w'(1) show ?thesis by simp
  qed
qed


section \<open>One push\<close>

text \<open>
  A push of one block ends in the next state the records describe, or has only added output and pack
  streams to the one before.
\<close>

definition single :: "env \<Rightarrow> writer \<Rightarrow> unit result \<Rightarrow> writer \<Rightarrow> bool" where
  "single ev w r w' \<longleftrightarrow> (r = Inr () \<longrightarrow> balanced ev w' \<and> wr_content_methods w' = wr_content_methods w) \<and> (r \<noteq> Inr () \<longrightarrow> partial w w')"

lemma add_unstreamed_single:
  assumes "balanced ev w" "add_files [unstreamed e] w = (r, w')"
  shows "single ev w r w' \<and> r = Inr () \<and> wr_unpack_info w' = wr_unpack_info w"
  using assms
  by (auto simp: single_def add_files_def balanced_def counted_def descriptors_ok_def Let_def unstreamed_def split: option.splits)

lemma entry_stored:
  assumes bal: "balanced ev w" and arc: "arc_ok ev w arc" "bcj2_last (snd arc)" and fresh: "fresh \<notin> set (fst arc # live_arcs w)"
    and coded: "encode_entry_input (ev_lib ev) fresh ivs send arc e s = (out, x)"
    and run: "bindW (write_out msg out) (\<lambda>_ w. case x of Inl e \<Rightarrow> (Inl e, w) | Inr f \<Rightarrow> record_folder ev f w) w = (r, w')"
    and fit: "fits w'"
  shows "single ev w r w' \<and> (r = Inr () \<longrightarrow> arc_ok ev w' arc)"
  using run
proof (cases rule: bindW_cases)
  case stop
  then show ?thesis using write_out_partial [OF stop(1)] by (auto simp: single_def)
next
  case (go y w1)
  then have out: "write_out msg out w = (Inr (), w1)" by simp
  show ?thesis
  proof (cases x)
    case (Inl err)
    with go(2) write_out_put [OF out] show ?thesis by (auto simp: single_def put_def)
  next
    case (Inr f)
    with coded have coded: "encode_entry_input (ev_lib ev) fresh ivs send arc e s = (out, Inr f)" by simp
    obtain bs where made: "folder_made (ev_lib ev) bs out f" using encode_entry_made(4) [OF coded] by blast
    obtain sz where sz: "folder_arc fresh ivs arc sz = Inr (ef_methods f)" using encode_entry_made(2) [OF coded] by blast
    have rec: "record_folder ev f w1 = (r, w')" using go(2) Inr by simp
    note st = folder_stored [OF bal out rec fit made folder_arc_ok [OF sz arc(1) fresh] encode_entry_built [OF coded arc(2)]]
    have "arc_ok ev w' arc" if "r = Inr ()"
      using st(1) [OF that] arc(1) folder_arc_methods(2) [OF sz] fresh by (auto simp: arc_ok_def)
    with st show ?thesis by (auto simp: single_def)
  qed
qed

lemma fresh_arc_new: "fresh_ok ev \<Longrightarrow> fresh_arc ev w \<notin> set (fst (wr_content_methods w) # live_arcs w)"
proof -
  assume "fresh_ok ev"
  then have "fresh_arc ev w \<notin> set (live_arcs w)" by (simp add: fresh_arc_def fresh_ok_def)
  then show ?thesis by (simp add: live_arcs_def)
qed

lemma push_entry_single:
  assumes bal: "balanced ev w" "fresh_ok ev" and run: "push_entry_input ev ivs send entry reader w = (r, w')" and fit: "fits w'"
  shows "single ev w r w'"
proof (cases "\<not> ae_is_directory entry \<and> reader \<noteq> None")
  case True
  then obtain s where s: "reader = Some s" "\<not> ae_is_directory entry" by auto
  obtain out x where x: "encode_entry_input (ev_lib ev) (fresh_arc ev w) ivs send (wr_content_methods w) entry s = (out, x)" by fastforce
  from fresh_arc_new [OF bal(2), of w] entry_stored [OF bal(1) content_arc_ok [OF bal(1)] _ _ x, of "''Encode entry:''" r w'] fit run s x bal(1) show ?thesis
    by (simp add: push_entry_input_def balanced_def)
next
  case False
  with run have "add_files [unstreamed entry] w = (r, w')" by (auto simp: push_entry_input_def split: bool.splits option.splits)
  from add_unstreamed_single [OF bal(1) this] show ?thesis by blast
qed

lemma solid_pushed:
  assumes bal: "balanced ev w" and run: "bindW (write_out msg (pb_compressed b)) (\<lambda>_. store_solid ev b) w = (r, w')" and fit: "fits w'"
    and made: "solid_made (ev_lib ev) es ss b" "length es = length ss" "length (concat (map (fst \<circ> source_content) ss)) < 2 ^ 64"
    and arc: "arc_ok ev w (pb_methods b)" and built: "bcj2_built (snd (pb_methods b))"
  shows "single ev w r w'"
  using run
proof (cases rule: bindW_cases)
  case stop
  then show ?thesis using write_out_partial [OF stop(1)] by (auto simp: single_def)
next
  case (go y w1)
  then have out: "write_out msg (pb_compressed b) w = (Inr (), w1)" by simp
  have bm: "block_made (ev_lib ev) (concat (map (fst \<circ> source_content) ss)) (pb_compressed b) b"
    using made(1) by (simp add: solid_made_def Let_def)
  have "wr_content_methods w' = wr_content_methods w1"
    using go(2) write_bcj2_tail_put
    by (auto simp: store_solid_def add_unpack_def add_files_def add_pack_def elim!: bindW_cases dest!: write_bcj2_tail_put partialD(3) split: sum.splits)
  with solid_stored [OF bal out go(2) fit bm solid_streams_counted [OF made] arc built] write_out_put [OF out] show ?thesis
    by (auto simp: single_def put_def partialD)
qed


text \<open>Sources whose bytes a reader gets whole, and a \<^verbatim>\<open>u64\<close> can count.\<close>

definition sources_ok :: "source list \<Rightarrow> bool" where
  "sources_ok ss \<longleftrightarrow> uninterrupted (Solid (seq_reader_new (map source_reader_new ss)))
     \<and> length (concat (map (fst \<circ> source_content) ss)) < 2 ^ 64"

lemma push_entries_single:
  assumes bal: "balanced ev w" "fresh_ok ev" and src: "sources_ok ss"
    and run: "push_entries_input ev ivs send es (map source_reader_new ss) w = (r, w')" and fit: "fits w'"
  shows "single ev w r w'"
proof -
  obtain out x where x: "encode_entries (ev_lib ev) (fresh_arc ev w) ivs send (wr_content_methods w) es (map source_reader_new ss) = (out, x)"
    by fastforce
  show ?thesis
  proof (cases x)
    case (Inl e)
    have "bindW (write_out ''Encode entries:'' out) (\<lambda>_ w. (Inl e, w)) w = (r, w')"
      using run x Inl by (simp add: push_entries_input_def)
    then show ?thesis by (cases rule: bindW_cases) (auto simp: single_def dest!: write_out_partial)
  next
    case (Inr b)
    with x have coded: "encode_entries (ev_lib ev) (fresh_arc ev w) ivs send (wr_content_methods w) es (map source_reader_new ss) = (out, Inr b)"
      by simp
    note made = encode_entries_made [OF coded src [unfolded sources_ok_def, THEN conjunct1]]
    then obtain sz where sz: "folder_arc (fresh_arc ev w) ivs (wr_content_methods w) sz = Inr (pb_methods b)" by blast
    have last: "bcj2_last (snd (wr_content_methods w))" using bal(1) by (simp add: balanced_def)
    have "bindW (write_out ''Encode entries:'' (pb_compressed b)) (\<lambda>_. store_solid ev b) w = (r, w')"
      using run x Inr made by (simp add: push_entries_input_def store_solid_def tail_streams_def)
    from solid_pushed [OF bal(1) this fit made [THEN conjunct1] _ _ folder_arc_ok [OF sz content_arc_ok [OF bal(1)]]] made src
      fresh_arc_new [OF bal(2), of w] encode_entries_built [OF coded last]
    show ?thesis by (simp add: sources_ok_def)
  qed
qed

text \<open>A block prepared elsewhere with methods this writer does not know by another address.\<close>

lemma push_prepared_single:
  assumes bal: "balanced ev w" and made: "prepare_block (ev_lib ev) fresh ivs arc es (map source_reader_new ss) = Inr b" "sources_ok ss"
    and arc: "arc_ok ev w (pb_methods b)"
    and run: "push_prepared ev b w = (r, w')" and fit: "fits w'"
  shows "single ev w r w'"
proof (cases "pb_entries b = []")
  case True
  with run bal show ?thesis by (auto simp: push_prepared_def single_def)
next
  case False
  note m = prepare_block_made [OF made(1) made(2) [unfolded sources_ok_def, THEN conjunct1]]
  have "bindW (write_out ''push_prepared_block: write'' (pb_compressed b)) (\<lambda>_. store_solid ev b) w = (r, w')"
    using run False by (simp add: push_prepared_def store_solid_def tail_streams_def)
  from solid_pushed [OF bal this fit m [THEN conjunct1] _ _ arc prepare_block_built [OF made(1)]] m made(2) show ?thesis
    by (simp add: sources_ok_def)
qed

text \<open>A block that may be copied: one a reader accepted, with as many bytes as its sub-streams.\<close>

definition copyable :: "archive \<Rightarrow> nat \<Rightarrow> bool" where
  "copyable a i \<longleftrightarrow> (\<forall>b subs es packs rename. raw_checked a i rename = Inr (b, subs, es, packs) \<longrightarrow>
     (\<exists>bnd. block_ok bnd b) \<and> block_sized b \<and> num_unpack_sub_streams b < 2 ^ 64
     \<and> (\<exists>n. get_unpack_size b = Inr n \<and> (1 < num_unpack_sub_streams b \<longrightarrow> sum_list (map (unat \<circ> fst) subs) = unat n)))"

lemma raw_sub_streams_length: "raw_sub_streams a b is = Inr xs \<Longrightarrow> length xs = length is"
  by (induction "is" arbitrary: xs) (auto simp: bindE_Inr_iff)

lemma raw_pack_streams_length: "raw_pack_streams a is = Inr xs \<Longrightarrow> length xs = length is"
  by (induction "is" arbitrary: xs) (auto simp: bindE_Inr_iff split: option.splits)

lemma raw_checked_counts:
  assumes "raw_checked a i rename = Inr (b, subs, es, packs)"
  shows "length subs = num_unpack_sub_streams b" "length es = num_unpack_sub_streams b" "length packs = length (packed_streams b)"
    "\<forall>e \<in> set es. \<exists>e'. ae_has_stream e' \<and> e = e'\<lparr>ae_name := rename e'\<rparr>"
  using assms
  by (auto simp: raw_checked_def bindE_Inr_iff Let_def raw_entries_def split: if_splits
      dest!: raw_sub_streams_length raw_pack_streams_length)

lemma descriptors_raw:
  "descriptors_ok ev (w\<lparr>wr_unpack_info := ui_add_raw b ss cs (wr_unpack_info w)\<rparr>) = descriptors_ok ev w"
  by (simp add: descriptors_ok_def ui_add_raw_def Let_def split: option.splits)

lemma push_raw_single:
  assumes bal: "balanced ev w" and copy: "copyable a i"
    and run: "push_raw a i src rename w = (r, w')" and fit: "fits w'"
  shows "single ev w r w'"
proof (cases "raw_checked a i rename")
  case (Inl e)
  with run show ?thesis by (auto simp: push_raw_def single_def)
next
  case (Inr x)
  obtain b subs es packs where x: "x = (b, subs, es, packs)" by (metis prod_cases4)
  note c = raw_checked_counts [OF Inr [unfolded x]]
  from copy Inr x obtain bnd n where ok: "block_ok bnd b" "block_sized b" "num_unpack_sub_streams b < 2 ^ 64" "get_unpack_size b = Inr n"
      "1 < num_unpack_sub_streams b \<longrightarrow> sum_list (map (unat \<circ> fst) subs) = unat n"
    unfolding copyable_def by blast
  have "bindW (copy_streams src packs) (\<lambda>_. bindW (add_unpack (\<lambda>u. Inr (ui_add_raw b (map fst subs) (map snd subs) u))) (\<lambda>_.
      add_files es)) w = (r, w')" using run Inr x by (simp add: push_raw_def)
  then show ?thesis
  proof (cases rule: bindW_cases)
    case stop
    with copy_streams_put show ?thesis by (auto simp: single_def)
  next
    case (go y w1)
    obtain ns where ns: "map of_nat ns = map (fst \<circ> snd) packs" "put (sum_list ns) (map snd packs) w w1"
      using copy_streams_put [OF go(1)] by auto
    let ?bi = "\<lparr>bi_methods = write_raw_block b, bi_sizes = unpack_sizes b, bi_crc = ucast (crc b),
        bi_extra = Some \<lparr>be_num_sub_unpack_streams = of_nat (num_unpack_sub_streams b), be_sub_stream_sizes = map fst subs,
          be_sub_stream_crcs = map snd subs, be_bcj2 = None, be_raw_pack_streams = Some (length (packed_streams b))\<rparr>\<rparr>"
    have part: "partial w w1" using ns(2) by (simp add: put_def)
    have w': "r = Inr ()" "w' = w1\<lparr>wr_unpack_info := ui_add_raw b (map fst subs) (map snd subs) (wr_unpack_info w1), wr_files := wr_files w1 @ es\<rparr>"
      using go(2) by (auto simp: bindW_def add_unpack_def add_files_def)
    have count: "sub_count ?bi = num_unpack_sub_streams b" using ok(3)
      by (simp add: sub_count_def bi_num_sub_unpack_streams_def unat_of_usize usize_max_def)
    have "sub_streams_agree ?bi n" using ok(5) c(1)
      by (simp add: sub_streams_agree_def count) (simp add: bi_sub_stream_sizes_def bi_sub_stream_crcs_def comp_def)
    then have "copied_record b ?bi" using ok count by (auto simp: copied_record_def bi_bcj2_def)
    moreover have "map (unat \<circ> fst) (map snd packs) = map (\<lambda>n. unat (of_nat n :: u64)) ns"
      using arg_cong [OF ns(1), of "map unat"] by (simp add: comp_def)
    then have "sum_list ns = sum_list (map (unat \<circ> fst) (map snd packs))"
      using unat_sizes [of ns] ns(2) fit w'(2) by (simp add: put_def fits_def)
    moreover have "filter ae_has_stream es = es" using c(4) by (intro filter_True) auto
    moreover have "descriptors_ok ev (w1\<lparr>wr_unpack_info := ui_add_raw b (map fst subs) (map snd subs) (wr_unpack_info w1)\<rparr>)"
      using descriptors_partial [OF part, of ev, THEN iffD2] bal by (simp add: balanced_def descriptors_raw)
    moreover have "bi_pack_streams ?bi = length packs" using c(3) by (simp add: bi_pack_streams_def)
    ultimately have "balanced ev w'"
      using close_block [OF bal ns(2), of "ui_add_raw b (map fst subs) (map snd subs) (wr_unpack_info w1)" ?bi es w']
        c(2) count w'(2) partialD(1) [OF part] block_recorded_def [of ev ?bi] by (auto simp: ui_add_raw_def)
    with w' part show ?thesis by (simp add: single_def partialD)
  qed
qed

end
