(* ===== verification/Writer_Histories.thy ===== *)
theory Writer_Histories
  imports Writer_Pushes
begin

text \<open>
  Pushes one after another: the batches of \<^verbatim>\<open>push_archive_entries_non_solid\<close>, what is left of a push that
  failed, and every state a writer can be brought into. What is still usable after a failure is a
  state whose records describe the output again.
\<close>

section \<open>Many pushes in one call\<close>

definition settles :: "env \<Rightarrow> writer \<Rightarrow> unit result \<Rightarrow> writer \<Rightarrow> bool" where
  "settles ev w r w' \<longleftrightarrow> (\<exists>w1. balanced ev w1 \<and> wr_content_methods w1 = wr_content_methods w \<and> partial w1 w' \<and> (r = Inr () \<longrightarrow> w' = w1))"

lemma single_settles: "balanced ev w \<Longrightarrow> single ev w r w' \<Longrightarrow> settles ev w r w'"
  unfolding single_def settles_def by (cases "r = Inr ()") auto

lemma settles_trans: "settles ev w (Inr ()) w1 \<Longrightarrow> settles ev w1 r w' \<Longrightarrow> settles ev w r w'"
  by (auto simp: settles_def)

lemma settles_balanced: "settles ev w (Inr ()) w' \<Longrightarrow> balanced ev w' \<and> wr_content_methods w' = wr_content_methods w"
  by (auto simp: settles_def)

lemma monotone_push_each [monotone_steps]:
  "(\<And>x. monotone_step (f x)) \<Longrightarrow> monotone_step (push_each f xs)"
proof (induction xs)
  case Nil
  have "push_each f [] = (\<lambda>w. (Inr (), w))" by (rule ext) simp
  then show ?case by (simp add: monotone_return)
next
  case (Cons x xs)
  have "push_each f (x # xs) = bindW (f x) (\<lambda>_. push_each f xs)" by (rule ext) simp
  with Cons show ?case by (simp add: monotone_bindW)
qed

lemma bind_settles:
  assumes run: "bindW f g w = (r, w')" and fit: "fits w'" and mono: "\<And>x. monotone_step (g x)"
    and f: "\<And>x w1. f w = (x, w1) \<Longrightarrow> fits w1 \<Longrightarrow> settles ev w x w1 \<and> (x = Inr () \<longrightarrow> P w1)"
    and g: "\<And>w1. P w1 \<Longrightarrow> g () w1 = (r, w') \<Longrightarrow> settles ev w1 r w' \<and> (r = Inr () \<longrightarrow> Q w')"
  shows "settles ev w r w' \<and> (r = Inr () \<longrightarrow> Q w')"
  using run
proof (cases rule: bindW_cases)
  case (stop e)
  with f [OF stop(1) fit] show ?thesis by (auto simp: settles_def)
next
  case (go x w1)
  then have w1: "f w = (Inr (), w1)" "g () w1 = (r, w')" by simp_all
  have "fits w1" using grows_fits [OF monotone_stepD [OF mono w1(2)] fit] .
  from f [OF w1(1) this] have s: "settles ev w (Inr ()) w1" "P w1" by simp_all
  from g [OF s(2) w1(2)] settles_trans [OF s(1)] show ?thesis by blast
qed

lemma push_each_settles:
  assumes mono: "\<And>x. monotone_step (f x)" and bal: "\<And>w. P w \<Longrightarrow> balanced ev w"
    and step: "\<And>x w r w'. P w \<Longrightarrow> f x w = (r, w') \<Longrightarrow> fits w' \<Longrightarrow> settles ev w r w' \<and> (r = Inr () \<longrightarrow> P w')"
  shows "push_each f xs w = (r, w') \<Longrightarrow> fits w' \<Longrightarrow> P w \<Longrightarrow> settles ev w r w' \<and> (r = Inr () \<longrightarrow> P w')"
proof (induction xs arbitrary: w)
  case Nil
  then show ?case using bal [of w] by (auto simp: settles_def)
next
  case (Cons x xs)
  from Cons.prems(1) have run: "bindW (f x) (\<lambda>_. push_each f xs) w = (r, w')" by simp
  show ?case
    by (rule bind_settles [OF run Cons.prems(2), of ev P P]) (use step Cons mono in \<open>auto intro: monotone_push_each\<close>)
qed

lemma monotone_push_owned [monotone_steps]: "monotone_step (push_owned ev ivs open x)"
proof -
  obtain i e where x: "x = (i, e)" by fastforce
  show ?thesis
    by (cases "if ae_is_directory e then Inr None else open i e")
       (simp_all add: push_owned_def [abs_def] x monotone_return monotone_push_entry)
qed

lemma push_owned_settles:
  assumes "balanced ev w" "fresh_ok ev" "push_owned ev ivs open x w = (r, w')" "fits w'"
  shows "settles ev w r w'"
proof -
  obtain i e where x: "x = (i, e)" by fastforce
  show ?thesis
  proof (cases "if ae_is_directory e then Inr None else open i e")
    case (Inl err)
    with assms(1,3) x show ?thesis by (auto simp: push_owned_def settles_def)
  next
    case (Inr reader)
    with assms(3) x have "push_entry_input ev (ivs i) False e reader w = (r, w')" by (simp add: push_owned_def)
    from single_settles [OF assms(1) push_entry_single [OF assms(1,2) this assms(4)]] show ?thesis .
  qed
qed


text \<open>A folder coded by a worker, under methods the writer knows by their own address.\<close>

definition coding :: "env \<Rightarrow> arc_methods \<Rightarrow> writer \<Rightarrow> bool" where
  "coding ev arc w \<longleftrightarrow> balanced ev w \<and> arc_ok ev w arc \<and> bcj2_last (snd arc)"

lemma push_unstreamed:
  assumes "balanced ev w" "push_archive_entry ev ivs send entry None w = (r, w')"
  shows "single ev w r w' \<and> r = Inr () \<and> wr_unpack_info w' = wr_unpack_info w"
proof -
  have "check_poisoned w = Inr ()" using assms(1) by (simp add: balanced_def check_poisoned_def)
  then have "add_files [unstreamed entry] w = (r, w')" using assms(2)
    by (cases "ae_is_directory entry") (simp_all add: push_archive_entry_def push_entry_input_def pushed_def add_files_def)
  from add_unstreamed_single [OF assms(1) this] show ?thesis .
qed

lemma push_coded_cases:
  assumes "push_coded ev ivs open arc (i, e) w = (r, w')"
  obtains (dir) "push_archive_entry ev [] False e None w = (r, w')"
  | (failed) err where "r = Inl err" "w' = w"
  | (coded) s out x where "encode_entry_input (ev_lib ev) (ev_fresh ev (fst arc # live_arcs w)) (ivs i) False arc e s = (out, x)"
      "bindW (write_out ''write folder'' out) (\<lambda>_ w. case x of Inl e \<Rightarrow> (Inl e, w) | Inr f \<Rightarrow> record_folder ev f w) w = (r, w')"
proof (cases "open i e")
  case (Inl err)
  with assms dir failed show ?thesis by (auto simp: push_coded_def split: if_splits)
next
  case (Inr o')
  show ?thesis
  proof (cases "ae_is_directory e \<or> o' = None")
    case True
    with assms dir Inr show ?thesis by (auto simp: push_coded_def split: if_splits)
  next
    case False
    then obtain s where s: "o' = Some s" "\<not> ae_is_directory e" by auto
    obtain out x where x: "encode_entry_input (ev_lib ev) (ev_fresh ev (fst arc # live_arcs w)) (ivs i) False arc e s = (out, x)" by fastforce
    with assms s Inr coded [OF x] show ?thesis by (simp add: push_coded_def)
  qed
qed

lemma monotone_push_archive_entry [monotone_steps]: "monotone_step (push_archive_entry ev ivs send entry reader)"
  using monotone_guarded [OF monotone_push_entry, of ev ev ivs send entry reader]
  by (simp add: push_archive_entry_def [abs_def])

lemma monotone_push_coded [monotone_steps]: "monotone_step (push_coded ev ivs open arc x)"
  unfolding monotone_step_def
proof (intro allI impI)
  fix w r w' assume run: "push_coded ev ivs open arc x w = (r, w')"
  obtain i e where x: "x = (i, e)" by fastforce
  from run [unfolded x] show "grows w w'"
  proof (cases rule: push_coded_cases)
    case dir
    then show ?thesis using monotone_push_archive_entry monotone_stepD by blast
  next
    case failed
    then show ?thesis by (simp add: grows_refl)
  next
    case (coded s out y)
    have "monotone_step (bindW (write_out ''write folder'' out) (\<lambda>_ w. case y of Inl e \<Rightarrow> (Inl e, w) | Inr f \<Rightarrow> record_folder ev f w))"
      by (cases y) (auto intro!: monotone_steps)
    from monotone_stepD [OF this coded(2)] show ?thesis .
  qed
qed

lemma push_coded_settles:
  assumes w: "coding ev arc w" and fresh: "fresh_ok ev" and run: "push_coded ev ivs open arc x w = (r, w')" and fit: "fits w'"
  shows "settles ev w r w' \<and> (r = Inr () \<longrightarrow> coding ev arc w')"
proof -
  have bal: "balanced ev w" "arc_ok ev w arc" "bcj2_last (snd arc)" using w by (simp_all add: coding_def)
  obtain i e where x: "x = (i, e)" by fastforce
  from run [unfolded x] have "single ev w r w' \<and> (r = Inr () \<longrightarrow> arc_ok ev w' arc)"
  proof (cases rule: push_coded_cases)
    case dir
    from push_unstreamed [OF bal(1) this] bal(2) show ?thesis by (auto simp: single_def arc_ok_def)
  next
    case failed
    then show ?thesis by (simp add: single_def)
  next
    case (coded s out y)
    have "ev_fresh ev (fst arc # live_arcs w) \<notin> set (fst arc # live_arcs w)" using fresh unfolding fresh_ok_def by blast
    from entry_stored [OF bal this coded fit] show ?thesis .
  qed
  then show ?thesis using single_settles [OF bal(1), of r w'] bal(3) by (auto simp: coding_def single_def)
qed


lemma monotone_parallel [monotone_steps]: "monotone_step (push_non_solid_parallel ev ivs started open run)"
proof -
  have a: "monotone_step (push_each (push_coded ev ivs open arc) run)" for arc by (intro monotone_steps)
  have "monotone_step (push_each (push_owned ev ivs open) run)" by (intro monotone_steps)
  with a show ?thesis by (auto simp: monotone_step_def push_non_solid_parallel_def split: if_splits)
qed

lemma bcj2_last_one_thread: "bcj2_last (one_thread_each ms) = bcj2_last ms"
  by (rule bcj2_last_ids) (simp add: one_thread_each_def comp_def)

lemma owned_each_settles:
  assumes "fresh_ok ev" "push_each (push_owned ev ivs open) xs w = (r, w')" "fits w'" "balanced ev w"
  shows "settles ev w r w' \<and> (r = Inr () \<longrightarrow> balanced ev w')"
  by (rule push_each_settles [where P = "balanced ev", OF _ _ _ assms(2-4)])
     (auto intro: monotone_push_owned push_owned_settles [OF _ assms(1)] dest!: push_owned_settles [OF _ assms(1)] settles_balanced)

lemma parallel_settles:
  assumes bal: "balanced ev w" and fresh: "fresh_ok ev" and run: "push_non_solid_parallel ev ivs started open xs w = (r, w')" and fit: "fits w'"
  shows "settles ev w r w' \<and> (r = Inr () \<longrightarrow> balanced ev w')"
proof (cases started)
  case True
  define arc where "arc = (fresh_arc ev w, one_thread_each (snd (wr_content_methods w)))"
  from run True have each: "push_each (push_coded ev ivs open arc) xs w = (r, w')" by (simp add: push_non_solid_parallel_def arc_def)
  have "fresh_arc ev w \<notin> set (live_arcs w)" using fresh_arc_new [OF fresh, of w] by simp
  then have "arc_ok ev w arc" using bal
    by (auto simp: arc_ok_def arc_def live_arcs_def balanced_def one_thread_each_def split: option.splits)
  then have "coding ev arc w" using bal by (simp add: coding_def arc_def bcj2_last_one_thread balanced_def)
  from push_each_settles [where P = "coding ev arc", OF monotone_push_coded _ push_coded_settles [OF _ fresh] each fit this]
  show ?thesis by (auto simp: coding_def)
next
  case False
  with run have "push_each (push_owned ev ivs open) xs w = (r, w')" by (simp add: push_non_solid_parallel_def)
  from owned_each_settles [OF fresh this fit bal] show ?thesis .
qed

lemma monotone_push_runs [monotone_steps]: "monotone_step (push_runs ev ivs started open eligible xs)"
proof (induction "length xs" arbitrary: xs rule: less_induct)
  case less
  let ?run = "takeWhile (\<lambda>(_, e). eligible e) xs" and ?rest = "dropWhile (\<lambda>(_, e). eligible e) xs"
  let ?f = "if 1 < length ?run then push_non_solid_parallel ev ivs started open ?run else push_each (push_owned ev ivs open) ?run"
  have f: "monotone_step ?f" by (auto intro!: monotone_steps)
  have g: "monotone_step (\<lambda>w. case ?rest of [] \<Rightarrow> (Inr (), w)
      | x # rest' \<Rightarrow> bindW (push_owned ev ivs open x) (\<lambda>_. push_runs ev ivs started open eligible rest') w)"
  proof (cases ?rest)
    case (Cons x rest')
    then have "length rest' < length xs" using length_dropWhile_le [of "\<lambda>(_, e). eligible e" xs] by simp
    with less Cons show ?thesis by (simp add: monotone_steps)
  next
    case Nil
    show ?thesis unfolding Nil list.case by (rule monotone_return)
  qed
  have "push_runs ev ivs started open eligible xs = bindW ?f (\<lambda>_ w. case ?rest of [] \<Rightarrow> (Inr (), w)
      | x # rest' \<Rightarrow> bindW (push_owned ev ivs open x) (\<lambda>_. push_runs ev ivs started open eligible rest') w)"
    by (rule ext) (simp add: push_runs.simps [of ev ivs started "open" eligible xs] Let_def)
  with monotone_bindW [OF f g] show ?case by simp
qed


lemma push_runs_settles:
  assumes fresh: "fresh_ok ev"
  shows "push_runs ev ivs started open eligible xs w = (r, w') \<Longrightarrow> fits w' \<Longrightarrow> balanced ev w \<Longrightarrow>
    settles ev w r w' \<and> (r = Inr () \<longrightarrow> balanced ev w')"
proof (induction "length xs" arbitrary: xs w rule: less_induct)
  case less
  let ?run = "takeWhile (\<lambda>(_, e). eligible e) xs" and ?rest = "dropWhile (\<lambda>(_, e). eligible e) xs"
  let ?f = "if 1 < length ?run then push_non_solid_parallel ev ivs started open ?run else push_each (push_owned ev ivs open) ?run"
  let ?g = "\<lambda>_ :: unit. \<lambda>w. case ?rest of [] \<Rightarrow> (Inr (), w)
      | x # rest' \<Rightarrow> bindW (push_owned ev ivs open x) (\<lambda>_. push_runs ev ivs started open eligible rest') w"
  have run: "bindW ?f ?g w = (r, w')"
    using less.prems(1) by (simp add: push_runs.simps [of ev ivs started "open" eligible xs] Let_def)
  have first: "settles ev w y w1 \<and> (y = Inr () \<longrightarrow> balanced ev w1)" if "?f w = (y, w1)" "fits w1" for y w1
    using that parallel_settles [OF less.prems(3) fresh, of ivs started "open" ?run y w1]
      owned_each_settles [OF fresh, of ivs "open" ?run w y w1] less.prems(3) by (auto split: if_splits)
  show ?case
  proof (cases ?rest)
    case Nil
    show ?thesis
      by (rule bind_settles [OF run [unfolded Nil list.case] less.prems(2) monotone_return first]) (auto simp: settles_def)
  next
    case (Cons x rest')
    then have len: "length rest' < length xs" using length_dropWhile_le [of "\<lambda>(_, e). eligible e" xs] by simp
    have rest: "settles ev w1 r w' \<and> (r = Inr () \<longrightarrow> balanced ev w')"
      if "balanced ev w1" "bindW (push_owned ev ivs open x) (\<lambda>_. push_runs ev ivs started open eligible rest') w1 = (r, w')" for w1
      by (rule bind_settles [OF that(2) less.prems(2) monotone_push_runs, where P = "balanced ev"])
         (use less.hyps [OF len _ less.prems(2)] push_owned_settles [OF that(1) fresh] settles_balanced in blast)+
    show ?thesis
      by (rule bind_settles [OF run [unfolded Cons list.case] less.prems(2) _ first]) (auto intro: monotone_steps rest dest: rest)
  qed
qed

lemma non_solid_settles:
  assumes "balanced ev w" "fresh_ok ev" "push_non_solid ev ivs started open threads es w = (r, w')" "fits w'"
  shows "settles ev w r w'"
  using assms(3) owned_each_settles [OF assms(2) _ assms(4,1)] push_runs_settles [OF assms(2) _ assms(4,1)]
  by (auto simp: push_non_solid_def Let_def split: if_splits)

section \<open>After a failure\<close>

text \<open>What a caller sees of a writer: everything but the outcomes the sink has yet to give.\<close>

definition same_view :: "writer \<Rightarrow> writer \<Rightarrow> bool" where
  "same_view w w' \<longleftrightarrow> w'\<lparr>wr_output := (wr_output w')\<lparr>sk_script := sk_script (wr_output w)\<rparr>\<rparr> = w"

lemma recorded_end:
  assumes "32 + sum_list (map unat ss) = n" "n < 2 ^ 64"
  shows "fold (\<lambda>len e. Option.bind e (\<lambda>e. checked_add e len)) ss (Some (SIGNATURE_HEADER_SIZE + 0)) = Some (of_nat n)"
proof -
  have "unat s + sum_list (map unat ss) < 2 ^ 64 \<Longrightarrow>
      fold (\<lambda>len e. Option.bind e (\<lambda>e. checked_add e len)) ss (Some s) = Some (s + of_nat (sum_list (map unat ss)))" for s :: u64
  proof (induction ss arbitrary: s)
    case (Cons x ss)
    then have "checked_add s x = Some (s + x)" "unat (s + x) = unat s + unat x"
      by (simp_all add: checked_add_def unat_word_ariths)
    with Cons show ?case by (simp add: add.assoc)
  qed simp
  from this [of SIGNATURE_HEADER_SIZE] assms show ?thesis by (auto simp: SIGNATURE_HEADER_SIZE_def)
qed


lemma matching_unchanged:
  assumes bal: "balanced ev w" and part: "partial w w'" and fit: "fits w'" and match: "output_matches_records w' = (True, w'')"
  shows "same_view w w''"
proof -
  let ?p = "wr_pack_info w" and ?p' = "wr_pack_info w'"
  have c: "counted w" using bal by (simp add: balanced_def)
  obtain sizes crcs where s: "length sizes = length crcs" "pi_sizes ?p' = pi_sizes ?p @ sizes" "pi_crcs ?p' = pi_crcs ?p @ crcs"
    using part by (auto simp: partial_def)
  have "pi_len ?p' = ui_pack_streams (wr_unpack_info w')" using match by (auto simp: output_matches_records_def split: if_splits)
  then have "sizes = []" using c s partialD(1) [OF part] by (simp add: counted_def pi_len_def)
  then have p: "?p' = ?p" using s partialD(6) [OF part] by simp
  have pos: "32 + sum_list (map unat (pi_sizes ?p')) = sk_pos (wr_output w)" "pi_pos ?p' = 0"
    using c by (simp_all add: counted_def p)
  have le: "sk_pos (wr_output w) \<le> sk_pos (wr_output w')" "sk_pos (wr_output w') < 2 ^ 64" using part fit by (simp_all add: partial_def fits_def)
  then have "sk_pos (wr_output w) < 2 ^ 64" by linarith
  note rec = recorded_end [OF pos(1) this]
  obtain x out where x: "sink_position (wr_output w') = (x, out)" by fastforce
  note kept = sink_position_kept [OF x]
  have "x = Inr (of_nat (sk_pos (wr_output w)))" "w'' = w'\<lparr>wr_output := out\<rparr>"
    using match x rec pos(2) \<open>pi_len ?p' = _\<close> by (auto simp: output_matches_records_def Let_def split: sum.splits)
  then have "(of_nat (sk_pos (wr_output w)) :: u64) = of_nat (sk_pos (wr_output w'))" using kept by auto
  moreover have small: "n < 2 ^ 64 \<Longrightarrow> unat (of_nat n :: u64) = n" for n by (rule unat_of_usize) (simp add: usize_max_def)
  ultimately have "sk_pos (wr_output w') = sk_pos (wr_output w)"
    using small [OF le(2)] small [OF \<open>sk_pos (wr_output w) < 2 ^ 64\<close>] by metis
  moreover from this have "sk_bytes (wr_output w') = sk_bytes (wr_output w)" using part by (simp add: partial_def)
  ultimately have out: "out\<lparr>sk_script := sk_script (wr_output w)\<rparr> = wr_output w" using kept by simp
  show ?thesis
    using \<open>w'' = _\<close> out p partialD [OF part] by (simp add: same_view_def)
qed

lemma same_view_balanced: "same_view w w' \<Longrightarrow> balanced ev w' = balanced ev w"
proof -
  assume "same_view w w'"
  then obtain s where s: "w'\<lparr>wr_output := (wr_output w')\<lparr>sk_script := s\<rparr>\<rparr> = w" unfolding same_view_def by blast
  have "counted (w'\<lparr>wr_output := (wr_output w')\<lparr>sk_script := s\<rparr>\<rparr>) = counted w'" by (simp add: counted_def)
  moreover have "descriptors_ok ev (w'\<lparr>wr_output := out\<rparr>) = descriptors_ok ev w'" for out
    by (simp add: descriptors_ok_def Let_def split: option.splits)
  ultimately have "balanced ev (w'\<lparr>wr_output := (wr_output w')\<lparr>sk_script := s\<rparr>\<rparr>) = balanced ev w'"
    by (simp add: balanced_def)
  with s show ?thesis by blast
qed

lemma output_matches_kept:
  "output_matches_records w = (b, w') \<Longrightarrow> sk_pos (wr_output w') = sk_pos (wr_output w) \<and> wr_files w' = wr_files w
     \<and> wr_poisoned w' = wr_poisoned w"
  by (auto simp: output_matches_records_def Let_def dest!: sink_position_kept split: if_splits prod.splits)

text \<open>A push that fails poisons the writer, unless it has left it as it was.\<close>

lemma pushed_cases:
  assumes "pushed ev (r1, w1) = (r, w')" "fits w'"
  obtains (all) "r1 = Inr ()" "r = Inr ()" "w' = w1" "fits w1"
  | (kept) e where "r1 = Inl e" "r = Inl e" "output_matches_records w1 = (True, w')" "fits w1"
  | (poisoned) e where "r1 = Inl e" "r = Inl e" "wr_poisoned w' = Some (ev_show ev e)"
proof (cases r1)
  case (Inl e)
  obtain b w2 where b: "output_matches_records w1 = (b, w2)" by fastforce
  show ?thesis
  proof (cases b)
    case True
    with assms b Inl have "r = Inl e" "w' = w2" by (auto simp: pushed_def poison_unless_consistent_def)
    with kept [OF Inl] b True assms(2) output_matches_kept [OF b] show ?thesis by (simp add: fits_def)
  next
    case False
    with assms b Inl have "r = Inl e" "wr_poisoned w' = Some (ev_show ev e)" by (auto simp: pushed_def poison_unless_consistent_def)
    with poisoned [OF Inl] show ?thesis by simp
  qed
next
  case (Inr u)
  with all assms show ?thesis by (simp add: pushed_def)
qed

lemma pushed_settles:
  assumes "\<And>r1 w1. f w = (r1, w1) \<Longrightarrow> fits w1 \<Longrightarrow> settles ev w r1 w1"
    and "pushed ev (f w) = (r, w')" "fits w'" "wr_poisoned w' = None"
  shows "balanced ev w'"
proof -
  obtain r1 w1 where f: "f w = (r1, w1)" by fastforce
  from assms(2) f have p: "pushed ev (r1, w1) = (r, w')" by simp
  from p assms(3) show ?thesis
  proof (cases rule: pushed_cases)
    case all
    with assms(1) [OF f] show ?thesis by (auto simp: settles_def)
  next
    case kept
    from assms(1) [OF f kept(4)] obtain w0 where "balanced ev w0" "partial w0 w1" by (auto simp: settles_def)
    with matching_unchanged [OF this kept(4,3)] same_view_balanced show ?thesis by blast
  qed (use assms(4) in simp)
qed

lemma pushed_single:
  assumes "balanced ev w" "\<And>r1 w1. f w = (r1, w1) \<Longrightarrow> fits w1 \<Longrightarrow> single ev w r1 w1"
    and "pushed ev (f w) = (Inl e, w')" "fits w'"
  shows "same_view w w' \<or> wr_poisoned w' = Some (ev_show ev e)"
proof -
  obtain r1 w1 where f: "f w = (r1, w1)" by fastforce
  from assms(3) f have p: "pushed ev (r1, w1) = (Inl e, w')" by simp
  from p assms(4) show ?thesis
  proof (cases rule: pushed_cases)
    case kept
    from assms(2) [OF f kept(4)] kept(1) have "partial w w1" by (simp add: single_def)
    from matching_unchanged [OF assms(1) this kept(4,3)] show ?thesis ..
  qed simp_all
qed


section \<open>Histories\<close>

text \<open>The ways to push, with all that a caller gives.\<close>

datatype push =
    PushEntry "(error + byte list) list" bool archive_entry "source option"
  | PushSolid "(error + byte list) list" bool "archive_entry list" "source list"
  | PushPrepared prepared_block
  | PushCopy archive nat raw_source "archive_entry \<Rightarrow> ustring"
  | PushBatch "nat \<Rightarrow> (error + byte list) list" bool opener u32 "archive_entry list"

fun do_push :: "env \<Rightarrow> push \<Rightarrow> writer \<Rightarrow> unit result \<times> writer" where
  "do_push ev (PushEntry ivs send e s) = push_archive_entry ev ivs send e s"
| "do_push ev (PushSolid ivs send es ss) = push_archive_entries ev ivs send es (map source_reader_new ss)"
| "do_push ev (PushPrepared b) = push_prepared_block ev b"
| "do_push ev (PushCopy a i src rename) = push_raw_block ev a i src rename"
| "do_push ev (PushBatch ivs started open threads es) = push_archive_entries_non_solid ev ivs started open threads es"

text \<open>
  What the caller answers for: solid blocks come from sources that are read whole; a prepared block
  comes from \<^verbatim>\<open>prepare_block\<close>, with methods of its own or this writer's; a copied block comes from an
  archive that was accepted.
\<close>

fun push_meant :: "env \<Rightarrow> writer \<Rightarrow> push \<Rightarrow> bool" where
  "push_meant ev w (PushSolid ivs send es ss) = sources_ok ss"
| "push_meant ev w (PushPrepared b) = (arc_ok ev w (pb_methods b) \<and> (\<exists>fresh ivs arc es ss. sources_ok ss
     \<and> prepare_block (ev_lib ev) fresh ivs arc es (map source_reader_new ss) = Inr b))"
| "push_meant ev w (PushCopy a i src rename) = copyable a i"
| "push_meant ev w _ = True"

inductive writer_reach :: "env \<Rightarrow> writer \<Rightarrow> bool" for ev where
  new: "writer_new out = Inr w \<Longrightarrow> writer_reach ev w"
| methods: "writer_reach ev w \<Longrightarrow> bcj2_last ms \<Longrightarrow> writer_reach ev (set_content_methods ev ms w)"
| encrypt: "writer_reach ev w \<Longrightarrow> writer_reach ev (set_encrypt_header b w)"
| push: "writer_reach ev w \<Longrightarrow> push_meant ev w p \<Longrightarrow> do_push ev p w = (r, w') \<Longrightarrow> fits w' \<Longrightarrow> writer_reach ev w'"

lemma new_balanced: "writer_new out = Inr w \<Longrightarrow> balanced ev w"
  by (auto simp: writer_new_def sink_seek_def balanced_def counted_def descriptors_ok_def pack_info_default_def unpack_info_default_def
      pi_len_def ui_pack_streams_def SIGNATURE_HEADER_SIZE_def bcj2_last_def split: prod.splits io_step.splits)

lemma set_methods_balanced:
  assumes "balanced ev w" "fresh_ok ev" "bcj2_last ms"
  shows "balanced ev (set_content_methods ev ms w)"
proof (cases "ms = []")
  case False
  let ?w = "w\<lparr>wr_content_methods := (fresh_arc ev w, ms)\<rparr>"
  have "ui_last_source (wr_unpack_info w) \<noteq> Some (fresh_arc ev w)"
    using fresh_arc_new [OF assms(2), of w] by (auto simp: live_arcs_def)
  then have "descriptors_ok ev ?w" using assms(1) by (auto simp: balanced_def descriptors_ok_def Let_def split: option.splits)
  then show ?thesis using assms False by (simp add: set_content_methods_def balanced_def counted_def)
qed (simp add: set_content_methods_def assms(1))

lemma set_encrypt_balanced: "balanced ev (set_encrypt_header b w) = balanced ev w"
proof -
  have "descriptors_ok ev (set_encrypt_header b w) = descriptors_ok ev w"
    by (simp add: set_encrypt_header_def descriptors_ok_def Let_def split: option.splits)
  then show ?thesis by (simp add: balanced_def set_encrypt_header_def counted_def)
qed

text \<open>The push behind the check for poison and the check of its outcome.\<close>

fun try_push :: "env \<Rightarrow> push \<Rightarrow> writer \<Rightarrow> unit result \<times> writer" where
  "try_push ev (PushEntry ivs send e s) = push_entry_input ev ivs send e s"
| "try_push ev (PushSolid ivs send es ss) = push_entries_input ev ivs send es (map source_reader_new ss)"
| "try_push ev (PushPrepared b) = push_prepared ev b"
| "try_push ev (PushCopy a i src rename) = push_raw a i src rename"
| "try_push ev (PushBatch ivs started open threads es) = push_non_solid ev ivs started open threads es"

lemma do_push_guarded:
  "do_push ev p w = (case check_poisoned w of Inl e \<Rightarrow> (Inl e, w) | Inr _ \<Rightarrow> pushed ev (try_push ev p w))"
  by (cases p) (simp_all add: push_archive_entry_def push_archive_entries_def push_prepared_block_def push_raw_block_def
      push_archive_entries_non_solid_def split: sum.split)

definition one_block :: "push \<Rightarrow> bool" where
  "one_block p = (case p of PushBatch _ _ _ _ _ \<Rightarrow> False | _ \<Rightarrow> True)"

lemma try_push_single:
  assumes "balanced ev w" "fresh_ok ev" "push_meant ev w p" "one_block p" "try_push ev p w = (r, w')" "fits w'"
  shows "single ev w r w'"
proof (cases p)
  case (PushEntry ivs send e s)
  with assms show ?thesis by (auto intro: push_entry_single)
next
  case (PushSolid ivs send es ss)
  with assms show ?thesis by (auto intro: push_entries_single)
next
  case (PushPrepared b)
  with assms show ?thesis by (auto intro: push_prepared_single)
next
  case (PushCopy a i src rename)
  with assms show ?thesis by (auto intro: push_raw_single)
qed (use assms(4) in \<open>simp add: one_block_def\<close>)

lemma try_push_settles:
  assumes "balanced ev w" "fresh_ok ev" "push_meant ev w p" "try_push ev p w = (r, w')" "fits w'"
  shows "settles ev w r w'"
proof (cases "one_block p")
  case True
  from single_settles [OF assms(1) try_push_single [OF assms(1-3) True assms(4,5)]] show ?thesis .
next
  case False
  with assms show ?thesis by (cases p) (auto simp: one_block_def intro: non_solid_settles)
qed

text \<open>Whatever was pushed, the records of a writer that is not poisoned describe its output.\<close>

lemma reach_balanced:
  assumes "fresh_ok ev"
  shows "writer_reach ev w \<Longrightarrow> wr_poisoned w = None \<Longrightarrow> balanced ev w"
proof (induction rule: writer_reach.induct)
  case (new out w)
  then show ?case by (simp add: new_balanced)
next
  case (methods w ms)
  then have "balanced ev w" by (simp add: set_content_methods_def split: if_splits)
  from set_methods_balanced [OF this assms methods.hyps(2)] show ?case .
next
  case (encrypt w b)
  then show ?case by (simp add: set_encrypt_balanced) (simp add: set_encrypt_header_def)
next
  case (push w p r w')
  show ?case
  proof (cases "wr_poisoned w")
    case None
    from push.hyps(3) None have run: "pushed ev (try_push ev p w) = (r, w')" by (simp add: do_push_guarded check_poisoned_def)
    from pushed_settles [where f = "try_push ev p", OF try_push_settles [OF push.IH [OF None] assms push.hyps(2)] run push.hyps(4) push.prems]
    show ?thesis .
  next
    case (Some c)
    with push.hyps(3) push.prems show ?thesis by (auto simp: do_push_guarded check_poisoned_def)
  qed
qed

text \<open>A push of one block that fails changes nothing a caller sees, or poisons the writer.\<close>

lemma failed_push:
  assumes "fresh_ok ev" "writer_reach ev w" "wr_poisoned w = None" "push_meant ev w p" "one_block p"
    and "do_push ev p w = (Inl e, w')" "fits w'"
  shows "same_view w w' \<or> wr_poisoned w' = Some (ev_show ev e)"
proof -
  note bal = reach_balanced [OF assms(1-3)]
  from assms(3,6) have "pushed ev (try_push ev p w) = (Inl e, w')" by (simp add: do_push_guarded check_poisoned_def)
  from pushed_single [where f = "try_push ev p", OF bal try_push_single [OF bal assms(1,4,5)] this assms(7)] show ?thesis .
qed

end
