(* ===== verification/Stream_Map_Total.thy ===== *)
theory Stream_Map_Total
  imports Archive_Reader
begin

text \<open>
  When the stream map can be calculated: a sub-stream for every entry with data and an entry for
  every sub-stream, a size for every pack stream, and sums a \<^verbatim>\<open>u64\<close> can hold. The headers of the writer
  are of this kind.
\<close>

section \<open>Pack streams\<close>

lemma block_pack_indices_total:
  "k + sum_list (map (\<lambda>b. length (packed_streams b)) bl) \<le> n \<Longrightarrow> n \<le> usize_max \<Longrightarrow> \<exists>r. block_pack_indices n k bl = Inr r"
proof (induction bl arbitrary: k)
  case (Cons b bl)
  from Cons.IH [of "k + length (packed_streams b)"] Cons.prems obtain r
    where "block_pack_indices n (k + length (packed_streams b)) bl = Inr r" by (auto simp: add.assoc)
  with Cons.prems show ?case by (simp add: Let_def)
qed simp

lemma pack_offsets_total:
  "unat k + sum_list (map unat ss) < 2 ^ 64 \<Longrightarrow> \<exists>r. pack_offsets k ss = Inr r"
proof (induction ss arbitrary: k)
  case (Cons s ss)
  then have k': "checked_add k s = Some (k + s)" by (simp add: checked_add_def)
  from Cons.IH [of "k + s"] Cons.prems checked_add_unat [OF k'] obtain r where "pack_offsets (k + s) ss = Inr r" by auto
  with k' show ?case by simp
qed simp

lemma sum_take_drop: "sum_list (map unat (take n (drop k ss))) \<le> sum_list (map unat ss)"
proof -
  have "sum_list (map unat ss) = sum_list (map unat (take k ss)) + sum_list (map unat (drop k ss))"
    by (metis append_take_drop_id map_append sum_list_append)
  moreover have "sum_list (map unat (drop k ss)) = sum_list (map unat (take n (drop k ss))) + sum_list (map unat (drop n (drop k ss)))"
    by (metis append_take_drop_id map_append sum_list_append)
  ultimately show ?thesis by linarith
qed

section \<open>Files\<close>

text \<open>What the map needs of an archive.\<close>

definition map_fits :: "archive \<Rightarrow> bool" where
  "map_fits a \<longleftrightarrow> sum_list (map (\<lambda>b. length (packed_streams b)) (ar_blocks a)) \<le> length (ar_pack_sizes a)
     \<and> length (ar_pack_sizes a) \<le> usize_max \<and> length (ar_files a) \<le> usize_max
     \<and> sum_list (map unat (ar_pack_sizes a)) < 2 ^ 64
     \<and> length (filter ae_has_stream (ar_files a)) = sum_list (map num_unpack_sub_streams (ar_blocks a))"

lemma block_pack_size_total:
  assumes "map_fits a" "nb < length (ar_blocks a)" "block_pack_indices (length (ar_pack_sizes a)) 0 (ar_blocks a) = Inr pf"
  shows "\<exists>sz. block_pack_size a pf nb = Inr sz"
proof -
  let ?bl = "ar_blocks a" and ?n = "length (packed_streams (ar_blocks a ! nb))"
  let ?k = "sum_list (map (\<lambda>b. length (packed_streams b)) (take nb ?bl))"
  note pf = block_pack_indices_spec [OF assms(3)]
  have k: "vec_get pf nb = Inr ?k" "vec_get ?bl nb = Inr (?bl ! nb)" using pf assms(2) by simp_all
  have "?k + ?n = sum_list (map (\<lambda>b. length (packed_streams b)) (take (Suc nb) ?bl))"
    using assms(2) by (simp add: take_Suc_conv_app_nth)
  also have "\<dots> \<le> sum_list (map (\<lambda>b. length (packed_streams b)) ?bl)"
    by (metis append_take_drop_id le_add1 map_append sum_list_append)
  finally have e: "?k + ?n \<le> length (ar_pack_sizes a)" "?k + ?n \<le> usize_max" using assms(1) by (auto simp: map_fits_def)
  have "checked_sum 0 (take ?n (drop ?k (ar_pack_sizes a))) \<noteq> None"
    using checked_sum_None [of 0 "take ?n (drop ?k (ar_pack_sizes a))"] sum_take_drop [of ?n ?k "ar_pack_sizes a"] assms(1)
    by (auto simp: map_fits_def)
  with k e show ?thesis by (auto simp: block_pack_size_def Let_def)
qed

lemma rank_below:
  assumes "i < length files" "ae_has_stream (files ! i)"
  shows "stream_rank files i < length (filter ae_has_stream files)"
proof -
  have "files = take i files @ files ! i # drop (Suc i) files" using assms(1) by (rule id_take_nth_drop)
  then have "length (filter ae_has_stream files) = stream_rank files i + 1 + length (filter ae_has_stream (drop (Suc i) files))"
    unfolding stream_rank_def using assms(2)
    by (metis (no_types, lifting) add.assoc filter.simps(2) filter_append length_Cons length_append plus_1_eq_Suc)
  then show ?thesis by simp
qed

lemma file_step_total:
  assumes fit: "map_fits a" and inv: "fm_inv (ar_blocks a) (ar_files a) i st" and i: "i < length (ar_files a)"
    and pf: "block_pack_indices (length (ar_pack_sizes a)) 0 (ar_blocks a) = Inr pf"
  shows "\<exists>st'. file_step a pf i st = Inr st'"
proof -
  let ?bl = "ar_blocks a" and ?files = "ar_files a"
  have fl: "map (ae_compressed_size_update (\<lambda>_. 0)) (fm_files st) = map (ae_compressed_size_update (\<lambda>_. 0)) ?files"
    using inv by (simp add: fm_inv_def)
  note hs = same_stream_flags [OF fl i]
  then have f: "vec_get (fm_files st) i = Inr (fm_files st ! i)" using i by simp
  show ?thesis
  proof (cases "\<not> ae_has_stream (?files ! i) \<and> fm_stream st = 0")
    case True
    with f hs show ?thesis by (simp add: file_step_def)
  next
    case False
    obtain first nb where sel: "(first, nb) = (if fm_stream st = 0
        then pass_blocks ?bl i (fm_first_file st) (fm_block st) else (fm_first_file st, fm_block st))" by (metis surj_pair)
    have few: "\<not> (fm_stream st = 0 \<and> length ?bl \<le> nb)"
    proof
      assume z: "fm_stream st = 0 \<and> length ?bl \<le> nb"
      then have "pass_blocks ?bl i (fm_first_file st) (fm_block st) = (first, nb)" using sel by simp
      from pass_blocks_spec [OF this] inv z have p: "fm_block st \<le> nb" "nb = length ?bl"
        "\<forall>j. fm_block st \<le> j \<and> j < nb \<longrightarrow> num_unpack_sub_streams (?bl ! j) = 0" by (auto simp: fm_inv_def)
      have "sub_offset ?bl (length ?bl) = sub_offset ?bl (fm_block st)" using sub_offset_const [OF p(3,1)] p(2) by simp
      moreover have "stream_rank ?files i = sub_offset ?bl (fm_block st)" using inv z by (simp add: fm_inv_def)
      moreover have "stream_rank ?files i < sub_offset ?bl (length ?bl)"
        using rank_below [OF i] False z fit by (simp add: map_fits_def sub_offset_def)
      ultimately show False by simp
    qed
    note op = fm_open_step [OF inv i sel few]
    then have nb: "nb < length ?bl" "length first = length ?bl" by (simp_all add: fm_open_def)
    obtain sz where sz: "block_pack_size a pf nb = Inr sz" using block_pack_size_total [OF fit nb(1) pf] by blast
    have "\<exists>st'. place_file a pf i fe (st\<lparr>fm_first_file := first, fm_block := nb, fm_file_block := blk\<rparr>) = Inr st'" for fe blk
      using nb sz by (auto simp: place_file_def)
    then show ?thesis using f few by (auto simp: file_step_def Let_def sel [symmetric])
  qed
qed

text \<open>No block starts after the last file.\<close>

lemma file_step_first:
  assumes inv: "fm_inv (ar_blocks a) files i st" and i: "i < length files" and step: "file_step a pf i st = Inr st'"
    and le: "\<forall>b < length (ar_blocks a). fm_first_file st ! b \<le> i"
  shows "\<forall>b < length (ar_blocks a). fm_first_file st' ! b \<le> Suc i"
proof -
  let ?bl = "ar_blocks a"
  obtain first nb where sel: "(first, nb) = (if fm_stream st = 0
      then pass_blocks ?bl i (fm_first_file st) (fm_block st) else (fm_first_file st, fm_block st))" by (metis surj_pair)
  have "first ! b \<le> i" if "b < length ?bl" for b
    using sel pass_blocks_spec [of ?bl i "fm_first_file st" "fm_block st" first nb] inv le that
    by (auto simp: fm_inv_def split: if_splits)
  moreover have "fm_first_file st' = fm_first_file st \<or> fm_first_file st' = first"
  proof (cases "fm_stream st = 0")
    case True
    then have "pass_blocks ?bl i (fm_first_file st) (fm_block st) = (first, nb)" using sel by simp
    with step True show ?thesis by (auto simp: file_step_def Let_def bindE_Inr_iff split: if_splits dest!: place_file_spec)
  next
    case False
    with step sel show ?thesis by (auto simp: file_step_def Let_def bindE_Inr_iff split: if_splits dest!: place_file_spec)
  qed
  ultimately show ?thesis using le by fastforce
qed

lemma file_loop_total:
  assumes fit: "map_fits a" and pf: "block_pack_indices (length (ar_pack_sizes a)) 0 (ar_blocks a) = Inr pf"
    and "fm_inv (ar_blocks a) (ar_files a) i st" "i \<le> length (ar_files a)" "\<forall>b < length (ar_blocks a). fm_first_file st ! b \<le> i"
  shows "\<exists>st'. foldE (file_step a pf) [i..<length (ar_files a)] st = Inr st'
    \<and> (\<forall>b < length (ar_blocks a). fm_first_file st' ! b \<le> length (ar_files a))"
  using assms(3-)
proof (induction "length (ar_files a) - i" arbitrary: i st)
  case 0
  then show ?case by simp
next
  case (Suc k)
  then have i: "i < length (ar_files a)" by simp
  obtain st1 where st1: "file_step a pf i st = Inr st1" using file_step_total [OF fit Suc.prems(1) i pf] by blast
  from Suc.hyps(1) [of "Suc i" st1] Suc.hyps(2) i file_step_inv [OF Suc.prems(1) i st1]
    file_step_first [OF Suc.prems(1) i st1 Suc.prems(3)] st1
  show ?case by (auto simp: upt_conv_Cons)
qed

section \<open>The whole map\<close>

lemma check_spans_total:
  "length xs = length bl \<Longrightarrow> n \<le> usize_max \<Longrightarrow> \<forall>b < length bl. xs ! b + num_unpack_sub_streams (bl ! b) \<le> n \<Longrightarrow>
     check_spans n (zip xs bl) = Inr ()"
proof (induction xs bl rule: list_induct2)
  case (Cons x xs b bl)
  from Cons.prems(2) have "x + num_unpack_sub_streams b \<le> n" "\<forall>c < length bl. xs ! c + num_unpack_sub_streams (bl ! c) \<le> n"
    by (auto dest: spec [of _ 0] spec [of _ "Suc _"])
  with Cons show ?case by (simp add: Let_def)
qed simp

lemma rank_le_rest: "j \<le> length files \<Longrightarrow> length (filter ae_has_stream files) \<le> stream_rank files j + (length files - j)"
proof -
  assume "j \<le> length files"
  have "length (filter ae_has_stream files) = stream_rank files j + length (filter ae_has_stream (drop j files))"
    unfolding stream_rank_def by (metis append_take_drop_id filter_append length_append)
  then show ?thesis using length_filter_le [of ae_has_stream "drop j files"] by simp
qed

lemma calculate_total:
  assumes fit: "map_fits a"
  shows "\<exists>a'. calculate_stream_map a = Inr a'"
proof -
  let ?bl = "ar_blocks a" and ?files = "ar_files a"
  obtain pf where pf: "block_pack_indices (length (ar_pack_sizes a)) 0 ?bl = Inr pf"
    using block_pack_indices_total [of 0 ?bl "length (ar_pack_sizes a)"] fit by (auto simp: map_fits_def)
  have total: "sum_list (map num_unpack_sub_streams ?bl) \<le> length ?files"
    using fit length_filter_le [of ae_has_stream ?files] by (simp add: map_fits_def)
  obtain sub where sub: "from_counts (map num_unpack_sub_streams ?bl) = Inr sub"
    using from_counts_total [of "map num_unpack_sub_streams ?bl"] total fit by (auto simp: map_fits_def)
  obtain offs where offs: "pack_offsets 0 (ar_pack_sizes a) = Inr offs"
    using pack_offsets_total [of 0 "ar_pack_sizes a"] fit by (auto simp: map_fits_def)
  let ?st0 = "\<lparr>fm_first_file = replicate (length ?bl) 0, fm_file_block = replicate (length ?files) None,
      fm_files = ?files, fm_block = 0, fm_stream = 0\<rparr>"
  obtain st where st: "foldE (file_step a pf) [0..<length ?files] ?st0 = Inr st"
      and le: "\<forall>b < length ?bl. fm_first_file st ! b \<le> length ?files"
    using file_loop_total [OF fit pf fm_inv_start] by auto
  note inv = file_loop_inv [OF st fm_inv_start, simplified]
  let ?u = "fm_block st + (if fm_stream st \<noteq> 0 then 1 else 0)"
  let ?first = "mark_unreached ?u (length ?files) (fm_first_file st)"
  have lens: "length (fm_first_file st) = length ?bl" "?u \<le> length ?bl" using inv by (auto simp: fm_inv_def)
  have span: "?first ! b + num_unpack_sub_streams (?bl ! b) \<le> length ?files" if b: "b < length ?bl" for b
  proof (cases "num_unpack_sub_streams (?bl ! b) = 0")
    case True
    then show ?thesis using b le lens by (auto simp: mark_unreached_def nth_append)
  next
    case False
    have all: "sub_offset ?bl (length ?bl) = stream_rank ?files (length ?files)"
      using fit by (simp add: map_fits_def sub_offset_def stream_rank_def)
    have upto: "sub_offset ?bl b + num_unpack_sub_streams (?bl ! b) \<le> sub_offset ?bl (length ?bl)"
      using sub_offset_mono [of "Suc b" "length ?bl" ?bl] b by (simp add: sub_offset_Suc)
    with False all have "sub_offset ?bl b < stream_rank ?files (length ?files)" by linarith
    note r = reached_blocks [OF inv b this]
    then have "?first ! b = fm_first_file st ! b" using lens by (auto simp: mark_unreached_def nth_append)
    moreover have "fm_first_file st ! b < length ?files" "stream_rank ?files (fm_first_file st ! b) = sub_offset ?bl b"
      using inv b r False by (auto simp: fm_inv_def)
    ultimately show ?thesis
      using rank_le_rest [of "fm_first_file st ! b" ?files] upto all by (simp add: stream_rank_def)
  qed
  have "check_spans (length ?files) (zip ?first ?bl) = Inr ()"
    using check_spans_total [of ?first ?bl "length ?files"] span lens fit by (simp add: mark_unreached_def map_fits_def)
  with pf sub offs st show ?thesis by (simp add: calculate_stream_map_def Let_def)
qed

end
