(* ===== verification/Written_Archive.thy ===== *)
theory Written_Archive
  imports Writer_Histories Stream_Map_Total Files_Round_Trip
begin

text \<open>
  From the writer to the reader: the file \<^verbatim>\<open>finish\<close> leaves is opened by \<^verbatim>\<open>read_with_limits\<close>, under limits
  the archive is within, to an archive with the blocks, pack streams and entries that were pushed.
\<close>

section \<open>The blocks a reader gets back\<close>

lemma sized_tables:
  assumes "length (bi_all_sizes bi) = total_output_streams b"
  shows "unpack_sizes (sized_block bi b) = bi_all_sizes bi" "bind_pairs (sized_block bi b) = bind_pairs b"
    "total_output_streams (sized_block bi b) = total_output_streams b"
  using assms prepare_unpack_sizes_len [of b] by (simp_all add: sized_block_def fill_unpack_sizes_sizes)

lemma last_output_size:
  assumes "length (bi_all_sizes bi) = total_output_streams b" "bi_all_sizes bi \<noteq> []"
    and "\<forall>p \<in> set (bind_pairs b). out_index p \<noteq> of_nat (total_output_streams b - 1)"
  shows "get_unpack_size (sized_block bi b) = Inr (last (bi_all_sizes bi))"
proof -
  note t = sized_tables [OF assms(1)]
  obtain n where n: "total_output_streams b = Suc n" using assms(1,2) by (cases "total_output_streams b") auto
  then have "find (\<lambda>bp. out_index bp = of_nat n) (bind_pairs b) = None"
    using assms(3) by (auto simp: find_None_iff)
  then have "last_unbound_output (sized_block bi b) (total_output_streams (sized_block bi b)) = Some n"
    using t n by (simp add: find_bind_pair_for_out_stream_def)
  moreover have "vec_get (bi_all_sizes bi) n = Inr (last (bi_all_sizes bi))"
    using assms(1,2) n by (simp add: vec_get_in_range last_conv_nth)
  ultimately show ?thesis using t by (simp add: get_unpack_size_def)
qed

lemma of_nat_distinct: "i < n \<Longrightarrow> n \<le> 64 \<Longrightarrow> (of_nat i :: u64) \<noteq> of_nat n"
proof
  assume "i < n" "n \<le> 64" "(of_nat i :: u64) = of_nat n"
  moreover have "unat (of_nat m :: u64) = m" if "m \<le> 64" for m using that by (intro unat_of_usize) (simp add: usize_max_def)
  ultimately show False by (metis less_irrefl less_le_trans less_imp_le)
qed

lemma raw_size:
  assumes "bi_all_sizes bi = unpack_sizes b" "length (unpack_sizes b) = total_output_streams b"
    and "bind_pairs b' = bind_pairs b" "total_output_streams b' = total_output_streams b"
  shows "get_unpack_size (sized_block bi b') = get_unpack_size b"
proof -
  have l: "length (bi_all_sizes bi) = total_output_streams b'" using assms by simp
  have "last_unbound_output (sized_block bi b') n = last_unbound_output b n" for n
    by (induction n) (simp_all add: find_bind_pair_for_out_stream_def sized_tables [OF l] assms(3))
  then show ?thesis using assms by (simp add: get_unpack_size_def sized_tables [OF l] split: option.split)
qed

text \<open>What the reader's limits, and the single byte for the length of properties, ask of a recorded block.\<close>

definition methods_allowed :: "header_bounds \<Rightarrow> header_method list \<Rightarrow> bool" where
  "methods_allowed bnd ms \<longleftrightarrow> (\<forall>m \<in> set ms. length (hm_properties m) < 128)
     \<and> folder_allowed bnd (if hm_id (last ms) = ID_BCJ2 then bcj2_specs ms else map method_spec ms)"

definition block_allowed :: "env \<Rightarrow> header_bounds \<Rightarrow> block_info \<Rightarrow> bool" where
  "block_allowed ev bnd bi \<longleftrightarrow>
     (\<forall>ms. coded_record ev ms bi \<longrightarrow> methods_allowed bnd (map (header_method_of (ev_versions ev)) ms))
     \<and> (\<forall>b. copied_record b bi \<longrightarrow> folder_allowed bnd (raw_specs b))"

definition read_back :: "header_bounds \<Rightarrow> block_info \<Rightarrow> block \<Rightarrow> bool" where
  "read_back bnd bi b \<longleftrightarrow> block_written bnd bi b \<and> block_agrees bi b \<and> length (packed_streams b) = bi_pack_streams bi"

lemma hm_id_of [simp]: "hm_id (header_method_of vs mc) = ec_id mc"
  by (simp add: header_method_of_def)

lemma not_has_crc [simp]: "\<not> has_crc (built_block xs bps packed)"
  by (simp add: built_block_def set_streams_def with_coders_def Let_def)

lemma coded_read_back:
  assumes rec: "coded_record ev ms bi" and ok: "methods_allowed bnd (map (header_method_of (ev_versions ev)) ms)"
  shows "\<exists>b. read_back bnd bi b"
proof -
  let ?hs = "map (header_method_of (ev_versions ev)) ms"
  have r: "ms \<noteq> []" "write_folder ?hs = Inr (bi_methods bi)" "length (bi_sizes bi) = length ms"
    "Option.bind (bi_extra bi) be_raw_pack_streams = None" "(bi_bcj2 bi \<noteq> None) = (ec_id (last ms) = ID_BCJ2)"
    "ec_id (last ms) = ID_BCJ2 \<longrightarrow> 2 \<le> length ms" "sub_streams_agree bi (last (bi_sizes bi))"
    using rec by (simp_all add: coded_record_def)
  have last: "hm_id (last ?hs) = ec_id (last ms)" using r(1) by (simp add: last_map)
  have sizes: "bi_sizes bi \<noteq> []" using r(1,3) by auto
  show ?thesis
  proof (cases "ec_id (last ms) = ID_BCJ2")
    case False
    let ?b = "built_block (map method_spec ?hs) (chain_pairs (length ?hs)) [0]"
    have all: "bi_all_sizes bi = bi_sizes bi" using r(5) False by (simp add: bi_all_sizes_def)
    have fa: "folder_allowed bnd (map method_spec ?hs)" "\<forall>m \<in> set ?hs. length (hm_properties m) < 128"
      using ok False last by (simp_all add: methods_allowed_def)
    then have n: "length ms \<le> 64" by (simp add: folder_allowed_def)
    have "decodes (read_block bnd) (bi_methods bi) ?b"
      using chain_decodes [of ?hs bnd "bi_methods bi"] r(1,2) False last fa by simp
    then have w: "block_written bnd bi ?b" using r(3) by (simp add: block_written_def all)
    have "\<forall>p \<in> set (chain_pairs (length ?hs)). out_index p \<noteq> of_nat (length ms - 1)"
    proof
      fix p assume "p \<in> set (chain_pairs (length ?hs))"
      then obtain i where i: "i < length ms - 1" "out_index p = of_nat i" by (auto simp: chain_pairs_def)
      then show "out_index p \<noteq> of_nat (length ms - 1)" using of_nat_distinct [OF i(1)] n by simp
    qed
    then have "get_unpack_size (sized_block bi ?b) = Inr (last (bi_sizes bi))"
      using last_output_size [of bi ?b] r(3) sizes by (simp add: all)
    then have "block_agrees bi ?b" using r(7) by (simp add: block_agrees_def)
    moreover have "bi_pack_streams bi = 1" using r(4,5) False by (simp add: bi_pack_streams_def)
    ultimately show ?thesis using w by (auto simp: read_back_def)
  next
    case True
    let ?k = "length ms - 1"
    let ?b = "built_block (bcj2_specs ?hs) (bcj2_pairs (length ?hs - 1)) (bcj2_packed (length ?hs - 1))"
    have two: "2 \<le> length ms" using r(6) True by simp
    obtain s where s: "bi_bcj2 bi = Some s" using r(5) True by auto
    have all: "bi_all_sizes bi = [bs_jump s, bs_call s] @ bi_sizes bi" using s by (simp add: bi_all_sizes_def)
    have fa: "folder_allowed bnd (bcj2_specs ?hs)" "\<forall>m \<in> set ?hs. length (hm_properties m) < 128"
      using ok True last by (simp_all add: methods_allowed_def)
    have total: "length (bcj2_specs ?hs) = ?k + 3" by (simp add: bcj2_specs_def)
    then have n: "?k + 3 \<le> 64" using fa(1) by (simp add: folder_allowed_def)
    have "\<forall>m \<in> set (butlast ?hs). length (hm_properties m) < 128" using fa(2) by (meson in_set_butlastD)
    then have "decodes (read_block bnd) (bi_methods bi) ?b"
      using bcj2_decodes [of ?hs bnd "bi_methods bi"] r(2) two True last fa(1) by simp
    then have w: "block_written bnd bi ?b" using r(3) two total by (simp add: block_written_def all)
    have "\<forall>p \<in> set (bcj2_pairs ?k). out_index p \<noteq> of_nat (?k + 2)"
    proof
      fix p assume "p \<in> set (bcj2_pairs ?k)"
      then obtain x where x: "x \<in> set ([(?k + 4, 0), (?k + 3, 1), (?k + 2, ?k + 1)] @ map (\<lambda>i. (2 + i, 1 + i)) (rev [1..<?k]))"
          "p = (case x of (i, j) \<Rightarrow> \<lparr>in_index = of_nat i, out_index = of_nat j\<rparr>)" unfolding bcj2_pairs_def set_map by (rule imageE)
      obtain j i where "x = (j, i)" by fastforce
      with x have i: "i < ?k + 2" "out_index p = of_nat i" using two by auto
      then show "out_index p \<noteq> of_nat (?k + 2)" using of_nat_distinct [OF i(1)] n by simp
    qed
    then have "get_unpack_size (sized_block bi ?b) = Inr (last (bi_sizes bi))"
      using last_output_size [of bi ?b] r(3) sizes two total by (simp add: all)
    then have "block_agrees bi ?b" using r(7) by (simp add: block_agrees_def)
    moreover have "bi_pack_streams bi = 4" using r(4) s by (simp add: bi_pack_streams_def)
    ultimately show ?thesis using w by (auto simp: read_back_def bcj2_packed_def)
  qed
qed

lemma copied_read_back:
  assumes rec: "copied_record b bi" and ok: "folder_allowed bnd (raw_specs b)"
  shows "\<exists>b. read_back bnd bi b"
proof -
  obtain bnd' n where r: "block_ok bnd' b" "block_sized b" "bi_methods bi = write_raw_block b" "bi_sizes bi = unpack_sizes b"
    "bi_bcj2 bi = None" "Option.bind (bi_extra bi) be_raw_pack_streams = Some (length (packed_streams b))"
    "get_unpack_size b = Inr n" "sub_streams_agree bi n"
    using rec by (auto simp: copied_record_def)
  note d = raw_block_decodes [OF r(1) ok]
  have all: "bi_all_sizes bi = unpack_sizes b" using r(4,5) by (simp add: bi_all_sizes_def)
  have tot: "total_output_streams (raw_built b) = total_output_streams b"
    using r(1) by (simp add: raw_built_def raw_specs_def block_ok_def)
  have "block_written bnd bi (raw_built b)"
    using d(1) r(2,3) all tot by (simp add: block_written_def block_sized_def) (simp add: raw_built_def)
  moreover have "block_agrees bi (raw_built b)"
    using raw_size [OF all _ d(3) tot] r(2,7,8) by (simp add: block_agrees_def block_sized_def)
  ultimately show ?thesis using d(4) r(6) by (auto simp: read_back_def bi_pack_streams_def)
qed

lemma recorded_read_back:
  assumes "block_recorded ev bi" "block_allowed ev bnd bi"
  shows "\<exists>b. read_back bnd bi b"
  using assms coded_read_back copied_read_back unfolding block_recorded_def block_allowed_def by blast


section \<open>The header\<close>

text \<open>The limits of the reader, on the records of a writer.\<close>

definition within_limits :: "env \<Rightarrow> archive_limits \<Rightarrow> writer \<Rightarrow> bool" where
  "within_limits ev l w =
     (let p = wr_pack_info w; u = wr_unpack_info w; es = wr_files w;
          bnd = \<lparr>hb_bytes = length (tl (write_header p u es)), hb_limits = l\<rparr>
      in (\<forall>bi \<in> set (ui_blocks u). block_allowed ev bnd bi \<and> 0 < bi_pack_streams bi)
         \<and> count_allowed bnd (pi_len p) \<and> count_allowed bnd (length (ui_blocks u)) \<and> count_allowed bnd (length es)
         \<and> count_allowed bnd (sum_list (map sub_count (ui_blocks u))) \<and> names_allowed bnd es
         \<and> (\<forall>bl. list_all2 (read_back bnd) (ui_blocks u) bl \<longrightarrow>
              sum_list (map (\<lambda>b. length (coders b)) bl) \<le> unat (max_total_coders l)))"

lemma list_all2_ex: "\<forall>x \<in> set xs. \<exists>y. P x y \<Longrightarrow> \<exists>ys. list_all2 P xs ys"
proof (induction xs)
  case (Cons x xs)
  then obtain y ys where "P x y" "list_all2 P xs ys" by auto
  then have "list_all2 P (x # xs) (y # ys)" by simp
  then show ?case ..
qed auto

lemma balanced_header_written:
  assumes bal: "balanced ev w" and lim: "within_limits ev l w"
  defines "bnd \<equiv> \<lparr>hb_bytes = length (tl (write_header (wr_pack_info w) (wr_unpack_info w) (wr_files w))), hb_limits = l\<rparr>"
  obtains bl where "header_written bnd (wr_pack_info w) (wr_unpack_info w) bl (wr_files w)"
    "list_all2 (read_back bnd) (ui_blocks (wr_unpack_info w)) bl"
proof -
  let ?p = "wr_pack_info w" and ?u = "wr_unpack_info w"
  have l: "\<forall>bi \<in> set (ui_blocks ?u). block_allowed ev bnd bi \<and> 0 < bi_pack_streams bi"
    "count_allowed bnd (pi_len ?p)" "count_allowed bnd (length (ui_blocks ?u))" "count_allowed bnd (length (wr_files w))"
    "count_allowed bnd (sum_list (map sub_count (ui_blocks ?u)))" "names_allowed bnd (wr_files w)"
    "\<And>bl. list_all2 (read_back bnd) (ui_blocks ?u) bl \<Longrightarrow> sum_list (map (\<lambda>b. length (coders b)) bl) \<le> unat (max_total_coders l)"
    using lim by (simp_all add: within_limits_def Let_def bnd_def)
  have b: "counted w" "\<forall>bi \<in> set (ui_blocks ?u). block_recorded ev bi" using bal by (simp_all add: balanced_def)
  obtain bl where bl: "list_all2 (read_back bnd) (ui_blocks ?u) bl"
    using list_all2_ex [of "ui_blocks ?u" "read_back bnd"] recorded_read_back b(2) l(1) by blast
  have "0 < pi_len ?p" if "ui_blocks ?u \<noteq> []"
  proof -
    obtain bi where "bi \<in> set (ui_blocks ?u)" using \<open>ui_blocks ?u \<noteq> []\<close> by (cases "ui_blocks ?u") auto
    then have "bi_pack_streams bi \<le> ui_pack_streams ?u" "0 < bi_pack_streams bi"
      unfolding ui_pack_streams_def using l(1) by (auto intro: member_le_sum_list)
    then show ?thesis using b(1) by (simp add: counted_def)
  qed
  then have "ui_blocks ?u = [] \<or> 0 < pi_len ?p" by metis
  moreover have "list_all2 (block_written bnd) (ui_blocks ?u) bl" "all_agree (ui_blocks ?u) bl"
    using bl by (auto simp: all_agree_def read_back_def elim: list_all2_mono)
  moreover have "hb_limits bnd = l" by (simp add: bnd_def)
  ultimately have "header_written bnd ?p ?u bl (wr_files w)"
    using l(2-6) l(7) [OF bl] b(1) by (simp add: header_written_def streams_written_def counted_def)
  with bl that show ?thesis by blast
qed

lemma final_block_streams: "packed_streams (final_block bi b) = packed_streams b" "num_unpack_sub_streams (final_block bi b) = sub_count bi"
  by (simp_all add: final_block_def sized_block_def)

lemma stored_streams: "map ae_has_stream (stored_entries info k es) = map ae_has_stream es" "map ae_name (stored_entries info k es) = map ae_name es"
  "length (stored_entries info k es) = length es"
  by (induction es arbitrary: k) (auto simp: kept_props_def entry_default_def)


section \<open>The start of the file\<close>

definition start_fields :: "env \<Rightarrow> u64 \<Rightarrow> byte list \<Rightarrow> byte list" where
  "start_fields ev pos header = write_u64_le (pos - SIGNATURE_HEADER_SIZE) @ write_u64_le (of_nat (length header))
     @ write_u32 (lib_crc32 (ev_lib ev) header)"

lemma start_header_parts:
  "start_header_bytes ev pos header = SEVEN_Z_SIGNATURE @ [0, 4] @ write_u32 (lib_crc32 (ev_lib ev) (start_fields ev pos header))
     @ start_fields ev pos header"
  by (simp add: start_header_bytes_def start_fields_def Let_def)

lemma start_fields_length: "length (start_fields ev pos header) = 20"
  by (simp add: start_fields_def write_u64_le_def write_u32_def)

lemma start_header_length: "length (start_header_bytes ev pos header) = 32"
  by (simp add: start_header_parts start_fields_length write_u32_def SEVEN_Z_SIGNATURE_def)

lemma from_le_bytes_zero: "\<forall>b \<in> set bs. b = 0 \<Longrightarrow> from_le_bytes bs = 0"
  by (induction bs) auto

lemma start_fields_nonzero:
  assumes "(of_nat (length header) :: u64) \<noteq> 0"
  shows "\<exists>b \<in> set (start_fields ev pos header). b \<noteq> 0"
proof (rule ccontr)
  assume "\<not> ?thesis"
  then have "\<forall>b \<in> set (write_u64_le (of_nat (length header))). b = 0" by (auto simp: start_fields_def)
  then have "from_le_bytes (write_u64_le (of_nat (length header))) = 0" by (rule from_le_bytes_zero)
  moreover have "read_u64 (write_u64_le (of_nat (length header)) @ []) = Inr (of_nat (length header), [])"
    by (rule decodesD [OF decodes_u64])
  ultimately show False using assms by (simp add: read_u64_def bindP_def read_exact_def write_u64_le_def returnP_def)
qed

lemma read_start:
  "read_start_header crc32 (crc32 (start_fields ev pos header)) (start_fields ev pos header @ rest)
     = Inr (\<lparr>next_header_offset = pos - SIGNATURE_HEADER_SIZE, next_header_size = of_nat (length header),
             next_header_crc = ucast (lib_crc32 (ev_lib ev) header)\<rparr>, rest)"
proof -
  let ?p = "bindP read_u64 (\<lambda>offset. bindP read_u64 (\<lambda>sz. bindP read_u32 (\<lambda>crc.
      returnP \<lparr>next_header_offset = offset, next_header_size = sz, next_header_crc = ucast crc\<rparr>)))"
  have "decodes ?p (start_fields ev pos header @ []) \<lparr>next_header_offset = pos - SIGNATURE_HEADER_SIZE,
      next_header_size = of_nat (length header), next_header_crc = ucast (lib_crc32 (ev_lib ev) header)\<rparr>"
    unfolding start_fields_def append_assoc
    by (intro decodes_bind [OF decodes_u64] decodes_bind [OF decodes_u32]) (simp add: decodes_def returnP_def)
  from decodesD [OF this, of "[]"] show ?thesis
    by (simp add: read_start_header_def bindP_def read_exact_def start_fields_length liftE_def bindE_def)
qed

text \<open>A file that starts as \<^verbatim>\<open>finish\<close> starts it is opened from the header it names.\<close>

lemma opened_from_start:
  assumes f: "f = start_header_bytes ev pos header @ rest" and n: "(of_nat (length header) :: u64) \<noteq> 0"
  shows "read_with_limits (lib_crc32 (ev_lib ev)) ad f l = init_archive (lib_crc32 (ev_lib ev)) ad f
     \<lparr>next_header_offset = pos - SIGNATURE_HEADER_SIZE, next_header_size = of_nat (length header),
      next_header_crc = ucast (lib_crc32 (ev_lib ev) header)\<rparr> True l"
proof -
  let ?crc = "lib_crc32 (ev_lib ev)" and ?s = "start_fields ev pos header"
  have f': "f = SEVEN_Z_SIGNATURE @ [0, 4] @ write_u32 (?crc ?s) @ ?s @ rest" by (simp add: f start_header_parts)
  have 1: "read_exact 6 f = Inr (SEVEN_Z_SIGNATURE, [0, 4] @ write_u32 (?crc ?s) @ ?s @ rest)"
    unfolding f' by (rule decodesD [OF read_exact_append]) (simp add: SEVEN_Z_SIGNATURE_def)
  have 2: "read_exact 2 ([0, 4] @ write_u32 (?crc ?s) @ ?s @ rest) = Inr ([0, 4], write_u32 (?crc ?s) @ ?s @ rest)"
    by (rule decodesD [OF read_exact_append]) simp
  have 3: "read_u32 (write_u32 (?crc ?s) @ ?s @ rest) = Inr (?crc ?s, ?s @ rest)" by (rule decodesD [OF decodes_u32])
  have 4: "read_exact 20 (?s @ rest) = Inr (?s, rest)" by (rule decodesD [OF read_exact_append]) (rule start_fields_length)
  have 5: "(if ?crc ?s = 0 then bindE (read_exact 20 (?s @ rest)) (\<lambda>(buf, _). Inr (\<exists>b \<in> set buf. b \<noteq> 0)) else Inr True) = Inr True"
    using start_fields_nonzero [OF n] by (simp add: 4)
  show ?thesis
    unfolding read_with_limits_def by (simp add: 1 2 [simplified] 3 5 read_start)
qed


section \<open>The file\<close>

lemma header_loaded:
  assumes f: "f = s @ m @ header @ rest" "length s = 32" "length m = p - 32" and p: "32 \<le> p" "p < 2 ^ 64"
    and h: "length header < 2 ^ 64" "(of_nat (length header) :: u64) \<le> max_end_header_bytes l"
  shows "load_header crc32 f \<lparr>next_header_offset = of_nat p - SIGNATURE_HEADER_SIZE, next_header_size = of_nat (length header),
      next_header_crc = ucast (crc32 header)\<rparr> True l = Inr header"
proof -
  have small: "n < 2 ^ 64 \<Longrightarrow> unat (of_nat n :: u64) = n" for n by (rule unat_of_usize) (simp add: usize_max_def)
  have "(of_nat p :: u64) - SIGNATURE_HEADER_SIZE = of_nat (p - 32)"
    using p(1) by (simp add: SIGNATURE_HEADER_SIZE_def of_nat_diff)
  moreover have "unat (of_nat (p - 32) :: u64) = p - 32" using p by (intro small) simp
  moreover have "SIGNATURE_HEADER_SIZE + of_nat (p - 32) = (of_nat p :: u64)"
    using p(1) by (simp add: SIGNATURE_HEADER_SIZE_def of_nat_diff)
  ultimately have "checked_add SIGNATURE_HEADER_SIZE (of_nat p - SIGNATURE_HEADER_SIZE) = Some (of_nat p)"
    using p by (simp add: checked_add_def SIGNATURE_HEADER_SIZE_def)
  moreover have "drop p f = header @ rest" "length header \<le> length f" "p \<le> length f" "\<not> length f - p < length header"
    using f p by simp_all
  moreover have "\<not> usize_max < length header" using h(1) by (simp add: usize_max_def)
  ultimately show ?thesis
    using small [OF h(1)] small [OF p(2)] h(2)
    by (simp add: load_header_def Let_def linorder_not_less [symmetric] read_exact_def)
qed

lemma put_bytes_bytes:
  "bs \<noteq> [] \<Longrightarrow> \<exists>r. sk_bytes (put_bytes bs s) = take (sk_pos s) (sk_bytes s @ replicate (sk_pos s - length (sk_bytes s)) 0) @ bs @ r"
  by (simp add: put_bytes_def Let_def)

definition laid_out :: "sink \<Rightarrow> byte list" where
  "laid_out s = take (sk_pos s) (sk_bytes s @ replicate (sk_pos s - length (sk_bytes s)) 0)"

lemma laid_out_length: "length (laid_out s) = sk_pos s"
  by (simp add: laid_out_def)

lemma sink_write_Inr:
  assumes "sink_write_all bs s = (Inr (), s')" "bs \<noteq> []"
  shows "\<exists>r. sk_bytes s' = laid_out s @ bs @ r"
proof -
  obtain y t where y: "next_step s = (y, t)" by fastforce
  note k = next_step_kept [OF y]
  have "y = Succeeds" "s' = put_bytes bs t" using assms y by (auto simp: sink_write_all_def split: io_step.splits)
  with put_bytes_bytes [OF assms(2), of t] k show ?thesis by (simp add: laid_out_def)
qed

text \<open>The header went into the file as it is.\<close>

definition header_plain :: "env \<Rightarrow> (error + byte list) list \<Rightarrow> writer \<Rightarrow> bool" where
  "header_plain ev ivs w \<longleftrightarrow> fst (write_encoded_header ev ivs w) = Inr (write_header (wr_pack_info w) (wr_unpack_info w) (wr_files w))"

lemma plain_output:
  assumes "header_plain ev ivs w" "write_encoded_header ev ivs w = (Inr h, w1)"
  shows "h = write_header (wr_pack_info w) (wr_unpack_info w) (wr_files w) \<and> sk_pos (wr_output w1) = sk_pos (wr_output w)
    \<and> sk_bytes (wr_output w1) = sk_bytes (wr_output w)"
proof -
  let ?raw = "write_header (wr_pack_info w) (wr_unpack_info w) (wr_files w)"
  have h: "h = ?raw" using assms by (simp add: header_plain_def)
  have raw: "\<exists>t. ?raw = K_HEADER # t" by (simp add: write_header_def)
  have ids: "K_HEADER \<noteq> K_ENCODED_HEADER" by simp
  obtain x out where x: "sink_position (wr_output w) = (x, out)" by fastforce
  note k = sink_position_kept [OF x]
  have "wr_output w1 = out"
    using assms(2) h raw ids x
    by (auto simp: write_encoded_header_def Let_def split: sum.splits prod.splits if_splits)
  with h k show ?thesis by simp
qed


lemma finish_layout:
  assumes run: "finish ev ivs w = (Inr f, w')" and plain: "header_plain ev ivs w" and pos: "32 \<le> sk_pos (wr_output w)"
  defines "header \<equiv> write_header (wr_pack_info w) (wr_unpack_info w) (wr_files w)"
  shows "\<exists>rest. f = start_header_bytes ev (of_nat (sk_pos (wr_output w))) header @ drop 32 (laid_out (wr_output w)) @ header @ rest"
proof -
  let ?p = "of_nat (sk_pos (wr_output w)) :: u64"
  have alive: "wr_poisoned w = None" using run by (auto simp: finish_def check_poisoned_def split: option.splits)
  obtain h w1 where h: "write_encoded_header ev ivs w = (Inr h, w1)"
    using run alive by (cases "write_encoded_header ev ivs w"; cases "fst (write_encoded_header ev ivs w)")
      (auto simp: finish_def check_poisoned_def)
  note o = plain_output [OF plain h, folded header_def]
  obtain p o1 where o1: "sink_position (wr_output w1) = (Inr p, o1)"
    using run alive h by (cases "sink_position (wr_output w1)"; cases "fst (sink_position (wr_output w1))")
      (auto simp: finish_def check_poisoned_def)
  obtain o2 where o2: "sink_write_all h o1 = (Inr (), o2)"
    using run alive h o1 by (cases "sink_write_all h o1"; cases "fst (sink_write_all h o1)")
      (auto simp: finish_def check_poisoned_def)
  obtain o3 where o3: "sink_seek 0 o2 = (Inr (), o3)"
    using run alive h o1 o2 by (cases "sink_seek 0 o2"; cases "fst (sink_seek 0 o2)")
      (auto simp: finish_def check_poisoned_def)
  obtain o4 where o4: "sink_write_all (start_header_bytes ev p h) o3 = (Inr (), o4)"
    using run alive h o1 o2 o3 by (cases "sink_write_all (start_header_bytes ev p h) o3"; cases "fst (sink_write_all (start_header_bytes ev p h) o3)")
      (auto simp: finish_def check_poisoned_def)
  have f: "f = sk_bytes o4"
    using run alive h o1 o2 o3 o4
    by (auto simp: finish_def check_poisoned_def sink_flush_def dest!: next_step_kept split: sum.splits prod.splits io_step.splits)
  have k1: "sk_bytes o1 = sk_bytes (wr_output w)" "sk_pos o1 = sk_pos (wr_output w)" "p = ?p"
    using sink_position_kept [OF o1] o by simp_all
  then have lay: "laid_out o1 = laid_out (wr_output w)" by (simp add: laid_out_def)
  have ne: "h \<noteq> []" using o by (simp add: header_def write_header_def)
  obtain r where r: "sk_bytes o2 = laid_out (wr_output w) @ h @ r" using sink_write_Inr [OF o2 ne] lay by auto
  have k3: "sk_bytes o3 = sk_bytes o2" "sk_pos o3 = 0"
    using o3 by (auto simp: sink_seek_def dest: next_step_kept split: prod.splits io_step.splits)
  obtain y t where y: "next_step o3 = (y, t)" by fastforce
  let ?s = "start_header_bytes ev p h"
  have s: "?s \<noteq> []" using start_header_length [of ev p h] by auto
  have "y = Succeeds" "o4 = put_bytes ?s t" using o4 y s by (auto simp: sink_write_all_def split: io_step.splits)
  then have "sk_bytes o4 = ?s @ drop 32 (sk_bytes o2)"
    using next_step_kept [OF y] k3 s by (simp add: put_bytes_def Let_def start_header_length)
  then show ?thesis using f r o k1(3) pos by (auto simp: laid_out_length)
qed


section \<open>Opening what was finished\<close>

text \<open>The archive that the records describe, and what the last checks of the reader say to it.\<close>

definition last_checks :: "archive_limits \<Rightarrow> archive \<Rightarrow> bool" where
  "last_checks l a \<longleftrightarrow> max_unpack_bytes l = - 1 \<and> max_unpack_ratio l = - 1
     \<and> (reject_unsafe_paths l \<longrightarrow> (\<forall>e \<in> set (ar_files a). unsafe_path_reason (ae_name e) = None))
     \<and> check_aes_work a l = Inr ()"

lemma names_checked: "\<forall>e \<in> set es. unsafe_path_reason (ae_name e) = None \<Longrightarrow> foldE check_entry_name es () = Inr ()"
  by (induction es) (auto simp: check_entry_name_def)

lemma header_archive_fields:
  "ar_blocks (header_archive p u bl es) = map2 final_block (ui_blocks u) bl"
  "map ae_name (ar_files (header_archive p u bl es)) = map ae_name es"
  "map ae_has_stream (ar_files (header_archive p u bl es)) = map ae_has_stream es"
  by (auto simp: header_archive_def with_streams_def with_sub_streams_def with_pack_info_def Let_def stored_streams)

lemma default_pack [simp]: "ar_pack_sizes archive_default = []" "ar_pack_pos archive_default = 0"
  by (simp_all add: archive_default_def)

lemma header_archive_packs: "ar_pack_sizes (header_archive p u bl es) = pi_sizes p"
  by (auto simp: header_archive_def with_streams_def with_sub_streams_def with_pack_info_def Let_def pi_len_def)

lemma header_archive_pos: "pi_pos p = 0 \<Longrightarrow> ar_pack_pos (header_archive p u bl es) = 0"
  by (auto simp: header_archive_def with_streams_def with_sub_streams_def with_pack_info_def Let_def)

lemma sum_map2:
  "list_all2 (\<lambda>x y. g (f x y) = h x) xs ys \<Longrightarrow> sum_list (map g (map2 f xs ys)) = sum_list (map h xs)"
  by (induction rule: list_all2_induct) auto

lemma header_maps:
  assumes bal: "balanced ev w" and fit: "fits w" and bl: "list_all2 (read_back bnd) (ui_blocks (wr_unpack_info w)) bl"
    and n: "count_allowed bnd (pi_len (wr_pack_info w))"
  shows "map_fits (header_archive (wr_pack_info w) (wr_unpack_info w) bl (wr_files w))"
proof -
  let ?p = "wr_pack_info w" and ?u = "wr_unpack_info w" and ?a = "header_archive (wr_pack_info w) (wr_unpack_info w) bl (wr_files w)"
  have c: "counted w" using bal by (simp add: balanced_def)
  have 1: "sum_list (map (\<lambda>b. length (packed_streams b)) (ar_blocks ?a)) = ui_pack_streams ?u"
    unfolding header_archive_fields ui_pack_streams_def
    by (rule sum_map2) (use bl in \<open>auto simp: final_block_streams read_back_def elim: list_all2_mono\<close>)
  have "list_all2 (\<lambda>bi b. num_unpack_sub_streams (final_block bi b) = sub_count bi) (ui_blocks ?u) bl"
    using list_all2_lengthD [OF bl] by (simp add: list_all2_conv_all_nth final_block_streams)
  then have 2: "sum_list (map num_unpack_sub_streams (ar_blocks ?a)) = sum_list (map sub_count (ui_blocks ?u))"
    unfolding header_archive_fields by (rule sum_map2)
  have "length (filter ae_has_stream (ar_files ?a)) = length (filter id (map ae_has_stream (ar_files ?a)))"
    by (simp add: filter_map comp_def)
  also have "\<dots> = length (filter ae_has_stream (wr_files w))" by (simp add: header_archive_fields filter_map comp_def)
  finally have 3: "length (filter ae_has_stream (ar_files ?a)) = length (filter ae_has_stream (wr_files w))" .
  have "length (ar_files ?a) = length (wr_files w)" by (metis header_archive_fields(2) length_map)
  with 1 2 3 c fit n show ?thesis
    by (simp add: map_fits_def header_archive_packs counted_def fits_def pi_len_def count_allowed_def usize_max_def)
qed

lemma finished_checked:
  assumes fit: "map_fits a0" and a1: "calculate_stream_map a0 = Inr a1" and l: "last_checks l a0"
    and pos: "ar_pack_pos a0 = 0" and n: "32 + sum_list (map unat (ar_pack_sizes a0)) \<le> n" "32 + sum_list (map unat (ar_pack_sizes a0)) < 2 ^ 64"
  shows "\<exists>a. check_archive l n a1 = Inr a \<and> a = a1\<lparr>ar_is_solid := ar_is_solid a\<rparr>"
proof -
  note m = calculate_stream_map_spec [OF a1]
  have a1': "a1 = a0\<lparr>ar_files := ar_files a1, ar_stream_map := ar_stream_map a1\<rparr>" using m by blast
  have f: "ar_pack_sizes a1 = ar_pack_sizes a0" "ar_pack_pos a1 = 0" "ar_blocks a1 = ar_blocks a0"
    by (subst a1', simp add: pos)+
  have "map ae_name (map (ae_compressed_size_update (\<lambda>_. 0)) (ar_files a1)) = map ae_name (map (ae_compressed_size_update (\<lambda>_. 0)) (ar_files a0))"
    using m by simp
  then have names: "map ae_name (ar_files a1) = map ae_name (ar_files a0)" by (simp add: comp_def)
  obtain t where t: "checked_sum 0 (ar_pack_sizes a0) = Some t"
    using checked_sum_None [of 0 "ar_pack_sizes a0"] n by (cases "checked_sum 0 (ar_pack_sizes a0)") auto
  then have ut: "unat t = sum_list (map unat (ar_pack_sizes a0))" using checked_sum_unat [OF t] by simp
  have "unat (SIGNATURE_HEADER_SIZE + t) = 32 + unat t"
    using n ut by (simp add: SIGNATURE_HEADER_SIZE_def unat_word_ariths)
  then have "check_packed_range n a1 = Inr t"
    using n ut t by (simp add: check_packed_range_def f checked_add_def SIGNATURE_HEADER_SIZE_def)
  moreover have "check_unpacked_totals l t a1 = Inr ()" using l by (simp add: check_unpacked_totals_def last_checks_def)
  moreover have "check_names l a1 = Inr ()"
  proof (cases "reject_unsafe_paths l")
    case True
    with l have "\<forall>x \<in> set (map ae_name (ar_files a0)). unsafe_path_reason x = None" by (simp add: last_checks_def)
    then have "\<forall>x \<in> set (map ae_name (ar_files a1)). unsafe_path_reason x = None" by (simp only: names)
    with True show ?thesis by (simp add: check_names_def names_checked)
  qed (simp add: check_names_def)
  moreover have "check_aes_work a1 l = Inr ()" using l f(3) by (simp add: last_checks_def check_aes_work_def)
  ultimately show ?thesis by (simp add: check_archive_def)
qed


text \<open>The bounds of the reader for the header of a writer.\<close>

definition written_header :: "writer \<Rightarrow> byte list" where
  "written_header w = write_header (wr_pack_info w) (wr_unpack_info w) (wr_files w)"

definition bounds_of :: "archive_limits \<Rightarrow> writer \<Rightarrow> header_bounds" where
  "bounds_of l w = \<lparr>hb_bytes = length (tl (written_header w)), hb_limits = l\<rparr>"

definition described :: "writer \<Rightarrow> block list \<Rightarrow> archive" where
  "described w bl = header_archive (wr_pack_info w) (wr_unpack_info w) bl (wr_files w)"

definition readable :: "env \<Rightarrow> archive_limits \<Rightarrow> writer \<Rightarrow> bool" where
  "readable ev l w \<longleftrightarrow> within_limits ev l w \<and> length (written_header w) \<le> unat (max_end_header_bytes l)
     \<and> (\<forall>bl. list_all2 (read_back (bounds_of l w)) (ui_blocks (wr_unpack_info w)) bl \<longrightarrow> last_checks l (described w bl))"

lemma finished_opens:
  assumes bal: "balanced ev w" and fit: "fits w" and run: "finish ev ivs w = (Inr f, w')" and plain: "header_plain ev ivs w"
    and lim: "readable ev l w"
  shows "\<exists>a bl. read_with_limits (lib_crc32 (ev_lib ev)) ad f l = Inr a
    \<and> list_all2 (read_back (bounds_of l w)) (ui_blocks (wr_unpack_info w)) bl \<and> ar_blocks a = ar_blocks (described w bl)
    \<and> map (ae_compressed_size_update (\<lambda>_. 0)) (ar_files a) = map (ae_compressed_size_update (\<lambda>_. 0)) (ar_files (described w bl))
    \<and> ar_pack_sizes a = pi_sizes (wr_pack_info w) \<and> ar_pack_pos a = 0
    \<and> take (sk_pos (wr_output w) - 32) (drop 32 f) = drop 32 (laid_out (wr_output w))"
proof -
  let ?h = "written_header w" and ?n = "sk_pos (wr_output w)" and ?crc = "lib_crc32 (ev_lib ev)"
  have c: "counted w" using bal by (simp add: balanced_def)
  then have n: "32 \<le> ?n" "?n < 2 ^ 64" "?n = 32 + sum_list (map unat (pi_sizes (wr_pack_info w)))" "pi_pos (wr_pack_info w) = 0"
    using fit by (simp_all add: counted_def fits_def)
  obtain rest where f: "f = start_header_bytes ev (of_nat ?n) ?h @ drop 32 (laid_out (wr_output w)) @ ?h @ rest"
    using finish_layout [OF run plain n(1)] by (auto simp: written_header_def)
  have wl: "within_limits ev l w" using lim by (simp add: readable_def)
  obtain bl where hw: "header_written (bounds_of l w) (wr_pack_info w) (wr_unpack_info w) bl (wr_files w)"
      and bl: "list_all2 (read_back (bounds_of l w)) (ui_blocks (wr_unpack_info w)) bl"
    using balanced_header_written [OF bal wl] by (auto simp: bounds_of_def written_header_def)
  have checks: "last_checks l (described w bl)" using lim bl by (simp add: readable_def)
  have hl: "length ?h \<le> unat (max_end_header_bytes l)" using lim by (simp add: readable_def)
  then have h: "length ?h < 2 ^ 64" using unsigned_less [of "max_end_header_bytes l", where 'a = nat] by simp
  then have uh: "unat (of_nat (length ?h) :: u64) = length ?h" by (intro unat_of_usize) (simp add: usize_max_def)
  have hne: "?h = K_HEADER # tl ?h" by (simp add: written_header_def write_header_def)
  then have "(of_nat (length ?h) :: u64) \<noteq> 0" using uh by (metis length_Cons unsigned_0 nat.distinct(1))
  from opened_from_start [OF f this] have open': "read_with_limits ?crc ad f l = init_archive ?crc ad f
     \<lparr>next_header_offset = of_nat ?n - SIGNATURE_HEADER_SIZE, next_header_size = of_nat (length ?h), next_header_crc = ucast (?crc ?h)\<rparr> True l" .
  have "(of_nat (length ?h) :: u64) \<le> max_end_header_bytes l" using hl uh by (simp add: word_le_nat_alt)
  from header_loaded [OF f start_header_length _ n(1,2) h this]
  have load: "load_header ?crc f \<lparr>next_header_offset = of_nat ?n - SIGNATURE_HEADER_SIZE, next_header_size = of_nat (length ?h),
      next_header_crc = ucast (?crc ?h)\<rparr> True l = Inr ?h" by (simp add: laid_out_length)
  have unwrap: "unwrap_header ?crc ad l f ?h = Inr (K_HEADER, tl ?h)" by (subst hne) (simp add: unwrap_header_def)
  have parse: "parse_header l K_HEADER (tl ?h) = Inr (described w bl)"
    using parse_written_header [of "wr_pack_info w" "wr_unpack_info w" "wr_files w" l bl] hw
    by (simp add: bounds_of_def written_header_def described_def)
  have "count_allowed (bounds_of l w) (pi_len (wr_pack_info w))"
    using hw by (simp add: header_written_def streams_written_def)
  from header_maps [OF bal fit bl this] have mf: "map_fits (described w bl)" by (simp add: described_def)
  from calculate_total [OF this] obtain a1 where a1: "calculate_stream_map (described w bl) = Inr a1" ..
  have "?n \<le> length f" unfolding f by (simp add: start_header_length laid_out_length)
  then obtain a where a: "check_archive l (length f) a1 = Inr a" "a = a1\<lparr>ar_is_solid := ar_is_solid a\<rparr>"
    using finished_checked [OF mf a1 checks, of "length f"] n by (auto simp: described_def header_archive_packs header_archive_pos)
  have res: "read_with_limits ?crc ad f l = Inr a"
    unfolding open' init_archive_def using load unwrap parse a1 a(1) hne by (auto simp: neq_Nil_conv)
  note m = calculate_stream_map_spec [OF a1]
  have a1': "a1 = (described w bl)\<lparr>ar_files := ar_files a1, ar_stream_map := ar_stream_map a1\<rparr>" using m by blast
  have "ar_blocks a1 = ar_blocks (described w bl)" "ar_pack_sizes a1 = pi_sizes (wr_pack_info w)" "ar_pack_pos a1 = 0"
    by (subst a1', simp add: described_def header_archive_packs header_archive_pos n(4))+
  then have fields: "ar_blocks a = ar_blocks (described w bl)" "ar_pack_sizes a = pi_sizes (wr_pack_info w)" "ar_pack_pos a = 0"
      "ar_files a = ar_files a1" by (subst a(2), simp)+
  have "take (?n - 32) (drop 32 f) = drop 32 (laid_out (wr_output w))"
    unfolding f by (simp add: start_header_length laid_out_length)
  with res bl fields m show ?thesis by (intro exI [of _ a] exI [of _ bl]) simp
qed

end
