(* ===== verification/Writer_Sample.thy ===== *)
theory Writer_Sample
  imports Writer_Histories
begin

text \<open>
  Surroundings in which codecs copy their input and the checksum is a sum, with the laws the
  development asks of the real ones, and a small archive written in them.
\<close>

definition sum_lib :: library where
  "sum_lib = \<lparr>lib_crc32 = (\<lambda>bs. sum_list (map ucast bs)), lib_crc32_combine = (\<lambda>a b n. a + b), lib_num_threads = (\<lambda>_. 1),
     lib_new = (\<lambda>_. Inr ()), lib_new_side = Inr (), lib_code = (\<lambda>_ bs. bs), lib_bcj2 = (\<lambda>bs. (bs, [], [], [])), lib_side = (\<lambda>bs. bs),
     lib_feed = (\<lambda>_ _. None), lib_flush = (\<lambda>_ _. None), lib_end = (\<lambda>_ _. None), lib_early = (\<lambda>_ _. []), lib_spare = (\<lambda>n. 32),
     lib_window = 64\<rparr>"

definition sum_env :: env where
  "sum_env = \<lparr>ev_lib = sum_lib, ev_versions = \<lparr>cv_brotli = 1, cv_zstd_major = 1, cv_zstd_minor = 5\<rparr>,
     ev_fresh = (\<lambda>xs. Suc (sum_list xs)), ev_show = (\<lambda>_. ''refused'')\<rparr>"

lemma sum_fresh: "fresh_ok sum_env"
proof -
  have "x \<in> set xs \<Longrightarrow> x \<le> sum_list xs" for x :: nat and xs by (rule member_le_sum_list) simp_all
  then show ?thesis by (fastforce simp: fresh_ok_def sum_env_def)
qed

lemma sum_crc_laws: "crc_laws sum_lib"
  by (simp add: crc_laws_def sum_lib_def)

definition stored :: encoder_configuration where
  "stored = \<lparr>ec_method = (''COPY'', ID_COPY), ec_options = None\<rparr>"

definition short_file :: archive_entry where
  "short_file = entry_default\<lparr>ae_name := [0x61], ae_has_stream := True, ae_size := 3\<rparr>"

definition first_writer :: writer where
  "first_writer = set_content_methods sum_env [stored] (projr (writer_new \<lparr>sk_bytes = [], sk_pos = 0, sk_script = []\<rparr>))"

definition second_writer :: writer where
  "second_writer = snd (push_archive_entry sum_env [] False short_file (Some [Yields [1, 2, 3]]) first_writer)"


section \<open>A stored folder\<close>

lemma stored_facts:
  "ec_id stored = ID_COPY" "sized_methods [stored] sz = [stored]" "folder_arc fresh ivs (x, [stored]) sz = Inr (x, [stored])"
  "plan_input lib send stored = Inr None" "create_writer lib [stored] = Inr ()" "sizes_exactly lib send [stored] = Inr False"
  "header_method_of vs stored = \<lparr>hm_id = ID_COPY, hm_properties = []\<rparr>"
proof -
  have ids: "ID_COPY \<noteq> ID_LZMA" "ID_COPY \<noteq> ID_LZMA2" "ID_COPY \<noteq> ID_BCJ2" by (simp_all add: method_id_defs)
  show id: "ec_id stored = ID_COPY" by (simp add: stored_def ec_id_def)
  have none: "sized_for n stored = None" for n using ids by (simp add: sized_for_def id)
  then show "sized_methods [stored] sz = [stored]" by (simp add: sized_methods_def split: option.splits)
  have "\<not> encrypted stored" by (simp add: encrypted_def stored_def)
  then show "folder_arc fresh ivs (x, [stored]) sz = Inr (x, [stored])"
    by (simp add: folder_arc_def sized_arc_def none split: option.splits)
  show "plan_input lib send stored = Inr None" using ids by (simp add: plan_input_def id)
  show "create_writer lib [stored] = Inr ()" using ids by (simp add: create_writer_def id add_encoder_def)
  show "sizes_exactly lib send [stored] = Inr False" using ids by (simp add: sizes_exactly_def id)
  show "header_method_of vs stored = \<lparr>hm_id = ID_COPY, hm_properties = []\<rparr>"
    by (simp add: header_method_of_def id get_options_as_properties_def Let_def) (simp add: method_id_defs)
qed

lemma stored_run:
  assumes "bs \<noteq> []" "length bs \<le> n"
  shows "run_pushed sum_lib msg n [stored] [] (Entry [Yields bs])
    = (bs, Inr \<lparr>cr_input = bs, cr_more_sizes = [], cr_bcj2 = None\<rparr>, Entry [])"
proof -
  have "push_loop (lib_crc32 sum_lib) (lib_feed sum_lib [stored]) n [] (Entry [Yields bs]) = (Inr bs, Entry [])"
    using assms by (simp add: push_loop.simps [of _ _ _ _ "Entry [Yields bs]"] push_loop.simps [of _ _ _ _ "Entry []"]
        folder_read_def sum_lib_def)
  moreover have "ID_COPY \<noteq> ID_BCJ2" by (simp add: method_id_defs)
  ultimately show ?thesis by (simp add: run_pushed_def stored_facts end_error_def) (simp add: sum_lib_def stored_facts bcj2_take_def)
qed

lemma stored_buffer: "input_buffer_len sz [stored] = 2 ^ 20"
  by (simp add: input_buffer_len_def use_large_buffer_def stored_facts(1) SOURCE_READ_LEN_def) (simp add: method_id_defs)

lemma short_file_coded:
  "encode_entry_input sum_lib fresh ivs False (x, [stored]) short_file [Yields [1, 2, 3]] = ([1, 2, 3], Inr
     \<lparr>ef_entry = short_file, ef_methods = (x, [stored]), ef_size = 3, ef_more_sizes = [], ef_crc = 6,
      ef_compressed_len = 3, ef_compressed_crc = 6, ef_bcj2 = None\<rparr>)"
proof -
  have "declared_size [short_file] = Some 3"
    by (simp add: declared_size_def short_file_def entry_default_def saturating_add_def)
  then have "entry_size sum_lib False short_file (Entry [Yields [1, 2, 3]]) = (Inr ([], Some 3, False), Entry [Yields [1, 2, 3]])"
    by (simp add: entry_size_def folder_size_def)
  then show ?thesis
    by (simp add: encode_entry_input_def stored_facts encode_sized_entry_def stored_run stored_buffer \<open>declared_size _ = _\<close> Let_def)
      (simp add: sum_lib_def)
qed


section \<open>The archive\<close>

lemma first_writer_fields:
  "wr_poisoned first_writer = None" "snd (wr_content_methods first_writer) = [stored]" "wr_files first_writer = []"
  "wr_output first_writer = \<lparr>sk_bytes = [], sk_pos = 32, sk_script = []\<rparr>" "wr_pack_info first_writer = pack_info_default"
  "wr_unpack_info first_writer = unpack_info_default"
  by (simp_all add: first_writer_def set_content_methods_def writer_new_def sink_seek_def next_step_def SIGNATURE_HEADER_SIZE_def)

lemma first_reach: "writer_reach sum_env first_writer"
proof -
  have "writer_new \<lparr>sk_bytes = [], sk_pos = 0, sk_script = []\<rparr> = Inr (projr (writer_new \<lparr>sk_bytes = [], sk_pos = 0, sk_script = []\<rparr>))"
    by (simp add: writer_new_def sink_seek_def next_step_def)
  then have "writer_reach sum_env (projr (writer_new \<lparr>sk_bytes = [], sk_pos = 0, sk_script = []\<rparr>))" by (rule writer_reach.new)
  then show ?thesis unfolding first_writer_def by (rule writer_reach.methods) (simp add: bcj2_last_def)
qed

lemma second_pushed:
  "push_archive_entry sum_env [] False short_file (Some [Yields [1, 2, 3]]) first_writer = (Inr (), second_writer)"
  and second_writer_fields: "wr_poisoned second_writer = None" "pi_sizes (wr_pack_info second_writer) = [3]"
  "sk_pos (wr_output second_writer) = 35" "length (wr_files second_writer) = 1" "length (ui_blocks (wr_unpack_info second_writer)) = 1"
proof -
  obtain x where x: "wr_content_methods first_writer = (x, [stored])" using first_writer_fields(2) by (metis prod.collapse)
  have dir: "ae_is_directory short_file = False" by (simp add: short_file_def entry_default_def)
  have lib: "ev_lib sum_env = sum_lib" by (simp add: sum_env_def)
  obtain h where wf: "write_folder [\<lparr>hm_id = ID_COPY, hm_properties = []\<rparr>] = Inr h"
    using write_folder_total [of "[\<lparr>hm_id = ID_COPY, hm_properties = []\<rparr>]"] by auto
  have "\<exists>w. push_archive_entry sum_env [] False short_file (Some [Yields [1, 2, 3]]) first_writer = (Inr (), w)
      \<and> wr_poisoned w = None \<and> pi_sizes (wr_pack_info w) = [3] \<and> sk_pos (wr_output w) = 35 \<and> length (wr_files w) = 1
      \<and> length (ui_blocks (wr_unpack_info w)) = 1"
    using wf
    by (simp add: push_archive_entry_def check_poisoned_def first_writer_fields push_entry_input_def dir lib x short_file_coded
        bindW_def write_out_def sink_write_all_def next_step_def put_bytes_def record_folder_def record_written_folder_def Let_def
        add_pack_def add_stream_def pack_info_default_def add_unpack_def ui_add_def header_methods_def unpack_info_default_def
        stored_facts bindE_def add_files_def pushed_def)
  then show "push_archive_entry sum_env [] False short_file (Some [Yields [1, 2, 3]]) first_writer = (Inr (), second_writer)"
      "wr_poisoned second_writer = None" "pi_sizes (wr_pack_info second_writer) = [3]"
      "sk_pos (wr_output second_writer) = 35" "length (wr_files second_writer) = 1" "length (ui_blocks (wr_unpack_info second_writer)) = 1"
    by (auto simp: second_writer_def)
qed

definition stored_record :: block_info where
  "stored_record = \<lparr>bi_methods = projr (write_folder [\<lparr>hm_id = ID_COPY, hm_properties = []\<rparr>]), bi_sizes = [3], bi_crc = 6, bi_extra = None\<rparr>"

definition stored_entry :: archive_entry where
  "stored_entry = short_file\<lparr>ae_has_stream := True, ae_size := 3, ae_crc := 6, ae_has_crc := True, ae_compressed_crc := 6, ae_compressed_size := 3\<rparr>"

lemma second_writer_records:
  "wr_output second_writer = \<lparr>sk_bytes = replicate 32 0 @ [1, 2, 3], sk_pos = 35, sk_script = []\<rparr>"
  "wr_pack_info second_writer = add_stream 3 6 pack_info_default" "ui_blocks (wr_unpack_info second_writer) = [stored_record]"
  "wr_files second_writer = [stored_entry]" "snd (wr_content_methods second_writer) = [stored]" "wr_encrypt_header second_writer = True"
proof -
  obtain x where x: "wr_content_methods first_writer = (x, [stored])" using first_writer_fields(2) by (metis prod.collapse)
  have dir: "ae_is_directory short_file = False" by (simp add: short_file_def entry_default_def)
  have lib: "ev_lib sum_env = sum_lib" by (simp add: sum_env_def)
  have enc: "wr_encrypt_header first_writer = True"
    by (simp add: first_writer_def set_content_methods_def writer_new_def sink_seek_def next_step_def)
  obtain h where wf: "write_folder [\<lparr>hm_id = ID_COPY, hm_properties = []\<rparr>] = Inr h"
    using write_folder_total [of "[\<lparr>hm_id = ID_COPY, hm_properties = []\<rparr>]"] by auto
  have "push_archive_entry sum_env [] False short_file (Some [Yields [1, 2, 3]]) first_writer = (Inr (), first_writer\<lparr>
      wr_output := \<lparr>sk_bytes = replicate 32 0 @ [1, 2, 3], sk_pos = 35, sk_script = []\<rparr>,
      wr_pack_info := add_stream 3 6 pack_info_default,
      wr_unpack_info := \<lparr>ui_blocks = [stored_record], ui_last_source = Some x, ui_last_methods = [\<lparr>hm_id = ID_COPY, hm_properties = []\<rparr>],
        ui_last_header = h\<rparr>, wr_files := [stored_entry]\<rparr>)"
    using wf
    by (simp add: push_archive_entry_def check_poisoned_def first_writer_fields push_entry_input_def dir lib x short_file_coded
        bindW_def write_out_def sink_write_all_def next_step_def put_bytes_def record_folder_def record_written_folder_def Let_def
        add_pack_def add_stream_def pack_info_default_def add_unpack_def ui_add_def header_methods_def unpack_info_default_def
        stored_facts bindE_def add_files_def pushed_def stored_record_def set_bcj2_def stored_entry_def)
  then have e: "second_writer = first_writer\<lparr>
      wr_output := \<lparr>sk_bytes = replicate 32 0 @ [1, 2, 3], sk_pos = 35, sk_script = []\<rparr>,
      wr_pack_info := add_stream 3 6 pack_info_default,
      wr_unpack_info := \<lparr>ui_blocks = [stored_record], ui_last_source = Some x, ui_last_methods = [\<lparr>hm_id = ID_COPY, hm_properties = []\<rparr>],
        ui_last_header = h\<rparr>, wr_files := [stored_entry]\<rparr>" by (simp add: second_writer_def)
  show "wr_output second_writer = \<lparr>sk_bytes = replicate 32 0 @ [1, 2, 3], sk_pos = 35, sk_script = []\<rparr>"
    "wr_pack_info second_writer = add_stream 3 6 pack_info_default" "ui_blocks (wr_unpack_info second_writer) = [stored_record]"
    "wr_files second_writer = [stored_entry]" "snd (wr_content_methods second_writer) = [stored]" "wr_encrypt_header second_writer = True"
    unfolding e by (simp_all add: x enc)
qed

lemma second_reach: "writer_reach sum_env second_writer"
  by (rule writer_reach.push [OF first_reach, of "PushEntry [] False short_file (Some [Yields [1, 2, 3]])" "Inr ()"])
     (simp_all add: second_pushed fits_def second_writer_fields)

text \<open>An output that refuses the next write after two of its bytes.\<close>

definition full_writer :: writer where
  "full_writer = first_writer\<lparr>wr_output := (wr_output first_writer)\<lparr>sk_script := [Stops 2 (IoBare OtherKind)]\<rparr>\<rparr>"

lemma full_reach: "writer_reach sum_env full_writer"
proof -
  let ?out = "\<lparr>sk_bytes = [], sk_pos = 0, sk_script = [Succeeds, Stops 2 (IoBare OtherKind)]\<rparr>"
  have "writer_new ?out = Inr (projr (writer_new ?out))" by (simp add: writer_new_def sink_seek_def next_step_def)
  from writer_reach.methods [OF writer_reach.new [OF this], of "[stored]" sum_env]
  show ?thesis
    by (simp add: bcj2_last_def full_writer_def first_writer_def set_content_methods_def fresh_arc_def live_arcs_def
        writer_new_def sink_seek_def next_step_def)
qed

lemma full_push:
  "\<exists>w. push_archive_entry sum_env [] False short_file (Some [Yields [1, 2, 3]]) full_writer
     = (Inl (Io (IoBare OtherKind) ''Encode entry:''), w) \<and> wr_poisoned w = Some ''refused'' \<and> fits w"
proof -
  have f: "wr_poisoned full_writer = None" "snd (wr_content_methods full_writer) = [stored]"
    "wr_output full_writer = \<lparr>sk_bytes = [], sk_pos = 32, sk_script = [Stops 2 (IoBare OtherKind)]\<rparr>"
    "wr_pack_info full_writer = pack_info_default" "wr_unpack_info full_writer = unpack_info_default" "wr_files full_writer = []"
    using first_writer_fields by (simp_all add: full_writer_def)
  obtain x where x: "wr_content_methods full_writer = (x, [stored])" using f(2) by (metis prod.collapse)
  have dir: "ae_is_directory short_file = False" by (simp add: short_file_def entry_default_def)
  have lib: "ev_lib sum_env = sum_lib" "ev_show sum_env e = ''refused''" for e by (simp_all add: sum_env_def)
  show ?thesis
    by (simp add: push_archive_entry_def check_poisoned_def f push_entry_input_def dir lib x short_file_coded
        bindW_def write_out_def sink_write_all_def next_step_def put_bytes_def Let_def pushed_def poison_unless_consistent_def
        output_matches_records_def sink_position_def pack_info_default_def unpack_info_default_def pi_len_def ui_pack_streams_def
        SIGNATURE_HEADER_SIZE_def fits_def)
qed


section \<open>A solid block\<close>

definition other_file :: archive_entry where
  "other_file = short_file\<lparr>ae_name := [0x62], ae_size := 2\<rparr>"

definition block_sources :: "source list" where
  "block_sources = [[Yields [1, 2, 3]], [Yields [4, 5]]]"

lemma block_sources_ok: "sources_ok block_sources"
  by (simp add: sources_ok_def block_sources_def uninterrupted_def seq_reader_new_def source_reader_new_def)

definition solid_block :: prepared_block where
  "solid_block = projr (prepare_block sum_lib 7 [] (1, [stored]) [short_file, other_file] (map source_reader_new block_sources))"

lemma solid_run:
  "\<exists>r. run_pushed sum_lib msg (2 ^ 20) [stored] [] (Solid (seq_reader_new (map source_reader_new block_sources)))
     = ([1, 2, 3, 4, 5], Inr \<lparr>cr_input = [1, 2, 3, 4, 5], cr_more_sizes = [], cr_bcj2 = None\<rparr>, r)
     \<and> map sr_size (seq_readers_of r) = [3, 2]"
proof -
  have ids: "ID_COPY \<noteq> ID_BCJ2" by (simp add: method_id_defs)
  have "\<exists>r. push_loop (lib_crc32 sum_lib) (lib_feed sum_lib [stored]) (2 ^ 20) [] (Solid (seq_reader_new (map source_reader_new block_sources)))
      = (Inr [1, 2, 3, 4, 5], r) \<and> map sr_size (seq_readers_of r) = [3, 2]"
    by (simp add: push_loop.simps folder_read_def seq_read_def seq_loop.simps source_read_def sum_lib_def seq_reader_new_def
        source_reader_new_def block_sources_def Let_def seq_readers_of_def)
  with ids show ?thesis
    by (auto simp: run_pushed_def stored_facts end_error_def) (auto simp: sum_lib_def stored_facts bcj2_take_def)
qed


lemma solid_prepared:
  "prepare_block sum_lib 7 [] (1, [stored]) [short_file, other_file] (map source_reader_new block_sources) = Inr solid_block"
proof -
  let ?q = "Solid (seq_reader_new (map source_reader_new block_sources))"
  have size: "folder_size (lib_crc32 sum_lib) (lib_spare sum_lib) [short_file, other_file] ?q = (Inr ([], Some 5), ?q)"
    by (simp add: folder_size_def declared_size_def short_file_def other_file_def entry_default_def saturating_add_def)
  obtain r where r: "run_pushed sum_lib prepare_messages (2 ^ 20) [stored] [] ?q
      = ([1, 2, 3, 4, 5], Inr \<lparr>cr_input = [1, 2, 3, 4, 5], cr_more_sizes = [], cr_bcj2 = None\<rparr>, r)"
      "map sr_size (seq_readers_of r) = [3, 2]" using solid_run [of prepare_messages] by (elim exE conjE)
  then obtain r1 r2 where "seq_readers_of r = [r1, r2]" by auto
  then have "\<exists>b. finish_solid sum_lib (1, [stored]) [short_file, other_file] [1, 2, 3, 4, 5]
      \<lparr>cr_input = [1, 2, 3, 4, 5], cr_more_sizes = [], cr_bcj2 = None\<rparr> (seq_readers_of r) = Inr b"
    by (simp add: finish_solid_def short_file_def other_file_def)
  moreover define n :: nat where "n = 2 ^ 20"
  have "run_pushed sum_lib prepare_messages n [stored] [] ?q
      = ([1, 2, 3, 4, 5], Inr \<lparr>cr_input = [1, 2, 3, 4, 5], cr_more_sizes = [], cr_bcj2 = None\<rparr>, r)"
    "input_buffer_len (Some 5) [stored] = n" "length block_sources = 2"
    using r(1) stored_buffer by (simp_all add: n_def block_sources_def)
  ultimately have "\<exists>b. prepare_block sum_lib 7 [] (1, [stored]) [short_file, other_file] (map source_reader_new block_sources) = Inr b"
    using size by (simp add: prepare_block_def stored_facts)
  then show ?thesis by (auto simp: solid_block_def)
qed

text \<open>A BCJ2 coder before a pulled one: the list is refused, but not the part of it that is checked for a pulled coder.\<close>

definition branch_coder :: encoder_configuration where
  "branch_coder = \<lparr>ec_method = (''BCJ2'', ID_BCJ2), ec_options = None\<rparr>"

lemma misplaced_bcj2_pulled:
  "create_writer sum_lib (butlast [stored, branch_coder, header_coder 5]) = Inr ()"
  "create_writer sum_lib [stored, branch_coder, header_coder 5]
     = Inl (Unsupported ''BCJ2 must be the last content method: it is the first coder the data meets'')"
proof -
  have "ec_id branch_coder = ID_BCJ2" by (simp add: branch_coder_def ec_id_def)
  moreover have "add_encoder sum_lib stored = Inr ()" by (simp add: add_encoder_def stored_facts)
  moreover have "ID_COPY \<noteq> ID_BCJ2" "ID_COPY \<noteq> ID_AES256_SHA256" "ID_BCJ2 \<noteq> ID_AES256_SHA256" "lib_new_side sum_lib = Inr ()" by (simp_all add: method_id_defs sum_lib_def)
  ultimately show "create_writer sum_lib (butlast [stored, branch_coder, header_coder 5]) = Inr ()"
    "create_writer sum_lib [stored, branch_coder, header_coder 5]
       = Inl (Unsupported ''BCJ2 must be the last content method: it is the first coder the data meets'')"
    by (simp_all add: create_writer_def stored_facts check_bcj2_methods_def)
qed

end
