(* ===== verification/Finished_Sample.thy ===== *)
theory Finished_Sample
  imports Written_Archive Writer_Sample
begin

text \<open>The archive of \<open>Writer_Sample\<close>, finished and read back without limits.\<close>

section \<open>Finishing it\<close>

lemma pulled_copy:
  assumes "n = length methods" "create_writer sum_lib (butlast methods) = Inr ()" "methods = [mc]"
  shows "\<exists>c r. run_pulled sum_lib msg methods [] (Entry [Yields bs]) = (bs, Inr c, r)"
proof -
  let ?r = "Entry [Yields bs]"
  obtain x r where x: "push_loop (lib_crc32 sum_lib) (lib_feed sum_lib methods) (max 1 (lib_window sum_lib)) [] ?r = (x, r)"
    by fastforce
  have "\<exists>r'. folder_content (lib_crc32 sum_lib) ?r = (bs, None, r')"
    by (cases "bs = []") (simp_all add: folder_content_def)
  then obtain r' where r': "folder_content (lib_crc32 sum_lib) ?r = (bs, None, r')" ..
  have "\<forall>bs. lib_feed sum_lib methods bs = None" by (simp add: sum_lib_def)
  from push_loop_content [OF _ x, THEN conjunct2, rule_format, OF _ this [rule_format]] r' have "x = Inr bs" by simp
  moreover have "end_error sum_lib msg methods bs = None" by (simp add: end_error_def sum_lib_def)
  moreover have "lib_code sum_lib mc bs = bs" by (simp add: sum_lib_def)
  ultimately show ?thesis using x assms by (simp add: run_pulled_def)
qed

lemma finish_unhindered:
  assumes "wr_poisoned w = None" "write_encoded_header ev ivs w = (Inr h, w1)" "sk_script (wr_output w1) = []"
  shows "\<exists>f w'. finish ev ivs w = (Inr f, w')"
  using assms
  by (auto simp: finish_def check_poisoned_def sink_position_def sink_write_all_def sink_seek_def sink_flush_def next_step_def
      put_bytes_def Let_def)

lemma header_coder_id: "ec_id (header_coder n) = ID_LZMA" "\<not> encrypted (header_coder n)"
  by (simp_all add: header_coder_def ec_id_def encrypted_def)

lemma second_header:
  "write_encoded_header sum_env [] second_writer = (Inr (written_header second_writer), second_writer\<lparr>wr_files := [],
     wr_pack_info := pack_info_default, wr_unpack_info := unpack_info_default\<rparr>)"
proof -
  let ?w = "second_writer\<lparr>wr_files := [], wr_pack_info := pack_info_default, wr_unpack_info := unpack_info_default\<rparr>"
  let ?raw = "written_header second_writer" and ?n = "of_nat (length (written_header second_writer)) :: u64"
  have lib: "ev_lib sum_env = sum_lib" by (simp add: sum_env_def)
  have "ID_COPY \<noteq> ID_AES256_SHA256" by (simp add: method_id_defs)
  then have ms: "header_methods_of ?w ?n = [header_coder ?n]"
    using second_writer_records(5) by (simp add: header_methods_of_def stored_facts)
  have pos: "sink_position (wr_output ?w) = (Inr 35, wr_output ?w)"
    by (simp add: sink_position_def second_writer_records next_step_def)
  define mc where "mc = the (sized_for ?n (header_coder ?n))"
  have mc: "sized_for ?n (header_coder ?n) = Some mc" "\<not> encrypted mc"
    by (simp_all add: mc_def sized_for_def header_coder_id encrypted_def)
  define arc where "arc = (fresh_arc sum_env ?w, [mc])"
  have arc: "folder_arc (fresh_arc sum_env ?w) [] (fresh_arc sum_env ?w, [header_coder ?n]) (Some ?n) = Inr arc" "snd arc = [mc]"
    using mc by (simp_all add: arc_def folder_arc_def sized_arc_def sized_methods_def)
  obtain c r where run: "run_pulled sum_lib (one_message []) (snd arc) [] (Entry [Yields ?raw]) = (?raw, Inr c, r)"
    using pulled_copy [OF refl _ arc(2), of "one_message []" ?raw] arc(2) by (auto simp: create_writer_def)
  show ?thesis
    using ms pos arc(1) run
    by (simp add: write_encoded_header_def Let_def lib written_header_def [symmetric])
qed

lemma second_plain: "header_plain sum_env [] second_writer"
  by (simp add: header_plain_def second_header written_header_def)

definition finished_file :: "byte list" where
  "finished_file = (case finish sum_env [] second_writer of (Inr f, _) \<Rightarrow> f | _ \<Rightarrow> [])"

lemma second_finished: "\<exists>w. finish sum_env [] second_writer = (Inr finished_file, w)"
  using finish_unhindered [OF second_writer_fields(1) second_header] second_writer_records(1)
  by (auto simp: finished_file_def)



section \<open>Reading it back\<close>

definition copied_method :: header_method where
  "copied_method = \<lparr>hm_id = ID_COPY, hm_properties = []\<rparr>"

lemma stored_descriptor: "bi_methods stored_record = [1, 1, 0]" "write_folder [copied_method] = Inr [1, 1, 0]"
  by code_simp+

lemma stored_lists: "bi_sizes stored_record = [3]" "bi_bcj2 stored_record = None" "bi_pack_streams stored_record = 1"
  "sub_count stored_record = 1" "pi_len (wr_pack_info second_writer) = 1"
  by (simp_all add: second_writer_records) code_simp+

lemma unlimited: "unat (- 1 :: u64) = 18446744073709551615"
  by (simp add: unsigned_minus_1_eq_mask mask_eq_exp_minus_1)

lemma second_header_short: "length (written_header second_writer) < 2 ^ 64"
proof -
  have "length (write_pack_info (add_stream 3 6 pack_info_default)) < 2 ^ 10"
    using write_u64_length [of 0] write_u64_length [of 1] write_u64_length [of 3]
    by (simp add: write_pack_info_def add_stream_def pack_info_default_def pi_len_def write_u32_def)
  moreover have "length (write_unpack_info (wr_unpack_info second_writer)) < 2 ^ 10"
    using write_u64_length [of 1] write_u64_length [of 3]
    by (simp add: write_unpack_info_def second_writer_records stored_descriptor bi_all_sizes_def stored_lists)
  moreover have "length (write_substreams (wr_unpack_info second_writer)) < 2 ^ 10"
    by (simp add: write_substreams_def second_writer_records bi_digests_def stored_record_def bi_num_sub_unpack_streams_def
        bi_sub_stream_sizes_def bi_sub_stream_crcs_def write_u32_def)
  moreover have "length (write_files_info [stored_entry]) < 2 ^ 10"
    using write_u64_length [of 1] write_u64_length [of "of_nat (Suc (length (write_name [0x61])))"]
    by (simp add: write_files_info_def write_file_empty_streams_def write_file_empty_files_def write_file_anti_items_def
        empty_entries_def write_file_names_def write_property_def write_times_def stored_entry_def short_file_def entry_default_def
        length_write_name name_len_def encode_utf16_def encode_utf16_char_def)
  ultimately show ?thesis
    by (simp add: written_header_def write_header_def write_streams_info_def second_writer_records)
qed

definition open_bounds :: header_bounds where
  "open_bounds = bounds_of limits_unlimited second_writer"

lemma open_length: "4 \<le> hb_bytes open_bounds" and open_limits: "hb_limits open_bounds = limits_unlimited"
  by (simp_all add: open_bounds_def bounds_of_def written_header_def write_header_def second_writer_records
      write_files_info_def write_file_names_def write_property_def write_name_def write_streams_info_def write_substreams_def)

lemma open_count: "n \<le> 4 \<Longrightarrow> count_allowed open_bounds n"
  using open_length by (simp add: count_allowed_def open_limits usize_max_def limits_unlimited_def unlimited)

lemma open_folder: "length mid \<le> 4 \<Longrightarrow> length ps \<le> 4 \<Longrightarrow> folder_allowed open_bounds [(mid, 1, ps)]"
  using open_count [of 1] open_length
  by (simp add: folder_allowed_def coder_allowed_def inputs_of_def open_limits limits_unlimited_def usize_max_def unlimited)

lemma stored_allowed: "block_allowed sum_env open_bounds stored_record"
proof -
  have "methods_allowed open_bounds (map (header_method_of (ev_versions sum_env)) ms)" if rec: "coded_record sum_env ms stored_record" for ms
  proof -
    obtain mc where mc: "ms = [mc]" using rec stored_lists(1) by (cases ms) (auto simp: coded_record_def)
    let ?m = "header_method_of (ev_versions sum_env) mc"
    have "hm_id ?m \<noteq> ID_BCJ2" using rec stored_lists(2) mc by (auto simp: coded_record_def)
    moreover have "write_folder [?m] = Inr [1, 1, 0]" using rec mc stored_descriptor by (auto simp: coded_record_def)
    ultimately have "length (write_u64 1 @ write_single_codec ?m) = 3" by (simp add: write_folder_def)
    then have "length (hm_id ?m) \<le> 4" "length (hm_properties ?m) \<le> 4"
      by (auto simp: write_single_codec_def Let_def split: if_splits)
    with \<open>hm_id ?m \<noteq> ID_BCJ2\<close> show ?thesis using open_folder mc by (simp add: methods_allowed_def method_spec_def)
  qed
  moreover have "\<not> copied_record b stored_record" for b by (simp add: copied_record_def stored_record_def)
  ultimately show ?thesis by (simp add: block_allowed_def)
qed

definition opened_block :: block where
  "opened_block = built_block (map method_spec [copied_method]) (chain_pairs 1) [0]"

lemma stored_read_back: "read_back open_bounds stored_record b \<Longrightarrow> b = opened_block"
proof -
  assume "read_back open_bounds stored_record b"
  then have "read_block open_bounds [1, 1, 0] = Inr (b, [])"
    by (auto simp: read_back_def block_written_def stored_descriptor decodes_def dest: spec [of _ "[]"])
  moreover have "hm_id copied_method \<noteq> ID_BCJ2" "folder_allowed open_bounds (map method_spec [copied_method])"
    using open_folder [of "[0]" "[]"] by (simp_all add: copied_method_def method_spec_def method_id_defs)
  then have "decodes (read_block open_bounds) [1, 1, 0] opened_block"
    using chain_decodes [of "[copied_method]" open_bounds "[1, 1, 0]"] stored_descriptor
    by (simp add: opened_block_def copied_method_def)
  then have "read_block open_bounds [1, 1, 0] = Inr (opened_block, [])" by (auto simp: decodes_def dest: spec [of _ "[]"])
  ultimately show ?thesis by simp
qed

lemma opened_facts: "length (coders opened_block) = 1" "check_aes_coders limits_unlimited (coders opened_block) = Inr ()"
  by code_simp+

lemma second_names: "names_allowed open_bounds (wr_files second_writer)"
proof -
  have "name_len [0x61] = 4" by (simp add: name_len_def encode_utf16_def encode_utf16_char_def)
  moreover have "5 \<le> hb_bytes open_bounds"
    using \<open>name_len [0x61] = 4\<close> length_write_name [of "[0x61]"]
    by (simp add: open_bounds_def bounds_of_def written_header_def write_header_def second_writer_records stored_entry_def
      short_file_def write_files_info_def write_file_names_def write_property_def write_streams_info_def write_substreams_def)
  ultimately show ?thesis
    by (simp add: names_allowed_def name_allowed_def second_writer_records stored_entry_def short_file_def scalar_value_def
        encode_utf16_def encode_utf16_char_def open_limits limits_unlimited_def usize_max_def unlimited)
qed

lemma second_readable: "readable sum_env limits_unlimited second_writer"
proof -
  have one: "bl = [opened_block]" if "list_all2 (read_back open_bounds) [stored_record] bl" for bl
    using that stored_read_back by (auto simp: list_all2_Cons1)
  have total: "sum_list (map (\<lambda>b. length (coders b)) bl) \<le> unat (max_total_coders limits_unlimited)"
    if "list_all2 (read_back open_bounds) [stored_record] bl" for bl
    using one [OF that] opened_facts(1) by (simp add: limits_unlimited_def unlimited)
  have "within_limits sum_env limits_unlimited second_writer"
    using total stored_allowed open_count second_names stored_lists(3-5)
    unfolding within_limits_def Let_def open_bounds_def [unfolded bounds_of_def written_header_def, symmetric]
    by (simp add: second_writer_records(3) second_writer_fields(4))
  moreover have "last_checks limits_unlimited (described second_writer bl)"
    if "list_all2 (read_back open_bounds) [stored_record] bl" for bl
  proof -
    have "coders (final_block stored_record opened_block) = coders opened_block"
      by (simp add: final_block_def sized_block_def)
    with one [OF that] opened_facts(2) show ?thesis
      by (simp add: last_checks_def check_aes_work_def described_def header_archive_fields second_writer_records(3)) (simp add: limits_unlimited_def)
  qed
  ultimately show ?thesis
    using second_header_short by (simp add: readable_def open_bounds_def [symmetric] second_writer_records(3)) (simp add: limits_unlimited_def unlimited)
qed

end
