(* ===== verification/Ordered.thy ===== *)
theory Ordered
  imports Decoder_Memory
begin

text \<open>
  The ordered fan-out (\<^verbatim>\<open>src/src/ordered.rs\<close>): jobs produced on worker threads and consumed on the
  calling thread in their order. Everything a thread does between taking and releasing the mutex is
  one step on the shared state; the notifications it sends after that are steps of their own, and a
  thread that waits on a condition variable is roused by one, or for no reason at all.

  What the caller passes in is a program: \<open>prog\<close> for \<^verbatim>\<open>produce\<close>, which sends messages and is told
  whether each was accepted, \<open>cons\<close> for \<^verbatim>\<open>consume\<close>, which receives them. Either may panic. A worker's
  local state is threaded through its jobs, the consumer's state through all of them. The pace a
  worker asks for is any number, and asking does not panic.
\<close>

section \<open>The shared state\<close>

record 'm slot =
  sl_messages :: "('m \<times> nat) list"
  sl_weight :: nat
  sl_claimed :: bool
  sl_closed :: bool

definition slot_default :: "'m slot" where
  "slot_default = \<lparr>sl_messages = [], sl_weight = 0, sl_claimed = False, sl_closed = False\<rparr>"

record 'm pool =
  pl_next :: nat
  pl_busy :: nat
  pl_current :: nat
  pl_slots :: "'m slot list"
  pl_cancelled :: bool
  pl_live :: nat
  pl_sending :: nat

text \<open>The programs of the caller.\<close>

datatype ('m, 's) prog = Send 'm nat "bool \<Rightarrow> ('m, 's) prog" | Done 's | Panics

datatype ('m, 'c, 'e) cons = Recv "'m option \<Rightarrow> ('m, 'c, 'e) cons" | Return 'c "'e option" | ConsumePanics

text \<open>
  The arguments of a run. \<open>cf_init\<close> is what constructing the local state of a worker gives, \<open>None\<close> a
  panic; \<open>cf_paced\<close> says whether a pace was passed.
\<close>

record ('m, 's, 'c, 'e) config =
  cf_jobs :: nat
  cf_workers :: nat
  cf_window :: nat
  cf_cap :: nat
  cf_paced :: bool
  cf_init :: "nat \<Rightarrow> 's option"
  cf_produce :: "nat \<Rightarrow> 's \<Rightarrow> ('m, 's) prog"
  cf_consume :: "nat \<Rightarrow> 'c \<Rightarrow> ('m, 'c, 'e) cons"
  cf_start :: 'c

definition window_of :: "('m, 's, 'c, 'e) config \<Rightarrow> nat" where
  "window_of cf = max (cf_window cf) 1"

definition cap_of :: "('m, 's, 'c, 'e) config \<Rightarrow> nat" where
  "cap_of cf = max (cf_cap cf) 1"

definition threads_of :: "('m, 's, 'c, 'e) config \<Rightarrow> nat" where
  "threads_of cf = min (max (cf_workers cf) 1) (cf_jobs cf)"

definition pool_new :: "'m pool" where
  "pool_new = \<lparr>pl_next = 0, pl_busy = 0, pl_current = 0, pl_slots = [], pl_cancelled = False, pl_live = 0, pl_sending = 0\<rparr>"

text \<open>The slot of a job the caller has not passed, made if it is not there yet, and putting it back.\<close>

definition slot_mut :: "nat \<Rightarrow> 'm pool \<Rightarrow> ('m slot \<times> 'm pool) option" where
  "slot_mut job st =
     (if job < pl_current st then None
      else let index = job - pl_current st;
               slots = pl_slots st @ replicate (Suc index - length (pl_slots st)) slot_default
           in Some (slots ! index, st\<lparr>pl_slots := slots\<rparr>))"

definition put_slot :: "nat \<Rightarrow> 'm slot \<Rightarrow> 'm pool \<Rightarrow> 'm pool" where
  "put_slot job slot st = st\<lparr>pl_slots := (pl_slots st)[job - pl_current st := slot]\<rparr>"

section \<open>What happens under the lock\<close>

text \<open>The condition variables a thread notifies, in the order it does.\<close>

datatype notify = ChangedAll | ReadyOne | AdmissionAll | AdmissionOne

definition paced_note :: "('m, 's, 'c, 'e) config \<Rightarrow> notify list" where
  "paced_note cf = (if cf_paced cf then [AdmissionAll] else [])"

text \<open>
  One turn of the loop of \<^verbatim>\<open>Sender::send\<close>: whether the message was accepted, or nothing when the worker
  waits on \<^verbatim>\<open>changed\<close>; it has counted itself among the senders then.
\<close>

definition send_attempt :: "('m, 's, 'c, 'e) config \<Rightarrow> nat \<Rightarrow> 'm \<Rightarrow> nat \<Rightarrow> 'm pool \<Rightarrow> bool option \<times> 'm pool \<times> notify list" where
  "send_attempt cf job message weight st =
     (if pl_cancelled st then (Some False, st, [])
      else case slot_mut job st of
        None \<Rightarrow> (Some False, st, [])
      | Some (slot, st) \<Rightarrow>
          if sl_messages slot = [] \<or> usize_saturating_add (sl_weight slot) weight \<le> cap_of cf
          then (Some True, put_slot job (slot\<lparr>sl_messages := sl_messages slot @ [(message, weight)],
                  sl_weight := sl_weight slot + weight\<rparr>) st, ReadyOne # paced_note cf)
          else (None, st\<lparr>pl_sending := pl_sending st + 1\<rparr>, []))"

definition roused :: "'m pool \<Rightarrow> 'm pool" where
  "roused st = st\<lparr>pl_sending := pl_sending st - 1\<rparr>"

definition sender_drop :: "('m, 's, 'c, 'e) config \<Rightarrow> nat \<Rightarrow> 'm pool \<Rightarrow> 'm pool \<times> notify list" where
  "sender_drop cf job st =
     (let st = st\<lparr>pl_busy := pl_busy st - 1\<rparr>
      in (case slot_mut job st of None \<Rightarrow> st | Some (slot, st) \<Rightarrow> put_slot job (slot\<lparr>sl_closed := True\<rparr>) st,
          ReadyOne # paced_note cf))"

text \<open>One turn of the loop of \<^verbatim>\<open>Receiver::recv\<close>: what it returns, or nothing when the caller waits on \<^verbatim>\<open>ready\<close>.\<close>

definition recv_attempt :: "('m, 's, 'c, 'e) config \<Rightarrow> nat \<Rightarrow> 'm pool \<Rightarrow> 'm option option \<times> 'm pool \<times> notify list" where
  "recv_attempt cf job st = (case slot_mut job st of
      None \<Rightarrow> (Some None, st, [])
    | Some (slot, st) \<Rightarrow> (case sl_messages slot of
        (message, weight) # rest \<Rightarrow>
          (Some (Some message), put_slot job (slot\<lparr>sl_messages := rest, sl_weight := sl_weight slot - weight\<rparr>) st,
           (if pl_sending st \<noteq> 0 then [ChangedAll] else []) @ paced_note cf)
      | [] \<Rightarrow> if sl_closed slot \<or> \<not> sl_claimed slot \<and> pl_live st = 0 then (Some None, st, []) else (None, st, [])))"

definition cancel_guard :: "'m pool \<Rightarrow> 'm pool \<times> notify list" where
  "cancel_guard st = (st\<lparr>pl_cancelled := True\<rparr>, [ChangedAll, ReadyOne, AdmissionAll])"

definition live_guard :: "'m pool \<Rightarrow> 'm pool \<times> notify list" where
  "live_guard st = (st\<lparr>pl_live := pl_live st - 1\<rparr>, [ChangedAll, ReadyOne, AdmissionAll])"

text \<open>One turn of the inner loop of \<^verbatim>\<open>worker\<close>, with the width it was told.\<close>

datatype claim = Exits | Claims nat | Waits

definition claim_attempt :: "('m, 's, 'c, 'e) config \<Rightarrow> nat \<Rightarrow> 'm pool \<Rightarrow> claim \<times> 'm pool" where
  "claim_attempt cf width st =
     (if pl_cancelled st \<or> cf_jobs cf \<le> pl_next st then (Exits, st)
      else if pl_busy st < width \<and> pl_next st < pl_current st + window_of cf then
        let job = pl_next st; st = st\<lparr>pl_next := pl_next st + 1, pl_busy := pl_busy st + 1\<rparr>
        in (Claims job, case slot_mut job st of None \<Rightarrow> st | Some (slot, st) \<Rightarrow> put_slot job (slot\<lparr>sl_claimed := True\<rparr>) st)
      else (Waits, st))"

text \<open>What the caller does when it is done with a job.\<close>

definition advance :: "('m, 's, 'c, 'e) config \<Rightarrow> bool \<Rightarrow> 'm pool \<Rightarrow> 'm pool \<times> notify list" where
  "advance cf failed st =
     (st\<lparr>pl_slots := tl (pl_slots st), pl_current := pl_current st + 1, pl_cancelled := pl_cancelled st \<or> failed\<rparr>,
      [ChangedAll, if cf_paced cf \<or> failed then AdmissionAll else AdmissionOne])"

section \<open>The threads\<close>

text \<open>Where a worker is: \<open>Await\<dots>\<close> in a condition variable, \<open>Roused\<close> notified out of it while sending.\<close>

datatype ('m, 's) station =
    Unborn | Starting | Claiming 's | AwaitAdmission 's
  | Working nat "('m, 's) prog" | AwaitRoom nat 'm nat "bool \<Rightarrow> ('m, 's) prog" | Roused nat 'm nat "bool \<Rightarrow> ('m, 's) prog"
  | Leaving | Gone

text \<open>What the run comes to: \<^verbatim>\<open>None\<close>, the outcome with the consumer's state, or a panic.\<close>

datatype ('c, 'e) outcome = NotRun | Ended 'c "'e option" | Unwound

datatype ('m, 'c, 'e) caller =
    Spawning nat | Counted nat
  | Consuming nat "('m, 'c, 'e) cons" | AwaitReady nat "'m option \<Rightarrow> ('m, 'c, 'e) cons"
  | Passing nat 'c "'e option"
  | Cancelling "('c, 'e) outcome" | Joining "('c, 'e) outcome" | Returned "('c, 'e) outcome"

text \<open>
  A worker's step: its position, the shared state, its next position, the state, its notifications,
  and whether it panicked. \<^verbatim>\<open>thread::scope\<close> panics in the end when a worker did.
\<close>

inductive works :: "('m, 's, 'c, 'e) config \<Rightarrow> nat \<Rightarrow> ('m, 's) station \<Rightarrow> 'm pool
    \<Rightarrow> ('m, 's) station \<Rightarrow> 'm pool \<Rightarrow> notify list \<Rightarrow> bool \<Rightarrow> bool"
  for cf :: "('m, 's, 'c, 'e) config" and i :: nat where
  start: "cf_init cf i = Some x \<Longrightarrow> works cf i Starting st (Claiming x) st [] False"
| start_panics: "cf_init cf i = None \<Longrightarrow> works cf i Starting st Leaving st [] True"
| claims: "claim_attempt cf width st = (Claims job, st') \<Longrightarrow> width = (if cf_paced cf then max pace 1 else usize_max)
    \<Longrightarrow> works cf i (Claiming x) st (Working job (cf_produce cf job x)) st' [] False"
| waits: "claim_attempt cf width st = (Waits, st') \<Longrightarrow> width = (if cf_paced cf then max pace 1 else usize_max)
    \<Longrightarrow> works cf i (Claiming x) st (AwaitAdmission x) st' [] False"
| exits: "claim_attempt cf width st = (Exits, st') \<Longrightarrow> works cf i (Claiming x) st Leaving st' [] False"
| sends: "send_attempt cf job m w st = (Some b, st', ns) \<Longrightarrow> works cf i (Working job (Send m w k)) st (Working job (k b)) st' ns False"
| blocks: "send_attempt cf job m w st = (None, st', ns) \<Longrightarrow> works cf i (Working job (Send m w k)) st (AwaitRoom job m w k) st' ns False"
| sends_again: "send_attempt cf job m w (roused st) = (Some b, st', ns) \<Longrightarrow> works cf i (Roused job m w k) st (Working job (k b)) st' ns False"
| blocks_again: "send_attempt cf job m w (roused st) = (None, st', ns) \<Longrightarrow> works cf i (Roused job m w k) st (AwaitRoom job m w k) st' ns False"
| finishes: "sender_drop cf job st = (st', ns) \<Longrightarrow> works cf i (Working job (Done x)) st (Claiming x) st' ns False"
| panics: "sender_drop cf job st = (st', ns) \<Longrightarrow> works cf i (Working job Panics) st Leaving st' ns True"
| leaves: "live_guard st = (st', ns) \<Longrightarrow> works cf i Leaving st Gone st' ns False"

text \<open>The caller between spawning and joining: its next job, when there is one.\<close>

definition next_job :: "('m, 's, 'c, 'e) config \<Rightarrow> nat \<Rightarrow> 'c \<Rightarrow> ('m, 'c, 'e) caller" where
  "next_job cf job c = (if job < cf_jobs cf then Consuming job (cf_consume cf job c) else Cancelling (Ended c None))"

inductive calls :: "('m, 's, 'c, 'e) config \<Rightarrow> ('m, 'c, 'e) caller \<Rightarrow> 'm pool \<Rightarrow> ('m, 'c, 'e) caller \<Rightarrow> 'm pool \<Rightarrow> notify list \<Rightarrow> bool"
  for cf :: "('m, 's, 'c, 'e) config" where
  count: "i < threads_of cf \<Longrightarrow> calls cf (Spawning i) st (Counted i) (st\<lparr>pl_live := pl_live st + 1\<rparr>) []"
| spawn_fails: "calls cf (Counted i) st (if i = 0 then Returned NotRun else next_job cf 0 (cf_start cf))
    (st\<lparr>pl_live := pl_live st - 1\<rparr>) []"
| spawned_all: "i = threads_of cf \<Longrightarrow>
    calls cf (Spawning i) st (if i = 0 then Returned NotRun else next_job cf 0 (cf_start cf)) st []"
| receives: "recv_attempt cf job st = (Some x, st', ns) \<Longrightarrow> calls cf (Consuming job (Recv k)) st (Consuming job (k x)) st' ns"
| awaits: "recv_attempt cf job st = (None, st', ns) \<Longrightarrow> calls cf (Consuming job (Recv k)) st (AwaitReady job k) st' ns"
| returns: "calls cf (Consuming job (Return c e)) st (Passing job c e) st []"
| unwinds: "calls cf (Consuming job ConsumePanics) st (Cancelling Unwound) st []"
| passes: "advance cf (e \<noteq> None) st = (st', ns) \<Longrightarrow>
    calls cf (Passing job c e) st (if e \<noteq> None then Cancelling (Ended c e) else next_job cf (Suc job) c) st' ns"
| cancels: "cancel_guard st = (st', ns) \<Longrightarrow> calls cf (Cancelling r) st (Joining r) st' ns"

section \<open>The run\<close>

text \<open>\<open>rn_notes\<close> are the notifications a thread has still to send, \<open>None\<close> being the caller.\<close>

record ('m, 's, 'c, 'e) run =
  rn_pool :: "'m pool"
  rn_at :: "nat \<Rightarrow> ('m, 's) station"
  rn_caller :: "('m, 'c, 'e) caller"
  rn_notes :: "nat option \<Rightarrow> notify list"
  rn_panicked :: bool

definition run_inner :: "('m, 's, 'c, 'e) run" where
  "run_inner = \<lparr>rn_pool = pool_new, rn_at = (\<lambda>_. Unborn), rn_caller = Spawning 0, rn_notes = (\<lambda>_. []), rn_panicked = False\<rparr>"

definition rouse :: "('m, 's) station \<Rightarrow> ('m, 's) station" where
  "rouse p = (case p of AwaitRoom j m w k \<Rightarrow> Roused j m w k | _ \<Rightarrow> p)"

definition admit :: "('m, 's) station \<Rightarrow> ('m, 's) station" where
  "admit p = (case p of AwaitAdmission x \<Rightarrow> Claiming x | _ \<Rightarrow> p)"

definition ready :: "('m, 'c, 'e) caller \<Rightarrow> ('m, 'c, 'e) caller" where
  "ready q = (case q of AwaitReady j k \<Rightarrow> Consuming j (Recv k) | _ \<Rightarrow> q)"

text \<open>What a notification does to the threads; of those that wait, \<^verbatim>\<open>notify_one\<close> rouses any one.\<close>

inductive notified :: "notify \<Rightarrow> ('m, 's, 'c, 'e) run \<Rightarrow> ('m, 's, 'c, 'e) run \<Rightarrow> bool" where
  changed: "notified ChangedAll s (s\<lparr>rn_at := rouse \<circ> rn_at s\<rparr>)"
| ready: "notified ReadyOne s (s\<lparr>rn_caller := ready (rn_caller s)\<rparr>)"
| admission: "notified AdmissionAll s (s\<lparr>rn_at := admit \<circ> rn_at s\<rparr>)"
| admission_one: "rn_at s i = AwaitAdmission x \<Longrightarrow> notified AdmissionOne s (s\<lparr>rn_at := (rn_at s)(i := Claiming x)\<rparr>)"
| admission_none: "(\<And>i x. rn_at s i \<noteq> AwaitAdmission x) \<Longrightarrow> notified AdmissionOne s s"

inductive step :: "('m, 's, 'c, 'e) config \<Rightarrow> ('m, 's, 'c, 'e) run \<Rightarrow> ('m, 's, 'c, 'e) run \<Rightarrow> bool"
  for cf :: "('m, 's, 'c, 'e) config" where
  worker: "i < threads_of cf \<Longrightarrow> rn_notes s (Some i) = [] \<Longrightarrow> works cf i (rn_at s i) (rn_pool s) p st ns b \<Longrightarrow>
    step cf s (s\<lparr>rn_pool := st, rn_at := (rn_at s)(i := p), rn_notes := (rn_notes s)(Some i := ns), rn_panicked := rn_panicked s \<or> b\<rparr>)"
| caller: "rn_notes s None = [] \<Longrightarrow> calls cf (rn_caller s) (rn_pool s) q st ns \<Longrightarrow>
    step cf s (s\<lparr>rn_pool := st, rn_caller := q, rn_notes := (rn_notes s)(None := ns)\<rparr>)"
| spawn: "rn_notes s None = [] \<Longrightarrow> rn_caller s = Counted i \<Longrightarrow>
    step cf s (s\<lparr>rn_at := (rn_at s)(i := Starting), rn_caller := Spawning (Suc i)\<rparr>)"
| join: "rn_notes s None = [] \<Longrightarrow> rn_caller s = Joining r \<Longrightarrow> (\<And>i. rn_at s i \<in> {Unborn, Gone}) \<Longrightarrow> (\<And>t. rn_notes s t = []) \<Longrightarrow>
    step cf s (s\<lparr>rn_caller := Returned (if rn_panicked s then Unwound else r)\<rparr>)"
| notify: "rn_notes s t = n # ns \<Longrightarrow> notified n (s\<lparr>rn_notes := (rn_notes s)(t := ns)\<rparr>) s' \<Longrightarrow> step cf s s'"

text \<open>A thread may leave a condition variable without having been notified.\<close>

inductive spurious :: "('m, 's, 'c, 'e) run \<Rightarrow> ('m, 's, 'c, 'e) run \<Rightarrow> bool" where
  wakes_worker: "spurious s (s\<lparr>rn_at := (rn_at s)(i := rouse (admit (rn_at s i)))\<rparr>)"
| wakes_caller: "spurious s (s\<lparr>rn_caller := ready (rn_caller s)\<rparr>)"

inductive reach :: "('m, 's, 'c, 'e) config \<Rightarrow> ('m, 's, 'c, 'e) run \<Rightarrow> bool"
  for cf :: "('m, 's, 'c, 'e) config" where
  init: "reach cf run_inner"
| step: "reach cf s \<Longrightarrow> step cf s s' \<Longrightarrow> reach cf s'"
| spurious: "reach cf s \<Longrightarrow> spurious s s' \<Longrightarrow> reach cf s'"

end
