(* ===== verification/Ordered_Invariants.thy ===== *)
theory Ordered_Invariants
  imports Ordered "HOL-Library.More_List"
begin

text \<open>
  What holds in every state of the ordered fan-out, whatever the interleaving: the counters count,
  every job is held by one worker at most, the caller and the workers agree on the window, queues are
  bounded, and no thread sleeps through a change it waits for.
\<close>

section \<open>Slots\<close>

text \<open>The slot of a job, whether it has been made or not.\<close>

definition slot_at :: "'m pool \<Rightarrow> nat \<Rightarrow> 'm slot" where
  "slot_at st j = (if pl_current st \<le> j then nth_default slot_default (pl_slots st) (j - pl_current st) else slot_default)"

definition grown :: "nat \<Rightarrow> 'm pool \<Rightarrow> 'm pool" where
  "grown job st = st\<lparr>pl_slots := pl_slots st @ replicate (Suc (job - pl_current st) - length (pl_slots st)) slot_default\<rparr>"

lemma nth_default_put: "i < length xs \<Longrightarrow> nth_default d (xs[i := x]) j = (if j = i then x else nth_default d xs j)"
  by (simp add: nth_default_def nth_list_update)

lemma length_grown: "i < length (xs @ replicate (Suc i - length xs) d)"
  by simp

lemma slot_mut_simps [simp]:
  "job < pl_current st \<Longrightarrow> slot_mut job st = None"
  "pl_current st \<le> job \<Longrightarrow> slot_mut job st = Some (slot_at st job, grown job st)"
proof -
  assume "pl_current st \<le> job"
  moreover have "(pl_slots st @ replicate (Suc (job - pl_current st) - length (pl_slots st)) slot_default) ! (job - pl_current st)
      = nth_default slot_default (pl_slots st) (job - pl_current st)"
    using nth_default_nth [OF length_grown] nth_default_append_trailing by metis
  ultimately show "slot_mut job st = Some (slot_at st job, grown job st)"
    by (simp add: slot_mut_def grown_def slot_at_def)
qed (simp add: slot_mut_def)

lemma grown_fields [simp]:
  "pl_next (grown job st) = pl_next st" "pl_busy (grown job st) = pl_busy st" "pl_current (grown job st) = pl_current st"
  "pl_cancelled (grown job st) = pl_cancelled st" "pl_live (grown job st) = pl_live st" "pl_sending (grown job st) = pl_sending st"
  by (simp_all add: grown_def)

lemma put_slot_fields [simp]:
  "pl_next (put_slot job sl st) = pl_next st" "pl_busy (put_slot job sl st) = pl_busy st" "pl_current (put_slot job sl st) = pl_current st"
  "pl_cancelled (put_slot job sl st) = pl_cancelled st" "pl_live (put_slot job sl st) = pl_live st"
  "pl_sending (put_slot job sl st) = pl_sending st"
  by (simp_all add: put_slot_def)

lemma slot_at_grown [simp]: "slot_at (grown job st) = slot_at st"
  by (rule ext) (simp add: slot_at_def grown_def )

lemma slot_at_put [simp]: "pl_current st \<le> job \<Longrightarrow> slot_at (put_slot job sl (grown job st)) = (slot_at st)(job := sl)"
  by (rule ext) (auto simp: slot_at_def put_slot_def grown_def  nth_default_put length_grown)

lemma slot_at_update [simp]:
  "slot_at (st\<lparr>pl_next := x\<rparr>) = slot_at st" "slot_at (st\<lparr>pl_busy := x\<rparr>) = slot_at st"
  "slot_at (st\<lparr>pl_cancelled := b\<rparr>) = slot_at st" "slot_at (st\<lparr>pl_live := x\<rparr>) = slot_at st"
  "slot_at (st\<lparr>pl_sending := x\<rparr>) = slot_at st"
  by (auto simp: slot_at_def)

lemma slot_at_new [simp]: "slot_at pool_new j = slot_default"
  by (simp add: slot_at_def pool_new_def)

text \<open>The state but for slots that were made, and not used yet.\<close>

definition same_pool :: "'m pool \<Rightarrow> 'm pool \<Rightarrow> bool" where
  "same_pool st st' \<longleftrightarrow> pl_next st' = pl_next st \<and> pl_busy st' = pl_busy st \<and> pl_current st' = pl_current st
     \<and> pl_cancelled st' = pl_cancelled st \<and> pl_live st' = pl_live st \<and> pl_sending st' = pl_sending st \<and> slot_at st' = slot_at st"

section \<open>The operations, slot by slot\<close>

definition room :: "('m, 's, 'c, 'e) config \<Rightarrow> 'm pool \<Rightarrow> nat \<Rightarrow> nat \<Rightarrow> bool" where
  "room cf st j w \<longleftrightarrow> sl_messages (slot_at st j) = [] \<or> usize_saturating_add (sl_weight (slot_at st j)) w \<le> cap_of cf"

lemma send_attempt_cases:
  assumes "send_attempt cf j m w st = (x, st', ns)"
  obtains (refused) "pl_cancelled st \<or> j < pl_current st" "x = Some False" "st' = st" "ns = []"
  | (accepted) "\<not> pl_cancelled st" "pl_current st \<le> j" "room cf st j w" "x = Some True" "ns = ReadyOne # paced_note cf"
      "same_pool (put_slot j ((slot_at st j)\<lparr>sl_messages := sl_messages (slot_at st j) @ [(m, w)],
         sl_weight := sl_weight (slot_at st j) + w\<rparr>) (grown j st)) st'"
  | (full) "\<not> pl_cancelled st" "pl_current st \<le> j" "\<not> room cf st j w" "x = None" "ns = []"
      "same_pool (st\<lparr>pl_sending := pl_sending st + 1\<rparr>) st'"
  using assms by (cases "pl_cancelled st"; cases "j < pl_current st")
    (auto simp: send_attempt_def room_def same_pool_def not_less split: if_splits)

lemma recv_attempt_cases:
  assumes "recv_attempt cf j st = (x, st', ns)" "pl_current st \<le> j"
  obtains (message) m w ms where "sl_messages (slot_at st j) = (m, w) # ms" "x = Some (Some m)"
      "ns = (if pl_sending st \<noteq> 0 then [ChangedAll] else []) @ paced_note cf"
      "same_pool (put_slot j ((slot_at st j)\<lparr>sl_messages := ms, sl_weight := sl_weight (slot_at st j) - w\<rparr>) (grown j st)) st'"
  | (ended) "sl_messages (slot_at st j) = []" "sl_closed (slot_at st j) \<or> \<not> sl_claimed (slot_at st j) \<and> pl_live st = 0"
      "x = Some None" "ns = []" "same_pool st st'"
  | (open') "sl_messages (slot_at st j) = []" "\<not> sl_closed (slot_at st j)" "sl_claimed (slot_at st j) \<or> pl_live st \<noteq> 0"
      "x = None" "ns = []" "same_pool st st'"
proof (cases "sl_messages (slot_at st j)")
  case Nil
  with assms that(2,3) show thesis by (auto simp: recv_attempt_def same_pool_def split: if_splits)
next
  case (Cons a ms)
  obtain m w where "a = (m, w)" by fastforce
  with Cons assms show thesis by (intro that(1)) (auto simp: recv_attempt_def same_pool_def)
qed

lemma sender_drop_state:
  assumes "sender_drop cf j st = (st', ns)"
  shows "ns = ReadyOne # paced_note cf" "pl_next st' = pl_next st" "pl_busy st' = pl_busy st - 1" "pl_current st' = pl_current st"
    "pl_cancelled st' = pl_cancelled st" "pl_live st' = pl_live st" "pl_sending st' = pl_sending st"
    "slot_at st' = (if j < pl_current st then slot_at st else (slot_at st)(j := (slot_at st j)\<lparr>sl_closed := True\<rparr>))"
proof -
  have "st' = (if j < pl_current st then st\<lparr>pl_busy := pl_busy st - 1\<rparr>
      else put_slot j ((slot_at st j)\<lparr>sl_closed := True\<rparr>) (grown j (st\<lparr>pl_busy := pl_busy st - 1\<rparr>)))"
    using assms by (cases "j < pl_current st") (simp_all add: sender_drop_def not_less)
  then show "pl_next st' = pl_next st" "pl_busy st' = pl_busy st - 1" "pl_current st' = pl_current st"
    "pl_cancelled st' = pl_cancelled st" "pl_live st' = pl_live st" "pl_sending st' = pl_sending st"
    "slot_at st' = (if j < pl_current st then slot_at st else (slot_at st)(j := (slot_at st j)\<lparr>sl_closed := True\<rparr>))"
    by simp_all
qed (use assms in \<open>simp add: sender_drop_def Let_def\<close>)

lemma claim_attempt_cases:
  assumes "claim_attempt cf width st = (x, st')"
  obtains (leave) "pl_cancelled st \<or> cf_jobs cf \<le> pl_next st" "x = Exits" "st' = st"
  | (claim) "\<not> pl_cancelled st" "pl_next st < cf_jobs cf" "pl_busy st < width" "pl_next st < pl_current st + window_of cf"
      "x = Claims (pl_next st)" "pl_next st' = pl_next st + 1" "pl_busy st' = pl_busy st + 1" "pl_current st' = pl_current st"
      "pl_cancelled st' = pl_cancelled st" "pl_live st' = pl_live st" "pl_sending st' = pl_sending st"
      "slot_at st' = (if pl_next st < pl_current st then slot_at st
         else (slot_at st)(pl_next st := (slot_at st (pl_next st))\<lparr>sl_claimed := True\<rparr>))"
  | (wait) "\<not> pl_cancelled st" "pl_next st < cf_jobs cf" "width \<le> pl_busy st \<or> pl_current st + window_of cf \<le> pl_next st"
      "x = Waits" "st' = st"
proof (cases "pl_cancelled st \<or> cf_jobs cf \<le> pl_next st")
  case True
  show thesis by (rule that(1)) (use True assms in \<open>auto simp: claim_attempt_def\<close>)
next
  case False
  show thesis
  proof (cases "pl_busy st < width \<and> pl_next st < pl_current st + window_of cf")
    case True
    let ?st = "st\<lparr>pl_next := pl_next st + 1, pl_busy := pl_busy st + 1\<rparr>" and ?j = "pl_next st"
    have x: "x = Claims ?j" and st': "st' = (if ?j < pl_current st then ?st
        else put_slot ?j ((slot_at st ?j)\<lparr>sl_claimed := True\<rparr>) (grown ?j ?st))"
      using True False assms by (cases "?j < pl_current st"; simp add: claim_attempt_def Let_def not_less)+
    show thesis by (rule that(2)) (use True False x in \<open>simp_all add: st'\<close>)
  next
    case wait: False
    show thesis by (rule that(3)) (use wait False assms in \<open>auto simp: claim_attempt_def\<close>)
  qed
qed

lemma advance_state:
  assumes "advance cf failed st = (st', ns)"
  shows "ns = [ChangedAll, if cf_paced cf \<or> failed then AdmissionAll else AdmissionOne]" "pl_next st' = pl_next st"
    "pl_busy st' = pl_busy st" "pl_current st' = pl_current st + 1" "pl_cancelled st' = (pl_cancelled st \<or> failed)"
    "pl_live st' = pl_live st" "pl_sending st' = pl_sending st"
    "slot_at st' j = (if j \<le> pl_current st then slot_default else slot_at st j)"
proof -
  show "slot_at st' j = (if j \<le> pl_current st then slot_default else slot_at st j)"
  proof (cases "j \<le> pl_current st")
    case False
    then have "j - pl_current st = Suc (j - (pl_current st + 1))" by simp
    with False assms show ?thesis by (cases "pl_slots st") (auto simp: advance_def slot_at_def)
  qed (use assms in \<open>auto simp: advance_def slot_at_def\<close>)
qed (use assms in \<open>auto simp: advance_def\<close>)



section \<open>Counting threads\<close>

definition tally :: "nat \<Rightarrow> ('a \<Rightarrow> bool) \<Rightarrow> (nat \<Rightarrow> 'a) \<Rightarrow> nat" where
  "tally n P f = card {k. k < n \<and> P (f k)}"

lemma tally_upd: "i < n \<Longrightarrow> tally n P (f(i := y)) + of_bool (P (f i)) = tally n P f + of_bool (P y)"
proof -
  assume i: "i < n"
  let ?A = "{k. k < n \<and> k \<noteq> i \<and> P (f k)}"
  have split: "{k. k < n \<and> P (g k)} = (if P (g i) then insert i ?A else ?A)" if "\<And>k. k \<noteq> i \<Longrightarrow> g k = f k" for g
    using that i by auto (metis)+
  have "finite ?A" "i \<notin> ?A" by simp_all
  then show ?thesis using split [of f] split [of "f(i := y)"] by (simp add: tally_def)
qed

lemma tally_positive: "i < n \<Longrightarrow> P (f i) \<Longrightarrow> 0 < tally n P f"
  by (auto simp: tally_def card_gt_0_iff)

lemma tally_zero: "tally n P f = 0 \<Longrightarrow> i < n \<Longrightarrow> \<not> P (f i)"
  using tally_positive by fastforce

lemma tally_comp: "(\<And>p. P (g p) = P p) \<Longrightarrow> tally n P (g \<circ> f) = tally n P f"
  by (simp add: tally_def)

lemma tally_less: "i < n \<Longrightarrow> \<not> P (f i) \<Longrightarrow> tally n P f < n"
proof -
  assume "i < n" "\<not> P (f i)"
  then have "{k. k < n \<and> P (f k)} \<subset> {..<n}" by auto
  from psubset_card_mono [OF _ this] show ?thesis by (simp add: tally_def)
qed

text \<open>What a worker has in hand, whether it is among the senders that wait, whether it is alive.\<close>

fun holder :: "('m, 's) station \<Rightarrow> nat option" where
  "holder (Working j p) = Some j" | "holder (AwaitRoom j m w k) = Some j" | "holder (Roused j m w k) = Some j" | "holder _ = None"

fun blocked :: "('m, 's) station \<Rightarrow> bool" where
  "blocked (AwaitRoom j m w k) = True" | "blocked (Roused j m w k) = True" | "blocked _ = False"

fun present :: "('m, 's) station \<Rightarrow> bool" where
  "present Unborn = False" | "present Gone = False" | "present _ = True"

lemma roused_station [simp]:
  "holder (rouse p) = holder p" "blocked (rouse p) = blocked p" "present (rouse p) = present p"
  "holder (admit p) = holder p" "blocked (admit p) = blocked p" "present (admit p) = present p"
  "rouse p = Unborn \<longleftrightarrow> p = Unborn" "admit p = Unborn \<longleftrightarrow> p = Unborn"
  by (cases p; simp add: rouse_def admit_def)+

fun being_spawned :: "('m, 'c, 'e) caller \<Rightarrow> nat" where
  "being_spawned (Counted i) = 1" | "being_spawned _ = 0"

definition counters :: "('m, 's, 'c, 'e) config \<Rightarrow> ('m, 's, 'c, 'e) run \<Rightarrow> bool" where
  "counters cf s \<longleftrightarrow>
     pl_busy (rn_pool s) = tally (threads_of cf) (\<lambda>p. holder p \<noteq> None) (rn_at s)
   \<and> pl_sending (rn_pool s) = tally (threads_of cf) blocked (rn_at s)
   \<and> pl_live (rn_pool s) = tally (threads_of cf) present (rn_at s) + being_spawned (rn_caller s)
   \<and> (\<forall>i \<ge> threads_of cf. rn_at s i = Unborn)
   \<and> (\<forall>n. rn_caller s = Spawning n \<longrightarrow> n \<le> threads_of cf \<and> (\<forall>i \<ge> n. rn_at s i = Unborn))
   \<and> (\<forall>n. rn_caller s = Counted n \<longrightarrow> n < threads_of cf \<and> (\<forall>i \<ge> n. rn_at s i = Unborn))"

lemma works_tallies:
  assumes "works cf i (at i) st p st' ns b" "i < n"
    and "pl_busy st = tally n (\<lambda>p. holder p \<noteq> None) at" "pl_sending st = tally n blocked at" "pl_live st = tally n present at + d"
  shows "pl_busy st' = tally n (\<lambda>p. holder p \<noteq> None) (at(i := p))" "pl_sending st' = tally n blocked (at(i := p))"
    "pl_live st' = tally n present (at(i := p)) + d"
proof -
  note u = tally_upd [OF assms(2), of "\<lambda>p. holder p \<noteq> None" at p] tally_upd [OF assms(2), of blocked at p] tally_upd [OF assms(2), of present at p]
  have r: "pl_sending (roused st) = pl_sending st - 1" "pl_busy (roused st) = pl_busy st" "pl_live (roused st) = pl_live st"
    by (simp_all add: roused_def)
  have "pl_busy st' = tally n (\<lambda>p. holder p \<noteq> None) (at(i := p)) \<and> pl_sending st' = tally n blocked (at(i := p))
      \<and> pl_live st' = tally n present (at(i := p)) + d"
    using assms(1)
  proof (cases rule: works.cases)
    case (claims width job pace x)
    from claims(5) show ?thesis by (cases rule: claim_attempt_cases) (use u assms(3-5) claims(1,2) in simp_all)
  next
    case (waits width pace x)
    from waits(5) show ?thesis by (cases rule: claim_attempt_cases) (use u assms(3-5) waits(1,2) in simp_all)
  next
    case (exits width x)
    from exits(5) show ?thesis by (cases rule: claim_attempt_cases) (use u assms(3-5) exits(1,2) in simp_all)
  next
    case (sends job m w b k)
    from sends(4) show ?thesis by (cases rule: send_attempt_cases) (use u assms(3-5) sends(1,2) in \<open>simp_all add: same_pool_def\<close>)
  next
    case (blocks job m w k)
    from blocks(4) show ?thesis by (cases rule: send_attempt_cases) (use u assms(3-5) blocks(1,2) in \<open>simp_all add: same_pool_def\<close>)
  next
    case (sends_again job m w b k)
    from sends_again(4) show ?thesis
      by (cases rule: send_attempt_cases) (use u assms(3-5) r sends_again(1,2) in \<open>simp_all add: same_pool_def\<close>)
  next
    case (blocks_again job m w k)
    from blocks_again(4) show ?thesis
      by (cases rule: send_attempt_cases) (use u assms(3-5) r blocks_again(1,2) tally_positive [OF assms(2), of blocked at] in \<open>simp_all add: same_pool_def\<close>)
  next
    case (finishes job x)
    then show ?thesis using u assms(3-5) sender_drop_state [OF finishes(4)] by simp
  next
    case (panics job)
    then show ?thesis using u assms(3-5) sender_drop_state [OF panics(4)] by simp
  qed (use u assms(3-5) in \<open>auto simp: live_guard_def\<close>)
  then show "pl_busy st' = tally n (\<lambda>p. holder p \<noteq> None) (at(i := p))" "pl_sending st' = tally n blocked (at(i := p))"
    "pl_live st' = tally n present (at(i := p)) + d" by simp_all
qed


lemma works_station: "works cf i p st p' st' ns b \<Longrightarrow> p \<noteq> Unborn \<and> p \<noteq> Gone \<and> p' \<noteq> Unborn \<and> (\<forall>x. p \<noteq> AwaitAdmission x) \<and> (\<forall>j m w k. p \<noteq> AwaitRoom j m w k)"
  by (erule works.cases) simp_all

lemma recv_attempt_counters:
  "recv_attempt cf j st = (x, st', ns) \<Longrightarrow> pl_busy st' = pl_busy st \<and> pl_sending st' = pl_sending st \<and> pl_live st' = pl_live st
     \<and> pl_cancelled st' = pl_cancelled st \<and> pl_current st' = pl_current st \<and> pl_next st' = pl_next st"
  by (cases "j < pl_current st") (auto simp: recv_attempt_def not_less split: list.splits if_splits)

lemma next_job_spawned [simp]: "being_spawned (next_job cf j c) = 0" "next_job cf j c \<noteq> Spawning n" "next_job cf j c \<noteq> Counted n"
  "next_job cf j c \<noteq> AwaitReady i k" "next_job cf j c \<noteq> Joining r" "next_job cf j c \<noteq> Returned r" "next_job cf j c \<noteq> Passing i c' e"
  by (simp_all add: next_job_def)

lemma ready_caller [simp]: "being_spawned (ready q) = being_spawned q" "ready q = Spawning n \<longleftrightarrow> q = Spawning n" "ready q = Counted n \<longleftrightarrow> q = Counted n"
  "ready q = Cancelling r \<longleftrightarrow> q = Cancelling r" "ready q = Joining r \<longleftrightarrow> q = Joining r" "ready q = Returned r \<longleftrightarrow> q = Returned r"
  "ready q = Passing j c e \<longleftrightarrow> q = Passing j c e" "ready q \<noteq> AwaitReady j k"
  by (cases q; simp add: ready_def)+

lemma counters_calls:
  assumes "calls cf (rn_caller s) (rn_pool s) q st ns" "counters cf s"
  shows "counters cf (s\<lparr>rn_pool := st, rn_caller := q, rn_notes := f\<rparr>)"
  using assms(1)
proof (cases rule: calls.cases)
  case (receives job x k)
  with assms(2) recv_attempt_counters [OF receives(3)] show ?thesis by (simp add: counters_def)
next
  case (awaits job k)
  with assms(2) recv_attempt_counters [OF awaits(3)] show ?thesis by (simp add: counters_def)
next
  case (passes e job c)
  with assms(2) advance_state [OF passes(3)] show ?thesis by (auto simp: counters_def)
qed (use assms(2) in \<open>auto simp: counters_def cancel_guard_def\<close>)

lemma counters_notified:
  assumes "notified n s s'" "counters cf s"
  shows "counters cf s'"
  using assms
proof (cases rule: notified.cases)
  case (admission_one i x)
  then have "i < threads_of cf" using assms(2) by (auto simp: counters_def not_le [symmetric])
  with admission_one assms(2) tally_upd [OF this, of "\<lambda>p. holder p \<noteq> None" "rn_at s" "Claiming x"]
    tally_upd [OF this, of blocked "rn_at s" "Claiming x"] tally_upd [OF this, of present "rn_at s" "Claiming x"]
  show ?thesis by (auto simp: counters_def)
qed (auto simp: counters_def tally_comp)

lemma counters_step:
  assumes "step cf s s'" "counters cf s"
  shows "counters cf s'"
  using assms(1)
proof (cases rule: step.cases)
  case (worker i p st ns b)
  have i: "i < n" if "\<forall>k \<ge> n. rn_at s k = Unborn" for n
    using works_station [OF worker(4)] that by (meson not_le)
  have "pl_live (rn_pool s) = tally (threads_of cf) present (rn_at s) + being_spawned (rn_caller s)"
    "pl_busy (rn_pool s) = tally (threads_of cf) (\<lambda>p. holder p \<noteq> None) (rn_at s)"
    "pl_sending (rn_pool s) = tally (threads_of cf) blocked (rn_at s)" using assms(2) by (simp_all add: counters_def)
  note t = works_tallies [OF worker(4,2) this(2,3,1)]
  show ?thesis using t assms(2) i worker(2) by (fastforce simp: worker(1) counters_def)
next
  case (caller q st ns)
  with counters_calls [OF caller(3) assms(2)] show ?thesis by simp
next
  case (spawn i)
  then have i: "i < threads_of cf" "rn_at s i = Unborn" using assms(2) by (auto simp: counters_def)
  with spawn assms(2) tally_upd [OF i(1), of "\<lambda>p. holder p \<noteq> None" "rn_at s" Starting]
    tally_upd [OF i(1), of blocked "rn_at s" Starting] tally_upd [OF i(1), of present "rn_at s" Starting]
  show ?thesis by (auto simp: counters_def)
next
  case (notify t n ns)
  have "counters cf (s\<lparr>rn_notes := (rn_notes s)(t := ns)\<rparr>)" using assms(2) by (simp add: counters_def)
  with notify(2) show ?thesis by (rule counters_notified)
qed (use assms(2) in \<open>simp add: counters_def\<close>)

lemma counters_spurious:
  assumes "spurious s s'" "counters cf s"
  shows "counters cf s'"
  using assms(1)
proof (cases rule: spurious.cases)
  case (wakes_worker i)
  show ?thesis
  proof (cases "i < threads_of cf")
    case True
    let ?p = "rouse (admit (rn_at s i))"
    from tally_upd [OF True, of "\<lambda>p. holder p \<noteq> None" "rn_at s" ?p] tally_upd [OF True, of blocked "rn_at s" ?p]
      tally_upd [OF True, of present "rn_at s" ?p] assms(2) wakes_worker
    show ?thesis by (auto simp: counters_def)
  next
    case False
    then have "rn_at s i = Unborn" using assms(2) by (simp add: counters_def)
    then have "(rn_at s)(i := rouse (admit (rn_at s i))) = rn_at s" by (auto simp: rouse_def admit_def)
    with wakes_worker assms(2) show ?thesis by (simp add: counters_def)
  qed
qed (use assms(2) in \<open>simp add: counters_def\<close>)

lemma counters_init: "counters cf run_inner"
  by (simp add: counters_def run_inner_def pool_new_def tally_def)



section \<open>Jobs\<close>

text \<open>
  Jobs are claimed in order, within the window; a job is in one worker's hands at most, and one that
  the caller has not passed is in some worker's hands from its claim until its queue is closed.
\<close>

definition jobs_held :: "('m, 's, 'c, 'e) config \<Rightarrow> 'm pool \<Rightarrow> (nat \<Rightarrow> nat option) \<Rightarrow> bool" where
  "jobs_held cf st h \<longleftrightarrow> pl_next st \<le> cf_jobs cf \<and> pl_next st \<le> pl_current st + window_of cf
     \<and> (\<forall>i j. h i = Some j \<longrightarrow> j < pl_next st \<and> \<not> sl_closed (slot_at st j))
     \<and> (\<forall>i i' j. h i = Some j \<longrightarrow> h i' = Some j \<longrightarrow> i = i')
     \<and> (\<forall>j. pl_current st \<le> j \<longrightarrow> j < pl_next st \<longrightarrow> sl_claimed (slot_at st j) \<and> (sl_closed (slot_at st j) \<or> (\<exists>i. h i = Some j)))
     \<and> (\<forall>j \<ge> pl_next st. slot_at st j = slot_default)"

text \<open>A change of one queue's messages.\<close>

lemma jobs_held_messages:
  assumes "jobs_held cf st h" "pl_next st' = pl_next st" "pl_current st' = pl_current st"
    and "slot_at st' = (slot_at st)(j := (slot_at st j)\<lparr>sl_messages := ms, sl_weight := w\<rparr>)" "j < pl_next st"
  shows "jobs_held cf st' h"
  using assms unfolding jobs_held_def by (auto simp: fun_upd_apply)

lemma jobs_held_same: "jobs_held cf st h \<Longrightarrow> pl_next st' = pl_next st \<Longrightarrow> pl_current st' = pl_current st \<Longrightarrow> slot_at st' = slot_at st
    \<Longrightarrow> jobs_held cf st' h"
  unfolding jobs_held_def by simp

lemma jobs_held_send:
  assumes "send_attempt cf j m w st = (x, st', ns)" "jobs_held cf st h" "h i = Some j"
  shows "jobs_held cf st' h"
  using assms(1)
proof (cases rule: send_attempt_cases)
  case accepted
  from assms(2,3) have "j < pl_next st" by (auto simp: jobs_held_def)
  with accepted assms(2) show ?thesis by (intro jobs_held_messages [OF assms(2), of st' j]) (simp_all add: same_pool_def)
next
  case full
  then show ?thesis by (intro jobs_held_same [OF assms(2)]) (simp_all add: same_pool_def)
qed (use assms(2) in simp)

lemma jobs_held_claim:
  assumes "claim_attempt cf width st = (Claims j, st')" "jobs_held cf st h" "h i = None"
  shows "jobs_held cf st' (h(i := Some j))"
  using assms(1)
proof (cases rule: claim_attempt_cases)
  case claim
  from assms(2) have new: "slot_at st j = slot_default" "\<forall>k. h k \<noteq> Some j" using claim(5) by (auto simp: jobs_held_def)
  have slots: "slot_at st' = (if j < pl_current st then slot_at st else (slot_at st)(j := slot_default\<lparr>sl_claimed := True\<rparr>))"
    using claim(5,12) new by simp
  show ?thesis
    using assms(2,3) claim(2,4,5-8) new(2)
    unfolding jobs_held_def slots by (auto simp: fun_upd_apply less_Suc_eq slot_default_def) (metis option.distinct(1))+
qed simp_all

lemma jobs_held_drop:
  assumes "sender_drop cf j st = (st', ns)" "jobs_held cf st h" "h i = Some j"
  shows "jobs_held cf st' (h(i := None))"
proof -
  note d = sender_drop_state [OF assms(1)]
  have other: "h k \<noteq> Some j" if "k \<noteq> i" for k using assms(2,3) that by (auto simp: jobs_held_def)
  have next': "j < pl_next st" using assms(2,3) by (auto simp: jobs_held_def)
  have slots: "slot_at st' k = (if k = j \<and> pl_current st \<le> j then (slot_at st j)\<lparr>sl_closed := True\<rparr> else slot_at st k)" for k
    by (simp add: d(8))
  have "sl_claimed (slot_at st' k) \<and> (sl_closed (slot_at st' k) \<or> (\<exists>i'. (h(i := None)) i' = Some k))"
    if "pl_current st \<le> k" "k < pl_next st" for k
  proof (cases "k = j")
    case False
    have "sl_claimed (slot_at st k)" "sl_closed (slot_at st k) \<or> (\<exists>i'. h i' = Some k)" using assms(2) that by (auto simp: jobs_held_def)
    with False assms(3) show ?thesis by (auto simp: slots) (metis option.inject)
  qed (use assms(2) that in \<open>auto simp: slots jobs_held_def\<close>)
  moreover have "slot_at st' k = slot_default" if "pl_next st \<le> k" for k
    using assms(2) next' that by (simp add: slots jobs_held_def)
  moreover have "\<not> sl_closed (slot_at st' k)" if "(h(i := None)) i' = Some k" for k i'
    using assms(2) other that by (auto simp: slots jobs_held_def split: if_splits)
  ultimately show ?thesis using assms(2) unfolding jobs_held_def d(2,4) by (auto split: if_splits)
qed

lemma jobs_held_recv:
  assumes "recv_attempt cf j st = (x, st', ns)" "pl_current st \<le> j" "jobs_held cf st h"
  shows "jobs_held cf st' h"
  using assms(1,2)
proof (cases rule: recv_attempt_cases)
  case (message m w ms)
  have "j < pl_next st"
  proof (rule ccontr)
    assume "\<not> j < pl_next st"
    with assms(3) have "slot_at st j = slot_default" by (simp add: jobs_held_def)
    with message(1) show False by (simp add: slot_default_def)
  qed
  with message assms(2) show ?thesis by (intro jobs_held_messages [OF assms(3), of st' j]) (simp_all add: same_pool_def)
qed (use assms(3) in \<open>auto simp: same_pool_def intro: jobs_held_same\<close>)

lemma jobs_held_advance:
  assumes "advance cf failed st = (st', ns)" "jobs_held cf st h"
  shows "jobs_held cf st' h"
proof -
  note a = advance_state [OF assms(1)]
  have "slot_at st j = slot_default \<Longrightarrow> slot_at st' j = slot_default" for j by (simp add: a(8))
  moreover have "\<not> sl_closed (slot_at st' j)" if "\<not> sl_closed (slot_at st j)" for j
    using that by (simp add: a(8) slot_default_def)
  ultimately show ?thesis using assms(2) unfolding jobs_held_def a(2,4) by (auto simp: a(8))
qed

lemma holder_upd: "holder \<circ> at(i := p) = (holder \<circ> at)(i := holder p)"
  by (auto simp: fun_eq_iff)

lemma jobs_held_works:
  assumes "works cf i (at i) st p st' ns b" "jobs_held cf st (holder \<circ> at)"
  shows "jobs_held cf st' (holder \<circ> at(i := p))"
proof -
  have r: "jobs_held cf (roused st) (holder \<circ> at)" by (rule jobs_held_same [OF assms(2)]) (simp_all add: roused_def)
  have same: "(holder \<circ> at)(i := holder (at i)) = holder \<circ> at" by (simp add: fun_eq_iff)
  show ?thesis
    using assms(1) unfolding holder_upd
  proof (cases rule: works.cases)
    case (claims width job pace x)
    then show "jobs_held cf st' ((holder \<circ> at)(i := holder p))" using jobs_held_claim [OF claims(5) assms(2), of i] by simp
  next
    case (waits width pace x)
    from waits(5) show "jobs_held cf st' ((holder \<circ> at)(i := holder p))"
      by (cases rule: claim_attempt_cases) (use same assms(2) waits(1,2) in simp_all)
  next
    case (exits width x)
    from exits(5) show "jobs_held cf st' ((holder \<circ> at)(i := holder p))"
      by (cases rule: claim_attempt_cases) (use same assms(2) exits(1,2) in simp_all)
  next
    case (sends job m w b k)
    then show "jobs_held cf st' ((holder \<circ> at)(i := holder p))" using same jobs_held_send [OF sends(4) assms(2), of i] by simp
  next
    case (blocks job m w k)
    then show "jobs_held cf st' ((holder \<circ> at)(i := holder p))" using same jobs_held_send [OF blocks(4) assms(2), of i] by simp
  next
    case (sends_again job m w b k)
    then show "jobs_held cf st' ((holder \<circ> at)(i := holder p))" using same jobs_held_send [OF sends_again(4) r, of i] by simp
  next
    case (blocks_again job m w k)
    then show "jobs_held cf st' ((holder \<circ> at)(i := holder p))" using same jobs_held_send [OF blocks_again(4) r, of i] by simp
  next
    case (finishes job x)
    then show "jobs_held cf st' ((holder \<circ> at)(i := holder p))" using jobs_held_drop [OF finishes(4) assms(2), of i] by simp
  next
    case (panics job)
    then show "jobs_held cf st' ((holder \<circ> at)(i := holder p))" using jobs_held_drop [OF panics(4) assms(2), of i] by simp
  next
    case leaves
    then show "jobs_held cf st' ((holder \<circ> at)(i := holder p))"
      using same by (auto simp: live_guard_def intro: jobs_held_same [OF assms(2)])
  qed (use same assms(2) in simp_all)
qed


section \<open>The caller, and the weight of queues\<close>

definition caller_at :: "('m, 's, 'c, 'e) config \<Rightarrow> ('m, 'c, 'e) caller \<Rightarrow> 'm pool \<Rightarrow> bool" where
  "caller_at cf q st = (case q of
      Spawning n \<Rightarrow> \<not> pl_cancelled st \<and> pl_current st = 0
    | Counted n \<Rightarrow> \<not> pl_cancelled st \<and> pl_current st = 0
    | Consuming j p \<Rightarrow> \<not> pl_cancelled st \<and> pl_current st = j \<and> j < cf_jobs cf
    | AwaitReady j k \<Rightarrow> \<not> pl_cancelled st \<and> pl_current st = j \<and> j < cf_jobs cf
    | Passing j c e \<Rightarrow> \<not> pl_cancelled st \<and> pl_current st = j \<and> j < cf_jobs cf
    | Cancelling r \<Rightarrow> True
    | Joining r \<Rightarrow> pl_cancelled st
    | Returned r \<Rightarrow> True)"

definition queue_bounded :: "('m, 's, 'c, 'e) config \<Rightarrow> 'm slot \<Rightarrow> bool" where
  "queue_bounded cf sl \<longleftrightarrow> sl_weight sl = sum_list (map snd (sl_messages sl))
     \<and> (length (sl_messages sl) \<le> 1 \<or> min (sl_weight sl) usize_max \<le> cap_of cf)"

definition queues :: "('m, 's, 'c, 'e) config \<Rightarrow> 'm pool \<Rightarrow> bool" where
  "queues cf st \<longleftrightarrow> (\<forall>j. queue_bounded cf (slot_at st j))"

lemma works_pool:
  "works cf i p st p' st' ns b \<Longrightarrow> pl_current st' = pl_current st \<and> pl_cancelled st' = pl_cancelled st"
proof (induction rule: works.induct)
  case (claims width st job st' pace x)
  then show ?case by (cases rule: claim_attempt_cases) simp_all
next
  case (waits width st st' pace x)
  then show ?case by (cases rule: claim_attempt_cases) simp_all
next
  case (exits width st st' x)
  then show ?case by (cases rule: claim_attempt_cases) simp_all
next
  case (sends job m w st b st' ns k)
  then show ?case by (cases rule: send_attempt_cases) (simp_all add: same_pool_def)
next
  case (blocks job m w st st' ns k)
  then show ?case by (cases rule: send_attempt_cases) (simp_all add: same_pool_def)
next
  case (sends_again job m w st b st' ns k)
  then show ?case by (cases rule: send_attempt_cases) (simp_all add: same_pool_def roused_def)
next
  case (blocks_again job m w st st' ns k)
  then show ?case by (cases rule: send_attempt_cases) (simp_all add: same_pool_def roused_def)
next
  case (finishes job st st' ns x)
  then show ?case using sender_drop_state by metis
next
  case (panics job st st' ns)
  then show ?case using sender_drop_state by metis
qed (auto simp: live_guard_def)

lemma caller_at_calls:
  assumes "calls cf q st q' st' ns" "caller_at cf q st"
  shows "caller_at cf q' st'"
  using assms(1)
proof (cases rule: calls.cases)
  case (receives job x k)
  with recv_attempt_counters [OF receives(3)] assms(2) show ?thesis by (simp add: caller_at_def)
next
  case (awaits job k)
  with recv_attempt_counters [OF awaits(3)] assms(2) show ?thesis by (simp add: caller_at_def)
next
  case (passes e job c)
  with advance_state [OF passes(3)] assms(2) show ?thesis by (auto simp: caller_at_def next_job_def)
qed (use assms(2) in \<open>auto simp: caller_at_def next_job_def cancel_guard_def\<close>)

lemma queues_send:
  assumes "send_attempt cf j m w st = (x, st', ns)" "queues cf st"
  shows "queues cf st'"
  using assms(1)
proof (cases rule: send_attempt_cases)
  case accepted
  have "queue_bounded cf (slot_at st j)" using assms(2) by (simp add: queues_def)
  with accepted(2,3) have "queue_bounded cf ((slot_at st j)\<lparr>sl_messages := sl_messages (slot_at st j) @ [(m, w)], sl_weight := sl_weight (slot_at st j) + w\<rparr>)"
    by (auto simp: queue_bounded_def room_def usize_saturating_add_def)
  with accepted(2,6) assms(2) show ?thesis by (simp add: queues_def same_pool_def)
qed (use assms(2) in \<open>simp_all add: queues_def same_pool_def\<close>)

lemma queues_recv:
  assumes "recv_attempt cf j st = (x, st', ns)" "pl_current st \<le> j" "queues cf st"
  shows "queues cf st'"
  using assms(1,2)
proof (cases rule: recv_attempt_cases)
  case (message m w ms)
  have "queue_bounded cf (slot_at st j)" using assms(3) by (simp add: queues_def)
  with message(1) have "queue_bounded cf ((slot_at st j)\<lparr>sl_messages := ms, sl_weight := sl_weight (slot_at st j) - w\<rparr>)"
    by (auto simp: queue_bounded_def)
  with message(4) assms(2,3) show ?thesis by (simp add: queues_def same_pool_def)
qed (use assms(3) in \<open>simp_all add: queues_def same_pool_def\<close>)

lemma queues_roused: "queues cf (roused st) = queues cf st"
  by (simp add: queues_def roused_def)

lemma queues_works: "works cf i p st p' st' ns b \<Longrightarrow> queues cf st \<Longrightarrow> queues cf st'"
proof (induction rule: works.induct)
  case (claims width st job st' pace x)
  from claims(1) show ?case
    by (cases rule: claim_attempt_cases) (use claims(3) in \<open>auto simp: queues_def queue_bounded_def\<close>)
next
  case (waits width st st' pace x)
  from waits(1) show ?case by (cases rule: claim_attempt_cases) (use waits(3) in simp_all)
next
  case (exits width st st' x)
  from exits(1) show ?case by (cases rule: claim_attempt_cases) (use exits(2) in simp_all)
next
  case (finishes job st st' ns x)
  then show ?case by (auto simp: queues_def sender_drop_state [OF finishes(1)] queue_bounded_def)
next
  case (panics job st st' ns)
  then show ?case by (auto simp: queues_def sender_drop_state [OF panics(1)] queue_bounded_def)
next
  case (leaves st st' ns)
  then show ?case by (auto simp: live_guard_def queues_def)
next
  case (sends_again job m w st b st' ns k)
  then show ?case using queues_send [of cf job m w "roused st"] by (simp add: queues_roused)
next
  case (blocks_again job m w st st' ns k)
  then show ?case using queues_send [of cf job m w "roused st"] by (simp add: queues_roused)
qed (auto intro: queues_send)



section \<open>No wake-up is lost\<close>

definition pending :: "notify \<Rightarrow> (nat option \<Rightarrow> notify list) \<Rightarrow> bool" where
  "pending n notes \<longleftrightarrow> (\<exists>t. n \<in> set (notes t))"

definition active :: "('m, 's) station \<Rightarrow> bool" where
  "active p \<longleftrightarrow> present p \<and> (\<forall>x. p \<noteq> AwaitAdmission x)"

text \<open>
  A thread waits only as long as what it waits for has not come, or a notification that will rouse it
  is on its way. Of the workers that wait for admission one at least is roused when there is a place
  for it; another worker that is not waiting is one that will ask, or hand the place on.
\<close>

definition caller_woken :: "('m, 's, 'c, 'e) run \<Rightarrow> bool" where
  "caller_woken s \<longleftrightarrow> (\<forall>j k. rn_caller s = AwaitReady j k \<longrightarrow> pending ReadyOne (rn_notes s)
     \<or> (let sl = slot_at (rn_pool s) j in sl_messages sl = [] \<and> \<not> sl_closed sl \<and> (sl_claimed sl \<or> pl_live (rn_pool s) \<noteq> 0)))"

definition senders_woken :: "('m, 's, 'c, 'e) config \<Rightarrow> ('m, 's, 'c, 'e) run \<Rightarrow> bool" where
  "senders_woken cf s \<longleftrightarrow> (\<forall>i j m w k. rn_at s i = AwaitRoom j m w k \<longrightarrow> pending ChangedAll (rn_notes s)
     \<or> \<not> pl_cancelled (rn_pool s) \<and> pl_current (rn_pool s) \<le> j \<and> \<not> room cf (rn_pool s) j w)"

definition place_taken :: "('m, 's, 'c, 'e) config \<Rightarrow> 'm pool \<Rightarrow> bool" where
  "place_taken cf st \<longleftrightarrow> cf_jobs cf \<le> pl_next st \<or> pl_current st + window_of cf \<le> pl_next st \<or> cf_paced cf \<and> pl_busy st \<noteq> 0"

definition claimers_woken :: "('m, 's, 'c, 'e) config \<Rightarrow> ('m, 's, 'c, 'e) run \<Rightarrow> bool" where
  "claimers_woken cf s \<longleftrightarrow> (\<forall>i x. rn_at s i = AwaitAdmission x \<longrightarrow> pending AdmissionAll (rn_notes s)
     \<or> \<not> pl_cancelled (rn_pool s)
       \<and> (place_taken cf (rn_pool s) \<or> pending AdmissionOne (rn_notes s) \<or> (\<exists>i. active (rn_at s i))))"

lemma pending_upd: "notes t = [] \<Longrightarrow> pending n (notes(t := ns)) \<longleftrightarrow> pending n notes \<or> n \<in> set ns"
  unfolding pending_def by (metis fun_upd_other fun_upd_same list.set(1) empty_iff)

lemma pending_tl: "notes t = n # ns \<Longrightarrow> pending n' notes \<Longrightarrow> n' \<noteq> n \<Longrightarrow> pending n' (notes(t := ns))"
  unfolding pending_def by (metis fun_upd_other fun_upd_same list.set_intros(2) set_ConsD)

lemma pending_sub: "notes t = n # ns \<Longrightarrow> pending n' (notes(t := ns)) \<Longrightarrow> pending n' notes"
  unfolding pending_def by (metis fun_upd_other fun_upd_same list.set_intros(2))

text \<open>What a worker's step means to the threads that wait.\<close>

lemma works_ready:
  assumes "works cf i p st p' st' ns b" "pl_current st \<le> j"
  shows "ReadyOne \<in> set ns \<or> (sl_messages (slot_at st' j) = sl_messages (slot_at st j) \<and> sl_closed (slot_at st' j) = sl_closed (slot_at st j)
    \<and> (sl_claimed (slot_at st j) \<longrightarrow> sl_claimed (slot_at st' j)) \<and> pl_live st' = pl_live st)"
  using assms
proof (induction rule: works.induct)
  case (claims width st job st' pace x)
  from claims(1) show ?case by (cases rule: claim_attempt_cases) (auto simp: fun_upd_apply)
next
  case (waits width st st' pace x)
  from waits(1) show ?case by (cases rule: claim_attempt_cases) simp_all
next
  case (exits width st st' x)
  from exits(1) show ?case by (cases rule: claim_attempt_cases) simp_all
next
  case (sends job m w st b st' ns k)
  from sends(1) show ?case by (cases rule: send_attempt_cases) (simp_all add: same_pool_def)
next
  case (blocks job m w st st' ns k)
  from blocks(1) show ?case by (cases rule: send_attempt_cases) (simp_all add: same_pool_def)
next
  case (sends_again job m w st b st' ns k)
  from sends_again(1) show ?case by (cases rule: send_attempt_cases) (simp_all add: same_pool_def roused_def)
next
  case (blocks_again job m w st st' ns k)
  from blocks_again(1) show ?case by (cases rule: send_attempt_cases) (simp_all add: same_pool_def roused_def)
next
  case (finishes job st st' ns x)
  then show ?case using sender_drop_state(1) by (metis list.set_intros(1))
next
  case (panics job st st' ns)
  then show ?case using sender_drop_state(1) by (metis list.set_intros(1))
qed (auto simp: live_guard_def)

lemma works_room:
  assumes "works cf i p st p' st' ns b" "\<not> room cf st j w" "pl_current st \<le> j"
  shows "\<not> room cf st' j w"
  using assms
proof (induction rule: works.induct)
  case (claims width st job st' pace x)
  from claims(1) show ?case by (cases rule: claim_attempt_cases) (use claims(3,4) in \<open>auto simp: room_def\<close>)
next
  case (waits width st st' pace x)
  from waits(1) show ?case by (cases rule: claim_attempt_cases) (use waits(3) in simp_all)
next
  case (exits width st st' x)
  from exits(1) show ?case by (cases rule: claim_attempt_cases) (use exits(2) in simp_all)
next
  case (sends job m w' st b st' ns k)
  from sends(1) show ?case
    by (cases rule: send_attempt_cases) (use sends(2) in \<open>auto simp: same_pool_def room_def usize_saturating_add_def\<close>)
next
  case (blocks job m w' st st' ns k)
  from blocks(1) show ?case by (cases rule: send_attempt_cases) (use blocks(2) in \<open>simp_all add: same_pool_def room_def\<close>)
next
  case (sends_again job m w' st b st' ns k)
  from sends_again(1) show ?case
    by (cases rule: send_attempt_cases) (use sends_again(2) in \<open>auto simp: same_pool_def room_def usize_saturating_add_def roused_def\<close>)
next
  case (blocks_again job m w' st st' ns k)
  from blocks_again(1) show ?case
    by (cases rule: send_attempt_cases) (use blocks_again(2) in \<open>simp_all add: same_pool_def room_def roused_def\<close>)
next
  case (finishes job st st' ns x)
  then show ?case by (auto simp: room_def sender_drop_state(8) [OF finishes(1)])
next
  case (panics job st st' ns)
  then show ?case by (auto simp: room_def sender_drop_state(8) [OF panics(1)])
next
  case (leaves st st' ns)
  then show ?case by (auto simp: live_guard_def room_def)
qed simp_all


text \<open>Where a worker starts to wait, it waits rightly.\<close>

lemma works_waits:
  assumes "works cf i p st (AwaitAdmission x) st' ns b" "pl_busy st < usize_max"
  shows "\<not> pl_cancelled st' \<and> place_taken cf st'"
  using assms(1)
proof (cases rule: works.cases)
  case (waits width pace)
  from waits(4) show ?thesis
    by (cases rule: claim_attempt_cases) (use assms(2) waits(5) in \<open>auto simp: place_taken_def split: if_splits\<close>)
qed

lemma works_blocks:
  assumes "works cf i p st (AwaitRoom j m w k) st' ns b"
  shows "\<not> pl_cancelled st' \<and> pl_current st' \<le> j \<and> \<not> room cf st' j w"
  using assms
proof (cases rule: works.cases)
  case blocks
  from blocks(3) show ?thesis by (cases rule: send_attempt_cases) (auto simp: same_pool_def room_def)
next
  case blocks_again
  from blocks_again(3) show ?thesis by (cases rule: send_attempt_cases) (auto simp: same_pool_def room_def)
qed

lemma works_goes: "works cf i p st Gone st' ns b \<Longrightarrow> AdmissionAll \<in> set ns"
  by (erule works.cases) (auto simp: live_guard_def)

definition woken :: "('m, 's, 'c, 'e) config \<Rightarrow> ('m, 's, 'c, 'e) run \<Rightarrow> bool" where
  "woken cf s \<longleftrightarrow> caller_woken s \<and> senders_woken cf s \<and> claimers_woken cf s"

lemma woken_works:
  assumes w: "works cf i (rn_at s i) (rn_pool s) p st ns b" and quiet: "rn_notes s (Some i) = []" and i: "i < threads_of cf"
    and c: "counters cf s" "caller_at cf (rn_caller s) (rn_pool s)" "cf_jobs cf \<le> usize_max" and wk: "woken cf s"
  shows "woken cf (s\<lparr>rn_pool := st, rn_at := (rn_at s)(i := p), rn_notes := (rn_notes s)(Some i := ns), rn_panicked := b'\<rparr>)"
    (is "woken cf ?s")
proof -
  note pend = pending_upd [of "rn_notes s" "Some i", OF quiet]
  note pool = works_pool [OF w]
  have "caller_woken ?s"
    unfolding caller_woken_def
  proof (intro allI impI)
    fix j k assume q: "rn_caller ?s = AwaitReady j k"
    then have "pl_current (rn_pool s) \<le> j" using c(2) by (simp add: caller_at_def)
    with works_ready [OF w this] q wk show "pending ReadyOne (rn_notes ?s) \<or> (let sl = slot_at (rn_pool ?s) j in
        sl_messages sl = [] \<and> \<not> sl_closed sl \<and> (sl_claimed sl \<or> pl_live (rn_pool ?s) \<noteq> 0))"
      by (auto simp: woken_def caller_woken_def Let_def pend)
  qed
  moreover have "senders_woken cf ?s"
    unfolding senders_woken_def
  proof (intro allI impI)
    fix k j m v f assume a: "rn_at ?s k = AwaitRoom j m v f"
    show "pending ChangedAll (rn_notes ?s) \<or> \<not> pl_cancelled (rn_pool ?s) \<and> pl_current (rn_pool ?s) \<le> j \<and> \<not> room cf (rn_pool ?s) j v"
    proof (cases "k = i")
      case True
      with a w show ?thesis by (auto dest: works_blocks)
    next
      case False
      with a have "rn_at s k = AwaitRoom j m v f" by simp
      with wk have "pending ChangedAll (rn_notes s) \<or> \<not> pl_cancelled (rn_pool s) \<and> pl_current (rn_pool s) \<le> j \<and> \<not> room cf (rn_pool s) j v"
        unfolding woken_def senders_woken_def by blast
      with works_room [OF w] pool show ?thesis by (auto simp: pend)
    qed
  qed
  moreover have "claimers_woken cf ?s"
    unfolding claimers_woken_def
  proof (intro allI impI)
    fix k x assume a: "rn_at ?s k = AwaitAdmission x"
    have gone: "active p \<or> (\<exists>x. p = AwaitAdmission x) \<or> p = Gone" using works_station [OF w] by (cases p) (auto simp: active_def)
    have "\<not> holder (rn_at s i) \<noteq> None \<or> (\<forall>x. p \<noteq> AwaitAdmission x)" using w by (cases rule: works.cases) auto
    then have "p = AwaitAdmission y \<Longrightarrow> pl_busy (rn_pool s) < usize_max" for y
      using c(1,3) tally_less [OF i, of "\<lambda>p. holder p \<noteq> None" "rn_at s"] by (auto simp: counters_def threads_of_def)
    then have taken: "p = AwaitAdmission y \<Longrightarrow> \<not> pl_cancelled st \<and> place_taken cf st" for y
      using works_waits [of cf i "rn_at s i" "rn_pool s" y st ns b] w by simp
    show "pending AdmissionAll (rn_notes ?s) \<or> \<not> pl_cancelled (rn_pool ?s)
        \<and> (place_taken cf (rn_pool ?s) \<or> pending AdmissionOne (rn_notes ?s) \<or> (\<exists>i. active (rn_at ?s i)))"
    proof (cases "k = i")
      case True
      with a taken show ?thesis by auto
    next
      case False
      with a wk have "pending AdmissionAll (rn_notes s) \<or> \<not> pl_cancelled (rn_pool s)" by (auto simp: woken_def claimers_woken_def)
      with gone taken works_goes [of cf i "rn_at s i" "rn_pool s" st ns b] w pool show ?thesis by (auto simp: pend)
    qed
  qed
  ultimately show ?thesis by (simp add: woken_def)
qed


text \<open>The caller's steps: the queue it takes from is the one it waits for, and it tells whom it makes room.\<close>

lemma sending_positive:
  assumes "counters cf s" "rn_at s i = AwaitRoom j m w k"
  shows "pl_sending (rn_pool s) \<noteq> 0"
proof -
  have "i < threads_of cf" using assms by (auto simp: counters_def not_le [symmetric])
  with assms tally_positive [OF this, of blocked "rn_at s"] show ?thesis by (simp add: counters_def)
qed

lemma calls_room:
  assumes "calls cf q st q' st' ns" "\<not> pl_cancelled st" "pl_current st \<le> j" "\<not> room cf st j w" "pl_sending st \<noteq> 0" "caller_at cf q st"
  shows "ChangedAll \<in> set ns \<or> \<not> pl_cancelled st' \<and> pl_current st' \<le> j \<and> \<not> room cf st' j w"
  using assms(1)
proof (cases rule: calls.cases)
  case (receives job x k)
  then have "pl_current st \<le> job" using assms(6) by (simp add: caller_at_def)
  with receives(3) show ?thesis by (cases rule: recv_attempt_cases) (use assms in \<open>auto simp: same_pool_def room_def\<close>)
next
  case (awaits job k)
  then have "pl_current st \<le> job" using assms(6) by (simp add: caller_at_def)
  with awaits(3) show ?thesis by (cases rule: recv_attempt_cases) (use assms in \<open>auto simp: same_pool_def room_def\<close>)
next
  case (passes e job c)
  with advance_state [OF passes(3)] show ?thesis by simp
qed (use assms in \<open>auto simp: cancel_guard_def room_def\<close>)

lemma calls_place:
  assumes "calls cf q st q' st' ns" "\<not> pl_cancelled st"
  shows "AdmissionAll \<in> set ns \<or> \<not> pl_cancelled st' \<and> (place_taken cf st \<longrightarrow> place_taken cf st' \<or> AdmissionOne \<in> set ns)"
  using assms(1)
proof (cases rule: calls.cases)
  case (receives job x k)
  with recv_attempt_counters [OF receives(3)] assms(2) show ?thesis by (simp add: place_taken_def)
next
  case (awaits job k)
  with recv_attempt_counters [OF awaits(3)] assms(2) show ?thesis by (simp add: place_taken_def)
next
  case (passes e job c)
  with advance_state [OF passes(3)] assms(2) show ?thesis by auto
qed (use assms in \<open>auto simp: cancel_guard_def place_taken_def\<close>)

lemma calls_awaits:
  assumes "calls cf q st (AwaitReady j k) st' ns" "caller_at cf q st"
  shows "let sl = slot_at st' j in sl_messages sl = [] \<and> \<not> sl_closed sl \<and> (sl_claimed sl \<or> pl_live st' \<noteq> 0)"
  using assms(1)
proof (cases rule: calls.cases)
  case awaits
  then have "pl_current st \<le> j" using assms(2) by (simp add: caller_at_def)
  with awaits(2) show ?thesis by (cases rule: recv_attempt_cases) (auto simp: same_pool_def Let_def)
qed (auto simp: next_job_def split: if_splits)

lemma calls_cancelled: "calls cf q st q' st' ns \<Longrightarrow> pl_cancelled st \<Longrightarrow> pl_cancelled st'"
  by (erule calls.cases) (auto simp: cancel_guard_def dest: recv_attempt_counters advance_state(5))

lemma woken_calls:
  assumes q: "calls cf (rn_caller s) (rn_pool s) q st ns" and quiet: "rn_notes s None = []"
    and c: "counters cf s" "caller_at cf (rn_caller s) (rn_pool s)" and wk: "woken cf s"
  shows "woken cf (s\<lparr>rn_pool := st, rn_caller := q, rn_notes := (rn_notes s)(None := ns)\<rparr>)" (is "woken cf ?s")
proof -
  note pend = pending_upd [of "rn_notes s" None, OF quiet]
  have "caller_woken ?s" unfolding caller_woken_def using calls_awaits [of cf "rn_caller s" "rn_pool s" _ _ st ns] q c(2) by (auto simp: Let_def)
  moreover have "senders_woken cf ?s"
    unfolding senders_woken_def
  proof (intro allI impI)
    fix i j m v f assume a: "rn_at ?s i = AwaitRoom j m v f"
    then have a': "rn_at s i = AwaitRoom j m v f" by simp
    with wk have "pending ChangedAll (rn_notes s) \<or> \<not> pl_cancelled (rn_pool s) \<and> pl_current (rn_pool s) \<le> j \<and> \<not> room cf (rn_pool s) j v"
      unfolding woken_def senders_woken_def by blast
    with calls_room [OF q _ _ _ sending_positive [OF c(1) a'] c(2)]
    show "pending ChangedAll (rn_notes ?s) \<or> \<not> pl_cancelled (rn_pool ?s) \<and> pl_current (rn_pool ?s) \<le> j \<and> \<not> room cf (rn_pool ?s) j v"
      by (auto simp: pend)
  qed
  moreover have "claimers_woken cf ?s"
    using wk calls_place [OF q] by (auto simp: woken_def claimers_woken_def pend)
  ultimately show ?thesis by (simp add: woken_def)
qed

lemma active_roused [simp]: "active (rouse p) = active p" "active p \<Longrightarrow> active (admit p)" "rouse p = AwaitAdmission x \<longleftrightarrow> p = AwaitAdmission x"
  "admit p = AwaitRoom j m w k \<longleftrightarrow> p = AwaitRoom j m w k" "rouse p \<noteq> AwaitRoom j m w k" "admit p \<noteq> AwaitAdmission x"
  by (cases p; simp add: active_def rouse_def admit_def)+

lemma woken_notified:
  assumes n: "notified n (s\<lparr>rn_notes := (rn_notes s)(t := ns)\<rparr>) s'" and t: "rn_notes s t = n # ns" and wk: "woken cf s"
  shows "woken cf s'"
proof -
  note pend = pending_tl [of "rn_notes s" t, OF t]
  from n show ?thesis
  proof (cases rule: notified.cases)
    case changed
    have "caller_woken s'" using wk pend changed by (auto simp: woken_def caller_woken_def)
    moreover have "senders_woken cf s'" using changed by (simp add: senders_woken_def)
    moreover have "claimers_woken cf s'" using wk pend changed by (fastforce simp: woken_def claimers_woken_def)
    ultimately show ?thesis by (simp add: woken_def)
  next
    case ready
    have "senders_woken cf s'" using wk pend ready by (fastforce simp: woken_def senders_woken_def)
    moreover have "claimers_woken cf s'" using wk pend ready by (fastforce simp: woken_def claimers_woken_def)
    ultimately show ?thesis using ready by (simp add: woken_def caller_woken_def)
  next
    case admission
    have "caller_woken s'" using wk pend admission by (auto simp: woken_def caller_woken_def)
    moreover have "senders_woken cf s'" using wk pend admission by (fastforce simp: woken_def senders_woken_def)
    ultimately show ?thesis using admission by (simp add: woken_def claimers_woken_def)
  next
    case (admission_one i x)
    have "caller_woken s'" using wk pend admission_one by (auto simp: woken_def caller_woken_def)
    moreover have "senders_woken cf s'" using wk pend admission_one by (fastforce simp: woken_def senders_woken_def)
    moreover have "active (rn_at s' i)" using admission_one by (simp add: active_def)
    then have "claimers_woken cf s'" using wk pend admission_one by (fastforce simp: woken_def claimers_woken_def)
    ultimately show ?thesis by (simp add: woken_def)
  next
    case admission_none
    have "caller_woken s'" using wk pend admission_none by (auto simp: woken_def caller_woken_def)
    moreover have "senders_woken cf s'" using wk pend admission_none by (fastforce simp: woken_def senders_woken_def)
    ultimately show ?thesis using admission_none by (simp add: woken_def claimers_woken_def)
  qed
qed


lemma woken_spurious:
  assumes "spurious s s'" "woken cf s"
  shows "woken cf s'"
  using assms(1)
proof (cases rule: spurious.cases)
  case (wakes_worker i)
  let ?p = "rouse (admit (rn_at s i))"
  have p: "?p \<noteq> AwaitRoom j m w k" "?p \<noteq> AwaitAdmission x" for j m w k x by simp_all
  have act: "active (rn_at s k) \<Longrightarrow> active (rn_at s' k)" for k by (auto simp: wakes_worker)
  have fields: "rn_pool s' = rn_pool s" "rn_notes s' = rn_notes s" "rn_caller s' = rn_caller s" by (simp_all add: wakes_worker)
  have at: "rn_at s' k = AwaitRoom j m w f \<Longrightarrow> rn_at s k = AwaitRoom j m w f" "rn_at s' k = AwaitAdmission x \<Longrightarrow> rn_at s k = AwaitAdmission x"
    for k j m w f x by (auto simp: wakes_worker split: if_splits)
  have "senders_woken cf s'" unfolding senders_woken_def fields
  proof (intro allI impI)
    fix k j m v f assume "rn_at s' k = AwaitRoom j m v f"
    from at(1) [OF this] assms(2) show "pending ChangedAll (rn_notes s) \<or> \<not> pl_cancelled (rn_pool s) \<and> pl_current (rn_pool s) \<le> j \<and> \<not> room cf (rn_pool s) j v"
      unfolding woken_def senders_woken_def by blast
  qed
  moreover have "claimers_woken cf s'" unfolding claimers_woken_def fields
  proof (intro allI impI)
    fix k x assume "rn_at s' k = AwaitAdmission x"
    from at(2) [OF this] assms(2) act show "pending AdmissionAll (rn_notes s) \<or> \<not> pl_cancelled (rn_pool s)
        \<and> (place_taken cf (rn_pool s) \<or> pending AdmissionOne (rn_notes s) \<or> (\<exists>i. active (rn_at s' i)))"
      unfolding woken_def claimers_woken_def by blast
  qed
  moreover have "caller_woken s'" using assms(2) by (simp add: woken_def caller_woken_def fields)
  ultimately show ?thesis by (simp add: woken_def)
next
  case wakes_caller
  have "senders_woken cf s'" "claimers_woken cf s'" using assms(2) by (simp_all add: woken_def senders_woken_def claimers_woken_def wakes_caller)
  then show ?thesis by (simp add: woken_def caller_woken_def wakes_caller)
qed

lemma woken_spawn:
  assumes "woken cf s" "rn_at s i = Unborn"
  shows "woken cf (s\<lparr>rn_at := (rn_at s)(i := Starting), rn_caller := Spawning (Suc i)\<rparr>)" (is "woken cf ?s")
proof -
  have act: "active (rn_at s k) \<Longrightarrow> active (rn_at ?s k)" for k using assms(2) by (simp add: active_def)
  have "claimers_woken cf ?s" unfolding claimers_woken_def
  proof (intro allI impI)
    fix k x assume "rn_at ?s k = AwaitAdmission x"
    then have "rn_at s k = AwaitAdmission x" by (simp split: if_splits)
    with assms(1) act show "pending AdmissionAll (rn_notes ?s) \<or> \<not> pl_cancelled (rn_pool ?s)
        \<and> (place_taken cf (rn_pool ?s) \<or> pending AdmissionOne (rn_notes ?s) \<or> (\<exists>i. active (rn_at ?s i)))"
      unfolding woken_def claimers_woken_def by (metis (no_types, lifting) run.select_convs(1,4) run.surjective run.update_convs(2,3))
  qed
  moreover have "senders_woken cf ?s" using assms(1) by (auto simp: woken_def senders_woken_def)
  ultimately show ?thesis by (simp add: woken_def caller_woken_def)
qed

section \<open>Every reachable state\<close>

definition sound :: "('m, 's, 'c, 'e) config \<Rightarrow> ('m, 's, 'c, 'e) run \<Rightarrow> bool" where
  "sound cf s \<longleftrightarrow> counters cf s \<and> jobs_held cf (rn_pool s) (holder \<circ> rn_at s) \<and> caller_at cf (rn_caller s) (rn_pool s)
     \<and> queues cf (rn_pool s) \<and> woken cf s"


lemma calls_held:
  assumes "calls cf q st q' st' ns" "jobs_held cf st h" "caller_at cf q st" "queues cf st"
  shows "jobs_held cf st' h \<and> queues cf st'"
  using assms(1)
proof (cases rule: calls.cases)
  case (receives job x k)
  then have "pl_current st \<le> job" using assms(3) by (simp add: caller_at_def)
  with jobs_held_recv [OF receives(3)] queues_recv [OF receives(3)] assms(2,4) show ?thesis by simp
next
  case (awaits job k)
  then have "pl_current st \<le> job" using assms(3) by (simp add: caller_at_def)
  with jobs_held_recv [OF awaits(3)] queues_recv [OF awaits(3)] assms(2,4) show ?thesis by simp
next
  case (passes e job c)
  with jobs_held_advance [OF passes(3) assms(2)] assms(4) show ?thesis
    by (auto simp: queues_def advance_state(8) [OF passes(3)] queue_bounded_def slot_default_def)
qed (use assms(2,4) in \<open>auto simp: cancel_guard_def queues_def intro: jobs_held_same\<close>)

lemma holder_roused [simp]: "holder \<circ> (rouse \<circ> f) = holder \<circ> f" "holder \<circ> (admit \<circ> f) = holder \<circ> f"
  by (simp_all add: fun_eq_iff)

lemma notified_kept:
  assumes "notified n s s'"
  shows "rn_pool s' = rn_pool s" "holder \<circ> rn_at s' = holder \<circ> rn_at s"
    "caller_at cf (rn_caller s) (rn_pool s) \<Longrightarrow> caller_at cf (rn_caller s') (rn_pool s')"
    "rn_notes s' = rn_notes s" "rn_panicked s' = rn_panicked s"
  using assms by (cases rule: notified.cases; force simp: fun_eq_iff caller_at_def ready_def split: caller.splits)+

lemma spurious_kept:
  assumes "spurious s s'"
  shows "rn_pool s' = rn_pool s" "holder \<circ> rn_at s' = holder \<circ> rn_at s"
    "caller_at cf (rn_caller s) (rn_pool s) \<Longrightarrow> caller_at cf (rn_caller s') (rn_pool s')"
    "rn_notes s' = rn_notes s" "rn_panicked s' = rn_panicked s"
  using assms by (cases rule: spurious.cases; force simp: fun_eq_iff caller_at_def ready_def split: caller.splits)+

lemma sound_step:
  assumes "step cf s s'" "sound cf s" "cf_jobs cf \<le> usize_max"
  shows "sound cf s'"
proof -
  note i = assms(2) [unfolded sound_def]
  have c: "counters cf s'" using counters_step [OF assms(1)] i by blast
  from assms(1) show ?thesis
  proof (cases rule: step.cases)
    case (worker i p st ns b)
    have "caller_at cf (rn_caller s) st" using works_pool [OF worker(4)] i by (auto simp: caller_at_def split: caller.splits)
    with woken_works [OF worker(4,3,2)] jobs_held_works [of cf i "rn_at s", OF worker(4)] queues_works [OF worker(4)] c i assms(3) show ?thesis
      unfolding sound_def worker(1) by simp
  next
    case (caller q st ns)
    with woken_calls [OF caller(3,2)] calls_held [OF caller(3), of "holder \<circ> rn_at s"] caller_at_calls [OF caller(3)] c i show ?thesis
      unfolding sound_def by simp
  next
    case (spawn i)
    have un: "rn_at s i = Unborn" using spawn i by (auto simp: counters_def)
    then have "holder \<circ> (rn_at s)(i := Starting) = holder \<circ> rn_at s" by (simp add: fun_eq_iff)
    with woken_spawn [OF _ un] spawn c i show ?thesis by (simp add: sound_def caller_at_def)
  next
    case (join r)
    have "rn_at s i \<noteq> AwaitRoom j m w k" "rn_at s i \<noteq> AwaitAdmission x" for i j m w k x using join(4) [of i] by auto
    with c i join show ?thesis by (simp add: sound_def caller_at_def woken_def caller_woken_def senders_woken_def claimers_woken_def)
  next
    case (notify t n ns)
    with woken_notified [OF notify(2,1)] notified_kept [OF notify(2)] c i show ?thesis by (auto simp: sound_def)
  qed
qed

lemma sound_spurious: "spurious s s' \<Longrightarrow> sound cf s \<Longrightarrow> sound cf s'"
  using counters_spurious [of s s' cf] woken_spurious [of s s' cf] spurious_kept [of s s'] unfolding sound_def by auto

lemma sound_init: "sound cf run_inner"
  using counters_init [of cf]
  by (simp add: sound_def run_inner_def jobs_held_def caller_at_def queues_def queue_bounded_def woken_def caller_woken_def
      senders_woken_def claimers_woken_def)
     (simp add: pool_new_def slot_default_def)

lemma reach_sound: "reach cf s \<Longrightarrow> cf_jobs cf \<le> usize_max \<Longrightarrow> sound cf s"
  by (induction rule: reach.induct) (auto intro: sound_init sound_step sound_spurious)


text \<open>What is staged between the workers and the caller.\<close>

definition queued_weight :: "'m pool \<Rightarrow> nat \<Rightarrow> nat" where
  "queued_weight st j = sum_list (map snd (sl_messages (slot_at st j)))"

lemma queue_weight_bounded:
  assumes "sound cf s" "cap_of cf < usize_max" "\<And>m w. (m, w) \<in> set (sl_messages (slot_at (rn_pool s) j)) \<Longrightarrow> w \<le> b"
  shows "queued_weight (rn_pool s) j \<le> max (cap_of cf) b"
proof -
  let ?ms = "sl_messages (slot_at (rn_pool s) j)"
  have "queue_bounded cf (slot_at (rn_pool s) j)" using assms(1) by (simp add: sound_def queues_def)
  then consider "length ?ms \<le> 1" | "queued_weight (rn_pool s) j \<le> cap_of cf"
    using assms(2) by (auto simp: queue_bounded_def queued_weight_def)
  then show ?thesis
  proof cases
    case 1
    then consider "?ms = []" | m w where "?ms = [(m, w)]" by (cases ?ms) auto
    then show ?thesis using assms(3) by cases (auto simp: queued_weight_def)
  qed simp
qed

lemma staged_bounded:
  assumes s: "sound cf s" and cap: "cap_of cf < usize_max"
    and b: "\<And>j m w. (m, w) \<in> set (sl_messages (slot_at (rn_pool s) j)) \<Longrightarrow> w \<le> b"
  shows "(\<Sum>j<pl_next (rn_pool s). queued_weight (rn_pool s) j) \<le> window_of cf * max (cap_of cf) b"
proof -
  let ?st = "rn_pool s"
  have le: "pl_next ?st \<le> pl_current ?st + window_of cf" using s by (simp add: sound_def jobs_held_def)
  have "queued_weight ?st j = 0" if "j < pl_current ?st" for j using that by (simp add: queued_weight_def slot_at_def slot_default_def)
  then have "(\<Sum>j<pl_next ?st. queued_weight ?st j) = (\<Sum>j \<in> {pl_current ?st..<pl_next ?st}. queued_weight ?st j)"
    by (intro sum.mono_neutral_right) auto
  also have "\<dots> \<le> (\<Sum>j \<in> {pl_current ?st..<pl_next ?st}. max (cap_of cf) b)"
    by (intro sum_mono queue_weight_bounded [OF s cap] b)
  also have "\<dots> \<le> window_of cf * max (cap_of cf) b" using le by (simp del: mult_le_cancel2 add: mult_le_mono1)
  finally show ?thesis .
qed

end
