(* ===== verification/Ordered_Liveness.thy ===== *)
theory Ordered_Liveness
  imports Ordered_Invariants
begin

text \<open>
  The ordered fan-out always comes to an end: no state it can be in is stuck, and every step that is
  not a spurious wake-up brings it nearer to its return.
\<close>

section \<open>No deadlock\<close>

lemma notified_total: "\<exists>s'. notified n s s'"
proof (cases n)
  case AdmissionOne
  then show ?thesis by (cases "\<exists>i x. rn_at s i = AwaitAdmission x") (auto intro: notified.intros)
qed (auto intro: notified.intros)

definition asleep :: "('m, 's) station \<Rightarrow> bool" where
  "asleep p \<longleftrightarrow> (\<exists>x. p = AwaitAdmission x) \<or> (\<exists>j m w k. p = AwaitRoom j m w k)"

lemma works_total:
  assumes "present p" "\<not> asleep p"
  shows "\<exists>p' st' ns b. works cf i p st p' st' ns b"
proof (cases p)
  case Starting
  show ?thesis
  proof (cases "cf_init cf i")
    case None
    show ?thesis unfolding Starting by (intro exI) (rule works.start_panics [OF None])
  next
    case (Some x)
    show ?thesis unfolding Starting by (intro exI) (rule works.start [OF Some])
  qed
next
  case (Claiming x)
  define width where "width = (if cf_paced cf then max 1 1 else usize_max)"
  obtain c st' where c: "claim_attempt cf width st = (c, st')" by fastforce
  show ?thesis
  proof (cases c)
    case Exits
    show ?thesis unfolding Claiming by (intro exI) (rule works.exits [OF c [unfolded Exits]])
  next
    case (Claims job)
    show ?thesis unfolding Claiming by (intro exI) (rule works.claims [OF c [unfolded Claims] width_def])
  next
    case Waits
    show ?thesis unfolding Claiming by (intro exI) (rule works.waits [OF c [unfolded Waits] width_def])
  qed
next
  case (Working j q)
  show ?thesis
  proof (cases q)
    case (Send m w k)
    obtain x st' ns where "send_attempt cf j m w st = (x, st', ns)" by (metis prod.exhaust)
    then show ?thesis using Working Send by (cases x) (metis works.blocks, metis works.sends)
  next
    case (Done x)
    then show ?thesis using Working by (metis works.finishes prod.exhaust)
  next
    case Panics
    then show ?thesis using Working by (metis works.panics prod.exhaust)
  qed
next
  case (Roused j m w k)
  obtain x st' ns where "send_attempt cf j m w (roused st) = (x, st', ns)" by (metis prod.exhaust)
  then show ?thesis using Roused by (cases x) (metis works.blocks_again, metis works.sends_again)
next
  case Leaving
  then show ?thesis by (metis works.leaves prod.exhaust)
qed (use assms in \<open>auto simp: asleep_def\<close>)

lemma calls_total:
  assumes "\<forall>n. q = Spawning n \<longrightarrow> n \<le> threads_of cf" "\<forall>j k. q \<noteq> AwaitReady j k" "\<forall>r. q \<noteq> Joining r" "\<forall>r. q \<noteq> Returned r"
  shows "\<exists>q' st' ns. calls cf q st q' st' ns"
proof (cases q)
  case (Spawning n)
  with assms(1) consider "n = threads_of cf" | "n < threads_of cf" by fastforce
  then show ?thesis using Spawning by cases (metis calls.spawned_all, metis calls.count)
next
  case (Consuming j p)
  show ?thesis
  proof (cases p)
    case (Recv k)
    obtain x st' ns where "recv_attempt cf j st = (x, st', ns)" by (metis prod.exhaust)
    then show ?thesis using Consuming Recv by (cases x) (metis calls.awaits, metis calls.receives)
  next
    case (Return c e)
    show ?thesis unfolding Consuming Return by (intro exI) (rule calls.returns)
  next
    case ConsumePanics
    show ?thesis unfolding Consuming ConsumePanics by (intro exI) (rule calls.unwinds)
  qed
next
  case (Passing j c e)
  then show ?thesis by (metis calls.passes prod.exhaust)
next
  case (Cancelling r)
  then show ?thesis by (metis calls.cancels prod.exhaust)
next
  case (Counted n)
  then show ?thesis by (metis calls.spawn_fails)
qed (use assms in simp_all)

text \<open>A state with no notification on its way and every worker asleep, or gone.\<close>

definition quiet :: "('m, 's, 'c, 'e) run \<Rightarrow> bool" where
  "quiet s \<longleftrightarrow> (\<forall>t. rn_notes s t = []) \<and> (\<forall>i. present (rn_at s i) \<longrightarrow> asleep (rn_at s i))"

lemma quiet_pending: "quiet s \<Longrightarrow> \<not> pending n (rn_notes s)"
  by (simp add: quiet_def pending_def)

lemma quiet_sender:
  assumes "quiet s" "sound cf s" "rn_at s i = AwaitRoom j m w k"
  shows "\<not> pl_cancelled (rn_pool s)" "pl_current (rn_pool s) \<le> j" "sl_messages (slot_at (rn_pool s) j) \<noteq> []" "j < pl_next (rn_pool s)"
proof -
  from assms(2,3) have "pending ChangedAll (rn_notes s) \<or> \<not> pl_cancelled (rn_pool s) \<and> pl_current (rn_pool s) \<le> j \<and> \<not> room cf (rn_pool s) j w"
    unfolding sound_def woken_def senders_woken_def by blast
  with quiet_pending [OF assms(1)] show "\<not> pl_cancelled (rn_pool s)" "pl_current (rn_pool s) \<le> j" "sl_messages (slot_at (rn_pool s) j) \<noteq> []"
    by (auto simp: room_def)
  from assms(2,3) show "j < pl_next (rn_pool s)" unfolding sound_def jobs_held_def by (metis comp_apply holder.simps(2))
qed

lemma quiet_holder: "quiet s \<Longrightarrow> holder (rn_at s i) = Some j \<Longrightarrow> \<exists>m w k. rn_at s i = AwaitRoom j m w k"
  by (cases "rn_at s i") (auto simp: quiet_def asleep_def dest!: spec [of _ i])

lemma caller_not_stuck:
  assumes q: "quiet s" and s: "sound cf s" and c: "rn_caller s = AwaitReady j k"
  shows False
proof -
  let ?st = "rn_pool s" and ?sl = "slot_at (rn_pool s) j"
  have at: "\<not> pl_cancelled ?st" "pl_current ?st = j" "j < cf_jobs cf" using s c by (simp_all add: sound_def caller_at_def)
  have sl: "sl_messages ?sl = []" "\<not> sl_closed ?sl" "sl_claimed ?sl \<or> pl_live ?st \<noteq> 0"
    using s c quiet_pending [OF q] by (auto simp: sound_def woken_def caller_woken_def Let_def)
  have held: "jobs_held cf ?st (holder \<circ> rn_at s)" and cnt: "counters cf s" using s by (simp_all add: sound_def)
  show False
  proof (cases "j < pl_next ?st")
    case True
    with held at sl(2) obtain i where "holder (rn_at s i) = Some j" by (auto simp: jobs_held_def)
    with quiet_holder [OF q] obtain m w f where "rn_at s i = AwaitRoom j m w f" by blast
    with quiet_sender(3) [OF q s this] sl(1) show False by simp
  next
    case False
    then have "?sl = slot_default" using held by (simp add: jobs_held_def)
    with sl(3) have "pl_live ?st \<noteq> 0" by (simp add: slot_default_def)
    then have "tally (threads_of cf) present (rn_at s) \<noteq> 0" using cnt c by (simp add: counters_def)
    then have "{i. i < threads_of cf \<and> present (rn_at s i)} \<noteq> {}" unfolding tally_def by (metis card.empty)
    then obtain i where i: "present (rn_at s i)" by auto
    have none: "rn_at s i \<noteq> AwaitRoom j' m w f" for i j' m w f
      using quiet_sender(2,4) [OF q s, of i j' m w f] False at(2) by auto
    then have idle: "holder (rn_at s i) = None" for i using quiet_holder [OF q, of i] by (cases "holder (rn_at s i)") auto
    then have "pl_busy ?st = 0" using cnt by (simp add: counters_def tally_def)
    moreover have "\<not> active (rn_at s i)" for i using q none by (auto simp: quiet_def asleep_def active_def)
    moreover obtain x where "rn_at s i = AwaitAdmission x" using q i none by (auto simp: quiet_def asleep_def)
    ultimately have "cf_jobs cf \<le> pl_next ?st \<or> pl_current ?st + window_of cf \<le> pl_next ?st"
      using s quiet_pending [OF q] by (auto simp: sound_def woken_def claimers_woken_def place_taken_def)
    with False at show False by (auto simp: window_of_def)
  qed
qed

lemma workers_gone:
  assumes q: "quiet s" and s: "sound cf s" and c: "rn_caller s = Joining r"
  shows "rn_at s i \<in> {Unborn, Gone}"
proof (rule ccontr)
  assume a: "rn_at s i \<notin> {Unborn, Gone}"
  have cancelled: "pl_cancelled (rn_pool s)" using s c by (simp add: sound_def caller_at_def)
  from a have "present (rn_at s i)" by (cases "rn_at s i") auto
  with q have "asleep (rn_at s i)" by (simp add: quiet_def)
  then consider (admission) x where "rn_at s i = AwaitAdmission x" | (room) j m w k where "rn_at s i = AwaitRoom j m w k"
    by (auto simp: asleep_def)
  then show False
  proof cases
    case admission
    with s cancelled quiet_pending [OF q] show False by (auto simp: sound_def woken_def claimers_woken_def)
  next
    case room
    with quiet_sender(1) [OF q s this] cancelled show False by simp
  qed
qed

lemma not_stuck:
  assumes s: "sound cf s" and c: "\<And>r. rn_caller s \<noteq> Returned r"
  shows "\<exists>s'. step cf s s'"
proof (rule ccontr)
  assume no: "\<not> ?thesis"
  have silent: "rn_notes s t = []" for t
  proof (rule ccontr)
    assume "rn_notes s t \<noteq> []"
    then obtain n ns where t: "rn_notes s t = n # ns" by (cases "rn_notes s t") auto
    obtain s' where "notified n (s\<lparr>rn_notes := (rn_notes s)(t := ns)\<rparr>) s'" using notified_total by blast
    with t no show False by (auto intro: step.notify)
  qed
  have cnt: "counters cf s" using s by (simp add: sound_def)
  have q: "quiet s" unfolding quiet_def
  proof (intro conjI allI impI silent)
    fix i assume i: "present (rn_at s i)"
    then have "i < threads_of cf" using cnt by (auto simp: counters_def not_le [symmetric])
    with i silent no works_total [of "rn_at s i" cf i "rn_pool s"] show "asleep (rn_at s i)" by (metis step.worker)
  qed
  have "\<forall>n. rn_caller s = Spawning n \<longrightarrow> n \<le> threads_of cf" using cnt by (simp add: counters_def)
  with calls_total [of "rn_caller s" cf "rn_pool s"] c silent no caller_not_stuck [OF q s]
  obtain r where r: "rn_caller s = Joining r" by (metis step.caller)
  with workers_gone [OF q s r] silent no show False by (metis step.join)
qed



section \<open>Every step counts\<close>

primrec depth :: "('m, 's) prog \<Rightarrow> nat" where
  "depth (Send m w k) = Suc (max ((depth \<circ> k) True) ((depth \<circ> k) False))"
| "depth (Done x) = 0"
| "depth Panics = 0"

lemma depth_continues: "depth (k b) < depth (Send m w k)"
  by (cases b) (simp_all add: less_Suc_eq_le)

fun work_left :: "('m, 's) station \<Rightarrow> nat" where
  "work_left Unborn = 4" | "work_left Starting = 3" | "work_left (Claiming x) = 2" | "work_left (AwaitAdmission x) = 2"
| "work_left (Working j p) = 3 + depth p" | "work_left (AwaitRoom j m w k) = 3 + depth (Send m w k)"
| "work_left (Roused j m w k) = 3 + depth (Send m w k)" | "work_left Leaving = 1" | "work_left Gone = 0"

fun caller_left :: "nat \<Rightarrow> nat \<Rightarrow> ('m, 'c, 'e) caller \<Rightarrow> nat" where
  "caller_left n jobs (Spawning i) = 3 * jobs + 4 + 2 * (n - i)" | "caller_left n jobs (Counted i) = 3 * jobs + 3 + 2 * (n - i)"
| "caller_left n jobs (Consuming j p) = 3 * (jobs - j) + 2" | "caller_left n jobs (AwaitReady j k) = 3 * (jobs - j) + 2"
| "caller_left n jobs (Passing j c e) = 3 * (jobs - j) + 1" | "caller_left n jobs (Cancelling r) = 2"
| "caller_left n jobs (Joining r) = 1" | "caller_left n jobs (Returned r) = 0"

fun program_of :: "('m, 'c, 'e) caller \<Rightarrow> ('m, 'c, 'e) cons" where
  "program_of (Consuming j p) = p" | "program_of (AwaitReady j k) = Recv k" | "program_of _ = ConsumePanics"

definition continues :: "(('m, 'c, 'e) cons \<times> ('m, 'c, 'e) cons) set" where
  "continues = {(p, q). \<exists>k x. q = Recv k \<and> p = k x}"

lemma wf_continues: "wf (continues :: (('m, 'c, 'e) cons \<times> _) set)"
proof (rule wfUNIVI)
  fix P :: "('m, 'c, 'e) cons \<Rightarrow> bool" and q
  assume h: "\<forall>x. (\<forall>y. (y, x) \<in> continues \<longrightarrow> P y) \<longrightarrow> P x"
  show "P q"
  proof (induction q)
    case (Recv k)
    then have "(y, Recv k) \<in> continues \<Longrightarrow> P y" for y by (auto simp: continues_def)
    with h show ?case by blast
  qed (use h in \<open>auto simp: continues_def\<close>)
qed

definition awake :: "('m, 's) station \<Rightarrow> nat" where
  "awake p = of_bool (\<not> asleep p)"

fun caller_awake :: "('m, 'c, 'e) caller \<Rightarrow> nat" where
  "caller_awake (AwaitReady j k) = 0" | "caller_awake _ = 1"

text \<open>The notifications on their way outweigh the threads they may rouse.\<close>

definition stir :: "nat \<Rightarrow> ('m, 's, 'c, 'e) run \<Rightarrow> nat" where
  "stir n s = (n + 2) * (length (rn_notes s None) + (\<Sum>i<n. length (rn_notes s (Some i))))
     + (\<Sum>i<n. awake (rn_at s i)) + caller_awake (rn_caller s)"

definition rank :: "('m, 's, 'c, 'e) config \<Rightarrow> ('m, 's, 'c, 'e) run \<Rightarrow> nat \<times> nat \<times> (nat \<times> ('m, 'c, 'e) cons) \<times> nat" where
  "rank cf s = (cf_jobs cf - pl_next (rn_pool s), \<Sum>i<threads_of cf. work_left (rn_at s i),
     (caller_left (threads_of cf) (cf_jobs cf) (rn_caller s), program_of (rn_caller s)), stir (threads_of cf) s)"

definition nearer :: "('m, 's, 'c, 'e) config \<Rightarrow> (('m, 's, 'c, 'e) run \<times> ('m, 's, 'c, 'e) run) set" where
  "nearer cf = inv_image (less_than <*lex*> less_than <*lex*> (less_than <*lex*> continues) <*lex*> less_than) (rank cf)"

lemma wf_nearer: "wf (nearer cf)"
  unfolding nearer_def by (intro wf_inv_image wf_lex_prod wf_less_than wf_continues)

lemma sum_upd: "(i :: nat) < n \<Longrightarrow> (\<Sum>k<n. g ((f(i := y)) k)) + g (f i) = (\<Sum>k<n. g (f k)) + (g y :: nat)"
proof -
  assume i: "i < n"
  have "(\<Sum>k<n. g (h k)) = g (h i) + (\<Sum>k \<in> {..<n} - {i}. g (h k))" for h using i by (intro sum.remove) auto
  from this [of f] this [of "f(i := y)"] show ?thesis by simp
qed

lemma awake_le: "awake p \<le> 1"
  by (simp add: awake_def)

lemma sum_awake_le: "(\<Sum>i<n. awake (f i)) \<le> n"
proof -
  have "(\<Sum>i<n. awake (f i)) \<le> (\<Sum>i<n. 1)" by (rule sum_mono) (rule awake_le)
  then show ?thesis by simp
qed

text \<open>What a worker's step leaves: a job fewer to claim, less of its program, or one thread awake fewer.\<close>

lemma works_nearer:
  assumes "works cf i p st p' st' ns b"
  shows "pl_next st < pl_next st' \<and> pl_next st < cf_jobs cf
    \<or> pl_next st' = pl_next st \<and> (work_left p' < work_left p \<or> work_left p' = work_left p \<and> awake p = 1 \<and> awake p' = 0 \<and> ns = [])"
  using assms
proof (induction rule: works.induct)
  case (claims width st job st' pace x)
  from claims(1) show ?case by (cases rule: claim_attempt_cases) simp_all
next
  case (waits width st st' pace x)
  from waits(1) show ?case by (cases rule: claim_attempt_cases) (simp_all add: awake_def asleep_def)
next
  case (exits width st st' x)
  from exits(1) show ?case by (cases rule: claim_attempt_cases) simp_all
next
  case (sends job m w st b st' ns k)
  from sends(1) show ?case
    by (cases rule: send_attempt_cases) (use depth_continues [of k b m w] in \<open>simp_all add: same_pool_def del: depth.simps(1)\<close>)
next
  case (blocks job m w st st' ns k)
  from blocks(1) show ?case by (cases rule: send_attempt_cases) (simp_all add: same_pool_def awake_def asleep_def)
next
  case (sends_again job m w st b st' ns k)
  from sends_again(1) show ?case
    by (cases rule: send_attempt_cases) (use depth_continues [of k b m w] in \<open>simp_all add: same_pool_def roused_def del: depth.simps(1)\<close>)
next
  case (blocks_again job m w st st' ns k)
  from blocks_again(1) show ?case
    by (cases rule: send_attempt_cases) (simp_all add: same_pool_def roused_def awake_def asleep_def)
next
  case (finishes job st st' ns x)
  then show ?case using sender_drop_state(2) by fastforce
next
  case (panics job st st' ns)
  then show ?case using sender_drop_state(2) by fastforce
qed (auto simp: live_guard_def)

lemma calls_nearer:
  assumes "calls cf q st q' st' ns" "caller_at cf q st" "\<forall>n. q = Counted n \<longrightarrow> n < threads_of cf"
  shows "pl_next st' = pl_next st"
    "caller_left (threads_of cf) (cf_jobs cf) q' < caller_left (threads_of cf) (cf_jobs cf) q
     \<or> caller_left (threads_of cf) (cf_jobs cf) q' = caller_left (threads_of cf) (cf_jobs cf) q
       \<and> ((program_of q', program_of q) \<in> continues \<or> program_of q' = program_of q \<and> caller_awake q = 1 \<and> caller_awake q' = 0 \<and> ns = [])"
proof -
  show "pl_next st' = pl_next st" using assms(1)
    by (cases rule: calls.cases) (auto simp: cancel_guard_def dest: recv_attempt_counters advance_state(2))
  show "caller_left (threads_of cf) (cf_jobs cf) q' < caller_left (threads_of cf) (cf_jobs cf) q
     \<or> caller_left (threads_of cf) (cf_jobs cf) q' = caller_left (threads_of cf) (cf_jobs cf) q
       \<and> ((program_of q', program_of q) \<in> continues \<or> program_of q' = program_of q \<and> caller_awake q = 1 \<and> caller_awake q' = 0 \<and> ns = [])"
    using assms(1)
  proof (cases rule: calls.cases)
    case (awaits job k)
    then have "pl_current st \<le> job" using assms(2) by (simp add: caller_at_def)
    with awaits(3) have "ns = []" by (cases rule: recv_attempt_cases) auto
    with awaits show ?thesis by simp
  qed (use assms(2,3) in \<open>auto simp: continues_def caller_at_def next_job_def\<close>)
qed


text \<open>Only threads that were started have notifications to send.\<close>

definition notes_of_threads :: "('m, 's, 'c, 'e) config \<Rightarrow> ('m, 's, 'c, 'e) run \<Rightarrow> bool" where
  "notes_of_threads cf s \<longleftrightarrow> (\<forall>i \<ge> threads_of cf. rn_notes s (Some i) = [])"

lemma reach_notes: "reach cf s \<Longrightarrow> notes_of_threads cf s"
proof (induction rule: reach.induct)
  case init
  then show ?case by (simp add: notes_of_threads_def run_inner_def)
next
  case (step s s')
  from step(2,3) show ?case
  proof (cases rule: step.cases)
    case (notify t n ns)
    have "rn_notes s' = (rn_notes s)(t := ns)" using notified_kept(4) [OF notify(2)] by simp
    with step(3) notify(1) show ?thesis by (auto simp: notes_of_threads_def)
  qed (auto simp: notes_of_threads_def)
next
  case (spurious s s')
  with spurious_kept(4) [OF spurious(2)] show ?case by (simp add: notes_of_threads_def)
qed

lemma stir_notified:
  assumes n: "notified n (s\<lparr>rn_notes := (rn_notes s)(t := ns)\<rparr>) s'" and t: "rn_notes s t = n # ns" and ok: "notes_of_threads cf s"
  shows "stir (threads_of cf) s' < stir (threads_of cf) s"
proof -
  let ?n = "threads_of cf"
  let ?l = "\<lambda>f. length (f None) + (\<Sum>i<?n. length (f (Some i) :: notify list))"
  have now: "rn_notes s' = (rn_notes s)(t := ns)" using notified_kept(4) [OF n] by simp
  have "?l (rn_notes s) = Suc (?l (rn_notes s'))"
  proof (cases t)
    case None
    then show ?thesis using t by (simp add: now)
  next
    case (Some i)
    then have i: "i < ?n" using t ok by (auto simp: notes_of_threads_def not_le [symmetric])
    have "(\<lambda>k. rn_notes s' (Some k)) = (\<lambda>k. rn_notes s (Some k))(i := ns)" using Some by (auto simp: now fun_eq_iff)
    with sum_upd [OF i, of length "\<lambda>k. rn_notes s (Some k)" ns] t Some show ?thesis by (simp add: now fun_eq_iff)
  qed
  moreover have "(\<Sum>i<?n. awake (rn_at s' i)) + caller_awake (rn_caller s') \<le> ?n + 1"
    using sum_awake_le [of "rn_at s'" ?n] by (cases "rn_caller s'") auto
  ultimately show ?thesis by (simp add: stir_def)
qed

lemma notified_left:
  assumes "notified n s s'"
  shows "work_left (rn_at s' i) = work_left (rn_at s i)" "caller_left m jobs (rn_caller s') = caller_left m jobs (rn_caller s)"
    "program_of (rn_caller s') = program_of (rn_caller s)"
proof -
  have "work_left (rouse p) = work_left p" "work_left (admit p) = work_left p" for p by (cases p; simp add: rouse_def admit_def)+
  moreover have "caller_left m jobs (ready q) = caller_left m jobs q" "program_of (ready q) = program_of q" for q
    by (cases q; simp add: ready_def)+
  ultimately have "work_left (rn_at s' i) = work_left (rn_at s i) \<and> caller_left m jobs (rn_caller s') = caller_left m jobs (rn_caller s)
      \<and> program_of (rn_caller s') = program_of (rn_caller s)" using assms by (auto elim!: notified.cases)
  then show "work_left (rn_at s' i) = work_left (rn_at s i)" "caller_left m jobs (rn_caller s') = caller_left m jobs (rn_caller s)"
    "program_of (rn_caller s') = program_of (rn_caller s)" by simp_all
qed

lemma step_nearer:
  assumes "step cf s s'" "sound cf s" "notes_of_threads cf s"
  shows "(s', s) \<in> nearer cf"
  using assms(1)
proof (cases rule: step.cases)
  case (worker i p st ns b)
  let ?n = "threads_of cf"
  note w = works_nearer [OF worker(4)] and left = sum_upd [OF worker(2), of work_left "rn_at s" p] and up = sum_upd [OF worker(2), of awake "rn_at s" p]
  have "(\<Sum>k<?n. length (((rn_notes s)(Some i := [])) (Some k))) = (\<Sum>k<?n. length (rn_notes s (Some k)))"
    by (rule sum.cong) (use worker(3) in auto)
  with w left up show ?thesis by (auto simp: nearer_def rank_def worker(1) stir_def)
next
  case (caller q st ns)
  let ?n = "threads_of cf"
  have c: "caller_at cf (rn_caller s) (rn_pool s)" "\<forall>n. rn_caller s = Counted n \<longrightarrow> n < threads_of cf"
    using assms(2) by (auto simp: sound_def counters_def)
  show ?thesis using calls_nearer [OF caller(3) c] caller(2) by (auto simp: nearer_def rank_def caller(1) stir_def)
next
  case (spawn i)
  then have i: "i < threads_of cf" "rn_at s i = Unborn" using assms(2) by (auto simp: sound_def counters_def)
  from sum_upd [OF i(1), of work_left "rn_at s" Starting] i(2) show ?thesis by (simp add: nearer_def rank_def spawn(1))
next
  case (join r)
  then show ?thesis by (simp add: nearer_def rank_def)
next
  case (notify t n ns)
  with stir_notified [OF notify(2,1) assms(3)] notified_kept(1) [OF notify(2)] notified_left [OF notify(2)] show ?thesis
    by (simp add: nearer_def rank_def)
qed

section \<open>The run returns\<close>

text \<open>
  A state from which every way to go on, however the threads are scheduled, leads to the return of the
  run after finitely many steps.
\<close>

inductive returns_always :: "('m, 's, 'c, 'e) config \<Rightarrow> ('m, 's, 'c, 'e) run \<Rightarrow> bool"
  for cf :: "('m, 's, 'c, 'e) config" where
  here: "rn_caller s = Returned r \<Longrightarrow> returns_always cf s"
| later: "\<exists>s'. step cf s s' \<Longrightarrow> (\<And>s'. step cf s s' \<Longrightarrow> returns_always cf s') \<Longrightarrow> returns_always cf s"

lemma reach_returns:
  assumes "reach cf s" "cf_jobs cf \<le> usize_max"
  shows "returns_always cf s"
  using assms(1)
proof (induction s rule: wf_induct_rule [OF wf_nearer [of cf]])
  case (1 s)
  have s: "sound cf s" using reach_sound [OF 1(2) assms(2)] .
  show ?case
  proof (cases "\<exists>r. rn_caller s = Returned r")
    case True
    then show ?thesis by (auto intro: returns_always.here)
  next
    case False
    then have "\<exists>s'. step cf s s'" using not_stuck [OF s] by blast
    moreover have "returns_always cf s'" if "step cf s s'" for s'
      using 1 step_nearer [OF that s reach_notes [OF 1(2)]] reach.step [OF 1(2) that] by blast
    ultimately show ?thesis by (rule returns_always.later)
  qed
qed

end
