(* ===== verification/Ordered_Sequential.thy ===== *)
theory Ordered_Sequential
  imports Ordered_Invariants
begin

text \<open>
  What the caller of the ordered fan-out gets is what it would get by running the jobs one after the
  other: a job's messages reach the consumer in the order they were sent, all of them, whichever
  worker produced them.
\<close>

section \<open>The sequential run\<close>

text \<open>What a job sends as long as all of it is accepted.\<close>

primrec outputs :: "('m, 's) prog \<Rightarrow> 'm list" where
  "outputs (Send m w k) = m # (outputs \<circ> k) True"
| "outputs (Done x) = []"
| "outputs Panics = []"

text \<open>A consumer fed from a list; \<open>None\<close> when it panics.\<close>

primrec consume_all :: "('m, 'c, 'e) cons \<Rightarrow> 'm list \<Rightarrow> ('c \<times> 'e option) option" where
  "consume_all (Recv k) = (\<lambda>ms. case ms of [] \<Rightarrow> (consume_all \<circ> k) None [] | m # ms \<Rightarrow> (consume_all \<circ> k) (Some m) ms)"
| "consume_all (Return c e) = (\<lambda>ms. Some (c, e))"
| "consume_all ConsumePanics = (\<lambda>ms. None)"

fun run_jobs :: "(nat \<Rightarrow> 'c \<Rightarrow> ('m, 'c, 'e) cons) \<Rightarrow> (nat \<Rightarrow> 'm list) \<Rightarrow> nat \<Rightarrow> nat \<Rightarrow> 'c \<Rightarrow> ('c, 'e) outcome" where
  "run_jobs consume out j 0 c = Ended c None"
| "run_jobs consume out j (Suc n) c = (case consume_all (consume j c) (out j) of
      None \<Rightarrow> Unwound
    | Some (c', Some e) \<Rightarrow> Ended c' (Some e)
    | Some (c', None) \<Rightarrow> run_jobs consume out (Suc j) n c')"

definition sequential :: "('m, 's, 'c, 'e) config \<Rightarrow> (nat \<Rightarrow> 'm list) \<Rightarrow> ('c, 'e) outcome" where
  "sequential cf out = run_jobs (cf_consume cf) out 0 (cf_jobs cf) (cf_start cf)"

text \<open>What follows a job that returned, and one that is at a program with messages still to come.\<close>

definition after :: "('m, 's, 'c, 'e) config \<Rightarrow> (nat \<Rightarrow> 'm list) \<Rightarrow> nat \<Rightarrow> 'c \<Rightarrow> 'e option \<Rightarrow> ('c, 'e) outcome" where
  "after cf out j c e = (if e \<noteq> None then Ended c e else run_jobs (cf_consume cf) out (Suc j) (cf_jobs cf - Suc j) c)"

definition resume :: "('m, 's, 'c, 'e) config \<Rightarrow> (nat \<Rightarrow> 'm list) \<Rightarrow> nat \<Rightarrow> ('m, 'c, 'e) cons \<Rightarrow> 'm list \<Rightarrow> ('c, 'e) outcome" where
  "resume cf out j p ms = (case consume_all p ms of None \<Rightarrow> Unwound | Some (c, e) \<Rightarrow> after cf out j c e)"

lemma run_jobs_resume:
  "j < cf_jobs cf \<Longrightarrow> run_jobs (cf_consume cf) out j (cf_jobs cf - j) c = resume cf out j (cf_consume cf j c) (out j)"
  by (subst Suc_diff_Suc [symmetric]) (auto simp: resume_def after_def split: option.splits)

lemma resume_simps [simp]:
  "resume cf out j (Recv k) [] = resume cf out j (k None) []"
  "resume cf out j (Recv k) (m # ms) = resume cf out j (k (Some m)) ms"
  "resume cf out j (Return c e) ms = after cf out j c e" "resume cf out j ConsumePanics ms = Unwound"
  by (simp_all add: resume_def)

section \<open>The messages to come\<close>

fun unsent :: "('m, 's) station \<Rightarrow> 'm list" where
  "unsent (Working j p) = outputs p" | "unsent (AwaitRoom j m w k) = outputs (Send m w k)"
| "unsent (Roused j m w k) = outputs (Send m w k)" | "unsent _ = []"

text \<open>What a job has still to deliver: what is queued, and then what its worker has not sent yet.\<close>

definition coming :: "(nat \<Rightarrow> 'm list) \<Rightarrow> 'm pool \<Rightarrow> (nat \<Rightarrow> ('m, 's) station) \<Rightarrow> nat \<Rightarrow> 'm list \<Rightarrow> bool" where
  "coming out st at j ms \<longleftrightarrow> (let queued = map fst (sl_messages (slot_at st j)) in
     (sl_closed (slot_at st j) \<longrightarrow> ms = queued) \<and> (\<forall>i. holder (at i) = Some j \<longrightarrow> ms = queued @ unsent (at i))
     \<and> (pl_next st \<le> j \<longrightarrow> ms = out j))"

definition same_output :: "('m, 's, 'c, 'e) config \<Rightarrow> (nat \<Rightarrow> 'm list) \<Rightarrow> bool" where
  "same_output cf out \<longleftrightarrow> (\<forall>j x. outputs (cf_produce cf j x) = out j)"

lemma coming_same:
  assumes "coming out st at j ms" "pl_next st' = pl_next st" "slot_at st' j = slot_at st j"
    and "\<And>k. holder (at' k) = Some j \<Longrightarrow> holder (at k) = Some j \<and> unsent (at' k) = unsent (at k)"
  shows "coming out st' at' j ms"
  using assms by (auto simp: coming_def Let_def)

lemma coming_send:
  assumes "send_attempt cf j' m w st = (Some b, st', ns)" "holder (at i) = Some j'" "unsent (at i) = outputs (Send m w k)"
    and c: "coming out st at j ms" and ok: "\<not> pl_cancelled st" "pl_current st \<le> j" "jobs_held cf st (holder \<circ> at)"
  shows "coming out st' (at(i := Working j' (k b))) j ms"
  using assms(1)
proof (cases rule: send_attempt_cases)
  case refused
  with ok(1,2) have "j' \<noteq> j" by auto
  with refused c assms(2) show ?thesis by (auto simp: coming_def Let_def)
next
  case accepted
  have only: "k = i" if "holder (at k) = Some j'" for k using ok(3) that assms(2) by (auto simp: jobs_held_def)
  have open': "\<not> sl_closed (slot_at st j')" "j' < pl_next st" using ok(3) assms(2) by (auto simp: jobs_held_def)
  show ?thesis
  proof (cases "j' = j")
    case True
    then have "ms = map fst (sl_messages (slot_at st j)) @ outputs (Send m w k)" using c assms(2,3) by (auto simp: coming_def Let_def)
    with True only open' accepted show ?thesis by (auto simp: coming_def Let_def same_pool_def)
  next
    case False
    with c accepted show ?thesis by (auto simp: coming_def Let_def same_pool_def)
  qed
qed simp

lemma coming_block:
  assumes "send_attempt cf j' m w st = (None, st', ns)" "holder (at i) = Some j'" "unsent (at i) = outputs (Send m w k)" "coming out st at j ms"
  shows "coming out st' (at(i := AwaitRoom j' m w k)) j ms"
  using assms(1)
proof (cases rule: send_attempt_cases)
  case full
  then show ?thesis
    by (intro coming_same [OF assms(4)]) (use assms(2,3) in \<open>auto simp: same_pool_def split: if_splits\<close>)
qed simp_all

lemma coming_drop:
  assumes "sender_drop cf j' st = (st', ns)" "at i = Working j' (Done x)" "holder p = None" and c: "coming out st at j ms"
    and ok: "pl_current st \<le> j" "jobs_held cf st (holder \<circ> at)"
  shows "coming out st' (at(i := p)) j ms"
proof -
  note d = sender_drop_state [OF assms(1)]
  have h: "holder (at i) = Some j'" using assms(2) by simp
  have only: "k = i" if "holder (at k) = Some j'" for k using ok(2) that h by (auto simp: jobs_held_def)
  have next': "j' < pl_next st" using ok(2) h by (auto simp: jobs_held_def)
  show ?thesis
  proof (cases "j' = j")
    case True
    then have "ms = map fst (sl_messages (slot_at st j)) @ unsent (at i)" using c h unfolding coming_def Let_def by blast
    then have "ms = map fst (sl_messages (slot_at st j))" using assms(2) by simp
    with True only next' ok(1) assms(3) show ?thesis by (auto simp: coming_def Let_def d)
  next
    case False
    with c assms(3) show ?thesis by (auto simp: coming_def Let_def d)
  qed
qed

lemma coming_claim:
  assumes "claim_attempt cf width st = (Claims j', st')" "holder (at i) = None" and c: "coming out st at j ms"
    and ok: "pl_current st \<le> j" "jobs_held cf st (holder \<circ> at)" "same_output cf out"
  shows "coming out st' (at(i := Working j' (cf_produce cf j' x))) j ms"
  using assms(1)
proof (cases rule: claim_attempt_cases)
  case claim
  show ?thesis
  proof (cases "j' = j")
    case True
    then have "ms = out j" "slot_at st j = slot_default" "\<forall>k. holder (at k) \<noteq> Some j"
      using c claim(5) ok(2) by (auto simp: coming_def Let_def jobs_held_def)
    with True claim ok show ?thesis by (auto simp: coming_def Let_def same_output_def slot_default_def)
  next
    case False
    with c claim ok(1) show ?thesis by (auto simp: coming_def Let_def)
  qed
qed simp_all

lemma coming_roused: "coming out (roused st) at j ms = coming out st at j ms" "jobs_held cf (roused st) h = jobs_held cf st h"
  "pl_cancelled (roused st) = pl_cancelled st" "pl_current (roused st) = pl_current st"
  by (simp_all add: coming_def jobs_held_def roused_def)

lemma coming_works:
  assumes w: "works cf i (at i) st p st' ns False" and c: "coming out st at j ms"
    and ok: "\<not> pl_cancelled st" "pl_current st \<le> j" "jobs_held cf st (holder \<circ> at)" "same_output cf out"
  shows "coming out st' (at(i := p)) j ms"
  using w
proof (cases rule: works.cases)
  case (claims width job pace x)
  then show ?thesis using coming_claim [OF claims(4) _ c ok(2-4)] by simp
next
  case (waits width pace x)
  from waits(4) show ?thesis by (cases rule: claim_attempt_cases) (use c waits(1,2) in \<open>auto simp: coming_def Let_def\<close>)
next
  case (exits width x)
  from exits(4) show ?thesis by (cases rule: claim_attempt_cases) (use c exits(1,2) in \<open>auto simp: coming_def Let_def\<close>)
next
  case (sends job m w b k)
  then show ?thesis using coming_send [OF sends(3) _ _ c ok(1-3)] by simp
next
  case (blocks job m w k)
  then show ?thesis using coming_block [OF blocks(3) _ _ c] by simp
next
  case (sends_again job m w b k)
  then show ?thesis using coming_send [OF sends_again(3), of at i k out j ms] c ok by (simp add: coming_roused)
next
  case (blocks_again job m w k)
  then show ?thesis using coming_block [OF blocks_again(3), of at i k out j ms] c by (simp add: coming_roused)
next
  case (finishes job x)
  then show ?thesis using coming_drop [OF finishes(3,1) _ c ok(2,3)] by simp
next
  case leaves
  then show ?thesis by (intro coming_same [OF c]) (auto simp: live_guard_def split: if_splits)
qed (use c in \<open>auto simp: coming_def Let_def\<close>)



section \<open>The outcome\<close>

text \<open>Where the caller is, what it has still to see leads to the outcome of the sequential run.\<close>

definition all_coming :: "(nat \<Rightarrow> 'm list) \<Rightarrow> ('m, 's, 'c, 'e) run \<Rightarrow> nat \<Rightarrow> bool" where
  "all_coming out s n \<longleftrightarrow> (\<forall>j \<ge> n. coming out (rn_pool s) (rn_at s) j (out j))"

definition leads :: "('m, 's, 'c, 'e) config \<Rightarrow> (nat \<Rightarrow> 'm list) \<Rightarrow> ('m, 's, 'c, 'e) run \<Rightarrow> nat \<Rightarrow> ('m, 'c, 'e) cons \<Rightarrow> bool" where
  "leads cf out s j p \<longleftrightarrow> (\<exists>ms. coming out (rn_pool s) (rn_at s) j ms \<and> resume cf out j p ms = sequential cf out)"

definition agrees :: "('m, 's, 'c, 'e) config \<Rightarrow> (nat \<Rightarrow> 'm list) \<Rightarrow> ('m, 's, 'c, 'e) run \<Rightarrow> bool" where
  "agrees cf out s = (case rn_caller s of
      Spawning n \<Rightarrow> all_coming out s 0
    | Counted n \<Rightarrow> all_coming out s 0
    | Consuming j p \<Rightarrow> all_coming out s (Suc j) \<and> leads cf out s j p
    | AwaitReady j k \<Rightarrow> all_coming out s (Suc j) \<and> leads cf out s j (Recv k)
    | Passing j c e \<Rightarrow> all_coming out s (Suc j) \<and> after cf out j c e = sequential cf out
    | Cancelling r \<Rightarrow> r = sequential cf out
    | Joining r \<Rightarrow> r = sequential cf out
    | Returned r \<Rightarrow> r = NotRun \<or> r = sequential cf out)"

text \<open>Workers leave when there is nothing left to claim, or they panicked; the first was started.\<close>

fun has_left :: "('m, 's) station \<Rightarrow> bool" where
  "has_left Leaving = True" | "has_left Gone = True" | "has_left _ = False"

fun unstarted :: "('m, 'c, 'e) caller \<Rightarrow> bool" where
  "unstarted (Spawning n) = (n = 0)" | "unstarted (Counted n) = (n = 0)" | "unstarted (Returned r) = True" | "unstarted _ = False"

lemma roused_left [simp]: "has_left (rouse p) = has_left p" "has_left (admit p) = has_left p" "unstarted (ready q) = unstarted q"
  by (cases p; simp add: rouse_def admit_def)+ (cases q; simp add: ready_def)

definition manned :: "('m, 's, 'c, 'e) config \<Rightarrow> ('m, 's, 'c, 'e) run \<Rightarrow> bool" where
  "manned cf s \<longleftrightarrow> (\<forall>i. has_left (rn_at s i) \<longrightarrow> rn_panicked s \<or> pl_cancelled (rn_pool s) \<or> cf_jobs cf \<le> pl_next (rn_pool s))
     \<and> (\<not> unstarted (rn_caller s) \<longrightarrow> rn_at s 0 \<noteq> Unborn)"

lemma works_leaves:
  assumes "works cf i p st p' st' ns b"
  shows "pl_next st \<le> pl_next st'" "has_left p' \<Longrightarrow> p = Leaving \<or> b \<or> pl_cancelled st' \<or> cf_jobs cf \<le> pl_next st'"
proof -
  have "pl_next st \<le> pl_next st' \<and> (has_left p' \<longrightarrow> p = Leaving \<or> b \<or> pl_cancelled st' \<or> cf_jobs cf \<le> pl_next st')"
    using assms
  proof (induction rule: works.induct)
    case (claims width st job st' pace x)
    from claims(1) show ?case by (cases rule: claim_attempt_cases) simp_all
  next
    case (waits width st st' pace x)
    from waits(1) show ?case by (cases rule: claim_attempt_cases) simp_all
  next
    case (exits width st st' x)
    from exits(1) show ?case by (cases rule: claim_attempt_cases) auto
  next
    case (sends job m w st b st' ns k)
    from sends(1) show ?case by (cases rule: send_attempt_cases) (simp_all add: same_pool_def)
  next
    case (blocks job m w st st' ns k)
    from blocks(1) show ?case by (cases rule: send_attempt_cases) (simp_all add: same_pool_def)
  next
    case (sends_again job m w st b st' ns k)
    from sends_again(1) show ?case by (cases rule: send_attempt_cases) (simp_all add: same_pool_def roused_def)
  next
    case (blocks_again job m w st st' ns k)
    from blocks_again(1) show ?case by (cases rule: send_attempt_cases) (simp_all add: same_pool_def roused_def)
  next
    case (finishes job st st' ns x)
    then show ?case using sender_drop_state(2) by fastforce
  next
    case (panics job st st' ns)
    then show ?case using sender_drop_state(2) by fastforce
  qed (auto simp: live_guard_def)
  then show "pl_next st \<le> pl_next st'" "has_left p' \<Longrightarrow> p = Leaving \<or> b \<or> pl_cancelled st' \<or> cf_jobs cf \<le> pl_next st'" by auto
qed

lemma calls_next: "calls cf q st q' st' ns \<Longrightarrow> pl_next st' = pl_next st \<and> (pl_cancelled st \<longrightarrow> pl_cancelled st')"
  by (erule calls.cases) (auto simp: cancel_guard_def dest: recv_attempt_counters advance_state(2,5))

lemma manned_notified:
  assumes "notified n s s'" "manned cf s"
  shows "manned cf s'"
  using assms(1) by (cases rule: notified.cases) (use assms(2) in \<open>auto simp: manned_def split: if_splits\<close>)

lemma manned_spurious:
  assumes "spurious s s'" "manned cf s"
  shows "manned cf s'"
  using assms(1) by (cases rule: spurious.cases) (use assms(2) in \<open>auto simp: manned_def split: if_splits\<close>)

lemma calls_started: "calls cf q st q' st' ns \<Longrightarrow> \<not> unstarted q' \<Longrightarrow> \<not> unstarted q"
  by (erule calls.cases) (auto split: if_splits)

lemma manned_step:
  assumes "step cf s s'" "manned cf s"
  shows "manned cf s'"
  using assms(1)
proof (cases rule: step.cases)
  case (worker i p st ns b)
  note w = works_leaves [OF worker(4)] works_station [OF worker(4)] works_pool [OF worker(4)]
  have "rn_panicked s \<or> b \<or> pl_cancelled st \<or> cf_jobs cf \<le> pl_next st" if k: "has_left (((rn_at s)(i := p)) k)" for k
  proof (cases "k = i \<and> rn_at s i \<noteq> Leaving")
    case False
    then have "has_left (rn_at s k)" using k by (cases "k = i") auto
    with assms(2) w show ?thesis unfolding manned_def by (metis le_trans)
  qed (use w(2) k in auto)
  moreover have "\<not> unstarted (rn_caller s) \<longrightarrow> ((rn_at s)(i := p)) 0 \<noteq> Unborn" using assms(2) w by (simp add: manned_def)
  ultimately show ?thesis by (auto simp: manned_def worker(1))
next
  case (caller q st ns)
  with assms(2) calls_next [OF caller(3)] calls_started [OF caller(3)] show ?thesis by (auto simp: manned_def)
next
  case (notify t n ns)
  have "manned cf (s\<lparr>rn_notes := (rn_notes s)(t := ns)\<rparr>)" using assms(2) by (simp add: manned_def)
  with notify(2) show ?thesis by (rule manned_notified)
qed (use assms(2) in \<open>auto simp: manned_def split: if_splits\<close>)


text \<open>What a step leaves alone of the messages to come.\<close>

lemma coming_rouse:
  assumes "\<And>k. holder (at' k) = holder (at k)" "\<And>k. unsent (at' k) = unsent (at k)"
  shows "coming out st at' j ms = coming out st at j ms"
  using assms by (simp add: coming_def)

lemma notified_unsent: "notified n s s' \<Longrightarrow> unsent (rn_at s' k) = unsent (rn_at s k)"
  and spurious_unsent: "spurious s s' \<Longrightarrow> unsent (rn_at s' k) = unsent (rn_at s k)"
proof -
  have r: "unsent (rouse p) = unsent p" "unsent (admit p) = unsent p" for p by (cases p; simp add: rouse_def admit_def)+
  show "notified n s s' \<Longrightarrow> unsent (rn_at s' k) = unsent (rn_at s k)" by (erule notified.cases) (auto simp: r)
  show "spurious s s' \<Longrightarrow> unsent (rn_at s' k) = unsent (rn_at s k)" by (erule spurious.cases) (auto simp: r)
qed

text \<open>A change of the threads that keeps what they have to send, and of the caller at most its wake-up.\<close>

lemma agrees_kept:
  assumes "rn_pool s' = rn_pool s" "holder \<circ> rn_at s' = holder \<circ> rn_at s" "\<And>k. unsent (rn_at s' k) = unsent (rn_at s k)"
    and "rn_caller s' = rn_caller s \<or> rn_caller s' = ready (rn_caller s)" "agrees cf out s"
  shows "agrees cf out s'"
proof -
  have "coming out (rn_pool s') (rn_at s') = coming out (rn_pool s) (rn_at s)"
    using coming_rouse [of "rn_at s'" "rn_at s" out "rn_pool s"] assms(1-3) by (auto simp: fun_eq_iff)
  with assms(4,5) show ?thesis by (auto simp: agrees_def all_coming_def leads_def ready_def split: caller.splits)
qed

lemma notified_caller: "notified n s s' \<Longrightarrow> rn_caller s' = rn_caller s \<or> rn_caller s' = ready (rn_caller s)"
  and spurious_caller: "spurious s s' \<Longrightarrow> rn_caller s' = rn_caller s \<or> rn_caller s' = ready (rn_caller s)"
  by (auto elim: notified.cases spurious.cases)

lemma agrees_works:
  assumes w: "works cf i (rn_at s i) (rn_pool s) p st ns False" and a: "agrees cf out s" and s: "sound cf s" and o: "same_output cf out"
  shows "agrees cf out (s\<lparr>rn_pool := st, rn_at := (rn_at s)(i := p), rn_notes := f, rn_panicked := b\<rparr>)"
proof -
  have held: "jobs_held cf (rn_pool s) (holder \<circ> rn_at s)" and at: "caller_at cf (rn_caller s) (rn_pool s)" using s by (simp_all add: sound_def)
  have c: "coming out st ((rn_at s)(i := p)) j ms"
    if "coming out (rn_pool s) (rn_at s) j ms" "\<not> pl_cancelled (rn_pool s)" "pl_current (rn_pool s) \<le> j" for j ms
    using coming_works [OF w that held o] .
  show ?thesis
  proof (cases "rn_caller s")
    case (Consuming j q)
    with at have "\<not> pl_cancelled (rn_pool s)" "pl_current (rn_pool s) = j" by (simp_all add: caller_at_def)
    with Consuming a show ?thesis by (auto simp: agrees_def all_coming_def leads_def intro: c)
  next
    case (AwaitReady j k)
    with at have "\<not> pl_cancelled (rn_pool s)" "pl_current (rn_pool s) = j" by (simp_all add: caller_at_def)
    with AwaitReady a show ?thesis by (auto simp: agrees_def all_coming_def leads_def intro: c)
  qed (use at a in \<open>auto simp: agrees_def all_coming_def caller_at_def intro: c\<close>)
qed

text \<open>What the caller receives is the next message to come, or none when none is.\<close>

lemma received_next:
  assumes r: "recv_attempt cf j st = (Some x, st', ns)" and c: "coming out st at j ms"
    and ok: "pl_current st \<le> j" "jobs_held cf st (holder \<circ> at)" "sl_claimed (slot_at st j) \<or> pl_live st \<noteq> 0"
  shows "\<exists>ms'. coming out st' at j ms' \<and> (case x of None \<Rightarrow> ms = [] \<and> ms' = [] | Some m \<Rightarrow> ms = m # ms')"
  using r ok(1)
proof (cases rule: recv_attempt_cases)
  case (message m w rest')
  let ?sl = "slot_at st j"
  have "?sl \<noteq> slot_default" using message(1) by (auto simp: slot_default_def)
  then have next': "j < pl_next st" using ok(2) by (auto simp: jobs_held_def not_le [symmetric])
  then have "sl_closed ?sl \<or> (\<exists>i. holder (at i) = Some j)" using ok(1,2) by (auto simp: jobs_held_def)
  with c message(1) obtain ms' where ms: "ms = m # ms'" by (auto simp: coming_def Let_def)
  with c message next' ok(1) have "coming out st' at j ms'" by (auto simp: coming_def Let_def same_pool_def)
  with ms message(2) show ?thesis by auto
next
  case ended
  then have "sl_closed (slot_at st j)" using ok(3) by auto
  with c ended have "ms = []" by (simp add: coming_def Let_def)
  moreover have "coming out st' at j []" using ended c \<open>ms = []\<close> by (simp add: coming_def same_pool_def)
  ultimately show ?thesis using ended(3) by auto
qed simp

lemma coming_recv_other:
  assumes "recv_attempt cf j st = (x, st', ns)" "coming out st at j' ms" "j' \<noteq> j" "pl_current st \<le> j"
  shows "coming out st' at j' ms"
  using assms(1,4)
  by (cases rule: recv_attempt_cases) (use assms(2-4) in \<open>auto simp: coming_def same_pool_def\<close>)


lemma agrees_next:
  assumes "all_coming out s n" "run_jobs (cf_consume cf) out n (cf_jobs cf - n) c = sequential cf out" "rn_caller s = next_job cf n c"
  shows "agrees cf out s"
proof (cases "n < cf_jobs cf")
  case True
  then have "resume cf out n (cf_consume cf n c) (out n) = sequential cf out" using assms(2) run_jobs_resume by metis
  with True assms(1,3) show ?thesis by (auto simp: agrees_def next_job_def all_coming_def leads_def)
next
  case False
  with assms(2,3) show ?thesis by (simp add: agrees_def next_job_def)
qed

lemma caller_served:
  assumes s: "sound cf s" "manned cf s" "\<not> rn_panicked s" and c: "rn_caller s = Consuming j p"
  shows "sl_claimed (slot_at (rn_pool s) j) \<or> pl_live (rn_pool s) \<noteq> 0"
proof (rule ccontr)
  assume "\<not> ?thesis"
  then have n: "\<not> sl_claimed (slot_at (rn_pool s) j)" "pl_live (rn_pool s) = 0" by auto
  have cnt: "counters cf s" and held: "jobs_held cf (rn_pool s) (holder \<circ> rn_at s)"
    and at: "\<not> pl_cancelled (rn_pool s)" "pl_current (rn_pool s) = j" "j < cf_jobs cf"
    using s(1) c by (simp_all add: sound_def caller_at_def)
  have born: "rn_at s 0 \<noteq> Unborn" using s(2) c by (simp add: manned_def)
  moreover have "threads_of cf \<le> 0 \<Longrightarrow> rn_at s 0 = Unborn" using cnt by (simp add: counters_def)
  ultimately have "0 < threads_of cf" by linarith
  moreover have "tally (threads_of cf) present (rn_at s) = 0" using cnt n(2) by (simp add: counters_def)
  ultimately have "\<not> present (rn_at s 0)" using tally_zero by blast
  with born have "has_left (rn_at s 0)" by (cases "rn_at s 0") auto
  then have "rn_panicked s \<or> pl_cancelled (rn_pool s) \<or> cf_jobs cf \<le> pl_next (rn_pool s)" using s(2) unfolding manned_def by blast
  with s(3) at have "j < pl_next (rn_pool s)" by simp
  with held at n(1) show False by (simp add: jobs_held_def)
qed

lemma agrees_calls:
  assumes q: "calls cf (rn_caller s) (rn_pool s) q st ns" and a: "agrees cf out s"
    and s: "sound cf s" "manned cf s" "\<not> rn_panicked s"
  shows "agrees cf out (s\<lparr>rn_pool := st, rn_caller := q, rn_notes := f\<rparr>)" (is "agrees cf out ?s")
proof -
  have held: "jobs_held cf (rn_pool s) (holder \<circ> rn_at s)" and at: "caller_at cf (rn_caller s) (rn_pool s)" using s(1) by (simp_all add: sound_def)
  from q show ?thesis
  proof (cases rule: calls.cases)
    case (count i)
    with a show ?thesis by (auto simp: agrees_def all_coming_def coming_def)
  next
    case (spawn_fails i)
    then have "all_coming out ?s 0" using a by (auto simp: agrees_def all_coming_def coming_def)
    from agrees_next [OF this, of cf "cf_start cf"] spawn_fails show ?thesis
      by (cases "i = 0") (simp_all add: sequential_def agrees_def)
  next
    case (spawned_all i)
    then have "all_coming out ?s 0" using a by (auto simp: agrees_def all_coming_def coming_def)
    from agrees_next [OF this, of cf "cf_start cf"] spawned_all show ?thesis
      by (cases "i = 0") (simp_all add: sequential_def agrees_def)
  next
    case (receives job x k)
    have cur: "pl_current (rn_pool s) \<le> job" using at receives(1) by (simp add: caller_at_def)
    obtain ms where ms: "coming out (rn_pool s) (rn_at s) job ms" "resume cf out job (Recv k) ms = sequential cf out"
      using a receives(1) by (auto simp: agrees_def leads_def)
    obtain ms' where ms': "coming out st (rn_at s) job ms'" "case x of None \<Rightarrow> ms = [] \<and> ms' = [] | Some m \<Rightarrow> ms = m # ms'"
      using received_next [OF receives(3) ms(1) cur held caller_served [OF s receives(1)]] by blast
    have "resume cf out job (k x) ms' = sequential cf out" using ms(2) ms'(2) by (cases x) auto
    with ms'(1) have "leads cf out ?s job (k x)" by (auto simp: leads_def)
    moreover have "all_coming out ?s (Suc job)"
      using a receives(1) by (auto simp: agrees_def all_coming_def intro: coming_recv_other [OF receives(3) _ _ cur])
    ultimately show ?thesis using receives(2) by (simp add: agrees_def)
  next
    case (awaits job k)
    have cur: "pl_current (rn_pool s) \<le> job" using at awaits(1) by (simp add: caller_at_def)
    from awaits(3) cur have "same_pool (rn_pool s) st" by (cases rule: recv_attempt_cases) auto
    then have "coming out st (rn_at s) = coming out (rn_pool s) (rn_at s)" by (simp add: coming_def same_pool_def fun_eq_iff)
    with a awaits(1,2) show ?thesis by (simp add: agrees_def all_coming_def leads_def)
  next
    case (passes e job c)
    note d = advance_state [OF passes(3)]
    have "pl_current (rn_pool s) = job" using at passes(1) by (simp add: caller_at_def)
    then have all: "all_coming out ?s (Suc job)" using a passes(1) by (auto simp: agrees_def all_coming_def coming_def d)
    have "after cf out job c e = sequential cf out" using a passes(1) by (simp add: agrees_def)
    with agrees_next [OF all] passes(2) show ?thesis by (cases e) (simp_all add: after_def agrees_def)
  qed (use a in \<open>auto simp: agrees_def leads_def all_coming_def\<close>)
qed

text \<open>When the run has returned, no worker is left.\<close>

lemma reach_alone: "reach cf s \<Longrightarrow> cf_jobs cf \<le> usize_max \<Longrightarrow> rn_caller s = Returned r \<Longrightarrow> \<not> present (rn_at s i)"
proof (induction arbitrary: r i rule: reach.induct)
  case init
  then show ?case by (simp add: run_inner_def)
next
  case (step s s')
  have cnt: "counters cf s" using reach_sound [OF step(1,4)] by (simp add: sound_def)
  from step(2) show ?case
  proof (cases rule: step.cases)
    case (worker k p st ns b)
    then have "\<not> present (rn_at s k)" using step(3) [OF step(4)] step(5) by simp
    with works_station [OF worker(4)] show ?thesis by (cases "rn_at s k") auto
  next
    case (caller q st ns)
    then have q: "q = Returned r" using step(5) by simp
    from caller(3) have "rn_caller s = Counted 0 \<or> rn_caller s = Spawning 0"
      by (cases rule: calls.cases) (use q in \<open>auto simp: next_job_def split: if_splits\<close>)
    then have "rn_at s i = Unborn" using cnt by (auto simp: counters_def)
    then show ?thesis by (simp add: caller(1))
  next
    case (join r')
    from join(4) [of i] show ?thesis by (auto simp: join(1))
  next
    case (notify t n ns)
    have "rn_caller s' = rn_caller s \<or> rn_caller s' = ready (rn_caller s)" using notified_caller [OF notify(2)] by simp
    then have was: "rn_caller s = Returned r" unfolding step(5) by (metis ready_caller(6))
    have "present (rn_at s' i) = present (rn_at s i)" using notify(2) by (cases rule: notified.cases) auto
    then show ?thesis using step(3) [OF step(4) was] by simp
  qed (use step in simp)
next
  case (spurious s s')
  have was: "rn_caller s = Returned r" using spurious_caller [OF spurious(2)] unfolding spurious(5) by (metis ready_caller(6))
  have "present (rn_at s' i) = present (rn_at s i)" using spurious(2) by (cases rule: spurious.cases) auto
  then show ?case using spurious(3) [OF spurious(4) was] by simp
qed

lemma reach_agrees:
  assumes "reach cf s" "cf_jobs cf \<le> usize_max" "same_output cf out"
  shows "manned cf s \<and> (\<not> rn_panicked s \<longrightarrow> agrees cf out s) \<and> (rn_panicked s \<longrightarrow> (\<forall>c e. rn_caller s \<noteq> Returned (Ended c e)))"
  using assms(1)
proof (induction rule: reach.induct)
  case init
  show ?case by (simp add: run_inner_def manned_def agrees_def all_coming_def coming_def slot_default_def)
next
  case (step s s')
  have sound: "sound cf s" using reach_sound [OF step(1) assms(2)] .
  note man = manned_step [OF step(2)]
  from step(2) show ?case
  proof (cases rule: step.cases)
    case (worker i p st ns b)
    have run: "rn_caller s \<noteq> Returned r" for r
      using reach_alone [OF step(1) assms(2), of r i] works_station [OF worker(4)] by (cases "rn_at s i") auto
    show ?thesis
    proof (cases b)
      case True
      with man step(3) run show ?thesis by (simp add: worker(1))
    next
      case False
      with worker(4) have "\<not> rn_panicked s \<Longrightarrow> agrees cf out s'"
        using agrees_works [OF _ _ sound assms(3), where b = "rn_panicked s \<or> b" and f = "(rn_notes s)(Some i := ns)"] step(3)
        unfolding worker(1) by simp
      with man step(3) run False show ?thesis by (simp add: worker(1))
    qed
  next
    case (caller q st ns)
    have "q \<noteq> Returned (Ended c e)" for c e using caller(3) by (cases rule: calls.cases) auto
    then show ?thesis using agrees_calls [OF caller(3) _ sound] man step(3) caller(1) by auto
  next
    case (spawn i)
    have "rn_at s i = Unborn" using sound spawn by (auto simp: sound_def counters_def)
    then have "coming out (rn_pool s) ((rn_at s)(i := Starting)) j ms = coming out (rn_pool s) (rn_at s) j ms" for j ms
      using coming_rouse [of "(rn_at s)(i := Starting)" "rn_at s"] by simp
    then show ?thesis using man step(3) spawn by (auto simp: agrees_def all_coming_def)
  next
    case (join r)
    then show ?thesis using man step(3) by (auto simp: agrees_def)
  next
    case (notify t n ns)
    note k = notified_kept [OF notify(2)] notified_unsent [OF notify(2)] notified_caller [OF notify(2)]
    have "agrees cf out (s\<lparr>rn_notes := (rn_notes s)(t := ns)\<rparr>) = agrees cf out s"
      by (simp add: agrees_def all_coming_def leads_def split: caller.split)
    with agrees_kept [OF k(1,2,6,7)] k(5,7) man step(3) show ?thesis by auto
  qed
next
  case (spurious s s')
  note k = spurious_kept [OF spurious(2)] spurious_unsent [OF spurious(2)] spurious_caller [OF spurious(2)]
  with agrees_kept [OF k(1,2,6,7)] manned_spurious [OF spurious(2)] spurious(3) show ?case by auto
qed

end
