(* ===== verification/Ordered_Sample.thy ===== *)
theory Ordered_Sample
  imports Ordered_Liveness Ordered_Sequential
begin

text \<open>
  A scheduler for the ordered fan-out that computes: it is told which thread goes on, and follows the
  step relation. With it, a small run to the end.
\<close>

section \<open>Scheduling\<close>

fun work_step :: "('m, 's, 'c, 'e) config \<Rightarrow> nat \<Rightarrow> ('m, 's) station \<Rightarrow> 'm pool \<Rightarrow> (('m, 's) station \<times> 'm pool \<times> notify list \<times> bool) option" where
  "work_step cf i Starting st = Some (case cf_init cf i of None \<Rightarrow> (Leaving, st, [], True) | Some x \<Rightarrow> (Claiming x, st, [], False))"
| "work_step cf i (Claiming x) st = (case claim_attempt cf (if cf_paced cf then max 1 1 else usize_max) st of
     (Exits, st') \<Rightarrow> Some (Leaving, st', [], False)
   | (Claims job, st') \<Rightarrow> Some (Working job (cf_produce cf job x), st', [], False)
   | (Waits, st') \<Rightarrow> Some (AwaitAdmission x, st', [], False))"
| "work_step cf i (Working job (Send m w k)) st = (case send_attempt cf job m w st of
     (Some b, st', ns) \<Rightarrow> Some (Working job (k b), st', ns, False) | (None, st', ns) \<Rightarrow> Some (AwaitRoom job m w k, st', ns, False))"
| "work_step cf i (Roused job m w k) st = (case send_attempt cf job m w (roused st) of
     (Some b, st', ns) \<Rightarrow> Some (Working job (k b), st', ns, False) | (None, st', ns) \<Rightarrow> Some (AwaitRoom job m w k, st', ns, False))"
| "work_step cf i (Working job (Done x)) st = (case sender_drop cf job st of (st', ns) \<Rightarrow> Some (Claiming x, st', ns, False))"
| "work_step cf i (Working job Panics) st = (case sender_drop cf job st of (st', ns) \<Rightarrow> Some (Leaving, st', ns, True))"
| "work_step cf i Leaving st = (case live_guard st of (st', ns) \<Rightarrow> Some (Gone, st', ns, False))"
| "work_step cf i _ st = None"

lemma work_step_works: "work_step cf i p st = Some (p', st', ns, b) \<Longrightarrow> works cf i p st p' st' ns b"
proof (induction cf i p st rule: work_step.induct)
  case (2 cf i x st)
  then show ?case
    by (auto simp del: max_0L max_0R split: prod.splits claim.splits intro: works.claims [OF _ refl] works.waits [OF _ refl] works.exits)
qed (auto split: prod.splits option.splits intro: works.intros)

fun call_step :: "('m, 's, 'c, 'e) config \<Rightarrow> ('m, 'c, 'e) caller \<Rightarrow> 'm pool \<Rightarrow> (('m, 'c, 'e) caller \<times> 'm pool \<times> notify list) option" where
  "call_step cf (Spawning i) st = (if i < threads_of cf then Some (Counted i, st\<lparr>pl_live := pl_live st + 1\<rparr>, [])
     else if i = threads_of cf then Some (if i = 0 then Returned NotRun else next_job cf 0 (cf_start cf), st, []) else None)"
| "call_step cf (Consuming job (Recv k)) st = (case recv_attempt cf job st of
     (Some x, st', ns) \<Rightarrow> Some (Consuming job (k x), st', ns) | (None, st', ns) \<Rightarrow> Some (AwaitReady job k, st', ns))"
| "call_step cf (Consuming job (Return c e)) st = Some (Passing job c e, st, [])"
| "call_step cf (Consuming job ConsumePanics) st = Some (Cancelling Unwound, st, [])"
| "call_step cf (Passing job c e) st = (case advance cf (e \<noteq> None) st of (st', ns) \<Rightarrow>
     Some (if e \<noteq> None then Cancelling (Ended c e) else next_job cf (Suc job) c, st', ns))"
| "call_step cf (Cancelling r) st = (case cancel_guard st of (st', ns) \<Rightarrow> Some (Joining r, st', ns))"
| "call_step cf _ st = None"

lemma call_step_calls: "call_step cf q st = Some (q', st', ns) \<Longrightarrow> calls cf q st q' st' ns"
proof (induction cf q st rule: call_step.induct)
  case (1 cf i st)
  then show ?case using calls.count [of i cf st] calls.spawned_all [of i cf st] by (auto split: if_splits)
next
  case (5 cf job c e st)
  then show ?case using calls.passes [of cf e st] by (auto split: prod.splits)
qed (auto split: prod.splits option.splits if_splits intro: calls.intros)

datatype turn = Worker nat | Caller | Spawn | Join | Note "nat option"

definition join_step :: "('m, 's, 'c, 'e) config \<Rightarrow> ('m, 's, 'c, 'e) run \<Rightarrow> ('m, 's, 'c, 'e) run option" where
  "join_step cf s = (case rn_caller s of
      Joining r \<Rightarrow> if list_all (\<lambda>i. \<not> present (rn_at s i) \<and> rn_notes s (Some i) = []) [0..<threads_of cf] \<and> rn_notes s None = []
        then Some (s\<lparr>rn_caller := Returned (if rn_panicked s then Unwound else r)\<rparr>) else None
    | _ \<Rightarrow> None)"

definition note_step :: "('m, 's, 'c, 'e) run \<Rightarrow> nat option \<Rightarrow> ('m, 's, 'c, 'e) run option" where
  "note_step s t = (case rn_notes s t of
      ChangedAll # ns \<Rightarrow> Some (s\<lparr>rn_notes := (rn_notes s)(t := ns), rn_at := rouse \<circ> rn_at s\<rparr>)
    | ReadyOne # ns \<Rightarrow> Some (s\<lparr>rn_notes := (rn_notes s)(t := ns), rn_caller := ready (rn_caller s)\<rparr>)
    | AdmissionAll # ns \<Rightarrow> Some (s\<lparr>rn_notes := (rn_notes s)(t := ns), rn_at := admit \<circ> rn_at s\<rparr>)
    | _ \<Rightarrow> None)"

definition take_turn :: "('m, 's, 'c, 'e) config \<Rightarrow> ('m, 's, 'c, 'e) run \<Rightarrow> turn \<Rightarrow> ('m, 's, 'c, 'e) run option" where
  "take_turn cf s t = (case t of
      Worker i \<Rightarrow> if i < threads_of cf \<and> rn_notes s (Some i) = [] then
          map_option (\<lambda>(p, st, ns, b). s\<lparr>rn_pool := st, rn_at := (rn_at s)(i := p), rn_notes := (rn_notes s)(Some i := ns),
            rn_panicked := rn_panicked s \<or> b\<rparr>) (work_step cf i (rn_at s i) (rn_pool s)) else None
    | Caller \<Rightarrow> if rn_notes s None = [] then
          map_option (\<lambda>(q, st, ns). s\<lparr>rn_pool := st, rn_caller := q, rn_notes := (rn_notes s)(None := ns)\<rparr>)
            (call_step cf (rn_caller s) (rn_pool s)) else None
    | Spawn \<Rightarrow> (case rn_caller s of
          Counted i \<Rightarrow> if rn_notes s None = [] then Some (s\<lparr>rn_at := (rn_at s)(i := Starting), rn_caller := Spawning (Suc i)\<rparr>) else None
        | _ \<Rightarrow> None)
    | Join \<Rightarrow> join_step cf s
    | Note t \<Rightarrow> note_step s t)"

lemma join_step_reach:
  assumes "join_step cf s = Some s'" "reach cf s" "cf_jobs cf \<le> usize_max"
  shows "reach cf s'"
proof -
  obtain r where r: "rn_caller s = Joining r" and all: "\<And>i. i < threads_of cf \<Longrightarrow> \<not> present (rn_at s i) \<and> rn_notes s (Some i) = []"
      and none: "rn_notes s None = []" and s': "s' = s\<lparr>rn_caller := Returned (if rn_panicked s then Unwound else r)\<rparr>"
    using assms(1) by (auto simp: join_step_def list_all_iff split: caller.splits if_splits)
  have "\<not> present (rn_at s i)" for i
    using all reach_sound [OF assms(2,3)] by (cases "i < threads_of cf") (auto simp: sound_def counters_def not_less)
  then have "rn_at s i \<in> {Unborn, Gone}" for i by (metis insertCI present.elims(3))
  moreover have "rn_notes s (Some i) = []" for i
    using all reach_notes [OF assms(2)] by (cases "i < threads_of cf") (auto simp: notes_of_threads_def not_less)
  then have "rn_notes s t = []" for t using none by (cases t) auto
  ultimately show ?thesis unfolding s' using reach.step [OF assms(2)] step.join [OF none r] by blast
qed

lemma note_step_step: "note_step s t = Some s' \<Longrightarrow> step cf s s'"
proof (cases "rn_notes s t")
  case (Cons n ns)
  let ?s = "s\<lparr>rn_notes := (rn_notes s)(t := ns)\<rparr>"
  assume "note_step s t = Some s'"
  then have "notified n ?s s'"
    using Cons notified.changed [of ?s] notified.ready [of ?s] notified.admission [of ?s]
    by (cases n) (auto simp: note_step_def)
  with Cons show ?thesis by (rule step.notify)
qed (simp add: note_step_def)

lemma take_turn_reach:
  assumes "take_turn cf s t = Some s'" "reach cf s" "cf_jobs cf \<le> usize_max"
  shows "reach cf s'"
proof (cases t)
  case (Worker i)
  with assms(1) show ?thesis
    by (auto simp: take_turn_def split: if_splits intro!: reach.step [OF assms(2)] step.worker dest!: work_step_works)
next
  case Caller
  with assms(1) show ?thesis
    by (auto simp: take_turn_def split: if_splits intro!: reach.step [OF assms(2)] step.caller dest!: call_step_calls)
next
  case Spawn
  with assms(1) show ?thesis
    by (auto simp: take_turn_def split: if_splits caller.splits intro!: reach.step [OF assms(2)] step.spawn)
next
  case Join
  with assms show ?thesis by (auto simp: take_turn_def intro: join_step_reach)
next
  case (Note t)
  with assms(1) show ?thesis by (auto simp: take_turn_def intro!: reach.step [OF assms(2)] note_step_step)
qed

fun take_turns :: "('m, 's, 'c, 'e) config \<Rightarrow> ('m, 's, 'c, 'e) run \<Rightarrow> turn list \<Rightarrow> ('m, 's, 'c, 'e) run option" where
  "take_turns cf s [] = Some s"
| "take_turns cf s (t # ts) = (case take_turn cf s t of None \<Rightarrow> None | Some s' \<Rightarrow> take_turns cf s' ts)"

lemma take_turns_reach: "take_turns cf s ts = Some s' \<Longrightarrow> reach cf s \<Longrightarrow> cf_jobs cf \<le> usize_max \<Longrightarrow> reach cf s'"
  by (induction cf s ts rule: take_turns.induct) (auto split: option.splits intro: take_turn_reach)

section \<open>A run\<close>

text \<open>One job that sends a number, to a consumer that keeps it.\<close>

definition small_config :: "(nat, unit, nat, unit) config" where
  "small_config = \<lparr>cf_jobs = 1, cf_workers = 1, cf_window = 1, cf_cap = 4, cf_paced = True, cf_init = (\<lambda>_. Some ()),
     cf_produce = (\<lambda>j _. Send (j + 7) 3 (\<lambda>_. Done ())), cf_consume = (\<lambda>j c. Recv (\<lambda>m. Return (case m of None \<Rightarrow> 0 | Some n \<Rightarrow> n) None)),
     cf_start = 0\<rparr>"

definition to_queue :: "turn list" where
  "to_queue = [Caller, Spawn, Caller, Worker 0, Worker 0, Worker 0]"

definition to_return :: "turn list" where
  "to_return = to_queue @ [Caller, Note None, Note (Some 0), Note (Some 0), Caller, Caller, Note None, Note None, Caller, Note None, Note None,
     Note None, Worker 0, Note (Some 0), Note (Some 0), Worker 0, Worker 0, Note (Some 0), Note (Some 0), Note (Some 0), Join]"

definition queued_run :: "(nat, unit, nat, unit) run" where
  "queued_run = the (take_turns small_config run_inner to_queue)"

definition ended_run :: "(nat, unit, nat, unit) run" where
  "ended_run = the (take_turns small_config run_inner to_return)"

lemma queued_content:
  "map_option (\<lambda>s. (map sl_messages (pl_slots (rn_pool s)), pl_current (rn_pool s), pl_next (rn_pool s)))
     (take_turns small_config run_inner to_queue) = Some ([[(7, 3)]], 0, 1)"
  by code_simp

definition ended :: "('m, 'c, 'e) caller \<Rightarrow> ('c \<times> 'e option) option" where
  "ended q = (case q of Returned (Ended c e) \<Rightarrow> Some (c, e) | _ \<Rightarrow> None)"

text \<open>The threads of a run with one worker, in a form that evaluates.\<close>

definition one_at :: "('m, 's) station \<Rightarrow> nat \<Rightarrow> ('m, 's) station" where
  "one_at p i = (if i = 0 then p else Unborn)"

definition two_notes :: "notify list \<Rightarrow> notify list \<Rightarrow> nat option \<Rightarrow> notify list" where
  "two_notes a b t = (case t of None \<Rightarrow> a | Some i \<Rightarrow> if i = 0 then b else [])"

lemma one_at_simps: "one_at p 0 = p" "(one_at p)(0 := q) = one_at q" "rouse \<circ> one_at p = one_at (rouse p)" "admit \<circ> one_at p = one_at (admit p)"
  "(\<lambda>_. Unborn) = one_at Unborn"
  by (auto simp: one_at_def fun_eq_iff rouse_def admit_def)

lemma two_notes_simps: "two_notes a b None = a" "two_notes a b (Some 0) = b" "(two_notes a b)(None := x) = two_notes x b"
  "(two_notes a b)(Some 0 := x) = two_notes a x" "(\<lambda>_. []) = two_notes [] []"
  by (auto simp: two_notes_def fun_eq_iff split: option.split)

lemma small_fields: "cf_jobs small_config = 1" "threads_of small_config = 1" "window_of small_config = 1" "cap_of small_config = 4"
  "cf_paced small_config" "cf_init small_config i = Some ()" "cf_produce small_config j u = Send (j + 7) 3 (\<lambda>_. Done ())"
  "cf_consume small_config j c = Recv (\<lambda>m. Return (case m of None \<Rightarrow> 0 | Some n \<Rightarrow> n) None)" "cf_start small_config = 0"
  "paced_note small_config = [AdmissionAll]"
  by (simp_all add: small_config_def threads_of_def window_of_def cap_of_def paced_note_def)

lemma ended_caller: "map_option (\<lambda>s. ended (rn_caller s)) (take_turns small_config run_inner to_return) = Some (Some (7, None))"
  by (simp add: to_return_def to_queue_def run_inner_def one_at_simps two_notes_simps small_fields take_turn_def pool_new_def next_job_def
      claim_attempt_def send_attempt_def recv_attempt_def sender_drop_def advance_def cancel_guard_def live_guard_def slot_mut_def put_slot_def
      slot_default_def note_step_def join_step_def rouse_def admit_def ready_def ended_def Let_def del: slot_mut_simps)

lemma small_jobs: "cf_jobs small_config \<le> usize_max"
  by (simp add: small_config_def usize_max_def)

lemma queued_reach: "reach small_config queued_run" "sl_messages (slot_at (rn_pool queued_run) 0) = [(7, 3)]" "pl_next (rn_pool queued_run) = 1"
proof -
  obtain s where s: "take_turns small_config run_inner to_queue = Some s" using queued_content by auto
  with queued_content have c: "queued_run = s" "map sl_messages (pl_slots (rn_pool s)) = [[(7, 3)]]" "pl_current (rn_pool s) = 0" "pl_next (rn_pool s) = 1"
    by (auto simp: queued_run_def)
  then show "sl_messages (slot_at (rn_pool queued_run) 0) = [(7, 3)]" "pl_next (rn_pool queued_run) = 1"
    by (auto simp: slot_at_def nth_default_def)
  show "reach small_config queued_run" using take_turns_reach [OF s reach.init small_jobs] c by simp
qed

lemma queued_empty: "j \<noteq> 0 \<Longrightarrow> sl_messages (slot_at (rn_pool queued_run) j) = []"
  using reach_sound [OF queued_reach(1) small_jobs] queued_reach(3) by (auto simp: sound_def jobs_held_def slot_default_def)

lemma ended_reach: "reach small_config ended_run" "rn_caller ended_run = Returned (Ended 7 None)"
proof -
  obtain s where s: "take_turns small_config run_inner to_return = Some s" using ended_caller by auto
  then show "rn_caller ended_run = Returned (Ended 7 None)"
    using ended_caller by (simp add: ended_run_def ended_def split: caller.splits outcome.splits)
  show "reach small_config ended_run" using take_turns_reach [OF s reach.init small_jobs] s by (simp add: ended_run_def)
qed

lemma small_output: "same_output small_config (\<lambda>j. [j + 7])"
  by (simp add: same_output_def small_config_def)

lemma small_sequential: "sequential small_config (\<lambda>j. [j + 7]) = Ended 7 None"
  by (simp add: sequential_def small_config_def)

end
