(* ===== verification/Crypto_Backend.thy ===== *)
theory Crypto_Backend
  imports Key_Derivation
begin

text \<open>
  AES-256-CBC as the crate drives it (\<^verbatim>\<open>src/src/crypto_backend.rs\<close>): the AWS-LC, RustCrypto and
  host-delegated decryptors, the two encryptors, and how each carries the chaining state from one
  call to the next. The ciphers themselves are not part of the crate: AWS-LC's one-shot calls,
  RustCrypto's block mode and the embedder's hook are arguments, and what their documentation
  promises, unpadded CBC over one block cipher, is stated as a predicate. The reference is CBC over
  a whole stream, and the interface a coder relies on is a locale: any block-aligned pieces of a
  stream give the stream's own result.
\<close>

section \<open>Constants and errors\<close>

definition AES_BLOCK_LEN :: nat where "AES_BLOCK_LEN = 16"
definition AES256_KEY_LEN :: nat where "AES256_KEY_LEN = 32"

datatype aes_error = KeyLength | IvLength | BlockAlignment | Backend

definition aes_error_fmt :: "aes_error \<Rightarrow> string" where
  "aes_error_fmt e = (case e of
      KeyLength \<Rightarrow> ''an AES-256 key is 32 bytes''
    | IvLength \<Rightarrow> ''an AES initialisation vector is 16 bytes''
    | BlockAlignment \<Rightarrow> ''AES-CBC ciphertext is a whole number of 16-byte blocks''
    | Backend \<Rightarrow> ''the AES backend refused the key or the ciphertext'')"

text \<open>
  A call works in place: it returns how it went, the buffer afterwards and the cipher afterwards.
  \<open>Panicked\<close> is the value of a panic, which only the host-delegated decryptor has.
\<close>

datatype outcome = Fine | Refused aes_error | Panicked string

type_synonym 'c cipher_call = "'c \<Rightarrow> byte list \<Rightarrow> outcome \<times> byte list \<times> 'c"

section \<open>The libraries\<close>

text \<open>
  AWS-LC: whether a key is accepted, and the one-shot calls under a key and an initialization
  vector, each returning whether it succeeded and what it left in the buffer. RustCrypto: a block
  mode made of a key and a vector, and one block through it. The hook: bytes or an error's text.
\<close>

record aws_lc =
  al_decrypting_key :: "byte list \<Rightarrow> bool"
  al_encrypting_key :: "byte list \<Rightarrow> bool"
  al_decrypt :: "byte list \<Rightarrow> byte list \<Rightarrow> byte list \<Rightarrow> bool \<times> byte list"
  al_encrypt :: "byte list \<Rightarrow> byte list \<Rightarrow> byte list \<Rightarrow> bool \<times> byte list"

record 'm rust_crypto =
  rc_new :: "byte list \<Rightarrow> byte list \<Rightarrow> 'm"
  rc_block :: "'m \<Rightarrow> byte list \<Rightarrow> byte list \<times> 'm"

type_synonym aes_hook = "byte list \<Rightarrow> byte list \<Rightarrow> byte list \<Rightarrow> string + byte list"

section \<open>The backends\<close>

record aws_cipher =
  ac_key :: "byte list"
  ac_iv :: "byte list"

definition key_and_iv :: "byte list \<Rightarrow> byte list \<Rightarrow> aes_error + unit" where
  "key_and_iv key iv =
     (if length key \<noteq> AES256_KEY_LEN then Inl KeyLength
      else if length iv \<noteq> AES_BLOCK_LEN then Inl IvLength
      else Inr ())"

definition aws_new :: "(byte list \<Rightarrow> bool) \<Rightarrow> byte list \<Rightarrow> byte list \<Rightarrow> aes_error + aws_cipher" where
  "aws_new accepted key iv = bindE (key_and_iv key iv) (\<lambda>_.
     if accepted key then Inr \<lparr>ac_key = key, ac_iv = iv\<rparr> else Inl Backend)"

definition last_block :: "byte list \<Rightarrow> byte list" where
  "last_block data = drop (length data - AES_BLOCK_LEN) data"

definition aws_decrypt :: "aws_lc \<Rightarrow> aws_cipher cipher_call" where
  "aws_decrypt lib c data =
     (if length data mod AES_BLOCK_LEN \<noteq> 0 then (Refused BlockAlignment, data, c)
      else if data = [] then (Fine, data, c)
      else let next_iv = last_block data in
        case al_decrypt lib (ac_key c) (ac_iv c) data of
          (False, data') \<Rightarrow> (Refused Backend, data', c)
        | (True, data') \<Rightarrow> (Fine, data', c\<lparr>ac_iv := next_iv\<rparr>))"

definition aws_encrypt :: "aws_lc \<Rightarrow> aws_cipher cipher_call" where
  "aws_encrypt lib c data =
     (if length data mod AES_BLOCK_LEN \<noteq> 0 then (Refused BlockAlignment, data, c)
      else if data = [] then (Fine, data, c)
      else case al_encrypt lib (ac_key c) (ac_iv c) data of
          (False, data') \<Rightarrow> (Refused Backend, data', c)
        | (True, data') \<Rightarrow> (Fine, data', c\<lparr>ac_iv := last_block data'\<rparr>))"

definition rust_new :: "'m rust_crypto \<Rightarrow> byte list \<Rightarrow> byte list \<Rightarrow> aes_error + 'm" where
  "rust_new lib key iv = bindE (key_and_iv key iv) (\<lambda>_. Inr (rc_new lib key iv))"

fun rust_blocks :: "'m rust_crypto \<Rightarrow> 'm \<Rightarrow> byte list list \<Rightarrow> byte list list \<times> 'm" where
  "rust_blocks lib m [] = ([], m)"
| "rust_blocks lib m (b # bs) = (case rc_block lib m b of (b', m') \<Rightarrow>
     case rust_blocks lib m' bs of (bs', m'') \<Rightarrow> (b' # bs', m''))"

text \<open>\<open>decrypt\<close> of the decryptor and \<open>encrypt\<close> of the encryptor, which differ in the block call alone.\<close>

definition rust_call :: "'m rust_crypto \<Rightarrow> 'm cipher_call" where
  "rust_call lib m data =
     (if length data mod AES_BLOCK_LEN \<noteq> 0 then (Refused BlockAlignment, data, m)
      else case rust_blocks lib m (chunks_exact AES_BLOCK_LEN data) of (bs, m') \<Rightarrow> (Fine, concat bs, m'))"

definition host_new :: "byte list \<Rightarrow> byte list \<Rightarrow> aes_error + aws_cipher" where
  "host_new key iv = bindE (key_and_iv key iv) (\<lambda>_. Inr \<lparr>ac_key = key, ac_iv = iv\<rparr>)"

definition host_decrypt :: "aes_hook \<Rightarrow> aws_cipher cipher_call" where
  "host_decrypt hook c data =
     (if length data mod AES_BLOCK_LEN \<noteq> 0 then (Refused BlockAlignment, data, c)
      else if data = [] then (Fine, data, c)
      else let next_iv = last_block data in
        case hook (ac_key c) (ac_iv c) data of
          Inl err \<Rightarrow> (Panicked ''host aes-cbc-decrypt failed'', data, c)
        | Inr plaintext \<Rightarrow>
            if length plaintext \<noteq> length data
            then (Panicked ''host aes-cbc-decrypt returned the wrong number of bytes'', data, c)
            else (Fine, plaintext, c\<lparr>ac_iv := next_iv\<rparr>))"


section \<open>The reference\<close>

definition xor_block :: "byte list \<Rightarrow> byte list \<Rightarrow> byte list" where
  "xor_block = map2 (XOR)"

text \<open>Cipher block chaining over a stream of whole blocks, from a function on one block.\<close>

function cbc_decrypt :: "(byte list \<Rightarrow> byte list) \<Rightarrow> byte list \<Rightarrow> byte list \<Rightarrow> byte list" where
  "cbc_decrypt D iv data =
     (if length data < 16 then []
      else xor_block (D (take 16 data)) iv @ cbc_decrypt D (take 16 data) (drop 16 data))"
  by pat_completeness auto
termination by (relation "measure (\<lambda>(_, _, data). length data)") auto

function cbc_encrypt :: "(byte list \<Rightarrow> byte list) \<Rightarrow> byte list \<Rightarrow> byte list \<Rightarrow> byte list" where
  "cbc_encrypt E iv data =
     (if length data < 16 then []
      else let c = E (xor_block (take 16 data) iv) in c @ cbc_encrypt E c (drop 16 data))"
  by pat_completeness auto
termination by (relation "measure (\<lambda>(_, _, data). length data)") auto

declare cbc_decrypt.simps [simp del] cbc_encrypt.simps [simp del]

text \<open>The vector that follows a piece of ciphertext.\<close>

definition next_iv :: "byte list \<Rightarrow> byte list \<Rightarrow> byte list" where
  "next_iv iv data = (if data = [] then iv else last_block data)"

definition mode_decrypt :: "(byte list \<Rightarrow> byte list \<Rightarrow> byte list) \<Rightarrow> aws_cipher cipher_call" where
  "mode_decrypt D c data =
     (if length data mod 16 \<noteq> 0 then (Refused BlockAlignment, data, c)
      else (Fine, cbc_decrypt (D (ac_key c)) (ac_iv c) data, c\<lparr>ac_iv := next_iv (ac_iv c) data\<rparr>))"

definition mode_encrypt :: "(byte list \<Rightarrow> byte list \<Rightarrow> byte list) \<Rightarrow> aws_cipher cipher_call" where
  "mode_encrypt E c data =
     (if length data mod 16 \<noteq> 0 then (Refused BlockAlignment, data, c)
      else let out = cbc_encrypt (E (ac_key c)) (ac_iv c) data
        in (Fine, out, c\<lparr>ac_iv := next_iv (ac_iv c) out\<rparr>))"

text \<open>What the libraries document: one block cipher under each key, and unpadded CBC over it.\<close>

definition keeps_blocks :: "(byte list \<Rightarrow> byte list) \<Rightarrow> bool" where
  "keeps_blocks f \<longleftrightarrow> (\<forall>b. length b = 16 \<longrightarrow> length (f b) = 16)"

definition block_cipher :: "(byte list \<Rightarrow> byte list \<Rightarrow> byte list) \<Rightarrow> (byte list \<Rightarrow> byte list \<Rightarrow> byte list) \<Rightarrow> bool" where
  "block_cipher E D \<longleftrightarrow> (\<forall>key. length key = 32 \<longrightarrow> keeps_blocks (E key) \<and> keeps_blocks (D key)
     \<and> (\<forall>b. length b = 16 \<longrightarrow> D key (E key b) = b))"

definition one_shot_decrypts :: "(byte list \<Rightarrow> byte list \<Rightarrow> byte list) \<Rightarrow> aws_lc \<Rightarrow> bool" where
  "one_shot_decrypts D lib \<longleftrightarrow> (\<forall>key iv data. length key = 32 \<longrightarrow> length iv = 16 \<longrightarrow> length data mod 16 = 0
     \<longrightarrow> al_decrypt lib key iv data = (True, cbc_decrypt (D key) iv data))"

definition one_shot_encrypts :: "(byte list \<Rightarrow> byte list \<Rightarrow> byte list) \<Rightarrow> aws_lc \<Rightarrow> bool" where
  "one_shot_encrypts E lib \<longleftrightarrow> (\<forall>key iv data. length key = 32 \<longrightarrow> length iv = 16 \<longrightarrow> length data mod 16 = 0
     \<longrightarrow> al_encrypt lib key iv data = (True, cbc_encrypt (E key) iv data))"

text \<open>A block mode that decrypts: \<open>view\<close> is the key and the vector it holds.\<close>

definition block_mode_decrypts ::
  "(byte list \<Rightarrow> byte list \<Rightarrow> byte list) \<Rightarrow> 'm rust_crypto \<Rightarrow> ('m \<Rightarrow> aws_cipher) \<Rightarrow> bool" where
  "block_mode_decrypts D lib view \<longleftrightarrow>
     (\<forall>key iv. view (rc_new lib key iv) = \<lparr>ac_key = key, ac_iv = iv\<rparr>)
   \<and> (\<forall>m b. length b = 16 \<longrightarrow> (case rc_block lib m b of (b', m') \<Rightarrow>
        b' = xor_block (D (ac_key (view m)) b) (ac_iv (view m)) \<and> view m' = (view m)\<lparr>ac_iv := b\<rparr>))"

definition hook_decrypts :: "(byte list \<Rightarrow> byte list \<Rightarrow> byte list) \<Rightarrow> aes_hook \<Rightarrow> bool" where
  "hook_decrypts D hook \<longleftrightarrow> (\<forall>key iv data. length key = 32 \<longrightarrow> length iv = 16 \<longrightarrow> length data mod 16 = 0
     \<longrightarrow> hook key iv data = Inr (cbc_decrypt (D key) iv data))"

definition keyed :: "(byte list \<Rightarrow> byte list \<Rightarrow> byte list) \<Rightarrow> aws_cipher \<Rightarrow> bool" where
  "keyed f c \<longleftrightarrow> length (ac_key c) = 32 \<and> length (ac_iv c) = 16 \<and> keeps_blocks (f (ac_key c))"

section \<open>Chaining\<close>

lemma length_xor_block [simp]: "length (xor_block a b) = min (length a) (length b)"
  by (simp add: xor_block_def)

lemma xor_block_twice: "length a = length b \<Longrightarrow> xor_block (xor_block a b) b = a"
  by (induction a b rule: list_induct2) (simp_all add: xor_block_def xor.assoc)

lemma mod_drop_block: "length data mod 16 = 0 \<Longrightarrow> length (drop 16 data) mod 16 = (0 :: nat)"
  by (simp add: mod_eq_0_iff_dvd dvd_minus_self)

lemma aligned_cases [case_names Empty Block]:
  fixes data :: "'a list"
  assumes "length data mod 16 = 0"
  obtains "data = []" | b ds where "data = b @ ds" "length b = 16" "length ds mod 16 = 0"
proof (cases "length data < 16")
  case True with assms that(1) show ?thesis by simp
next
  case False
  then show ?thesis
    using that(2) [of "take 16 data" "drop 16 data"] mod_drop_block [OF assms] by (simp add: not_less min.absorb2)
qed

lemma aligned_induct [consumes 1, case_names Empty Block]:
  fixes data :: "'a list"
  assumes "length data mod 16 = 0" "P []"
    and "\<And>b ds. length b = 16 \<Longrightarrow> length ds mod 16 = 0 \<Longrightarrow> P ds \<Longrightarrow> P (b @ ds)"
  shows "P data"
  using assms(1)
proof (induction data rule: length_induct)
  case (1 data)
  from \<open>length data mod 16 = 0\<close> show ?case
  proof (cases rule: aligned_cases)
    case Empty with assms(2) show ?thesis by simp
  next
    case (Block b ds) with assms(3) 1 show ?thesis by simp
  qed
qed

lemma cbc_simps [simp]:
  "cbc_decrypt D iv [] = []" "cbc_encrypt E iv [] = []"
  by (simp_all add: cbc_decrypt.simps cbc_encrypt.simps)

lemma cbc_block:
  assumes "length b = 16"
  shows "cbc_decrypt D iv (b @ ds) = xor_block (D b) iv @ cbc_decrypt D b ds"
    and "cbc_encrypt E iv (b @ ds) = E (xor_block b iv) @ cbc_encrypt E (E (xor_block b iv)) ds"
  using assms by (simp_all add: cbc_decrypt.simps [of D iv "b @ ds"] cbc_encrypt.simps [of E iv "b @ ds"] Let_def)

lemma last_block_append: "16 \<le> length b \<Longrightarrow> last_block (a @ b) = last_block b"
  by (simp add: last_block_def AES_BLOCK_LEN_def)

lemma next_iv_block:
  assumes "length b = 16" "length ds mod 16 = 0"
  shows "next_iv iv (b @ ds) = next_iv b ds"
  using assms(2)
proof (cases rule: aligned_cases)
  case Empty with assms(1) show ?thesis by (auto simp: next_iv_def last_block_def AES_BLOCK_LEN_def)
next
  case (Block b' ds')
  then show ?thesis by (auto simp: next_iv_def last_block_append [of "b' @ ds'"])
qed

lemma cbc_decrypt_append:
  "length a mod 16 = 0 \<Longrightarrow> cbc_decrypt D iv (a @ ds) = cbc_decrypt D iv a @ cbc_decrypt D (next_iv iv a) ds"
  by (induction a arbitrary: iv rule: aligned_induct) (simp_all add: cbc_block next_iv_block, simp add: next_iv_def)

lemma length_cbc_decrypt:
  "length a mod 16 = 0 \<Longrightarrow> keeps_blocks D \<Longrightarrow> length iv = 16 \<Longrightarrow> length (cbc_decrypt D iv a) = length a"
  by (induction a arbitrary: iv rule: aligned_induct) (simp_all add: cbc_block keeps_blocks_def)

lemma length_cbc_encrypt:
  "length a mod 16 = 0 \<Longrightarrow> keeps_blocks E \<Longrightarrow> length iv = 16 \<Longrightarrow> length (cbc_encrypt E iv a) = length a"
  by (induction a arbitrary: iv rule: aligned_induct) (simp_all add: cbc_block keeps_blocks_def)

lemma cbc_encrypt_append:
  "length a mod 16 = 0 \<Longrightarrow> keeps_blocks E \<Longrightarrow> length iv = 16
   \<Longrightarrow> cbc_encrypt E iv (a @ ds) = cbc_encrypt E iv a @ cbc_encrypt E (next_iv iv (cbc_encrypt E iv a)) ds"
proof (induction a arbitrary: iv rule: aligned_induct)
  case Empty show ?case by (simp add: next_iv_def)
next
  case (Block b rest)
  let ?c = "E (xor_block b iv)"
  have c: "length ?c = 16" using Block by (simp add: keeps_blocks_def)
  then have "length (cbc_encrypt E ?c rest) mod 16 = 0" using Block length_cbc_encrypt by metis
  from next_iv_block [OF c this] Block c show ?case by (simp add: cbc_block)
qed

lemma length_next_iv:
  "length data mod 16 = 0 \<Longrightarrow> length iv = 16 \<Longrightarrow> length (next_iv iv data) = 16"
  by (cases rule: aligned_cases, assumption)
     (auto simp: next_iv_def last_block_def AES_BLOCK_LEN_def)

lemma cbc_round_trip:
  assumes "length data mod 16 = 0" "keeps_blocks E" "\<And>b. length b = 16 \<Longrightarrow> D (E b) = b" "length iv = 16"
  shows "cbc_decrypt D iv (cbc_encrypt E iv data) = data"
  using assms(1,4)
proof (induction data arbitrary: iv rule: aligned_induct)
  case (Block b ds)
  have "length (E (xor_block b iv)) = 16" using Block assms(2) by (simp add: keeps_blocks_def)
  with Block assms(3) show ?case by (simp add: cbc_block xor_block_twice)
qed simp


section \<open>The interface of a coder's cipher\<close>

text \<open>
  What a coder relies on: while the cipher is \<open>good\<close>, a call on whole blocks succeeds, leaves it good,
  and gives the front of what the whole stream would have given.
\<close>

locale chained_cipher =
  fixes call :: "'c cipher_call" and run :: "'c \<Rightarrow> byte list \<Rightarrow> byte list" and good :: "'c \<Rightarrow> bool"
  assumes call_fine: "good c \<Longrightarrow> length data mod 16 = 0
      \<Longrightarrow> \<exists>c'. call c data = (Fine, run c data, c') \<and> good c' \<and> (\<forall>ds. run c (data @ ds) = run c data @ run c' ds)"
    and run_length: "good c \<Longrightarrow> length data mod 16 = 0 \<Longrightarrow> length (run c data) = length data"
begin

lemma run_Nil: "good c \<Longrightarrow> run c [] = []"
  using run_length [of c "[]"] by simp

lemma call_split:
  assumes "good c" "length data mod 16 = 0"
  obtains c' where "call c data = (Fine, run c data, c')" "good c'" "\<And>ds. run c (data @ ds) = run c data @ run c' ds"
  using call_fine [OF assms] by blast

end

text \<open>Every call of a sequence, whatever its length: how it went and what it left in the buffer.\<close>

fun cipher_calls :: "'c cipher_call \<Rightarrow> 'c \<Rightarrow> byte list list \<Rightarrow> (outcome \<times> byte list) list" where
  "cipher_calls call c [] = []"
| "cipher_calls call c (data # pieces) =
     (case call c data of (r, data', c') \<Rightarrow> (r, data') # cipher_calls call c' pieces)"

text \<open>A lane: an implementation that does what a reference mode does, its state seen through \<open>view\<close>.\<close>

locale cipher_lane = chained_cipher mode run good
  for mode :: "aws_cipher cipher_call" and run :: "aws_cipher \<Rightarrow> byte list \<Rightarrow> byte list" and good :: "aws_cipher \<Rightarrow> bool" +
  fixes call :: "'c cipher_call" and view :: "'c \<Rightarrow> aws_cipher" and sound :: bool
  assumes mode_good: "good m \<Longrightarrow> mode m data = (r, data', m') \<Longrightarrow> good m'"
    and call_mode: "sound \<Longrightarrow> good (view c)
      \<Longrightarrow> \<exists>c'. call c data = (fst (mode (view c) data), fst (snd (mode (view c) data)), c')
            \<and> view c' = snd (snd (mode (view c) data))"
begin

lemma calls_mode: "sound \<Longrightarrow> good (view c) \<Longrightarrow> cipher_calls call c pieces = cipher_calls mode (view c) pieces"
proof (induction pieces arbitrary: c)
  case (Cons data pieces)
  obtain r data' m where m: "mode (view c) data = (r, data', m)" by (metis surj_pair)
  with call_mode [OF Cons.prems, of data] obtain c' where "call c data = (r, data', c')" "view c' = m" by auto
  moreover have "good m" using mode_good [OF Cons.prems(2) m] .
  ultimately show ?case using Cons m by simp
qed simp

end

sublocale cipher_lane \<subseteq> lane: chained_cipher call "\<lambda>c. run (view c)" "\<lambda>c. sound \<and> good (view c)"
proof
  fix c :: 'c and data :: "byte list"
  assume *: "sound \<and> good (view c)" and data: "length data mod 16 = 0"
  then have g: "good (view c)" by simp
  from call_fine [OF g data] obtain m where m: "mode (view c) data = (Fine, run (view c) data, m)" "good m"
      "\<forall>ds. run (view c) (data @ ds) = run (view c) data @ run m ds" by blast
  with call_mode [of c data] * obtain c' where c': "call c data = (Fine, run (view c) data, c')" "view c' = m" by auto
  with m * show "\<exists>c'. call c data = (Fine, run (view c) data, c') \<and> (sound \<and> good (view c'))
      \<and> (\<forall>ds. run (view c) (data @ ds) = run (view c) data @ run (view c') ds)" by blast
  show "length (run (view c) data) = length data" by (rule run_length [OF g data])
qed

section \<open>The lanes\<close>

lemma mode_decrypt_good: "keyed D c \<Longrightarrow> mode_decrypt D c data = (r, data', c') \<Longrightarrow> keyed D c'"
  by (auto simp: mode_decrypt_def keyed_def length_next_iv split: if_splits)

lemma mode_encrypt_good: "keyed E c \<Longrightarrow> mode_encrypt E c data = (r, data', c') \<Longrightarrow> keyed E c'"
  by (auto simp: mode_encrypt_def keyed_def Let_def length_next_iv length_cbc_encrypt split: if_splits)

abbreviation plaintext_of :: "(byte list \<Rightarrow> byte list \<Rightarrow> byte list) \<Rightarrow> aws_cipher \<Rightarrow> byte list \<Rightarrow> byte list" where
  "plaintext_of D c \<equiv> cbc_decrypt (D (ac_key c)) (ac_iv c)"

abbreviation ciphertext_of :: "(byte list \<Rightarrow> byte list \<Rightarrow> byte list) \<Rightarrow> aws_cipher \<Rightarrow> byte list \<Rightarrow> byte list" where
  "ciphertext_of E c \<equiv> cbc_encrypt (E (ac_key c)) (ac_iv c)"

interpretation dec: chained_cipher "mode_decrypt D" "plaintext_of D" "keyed D" for D
  by unfold_locales (simp_all add: mode_decrypt_def keyed_def cbc_decrypt_append length_cbc_decrypt length_next_iv)

interpretation enc: chained_cipher "mode_encrypt E" "ciphertext_of E" "keyed E" for E
  by unfold_locales (simp_all add: mode_encrypt_def keyed_def Let_def cbc_encrypt_append length_cbc_encrypt length_next_iv)

lemma last_or_same: "data \<noteq> [] \<Longrightarrow> next_iv iv data = last_block data" "next_iv iv [] = iv"
  by (simp_all add: next_iv_def)

interpretation aws_dec: cipher_lane "mode_decrypt D" "plaintext_of D" "keyed D" "aws_decrypt lib" id "one_shot_decrypts D lib"
  for D lib
  by unfold_locales
     (rule mode_decrypt_good, assumption+,
      simp add: aws_decrypt_def mode_decrypt_def one_shot_decrypts_def keyed_def AES_BLOCK_LEN_def Let_def last_or_same)

interpretation aws_enc: cipher_lane "mode_encrypt E" "ciphertext_of E" "keyed E" "aws_encrypt lib" id "one_shot_encrypts E lib"
  for E lib
proof unfold_locales
  fix c :: aws_cipher and data
  assume *: "one_shot_encrypts E lib" "keyed E (id c)"
  have "length data mod 16 = 0 \<Longrightarrow> data \<noteq> [] \<Longrightarrow> cbc_encrypt (E (ac_key c)) (ac_iv c) data \<noteq> []"
    using * length_cbc_encrypt [of data "E (ac_key c)" "ac_iv c"] by (auto simp: keyed_def)
  with * show "\<exists>c'. aws_encrypt lib c data = (fst (mode_encrypt E (id c) data), fst (snd (mode_encrypt E (id c) data)), c')
      \<and> id c' = snd (snd (mode_encrypt E (id c) data))"
    by (auto simp: aws_encrypt_def mode_encrypt_def one_shot_encrypts_def keyed_def AES_BLOCK_LEN_def Let_def last_or_same)
qed (rule mode_encrypt_good)

interpretation host_dec: cipher_lane "mode_decrypt D" "plaintext_of D" "keyed D" "host_decrypt hook" id "hook_decrypts D hook"
  for D hook
  by unfold_locales
     (rule mode_decrypt_good, assumption+,
      simp add: host_decrypt_def mode_decrypt_def hook_decrypts_def keyed_def AES_BLOCK_LEN_def Let_def last_or_same
       length_cbc_decrypt)

lemma chunks_exact_block: "length b = 16 \<Longrightarrow> chunks_exact 16 (b @ ds) = b # chunks_exact 16 ds" "chunks_exact 16 [] = []"
  by (simp_all add: chunks_exact.simps [of 16 "b @ ds"] chunks_exact.simps [of 16 "[]"])

lemma rust_blocks_mode:
  assumes "length data mod 16 = 0" "block_mode_decrypts D lib view"
  shows "case rust_blocks lib m (chunks_exact 16 data) of (bs, m') \<Rightarrow>
     concat bs = plaintext_of D (view m) data \<and> view m' = (view m)\<lparr>ac_iv := next_iv (ac_iv (view m)) data\<rparr>"
  using assms(1)
proof (induction data arbitrary: m rule: aligned_induct)
  case Empty show ?case by (simp add: chunks_exact_block next_iv_def)
next
  case (Block b ds)
  obtain b' m' where step: "rc_block lib m b = (b', m')" by fastforce
  then have "b' = xor_block (D (ac_key (view m)) b) (ac_iv (view m))" "view m' = (view m)\<lparr>ac_iv := b\<rparr>"
    using assms(2) Block.hyps(1) by (auto simp: block_mode_decrypts_def split: prod.splits)
  with Block.IH [of m'] Block.hyps step show ?case
    by (auto simp: chunks_exact_block cbc_block next_iv_block split: prod.splits)
qed

interpretation rust_dec: cipher_lane "mode_decrypt D" "plaintext_of D" "keyed D" "rust_call lib" view "block_mode_decrypts D lib view"
  for D lib view
proof unfold_locales
  fix m :: 'a and data
  assume "block_mode_decrypts D lib view"
  then show "\<exists>m'. rust_call lib m data = (fst (mode_decrypt D (view m) data), fst (snd (mode_decrypt D (view m) data)), m')
      \<and> view m' = snd (snd (mode_decrypt D (view m) data))"
    using rust_blocks_mode [of data D lib view m]
    by (auto simp: rust_call_def mode_decrypt_def AES_BLOCK_LEN_def split: prod.splits)
qed (rule mode_decrypt_good)

lemma key_and_iv_Inr: "key_and_iv key iv = Inr u \<longleftrightarrow> length key = 32 \<and> length iv = 16"
  by (auto simp: key_and_iv_def AES256_KEY_LEN_def AES_BLOCK_LEN_def)

lemma lanes_agree:
  assumes "block_cipher E D" "one_shot_decrypts D lib" "block_mode_decrypts D rust view" "hook_decrypts D hook"
    and "aws_new (al_decrypting_key lib) key iv = Inr a" "rust_new rust key iv = Inr m" "host_new key iv = Inr h"
  shows "cipher_calls (aws_decrypt lib) a pieces = cipher_calls (rust_call rust) m pieces"
    and "cipher_calls (aws_decrypt lib) a pieces = cipher_calls (host_decrypt hook) h pieces"
proof -
  have len: "length key = 32" "length iv = 16" and a: "a = \<lparr>ac_key = key, ac_iv = iv\<rparr>" and h: "h = a" and m: "view m = a"
    using assms(3,5-7) by (auto simp: aws_new_def rust_new_def host_new_def bindE_Inr_iff key_and_iv_Inr
        block_mode_decrypts_def split: if_splits)
  then have k: "keyed D a" using assms(1) by (simp add: keyed_def block_cipher_def)
  note aws = aws_dec.calls_mode [OF assms(2), of a pieces, simplified, OF k]
  from rust_dec.calls_mode [OF assms(3), of m pieces] k m aws
  show "cipher_calls (aws_decrypt lib) a pieces = cipher_calls (rust_call rust) m pieces" by simp
  from host_dec.calls_mode [OF assms(4), of h pieces] k h aws
  show "cipher_calls (aws_decrypt lib) a pieces = cipher_calls (host_decrypt hook) h pieces" by simp
qed

end
