(* ===== verification/Cipher_Streams.thy ===== *)
theory Cipher_Streams
  imports Crypto_Backend Sources
begin

text \<open>
  The \<^verbatim>\<open>aes256\<close> coder's two streams (\<^verbatim>\<open>Aes256Sha256Decoder\<close> and \<^verbatim>\<open>Aes256Sha256Encoder\<close> of
  \<^verbatim>\<open>src/src/encryption/aes.rs\<close>) over any cipher with the interface of \<open>Crypto_Backend\<close>. The layer
  below a decoder is a \<open>source\<close>; the layer below an encoder is the list of the writes it has got,
  and \<open>feed\<close> says what it answers to one more. The decoder's plaintext buffer is kept as its length
  and the bytes of it that are still to be handed over; what lies outside them is never looked at.
\<close>

definition AES_CHUNK_LEN :: nat where "AES_CHUNK_LEN = 64 * 1024"
definition PUSH_BUFFER_BYTES :: nat where "PUSH_BUFFER_BYTES = 2 ^ 20"

definition crypto_error :: "aes_error \<Rightarrow> io_error" where
  "crypto_error e = IoForeign InvalidData (case e of
      KeyLength \<Rightarrow> 1 | IvLength \<Rightarrow> 2 | BlockAlignment \<Rightarrow> 3 | Backend \<Rightarrow> 4)"

definition illegal_block_size :: io_error where
  "illegal_block_size = IoForeign InvalidData 0"

text \<open>How a call of the cipher went, as the coders report it.\<close>

definition checked :: "outcome \<Rightarrow> 'a \<Rightarrow> io_error + 'a" where
  "checked r x = (case r of
      Fine \<Rightarrow> Inr x
    | Refused e \<Rightarrow> Inl (crypto_error e)
    | Panicked m \<Rightarrow> Inl (IoOwn OtherKind (Panic m)))"

section \<open>The decoder\<close>

record 'c aes_decoder =
  ad_cipher :: 'c
  ad_input :: source
  ad_done :: bool
  ad_compact_push :: bool
  ad_carry :: "byte list"
  ad_plain_len :: nat
  ad_ready :: "byte list"
  ad_pos :: nat
  ad_output_left :: u64

definition aes_decoder_new ::
  "(byte list \<Rightarrow> byte list \<Rightarrow> aes_error + 'c) \<Rightarrow> (byte list \<Rightarrow> byte list) \<Rightarrow> source \<Rightarrow> byte list \<Rightarrow> byte list
     \<Rightarrow> u8 \<Rightarrow> u64 \<Rightarrow> key_cache \<times> u64 \<Rightarrow> 'c aes_decoder result \<times> key_cache \<times> u64" where
  "aes_decoder_new cipher_new sha input ps password max_cycles_power max_kdf_rounds st =
     (case get_aes_key sha ps password max_cycles_power max_kdf_rounds st of (r, st') \<Rightarrow>
       (bindE r (\<lambda>(key, iv). case cipher_new key iv of
           Inl e \<Rightarrow> Inl (Internal (aes_error_fmt e))
         | Inr cipher \<Rightarrow> Inr
             \<lparr>ad_cipher = cipher, ad_input = input, ad_done = False, ad_compact_push = False, ad_carry = [],
              ad_plain_len = 0, ad_ready = [], ad_pos = 0, ad_output_left = - 1\<rparr>), st'))"

definition limit_output :: "u64 \<Rightarrow> 'c aes_decoder \<Rightarrow> 'c aes_decoder" where
  "limit_output len d = d\<lparr>ad_output_left := len\<rparr>"

definition keep_push_buffer_small :: "'c aes_decoder \<Rightarrow> 'c aes_decoder" where
  "keep_push_buffer_small d = d\<lparr>ad_compact_push := True\<rparr>"

definition aes_finish :: "'c aes_decoder \<Rightarrow> (io_error + byte list) \<times> 'c aes_decoder" where
  "aes_finish d = (if ad_carry d = [] then Inr [] else Inl illegal_block_size, d\<lparr>ad_done := True\<rparr>)"

text \<open>
  The loop of \<^verbatim>\<open>decrypt_into\<close>: reads past interruptions until a block is there. Less than a block
  is the end of the input.
\<close>

function fill_block :: "nat \<Rightarrow> byte list \<Rightarrow> source \<Rightarrow> (io_error + byte list) \<times> source" where
  "fill_block capacity filled s =
     (if AES_BLOCK_LEN \<le> length filled then (Inr filled, s)
      else case read_source (capacity - length filled) s of
          (Inl e, s') \<Rightarrow> if interrupted e then fill_block capacity filled s' else (Inl e, s')
        | (Inr bs, s') \<Rightarrow> if bs = [] then (Inr filled, s') else fill_block capacity (filled @ bs) s')"
  by pat_completeness auto
termination
  by (relation "measure (\<lambda>(_, _, s). source_weight s)") (auto dest!: read_source_weight [OF sym])

declare fill_block.simps [simp del]

text \<open>Into a buffer of \<open>n\<close> bytes, at least a block: the plaintext, nothing at the end of the stream.\<close>

definition decrypt_into :: "'c cipher_call \<Rightarrow> nat \<Rightarrow> 'c aes_decoder \<Rightarrow> (io_error + byte list) \<times> 'c aes_decoder" where
  "decrypt_into decrypt n d =
     (let capacity = n - n mod AES_BLOCK_LEN in
      case fill_block capacity (ad_carry d) (ad_input d) of
        (Inl e, s) \<Rightarrow> (Inl e, d\<lparr>ad_input := s, ad_carry := []\<rparr>)
      | (Inr filled, s) \<Rightarrow>
          if length filled < AES_BLOCK_LEN then aes_finish (d\<lparr>ad_input := s, ad_carry := filled\<rparr>)
          else let whole = length filled - length filled mod AES_BLOCK_LEN in
            case decrypt (ad_cipher d) (take whole filled) of (r, out, c) \<Rightarrow>
              (checked r out, d\<lparr>ad_input := s, ad_carry := drop whole filled, ad_cipher := c\<rparr>))"

definition fill_plain :: "'c cipher_call \<Rightarrow> 'c aes_decoder \<Rightarrow> (io_error + nat) \<times> 'c aes_decoder" where
  "fill_plain decrypt d =
     (let n = (if ad_plain_len d = 0 then AES_CHUNK_LEN else ad_plain_len d) in
      case decrypt_into decrypt n (d\<lparr>ad_plain_len := n\<rparr>) of
        (Inl e, d') \<Rightarrow> (Inl e, d')
      | (Inr bs, d') \<Rightarrow> (Inr (length bs), d'\<lparr>ad_ready := bs\<rparr>))"

text \<open>\<open>room\<close> says whether a buffer of so many bytes can be allocated.\<close>

definition reserve_plain :: "(nat \<Rightarrow> bool) \<Rightarrow> nat \<Rightarrow> 'c aes_decoder \<Rightarrow> (io_error + unit) \<times> 'c aes_decoder" where
  "reserve_plain room want d =
     (if ad_plain_len d < want then
        if room want then (Inr (), d\<lparr>ad_plain_len := want, ad_ready := []\<rparr>)
        else (Inl (IoForeign OutOfMemory 0), d\<lparr>ad_plain_len := 0, ad_ready := []\<rparr>)
      else (Inr (), d))"

text \<open>What the sink is given, at most once, instead of its count alone.\<close>

definition aes_push :: "'c cipher_call \<Rightarrow> (nat \<Rightarrow> bool) \<Rightarrow> nat \<Rightarrow> 'c aes_decoder \<Rightarrow> (io_error + byte list) \<times> 'c aes_decoder" where
  "aes_push decrypt room m d =
     (let m = min m (unat (ad_output_left d));
          deliver = (\<lambda>d. let size = min (length (ad_ready d)) m in
            (Inr (take size (ad_ready d)),
             d\<lparr>ad_ready := drop size (ad_ready d), ad_pos := ad_pos d + size,
               ad_output_left := ad_output_left d - of_nat size\<rparr>))
      in if m = 0 then (Inr [], d)
         else if ad_ready d \<noteq> [] then deliver d
         else if ad_done d then (Inr [], d)
         else let limit = (if ad_compact_push d then AES_CHUNK_LEN else PUSH_BUFFER_BYTES);
                  want = min (max m AES_CHUNK_LEN) limit
           in case reserve_plain room want d of
             (Inl e, d1) \<Rightarrow> (Inl e, d1)
           | (Inr _, d1) \<Rightarrow> (case fill_plain decrypt d1 of
               (Inl e, d2) \<Rightarrow> (Inl e, d2)
             | (Inr n, d2) \<Rightarrow> if n = 0 then (Inr [], d2) else deliver d2))"

definition drain_plain :: "nat \<Rightarrow> 'c aes_decoder \<Rightarrow> byte list \<times> 'c aes_decoder" where
  "drain_plain n d =
     (let size = min (length (ad_ready d)) n in
      (take size (ad_ready d), d\<lparr>ad_ready := drop size (ad_ready d), ad_pos := ad_pos d + size\<rparr>))"

definition read_bounded :: "'c cipher_call \<Rightarrow> nat \<Rightarrow> 'c aes_decoder \<Rightarrow> (io_error + byte list) \<times> 'c aes_decoder" where
  "read_bounded decrypt n d =
     (if ad_ready d \<noteq> [] then (case drain_plain n d of (bs, d') \<Rightarrow> (Inr bs, d'))
      else if ad_done d then (Inr [], d)
      else if n < AES_CHUNK_LEN then
        case fill_plain decrypt d of
          (Inl e, d') \<Rightarrow> (Inl e, d')
        | (Inr k, d') \<Rightarrow>
            if k = 0 then (Inr [], d') else (case drain_plain n d' of (bs, d'') \<Rightarrow> (Inr bs, d''))
      else case decrypt_into decrypt n d of
          (Inl e, d') \<Rightarrow> (Inl e, d')
        | (Inr bs, d') \<Rightarrow> (Inr bs, d'\<lparr>ad_pos := ad_pos d' + length bs\<rparr>))"

definition aes_read :: "'c cipher_call \<Rightarrow> nat \<Rightarrow> 'c aes_decoder \<Rightarrow> (io_error + byte list) \<times> 'c aes_decoder" where
  "aes_read decrypt n d =
     (if n = 0 \<or> ad_output_left d = 0 then (Inr [], d)
      else case read_bounded decrypt n d of
          (Inl e, d') \<Rightarrow> (Inl e, d')
        | (Inr bs, d') \<Rightarrow>
            let size = min (length bs) (unat (ad_output_left d'))
            in (Inr (take size bs), d'\<lparr>ad_output_left := ad_output_left d' - of_nat size\<rparr>))"

datatype seek_from = SeekStart u64 | SeekEnd u64 | SeekCurrent u64

text \<open>Numbers are \<^verbatim>\<open>i64\<close>: read signed, a difference out of range panics.\<close>

definition u64_saturating_sub :: "u64 \<Rightarrow> u64 \<Rightarrow> u64" where
  "u64_saturating_sub a b = (if a < b then 0 else a - b)"

definition skip_ready :: "nat \<Rightarrow> 'c aes_decoder \<Rightarrow> 'c aes_decoder" where
  "skip_ready n d = d\<lparr>ad_ready := drop n (ad_ready d),
     ad_output_left := u64_saturating_sub (ad_output_left d) (of_nat n)\<rparr>"

definition aes_seek :: "seek_from \<Rightarrow> 'c aes_decoder \<Rightarrow> (io_error + u64) \<times> 'c aes_decoder" where
  "aes_seek from' d = (let len = int (length (ad_ready d)) in case from' of
      SeekStart p \<Rightarrow>
        let n = sint p - sint (of_nat (ad_pos d) :: u64) in
        if n < - (2 ^ 63) \<or> 2 ^ 63 \<le> n then (Inl (IoOwn OtherKind (Panic ''attempt to subtract with overflow'')), d)
        else if min n len < 0 then (Inr 0, d)
        else (Inr p, skip_ready (nat (min n len)) d)
    | SeekEnd _ \<Rightarrow> (Inl (IoForeign OtherKind 0), d)
    | SeekCurrent n \<Rightarrow>
        if min (sint n) len < 0 then (Inr 0, d)
        else (Inr (of_nat (ad_pos d) + of_int (min (sint n) len)), skip_ready (nat (min (sint n) len)) d))"

section \<open>The encoder\<close>

record 'c aes_encoder =
  ae_written :: "byte list list"
  ae_enc :: 'c
  ae_buffer :: "byte list"
  ae_finished :: bool

definition aes_encoder_new ::
  "(byte list \<Rightarrow> byte list \<Rightarrow> aes_error + 'c) \<Rightarrow> (byte list \<Rightarrow> byte list) \<Rightarrow> byte list list \<Rightarrow> aes_options
     \<Rightarrow> key_cache \<times> u64 \<Rightarrow> 'c aes_encoder result \<times> key_cache \<times> u64" where
  "aes_encoder_new cipher_new sha output options st = (case checked_num_cycles_power options of
      Inl e \<Rightarrow> (Inl e, st)
    | Inr _ \<Rightarrow>
        (case get_aes_key sha (aes_properties_of options) (ao_password options) MAX_AES_CYCLES_POWER (- 1) st of (r, st') \<Rightarrow>
          (bindE r (\<lambda>(key, iv). case cipher_new key iv of
              Inl e \<Rightarrow> Inl (Internal (aes_error_fmt e))
            | Inr cipher \<Rightarrow> Inr \<lparr>ae_written = output, ae_enc = cipher, ae_buffer = [], ae_finished = False\<rparr>), st')))"

definition write_below :: "(byte list list \<Rightarrow> io_error option) \<Rightarrow> byte list \<Rightarrow> 'c aes_encoder \<Rightarrow> (io_error + unit) \<times> 'c aes_encoder" where
  "write_below feed bs e = (case feed (ae_written e @ [bs]) of
      Some err \<Rightarrow> (Inl err, e)
    | None \<Rightarrow> (Inr (), e\<lparr>ae_written := ae_written e @ [bs]\<rparr>))"

definition write_whole_blocks ::
  "'c cipher_call \<Rightarrow> (byte list list \<Rightarrow> io_error option) \<Rightarrow> 'c aes_encoder \<Rightarrow> (io_error + unit) \<times> 'c aes_encoder" where
  "write_whole_blocks encrypt feed e =
     (let whole = length (ae_buffer e) - length (ae_buffer e) mod AES_BLOCK_LEN in
      if whole = 0 then (Inr (), e)
      else case encrypt (ae_enc e) (take whole (ae_buffer e)) of (r, out, c) \<Rightarrow>
        let e1 = e\<lparr>ae_buffer := out @ drop whole (ae_buffer e), ae_enc := c\<rparr> in
        case checked r () of
          Inl err \<Rightarrow> (Inl err, e1)
        | Inr _ \<Rightarrow> (case write_below feed out e1 of
            (Inl err, e2) \<Rightarrow> (Inl err, e2)
          | (Inr _, e2) \<Rightarrow> (Inr (), e2\<lparr>ae_buffer := drop whole (ae_buffer e)\<rparr>)))"

text \<open>The loop of \<^verbatim>\<open>write\<close>, which hands a chunk down whenever the buffer is full.\<close>

function write_loop ::
  "'c cipher_call \<Rightarrow> (byte list list \<Rightarrow> io_error option) \<Rightarrow> byte list \<Rightarrow> 'c aes_encoder \<Rightarrow> (io_error + unit) \<times> 'c aes_encoder" where
  "write_loop encrypt feed buf e =
     (if buf = [] then (Inr (), e)
      else if AES_CHUNK_LEN < length (ae_buffer e)
      then (Inl (IoOwn OtherKind (Panic ''attempt to subtract with overflow'')), e)
      else let n = min (AES_CHUNK_LEN - length (ae_buffer e)) (length buf);
               e1 = e\<lparr>ae_buffer := ae_buffer e @ take n buf\<rparr>
        in if length (ae_buffer e1) = AES_CHUNK_LEN
           then (case write_whole_blocks encrypt feed e1 of
               (Inl err, e2) \<Rightarrow> (Inl err, e2)
             | (Inr _, e2) \<Rightarrow> write_loop encrypt feed (drop n buf) e2)
           else write_loop encrypt feed (drop n buf) e1)"
  by pat_completeness auto

definition aes_flush ::
  "'c cipher_call \<Rightarrow> (byte list list \<Rightarrow> io_error option) \<Rightarrow> 'c aes_encoder \<Rightarrow> (io_error + unit) \<times> 'c aes_encoder" where
  "aes_flush encrypt feed e =
     (let short = length (ae_buffer e) mod AES_BLOCK_LEN in
      write_whole_blocks encrypt feed
        (if ae_finished e \<and> short \<noteq> 0
         then e\<lparr>ae_buffer := ae_buffer e @ replicate (AES_BLOCK_LEN - short) 0\<rparr> else e))"


lemma write_whole_blocks_buffer:
  "write_whole_blocks encrypt feed e = (Inr u, e')
   \<Longrightarrow> ae_buffer e' = drop (length (ae_buffer e) - length (ae_buffer e) mod AES_BLOCK_LEN) (ae_buffer e)"
  by (auto simp: write_whole_blocks_def Let_def split: prod.splits sum.splits if_splits)

lemma chunk_values: "AES_CHUNK_LEN = 65536" "AES_BLOCK_LEN = 16" "PUSH_BUFFER_BYTES = 1048576"
  by (simp_all add: AES_CHUNK_LEN_def AES_BLOCK_LEN_def PUSH_BUFFER_BYTES_def)

termination write_loop
  by (relation "measures [\<lambda>(_, _, buf, _). length buf, \<lambda>(_, _, _, e). length (ae_buffer e)]")
     (auto simp: chunk_values dest!: write_whole_blocks_buffer [OF sym])

declare write_loop.simps [simp del]

lemma write_loop_step:
  assumes "buf \<noteq> []" "length (ae_buffer e) < AES_CHUNK_LEN" "n = min (AES_CHUNK_LEN - length (ae_buffer e)) (length buf)"
  shows "write_loop encrypt feed buf e = (let e1 = e\<lparr>ae_buffer := ae_buffer e @ take n buf\<rparr> in
     if length (ae_buffer e1) = AES_CHUNK_LEN
     then (case write_whole_blocks encrypt feed e1 of
         (Inl err, e2) \<Rightarrow> (Inl err, e2)
       | (Inr _, e2) \<Rightarrow> write_loop encrypt feed (drop n buf) e2)
     else write_loop encrypt feed (drop n buf) e1)"
  using assms(1,2) unfolding assms(3) by (subst write_loop.simps) (simp only: Let_def if_False not_less_iff_gr_or_eq, simp)

text \<open>A write of nothing ends the stream, and is passed on.\<close>

definition aes_write ::
  "'c cipher_call \<Rightarrow> (byte list list \<Rightarrow> io_error option) \<Rightarrow> byte list \<Rightarrow> 'c aes_encoder \<Rightarrow> (io_error + nat) \<times> 'c aes_encoder" where
  "aes_write encrypt feed buf e =
     (if ae_finished e \<and> buf \<noteq> [] then (Inr 0, e)
      else if buf = [] then
        (case aes_flush encrypt feed (e\<lparr>ae_finished := True\<rparr>) of
          (Inl err, e1) \<Rightarrow> (Inl err, e1)
        | (Inr _, e1) \<Rightarrow> (case write_below feed [] e1 of
            (Inl err, e2) \<Rightarrow> (Inl err, e2)
          | (Inr _, e2) \<Rightarrow> (Inr 0, e2)))
      else (case write_loop encrypt feed buf e of
          (Inl err, e1) \<Rightarrow> (Inl err, e1)
        | (Inr _, e1) \<Rightarrow> (Inr (length buf), e1)))"

section \<open>What an encoder has written\<close>

text \<open>A stream made of writes, then ended; and the zeroes its last block is filled up with.\<close>

fun encode_all ::
  "'c cipher_call \<Rightarrow> (byte list list \<Rightarrow> io_error option) \<Rightarrow> byte list list \<Rightarrow> 'c aes_encoder \<Rightarrow> (io_error + nat) \<times> 'c aes_encoder" where
  "encode_all encrypt feed [] e = aes_write encrypt feed [] e"
| "encode_all encrypt feed (buf # bufs) e = (case aes_write encrypt feed buf e of
     (Inl err, e1) \<Rightarrow> (Inl err, e1)
   | (Inr _, e1) \<Rightarrow> encode_all encrypt feed bufs e1)"

definition padded :: "byte list \<Rightarrow> byte list" where
  "padded data = data @ replicate ((16 - length data mod 16) mod 16) 0"

lemma padded_aligned: "length (padded data) mod 16 = 0"
proof -
  have "(n + (16 - n mod 16) mod 16) mod 16 = 0" for n :: nat
  proof -
    define m d where "m = n mod 16" and "d = n div 16"
    have "m < 16" "n = 16 * d + m" by (simp_all add: m_def d_def)
    then have "n + (16 - m) = 16 * (d + 1)" by simp
    then have "n + (16 - n mod 16) = 16 * (n div 16 + 1)" by (simp only: m_def d_def)
    then show ?thesis by (metis mod_add_right_eq mod_mult_self1_is_0)
  qed
  then show ?thesis by (simp add: padded_def)
qed

context chained_cipher begin

text \<open>
  After \<open>data\<close> has been written: the front of it, in whole blocks, is below in the cipher's image, and
  the rest is in the buffer.
\<close>

definition coded :: "'c \<Rightarrow> byte list \<Rightarrow> 'c aes_encoder \<Rightarrow> bool" where
  "coded c0 data e \<longleftrightarrow> good (ae_enc e) \<and> (\<exists>front. data = front @ ae_buffer e \<and> length front mod 16 = 0
     \<and> (\<forall>ds. run c0 (front @ ds) = concat (ae_written e) @ run (ae_enc e) ds))"

lemma codedI:
  assumes "good (ae_enc e)" "data = front @ ae_buffer e" "length front mod 16 = 0"
    and "\<And>ds. run c0 (front @ ds) = concat (ae_written e) @ run (ae_enc e) ds"
  shows "coded c0 data e"
  unfolding coded_def by (intro conjI exI [of _ front] allI) (fact assms)+

lemma codedE:
  assumes "coded c0 data e"
  obtains front where "good (ae_enc e)" "data = front @ ae_buffer e" "length front mod 16 = 0"
    "\<forall>ds. run c0 (front @ ds) = concat (ae_written e) @ run (ae_enc e) ds"
proof -
  from assms have "good (ae_enc e)" unfolding coded_def by (rule conjunct1)
  moreover from assms obtain front where "data = front @ ae_buffer e \<and> length front mod 16 = 0
     \<and> (\<forall>ds. run c0 (front @ ds) = concat (ae_written e) @ run (ae_enc e) ds)"
    unfolding coded_def by (elim conjE exE) (rule that, intro conjI, assumption+)
  ultimately show thesis using that by simp
qed

lemma coded_buffer:
  assumes "coded c0 data e"
  shows "coded c0 (data @ bs) (e\<lparr>ae_buffer := ae_buffer e @ bs\<rparr>)" "coded c0 data (e\<lparr>ae_finished := f\<rparr>)"
proof -
  obtain front where "good (ae_enc e)" "data = front @ ae_buffer e" "length front mod 16 = 0"
    "\<forall>ds. run c0 (front @ ds) = concat (ae_written e) @ run (ae_enc e) ds" using assms by (rule codedE)
  then show "coded c0 (data @ bs) (e\<lparr>ae_buffer := ae_buffer e @ bs\<rparr>)" "coded c0 data (e\<lparr>ae_finished := f\<rparr>)"
    by (auto intro: codedI [of _ _ front])
qed

lemma write_whole_blocks_coded:
  assumes "coded c0 data e" "write_whole_blocks call feed e = (r, e')"
  shows "case r of Inl err \<Rightarrow> \<exists>ws. feed ws = Some err | Inr _ \<Rightarrow> coded c0 data e' \<and> ae_finished e' = ae_finished e"
proof -
  define whole where "whole = length (ae_buffer e) - length (ae_buffer e) mod 16"
  have al: "length (take whole (ae_buffer e)) mod 16 = 0" by (simp add: whole_def minus_mod_eq_mult_div)
  from assms(1) obtain front where g: "good (ae_enc e)" and front: "data = front @ ae_buffer e" "length front mod 16 = 0"
      "\<forall>ds. run c0 (front @ ds) = concat (ae_written e) @ run (ae_enc e) ds" by (rule codedE)
  from call_fine [OF g al] obtain c' where c': "call (ae_enc e) (take whole (ae_buffer e)) =
        (Fine, run (ae_enc e) (take whole (ae_buffer e)), c')" "good c'"
      "\<forall>ds. run (ae_enc e) (take whole (ae_buffer e) @ ds) = run (ae_enc e) (take whole (ae_buffer e)) @ run c' ds" by blast
  define front' where "front' = front @ take whole (ae_buffer e)"
  have al': "length front' mod 16 = 0" and data: "data = front' @ drop whole (ae_buffer e)"
    using al front(1,2) by (auto simp: front'_def simp flip: mod_add_eq [of "length front"])
  have run: "run c0 (front' @ ds) = concat (ae_written e) @ run (ae_enc e) (take whole (ae_buffer e)) @ run c' ds" for ds
    using c'(3) front(3) by (simp add: front'_def)
  define e2 where "e2 = e\<lparr>ae_enc := c', ae_buffer := drop whole (ae_buffer e),
    ae_written := ae_written e @ [run (ae_enc e) (take whole (ae_buffer e))]\<rparr>"
  have coded2: "coded c0 data e2"
    by (rule codedI [OF _ _ al']) (simp_all add: e2_def c'(2) data run)
  show ?thesis
  proof (cases "whole = 0")
    case True
    with assms show ?thesis
      unfolding write_whole_blocks_def chunk_values Let_def whole_def [symmetric] by auto
  next
    case False
    show ?thesis
    proof (cases "feed (ae_written e @ [run (ae_enc e) (take whole (ae_buffer e))])")
      case None
      with assms(2) False c'(1) have "r = Inr ()" "e' = e2"
        unfolding write_whole_blocks_def chunk_values Let_def whole_def [symmetric]
        by (auto simp: checked_def write_below_def e2_def)
      with coded2 show ?thesis by (simp add: e2_def)
    next
      case (Some err)
      with assms(2) False c'(1) have "r = Inl err"
        unfolding write_whole_blocks_def chunk_values Let_def whole_def [symmetric]
        by (simp add: checked_def write_below_def)
      with Some show ?thesis by auto
    qed
  qed
qed

lemma write_loop_coded:
  "coded c0 data e \<Longrightarrow> length (ae_buffer e) < AES_CHUNK_LEN \<Longrightarrow> write_loop call feed buf e = (r, e')
   \<Longrightarrow> case r of Inl err \<Rightarrow> \<exists>ws. feed ws = Some err
     | Inr _ \<Rightarrow> coded c0 (data @ buf) e' \<and> length (ae_buffer e') < AES_CHUNK_LEN \<and> ae_finished e' = ae_finished e"
proof (induction buf arbitrary: data e rule: length_induct)
  case (1 buf)
  show ?case
  proof (cases "buf = []")
    case True with 1 show ?thesis by (auto simp: write_loop.simps [of call feed "[]"])
  next
    case False
    define n where "n = min (AES_CHUNK_LEN - length (ae_buffer e)) (length buf)"
    define e1 where "e1 = e\<lparr>ae_buffer := ae_buffer e @ take n buf\<rparr>"
    have n: "0 < n" "n \<le> length buf" using False 1(3) by (auto simp: n_def)
    have e1: "coded c0 (data @ take n buf) e1" "ae_finished e1 = ae_finished e"
      using coded_buffer(1) [OF 1(2)] by (simp_all add: e1_def)
    have shorter: "length (drop n buf) < length buf" using n by simp
    have IH: "coded c0 (data @ take n buf) e2 \<Longrightarrow> length (ae_buffer e2) < AES_CHUNK_LEN
        \<Longrightarrow> write_loop call feed (drop n buf) e2 = (r, e')
        \<Longrightarrow> case r of Inl err \<Rightarrow> \<exists>ws. feed ws = Some err
          | Inr _ \<Rightarrow> coded c0 (data @ buf) e' \<and> length (ae_buffer e') < AES_CHUNK_LEN \<and> ae_finished e' = ae_finished e2" for e2
      using 1(1) [rule_format, OF shorter, of "data @ take n buf" e2] by (cases r) simp_all
    show ?thesis
    proof (cases "length (ae_buffer e1) = AES_CHUNK_LEN")
      case full: True
      obtain r2 e2 where two: "write_whole_blocks call feed e1 = (r2, e2)" by fastforce
      have run: "write_loop call feed buf e = (case r2 of Inl err \<Rightarrow> (Inl err, e2) | Inr _ \<Rightarrow> write_loop call feed (drop n buf) e2)"
        unfolding write_loop_step [OF False 1(3) n_def] e1_def [symmetric] Let_def using full two by simp
      have "r2 = Inr () \<Longrightarrow> ae_buffer e2 = []"
        using write_whole_blocks_buffer [of call feed e1 "()" e2] two full by (simp add: chunk_values)
      then show ?thesis
        using write_whole_blocks_coded [OF e1(1) two] IH [of e2] 1(4) run e1(2)
        by (cases r2) (auto simp: chunk_values split: sum.splits)
    next
      case part: False
      have run: "write_loop call feed buf e = write_loop call feed (drop n buf) e1"
        unfolding write_loop_step [OF False 1(3) n_def] e1_def [symmetric] Let_def using part by simp
      have "length (ae_buffer e1) < AES_CHUNK_LEN" using part 1(3) by (auto simp: e1_def n_def)
      with IH [of e1] e1 run 1(4) show ?thesis by (auto split: sum.splits)
    qed
  qed
qed

lemma aes_write_coded:
  assumes "coded c0 data e" "length (ae_buffer e) < AES_CHUNK_LEN" "\<not> ae_finished e" "buf \<noteq> []"
    and "aes_write call feed buf e = (r, e')"
  shows "case r of Inl err \<Rightarrow> \<exists>ws. feed ws = Some err
    | Inr n \<Rightarrow> n = length buf \<and> coded c0 (data @ buf) e' \<and> length (ae_buffer e') < AES_CHUNK_LEN \<and> \<not> ae_finished e'"
proof -
  obtain r1 e1 where w: "write_loop call feed buf e = (r1, e1)" by fastforce
  from write_loop_coded [OF assms(1,2) w] w assms(3-5) show ?thesis
    by (cases r1) (auto simp: aes_write_def)
qed

lemma padded_split:
  assumes "data = front @ rest" "length front mod 16 = 0"
  shows "padded data = front @ padded rest"
proof -
  have "length data mod 16 = length rest mod 16" using assms by (metis add_0 length_append mod_add_left_eq)
  then show ?thesis using assms(1) by (simp add: padded_def)
qed

lemma aes_end_coded:
  assumes "coded c0 data e" "\<not> ae_finished e" "aes_write call feed [] e = (r, e')"
  shows "case r of Inl err \<Rightarrow> \<exists>ws. feed ws = Some err | Inr _ \<Rightarrow> concat (ae_written e') = run c0 (padded data)"
proof -
  define e0 where "e0 = e\<lparr>ae_buffer := padded (ae_buffer e), ae_finished := True\<rparr>"
  have pad: "coded c0 (padded data) e0"
  proof -
    from assms(1) obtain front where front: "good (ae_enc e)" "data = front @ ae_buffer e" "length front mod 16 = 0"
        "\<forall>ds. run c0 (front @ ds) = concat (ae_written e) @ run (ae_enc e) ds" by (rule codedE)
    from padded_split [OF front(2,3)] front show ?thesis
      by (intro codedI [of _ _ front]) (simp_all add: e0_def)
  qed
  have flush: "aes_flush call feed (e\<lparr>ae_finished := True\<rparr>) = write_whole_blocks call feed e0"
  proof -
    have "e0 = (if length (ae_buffer e) mod 16 \<noteq> 0
       then e\<lparr>ae_finished := True, ae_buffer := ae_buffer e @ replicate (16 - length (ae_buffer e) mod 16) 0\<rparr>
       else e\<lparr>ae_finished := True\<rparr>)"
      by (cases e) (auto simp: e0_def padded_def)
    then show ?thesis by (auto simp: aes_flush_def Let_def AES_BLOCK_LEN_def)
  qed
  obtain r1 e1 where one: "write_whole_blocks call feed e0 = (r1, e1)" by fastforce
  have "r1 = Inr () \<Longrightarrow> ae_buffer e1 = []"
    using write_whole_blocks_buffer [of call feed e0 "()" e1] one padded_aligned [of "ae_buffer e"]
    by (simp add: chunk_values e0_def)
  moreover have "run c [] = []" if "good c" for c using run_length [OF that, of "[]"] by simp
  ultimately have "r1 = Inr () \<Longrightarrow> concat (ae_written e1) = run c0 (padded data)"
    using write_whole_blocks_coded [OF pad one] by (auto simp: coded_def dest: spec [of _ "[]"])
  with write_whole_blocks_coded [OF pad one] assms(2,3) flush one show ?thesis
    by (cases r1) (auto simp: aes_write_def write_below_def split: option.splits)
qed

text \<open>A stream ended: all of it is below, or the layer below has refused a write.\<close>

lemma encode_all_coded:
  "coded c0 data e \<Longrightarrow> length (ae_buffer e) < AES_CHUNK_LEN \<Longrightarrow> \<not> ae_finished e \<Longrightarrow> [] \<notin> set bufs
   \<Longrightarrow> encode_all call feed bufs e = (r, e')
   \<Longrightarrow> case r of Inl err \<Rightarrow> \<exists>ws. feed ws = Some err | Inr _ \<Rightarrow> concat (ae_written e') = run c0 (padded (data @ concat bufs))"
proof (induction bufs arbitrary: data e)
  case Nil then show ?case using aes_end_coded [OF Nil(1,3), of feed r e'] by (cases r) simp_all
next
  case (Cons buf bufs)
  obtain r1 e1 where one: "aes_write call feed buf e = (r1, e1)" by fastforce
  have "buf \<noteq> []" using Cons.prems(4) by auto
  from aes_write_coded [OF Cons.prems(1-3) this one] Cons.IH [of "data @ buf" e1] Cons.prems one show ?case
    by (cases r1; cases r) auto
qed

end

section \<open>What a decoder hands over\<close>

text \<open>All a source holds up to its end or an error, read past the interruptions.\<close>

fun flow :: "source \<Rightarrow> byte list \<times> io_error option" where
  "flow [] = ([], None)"
| "flow (Fails e # s) = (if interrupted e then flow s else ([], Some e))"
| "flow (Yields bs # s) = (if bs = [] then ([], None) else (bs @ fst (flow s), snd (flow s)))"

lemma read_source_flow:
  "0 < n \<Longrightarrow> read_source n s = (x, s') \<Longrightarrow> (case x of
      Inl e \<Rightarrow> if interrupted e then flow s' = flow s else flow s = ([], Some e)
    | Inr bs \<Rightarrow> if bs = [] then flow s = ([], None)
        else length bs \<le> n \<and> flow s = (bs @ fst (flow s'), snd (flow s')))"
  by (induction n s rule: read_source.induct) (auto split: if_splits)

lemma fill_block_flow:
  "16 \<le> capacity \<Longrightarrow> length filled \<le> capacity \<Longrightarrow> fill_block capacity filled s = (x, s') \<Longrightarrow> (case x of
      Inl e \<Rightarrow> length (filled @ fst (flow s)) < 16 \<and> snd (flow s) = Some e
    | Inr out \<Rightarrow> length out \<le> capacity \<and>
        (if length out < 16 then out = filled @ fst (flow s) \<and> snd (flow s) = None
         else out @ fst (flow s') = filled @ fst (flow s) \<and> snd (flow s') = snd (flow s)))"
proof (induction capacity filled s arbitrary: x s' rule: fill_block.induct)
  case (1 capacity filled s)
  show ?case
  proof (cases "16 \<le> length filled")
    case True with 1(3-5) show ?thesis by (auto simp: fill_block.simps [of capacity filled s] chunk_values)
  next
    case False
    obtain y s1 where y: "read_source (capacity - length filled) s = (y, s1)" by fastforce
    have pos: "0 < capacity - length filled" using False 1(3) by simp
    note flow1 = read_source_flow [OF pos y]
    show ?thesis
    proof (cases y)
      case (Inl e)
      show ?thesis
      proof (cases "interrupted e")
        case True
        have run: "fill_block capacity filled s1 = (x, s')"
          using 1(5) y Inl True False by (simp add: fill_block.simps [of capacity filled s] chunk_values)
        have short: "\<not> AES_BLOCK_LEN \<le> length filled" using False by (simp add: chunk_values)
        have "flow s1 = flow s" using flow1 Inl True by simp
        with 1(1) [OF short y [symmetric] Inl True 1(3,4) run] show ?thesis by (cases x) (auto split: if_splits)
      next
        case stop: False
        with 1(5) y Inl False flow1 show ?thesis
          by (auto simp: fill_block.simps [of capacity filled s] chunk_values)
      qed
    next
      case (Inr bs)
      show ?thesis
      proof (cases "bs = []")
        case True with Inr 1(3-5) y False flow1 show ?thesis
          by (auto simp: fill_block.simps [of capacity filled s] chunk_values)
      next
        case more: False
        have len: "length (filled @ bs) \<le> capacity" using flow1 Inr more pos by auto
        have run: "fill_block capacity (filled @ bs) s1 = (x, s')"
          using 1(5) y Inr more False by (simp add: fill_block.simps [of capacity filled s] chunk_values)
        have "flow s = (bs @ fst (flow s1), snd (flow s1))" using flow1 Inr more by simp
        with 1(2) [OF _ y [symmetric] Inr more 1(3) len run] False show ?thesis
          by (cases x) (auto simp: chunk_values split: if_splits)
      qed
    qed
  qed
qed

definition whole_blocks :: "byte list \<Rightarrow> byte list" where
  "whole_blocks bs = take (length bs - length bs mod 16) bs"

lemma whole_blocks_aligned: "length (whole_blocks bs) mod 16 = 0"
  by (simp add: whole_blocks_def minus_mod_eq_mult_div)

lemma whole_blocks_short: "length bs < 16 \<Longrightarrow> whole_blocks bs = []"
  by (simp add: whole_blocks_def)

lemma whole_blocks_append: "length a mod 16 = 0 \<Longrightarrow> whole_blocks (a @ bs) = a @ whole_blocks bs"
proof -
  assume a: "length a mod 16 = 0"
  then have "(length a + length bs) mod 16 = length bs mod 16" by (metis add_0 mod_add_left_eq)
  moreover have "length bs mod 16 \<le> length bs" by simp
  ultimately show ?thesis by (simp add: whole_blocks_def del: mod_less_eq_dividend)
qed

text \<open>How a stream of so many bytes ends: a piece of a block left over at its end is an error.\<close>

definition ending :: "nat \<Rightarrow> io_error option \<Rightarrow> io_error option" where
  "ending n e = (if e = None \<and> n mod 16 \<noteq> 0 then Some illegal_block_size else e)"

text \<open>The bytes up to a limit, which the end of the stream lies beyond or at.\<close>

definition limited :: "nat \<Rightarrow> byte list \<times> io_error option \<Rightarrow> byte list \<times> io_error option" where
  "limited n x = (if n \<le> length (fst x) then (take n (fst x), None) else x)"

lemma limited_append:
  "limited n (bs @ cs, e) = (take n bs @ fst (limited (n - min n (length bs)) (cs, e)), snd (limited (n - min n (length bs)) (cs, e)))"
  by (auto simp: limited_def min_def)

text \<open>A reader's requests: a read into a buffer, or a push of at most so much.\<close>

datatype request = ReadInto nat | PushUpTo nat

fun request_size :: "request \<Rightarrow> nat" where
  "request_size (ReadInto n) = n"
| "request_size (PushUpTo n) = n"

definition serve :: "'c cipher_call \<Rightarrow> (nat \<Rightarrow> bool) \<Rightarrow> request \<Rightarrow> 'c aes_decoder \<Rightarrow> (io_error + byte list) \<times> 'c aes_decoder" where
  "serve decrypt room q d = (case q of ReadInto n \<Rightarrow> aes_read decrypt n d | PushUpTo n \<Rightarrow> aes_push decrypt room n d)"

text \<open>
  Requests served until one gets nothing or an error: the bytes, and the outcome, \<open>None\<close> when the
  requests ran out first.
\<close>

fun serve_all :: "'c cipher_call \<Rightarrow> (nat \<Rightarrow> bool) \<Rightarrow> request list \<Rightarrow> 'c aes_decoder \<Rightarrow> byte list \<times> io_error option option" where
  "serve_all decrypt room [] d = ([], None)"
| "serve_all decrypt room (q # qs) d = (case serve decrypt room q d of
      (Inl e, d') \<Rightarrow> ([], Some (Some e))
    | (Inr bs, d') \<Rightarrow> if bs = [] then ([], Some None)
        else (bs @ fst (serve_all decrypt room qs d'), snd (serve_all decrypt room qs d')))"

context chained_cipher begin

definition fit :: "'c aes_decoder \<Rightarrow> bool" where
  "fit d \<longleftrightarrow> good (ad_cipher d) \<and> length (ad_carry d) < 16 \<and> (ad_plain_len d = 0 \<or> AES_CHUNK_LEN \<le> ad_plain_len d)"

text \<open>What the input still gives, what the decoder has yet to hand over, and that up to its limit.\<close>

definition still :: "'c aes_decoder \<Rightarrow> byte list \<times> io_error option" where
  "still d = (let (bs, e) = flow (ad_input d) in
     (run (ad_cipher d) (whole_blocks (ad_carry d @ bs)), ending (length (ad_carry d @ bs)) e))"

definition coming :: "'c aes_decoder \<Rightarrow> byte list \<times> io_error option" where
  "coming d = (if ad_done d then (ad_ready d, None) else (ad_ready d @ fst (still d), snd (still d)))"

definition todo :: "'c aes_decoder \<Rightarrow> byte list \<times> io_error option" where
  "todo d = limited (unat (ad_output_left d)) (coming d)"

lemma still_update [simp]:
  "still (d\<lparr>ad_ready := x\<rparr>) = still d" "still (d\<lparr>ad_pos := n\<rparr>) = still d"
  "still (d\<lparr>ad_output_left := w\<rparr>) = still d" "still (d\<lparr>ad_plain_len := n\<rparr>) = still d"
  by (simp_all add: still_def)

lemma decrypt_into_still:
  assumes "fit d" "16 \<le> n" "\<not> ad_done d" "decrypt_into call n d = (x, d')"
  shows "case x of Inl e \<Rightarrow> still d = ([], Some e)
    | Inr bs \<Rightarrow> ad_ready d' = ad_ready d \<and> ad_output_left d' = ad_output_left d \<and> fit d'
        \<and> ad_plain_len d' = ad_plain_len d \<and> length bs \<le> n
        \<and> (if bs = [] then still d = ([], None)
           else \<not> ad_done d' \<and> still d = (bs @ fst (still d'), snd (still d')))"
proof -
  define capacity where "capacity = n - n mod 16"
  have cap: "16 \<le> capacity" "capacity \<le> n" "length (ad_carry d) \<le> capacity"
  proof -
    have "n mod 16 < 16" by simp
    then have "n = 16 * (n div 16) + n mod 16" "0 < n div 16" using assms(2) by simp_all
    then show "16 \<le> capacity" unfolding capacity_def by linarith
    then show "length (ad_carry d) \<le> capacity" using assms(1) by (simp add: fit_def)
  qed (simp add: capacity_def)
  obtain y s where y: "fill_block capacity (ad_carry d) (ad_input d) = (y, s)" by fastforce
  note flow1 = fill_block_flow [OF cap(1,3) y]
  obtain bs0 e0 where fl: "flow (ad_input d) = (bs0, e0)" by fastforce
  show ?thesis
  proof (cases y)
    case (Inl e)
    with assms(4) y have "x = Inl e" by (simp add: decrypt_into_def chunk_values capacity_def [symmetric] Let_def)
    moreover have "run (ad_cipher d) [] = []" using run_Nil assms(1) by (simp add: fit_def)
    ultimately show ?thesis using flow1 Inl fl by (simp add: still_def ending_def whole_blocks_short)
  next
    case (Inr filled)
    show ?thesis
    proof (cases "length filled < 16")
      case True
      with assms(4) y Inr have x: "(x, d') = aes_finish (d\<lparr>ad_input := s, ad_carry := filled\<rparr>)"
        by (simp add: decrypt_into_def chunk_values capacity_def [symmetric] Let_def)
      moreover have "run (ad_cipher d) [] = []" using run_Nil assms(1) by (simp add: fit_def)
      ultimately show ?thesis using flow1 Inr True fl assms(1)
        by (auto simp: still_def ending_def whole_blocks_short aes_finish_def fit_def split: if_splits)
    next
      case False
      define front where "front = whole_blocks filled"
      define tail where "tail = drop (length filled - length filled mod 16) filled"
      have filled: "filled = front @ tail" "length front mod 16 = 0" "length tail < 16"
        by (simp_all add: front_def tail_def whole_blocks_def minus_mod_eq_mult_div)
      have g: "good (ad_cipher d)" using assms(1) by (simp add: fit_def)
      from call_fine [OF g filled(2)] obtain c where c: "call (ad_cipher d) front = (Fine, run (ad_cipher d) front, c)" "good c"
          "\<forall>ds. run (ad_cipher d) (front @ ds) = run (ad_cipher d) front @ run c ds" by blast
      have x: "x = Inr (run (ad_cipher d) front)" and d': "d' = d\<lparr>ad_input := s, ad_carry := tail, ad_cipher := c\<rparr>"
        using assms(4) y Inr False c(1)
        by (auto simp: decrypt_into_def chunk_values capacity_def [symmetric] Let_def whole_blocks_def [symmetric]
            front_def [symmetric] tail_def [symmetric] checked_def)
      have rl: "length (run (ad_cipher d) front) = length front" using run_length [OF g filled(2)] .
      have fl2: "filled @ fst (flow s) = ad_carry d @ bs0" "snd (flow s) = e0" "length filled \<le> capacity"
        using flow1 Inr False fl by simp_all
      have "front \<noteq> []" using filled False by auto
      moreover have "still d = (run (ad_cipher d) front @ fst (still d'), snd (still d'))"
      proof -
        have all: "ad_carry d @ bs0 = front @ tail @ fst (flow s)" using fl2(1) filled(1) by simp
        have "(length front + m) mod 16 = m mod 16" for m using filled(2) by (metis add_0 mod_add_left_eq)
        then have "ending (length (ad_carry d @ bs0)) e0 = ending (length (tail @ fst (flow s))) (snd (flow s))"
          unfolding all by (simp add: ending_def fl2(2))
        moreover have "still d = (run (ad_cipher d) (whole_blocks (front @ tail @ fst (flow s))), ending (length (ad_carry d @ bs0)) e0)"
          by (simp only: still_def fl Let_def prod.case all)
        ultimately show ?thesis using c(3) filled(2)
          by (simp add: d' whole_blocks_append still_def case_prod_beta)
      qed
      ultimately show ?thesis using x d' c(2) filled rl assms(1,3) fl2(3) cap(2)
        by (auto simp: fit_def)
    qed
  qed
qed

lemma fill_plain_still:
  assumes "fit d" "\<not> ad_done d" "ad_ready d = []" "fill_plain call d = (x, d')"
  shows "case x of Inl e \<Rightarrow> still d = ([], Some e)
    | Inr n \<Rightarrow> n = length (ad_ready d') \<and> ad_output_left d' = ad_output_left d
        \<and> (if n = 0 then still d = ([], None) else fit d' \<and> \<not> ad_done d' \<and> coming d' = still d)"
proof -
  define n where "n = (if ad_plain_len d = 0 then AES_CHUNK_LEN else ad_plain_len d)"
  let ?d = "d\<lparr>ad_plain_len := n\<rparr>"
  have fit: "fit ?d" "16 \<le> n" "\<not> ad_done ?d" using assms(1,2) by (auto simp: fit_def n_def chunk_values)
  obtain y d1 where y: "decrypt_into call n ?d = (y, d1)" by fastforce
  note one = decrypt_into_still [OF fit y]
  show ?thesis
  proof (cases y)
    case (Inl e) with one assms(4) y show ?thesis by (auto simp: fill_plain_def n_def [symmetric])
  next
    case (Inr bs)
    have "fit (d1\<lparr>ad_ready := bs\<rparr>) = fit d1" by (simp add: fit_def)
    with one assms(4) y Inr show ?thesis
      by (cases "bs = []") (auto simp: fill_plain_def n_def [symmetric] coming_def)
  qed
qed

text \<open>An answer to a request, against what was still to be handed over.\<close>

definition answers :: "io_error + byte list \<Rightarrow> 'c aes_decoder \<Rightarrow> 'c aes_decoder \<Rightarrow> bool" where
  "answers x d d' \<longleftrightarrow> (case x of
      Inl e \<Rightarrow> todo d = ([], Some e)
    | Inr bs \<Rightarrow> if bs = [] then todo d = ([], None)
        else fit d' \<and> todo d = (bs @ fst (todo d'), snd (todo d')))"

lemma unat_left:
  fixes w :: u64
  shows "n \<le> unat w \<Longrightarrow> unat (w - of_nat n) = unat w - n"
proof -
  assume n: "n \<le> unat w"
  then have "unat (of_nat n :: u64) = n" using unsigned_less [of w, where 'a = nat] by (simp add: unsigned_of_nat take_bit_nat_eq_self)
  with n show ?thesis by (simp add: unat_sub word_le_nat_alt)
qed

lemma answers_delivered:
  assumes "fit d'" "ad_output_left d' = ad_output_left d - of_nat (min (unat (ad_output_left d)) (length bs))"
    and "coming d = (bs @ fst (coming d'), snd (coming d'))"
    and "bs \<noteq> []" "ad_output_left d \<noteq> 0"
  shows "answers (Inr (take (unat (ad_output_left d)) bs)) d d'"
proof -
  have "0 < unat (ad_output_left d)" using assms(5) by (simp add: unat_gt_0)
  moreover have "unat (ad_output_left d') = unat (ad_output_left d) - min (unat (ad_output_left d)) (length bs)"
    unfolding assms(2) by (rule unat_left) simp
  ultimately show ?thesis
    using limited_append [of "unat (ad_output_left d)" bs "fst (coming d')" "snd (coming d')"] assms(1,3,4)
    by (simp add: answers_def todo_def)
qed

lemma answers_stopped:
  "ad_output_left d \<noteq> 0 \<Longrightarrow> coming d = ([], Some e) \<Longrightarrow> answers (Inl e) d d'"
  "ad_output_left d \<noteq> 0 \<Longrightarrow> coming d = ([], None) \<Longrightarrow> answers (Inr []) d d'"
  "ad_output_left d = 0 \<Longrightarrow> answers (Inr []) d d'"
  by (auto simp: answers_def todo_def limited_def unat_eq_0)

text \<open>\<open>read_bounded\<close> knows no limit: what it gives is the front of what comes.\<close>

lemma read_bounded_coming:
  assumes "fit d" "0 < n" "read_bounded call n d = (x, d')"
  shows "case x of Inl e \<Rightarrow> coming d = ([], Some e)
    | Inr bs \<Rightarrow> ad_output_left d' = ad_output_left d \<and>
        (if bs = [] then coming d = ([], None) else fit d' \<and> coming d = (bs @ fst (coming d'), snd (coming d')))"
proof -
  have drained: "coming e = (take n (ad_ready e) @ fst (coming e'), snd (coming e')) \<and> fit e' = fit e
      \<and> ad_output_left e' = ad_output_left e"
    if "drain_plain n e = (bs, e')" for e e' bs
    using that by (auto simp: drain_plain_def Let_def coming_def fit_def min_def simp flip: append_assoc)
  consider (ready) "ad_ready d \<noteq> []" | (gone) "ad_ready d = []" "ad_done d"
    | (small) "ad_ready d = []" "\<not> ad_done d" "n < AES_CHUNK_LEN" | (bulk) "ad_ready d = []" "\<not> ad_done d" "AES_CHUNK_LEN \<le> n"
    by linarith
  then show ?thesis
  proof cases
    case ready
    obtain bs e where "drain_plain n d = (bs, e)" by fastforce
    with drained [OF this] ready assms show ?thesis
      by (auto simp: read_bounded_def drain_plain_def Let_def min_def split: if_splits)
  next
    case gone with assms(3) show ?thesis by (auto simp: read_bounded_def coming_def)
  next
    case small
    obtain y d1 where y: "fill_plain call d = (y, d1)" by fastforce
    note one = fill_plain_still [OF assms(1) small(2,1) y]
    have now: "coming d = still d" using small by (simp add: coming_def)
    show ?thesis
    proof (cases "y = Inr 0 \<or> (\<exists>e. y = Inl e)")
      case True with one small assms(3) y now show ?thesis by (auto simp: read_bounded_def)
    next
      case False
      then obtain k where k: "y = Inr k" "k \<noteq> 0" by (cases y) auto
      obtain bs e where dr: "drain_plain n d1 = (bs, e)" by fastforce
      with k small assms(3) y have "x = Inr bs" "d' = e" by (simp_all add: read_bounded_def)
      moreover have "bs = take n (ad_ready d1)" using dr by (auto simp: drain_plain_def Let_def min_def)
      moreover have "ad_ready d1 \<noteq> []" using one k by auto
      ultimately show ?thesis using drained [OF dr] one k assms(2) now by (simp split: if_splits)
    qed
  next
    case bulk
    obtain y d1 where y: "decrypt_into call n d = (y, d1)" by fastforce
    have n: "16 \<le> n" using bulk by (simp add: chunk_values)
    note one = decrypt_into_still [OF assms(1) n bulk(2) y]
    have now: "coming d = still d" using bulk by (simp add: coming_def)
    show ?thesis
    proof (cases y)
      case (Inl e) with one bulk assms(3) y now show ?thesis by (auto simp: read_bounded_def)
    next
      case (Inr bs)
      with bulk assms(3) y have "x = Inr bs" "d' = d1\<lparr>ad_pos := ad_pos d1 + length bs\<rparr>"
        by (simp_all add: read_bounded_def)
      with one Inr now bulk(1) show ?thesis
        by (cases "bs = []") (auto simp: coming_def fit_def)
    qed
  qed
qed

lemma aes_read_answers:
  assumes "fit d" "0 < n" "aes_read call n d = (x, d')"
  shows "answers x d d'"
proof (cases "ad_output_left d = 0")
  case True with assms answers_stopped(3) show ?thesis by (auto simp: aes_read_def)
next
  case False
  obtain y d1 where y: "read_bounded call n d = (y, d1)" by fastforce
  note one = read_bounded_coming [OF assms(1,2) y]
  show ?thesis
  proof (cases y)
    case (Inl e) with one assms(2,3) y False answers_stopped(1) show ?thesis by (auto simp: aes_read_def)
  next
    case (Inr bs)
    with assms(2,3) y False one have x: "x = Inr (take (unat (ad_output_left d)) bs)"
        and d': "d' = d1\<lparr>ad_output_left := ad_output_left d - of_nat (min (unat (ad_output_left d)) (length bs))\<rparr>"
      by (auto simp: aes_read_def Let_def min_def)
    show ?thesis
    proof (cases "bs = []")
      case True with one Inr x False answers_stopped(2) show ?thesis by simp
    next
      case more: False
      have "coming d' = coming d1" "fit d' = fit d1" unfolding d' by (simp_all add: coming_def fit_def)
      with answers_delivered [of d' d bs] one Inr more False x show ?thesis by (simp add: d')
    qed
  qed
qed

text \<open>A push delivers from the plaintext that is ready, which it fills first when there is none.\<close>

lemma aes_push_answers:
  assumes "fit d" "0 < m" "\<And>n. n \<le> PUSH_BUFFER_BYTES \<Longrightarrow> room n" "aes_push call room m d = (x, d')"
  shows "answers x d d'"
proof -
  define left where "left = unat (ad_output_left d)"
  define k where "k = min m left"
  define deliver where "deliver = (\<lambda>d :: 'c aes_decoder. let size = min (length (ad_ready d)) k in
            (Inr (take size (ad_ready d)) :: io_error + byte list,
             d\<lparr>ad_ready := drop size (ad_ready d), ad_pos := ad_pos d + size,
               ad_output_left := ad_output_left d - of_nat size\<rparr>))"
  have delivered: "answers x d d'" if e: "fit e" "ad_output_left e = ad_output_left d" "coming d = coming e" "ad_ready e \<noteq> []"
      and "deliver e = (x, d')" "k \<noteq> 0" for e
  proof -
    define bs where "bs = take k (ad_ready e)"
    have x: "x = Inr bs" and d': "d' = e\<lparr>ad_ready := drop k (ad_ready e), ad_pos := ad_pos e + length bs,
        ad_output_left := ad_output_left d - of_nat (length bs)\<rparr>"
      using that(5) e(2) by (auto simp: deliver_def Let_def bs_def min_def)
    have "coming d' = (drop k (ad_ready e) @ fst (coming d'') , snd (coming d''))" if "d'' = e\<lparr>ad_ready := []\<rparr>" for d''
      using that by (simp add: d' coming_def)
    then have split: "coming d = (bs @ fst (coming d'), snd (coming d'))"
      unfolding e(3) by (simp add: d' coming_def bs_def flip: append_assoc)
    have short: "length bs \<le> left" by (simp add: bs_def k_def min.coboundedI2 min.coboundedI1)
    then have "take left bs = bs" "min left (length bs) = length bs" by simp_all
    moreover have "bs \<noteq> []" "fit d'" using e(1,4) that(6) by (simp_all add: bs_def d' fit_def)
    moreover have "ad_output_left d \<noteq> 0" using that(6) by (auto simp: k_def left_def)
    ultimately show ?thesis using answers_delivered [of d' d bs] split x by (simp add: d' left_def [symmetric])
  qed
  have run: "aes_push call room m d =
     (if k = 0 then (Inr [], d)
      else if ad_ready d \<noteq> [] then deliver d
      else if ad_done d then (Inr [], d)
      else case reserve_plain room (min (max k AES_CHUNK_LEN) (if ad_compact_push d then AES_CHUNK_LEN else PUSH_BUFFER_BYTES)) d of
             (Inl e, d1) \<Rightarrow> (Inl e, d1)
           | (Inr _, d1) \<Rightarrow> (case fill_plain call d1 of
               (Inl e, d2) \<Rightarrow> (Inl e, d2)
             | (Inr n, d2) \<Rightarrow> if n = 0 then (Inr [], d2) else deliver d2))"
    by (simp only: aes_push_def Let_def k_def left_def deliver_def)
  consider (none) "k = 0" | (ready) "k \<noteq> 0" "ad_ready d \<noteq> []" | (gone) "k \<noteq> 0" "ad_ready d = []" "ad_done d"
    | (fill) "k \<noteq> 0" "ad_ready d = []" "\<not> ad_done d" by blast
  then show ?thesis
  proof cases
    case none
    with assms(2) have "ad_output_left d = 0" by (simp add: k_def left_def unat_eq_0 min_def split: if_splits)
    with none run assms(4) answers_stopped(3) show ?thesis by auto
  next
    case ready with run assms(1,4) delivered [of d] show ?thesis by simp
  next
    case gone
    then have "ad_output_left d \<noteq> 0" by (auto simp: k_def left_def)
    with gone run assms(4) answers_stopped(2) [of d] show ?thesis by (auto simp: coming_def)
  next
    case fill
    define want where "want = min (max k AES_CHUNK_LEN) (if ad_compact_push d then AES_CHUNK_LEN else PUSH_BUFFER_BYTES)"
    have want: "AES_CHUNK_LEN \<le> want" "want \<le> PUSH_BUFFER_BYTES" by (auto simp: want_def chunk_values)
    define d1 where "d1 = (if ad_plain_len d < want then d\<lparr>ad_plain_len := want, ad_ready := []\<rparr> else d)"
    have res: "reserve_plain room want d = (Inr (), d1)" using assms(3) want by (simp add: reserve_plain_def d1_def)
    have d1: "fit d1" "\<not> ad_done d1" "ad_ready d1 = []" "still d1 = still d" "ad_output_left d1 = ad_output_left d"
      using assms(1) fill want(1) by (auto simp: d1_def fit_def)
    obtain y d2 where y: "fill_plain call d1 = (y, d2)" by fastforce
    note one = fill_plain_still [OF d1(1-3) y]
    have now: "coming d = still d" using fill by (simp add: coming_def)
    have left: "ad_output_left d \<noteq> 0" using fill(1) by (auto simp: k_def left_def)
    have x: "(x, d') = (case y of Inl e \<Rightarrow> (Inl e, d2) | Inr n \<Rightarrow> if n = 0 then (Inr [], d2) else deliver d2)"
      using assms(4) run fill res y by (simp add: want_def [symmetric] split: sum.split)
    show ?thesis
    proof (cases y)
      case (Inl e) with x one d1 now left answers_stopped(1) show ?thesis by auto
    next
      case (Inr n)
      show ?thesis
      proof (cases "n = 0")
        case True with Inr x one d1 now left answers_stopped(2) show ?thesis by auto
      next
        case False with Inr x one d1 now fill(1) delivered [of d2] show ?thesis by auto
      qed
    qed
  qed
qed

lemma serve_answers:
  assumes "fit d" "0 < request_size q" "\<And>n. n \<le> PUSH_BUFFER_BYTES \<Longrightarrow> room n" "serve call room q d = (x, d')"
  shows "answers x d d'"
  using assms aes_read_answers aes_push_answers [OF assms(1) _ assms(3)] by (cases q) (auto simp: serve_def)

text \<open>Requests enough for a byte each and one more get the whole stream and its end.\<close>

lemma serve_all_todo:
  assumes "\<And>n. n \<le> PUSH_BUFFER_BYTES \<Longrightarrow> room n"
  shows "fit d \<Longrightarrow> \<forall>q \<in> set qs. 0 < request_size q \<Longrightarrow> length (fst (todo d)) < length qs
    \<Longrightarrow> serve_all call room qs d = (fst (todo d), Some (snd (todo d)))"
proof (induction qs arbitrary: d)
  case (Cons q qs)
  obtain x d' where x: "serve call room q d = (x, d')" by fastforce
  have ans: "answers x d d'" using serve_answers [OF Cons.prems(1) _ assms x] Cons.prems(2) by simp
  show ?case
  proof (cases x)
    case (Inl e) with ans x show ?thesis by (simp add: answers_def)
  next
    case (Inr bs)
    show ?thesis
    proof (cases "bs = []")
      case True with ans x Inr show ?thesis by (simp add: answers_def)
    next
      case False
      with ans Inr have d': "fit d'" "todo d = (bs @ fst (todo d'), snd (todo d'))" by (simp_all add: answers_def)
      with Cons.prems False have "length (fst (todo d')) < length qs" by (cases bs) simp_all
      with Cons.IH [OF d'(1)] Cons.prems(2) x Inr False d'(2) show ?thesis by simp
    qed
  qed
qed simp

end

end
