(* ===== verification/Cipher_Round_Trip.thy ===== *)
theory Cipher_Round_Trip
  imports Cipher_Streams
begin

text \<open>
  The two \<^verbatim>\<open>aes256\<close> streams together, over the default backend: what a decoder hands over of any
  input, that it takes back what an encoder wrote, and a cipher and streams on which all of it runs.
\<close>

section \<open>Keys\<close>

lemma get_aes_key_pure:
  assumes "password_reach sha password st" "get_aes_key sha ps password mp mr (ps_cache st, n) = (Inr (key, iv), st')"
  shows "\<exists>p. aes_parse ps = Inr p \<and> key = pure_key sha password p \<and> iv = ap_iv p"
proof -
  obtain p where p: "aes_parse ps = Inr p"
    using assms(2) by (cases "aes_parse ps") (auto simp: get_aes_key_def)
  moreover obtain c n' where "st' = (c, n')" by (metis surj_pair)
  ultimately have run: "aes_derive sha p password mp mr (ps_cache st, n) = (Inr key, c, n')" and iv: "iv = ap_iv p"
    using assms(2) by (auto simp: get_aes_key_def bindE_Inr_iff split: prod.splits)
  have wf: "length (ap_salt p) = 16" "unat (ap_salt_len p) \<le> 16" "unat (ap_cycles_power p) < 64"
    using aes_parse_wf [OF p] by auto
  from aes_derive_spec [OF password_reach_ok [OF assms(1)] wf run] p iv show ?thesis by simp
qed

section \<open>A decoder over the default backend\<close>

lemma aes_decoder_made:
  assumes "aes_decoder_new (aws_new accepted) sha input ps password mp mr (c, n) = (Inr d, st')"
  obtains key iv where "get_aes_key sha ps password mp mr (c, n) = (Inr (key, iv), st')"
    "length key = 32" "length iv = 16"
    "d = \<lparr>ad_cipher = \<lparr>ac_key = key, ac_iv = iv\<rparr>, ad_input = input, ad_done = False, ad_compact_push = False,
       ad_carry = [], ad_plain_len = 0, ad_ready = [], ad_pos = 0, ad_output_left = - 1\<rparr>"
proof -
  obtain r st where g: "get_aes_key sha ps password mp mr (c, n) = (r, st)" by (metis surj_pair)
  from assms obtain key iv where k: "r = Inr (key, iv)"
    by (auto simp: aes_decoder_new_def g bindE_Inr_iff)
  show thesis
    by (rule that [of key iv])
       (use assms g k in \<open>auto simp: aes_decoder_new_def aws_new_def bindE_Inr_iff key_and_iv_Inr
          split: sum.splits if_splits\<close>)
qed

text \<open>What an input holds of a stream of \<open>len\<close> bytes under a key and a vector.\<close>

definition stream_of :: "(byte list \<Rightarrow> byte list) \<Rightarrow> byte list \<Rightarrow> u64 \<Rightarrow> source \<Rightarrow> byte list \<times> io_error option" where
  "stream_of D iv len input = (case flow input of (bs, e) \<Rightarrow>
     limited (unat len) (cbc_decrypt D iv (whole_blocks bs), ending (length bs) e))"

lemma aws_serves:
  assumes "block_cipher E D" "one_shot_decrypts D lib"
    and "\<And>n. n \<le> PUSH_BUFFER_BYTES \<Longrightarrow> room n"
    and "aes_decoder_new (aws_new accepted) sha input ps password mp mr (c, n) = (Inr d, st')"
    and "get_aes_key sha ps password mp mr (c, n) = (Inr (key, iv), st')"
    and "\<forall>q \<in> set qs. 0 < request_size q" "length (fst (stream_of (D key) iv len input)) < length qs"
  shows "serve_all (aws_decrypt lib) room qs (limit_output len d)
    = (fst (stream_of (D key) iv len input), Some (snd (stream_of (D key) iv len input)))"
proof -
  from assms(4) have len: "length key = 32" "length iv = 16"
    and d: "d = \<lparr>ad_cipher = \<lparr>ac_key = key, ac_iv = iv\<rparr>, ad_input = input, ad_done = False, ad_compact_push = False,
       ad_carry = [], ad_plain_len = 0, ad_ready = [], ad_pos = 0, ad_output_left = - 1\<rparr>"
    using assms(5) by (auto elim!: aes_decoder_made)
  have fit: "aws_dec.lane.fit D lib (limit_output len d)"
    unfolding aws_dec.lane.fit_def using assms(1,2) len
    by (simp add: d limit_output_def keyed_def block_cipher_def)
  have todo: "aws_dec.lane.todo D (limit_output len d) = stream_of (D key) iv len input"
    unfolding aws_dec.lane.todo_def aws_dec.lane.coming_def aws_dec.lane.still_def
    by (simp add: stream_of_def d limit_output_def case_prod_beta)
  from aws_dec.lane.serve_all_todo [OF assms(3) fit assms(6)] assms(7) show ?thesis unfolding todo by simp
qed

section \<open>The round trip\<close>

lemma aes_encoder_made:
  assumes "aes_encoder_new (aws_new accepted) sha output options (c, n) = (Inr e, st')"
  obtains key iv where "get_aes_key sha (aes_properties_of options) (ao_password options) MAX_AES_CYCLES_POWER (- 1) (c, n) = (Inr (key, iv), st')"
    "length key = 32" "length iv = 16"
    "e = \<lparr>ae_written = output, ae_enc = \<lparr>ac_key = key, ac_iv = iv\<rparr>, ae_buffer = [], ae_finished = False\<rparr>"
proof -
  obtain r st where g: "get_aes_key sha (aes_properties_of options) (ao_password options) MAX_AES_CYCLES_POWER (- 1) (c, n) = (r, st)"
    by (metis surj_pair)
  obtain u where u: "checked_num_cycles_power options = Inr u"
    using assms by (cases "checked_num_cycles_power options") (auto simp: aes_encoder_new_def)
  from assms u obtain key iv where k: "r = Inr (key, iv)"
    by (auto simp: aes_encoder_new_def g bindE_Inr_iff)
  show thesis
    by (rule that [of key iv])
       (use assms g k u in \<open>auto simp: aes_encoder_new_def aws_new_def bindE_Inr_iff key_and_iv_Inr
          split: sum.splits if_splits\<close>)
qed

lemma aws_encodes:
  assumes "block_cipher E D" "one_shot_encrypts E lib"
    and "aes_encoder_new (aws_new accepted) sha [] options (c, n) = (Inr e, st')"
    and "get_aes_key sha (aes_properties_of options) (ao_password options) MAX_AES_CYCLES_POWER (- 1) (c, n) = (Inr (key, iv), st')"
    and "[] \<notin> set bufs" "encode_all (aws_encrypt lib) feed bufs e = (Inr k, e')"
  shows "concat (ae_written e') = cbc_encrypt (E key) iv (padded (concat bufs))"
proof -
  from assms(3) have len: "length key = 32" "length iv = 16"
    and e: "e = \<lparr>ae_written = [], ae_enc = \<lparr>ac_key = key, ac_iv = iv\<rparr>, ae_buffer = [], ae_finished = False\<rparr>"
    using assms(4) by (auto elim!: aes_encoder_made)
  have "aws_enc.lane.coded E lib (ae_enc e) [] e"
    unfolding aws_enc.lane.coded_def using assms(1,2) len by (simp add: e keyed_def block_cipher_def)
  from aws_enc.lane.encode_all_coded [OF this _ _ assms(5,6)] show ?thesis by (simp add: e chunk_values)
qed

lemma padded_front: "take (length bs) (padded bs) = bs" "length bs \<le> length (padded bs)"
  by (simp_all add: padded_def)

lemma aes_round_trip:
  assumes lib: "block_cipher E D" "one_shot_encrypts E lib" "one_shot_decrypts D lib"
    and room: "\<And>n. n \<le> PUSH_BUFFER_BYTES \<Longrightarrow> room n"
    and hist: "password_reach sha (ao_password options) st1" "password_reach sha (ao_password options) st2"
    and enc: "aes_encoder_new (aws_new accepted1) sha [] options (ps_cache st1, n1) = (Inr e, st1')"
    and dec: "aes_decoder_new (aws_new accepted2) sha input (aes_properties_of options) (ao_password options) mp mr
        (ps_cache st2, n2) = (Inr d, st2')"
    and bufs: "[] \<notin> set bufs" "encode_all (aws_encrypt lib) feed bufs e = (Inr k, e')" "length (concat bufs) < 2 ^ 64"
    and input: "flow input = (concat (ae_written e'), None)"
    and qs: "\<forall>q \<in> set qs. 0 < request_size q" "length (concat bufs) < length qs"
  shows "serve_all (aws_decrypt lib) room qs (limit_output (of_nat (length (concat bufs))) d) = (concat bufs, Some None)"
proof -
  obtain key iv where k1: "get_aes_key sha (aes_properties_of options) (ao_password options) MAX_AES_CYCLES_POWER (- 1)
        (ps_cache st1, n1) = (Inr (key, iv), st1')" and len: "length key = 32" "length iv = 16"
    using enc by (rule aes_encoder_made)
  obtain key' iv' where k2: "get_aes_key sha (aes_properties_of options) (ao_password options) mp mr
        (ps_cache st2, n2) = (Inr (key', iv'), st2')"
    using dec by (rule aes_decoder_made)
  have same: "key' = key" "iv' = iv"
    using get_aes_key_pure [OF hist(1) k1] get_aes_key_pure [OF hist(2) k2] by auto
  define plain where "plain = concat bufs"
  have out: "concat (ae_written e') = cbc_encrypt (E key) iv (padded plain)"
    unfolding plain_def by (rule aws_encodes [OF lib(1,2) enc k1 bufs(1,2)])
  have E: "keeps_blocks (E key)" "\<And>b. length b = 16 \<Longrightarrow> D key (E key b) = b"
    using lib(1) len by (auto simp: block_cipher_def)
  have al: "length (cbc_encrypt (E key) iv (padded plain)) mod 16 = 0"
    using length_cbc_encrypt [OF padded_aligned E(1) len(2)] padded_aligned by metis
  then have "whole_blocks (cbc_encrypt (E key) iv (padded plain)) = cbc_encrypt (E key) iv (padded plain)"
    by (simp add: whole_blocks_def)
  moreover have "unat (of_nat (length plain) :: u64) = length plain"
    using bufs(3) by (simp add: plain_def unsigned_of_nat take_bit_nat_eq_self)
  ultimately have "stream_of (D key) iv (of_nat (length plain)) input = (plain, None)"
    using cbc_round_trip [OF padded_aligned E len(2), of plain] al padded_front
    by (simp add: stream_of_def input out ending_def limited_def)
  with aws_serves [OF lib(1,3) room dec k2 [unfolded same] qs(1)] qs(2) show ?thesis
    by (simp add: plain_def)
qed

end
