(* ===== verification/Cipher_Sample.thy ===== *)
theory Cipher_Sample
  imports Cipher_Round_Trip
begin

text \<open>
  A block cipher, the three libraries over it, and a coder's options, with which every hypothesis on
  the cipher holds and the streams run.
\<close>

definition small_block :: "byte list \<Rightarrow> byte list \<Rightarrow> byte list" where
  "small_block key b = xor_block b (take 16 key)"

definition small_lc :: aws_lc where
  "small_lc = \<lparr>al_decrypting_key = (\<lambda>_. True), al_encrypting_key = (\<lambda>_. True),
     al_decrypt = (\<lambda>key iv data. (True, cbc_decrypt (small_block key) iv data)),
     al_encrypt = (\<lambda>key iv data. (True, cbc_encrypt (small_block key) iv data))\<rparr>"

definition small_rust :: "aws_cipher rust_crypto" where
  "small_rust = \<lparr>rc_new = (\<lambda>key iv. \<lparr>ac_key = key, ac_iv = iv\<rparr>),
     rc_block = (\<lambda>m b. (xor_block (small_block (ac_key m) b) (ac_iv m), m\<lparr>ac_iv := b\<rparr>))\<rparr>"

definition small_hook :: aes_hook where
  "small_hook key iv data = Inr (cbc_decrypt (small_block key) iv data)"

lemma small_cipher:
  "block_cipher small_block small_block" "one_shot_decrypts small_block small_lc" "one_shot_encrypts small_block small_lc"
  "block_mode_decrypts small_block small_rust id" "hook_decrypts small_block small_hook"
  by (auto simp: block_cipher_def keeps_blocks_def small_block_def xor_block_twice one_shot_decrypts_def small_lc_def
      one_shot_encrypts_def block_mode_decrypts_def small_rust_def hook_decrypts_def small_hook_def)

text \<open>Options of a raw key, so that no round of the derivation is run, and the key they give.\<close>

definition small_options :: aes_options where
  "small_options = \<lparr>ao_password = [1, 2], ao_iv = replicate 16 5, ao_salt = replicate 16 3, ao_num_cycles_power = 63\<rparr>"

definition small_key :: "byte list" where
  "small_key = replicate 16 3 @ [1, 2] @ replicate 14 0"

definition small_sha :: "byte list \<Rightarrow> byte list" where
  "small_sha bs = replicate 32 (of_nat (length bs))"

lemma small_key_made:
  "get_aes_key small_sha (aes_properties_of small_options) (ao_password small_options) MAX_AES_CYCLES_POWER (- 1) st
     = (Inr (small_key, replicate 16 5), st)"
  by (cases st) (simp add: get_aes_key_def aes_properties_round_trip small_options_def aes_derive_def aes_salt_def
      small_key_def Let_def)

text \<open>The two streams, four bytes in two writes, and an input that gives what they became in two pieces.\<close>

definition small_encoder :: "aws_cipher aes_encoder" where
  "small_encoder = \<lparr>ae_written = [], ae_enc = \<lparr>ac_key = small_key, ac_iv = replicate 16 5\<rparr>, ae_buffer = [], ae_finished = False\<rparr>"

definition small_input :: source where
  "small_input = [Yields [7, 4, 5, 2], Fails (IoBare Interrupted),
     Yields (replicate 12 6)]"

definition small_decoder :: "source \<Rightarrow> aws_cipher aes_decoder" where
  "small_decoder input = \<lparr>ad_cipher = \<lparr>ac_key = small_key, ac_iv = replicate 16 5\<rparr>, ad_input = input, ad_done = False,
     ad_compact_push = False, ad_carry = [], ad_plain_len = 0, ad_ready = [], ad_pos = 0, ad_output_left = - 1\<rparr>"

lemma small_encoder_made:
  "aes_encoder_new (aws_new (al_encrypting_key small_lc)) small_sha [] small_options st = (Inr small_encoder, st)"
proof -
  have "length small_key = 32" by (simp add: small_key_def)
  moreover have "checked_num_cycles_power small_options = Inr 63"
    by (simp add: checked_num_cycles_power_def small_options_def RAW_KEY_POWER_def)
  ultimately show ?thesis
    by (simp add: aes_encoder_new_def small_key_made aws_new_def key_and_iv_def AES256_KEY_LEN_def AES_BLOCK_LEN_def
        small_lc_def small_encoder_def)
qed

lemma small_decoder_made:
  "aes_decoder_new (aws_new (al_decrypting_key small_lc)) small_sha input (aes_properties_of small_options)
     (ao_password small_options) MAX_AES_CYCLES_POWER (- 1) st = (Inr (small_decoder input), st)"
proof -
  have "length small_key = 32" by (simp add: small_key_def)
  then show ?thesis
    by (simp add: aes_decoder_new_def small_key_made aws_new_def key_and_iv_def AES256_KEY_LEN_def AES_BLOCK_LEN_def
        small_lc_def small_decoder_def)
qed

lemma small_encrypted:
  "cbc_encrypt (small_block small_key) (replicate 16 5) ([1, 2, 3, 4] @ replicate 12 0) = [7, 4, 5, 2] @ replicate 12 6"
  by (simp add: cbc_encrypt.simps Let_def small_block_def small_key_def xor_block_def eval_nat_numeral)

lemma small_encoded:
  "\<exists>e. encode_all (aws_encrypt small_lc) (\<lambda>_. None) [[1, 2, 3], [4]] small_encoder = (Inr 0, e)
     \<and> ae_written e = [[7, 4, 5, 2] @ replicate 12 6, []]"
  using small_encrypted
  by (simp add: write_loop.simps chunk_values aes_write_def small_encoder_def aes_flush_def write_whole_blocks_def
      write_below_def Let_def aws_encrypt_def small_lc_def checked_def)

lemma small_decrypted:
  "cbc_decrypt (small_block small_key) (replicate 16 5) ([7, 4, 5, 2] @ replicate 12 6) = [1, 2, 3, 4] @ replicate 12 0"
  by (simp add: cbc_decrypt.simps small_block_def small_key_def xor_block_def eval_nat_numeral)

text \<open>The same with a piece of a block after it.\<close>

definition torn_input :: source where
  "torn_input = small_input @ [Yields [9, 9]]"

lemma torn_stream:
  "stream_of (small_block small_key) (replicate 16 5) 100 torn_input = ([1, 2, 3, 4] @ replicate 12 0, Some illegal_block_size)"
proof -
  have flow: "flow torn_input = (([7, 4, 5, 2] @ replicate 12 6) @ [9, 9], None)"
    by (simp add: torn_input_def small_input_def interrupted_def)
  have "whole_blocks (([7, 4, 5, 2] @ replicate 12 6) @ [9, 9]) = [7, 4, 5, 2] @ replicate 12 (6 :: byte)"
    by (subst whole_blocks_append) (simp_all add: whole_blocks_short)
  then show ?thesis
    unfolding stream_of_def flow using small_decrypted by (simp add: ending_def limited_def)
qed

section \<open>Seeking\<close>

text \<open>
  A skip moves the window of ready plaintext and not the position: the position told afterwards is
  the one from before, and a second skip to the same place drops as many bytes again.
\<close>

lemma seek_position_stale:
  defines "d \<equiv> small_decoder []\<lparr>ad_ready := [10, 11, 12, 13, 14, 15]\<rparr>"
  defines "d1 \<equiv> snd (aes_seek (SeekStart 2) d)"
  shows "fst (aes_seek (SeekStart 2) d) = Inr 2" "ad_ready d1 = [12, 13, 14, 15]"
    and "fst (aes_seek (SeekCurrent 0) d1) = Inr 0"
    and "ad_ready (snd (aes_seek (SeekStart 2) d1)) = [14, 15]"
  by (simp_all add: d_def d1_def small_decoder_def aes_seek_def skip_ready_def)

end
