(* ===== verification/Entry_Readers.thy ===== *)
theory Entry_Readers
  imports Archive_Reader Sources
begin

text \<open>
  The readers between a block's decoder and a callback (\<^verbatim>\<open>DeclaredLength\<close>, \<^verbatim>\<open>Crc32VerifyingReader\<close>,
  \<^verbatim>\<open>FaultRecordingReader\<close>, \<^verbatim>\<open>BoundedReader\<close> and \<^verbatim>\<open>EntryRead::write_rest\<close> of \<^verbatim>\<open>src/src/reader.rs\<close>).
  The decoder is the \<open>source\<close> of what its calls return. A layer's \<^verbatim>\<open>read\<close> and its \<^verbatim>\<open>push\<close> change its
  state alike and differ in what becomes of the bytes of a call that fails, so a layer is one step:
  the bytes, the error and the state after. A running CRC-32 is the bytes it was given. Delivery of
  spans borrowed from a decoder's dictionary is not modelled.
\<close>

section \<open>The layers\<close>

definition ended_early :: io_error where "ended_early = IoBare UnexpectedEof"

definition checksum_failed :: io_error where
  "checksum_failed = IoOwn OtherKind ChecksumVerificationFailed"

type_synonym 's layer_step = "byte list \<times> io_error option \<times> 's"

record crc_check =
  cv_digest :: "byte list"
  cv_expected :: u64
  cv_remaining :: int
  cv_report :: "u32 option"

definition crc_check_new :: "nat \<Rightarrow> u64 \<Rightarrow> crc_check" where
  "crc_check_new remaining expected =
     \<lparr>cv_digest = [], cv_expected = expected, cv_remaining = min (int remaining) (2 ^ 63 - 1), cv_report = None\<rparr>"

text \<open>\<open>check_parts\<close>, and what a checking reader does with the bytes of its inner reader.\<close>

definition check_parts :: "(byte list \<Rightarrow> u32) \<Rightarrow> crc_check \<Rightarrow> io_error option \<times> crc_check" where
  "check_parts crc32 cv =
     (if cv_remaining cv \<le> 0 then
        let d = crc32 (cv_digest cv) in
        if ucast d \<noteq> cv_expected cv then (Some checksum_failed, cv\<lparr>cv_digest := []\<rparr>)
        else (None, cv\<lparr>cv_digest := [], cv_report := Some d\<rparr>)
      else (None, cv))"

definition crc_after :: "(byte list \<Rightarrow> u32) \<Rightarrow> byte list \<Rightarrow> crc_check \<Rightarrow> io_error option \<times> crc_check" where
  "crc_after crc32 bs cv =
     check_parts crc32 (cv\<lparr>cv_digest := cv_digest cv @ bs, cv_remaining := cv_remaining cv - int (length bs)\<rparr>)"

text \<open>A block's chain: its decoder, the bytes it still owes, and the block's own check, when it has one.\<close>

record chain =
  ch_source :: source
  ch_owed :: nat
  ch_crc :: "crc_check option"

definition declared_step :: "nat \<Rightarrow> chain \<Rightarrow> chain layer_step" where
  "declared_step n c =
     (if n = 0 then ([], None, c)
      else case read_source n (ch_source c) of
          (Inl e, s) \<Rightarrow> ([], Some e, c\<lparr>ch_source := s\<rparr>)
        | (Inr bs, s) \<Rightarrow>
            if bs = [] \<and> 0 < ch_owed c then ([], Some ended_early, c\<lparr>ch_source := s\<rparr>)
            else (bs, None, c\<lparr>ch_source := s, ch_owed := ch_owed c - length bs\<rparr>))"

definition chain_step :: "(byte list \<Rightarrow> u32) \<Rightarrow> nat \<Rightarrow> chain \<Rightarrow> chain layer_step" where
  "chain_step crc32 n c = (case ch_crc c of
      None \<Rightarrow> declared_step n c
    | Some cv \<Rightarrow>
        if cv_remaining cv \<le> 0 then ([], None, c)
        else case declared_step n c of
            (bs, Some e, c') \<Rightarrow> (bs, Some e, c')
          | (bs, None, c') \<Rightarrow> (case crc_after crc32 bs cv of (e, cv') \<Rightarrow> (bs, e, c'\<lparr>ch_crc := Some cv'\<rparr>)))"

text \<open>
  The first failure, which \<open>copied\<close> makes a copy of where its payload is foreign. One that was
  only an interruption is given up for the next.
\<close>

definition copy_io :: "(nat \<Rightarrow> nat) \<Rightarrow> io_error \<Rightarrow> io_error" where
  "copy_io copied e = (case e of IoForeign k n \<Rightarrow> IoForeign k (copied n) | _ \<Rightarrow> e)"

definition fault_record :: "(nat \<Rightarrow> nat) \<Rightarrow> io_error option \<Rightarrow> io_error option \<Rightarrow> io_error option" where
  "fault_record copied e fault = (case e of
      None \<Rightarrow> fault
    | Some e \<Rightarrow> (case fault of
        None \<Rightarrow> Some (copy_io copied e)
      | Some first \<Rightarrow> if interrupted first then Some (copy_io copied e) else fault))"

definition fault_take :: "io_error option \<Rightarrow> io_error option" where
  "fault_take fault = (case fault of None \<Rightarrow> None | Some e \<Rightarrow> if interrupted e then None else Some e)"

text \<open>
  A file's reader: the chain below with the faults recorded over it, the bytes of the file that are
  left, and the file's check, when the file has a checksum to compare as it is read.
\<close>

record entry_reader =
  er_chain :: chain
  er_fault :: "io_error option"
  er_remain :: nat
  er_crc :: "crc_check option"

record layers =
  ly_crc32 :: "byte list \<Rightarrow> u32"
  ly_copied :: "nat \<Rightarrow> nat"
  ly_pushes :: bool

definition bounded_step :: "layers \<Rightarrow> nat \<Rightarrow> entry_reader \<Rightarrow> entry_reader layer_step" where
  "bounded_step ly n r =
     (if er_remain r = 0 \<or> n = 0 then ([], None, r)
      else case chain_step (ly_crc32 ly) (min n (er_remain r)) (er_chain r) of (bs, e, c) \<Rightarrow>
        let r1 = r\<lparr>er_chain := c, er_fault := fault_record (ly_copied ly) e (er_fault r)\<rparr> in
        case e of
          Some e \<Rightarrow> (bs, Some e, r1)
        | None \<Rightarrow> if bs = [] then ([], Some ended_early, r1)
            else (bs, None, r1\<lparr>er_remain := er_remain r - length bs\<rparr>))"

definition checked_step :: "layers \<Rightarrow> nat \<Rightarrow> entry_reader \<Rightarrow> entry_reader layer_step" where
  "checked_step ly n r = (case er_crc r of
      None \<Rightarrow> bounded_step ly n r
    | Some cv \<Rightarrow>
        if cv_remaining cv \<le> 0 then ([], None, r)
        else case bounded_step ly n r of
            (bs, Some e, r') \<Rightarrow> (bs, Some e, r')
          | (bs, None, r') \<Rightarrow> (case crc_after (ly_crc32 ly) bs cv of (e, cv') \<Rightarrow> (bs, e, r'\<lparr>er_crc := Some cv'\<rparr>)))"

definition entry_step :: "layers \<Rightarrow> nat \<Rightarrow> entry_reader \<Rightarrow> entry_reader layer_step" where
  "entry_step ly n r = (case checked_step ly n r of (bs, e, r') \<Rightarrow>
     (bs, e, r'\<lparr>er_fault := fault_record (ly_copied ly) e (er_fault r')\<rparr>))"

definition entry_read :: "layers \<Rightarrow> nat \<Rightarrow> entry_reader \<Rightarrow> (io_error + byte list) \<times> entry_reader" where
  "entry_read ly n r = (case entry_step ly n r of
      (bs, Some e, r') \<Rightarrow> (Inl e, r')
    | (bs, None, r') \<Rightarrow> (Inr bs, r'))"

section \<open>Progress\<close>

text \<open>
  A step that hands bytes on or was interrupted has used up some of the decoder's events. The
  errors the layers raise themselves are not interruptions.
\<close>

definition uses :: "nat \<Rightarrow> nat \<Rightarrow> byte list \<Rightarrow> io_error option \<Rightarrow> bool" where
  "uses before after bs e \<longleftrightarrow> after \<le> before \<and> (bs \<noteq> [] \<longrightarrow> after < before)
     \<and> ((\<exists>x. e = Some x \<and> interrupted x) \<longrightarrow> after < before)"

lemma own_errors [simp]: "\<not> interrupted ended_early" "\<not> interrupted checksum_failed"
  by (simp_all add: ended_early_def checksum_failed_def interrupted_def)

lemma crc_after_error: "crc_after crc32 bs cv = (e, cv') \<Longrightarrow> e = None \<or> e = Some checksum_failed"
  by (auto simp: crc_after_def check_parts_def Let_def split: if_splits)

lemma declared_step_uses:
  assumes "declared_step n c = (bs, e, c')"
  shows "uses (source_weight (ch_source c)) (source_weight (ch_source c')) bs e"
proof -
  obtain x s where "read_source n (ch_source c) = (x, s)" by fastforce
  with read_source_weight [OF this] assms show ?thesis
    by (cases x) (auto simp: declared_step_def uses_def split: if_splits)
qed

lemma chain_step_uses:
  assumes "chain_step crc32 n c = (bs, e, c')"
  shows "uses (source_weight (ch_source c)) (source_weight (ch_source c')) bs e"
proof -
  obtain bs1 e1 c1 where d: "declared_step n c = (bs1, e1, c1)" by (metis surj_pair)
  note u = declared_step_uses [OF d]
  show ?thesis
  proof (cases "ch_crc c")
    case None with u d assms show ?thesis by (simp add: chain_step_def)
  next
    case (Some cv)
    obtain e2 cv2 where "crc_after crc32 bs1 cv = (e2, cv2)" by fastforce
    with crc_after_error [OF this] Some u d assms show ?thesis
      by (cases e1) (auto simp: chain_step_def uses_def split: if_splits)
  qed
qed

abbreviation entry_weight :: "entry_reader \<Rightarrow> nat" where
  "entry_weight r \<equiv> source_weight (ch_source (er_chain r))"

lemma bounded_step_uses:
  assumes "bounded_step ly n r = (bs, e, r')"
  shows "uses (entry_weight r) (entry_weight r') bs e"
proof -
  obtain bs1 e1 c1 where d: "chain_step (ly_crc32 ly) (min n (er_remain r)) (er_chain r) = (bs1, e1, c1)" by (metis surj_pair)
  from chain_step_uses [OF d] d assms show ?thesis
    by (cases e1) (auto simp: bounded_step_def Let_def uses_def split: if_splits)
qed

lemma entry_step_uses:
  assumes "entry_step ly n r = (bs, e, r')"
  shows "uses (entry_weight r) (entry_weight r') bs e"
proof -
  obtain bs1 e1 r1 where d: "bounded_step ly n r = (bs1, e1, r1)" by (metis surj_pair)
  note u = bounded_step_uses [OF d]
  show ?thesis
  proof (cases "er_crc r")
    case None with u d assms show ?thesis by (auto simp: entry_step_def checked_step_def)
  next
    case (Some cv)
    obtain e2 cv2 where "crc_after (ly_crc32 ly) bs1 cv = (e2, cv2)" by fastforce
    with crc_after_error [OF this] Some u d assms show ?thesis
      by (cases e1) (auto simp: entry_step_def checked_step_def uses_def split: if_splits)
  qed
qed

section \<open>Writing the rest of a file\<close>

definition COPY_REST_BYTES :: nat where "COPY_REST_BYTES = 64 * 1024"
definition PUSH_STEP_BYTES :: nat where "PUSH_STEP_BYTES = 2 ^ 20"

text \<open>
  A sink is the pieces it has been written and what it answers to one more; a write of nothing does
  not reach it. \<open>copy_rest\<close> reads and writes on, past interruptions. \<open>push_rest\<close> is \<open>write_pushed\<close> for a
  chain that pushes: the sink gets a push's bytes before the chain can fail it, and its own error
  comes first.
\<close>

type_synonym sink = "byte list list \<Rightarrow> io_error option"

definition sink_write :: "sink \<Rightarrow> byte list \<Rightarrow> byte list list \<Rightarrow> io_error option \<times> byte list list" where
  "sink_write feed bs pieces =
     (if bs = [] then (None, pieces)
      else case feed (pieces @ [bs]) of Some e \<Rightarrow> (Some e, pieces) | None \<Rightarrow> (None, pieces @ [bs]))"

function copy_rest :: "layers \<Rightarrow> sink \<Rightarrow> nat \<Rightarrow> byte list list \<Rightarrow> entry_reader
    \<Rightarrow> (io_error + nat) \<times> byte list list \<times> entry_reader" where
  "copy_rest ly feed count pieces r = (case entry_step ly COPY_REST_BYTES r of
      (bs, Some e, r') \<Rightarrow> if interrupted e then copy_rest ly feed count pieces r' else (Inl e, pieces, r')
    | (bs, None, r') \<Rightarrow>
        if bs = [] then (Inr count, pieces, r')
        else (case sink_write feed bs pieces of
            (Some e, pieces') \<Rightarrow> (Inl e, pieces', r')
          | (None, pieces') \<Rightarrow> copy_rest ly feed (count + length bs) pieces' r'))"
  by pat_completeness auto
termination
  by (relation "measure (\<lambda>(_, _, _, _, r). entry_weight r)") (auto dest!: entry_step_uses [OF sym] simp: uses_def)

function push_rest :: "layers \<Rightarrow> sink \<Rightarrow> nat \<Rightarrow> byte list list \<Rightarrow> entry_reader
    \<Rightarrow> (io_error + nat) \<times> byte list list \<times> entry_reader" where
  "push_rest ly feed count pieces r = (case entry_step ly PUSH_STEP_BYTES r of (bs, pushed, r') \<Rightarrow>
     (case sink_write feed bs pieces of
        (Some e, pieces') \<Rightarrow> (Inl e, pieces', r')
      | (None, pieces') \<Rightarrow> (case pushed of
            Some e \<Rightarrow> (Inl e, pieces', r')
          | None \<Rightarrow> if bs = [] then (Inr count, pieces', r') else push_rest ly feed (count + length bs) pieces' r')))"
  by pat_completeness auto
termination
  by (relation "measure (\<lambda>(_, _, _, _, r). entry_weight r)") (auto dest!: entry_step_uses [OF sym] simp: uses_def)

declare copy_rest.simps [simp del] push_rest.simps [simp del]

definition write_rest :: "layers \<Rightarrow> sink \<Rightarrow> entry_reader \<Rightarrow> (io_error + nat) \<times> byte list list \<times> entry_reader" where
  "write_rest ly feed r = (if ly_pushes ly then push_rest ly feed 0 [] r else copy_rest ly feed 0 [] r)"

section \<open>Callbacks\<close>

text \<open>
  What a callback does with the reader it is handed, with a state of its own: reads into buffers of
  sizes it chooses from what it got before, the rest written to a sink of its own, and its answer.
\<close>

datatype 'u visit =
    Take nat "io_error + byte list \<Rightarrow> 'u visit"
  | Rest sink "(io_error + nat) \<times> byte list list \<Rightarrow> 'u visit"
  | Reply "error + bool" 'u

primrec run_visit :: "layers \<Rightarrow> 'u visit \<Rightarrow> entry_reader \<Rightarrow> (error + bool) \<times> 'u \<times> entry_reader" where
  "run_visit ly (Take n k) = (\<lambda>r. case entry_read ly n r of (x, r') \<Rightarrow> run_visit ly (k x) r')"
| "run_visit ly (Rest feed k) = (\<lambda>r. case write_rest ly feed r of (x, pieces, r') \<Rightarrow> run_visit ly (k (x, pieces)) r')"
| "run_visit ly (Reply x u) = (\<lambda>r. (x, u, r))"

text \<open>The same over a file with no bytes.\<close>

primrec visit_empty :: "'u visit \<Rightarrow> (error + bool) \<times> 'u" where
  "visit_empty (Take n k) = visit_empty (k (Inr []))"
| "visit_empty (Rest feed k) = visit_empty (k (Inr 0, []))"
| "visit_empty (Reply x u) = (x, u)"

end
