(* ===== verification/Block_Walk.thy ===== *)
theory Block_Walk
  imports Entry_Readers
begin

text \<open>
  Walking the entries of a block and of an archive (\<^verbatim>\<open>BlockDecoder::walk_entries\<close>, \<^verbatim>\<open>OwedCompletions\<close>
  and \<^verbatim>\<open>ArchiveReader::for_each_entries\<close> of \<^verbatim>\<open>src/src/reader.rs\<close>), folders one after another on the
  calling thread. The decode stack of a block is an argument: an error, or the decoder's events with
  what its coder reports of checksums folded from its workers at each point of its output.
\<close>

section \<open>The files of a block\<close>

fun shrink_to_block :: "nat option list \<Rightarrow> nat \<Rightarrow> nat \<Rightarrow> nat \<Rightarrow> nat" where
  "shrink_to_block file_block i start 0 = 0"
| "shrink_to_block file_block i start (Suc n) =
     (if start < Suc n \<and> get file_block n \<noteq> Some (Some i) then shrink_to_block file_block i start n else Suc n)"

definition block_file_range :: "archive \<Rightarrow> nat \<Rightarrow> nat \<times> nat" where
  "block_file_range a i =
     (let map = ar_stream_map a; len = length (ar_files a) in
      case (get (ar_blocks a) i, get (sm_block_first_file_index map) i) of
        (Some b, Some first) \<Rightarrow>
          let start = min first len in
          if num_unpack_sub_streams b = 0 then (start, start)
          else let end = (case find (\<lambda>j. num_unpack_sub_streams (ar_blocks a ! j) \<noteq> 0) [Suc i..<length (ar_blocks a)] of
                   None \<Rightarrow> len
                 | Some j \<Rightarrow> (case get (sm_block_first_file_index map) j of None \<Rightarrow> len | Some n \<Rightarrow> n))
               in (start, shrink_to_block (sm_file_block_index map) i start (min (max end start) len))
      | _ \<Rightarrow> (len, len))"

definition check_block_mapping :: "archive \<Rightarrow> nat \<Rightarrow> unit result" where
  "check_block_mapping a i = (let map = ar_stream_map a in
     bindE (ok_or (InvalidArgument ''block index out of range'') (get (ar_blocks a) i)) (\<lambda>b.
     let pack_streams = (case get (sm_block_first_pack_stream_index map) i of
           None \<Rightarrow> False
         | Some first \<Rightarrow> let end = first + length (packed_streams b) in
             end \<le> usize_max \<and> end \<le> length (sm_pack_stream_offsets map) \<and> end \<le> length (ar_pack_sizes a))
     in if \<not> pack_streams \<or> sso_get (sm_block_first_sub_stream_index map) i = None
           \<or> get (sm_block_first_file_index map) i = None
        then Inl (Corrupted ''the archive's stream map does not describe this block'')
        else Inr ()))"

definition empty_file_crc_mismatch :: "archive_entry \<Rightarrow> bool \<Rightarrow> bool" where
  "empty_file_crc_mismatch f verify \<longleftrightarrow> verify \<and> ae_has_crc f \<and> ae_crc f \<noteq> 0"

definition sized :: "archive_entry \<Rightarrow> bool" where
  "sized f \<longleftrightarrow> ae_has_stream f \<and> 0 < ae_size f"

section \<open>The walk's surroundings and state\<close>

text \<open>
  \<open>ds_folded\<close> is the checksum the coder has folded of a range of its output by the time its events are
  down to those given, when it reports one.
\<close>

record decode_stack =
  ds_source :: source
  ds_folding :: bool
  ds_pushes :: bool
  ds_folded :: "source \<Rightarrow> u64 \<Rightarrow> u64 \<Rightarrow> u32 option"

record walk_env =
  we_crc32 :: "byte list \<Rightarrow> u32"
  we_copied :: "nat \<Rightarrow> nat"
  we_from_coder :: "nat \<Rightarrow> error option"
  we_verify :: bool
  we_stack :: "nat \<Rightarrow> decode_stack result"

record completion =
  cp_block :: nat
  cp_sub_stream :: nat
  cp_file :: nat
  cp_offset :: u64
  cp_len :: u64
  cp_crc :: u32

record owed_completion =
  oc_file :: nat
  oc_sub_stream :: nat
  oc_offset :: u64
  oc_len :: u64

record 'u walk =
  wk_chain :: chain
  wk_fault :: "io_error option"
  wk_offset :: u64
  wk_sub_stream :: nat
  wk_consumed :: u64
  wk_ended :: bool
  wk_queue :: "owed_completion list"
  wk_events :: "completion list"
  wk_user :: 'u

text \<open>What does not change while a block is walked.\<close>

record walk_place =
  wp_archive :: archive
  wp_block_index :: nat
  wp_packed_offset :: u64
  wp_first_sub_stream :: nat
  wp_unpack_size :: u64
  wp_encrypted :: bool
  wp_last_sized :: "nat option"
  wp_stack :: decode_stack

definition add_u64 :: "u64 \<Rightarrow> u64 \<Rightarrow> u64 result" where
  "add_u64 a b = (if unat a + unat b < 2 ^ 64 then Inr (a + b) else Inl (Panic ''attempt to add with overflow''))"

definition locate :: "walk_env \<Rightarrow> walk_place \<Rightarrow> error \<Rightarrow> error" where
  "locate env p e = in_block (we_from_coder env) e (wp_block_index p) (wp_packed_offset p)"

definition folded_mismatch :: "bool \<Rightarrow> error" where
  "folded_mismatch encrypted =
     (if encrypted then maybe_bad_password (Io checksum_failed '''') True else ChecksumVerificationFailed)"

definition walk_layers :: "walk_env \<Rightarrow> walk_place \<Rightarrow> layers" where
  "walk_layers env p = \<lparr>ly_crc32 = we_crc32 env, ly_copied = we_copied env, ly_pushes = ds_pushes (wp_stack p)\<rparr>"

section \<open>Completions owed\<close>

definition completion_of :: "walk_place \<Rightarrow> owed_completion \<Rightarrow> u32 \<Rightarrow> completion" where
  "completion_of p oc crc32 = \<lparr>cp_block = wp_block_index p, cp_sub_stream = oc_sub_stream oc, cp_file = oc_file oc,
     cp_offset = oc_offset oc, cp_len = oc_len oc, cp_crc = crc32\<rparr>"

definition unverified :: "walk_env \<Rightarrow> walk_place \<Rightarrow> error" where
  "unverified env p = locate env p
     (Internal ''the decoder reported no checksum for bytes that were read to their end'')"

text \<open>\<open>OwedCompletions::settle\<close>: what is left of the queue, the completions reported, and the error.\<close>

fun settle_loop :: "walk_env \<Rightarrow> walk_place \<Rightarrow> source \<Rightarrow> bool \<Rightarrow> owed_completion list \<Rightarrow> completion list
    \<Rightarrow> error option \<times> owed_completion list \<times> completion list" where
  "settle_loop env p s at_end [] events = (None, [], events)"
| "settle_loop env p s at_end (oc # queue) events =
     (let file = ar_files (wp_archive p) ! oc_file oc in
      case ds_folded (wp_stack p) s (oc_offset oc) (oc_len oc) of
        Some crc32 \<Rightarrow>
          if ae_has_crc file \<and> ucast crc32 \<noteq> ae_crc file
          then (Some (locate env p ChecksumVerificationFailed), oc # queue, events)
          else settle_loop env p s at_end queue (events @ [completion_of p oc crc32])
      | None \<Rightarrow>
          if \<not> at_end then (None, oc # queue, events)
          else if ae_has_crc file then (Some (unverified env p), oc # queue, events)
          else settle_loop env p s at_end queue events)"

definition settle :: "walk_env \<Rightarrow> walk_place \<Rightarrow> bool \<Rightarrow> 'u walk \<Rightarrow> unit result \<times> 'u walk" where
  "settle env p at_end w =
     (case settle_loop env p (ch_source (wk_chain w)) at_end (wk_queue w) (wk_events w) of (e, queue, events) \<Rightarrow>
       (case e of Some e \<Rightarrow> Inl e | None \<Rightarrow> Inr (), w\<lparr>wk_queue := queue, wk_events := events\<rparr>))"

section \<open>The end of a stream\<close>

definition STREAM_END_CHUNK :: nat where "STREAM_END_CHUNK = 64 * 1024"

definition decoded_past_declared_size :: io_error where
  "decoded_past_declared_size = IoForeign InvalidData 0"

text \<open>A read of the block's chain, its failure recorded.\<close>

definition block_read :: "layers \<Rightarrow> nat \<Rightarrow> chain \<times> io_error option \<Rightarrow> (io_error + byte list) \<times> chain \<times> io_error option" where
  "block_read ly n cf = (case chain_step (ly_crc32 ly) n (fst cf) of (bs, e, c) \<Rightarrow>
     (case e of Some e \<Rightarrow> Inl e | None \<Rightarrow> Inr bs, c, fault_record (ly_copied ly) e (snd cf)))"

function skip_left :: "layers \<Rightarrow> nat \<Rightarrow> chain \<times> io_error option \<Rightarrow> (io_error + bool) \<times> chain \<times> io_error option" where
  "skip_left ly left cf =
     (if left = 0 then (Inr True, cf)
      else case block_read ly (min left STREAM_END_CHUNK) cf of
          (Inl e, cf') \<Rightarrow> if interrupted e then skip_left ly left cf' else (Inl e, cf')
        | (Inr bs, cf') \<Rightarrow> if bs = [] then (Inr False, cf') else skip_left ly (left - length bs) cf')"
  by pat_completeness auto
termination
  by (relation "measure (\<lambda>(_, _, cf). source_weight (ch_source (fst cf)))")
     (auto simp: block_read_def uses_def split: prod.splits option.splits dest!: chain_step_uses)

function probe_end :: "layers \<Rightarrow> chain \<times> io_error option \<Rightarrow> (io_error + unit) \<times> chain \<times> io_error option" where
  "probe_end ly cf = (case block_read ly 1 cf of
      (Inl e, cf') \<Rightarrow> if interrupted e then probe_end ly cf' else (Inl e, cf')
    | (Inr bs, cf') \<Rightarrow> (if bs = [] then Inr () else Inl decoded_past_declared_size, cf'))"
  by pat_completeness auto
termination
  by (relation "measure (\<lambda>(_, cf). source_weight (ch_source (fst cf)))")
     (auto simp: block_read_def uses_def split: prod.splits option.splits dest!: chain_step_uses)

declare skip_left.simps [simp del] probe_end.simps [simp del]

text \<open>\<open>read_to_stream_end\<close>; a stream that ends among the bytes left is not probed.\<close>

definition read_to_stream_end :: "layers \<Rightarrow> nat \<Rightarrow> chain \<times> io_error option \<Rightarrow> (io_error + unit) \<times> chain \<times> io_error option" where
  "read_to_stream_end ly left cf = (case skip_left ly left cf of
      (Inl e, cf') \<Rightarrow> (Inl e, cf')
    | (Inr False, cf') \<Rightarrow> (Inr (), cf')
    | (Inr True, cf') \<Rightarrow> probe_end ly cf')"

definition reach_end :: "walk_env \<Rightarrow> walk_place \<Rightarrow> nat \<Rightarrow> 'u walk \<Rightarrow> unit result \<times> 'u walk" where
  "reach_end env p left w = (case read_to_stream_end (walk_layers env p) left (wk_chain w, wk_fault w) of
      (x, c, fault) \<Rightarrow>
        (case x of Inl e \<Rightarrow> Inl (locate env p (Io e '''')) | Inr _ \<Rightarrow> Inr (),
         w\<lparr>wk_chain := c, wk_fault := fault\<rparr>))"

section \<open>One file\<close>

definition and_then :: "(error + 'a) \<times> 's \<Rightarrow> ('a \<Rightarrow> 's \<Rightarrow> (error + 'b) \<times> 's) \<Rightarrow> (error + 'b) \<times> 's" where
  "and_then m f = (case m of (Inl e, s) \<Rightarrow> (Inl e, s) | (Inr x, s) \<Rightarrow> f x s)"

lemma and_then_simps [simp]:
  "and_then (Inl e, s) f = (Inl e, s)"
  "and_then (Inr x, s) f = f x s"
  by (simp_all add: and_then_def)

lemma and_then_Inr:
  "and_then m f = (Inr y, s') \<longleftrightarrow> (\<exists>x s. m = (Inr x, s) \<and> f x s = (Inr y, s'))"
  by (cases m) (auto simp: and_then_def split: sum.splits)

text \<open>A file's reader when the callback is handed it.\<close>

definition entry_reader_for :: "walk_env \<Rightarrow> walk_place \<Rightarrow> archive_entry \<Rightarrow> 'u walk \<Rightarrow> entry_reader" where
  "entry_reader_for env p file w =
     \<lparr>er_chain = wk_chain w, er_fault = wk_fault w, er_remain = unat (ae_size file),
      er_crc = (if ae_has_crc file \<and> we_verify env \<and> \<not> ds_folding (wp_stack p)
        then Some (crc_check_new (unat (ae_size file)) (ae_crc file)) else None)\<rparr>"

text \<open>The callback, and what it left of the file read for the next one (\<^verbatim>\<open>drain_unread\<close>).\<close>

definition drain_unread :: "layers \<Rightarrow> error + bool \<Rightarrow> bool \<Rightarrow> entry_reader \<Rightarrow> (error + bool) \<times> entry_reader" where
  "drain_unread ly answer drain r =
     (if answer = Inr True \<and> drain then
        case write_rest ly (\<lambda>_. None) r of
          (Inl e, _, r') \<Rightarrow> (Inl (Io e ''''), r')
        | (Inr _, _, r') \<Rightarrow> (answer, r')
      else (answer, r))"

definition visit_entry :: "walk_env \<Rightarrow> walk_place \<Rightarrow> 'u visit \<Rightarrow> nat \<Rightarrow> 'u walk \<Rightarrow> (error + bool) \<times> 'u \<times> entry_reader" where
  "visit_entry env p visit i w =
     (let ly = walk_layers env p;
          drain = (case wp_last_sized p of None \<Rightarrow> False | Some l \<Rightarrow> i < l)
      in case run_visit ly visit (entry_reader_for env p (ar_files (wp_archive p) ! i) w) of (answer, u, r) \<Rightarrow>
         case drain_unread ly answer drain r of (answer', r') \<Rightarrow> (answer', u, r'))"

text \<open>Whose fault an error is, and the failure a callback went on from.\<close>

definition judge :: "walk_env \<Rightarrow> walk_place \<Rightarrow> error + bool \<Rightarrow> 'u walk \<Rightarrow> (error + bool) \<times> 'u walk" where
  "judge env p answer w = (case answer of
      Inl e \<Rightarrow>
        let e' = maybe_bad_password e (wp_encrypted p)
        in (Inl (if wk_fault w \<noteq> None then locate env p e' else e'), w)
    | Inr False \<Rightarrow> (Inr False, w)
    | Inr True \<Rightarrow> (case fault_take (wk_fault w) of
          Some fault \<Rightarrow> (Inl (locate env p (maybe_bad_password (Io fault '''') (wp_encrypted p))), w\<lparr>wk_fault := None\<rparr>)
        | None \<Rightarrow> (Inr True, w\<lparr>wk_fault := None\<rparr>)))"

text \<open>A folded checksum for the file just read, or the debt of one.\<close>

definition fold_file :: "walk_env \<Rightarrow> walk_place \<Rightarrow> nat \<Rightarrow> bool \<Rightarrow> 'u walk \<Rightarrow> u32 option result \<times> 'u walk" where
  "fold_file env p i whole w =
     (let file = ar_files (wp_archive p) ! i;
          check = ds_folded (wp_stack p) (ch_source (wk_chain w)) (wk_offset w) (ae_size file)
      in if check \<noteq> None \<and> wk_queue w = [] then
           if ae_has_crc file \<and> ucast (the check) \<noteq> ae_crc file
           then (Inl (locate env p (folded_mismatch (wp_encrypted p))), w)
           else (Inr check, w)
         else if check \<noteq> None \<or> whole \<and> ae_has_crc file then
           (Inr None, w\<lparr>wk_queue := wk_queue w @ [\<lparr>oc_file = i, oc_sub_stream = wp_first_sub_stream p + wk_sub_stream w,
              oc_offset = wk_offset w, oc_len = ae_size file\<rparr>]\<rparr>)
         else (Inr None, w))"

definition report_file :: "walk_place \<Rightarrow> nat \<Rightarrow> u32 option \<Rightarrow> 'u walk \<Rightarrow> 'u walk" where
  "report_file p i report w = (case report of
      None \<Rightarrow> w
    | Some crc32 \<Rightarrow> w\<lparr>wk_events := wk_events w @ [\<lparr>cp_block = wp_block_index p,
        cp_sub_stream = wp_first_sub_stream p + wk_sub_stream w, cp_file = i, cp_offset = wk_offset w,
        cp_len = ae_size (ar_files (wp_archive p) ! i), cp_crc = crc32\<rparr>]\<rparr>)"

definition close_file :: "walk_env \<Rightarrow> walk_place \<Rightarrow> nat \<Rightarrow> u32 option \<Rightarrow> nat \<Rightarrow> 'u walk \<Rightarrow> unit result \<times> 'u walk" where
  "close_file env p i report taken w =
     (let file = ar_files (wp_archive p) ! i in
      and_then (add_u64 (wk_consumed w) (of_nat taken), w) (\<lambda>consumed w. let w = w\<lparr>wk_consumed := consumed\<rparr> in
      and_then
        (if ds_folding (wp_stack p)
         then and_then (settle env p False w) (\<lambda>_ w. fold_file env p i (taken = unat (ae_size file)) w)
         else (Inr report, w)) (\<lambda>report w. let w = report_file p i report w in
      and_then (add_u64 (wk_offset w) (ae_size file), w) (\<lambda>offset w.
      let w = w\<lparr>wk_offset := offset, wk_sub_stream := wk_sub_stream w + 1\<rparr> in
      if wk_queue w \<noteq> [] \<and> wk_consumed w = wp_unpack_size p
      then and_then (reach_end env p 0 w) (\<lambda>_ w. settle env p True (w\<lparr>wk_ended := True\<rparr>))
      else (Inr (), w)))))"

definition walk_sized :: "walk_env \<Rightarrow> walk_place \<Rightarrow> (archive_entry \<Rightarrow> 'u \<Rightarrow> 'u visit) \<Rightarrow> nat \<Rightarrow> 'u walk \<Rightarrow> (error + bool) \<times> 'u walk" where
  "walk_sized env p each i w =
     (let file = ar_files (wp_archive p) ! i in
      case visit_entry env p (each file (wk_user w)) i w of (answer, u, r) \<Rightarrow>
      and_then (judge env p answer (w\<lparr>wk_chain := er_chain r, wk_fault := er_fault r, wk_user := u\<rparr>)) (\<lambda>go w.
      and_then (close_file env p i (case er_crc r of None \<Rightarrow> None | Some cv \<Rightarrow> cv_report cv)
          (unat (ae_size file) - er_remain r) w) (\<lambda>_ w. (Inr go, w))))"

definition walk_unsized :: "walk_env \<Rightarrow> walk_place \<Rightarrow> (archive_entry \<Rightarrow> 'u \<Rightarrow> 'u visit) \<Rightarrow> nat \<Rightarrow> 'u walk \<Rightarrow> (error + bool) \<times> 'u walk" where
  "walk_unsized env p each i w =
     (let file = ar_files (wp_archive p) ! i;
          w = (if ae_has_stream file then w\<lparr>wk_sub_stream := wk_sub_stream w + 1\<rparr> else w)
      in if empty_file_crc_mismatch file (we_verify env) then (Inl (locate env p ChecksumVerificationFailed), w)
         else case visit_empty (each file (wk_user w)) of (answer, u) \<Rightarrow> (answer, w\<lparr>wk_user := u\<rparr>))"

section \<open>One block\<close>

fun walk_files :: "walk_env \<Rightarrow> walk_place \<Rightarrow> (archive_entry \<Rightarrow> 'u \<Rightarrow> 'u visit) \<Rightarrow> nat list \<Rightarrow> 'u walk \<Rightarrow> (error + bool) \<times> 'u walk" where
  "walk_files env p each [] w = (Inr True, w)"
| "walk_files env p each (i # is) w =
     and_then (if sized (ar_files (wp_archive p) ! i) then walk_sized env p each i w else walk_unsized env p each i w)
       (\<lambda>go w. if go then walk_files env p each is w else (Inr False, w))"

record block_outcome =
  bo_finished :: bool
  bo_read_in_full :: bool

definition check_block_fold :: "walk_env \<Rightarrow> walk_place \<Rightarrow> bool \<Rightarrow> 'u walk \<Rightarrow> unit result \<times> 'u walk" where
  "check_block_fold env p read_in_full w =
     (let block = ar_blocks (wp_archive p) ! wp_block_index p;
          folded = (\<lambda>w. ds_folded (wp_stack p) (ch_source (wk_chain w)) 0 (wp_unpack_size p))
      in if \<not> (ds_folding (wp_stack p) \<and> has_crc block) then (Inr (), w)
         else and_then
           (if folded w = None \<and> read_in_full \<and> \<not> wk_ended w then reach_end env p 0 w else (Inr (), w)) (\<lambda>_ w.
         case folded w of
           Some crc32 \<Rightarrow> (if ucast crc32 \<noteq> crc block then Inl (locate env p (folded_mismatch (wp_encrypted p))) else Inr (), w)
         | None \<Rightarrow> (if read_in_full then Inl (unverified env p) else Inr (), w)))"

definition close_block :: "walk_env \<Rightarrow> walk_place \<Rightarrow> bool \<Rightarrow> 'u walk \<Rightarrow> block_outcome result \<times> 'u walk" where
  "close_block env p finished w =
     and_then
       (if wk_queue w \<noteq> []
        then and_then (reach_end env p (unat (wp_unpack_size p) - unat (wk_consumed w)) w)
               (\<lambda>_ w. settle env p True (w\<lparr>wk_ended := True\<rparr>))
        else (Inr (), w)) (\<lambda>_ w.
     let read_in_full = wp_unpack_size p \<noteq> 0 \<and> wk_consumed w = wp_unpack_size p in
     and_then
       (if read_in_full \<and> \<not> wk_ended w
        then and_then (reach_end env p 0 w) (\<lambda>_ w. (Inr (), w\<lparr>wk_ended := True\<rparr>))
        else (Inr (), w)) (\<lambda>_ w.
     let outcome = \<lparr>bo_finished = finished, bo_read_in_full = (wk_consumed w = wp_unpack_size p)\<rparr> in
     if \<not> finished \<and> \<not> read_in_full then (Inr outcome, w)
     else and_then (check_block_fold env p read_in_full w) (\<lambda>_ w. (Inr outcome, w))))"

text \<open>The reader \<^verbatim>\<open>build_decode_stack\<close> puts over the decoder, and the walk's start.\<close>

definition block_chain :: "walk_env \<Rightarrow> block \<Rightarrow> u64 \<Rightarrow> decode_stack \<Rightarrow> chain" where
  "block_chain env b unpack_size stack =
     \<lparr>ch_source = ds_source stack, ch_owed = unat unpack_size,
      ch_crc = (if has_crc b \<and> we_verify env \<and> \<not> ds_folding stack
        then Some (crc_check_new (unat unpack_size) (crc b)) else None)\<rparr>"

definition last_sized :: "archive \<Rightarrow> nat \<Rightarrow> nat \<Rightarrow> nat option" where
  "last_sized a start end = find (\<lambda>i. sized (ar_files a ! i)) (rev [start..<end])"

definition walk_place_of :: "walk_env \<Rightarrow> archive \<Rightarrow> nat \<Rightarrow> u64 \<Rightarrow> decode_stack \<Rightarrow> u64 \<Rightarrow> nat \<Rightarrow> walk_place" where
  "walk_place_of env a i packed_offset stack unpack_size first =
     \<lparr>wp_archive = a, wp_block_index = i, wp_packed_offset = packed_offset, wp_first_sub_stream = first,
      wp_unpack_size = unpack_size, wp_encrypted = is_encrypted (ar_blocks a ! i),
      wp_last_sized = (case block_file_range a i of (start, end) \<Rightarrow> last_sized a start end), wp_stack = stack\<rparr>"

definition walk_start :: "chain \<Rightarrow> 'u \<Rightarrow> 'u walk" where
  "walk_start c u = \<lparr>wk_chain = c, wk_fault = None, wk_offset = 0, wk_sub_stream = 0, wk_consumed = 0,
     wk_ended = False, wk_queue = [], wk_events = [], wk_user = u\<rparr>"

definition walk_entries :: "walk_env \<Rightarrow> archive \<Rightarrow> nat \<Rightarrow> (archive_entry \<Rightarrow> 'u \<Rightarrow> 'u visit) \<Rightarrow> 'u
    \<Rightarrow> block_outcome result \<times> completion list \<times> 'u" where
  "walk_entries env a i each u =
     (let packed_offset = (case block_pack_streams a i of [] \<Rightarrow> 0 | r # _ \<Rightarrow> ps_offset r) in
      case bindE (check_block_mapping a i) (\<lambda>_.
           case we_stack env i of
             Inl e \<Rightarrow> Inl (in_block (we_from_coder env) e i packed_offset)
           | Inr stack \<Rightarrow>
               bindE (get_unpack_size (ar_blocks a ! i)) (\<lambda>unpack_size.
               bindE (ok_or (Corrupted ''block has no sub-stream mapping'')
                 (sso_get (sm_block_first_sub_stream_index (ar_stream_map a)) i)) (\<lambda>first.
               Inr (walk_place_of env a i packed_offset stack unpack_size first)))) of
        Inl e \<Rightarrow> (Inl e, [], u)
      | Inr p \<Rightarrow>
          (case block_file_range a i of (start, end) \<Rightarrow>
           case and_then (walk_files env p each [start..<end]
                  (walk_start (block_chain env (ar_blocks a ! i) (wp_unpack_size p) (wp_stack p)) u))
                (close_block env p) of
             (x, w) \<Rightarrow> (x, wk_events w, wk_user w)))"

section \<open>The archive\<close>

record block_completion =
  bc_block :: nat
  bc_unpacked_size :: u64
  bc_crc_verified :: bool

definition block_completed :: "archive \<Rightarrow> nat \<Rightarrow> block_outcome \<Rightarrow> block_completion list result" where
  "block_completed a i outcome =
     (if bo_finished outcome \<and> bo_read_in_full outcome then
        let block = ar_blocks a ! i; subs = block_sub_streams a i in
        bindE (get_unpack_size block) (\<lambda>size. Inr [\<lparr>bc_block = i, bc_unpacked_size = size,
          bc_crc_verified = (has_crc block \<or> subs \<noteq> [] \<and> (\<forall>s \<in> set subs. ss_crc s \<noteq> None))\<rparr>])
      else Inr [])"

record 'u archive_walk =
  aw_completions :: "completion list"
  aw_blocks :: "block_completion list"
  aw_user :: 'u

definition decode_block_alone :: "walk_env \<Rightarrow> archive \<Rightarrow> (archive_entry \<Rightarrow> 'u \<Rightarrow> 'u visit) \<Rightarrow> nat \<Rightarrow> 'u archive_walk
    \<Rightarrow> unit result \<times> 'u archive_walk" where
  "decode_block_alone env a each i aw = (case walk_entries env a i each (aw_user aw) of (x, events, u) \<Rightarrow>
     let aw = aw\<lparr>aw_completions := aw_completions aw @ events, aw_user := u\<rparr> in
     and_then (bindE x (block_completed a i), aw) (\<lambda>bs aw. (Inr (), aw\<lparr>aw_blocks := aw_blocks aw @ bs\<rparr>)))"

fun walk_blocks :: "walk_env \<Rightarrow> archive \<Rightarrow> (archive_entry \<Rightarrow> 'u \<Rightarrow> 'u visit) \<Rightarrow> nat list \<Rightarrow> 'u archive_walk \<Rightarrow> unit result \<times> 'u archive_walk" where
  "walk_blocks env a each [] aw = (Inr (), aw)"
| "walk_blocks env a each (i # is) aw =
     and_then (decode_block_alone env a each i aw) (\<lambda>_ aw. walk_blocks env a each is aw)"

text \<open>Files of no block; a callback that stops ends the walk.\<close>

fun walk_empty :: "walk_env \<Rightarrow> archive \<Rightarrow> (archive_entry \<Rightarrow> 'u \<Rightarrow> 'u visit) \<Rightarrow> nat list \<Rightarrow> 'u archive_walk \<Rightarrow> unit result \<times> 'u archive_walk" where
  "walk_empty env a each [] aw = (Inr (), aw)"
| "walk_empty env a each (i # is) aw =
     (if sm_file_block_index (ar_stream_map a) ! i \<noteq> None then walk_empty env a each is aw
      else let file = ar_files a ! i in
        if empty_file_crc_mismatch file (we_verify env) then (Inl ChecksumVerificationFailed, aw)
        else case visit_empty (each file (aw_user aw)) of (answer, u) \<Rightarrow>
          and_then (answer, aw\<lparr>aw_user := u\<rparr>) (\<lambda>go aw. if go then walk_empty env a each is aw else (Inr (), aw)))"

definition map_covers :: "archive \<Rightarrow> bool" where
  "map_covers a \<longleftrightarrow> (let map = ar_stream_map a in
     length (sm_file_block_index map) = length (ar_files a)
   \<and> length (sm_block_first_file_index map) = length (ar_blocks a)
   \<and> (\<forall>b \<in> set (sm_file_block_index map). case b of None \<Rightarrow> True | Some i \<Rightarrow> i < length (ar_blocks a)))"

definition for_each_entries :: "walk_env \<Rightarrow> archive \<Rightarrow> (archive_entry \<Rightarrow> 'u \<Rightarrow> 'u visit) \<Rightarrow> 'u \<Rightarrow> unit result \<times> 'u archive_walk" where
  "for_each_entries env a each u =
     (let aw = \<lparr>aw_completions = [], aw_blocks = [], aw_user = u\<rparr> in
      if \<not> map_covers a then (Inl (Corrupted ''the archive's stream map does not match it''), aw)
      else and_then (walk_blocks env a each [0..<length (ar_blocks a)] aw)
        (\<lambda>_ aw. walk_empty env a each [0..<length (ar_files a)] aw))"

end
