(* ===== verification/Walk_Sound.thy ===== *)
theory Walk_Sound
  imports Block_Walk Cipher_Streams
begin

text \<open>
  What a walk over a block that ended well says of the decoded stream, whatever the callbacks did: the
  bytes a reader has taken of the flow of the decoder, through each layer, as long as no failure has
  been recorded.
\<close>

section \<open>Faults\<close>

definition clean :: "io_error option \<Rightarrow> bool" where
  "clean fault \<longleftrightarrow> fault_take fault = None"

definition harmless :: "io_error option \<Rightarrow> bool" where
  "harmless e \<longleftrightarrow> (\<forall>x. e = Some x \<longrightarrow> interrupted x)"

lemma interrupted_copy [simp]: "interrupted (copy_io copied e) = interrupted e"
  by (cases e) (simp_all add: copy_io_def interrupted_def)

lemma harmless_simps [simp]: "harmless None" "harmless (Some e) = interrupted e"
  by (simp_all add: harmless_def)

lemma clean_record: "clean (fault_record copied e fault) \<longleftrightarrow> clean fault \<and> harmless e"
  by (auto simp: clean_def fault_record_def fault_take_def split: option.splits if_splits)

lemma clean_None [simp]: "clean None"
  by (simp add: clean_def fault_take_def)

section \<open>The chain\<close>

definition fresh_check :: "crc_check option \<Rightarrow> bool" where
  "fresh_check c \<longleftrightarrow> (\<forall>cv. c = Some cv \<longrightarrow> cv_digest cv = [] \<and> 0 < cv_remaining cv \<and> cv_report cv = None)"

text \<open>A check after \<open>got\<close>: running, or made and passed.\<close>

definition check_at :: "(byte list \<Rightarrow> u32) \<Rightarrow> crc_check option \<Rightarrow> byte list \<Rightarrow> crc_check option \<Rightarrow> bool" where
  "check_at crc32 c0 got c = (case (c0, c) of
      (None, None) \<Rightarrow> True
    | (Some cv0, Some cv) \<Rightarrow> cv_expected cv = cv_expected cv0
        \<and> (if 0 < cv_remaining cv
           then cv_digest cv = got \<and> cv_remaining cv = cv_remaining cv0 - int (length got) \<and> cv_report cv = None
           else cv_remaining cv0 \<le> int (length got) \<and> ucast (crc32 got) = cv_expected cv0 \<and> cv_report cv = Some (crc32 got))
    | _ \<Rightarrow> False)"

lemma check_at_start: "fresh_check c \<Longrightarrow> check_at crc32 c [] c"
  by (auto simp: check_at_def fresh_check_def split: option.splits)

lemma crc_after_at:
  assumes "check_at crc32 (Some cv0) got (Some cv)" "0 < cv_remaining cv" "crc_after crc32 bs cv = (e, cv')"
  shows "e = None \<Longrightarrow> check_at crc32 (Some cv0) (got @ bs) (Some cv')" "\<not> harmless e \<or> e = None"
  using assms by (auto simp: check_at_def crc_after_def check_parts_def Let_def split: if_splits)

text \<open>A decoder that has reported its end goes on reporting it.\<close>

definition stays_ended :: "source \<Rightarrow> bool" where
  "stays_ended s \<longleftrightarrow> Yields [] \<notin> set s"

lemma read_source_ended: "read_source n s = (x, s') \<Longrightarrow> stays_ended s \<Longrightarrow> stays_ended s'"
  by (induction n s rule: read_source.induct) (auto simp: stays_ended_def split: if_splits)

lemma read_source_empty: "read_source n s = (Inr [], s') \<Longrightarrow> 0 < n \<Longrightarrow> stays_ended s \<Longrightarrow> s = [] \<and> s' = []"
  by (cases "(n, s)" rule: read_source.cases) (auto simp: stays_ended_def split: if_splits)

definition chain_at :: "(byte list \<Rightarrow> u32) \<Rightarrow> chain \<Rightarrow> byte list \<Rightarrow> chain \<Rightarrow> bool" where
  "chain_at crc32 c0 got c \<longleftrightarrow>
     flow (ch_source c0) = (got @ fst (flow (ch_source c)), snd (flow (ch_source c)))
   \<and> stays_ended (ch_source c)
   \<and> ch_owed c = ch_owed c0 - length got \<and> check_at crc32 (ch_crc c0) got (ch_crc c)"

lemma chain_at_start: "fresh_check (ch_crc c) \<Longrightarrow> stays_ended (ch_source c) \<Longrightarrow> chain_at crc32 c [] c"
  by (simp add: chain_at_def check_at_start)

lemma declared_step_flow:
  assumes "declared_step n c = (bs, e, c')" "stays_ended (ch_source c)"
  shows "ch_crc c' = ch_crc c" "stays_ended (ch_source c')" "e \<noteq> None \<Longrightarrow> bs = []"
    and "harmless e \<Longrightarrow> length bs \<le> n \<and> ch_owed c' = ch_owed c - length bs
      \<and> flow (ch_source c) = (bs @ fst (flow (ch_source c')), snd (flow (ch_source c')))"
    and "e = None \<Longrightarrow> bs = [] \<Longrightarrow> 0 < n \<Longrightarrow> ch_owed c = 0 \<and> flow (ch_source c) = ([], None)"
proof -
  obtain x s where x: "read_source n (ch_source c) = (x, s)" by fastforce
  note end' = read_source_ended [OF x assms(2)]
  have nil: "x = Inr [] \<Longrightarrow> 0 < n \<Longrightarrow> ch_source c = [] \<and> s = []" using read_source_empty x assms(2) by blast
  show "ch_crc c' = ch_crc c" "e \<noteq> None \<Longrightarrow> bs = []" "stays_ended (ch_source c')"
    using assms x end' by (cases x; auto simp: declared_step_def split: if_splits)+
  show "harmless e \<Longrightarrow> length bs \<le> n \<and> ch_owed c' = ch_owed c - length bs
      \<and> flow (ch_source c) = (bs @ fst (flow (ch_source c')), snd (flow (ch_source c')))"
    using assms(1) x read_source_flow [of n "ch_source c" x s] nil
    by (cases x) (auto simp: declared_step_def split: if_splits)
  show "e = None \<Longrightarrow> bs = [] \<Longrightarrow> 0 < n \<Longrightarrow> ch_owed c = 0 \<and> flow (ch_source c) = ([], None)"
    using assms(1) x nil by (cases x) (auto simp: declared_step_def split: if_splits)
qed

lemma chain_step_at:
  assumes "chain_at crc32 c0 got c" "chain_step crc32 n c = (bs, e, c')" "harmless e"
  shows "chain_at crc32 c0 (got @ bs) c' \<and> length bs \<le> n \<and> (e \<noteq> None \<longrightarrow> bs = [])
    \<and> (e = None \<and> bs = [] \<and> 0 < n \<longrightarrow> (\<exists>cv. ch_crc c = Some cv \<and> cv_remaining cv \<le> 0) \<or> flow (ch_source c) = ([], None))"
proof -
  obtain bs1 e1 c1 where d: "declared_step n c = (bs1, e1, c1)" by (metis surj_pair)
  have ended: "stays_ended (ch_source c)" using assms(1) by (simp add: chain_at_def)
  note flow = declared_step_flow [OF d ended]
  have grown: "chain_at crc32 c0 (got @ bs1) (c1\<lparr>ch_crc := x\<rparr>)"
    if "harmless e1" "check_at crc32 (ch_crc c0) (got @ bs1) x" for x
    using flow(2,4) that assms(1) by (auto simp: chain_at_def)
  have same: "c1\<lparr>ch_crc := ch_crc c\<rparr> = c1" using flow(1) by (cases c1) simp
  show ?thesis
  proof (cases "ch_crc c")
    case None
    with d assms(2) have "bs = bs1" "e = e1" "c' = c1" by (simp_all add: chain_step_def)
    moreover have "ch_crc c0 = None" using assms(1) None by (auto simp: chain_at_def check_at_def split: option.splits)
    ultimately show ?thesis using grown [of None] same None flow(3-5) assms(3) by (simp add: check_at_def)
  next
    case (Some cv)
    then obtain cv0 where cv0: "ch_crc c0 = Some cv0" "check_at crc32 (Some cv0) got (Some cv)"
      using assms(1) by (auto simp: chain_at_def check_at_def split: option.splits)
    show ?thesis
    proof (cases "cv_remaining cv \<le> 0")
      case True with Some assms show ?thesis by (simp add: chain_step_def)
    next
      case False
      show ?thesis
      proof (cases e1)
        case (Some x)
        with d assms(2) False \<open>ch_crc c = Some cv\<close> have eq: "bs = bs1" "e = e1" "c' = c1" by (simp_all add: chain_step_def)
        have "bs1 = []" using flow(3) Some by simp
        with grown [of "ch_crc c"] same eq Some assms(1,3) show ?thesis by (simp add: chain_at_def)
      next
        case None
        obtain e2 cv2 where a: "crc_after crc32 bs1 cv = (e2, cv2)" by fastforce
        with d assms(2) False Some None have eq: "bs = bs1" "e = e2" "c' = c1\<lparr>ch_crc := Some cv2\<rparr>" by (simp_all add: chain_step_def)
        have "0 < cv_remaining cv" using False by simp
        note after = crc_after_at [OF cv0(2) this a]
        with eq assms(3) have "e2 = None" by auto
        with after grown [of "Some cv2"] None eq cv0(1) flow(4,5) show ?thesis by simp
      qed
    qed
  qed
qed

section \<open>A file's reader\<close>

text \<open>
  The bytes \<open>tk\<close> a reader has taken of its file, over what the files before have taken. Its own check is
  as far as they are.
\<close>

definition entry_at :: "(byte list \<Rightarrow> u32) \<Rightarrow> chain \<Rightarrow> byte list \<Rightarrow> entry_reader \<Rightarrow> byte list \<Rightarrow> entry_reader \<Rightarrow> bool" where
  "entry_at crc32 c0 got r0 tk r \<longleftrightarrow> chain_at crc32 c0 (got @ tk) (er_chain r)
     \<and> length tk \<le> er_remain r0 \<and> er_remain r = er_remain r0 - length tk \<and> check_at crc32 (er_crc r0) tk (er_crc r)"

definition entry_sound :: "(byte list \<Rightarrow> u32) \<Rightarrow> chain \<Rightarrow> byte list \<Rightarrow> entry_reader \<Rightarrow> entry_reader \<Rightarrow> bool" where
  "entry_sound crc32 c0 got r0 r \<longleftrightarrow> (clean (er_fault r) \<longrightarrow> (\<exists>tk. entry_at crc32 c0 got r0 tk r))"

lemma bounded_step_at:
  assumes "entry_at (ly_crc32 ly) c0 got r0 tk r" "bounded_step ly n r = (bs, e, r')" "harmless e"
  shows "er_crc r' = er_crc r \<and> chain_at (ly_crc32 ly) c0 (got @ tk @ bs) (er_chain r')
    \<and> length bs \<le> er_remain r \<and> er_remain r' = er_remain r - length bs \<and> (e \<noteq> None \<longrightarrow> bs = [])
    \<and> (e = None \<and> bs = [] \<and> 0 < n \<longrightarrow> er_remain r = 0)"
proof (cases "er_remain r = 0 \<or> n = 0")
  case True with assms show ?thesis by (auto simp: bounded_step_def entry_at_def)
next
  case False
  obtain bs1 e1 c1 where d: "chain_step (ly_crc32 ly) (min n (er_remain r)) (er_chain r) = (bs1, e1, c1)" by (metis surj_pair)
  have "harmless e1" using d assms(2,3) False by (cases e1) (auto simp: bounded_step_def Let_def split: if_splits)
  with chain_step_at [OF _ d, of c0 "got @ tk"] assms(1)
  have step: "chain_at (ly_crc32 ly) c0 (got @ tk @ bs1) c1" "length bs1 \<le> min n (er_remain r)" "e1 \<noteq> None \<longrightarrow> bs1 = []"
    by (simp_all add: entry_at_def)
  show ?thesis
  proof (cases e1)
    case None
    with d assms(2,3) False have "bs1 \<noteq> []" by (auto simp: bounded_step_def Let_def split: if_splits)
    with None d assms(2) False step show ?thesis by (auto simp: bounded_step_def Let_def)
  next
    case (Some x)
    with d assms(2) False step show ?thesis by (auto simp: bounded_step_def Let_def)
  qed
qed

lemma entry_step_at:
  assumes "entry_at (ly_crc32 ly) c0 got r0 tk r" "entry_step ly n r = (bs, e, r')" "clean (er_fault r')"
  shows "entry_at (ly_crc32 ly) c0 got r0 (tk @ bs) r' \<and> (e \<noteq> None \<longrightarrow> bs = [])
    \<and> (e = None \<and> bs = [] \<and> 0 < n \<longrightarrow> er_remain r = 0 \<or> (\<exists>cv. er_crc r = Some cv \<and> cv_remaining cv \<le> 0))"
proof -
  obtain bs2 e2 r2 where two: "checked_step ly n r = (bs2, e2, r2)" by (metis surj_pair)
  with assms(2,3) have eq: "bs = bs2" "e = e2" "r' = r2\<lparr>er_fault := fault_record (ly_copied ly) e2 (er_fault r2)\<rparr>"
    and h2: "harmless e2" by (auto simp: entry_step_def clean_record)
  have lift: "entry_at (ly_crc32 ly) c0 got r0 (tk @ bs2) r' = entry_at (ly_crc32 ly) c0 got r0 (tk @ bs2) r2"
    by (simp add: eq(3) entry_at_def)
  obtain bs1 e1 r1 where d: "bounded_step ly n r = (bs1, e1, r1)" by (metis surj_pair)
  have upd: "entry_at (ly_crc32 ly) c0 got r0 (tk @ bs1) (r1\<lparr>er_crc := x\<rparr>)"
    if "harmless e1" "check_at (ly_crc32 ly) (er_crc r0) (tk @ bs1) x" for x
    using bounded_step_at [OF assms(1) d that(1)] assms(1) that(2) by (auto simp: entry_at_def)
  show ?thesis
  proof (cases "er_crc r")
    case None
    with d two have same: "bs2 = bs1" "e2 = e1" "r2 = r1" by (simp_all add: checked_step_def)
    note b = bounded_step_at [OF assms(1) d]
    have "er_crc r0 = None" using assms(1) None by (auto simp: entry_at_def check_at_def split: option.splits)
    moreover have "r1\<lparr>er_crc := None\<rparr> = r1" using b h2 same None by (cases r1) simp
    ultimately show ?thesis using upd [of None] b h2 same eq lift by (simp add: check_at_def)
  next
    case (Some cv)
    then obtain cv0 where cv0: "er_crc r0 = Some cv0" "check_at (ly_crc32 ly) (Some cv0) tk (Some cv)"
      using assms(1) by (auto simp: entry_at_def check_at_def split: option.splits)
    show ?thesis
    proof (cases "cv_remaining cv \<le> 0")
      case True
      with Some two have "bs2 = []" "e2 = None" "r2 = r" by (simp_all add: checked_step_def)
      with lift assms(1) eq True Some show ?thesis by simp
    next
      case False
      show ?thesis
      proof (cases e1)
        case (Some x)
        with d two False \<open>er_crc r = Some cv\<close> have same: "bs2 = bs1" "e2 = e1" "r2 = r1" by (simp_all add: checked_step_def)
        note b = bounded_step_at [OF assms(1) d]
        have "bs1 = []" using b h2 same Some by simp
        moreover have "r1\<lparr>er_crc := er_crc r\<rparr> = r1" using b h2 same by (cases r1) simp
        ultimately show ?thesis using upd [of "er_crc r"] h2 same eq lift Some assms(1) by (simp add: entry_at_def)
      next
        case None
        obtain e3 cv3 where a: "crc_after (ly_crc32 ly) bs1 cv = (e3, cv3)" by fastforce
        with d two False Some None have same: "bs2 = bs1" "e2 = e3" "r2 = r1\<lparr>er_crc := Some cv3\<rparr>" by (simp_all add: checked_step_def)
        have "0 < cv_remaining cv" using False by simp
        note after = crc_after_at [OF cv0(2) this a]
        with h2 same have "e3 = None" by auto
        with after upd [of "Some cv3"] None same cv0(1) eq lift bounded_step_at [OF assms(1) d] show ?thesis by simp
      qed
    qed
  qed
qed

lemma entry_step_clean:
  assumes "entry_step ly n r = (bs, e, r')" "clean (er_fault r')"
  shows "clean (er_fault r)"
proof -
  obtain bs1 e1 r1 where d: "bounded_step ly n r = (bs1, e1, r1)" by (metis surj_pair)
  have "clean (er_fault r1) \<Longrightarrow> clean (er_fault r)"
    using d by (auto simp: bounded_step_def Let_def clean_record split: if_splits prod.splits option.splits)
  with assms d show ?thesis
    by (auto simp: entry_step_def checked_step_def clean_record split: option.splits if_splits prod.splits)
qed

text \<open>Nothing a callback does with its reader changes that.\<close>

lemma entry_step_sound:
  "entry_sound (ly_crc32 ly) c0 got r0 r \<Longrightarrow> entry_step ly n r = (bs, e, r') \<Longrightarrow> entry_sound (ly_crc32 ly) c0 got r0 r'"
  unfolding entry_sound_def using entry_step_clean entry_step_at by blast

lemma copy_rest_sound:
  "entry_sound (ly_crc32 ly) c0 got r0 r \<Longrightarrow> copy_rest ly feed n pieces r = (x, ps, r') \<Longrightarrow> entry_sound (ly_crc32 ly) c0 got r0 r'"
proof (induction ly feed n pieces r rule: copy_rest.induct)
  case (1 ly feed n pieces r)
  obtain bs e r1 where s: "entry_step ly COPY_REST_BYTES r = (bs, e, r1)" by (metis surj_pair)
  obtain e2 pieces2 where w: "sink_write feed bs pieces = (e2, pieces2)" by fastforce
  note sound = entry_step_sound [OF 1(3) s]
  show ?case
  proof (cases e)
    case (Some y)
    with sound 1(4) s 1(2) [OF s [symmetric] refl Some] show ?thesis
      by (auto simp: copy_rest.simps [of ly feed n pieces r] split: if_splits)
  next
    case None
    show ?thesis
    proof (cases "bs = [] \<or> e2 \<noteq> None")
      case True with sound 1(4) s None w show ?thesis
        by (auto simp: copy_rest.simps [of ly feed n pieces r] split: if_splits option.splits)
    next
      case False
      with sound 1(4) s None w 1(1) [OF s [symmetric] refl None _ w [symmetric]] show ?thesis
        by (auto simp: copy_rest.simps [of ly feed n pieces r])
    qed
  qed
qed

lemma push_rest_sound:
  "entry_sound (ly_crc32 ly) c0 got r0 r \<Longrightarrow> push_rest ly feed n pieces r = (x, ps, r') \<Longrightarrow> entry_sound (ly_crc32 ly) c0 got r0 r'"
proof (induction ly feed n pieces r rule: push_rest.induct)
  case (1 ly feed n pieces r)
  obtain bs e r1 where s: "entry_step ly PUSH_STEP_BYTES r = (bs, e, r1)" by (metis surj_pair)
  obtain e2 pieces2 where w: "sink_write feed bs pieces = (e2, pieces2)" by fastforce
  note sound = entry_step_sound [OF 1(2) s]
  show ?case
  proof (cases "e2 \<noteq> None \<or> e \<noteq> None \<or> bs = []")
    case True with sound 1(3) s w show ?thesis
      by (auto simp: push_rest.simps [of ly feed n pieces r] split: option.splits if_splits)
  next
    case False
    then have n: "e2 = None" "e = None" "bs \<noteq> []" by simp_all
    with 1(1) [OF s [symmetric] refl w [symmetric]] sound 1(3) s w show ?thesis
      by (auto simp: push_rest.simps [of ly feed n pieces r])
  qed
qed

lemma write_rest_sound:
  "entry_sound (ly_crc32 ly) c0 got r0 r \<Longrightarrow> write_rest ly feed r = (x, ps, r') \<Longrightarrow> entry_sound (ly_crc32 ly) c0 got r0 r'"
  by (auto simp: write_rest_def split: if_splits dest: copy_rest_sound push_rest_sound)

lemma run_visit_sound:
  "entry_sound (ly_crc32 ly) c0 got r0 r \<Longrightarrow> run_visit ly v r = (x, u, r') \<Longrightarrow> entry_sound (ly_crc32 ly) c0 got r0 r'"
proof (induction v arbitrary: r)
  case (Take n k)
  obtain bs e r1 where s: "entry_step ly n r = (bs, e, r1)" by (metis surj_pair)
  from entry_step_sound [OF Take.prems(1) s] Take s show ?case
    by (cases e) (auto simp: entry_read_def)
next
  case (Rest feed k)
  obtain y ps r1 where w: "write_rest ly feed r = (y, ps, r1)" by (metis surj_pair)
  from write_rest_sound [OF Rest.prems(1) w] Rest w show ?case by auto
qed simp

lemma visit_entry_sound:
  assumes "chain_at (we_crc32 env) c0 got (wk_chain w)" "0 < ae_size (ar_files (wp_archive p) ! i)"
    and "visit_entry env p v i w = (x, u, r)"
  shows "entry_sound (we_crc32 env) c0 got (entry_reader_for env p (ar_files (wp_archive p) ! i) w) r"
proof -
  let ?r0 = "entry_reader_for env p (ar_files (wp_archive p) ! i) w"
  let ?ly = "walk_layers env p"
  have crc: "ly_crc32 ?ly = we_crc32 env" by (simp add: walk_layers_def)
  have "0 < unat (ae_size (ar_files (wp_archive p) ! i))" using assms(2) by (simp add: word_less_nat_alt)
  moreover have "0 < uint (ae_size (ar_files (wp_archive p) ! i))" using assms(2) by (simp add: word_less_def)
  ultimately have "fresh_check (er_crc ?r0)" by (auto simp: fresh_check_def entry_reader_for_def crc_check_new_def)
  then have "entry_at (we_crc32 env) c0 got ?r0 [] ?r0"
    using assms(1) check_at_start by (simp add: entry_at_def) (simp add: entry_reader_for_def)
  then have start: "entry_sound (ly_crc32 ?ly) c0 got ?r0 ?r0" unfolding entry_sound_def crc by blast
  obtain y u1 r1 where run: "run_visit ?ly v ?r0 = (y, u1, r1)" by (metis surj_pair)
  note one = run_visit_sound [OF start run]
  obtain b where b: "b = (case wp_last_sized p of None \<Rightarrow> False | Some l \<Rightarrow> i < l)" by simp
  obtain y2 r2 where dr: "drain_unread ?ly y b r1 = (y2, r2)" by fastforce
  have "entry_sound (ly_crc32 ?ly) c0 got ?r0 r2"
    using dr one write_rest_sound [OF one] by (auto simp: drain_unread_def split: if_splits prod.splits sum.splits)
  with assms(3) run dr show ?thesis unfolding crc by (simp add: visit_entry_def Let_def b [symmetric])
qed

section \<open>The end of the stream\<close>

lemma block_read_at:
  assumes "chain_at (ly_crc32 ly) c0 got (fst cf)" "block_read ly n cf = (x, cf')" "\<forall>e. x = Inl e \<longrightarrow> interrupted e"
  shows "clean (snd cf') = clean (snd cf) \<and> (case x of
      Inl e \<Rightarrow> chain_at (ly_crc32 ly) c0 got (fst cf')
    | Inr bs \<Rightarrow> length bs \<le> n \<and> chain_at (ly_crc32 ly) c0 (got @ bs) (fst cf')
        \<and> (bs = [] \<and> 0 < n \<longrightarrow> (\<exists>cv. ch_crc (fst cf) = Some cv \<and> cv_remaining cv \<le> 0) \<or> flow (ch_source (fst cf)) = ([], None)))"
proof -
  obtain bs e c where s: "chain_step (ly_crc32 ly) n (fst cf) = (bs, e, c)" by (metis surj_pair)
  with assms(2,3) have h: "harmless e" by (cases e) (auto simp: block_read_def)
  from chain_step_at [OF assms(1) s h] assms(2) s h show ?thesis
    by (cases e) (auto simp: block_read_def clean_record)
qed

text \<open>What a probe that found nothing says, unless the block's own check keeps it from the decoder.\<close>

lemma probe_end_at:
  "chain_at (ly_crc32 ly) c0 got (fst cf) \<Longrightarrow> probe_end ly cf = (Inr u, cf')
   \<Longrightarrow> clean (snd cf') = clean (snd cf) \<and> chain_at (ly_crc32 ly) c0 got (fst cf')
     \<and> (ch_crc c0 = None \<longrightarrow> flow (ch_source c0) = (got, None))"
proof (induction ly cf rule: probe_end.induct)
  case (1 ly cf)
  obtain x cf1 where b: "block_read ly 1 cf = (x, cf1)" by (metis surj_pair)
  have none: "ch_crc c0 = None \<Longrightarrow> ch_crc (fst cf) = None"
    using 1(2) by (auto simp: chain_at_def check_at_def split: option.splits)
  have int: "\<forall>e. x = Inl e \<longrightarrow> interrupted e"
    using 1(3) b by (auto simp: probe_end.simps [of ly cf] split: if_splits)
  note read = block_read_at [OF 1(2) b int]
  show ?case
  proof (cases x)
    case (Inl e)
    with 1(3) b int have run: "probe_end ly cf1 = (Inr u, cf')" by (simp add: probe_end.simps [of ly cf])
    from 1(1) [OF b [symmetric] Inl _ _ run] read Inl int show ?thesis by simp
  next
    case (Inr bs)
    with 1(3) b have "bs = []" "cf' = cf1" by (auto simp: probe_end.simps [of ly cf] split: if_splits)
    with read 1(2) Inr none show ?thesis by (auto simp: chain_at_def)
  qed
qed

lemma reach_end_at:
  assumes "chain_at (we_crc32 env) c0 got (wk_chain w)" "reach_end env p 0 w = (Inr u, w')"
  shows "clean (wk_fault w') = clean (wk_fault w) \<and> chain_at (we_crc32 env) c0 got (wk_chain w')
    \<and> (ch_crc c0 = None \<longrightarrow> flow (ch_source c0) = (got, None))
    \<and> w' = w\<lparr>wk_chain := wk_chain w', wk_fault := wk_fault w'\<rparr>"
proof -
  let ?ly = "walk_layers env p"
  obtain x c f where r: "probe_end ?ly (wk_chain w, wk_fault w) = (x, c, f)" by (metis surj_pair)
  have "read_to_stream_end ?ly 0 (wk_chain w, wk_fault w) = (x, c, f)"
    by (simp add: read_to_stream_end_def skip_left.simps r)
  with assms(2) have x: "x = Inr ()" and w': "w' = w\<lparr>wk_chain := c, wk_fault := f\<rparr>"
    by (auto simp: reach_end_def split: sum.splits)
  from probe_end_at [OF _ r [unfolded x], of c0 got] assms(1) show ?thesis
    by (simp add: w' walk_layers_def)
qed

section \<open>The walk\<close>

text \<open>
  The files with bytes that have been visited, each with what was taken of it: where each begins, what
  is known of its checksum, what has been reported and what is owed.
\<close>

type_synonym visited = "(nat \<times> byte list) list"

abbreviation wp_file :: "walk_place \<Rightarrow> nat \<Rightarrow> archive_entry" where
  "wp_file p i \<equiv> ar_files (wp_archive p) ! i"

definition slice :: "nat \<Rightarrow> nat \<Rightarrow> 'a list \<Rightarrow> 'a list" where
  "slice off n xs = take n (drop off xs)"

definition taken_before :: "walk_place \<Rightarrow> visited \<Rightarrow> nat \<Rightarrow> nat" where
  "taken_before p ds k = (\<Sum>d\<leftarrow>take k ds. unat (ae_size (wp_file p (fst d))))"

definition folds_truly :: "walk_env \<Rightarrow> decode_stack \<Rightarrow> bool" where
  "folds_truly env stack \<longleftrightarrow> (\<forall>s off len c. ds_folded stack s off len = Some c
     \<longrightarrow> c = we_crc32 env (slice (unat off) (unat len) (fst (flow (ds_source stack)))))"

definition file_slice :: "walk_place \<Rightarrow> visited \<Rightarrow> nat \<Rightarrow> byte list" where
  "file_slice p ds k = slice (taken_before p ds k) (unat (ae_size (wp_file p (fst (ds ! k))))) (fst (flow (ds_source (wp_stack p))))"

definition owes :: "walk_place \<Rightarrow> visited \<Rightarrow> nat \<Rightarrow> owed_completion \<Rightarrow> bool" where
  "owes p ds k oc \<longleftrightarrow> k < length ds \<and> oc_file oc = fst (ds ! k) \<and> unat (oc_offset oc) = taken_before p ds k
     \<and> oc_len oc = ae_size (wp_file p (fst (ds ! k)))"

definition tells :: "walk_env \<Rightarrow> walk_place \<Rightarrow> visited \<Rightarrow> completion \<Rightarrow> bool" where
  "tells env p ds cp \<longleftrightarrow> (\<exists>k < length ds. cp_block cp = wp_block_index p \<and> cp_file cp = fst (ds ! k)
     \<and> unat (cp_offset cp) = taken_before p ds k \<and> cp_len cp = ae_size (wp_file p (fst (ds ! k)))
     \<and> cp_crc cp = we_crc32 env (if ds_folding (wp_stack p) then file_slice p ds k else snd (ds ! k)))"

definition verified :: "walk_env \<Rightarrow> walk_place \<Rightarrow> visited \<Rightarrow> owed_completion list \<Rightarrow> nat \<Rightarrow> bool" where
  "verified env p ds queue k \<longleftrightarrow> (let file = wp_file p (fst (ds ! k)) in
     ae_has_crc file \<and> length (snd (ds ! k)) = unat (ae_size file) \<longrightarrow>
       (if ds_folding (wp_stack p)
        then ucast (we_crc32 env (file_slice p ds k)) = ae_crc file \<or> (\<exists>oc \<in> set queue. owes p ds k oc)
        else ucast (we_crc32 env (snd (ds ! k))) = ae_crc file))"

definition books :: "walk_env \<Rightarrow> walk_place \<Rightarrow> visited \<Rightarrow> 'u walk \<Rightarrow> bool" where
  "books env p ds w \<longleftrightarrow>
     (\<forall>d \<in> set ds. sized (wp_file p (fst d)) \<and> length (snd d) \<le> unat (ae_size (wp_file p (fst d))))
   \<and> (\<forall>k < length ds. verified env p ds (wk_queue w) k)
   \<and> (\<forall>oc \<in> set (wk_queue w). \<exists>k. owes p ds k oc)
   \<and> (\<forall>cp \<in> set (wk_events w). tells env p ds cp)
   \<and> (wk_queue w \<noteq> [] \<longrightarrow> ds_folding (wp_stack p))"

definition walk_at :: "walk_env \<Rightarrow> walk_place \<Rightarrow> chain \<Rightarrow> visited \<Rightarrow> 'u walk \<Rightarrow> bool" where
  "walk_at env p c0 ds w \<longleftrightarrow>
     chain_at (we_crc32 env) c0 (concat (map snd ds)) (wk_chain w)
   \<and> unat (wk_consumed w) = length (concat (map snd ds))
   \<and> unat (wk_offset w) = taken_before p ds (length ds) \<and> books env p ds w"

lemma folded_slice:
  assumes "folds_truly env (wp_stack p)" "owes p ds k oc" "ds_folded (wp_stack p) s (oc_offset oc) (oc_len oc) = Some c"
  shows "c = we_crc32 env (file_slice p ds k)"
  using assms(1) [unfolded folds_truly_def, rule_format, OF assms(3)] assms(2) by (simp add: owes_def file_slice_def)

text \<open>Settling: what leaves the queue has been compared and told.\<close>

lemma settle_loop_at:
  assumes "folds_truly env (wp_stack p)" "ds_folding (wp_stack p)"
  shows "settle_loop env p s at_end queue events = (None, queue', events')
    \<Longrightarrow> \<forall>oc \<in> set queue. \<exists>k. owes p ds k oc \<Longrightarrow> \<forall>cp \<in> set events. tells env p ds cp
    \<Longrightarrow> set queue' \<subseteq> set queue \<and> (at_end \<longrightarrow> queue' = []) \<and> (\<forall>cp \<in> set events'. tells env p ds cp)
      \<and> (\<forall>k oc. oc \<in> set queue \<longrightarrow> oc \<notin> set queue' \<longrightarrow> owes p ds k oc \<longrightarrow> ae_has_crc (wp_file p (fst (ds ! k)))
           \<longrightarrow> ucast (we_crc32 env (file_slice p ds k)) = ae_crc (wp_file p (fst (ds ! k))))"
proof (induction queue arbitrary: events)
  case (Cons oc queue)
  show ?case
  proof (cases "ds_folded (wp_stack p) s (oc_offset oc) (oc_len oc)")
    case None
    show ?thesis
    proof (cases at_end)
      case False with None Cons.prems show ?thesis by (auto simp: Let_def)
    next
      case True
      with None Cons.prems(1) have bare: "\<not> ae_has_crc (wp_file p (oc_file oc))"
          and run: "settle_loop env p s at_end queue events = (None, queue', events')"
        by (auto simp: Let_def split: if_splits)
      have none: "\<not> ae_has_crc (wp_file p (fst (ds ! k)))" if "owes p ds k oc" for k
        using bare that by (simp add: owes_def)
      have prem: "\<forall>oc \<in> set queue. \<exists>k. owes p ds k oc" using Cons.prems(2) by simp
      from Cons.IH [OF run prem Cons.prems(3)] none show ?thesis
        by (elim conjE, intro conjI) (force, blast, blast, metis set_ConsD)
    qed
  next
    case (Some c)
    have pass: "ae_has_crc (wp_file p (oc_file oc)) \<Longrightarrow> ucast c = ae_crc (wp_file p (oc_file oc))"
        and run: "settle_loop env p s at_end queue (events @ [completion_of p oc c]) = (None, queue', events')"
      using Cons.prems(1) Some by (auto simp: Let_def split: if_splits)
    obtain k where k: "owes p ds k oc" using Cons.prems(2) by auto
    note c = folded_slice [OF assms(1) _ Some]
    have "tells env p ds (completion_of p oc c)"
      unfolding tells_def using k c [OF k] assms(2)
      by (intro exI [of _ k]) (auto simp: completion_of_def owes_def)
    with Cons.IH [OF run] Cons.prems(2,3)
    have IH: "set queue' \<subseteq> set queue \<and> (at_end \<longrightarrow> queue' = []) \<and> (\<forall>cp \<in> set events'. tells env p ds cp)
      \<and> (\<forall>k oc. oc \<in> set queue \<longrightarrow> oc \<notin> set queue' \<longrightarrow> owes p ds k oc \<longrightarrow> ae_has_crc (wp_file p (fst (ds ! k)))
           \<longrightarrow> ucast (we_crc32 env (file_slice p ds k)) = ae_crc (wp_file p (fst (ds ! k))))" by simp
    have "ucast (we_crc32 env (file_slice p ds j)) = ae_crc (wp_file p (fst (ds ! j)))"
      if "owes p ds j oc" "ae_has_crc (wp_file p (fst (ds ! j)))" for j
      using pass c [OF that(1)] that by (simp add: owes_def)
    with IH show ?thesis
      by (elim conjE, intro conjI) (force, blast, blast, metis set_ConsD)
  qed
qed auto

lemma settle_books:
  assumes "folds_truly env (wp_stack p)" "ds_folding (wp_stack p)" "books env p ds w" "settle env p at_end w = (Inr u, w')"
  shows "books env p ds w' \<and> (at_end \<longrightarrow> wk_queue w' = [])
    \<and> w' = w\<lparr>wk_queue := wk_queue w', wk_events := wk_events w'\<rparr>"
proof -
  obtain e q ev where s: "settle_loop env p (ch_source (wk_chain w)) at_end (wk_queue w) (wk_events w) = (e, q, ev)"
    by (metis surj_pair)
  with assms(4) have e: "e = None" and w': "w' = w\<lparr>wk_queue := q, wk_events := ev\<rparr>"
    by (auto simp: settle_def split: option.splits)
  note at = assms(3) [unfolded books_def]
  note loop = settle_loop_at [OF assms(1,2) s [unfolded e], of ds]
  have v: "verified env p ds q k" if "verified env p ds (wk_queue w) k" "k < length ds" for k
  proof -
    have "ucast (we_crc32 env (file_slice p ds k)) = ae_crc (wp_file p (fst (ds ! k))) \<or> (\<exists>oc \<in> set q. owes p ds k oc)"
      if "oc \<in> set (wk_queue w)" "owes p ds k oc" "ae_has_crc (wp_file p (fst (ds ! k)))" for oc
      using loop at that by blast
    with that(1) assms(2) show ?thesis by (auto simp: verified_def Let_def)
  qed
  from at loop v assms(2) show ?thesis by (simp add: w' books_def) blast
qed

text \<open>One more file.\<close>

lemma taken_before_snoc [simp]: "k \<le> length ds \<Longrightarrow> taken_before p (ds @ [d]) k = taken_before p ds k"
  by (simp add: taken_before_def)

lemma taken_before_all: "taken_before p (ds @ [d]) (Suc (length ds)) = taken_before p ds (length ds) + unat (ae_size (wp_file p (fst d)))"
  by (simp add: taken_before_def)

lemma snoc_keeps:
  assumes "k < length ds"
  shows "(ds @ [d]) ! k = ds ! k" "file_slice p (ds @ [d]) k = file_slice p ds k"
    "owes p (ds @ [d]) k oc = owes p ds k oc"
  using assms by (simp_all add: nth_append file_slice_def owes_def)

lemma tells_snoc: "tells env p ds cp \<Longrightarrow> tells env p (ds @ [d]) cp"
  unfolding tells_def
proof (elim exE conjE, goal_cases)
  case (1 k)
  with snoc_keeps [where k = k and ds = ds and d = d] show ?case by (intro exI [of _ k]) simp
qed

lemma books_snoc:
  assumes "books env p ds w" "sized (wp_file p i)" "length tk \<le> unat (ae_size (wp_file p i))"
    "verified env p (ds @ [(i, tk)]) (wk_queue w) (length ds)"
  shows "books env p (ds @ [(i, tk)]) w"
proof -
  note b = assms(1) [unfolded books_def]
  have "verified env p (ds @ [(i, tk)]) (wk_queue w) k" if "k < Suc (length ds)" for k
    using b assms(4) that snoc_keeps [where k = k and ds = ds and d = "(i, tk)"]
    by (cases "k = length ds") (auto simp: verified_def Let_def)
  moreover have "\<exists>k. owes p (ds @ [(i, tk)]) k oc" if "oc \<in> set (wk_queue w)" for oc
    using b that snoc_keeps(3) owes_def by metis
  moreover have "tells env p (ds @ [(i, tk)]) cp" if "cp \<in> set (wk_events w)" for cp
    using b that tells_snoc by blast
  ultimately show ?thesis using b assms(2,3) unfolding books_def by simp
qed

lemma books_report:
  assumes "books env p ds w" "tells env p ds cp"
  shows "books env p ds (w\<lparr>wk_events := wk_events w @ [cp]\<rparr>)"
  using assms by (auto simp: books_def)

lemma books_only [simp]:
  "books env p ds (w\<lparr>wk_consumed := a\<rparr>) = books env p ds w" "books env p ds (w\<lparr>wk_chain := c\<rparr>) = books env p ds w"
  "books env p ds (w\<lparr>wk_offset := a\<rparr>) = books env p ds w" "books env p ds (w\<lparr>wk_sub_stream := n\<rparr>) = books env p ds w"
  "books env p ds (w\<lparr>wk_fault := f\<rparr>) = books env p ds w" "books env p ds (w\<lparr>wk_user := u\<rparr>) = books env p ds w"
  "books env p ds (w\<lparr>wk_ended := b\<rparr>) = books env p ds w"
  by (simp_all add: books_def)

text \<open>A folded checksum, or the debt of one.\<close>

lemma fold_file_books:
  assumes "folds_truly env (wp_stack p)" "ds_folding (wp_stack p)" "books env p ds w" "sized (wp_file p i)"
    and "length tk \<le> unat (ae_size (wp_file p i))" "unat (wk_offset w) = taken_before p ds (length ds)"
    and "fold_file env p i (length tk = unat (ae_size (wp_file p i))) w = (Inr report, w')"
  shows "books env p (ds @ [(i, tk)]) w' \<and> w' = w\<lparr>wk_queue := wk_queue w'\<rparr>
    \<and> (\<forall>c. report = Some c \<longrightarrow> c = we_crc32 env (file_slice p (ds @ [(i, tk)]) (length ds)))"
proof -
  let ?ds = "ds @ [(i, tk)]"
  define check where "check = ds_folded (wp_stack p) (ch_source (wk_chain w)) (wk_offset w) (ae_size (wp_file p i))"
  have slice: "c = we_crc32 env (file_slice p ?ds (length ds))" if "check = Some c" for c
    using assms(1) [unfolded folds_truly_def, rule_format, OF that [unfolded check_def]] assms(6)
    by (simp add: file_slice_def)
  define oc where "oc = \<lparr>oc_file = i, oc_sub_stream = wp_first_sub_stream p + wk_sub_stream w,
              oc_offset = wk_offset w, oc_len = ae_size (wp_file p i)\<rparr>"
  have oc: "owes p ?ds (length ds) oc" using assms(6) by (simp add: owes_def oc_def)
  consider (compared) c where "check = Some c" "report = Some c" "w' = w"
      "ae_has_crc (wp_file p i) \<longrightarrow> ucast c = ae_crc (wp_file p i)"
    | (owed) "report = None" "w' = w\<lparr>wk_queue := wk_queue w @ [oc]\<rparr>"
    | (plain) "report = None" "w' = w" "\<not> (length tk = unat (ae_size (wp_file p i)) \<and> ae_has_crc (wp_file p i))"
    using assms(7) unfolding fold_file_def Let_def check_def [symmetric] oc_def [symmetric]
    by (cases check) (auto split: if_splits)
  then show ?thesis
  proof cases
    case compared
    have "verified env p ?ds (wk_queue w) (length ds)"
      using compared(4) slice [OF compared(1)] assms(2) by (simp add: verified_def Let_def)
    with books_snoc [OF assms(3-5)] slice [OF compared(1)] compared show ?thesis by simp
  next
    case owed
    have more: "verified env p ?ds (wk_queue w') k" if "k < Suc (length ds)" for k
    proof (cases "k = length ds")
      case True with oc owed assms(2) show ?thesis by (auto simp: verified_def Let_def)
    next
      case False
      with that have "k < length ds" by simp
      with assms(2,3) owed snoc_keeps [where k = k and ds = ds and d = "(i, tk)"] show ?thesis
        by (auto simp: verified_def Let_def books_def)
    qed
    have told: "tells env p ?ds cp" if "cp \<in> set (wk_events w)" for cp
      using assms(3) that tells_snoc unfolding books_def by blast
    have debts: "\<exists>k. owes p ?ds k x" if "x \<in> set (wk_queue w)" for x
      using assms(3) that snoc_keeps(3) unfolding books_def owes_def by metis
    show ?thesis using assms(2-5) owed more told debts oc by (auto simp: books_def)
  next
    case plain
    have "verified env p ?ds (wk_queue w) (length ds)" using plain(3) by (auto simp: verified_def Let_def)
    with books_snoc [OF assms(3-5)] plain show ?thesis by simp
  qed
qed

text \<open>The read that found the end found it after the declared size.\<close>

definition ends_there :: "walk_place \<Rightarrow> chain \<Rightarrow> bool" where
  "ends_there p c0 \<longleftrightarrow> (ch_crc c0 = None \<longrightarrow> (\<exists>bs. flow (ch_source c0) = (bs, None) \<and> length bs = unat (wp_unpack_size p)))"

lemma add_u64_Inr: "add_u64 a b = Inr c \<Longrightarrow> c = a + b \<and> unat c = unat a + unat b"
  by (auto simp: add_u64_def unat_word_ariths split: if_splits)

lemma close_file_at:
  fixes w :: "'u walk" and ds :: visited and i :: nat and tk :: "byte list"
  defines "ds' \<equiv> ds @ [(i, tk)]"
  assumes fold: "ds_folding (wp_stack p) \<Longrightarrow> folds_truly env (wp_stack p)"
    and chain: "chain_at (we_crc32 env) c0 (concat (map snd ds')) (wk_chain w)"
    and counts: "unat (wk_consumed w) = length (concat (map snd ds))" "unat (wk_offset w) = taken_before p ds (length ds)"
    and books: "books env p ds w" and sz: "sized (wp_file p i)" "length tk \<le> unat (ae_size (wp_file p i))"
    and plain: "\<not> ds_folding (wp_stack p) \<Longrightarrow> verified env p ds' (wk_queue w) (length ds)"
      "\<not> ds_folding (wp_stack p) \<Longrightarrow> \<forall>c. report = Some c \<longrightarrow> c = we_crc32 env tk"
    and ended: "wk_ended w \<longrightarrow> ends_there p c0"
    and run: "close_file env p i report (length tk) w = (Inr u, w')"
  shows "walk_at env p c0 ds' w' \<and> clean (wk_fault w') = clean (wk_fault w) \<and> (wk_ended w' \<longrightarrow> ends_there p c0)"
proof -
  have tk: "unat (of_nat (length tk) :: u64) = length tk"
    using sz(2) unsigned_less [of "ae_size (wp_file p i)", where 'a = nat] by (simp add: unsigned_of_nat take_bit_nat_eq_self)
  obtain consumed report' w1 offset where
      con: "add_u64 (wk_consumed w) (of_nat (length tk)) = Inr consumed"
    and one: "(if ds_folding (wp_stack p)
         then and_then (settle env p False (w\<lparr>wk_consumed := consumed\<rparr>)) (\<lambda>_ w. fold_file env p i (length tk = unat (ae_size (wp_file p i))) w)
         else (Inr report, w\<lparr>wk_consumed := consumed\<rparr>)) = (Inr report', w1)"
    and off: "add_u64 (wk_offset (report_file p i report' w1)) (ae_size (wp_file p i)) = Inr offset"
    and last: "(let w = report_file p i report' w1; w = w\<lparr>wk_offset := offset, wk_sub_stream := wk_sub_stream w + 1\<rparr> in
      if wk_queue w \<noteq> [] \<and> wk_consumed w = wp_unpack_size p
      then and_then (reach_end env p 0 w) (\<lambda>_ w. settle env p True (w\<lparr>wk_ended := True\<rparr>))
      else (Inr (), w)) = (Inr u, w')"
    using run unfolding close_file_def Let_def by (auto simp: and_then_Inr)
  have same: "books env p ds' w1 \<and> (\<exists>q ev. w1 = w\<lparr>wk_consumed := consumed, wk_queue := q, wk_events := ev\<rparr>)
      \<and> (\<forall>c. report' = Some c \<longrightarrow> c = we_crc32 env (if ds_folding (wp_stack p) then file_slice p ds' (length ds) else tk))"
  proof (cases "ds_folding (wp_stack p)")
    case True
    then obtain v w0 where s: "settle env p False (w\<lparr>wk_consumed := consumed\<rparr>) = (Inr v, w0)"
        and f: "fold_file env p i (length tk = unat (ae_size (wp_file p i))) w0 = (Inr report', w1)"
      using one by (auto simp: and_then_Inr)
    have "books env p ds (w\<lparr>wk_consumed := consumed\<rparr>)" using books by simp
    from settle_books [OF fold [OF True] True this s]
    obtain q0 ev where w0: "books env p ds w0" "w0 = w\<lparr>wk_consumed := consumed, wk_queue := q0, wk_events := ev\<rparr>" by blast
    have "unat (wk_offset w0) = taken_before p ds (length ds)" by (simp add: w0(2) counts(2))
    from fold_file_books [OF fold [OF True] True w0(1) sz this f]
    obtain q1 where w1: "books env p ds' w1" "w1 = w0\<lparr>wk_queue := q1\<rparr>"
        "\<forall>c. report' = Some c \<longrightarrow> c = we_crc32 env (file_slice p ds' (length ds))"
      unfolding ds'_def by blast
    have "w1 = w\<lparr>wk_consumed := consumed, wk_queue := q1, wk_events := ev\<rparr>" by (simp add: w1(2) w0(2))
    with w1(1,3) True show ?thesis by auto
  next
    case False
    with one have "report' = report" "w1 = w\<lparr>wk_consumed := consumed\<rparr>" by simp_all
    moreover have "\<exists>q ev. w\<lparr>wk_consumed := consumed\<rparr> = w\<lparr>wk_consumed := consumed, wk_queue := q, wk_events := ev\<rparr>"
      by (rule exI [of _ "wk_queue w"], rule exI [of _ "wk_events w"]) simp
    ultimately show ?thesis using False books_snoc [OF books sz] plain by (simp add: ds'_def)
  qed
  define w2 where "w2 = report_file p i report' w1"
  define w3 where "w3 = w2\<lparr>wk_offset := offset, wk_sub_stream := wk_sub_stream w2 + 1\<rparr>"
  have w1: "wk_chain w1 = wk_chain w" "wk_consumed w1 = consumed" "wk_offset w1 = wk_offset w" "wk_fault w1 = wk_fault w"
      "wk_ended w1 = wk_ended w"
    using same by auto
  have w2: "wk_chain w2 = wk_chain w" "wk_consumed w2 = consumed" "wk_offset w2 = wk_offset w" "wk_fault w2 = wk_fault w"
      "wk_ended w2 = wk_ended w" "books env p ds' w2"
  proof -
    have "tells env p ds' \<lparr>cp_block = wp_block_index p, cp_sub_stream = wp_first_sub_stream p + wk_sub_stream w1, cp_file = i,
        cp_offset = wk_offset w1, cp_len = ae_size (wp_file p i), cp_crc = c\<rparr>" if "report' = Some c" for c
      unfolding tells_def using same that counts(2) w1(3)
      by (intro exI [of _ "length ds"]) (auto simp: ds'_def)
    moreover have "books env p ds' w1" using same by simp
    ultimately show "books env p ds' w2"
      by (cases report') (simp_all add: w2_def report_file_def books_report)
  qed (auto simp: w2_def report_file_def w1 split: option.split)
  have sums: "unat consumed = length (concat (map snd ds'))" "unat offset = taken_before p ds' (length ds')"
    using conjunct2 [OF add_u64_Inr [OF con]] conjunct2 [OF add_u64_Inr [OF off]] w2(3) counts tk
    by (simp_all add: w2_def [symmetric] ds'_def taken_before_all)
  have at: "walk_at env p c0 ds' w3"
    unfolding walk_at_def w3_def using sums w2 chain by simp
  have w3: "wk_fault w3 = wk_fault w" "wk_ended w3 = wk_ended w" by (simp_all add: w3_def w2)
  have run3: "(if wk_queue w3 \<noteq> [] \<and> wk_consumed w3 = wp_unpack_size p
      then and_then (reach_end env p 0 w3) (\<lambda>_ w. settle env p True (w\<lparr>wk_ended := True\<rparr>))
      else (Inr (), w3)) = (Inr u, w')"
    using last unfolding Let_def w3_def w2_def .
  show ?thesis
  proof (cases "wk_queue w3 \<noteq> [] \<and> wk_consumed w3 = wp_unpack_size p")
    case False
    with run3 have "w' = w3" by auto
    with at w3 ended show ?thesis by simp
  next
    case True
    with run3 obtain v w4 where r: "reach_end env p 0 w3 = (Inr v, w4)"
        and s: "settle env p True (w4\<lparr>wk_ended := True\<rparr>) = (Inr u, w')"
      by (auto simp: and_then_Inr)
    have folding: "ds_folding (wp_stack p)" using True at by (simp add: walk_at_def books_def)
    have c3: "chain_at (we_crc32 env) c0 (concat (map snd ds')) (wk_chain w3)" using at by (simp add: walk_at_def)
    note reached = reach_end_at [OF c3 r]
    have w4: "wk_consumed w4 = wk_consumed w3" "wk_offset w4 = wk_offset w3" "books env p ds' (w4\<lparr>wk_ended := True\<rparr>)"
    proof -
      note eq = conjunct2 [OF conjunct2 [OF conjunct2 [OF reached]]]
      show "wk_consumed w4 = wk_consumed w3" "wk_offset w4 = wk_offset w3"
        using arg_cong [OF eq, of wk_consumed] arg_cong [OF eq, of wk_offset] by simp_all
      have "books env p ds' w3" using at by (simp add: walk_at_def)
      then show "books env p ds' (w4\<lparr>wk_ended := True\<rparr>)" by (subst eq) simp
    qed
    from settle_books [OF fold [OF folding] folding w4(3) s]
    have w': "books env p ds' w'" "w' = w4\<lparr>wk_ended := True, wk_queue := wk_queue w', wk_events := wk_events w'\<rparr>" by blast+
    have "ends_there p c0"
      using reached True at by (auto simp: ends_there_def walk_at_def)
    moreover have "wk_chain w' = wk_chain w4" "wk_consumed w' = wk_consumed w3" "wk_offset w' = wk_offset w3" "wk_fault w' = wk_fault w4"
      using arg_cong [OF w'(2), of wk_chain] arg_cong [OF w'(2), of wk_consumed] arg_cong [OF w'(2), of wk_offset]
        arg_cong [OF w'(2), of wk_fault] w4(1,2) by simp_all
    ultimately show ?thesis using reached at w'(1) w3(1) by (simp add: walk_at_def)
  qed
qed

lemma check_passed:
  assumes "check_at crc32 (Some (crc_check_new n expected)) got c" "n \<le> length got" "0 < n"
  shows "ucast (crc32 got) = expected"
proof -
  obtain cv where cv: "c = Some cv" using assms(1) by (cases c) (auto simp: check_at_def)
  have "\<not> 0 < cv_remaining cv"
    using assms cv by (auto simp: check_at_def crc_check_new_def)
  with assms(1) cv show ?thesis by (simp add: check_at_def crc_check_new_def)
qed

lemma check_report:
  assumes "check_at crc32 c0 got c" "c = Some cv" "cv_report cv = Some d"
  shows "d = crc32 got"
  using assms by (auto simp: check_at_def split: option.splits if_splits)

lemma sized_positive: "sized f \<Longrightarrow> 0 < unat (ae_size f)"
  by (simp add: sized_def word_less_nat_alt)

lemma judge_True: "judge env p answer w = (Inr True, w') \<Longrightarrow> clean (wk_fault w) \<and> w' = w\<lparr>wk_fault := None\<rparr>"
  by (auto simp: judge_def Let_def clean_def split: sum.splits bool.splits option.splits)

lemma walk_sized_at:
  assumes fold: "ds_folding (wp_stack p) \<Longrightarrow> folds_truly env (wp_stack p)" and verify: "we_verify env"
    and at: "walk_at env p c0 ds w" and sz: "sized (wp_file p i)" and ended: "wk_ended w \<longrightarrow> ends_there p c0"
    and run: "walk_sized env p each i w = (Inr True, w')"
  shows "\<exists>tk. walk_at env p c0 (ds @ [(i, tk)]) w' \<and> (wk_ended w' \<longrightarrow> ends_there p c0)"
proof -
  let ?f = "wp_file p i"
  let ?r0 = "entry_reader_for env p ?f w"
  obtain answer u r where v: "visit_entry env p (each ?f (wk_user w)) i w = (answer, u, r)" by (metis surj_pair)
  define w1 where "w1 = w\<lparr>wk_chain := er_chain r, wk_fault := er_fault r, wk_user := u\<rparr>"
  obtain w2 y where j: "judge env p answer w1 = (Inr True, w2)"
    and c: "close_file env p i (case er_crc r of None \<Rightarrow> None | Some cv \<Rightarrow> cv_report cv) (unat (ae_size ?f) - er_remain r) w2 = (Inr y, w')"
    using run v by (auto simp: walk_sized_def Let_def and_then_Inr w1_def)
  from judge_True [OF j] have clean: "clean (er_fault r)" and w2: "w2 = w1\<lparr>wk_fault := None\<rparr>" by (simp_all add: w1_def)
  note atd = at [unfolded walk_at_def]
  have "chain_at (we_crc32 env) c0 (concat (map snd ds)) (wk_chain w)" using atd by simp
  from visit_entry_sound [OF this _ v] sz clean
  obtain tk where tk: "entry_at (we_crc32 env) c0 (concat (map snd ds)) ?r0 tk r"
    by (auto simp: sized_def entry_sound_def)
  have r0: "er_remain ?r0 = unat (ae_size ?f)" by (simp add: entry_reader_for_def)
  with tk have len: "length tk \<le> unat (ae_size ?f)" and taken: "unat (ae_size ?f) - er_remain r = length tk"
    by (simp_all add: entry_at_def)
  have plain: "verified env p (ds @ [(i, tk)]) (wk_queue w2) (length ds)"
      "\<forall>c. (case er_crc r of None \<Rightarrow> None | Some cv \<Rightarrow> cv_report cv) = Some c \<longrightarrow> c = we_crc32 env tk"
    if "\<not> ds_folding (wp_stack p)"
  proof -
    have "ucast (we_crc32 env tk) = ae_crc ?f" if "ae_has_crc ?f" "length tk = unat (ae_size ?f)"
      using tk check_passed [where got = tk] sized_positive [OF sz] that \<open>\<not> ds_folding (wp_stack p)\<close> verify
      by (auto simp: entry_at_def entry_reader_for_def)
    then show "verified env p (ds @ [(i, tk)]) (wk_queue w2) (length ds)"
      using that by (simp add: verified_def Let_def)
    show "\<forall>c. (case er_crc r of None \<Rightarrow> None | Some cv \<Rightarrow> cv_report cv) = Some c \<longrightarrow> c = we_crc32 env tk"
      using tk check_report by (auto simp: entry_at_def split: option.splits)
  qed
  have chain: "chain_at (we_crc32 env) c0 (concat (map snd (ds @ [(i, tk)]))) (wk_chain w2)"
    using tk by (simp add: entry_at_def w2 w1_def)
  have "books env p ds w2" using atd by (simp add: w2 w1_def)
  moreover have "unat (wk_consumed w2) = length (concat (map snd ds))" "unat (wk_offset w2) = taken_before p ds (length ds)"
      "wk_ended w2 \<longrightarrow> ends_there p c0"
    using atd ended by (simp_all add: w2 w1_def)
  ultimately show ?thesis
    using close_file_at [OF fold chain _ _ _ sz len plain _ c [unfolded taken]] by blast
qed

lemma walk_unsized_at:
  "walk_at env p c0 ds w \<Longrightarrow> wk_ended w \<longrightarrow> ends_there p c0 \<Longrightarrow> walk_unsized env p each i w = (Inr True, w')
   \<Longrightarrow> walk_at env p c0 ds w' \<and> (wk_ended w' \<longrightarrow> ends_there p c0)"
  by (auto simp: walk_unsized_def Let_def walk_at_def split: if_splits prod.splits)

lemma walk_files_at:
  assumes fold: "ds_folding (wp_stack p) \<Longrightarrow> folds_truly env (wp_stack p)" and verify: "we_verify env"
  shows "walk_at env p c0 ds w \<Longrightarrow> wk_ended w \<longrightarrow> ends_there p c0 \<Longrightarrow> walk_files env p each is w = (Inr True, w')
    \<Longrightarrow> \<exists>ds'. map fst ds' = map fst ds @ filter (\<lambda>i. sized (wp_file p i)) is \<and> walk_at env p c0 ds' w'
      \<and> (wk_ended w' \<longrightarrow> ends_there p c0)"
proof (induction "is" arbitrary: ds w)
  case (Cons i "is")
  show ?case
  proof (cases "sized (wp_file p i)")
    case True
    with Cons.prems(3) obtain w1 where one: "walk_sized env p each i w = (Inr True, w1)"
        and rest: "walk_files env p each is w1 = (Inr True, w')"
      by (auto simp: and_then_Inr split: if_splits)
    from walk_sized_at [OF fold verify Cons.prems(1) True Cons.prems(2) one] obtain tk where
      "walk_at env p c0 (ds @ [(i, tk)]) w1" "wk_ended w1 \<longrightarrow> ends_there p c0" by blast
    from Cons.IH [OF this rest] True show ?thesis by simp
  next
    case False
    with Cons.prems(3) obtain w1 where one: "walk_unsized env p each i w = (Inr True, w1)"
        and rest: "walk_files env p each is w1 = (Inr True, w')"
      by (auto simp: and_then_Inr split: if_splits)
    from walk_unsized_at [OF Cons.prems(1,2) one] have "walk_at env p c0 ds w1" "wk_ended w1 \<longrightarrow> ends_there p c0" by simp_all
    from Cons.IH [OF this rest] False show ?thesis by simp
  qed
qed auto


section \<open>The end of the block\<close>

lemma walk_at_only [simp]:
  "walk_at env p c0 ds (w\<lparr>wk_ended := b\<rparr>) = walk_at env p c0 ds w"
  by (simp add: walk_at_def)

lemma reach_end_walk:
  assumes "walk_at env p c0 ds w" "reach_end env p 0 w = (Inr u, w')"
  shows "walk_at env p c0 ds w'" "wk_queue w' = wk_queue w" "wk_consumed w' = wk_consumed w" "wk_ended w' = wk_ended w"
    "wk_consumed w = wp_unpack_size p \<Longrightarrow> ends_there p c0"
proof -
  have at: "chain_at (we_crc32 env) c0 (concat (map snd ds)) (wk_chain w)" "books env p ds w"
    using assms(1) by (simp_all add: walk_at_def)
  note reached = reach_end_at [OF at(1) assms(2)]
  note eq = conjunct2 [OF conjunct2 [OF conjunct2 [OF reached]]]
  show same: "wk_queue w' = wk_queue w" "wk_consumed w' = wk_consumed w" "wk_ended w' = wk_ended w"
    using arg_cong [OF eq, of wk_queue] arg_cong [OF eq, of wk_consumed] arg_cong [OF eq, of wk_ended] by simp_all
  have "wk_offset w' = wk_offset w" using arg_cong [OF eq, of wk_offset] by simp
  moreover have "books env p ds w'" using at(2) by (subst eq) simp
  ultimately show "walk_at env p c0 ds w'" using assms(1) reached same by (simp add: walk_at_def)
  show "wk_consumed w = wp_unpack_size p \<Longrightarrow> ends_there p c0"
    using reached assms(1) by (auto simp: ends_there_def walk_at_def)
qed

lemma settle_walk:
  assumes "folds_truly env (wp_stack p)" "ds_folding (wp_stack p)" "walk_at env p c0 ds w" "settle env p True w = (Inr u, w')"
  shows "walk_at env p c0 ds w'" "wk_queue w' = []" "wk_consumed w' = wk_consumed w" "wk_ended w' = wk_ended w"
proof -
  have "books env p ds w" using assms(3) by (simp add: walk_at_def)
  note s = settle_books [OF assms(1,2) this assms(4)]
  note eq = conjunct2 [OF conjunct2 [OF s]]
  show same: "wk_consumed w' = wk_consumed w" "wk_ended w' = wk_ended w" "wk_queue w' = []"
    using arg_cong [OF eq, of wk_consumed] arg_cong [OF eq, of wk_ended] s by simp_all
  have "wk_chain w' = wk_chain w" "wk_offset w' = wk_offset w"
    using arg_cong [OF eq, of wk_chain] arg_cong [OF eq, of wk_offset] by simp_all
  with assms(3) s same show "walk_at env p c0 ds w'" by (simp add: walk_at_def)
qed

lemma check_block_fold_at:
  assumes "walk_at env p c0 ds w" "check_block_fold env p True w = (Inr u, w')"
  shows "walk_at env p c0 ds w' \<and> wk_queue w' = wk_queue w \<and> wk_consumed w' = wk_consumed w
    \<and> (ds_folding (wp_stack p) \<and> has_crc (ar_blocks (wp_archive p) ! wp_block_index p) \<longrightarrow>
        (\<exists>s c. ds_folded (wp_stack p) s 0 (wp_unpack_size p) = Some c \<and> ucast c = crc (ar_blocks (wp_archive p) ! wp_block_index p)))"
proof (cases "ds_folding (wp_stack p) \<and> has_crc (ar_blocks (wp_archive p) ! wp_block_index p)")
  case False with assms show ?thesis by (auto simp: check_block_fold_def Let_def)
next
  case True
  let ?folded = "\<lambda>w::'a walk. ds_folded (wp_stack p) (ch_source (wk_chain w)) 0 (wp_unpack_size p)"
  from assms(2) True obtain w1 v where one: "(if ?folded w = None \<and> \<not> wk_ended w then reach_end env p 0 w else (Inr (), w)) = (Inr v, w1)"
    and two: "(case ?folded w1 of
           Some crc32 \<Rightarrow> (if ucast crc32 \<noteq> crc (ar_blocks (wp_archive p) ! wp_block_index p)
             then Inl (locate env p (folded_mismatch (wp_encrypted p))) else Inr (), w1)
         | None \<Rightarrow> (if True then Inl (unverified env p) else Inr (), w1)) = (Inr u, w')"
    by (auto simp: check_block_fold_def Let_def and_then_Inr)
  from two obtain c where "?folded w1 = Some c" "ucast c = crc (ar_blocks (wp_archive p) ! wp_block_index p)" "w' = w1"
    by (auto split: option.splits if_splits)
  moreover have "walk_at env p c0 ds w1 \<and> wk_queue w1 = wk_queue w \<and> wk_consumed w1 = wk_consumed w"
    using one assms(1) reach_end_walk [OF assms(1)] by (auto split: if_splits)
  ultimately show ?thesis by blast
qed

lemma close_block_at:
  assumes fold: "ds_folding (wp_stack p) \<Longrightarrow> folds_truly env (wp_stack p)"
    and at: "walk_at env p c0 ds w" and ended: "wk_ended w \<longrightarrow> ends_there p c0"
    and run: "close_block env p True w = (Inr outcome, w')" and full: "bo_read_in_full outcome" and some: "wp_unpack_size p \<noteq> 0"
  shows "walk_at env p c0 ds w' \<and> wk_queue w' = [] \<and> wk_consumed w' = wp_unpack_size p \<and> ends_there p c0
    \<and> (ds_folding (wp_stack p) \<and> has_crc (ar_blocks (wp_archive p) ! wp_block_index p) \<longrightarrow>
        (\<exists>s c. ds_folded (wp_stack p) s 0 (wp_unpack_size p) = Some c \<and> ucast c = crc (ar_blocks (wp_archive p) ! wp_block_index p)))"
proof -
  let ?whole = "\<lambda>w::'a walk. wp_unpack_size p \<noteq> 0 \<and> wk_consumed w = wp_unpack_size p"
  obtain w1 v1 where one: "(if wk_queue w \<noteq> []
        then and_then (reach_end env p (unat (wp_unpack_size p) - unat (wk_consumed w)) w)
               (\<lambda>_ w. settle env p True (w\<lparr>wk_ended := True\<rparr>))
        else (Inr (), w)) = (Inr v1, w1)"
    and r1: "and_then
       (if ?whole w1 \<and> \<not> wk_ended w1
        then and_then (reach_end env p 0 w1) (\<lambda>_ w. (Inr (), w\<lparr>wk_ended := True\<rparr>))
        else (Inr (), w1)) (\<lambda>_ w.
     and_then (check_block_fold env p (?whole w1) w)
       (\<lambda>_ v. (Inr \<lparr>bo_finished = True, bo_read_in_full = (wk_consumed w = wp_unpack_size p)\<rparr>, v))) = (Inr outcome, w')"
    using run unfolding close_block_def by (auto simp: and_then_Inr Let_def)
  obtain w2 v2 where two: "(if ?whole w1 \<and> \<not> wk_ended w1
        then and_then (reach_end env p 0 w1) (\<lambda>_ w. (Inr (), w\<lparr>wk_ended := True\<rparr>))
        else (Inr (), w1)) = (Inr v2, w2)"
    and three: "and_then (check_block_fold env p (?whole w1) w2)
       (\<lambda>_ v. (Inr \<lparr>bo_finished = True, bo_read_in_full = (wk_consumed w2 = wp_unpack_size p)\<rparr>, v)) = (Inr outcome, w')"
    using r1 by (auto simp: and_then_Inr)
  have c2: "wk_consumed w2 = wp_unpack_size p" using three full by (auto simp: and_then_Inr)
  have c12: "wk_consumed w2 = wk_consumed w1"
    using two by (auto simp: and_then_Inr reach_end_def split: if_splits prod.splits)
  have c01: "wk_consumed w1 = wk_consumed w"
    using one by (auto simp: and_then_Inr reach_end_def settle_def split: if_splits prod.splits)
  have left: "unat (wp_unpack_size p) - unat (wk_consumed w) = 0" using c2 c12 c01 by simp
  have at1: "walk_at env p c0 ds w1 \<and> wk_queue w1 = [] \<and> (wk_ended w1 \<longrightarrow> ends_there p c0)"
  proof (cases "wk_queue w = []")
    case True with one at ended show ?thesis by simp
  next
    case False
    with one left obtain v w0 where r: "reach_end env p 0 w = (Inr v, w0)" and s: "settle env p True (w0\<lparr>wk_ended := True\<rparr>) = (Inr v1, w1)"
      by (auto simp: and_then_Inr)
    have folding: "ds_folding (wp_stack p)" using False at by (simp add: walk_at_def books_def)
    note e = reach_end_walk [OF at r]
    have "walk_at env p c0 ds (w0\<lparr>wk_ended := True\<rparr>)" using e(1) by simp
    from settle_walk [OF fold [OF folding] folding this s] e(5) c2 c12 c01 show ?thesis by simp
  qed
  have whole: "?whole w1" using c2 c12 some by simp
  have at2: "walk_at env p c0 ds w2 \<and> wk_queue w2 = [] \<and> ends_there p c0"
  proof (cases "wk_ended w1")
    case True with two at1 show ?thesis by simp
  next
    case False
    with two whole obtain v w0 where r: "reach_end env p 0 w1 = (Inr v, w0)" and w2: "w2 = w0\<lparr>wk_ended := True\<rparr>"
      by (auto simp: and_then_Inr)
    from reach_end_walk [OF conjunct1 [OF at1] r] at1 c2 c12 show ?thesis by (simp add: w2)
  qed
  from three whole obtain v where "check_block_fold env p True w2 = (Inr v, w')" by (auto simp: and_then_Inr)
  from check_block_fold_at [OF conjunct1 [OF at2] this] at2 c2 show ?thesis by simp
qed


section \<open>What a walk to the end verifies\<close>

definition files_walked :: "archive \<Rightarrow> nat \<Rightarrow> nat list" where
  "files_walked a i = (case block_file_range a i of (start, end) \<Rightarrow> filter (\<lambda>j. sized (ar_files a ! j)) [start..<end])"

text \<open>The part of a decoded block that is its \<open>k\<close>th file with bytes.\<close>

definition file_part :: "archive \<Rightarrow> nat list \<Rightarrow> byte list \<Rightarrow> nat \<Rightarrow> byte list" where
  "file_part a is bs k = slice (\<Sum>j\<leftarrow>take k is. unat (ae_size (ar_files a ! j))) (unat (ae_size (ar_files a ! (is ! k)))) bs"

lemma lengths_meet:
  "\<forall>d \<in> set ds. length (snd d) \<le> f d \<Longrightarrow> length (concat (map snd ds)) = (\<Sum>d\<leftarrow>ds. f d) \<Longrightarrow> \<forall>d \<in> set ds. length (snd d) = f d"
proof (induction ds)
  case (Cons d ds)
  have "length (concat (map snd ds)) \<le> (\<Sum>d\<leftarrow>ds. f d)"
    using Cons.prems(1) sum_list_mono [of ds "\<lambda>d. length (snd d)" f] by (simp add: length_concat comp_def)
  with Cons.prems have "length (concat (map snd ds)) = (\<Sum>d\<leftarrow>ds. f d)" "length (snd d) = f d" by simp_all
  with Cons show ?case by simp
qed simp

lemma concat_slice:
  "\<forall>d \<in> set ds. length (snd d) = f d \<Longrightarrow> k < length ds
   \<Longrightarrow> slice (\<Sum>d\<leftarrow>take k ds. f d) (f (ds ! k)) (concat (map snd ds) @ rest) = snd (ds ! k)"
proof (induction ds arbitrary: k)
  case (Cons d ds)
  show ?case
  proof (cases k)
    case 0 with Cons.prems show ?thesis by (simp add: slice_def)
  next
    case (Suc j)
    have "slice (\<Sum>d\<leftarrow>take j ds. f d) (f (ds ! j)) (concat (map snd ds) @ rest) = snd (ds ! j)"
      using Cons Suc by simp
    with Cons.prems(1) Suc show ?thesis by (simp add: slice_def)
  qed
qed simp

lemma walk_verifies:
  fixes stack :: decode_stack
  defines "bs \<equiv> fst (flow (ds_source stack))"
  assumes walk: "walk_entries env a i each u = (Inr outcome, events, u')" "bo_finished outcome" "bo_read_in_full outcome"
    and verify: "we_verify env" and stack: "we_stack env i = Inr stack" "stays_ended (ds_source stack)"
    and fold: "ds_folding stack \<Longrightarrow> folds_truly env stack"
    and size: "get_unpack_size (ar_blocks a ! i) = Inr n" "n \<noteq> 0"
    and sum: "(\<Sum>j\<leftarrow>files_walked a i. unat (ae_size (ar_files a ! j))) = unat n"
  shows "unat n \<le> length bs"
    and "has_crc (ar_blocks a ! i) \<Longrightarrow> ucast (we_crc32 env (take (unat n) bs)) = crc (ar_blocks a ! i)"
    and "\<not> has_crc (ar_blocks a ! i) \<or> ds_folding stack \<Longrightarrow> flow (ds_source stack) = (take (unat n) bs, None)"
    and "k < length (files_walked a i) \<Longrightarrow> ae_has_crc (ar_files a ! (files_walked a i ! k))
      \<Longrightarrow> ucast (we_crc32 env (file_part a (files_walked a i) bs k)) = ae_crc (ar_files a ! (files_walked a i ! k))"
    and "cp \<in> set events \<Longrightarrow> \<exists>k < length (files_walked a i). cp_block cp = i \<and> cp_file cp = files_walked a i ! k
      \<and> unat (cp_offset cp) = (\<Sum>j\<leftarrow>take k (files_walked a i). unat (ae_size (ar_files a ! j)))
      \<and> cp_len cp = ae_size (ar_files a ! (files_walked a i ! k))
      \<and> cp_crc cp = we_crc32 env (file_part a (files_walked a i) bs k)"
proof -
  let ?b = "ar_blocks a ! i"
  obtain start end' where r: "block_file_range a i = (start, end')" by fastforce
  obtain po first where w0: "(case and_then (walk_files env (walk_place_of env a i po stack n first) each [start..<end']
          (walk_start (block_chain env ?b n stack) u)) (close_block env (walk_place_of env a i po stack n first)) of
        (x, w) \<Rightarrow> (x, wk_events w, wk_user w)) = (Inr outcome, events, u')"
    using walk(1) stack(1) size(1) r unfolding walk_entries_def Let_def
    by (cases "check_block_mapping a i"; cases "sso_get (sm_block_first_sub_stream_index (ar_stream_map a)) i")
      (simp_all add: bindE_def ok_or_def walk_place_of_def)
  define p where "p = walk_place_of env a i po stack n first"
  have p: "wp_archive p = a" "wp_block_index p = i" "wp_unpack_size p = n" "wp_stack p = stack"
    by (simp_all add: p_def walk_place_of_def)
  note w = w0 [folded p_def]
  define c0 where "c0 = block_chain env ?b n stack"
  obtain go w1 w2 where files: "walk_files env p each [start..<end'] (walk_start c0 u) = (Inr go, w1)"
    and close: "close_block env p go w1 = (Inr outcome, w2)" and events: "events = wk_events w2"
    using w by (auto simp: and_then_Inr c0_def split: prod.splits)
  have "go = bo_finished outcome"
    using close by (auto simp: close_block_def and_then_Inr Let_def split: if_splits)
  with walk(2) files close have files: "walk_files env p each [start..<end'] (walk_start c0 u) = (Inr True, w1)"
    and close: "close_block env p True w1 = (Inr outcome, w2)" by simp_all
  have "0 < unat n" using size(2) by (simp add: unat_gt_0)
  moreover have "0 < uint n" using size(2) by (simp add: word_neq_0_conv word_less_def)
  ultimately have "fresh_check (ch_crc c0)" by (auto simp: fresh_check_def c0_def block_chain_def crc_check_new_def)
  with stack(2) have "chain_at (we_crc32 env) c0 [] c0" by (intro chain_at_start) (simp_all add: c0_def block_chain_def)
  then have start: "walk_at env p c0 [] (walk_start c0 u)"
    by (simp add: walk_at_def walk_start_def books_def taken_before_def)
  have fold': "ds_folding (wp_stack p) \<Longrightarrow> folds_truly env (wp_stack p)" using fold p by simp
  from walk_files_at [OF fold' verify start _ files] obtain ds where
      ds: "map fst ds = filter (\<lambda>j. sized (wp_file p j)) [start..<end']"
    and at: "walk_at env p c0 ds w1" and ended: "wk_ended w1 \<longrightarrow> ends_there p c0"
    by (auto simp: walk_start_def)
  have ds_is: "map fst ds = files_walked a i" using ds r p by (simp add: files_walked_def)
  note cl = close_block_at [OF fold' at ended close walk(3)]
  from cl size(2) p have end_at: "walk_at env p c0 ds w2" "wk_queue w2 = []" "wk_consumed w2 = n" "ends_there p c0"
    and folded: "ds_folding stack \<and> has_crc ?b \<longrightarrow> (\<exists>s c. ds_folded stack s 0 n = Some c \<and> ucast c = crc ?b)" by simp_all
  define got where "got = concat (map snd ds)"
  obtain rest where flow: "bs = got @ rest" and len: "length got = unat n" and chk: "check_at (we_crc32 env) (ch_crc c0) got (ch_crc (wk_chain w2))"
    using end_at(1,3) by (auto simp: walk_at_def chain_at_def bs_def got_def c0_def block_chain_def)
  have prefix: "take (unat n) bs = got" using flow len by simp
  show "unat n \<le> length bs" using flow len by simp
  show "has_crc ?b \<Longrightarrow> ucast (we_crc32 env (take (unat n) bs)) = crc ?b"
  proof (cases "ds_folding stack")
    case True
    assume "has_crc ?b"
    with True folded obtain s c where "ds_folded stack s 0 n = Some c" "ucast c = crc ?b" by blast
    moreover from fold [OF True] this(1) have "c = we_crc32 env (slice (unat (0 :: u64)) (unat n) bs)"
      unfolding folds_truly_def bs_def by blast
    ultimately show ?thesis by (simp add: slice_def)
  next
    case False
    assume "has_crc ?b"
    with False verify chk have "check_at (we_crc32 env) (Some (crc_check_new (unat n) (crc ?b))) got (ch_crc (wk_chain w2))"
      by (simp add: c0_def block_chain_def)
    from check_passed [OF this] len \<open>0 < unat n\<close> prefix show ?thesis by simp
  qed
  show "\<not> has_crc ?b \<or> ds_folding stack \<Longrightarrow> flow (ds_source stack) = (take (unat n) bs, None)"
    using end_at(4) p by (auto simp: ends_there_def c0_def block_chain_def bs_def)
  have all_le: "\<forall>d \<in> set ds. length (snd d) \<le> unat (ae_size (ar_files a ! fst d))"
    using end_at(1) p by (simp add: walk_at_def books_def)
  have "(\<Sum>d\<leftarrow>ds. unat (ae_size (ar_files a ! fst d))) = unat n"
    using sum unfolding ds_is [symmetric] by (simp add: comp_def)
  with len have all: "\<forall>d \<in> set ds. length (snd d) = unat (ae_size (ar_files a ! fst d))"
    by (intro lengths_meet all_le) (simp add: got_def)
  have nlen: "length (files_walked a i) = length ds" using arg_cong [OF ds_is, of length] by simp
  have nth: "files_walked a i ! k = fst (ds ! k)" if "k < length ds" for k using that by (simp flip: ds_is)
  have before: "(\<Sum>j\<leftarrow>take k (files_walked a i). unat (ae_size (ar_files a ! j))) = taken_before p ds k" for k
    by (simp add: taken_before_def p comp_def take_map flip: ds_is)
  have part: "file_part a (files_walked a i) bs k = file_slice p ds k" "file_slice p ds k = snd (ds ! k)" if "k < length ds" for k
  proof -
    show "file_part a (files_walked a i) bs k = file_slice p ds k"
      using that by (simp add: file_part_def file_slice_def before nth p bs_def)
    show "file_slice p ds k = snd (ds ! k)"
      using concat_slice [OF all that, of rest] flow
      by (simp add: file_slice_def taken_before_def p got_def bs_def)
  qed
  show "ucast (we_crc32 env (file_part a (files_walked a i) bs k)) = ae_crc (ar_files a ! (files_walked a i ! k))"
    if "k < length (files_walked a i)" "ae_has_crc (ar_files a ! (files_walked a i ! k))"
  proof -
    have k: "k < length ds" using that nlen by simp
    have "verified env p ds (wk_queue w2) k" using end_at(1) k by (simp add: walk_at_def books_def)
    moreover have "length (snd (ds ! k)) = unat (ae_size (ar_files a ! fst (ds ! k)))" using all k by simp
    ultimately show ?thesis using that(2) end_at(2) part [OF k] p nth [OF k] by (auto simp: verified_def Let_def split: if_splits)
  qed
  show "\<exists>k < length (files_walked a i). cp_block cp = i \<and> cp_file cp = files_walked a i ! k
      \<and> unat (cp_offset cp) = (\<Sum>j\<leftarrow>take k (files_walked a i). unat (ae_size (ar_files a ! j)))
      \<and> cp_len cp = ae_size (ar_files a ! (files_walked a i ! k))
      \<and> cp_crc cp = we_crc32 env (file_part a (files_walked a i) bs k)" if "cp \<in> set events"
  proof -
    have "tells env p ds cp" using end_at(1) that events by (simp add: walk_at_def books_def)
    then obtain k where k: "k < length ds" and t: "cp_block cp = i" "cp_file cp = fst (ds ! k)" "unat (cp_offset cp) = taken_before p ds k"
        "cp_len cp = ae_size (ar_files a ! fst (ds ! k))"
        "cp_crc cp = we_crc32 env (if ds_folding stack then file_slice p ds k else snd (ds ! k))"
      using p by (auto simp: tells_def)
    show ?thesis using k t part [OF k] by (intro exI [of _ k]) (simp add: nlen nth before)
  qed
qed

end
