(* ===== verification/Walk_Complete.thy ===== *)
theory Walk_Complete
  imports Walk_Sound
begin

text \<open>
  Walking intact blocks: when the decoder yields the bytes the archive describes, a callback that stores
  what each reader gives gets every file's own bytes, in order, and no error comes of it.
\<close>

section \<open>Decoders that do not fail\<close>

definition steady :: "source \<Rightarrow> bool" where
  "steady s \<longleftrightarrow> (\<forall>x \<in> set s. case x of Yields bs \<Rightarrow> bs \<noteq> [] | Fails e \<Rightarrow> False)"

lemma steady_Cons [simp]: "steady (x # s) \<longleftrightarrow> (case x of Yields bs \<Rightarrow> bs \<noteq> [] | Fails e \<Rightarrow> False) \<and> steady s"
  "steady []"
  by (simp_all add: steady_def)

lemma steady_ended: "steady s \<Longrightarrow> stays_ended s"
  by (auto simp: steady_def stays_ended_def)

lemma steady_flow: "steady s \<Longrightarrow> snd (flow s) = None \<and> (fst (flow s) = [] \<longleftrightarrow> s = [])"
  by (induction s rule: flow.induct) auto

lemma read_source_steady:
  "steady s \<Longrightarrow> s \<noteq> [] \<Longrightarrow> 0 < n \<Longrightarrow> \<exists>bs s'. read_source n s = (Inr bs, s') \<and> bs \<noteq> [] \<and> steady s'"
  by (cases "(n, s)" rule: read_source.cases) auto

text \<open>A check of bytes that are the ones it expects.\<close>

definition check_true :: "(byte list \<Rightarrow> u32) \<Rightarrow> crc_check option \<Rightarrow> byte list \<Rightarrow> bool" where
  "check_true crc32 c0 whole \<longleftrightarrow>
     (\<forall>cv. c0 = Some cv \<longrightarrow> cv_remaining cv = int (length whole) \<and> cv_expected cv = ucast (crc32 whole))"

lemma check_trueD:
  assumes "check_true crc32 (Some cv0) whole"
  shows "cv_remaining cv0 = int (length whole)" "cv_expected cv0 = ucast (crc32 whole)"
  using assms unfolding check_true_def by blast+

lemma check_atD:
  assumes "check_at crc32 (Some cv0) got (Some cv)"
  shows "cv_expected cv = cv_expected cv0"
    and "0 < cv_remaining cv \<Longrightarrow> cv_digest cv = got \<and> cv_remaining cv = cv_remaining cv0 - int (length got)"
    and "\<not> 0 < cv_remaining cv \<Longrightarrow> cv_remaining cv0 \<le> int (length got)"
  using assms unfolding check_at_def by simp_all

lemma check_running:
  assumes "check_true crc32 c0 (got @ rest)" "check_at crc32 c0 got (Some cv)"
  shows "0 < cv_remaining cv \<longleftrightarrow> rest \<noteq> []"
proof -
  obtain cv0 where cv0: "c0 = Some cv0" using assms(2) by (cases c0) (simp_all add: check_at_def)
  note a = check_atD [OF assms(2) [unfolded cv0]]
  have "cv_remaining cv0 = int (length got) + int (length rest)" using check_trueD(1) [OF assms(1) [unfolded cv0]] by simp
  moreover have "rest = [] \<longleftrightarrow> length rest = 0" by simp
  ultimately show ?thesis using a(2,3) by linarith
qed

lemma crc_after_true:
  assumes "check_true crc32 (Some cv0) (got @ bs @ rest)" "check_at crc32 (Some cv0) got (Some cv)"
    "0 < cv_remaining cv" "crc_after crc32 bs cv = (e, cv')"
  shows "e = None"
proof -
  note a = check_atD [OF assms(2)] check_trueD [OF assms(1)]
  have cv: "cv_digest cv = got" "cv_remaining cv = int (length bs) + int (length rest)" "cv_expected cv = ucast (crc32 (got @ bs @ rest))"
    using a(2) [OF assms(3)] a(1,4,5) by simp_all
  show ?thesis
  proof (cases "rest = []")
    case True
    with cv(3) have "ucast (crc32 (got @ bs)) = cv_expected cv" by (metis append_Nil2)
    with True assms(4) cv(1,2) show ?thesis by (simp add: crc_after_def check_parts_def Let_def)
  next
    case False
    with assms(4) cv(2) show ?thesis by (simp add: crc_after_def check_parts_def)
  qed
qed

section \<open>The chain\<close>

text \<open>
  A decoder that has \<open>rest\<close> left, and nothing after it unless the block has a check of its own, which reads
  no further.
\<close>

definition left_over :: "chain \<Rightarrow> byte list \<Rightarrow> byte list \<Rightarrow> bool" where
  "left_over c0 rest flowing \<longleftrightarrow> take (length rest) flowing = rest \<and> (ch_crc c0 = None \<longrightarrow> flowing = rest)"

lemma left_over_drop:
  "left_over c0 rest (bs @ flowing) \<Longrightarrow> length bs \<le> length rest \<Longrightarrow> \<exists>rest'. rest = bs @ rest' \<and> left_over c0 rest' flowing"
proof (rule exI [of _ "drop (length bs) rest"], goal_cases)
  case 1
  then have eq: "bs @ take (length rest - length bs) flowing = rest" by (simp add: left_over_def)
  then have d: "drop (length bs) rest = take (length rest - length bs) flowing" by (metis append_eq_conv_conj)
  with eq have "rest = bs @ drop (length bs) rest" by simp
  moreover have "flowing = drop (length bs) rest" if "ch_crc c0 = None"
    using 1(1) that by (auto simp: left_over_def)
  moreover have "take (min (length flowing) m) flowing = take m flowing" for m by (simp add: min_def)
  ultimately show ?case using d by (simp add: left_over_def)
qed

definition chain_good :: "(byte list \<Rightarrow> u32) \<Rightarrow> chain \<Rightarrow> byte list \<Rightarrow> byte list \<Rightarrow> chain \<Rightarrow> bool" where
  "chain_good crc32 c0 got rest c \<longleftrightarrow> chain_at crc32 c0 got c \<and> steady (ch_source c) \<and> left_over c0 rest (fst (flow (ch_source c)))
     \<and> ch_owed c = length rest \<and> check_true crc32 (ch_crc c0) (got @ rest)"

lemma declared_step_good:
  assumes "steady (ch_source c)" "left_over c0 rest (fst (flow (ch_source c)))" "ch_owed c = length rest"
    and "0 < n" "n \<le> length rest"
  shows "\<exists>bs rest' c'. declared_step n c = (bs, None, c') \<and> bs \<noteq> [] \<and> length bs \<le> n \<and> rest = bs @ rest'
    \<and> steady (ch_source c') \<and> left_over c0 rest' (fst (flow (ch_source c'))) \<and> ch_owed c' = length rest' \<and> ch_crc c' = ch_crc c"
proof -
  have "ch_source c \<noteq> []" using assms(2,4,5) by (auto simp: left_over_def)
  from read_source_steady [OF assms(1) this assms(4)] obtain bs s' where
    r: "read_source n (ch_source c) = (Inr bs, s')" "bs \<noteq> []" "steady s'" by blast
  have f: "length bs \<le> n" "fst (flow (ch_source c)) = bs @ fst (flow s')"
    using read_source_flow [OF assms(4) r(1)] r(2) by simp_all
  with left_over_drop [of c0 rest bs] assms(2,5) obtain rest' where "rest = bs @ rest'" "left_over c0 rest' (fst (flow s'))"
    by (metis le_trans)
  with r f assms(3,4) show ?thesis by (simp add: declared_step_def)
qed

lemma chain_step_good:
  assumes good: "chain_good crc32 c0 got rest c" and "0 < n" "n \<le> length rest"
  shows "\<exists>bs rest' c'. chain_step crc32 n c = (bs, None, c') \<and> bs \<noteq> [] \<and> length bs \<le> n \<and> rest = bs @ rest'
    \<and> chain_good crc32 c0 (got @ bs) rest' c'"
proof -
  note g = good [unfolded chain_good_def]
  obtain bs rest' c1 where d: "declared_step n c = (bs, None, c1)" "bs \<noteq> []" "length bs \<le> n" "rest = bs @ rest'"
      "steady (ch_source c1)" "left_over c0 rest' (fst (flow (ch_source c1)))" "ch_owed c1 = length rest'" "ch_crc c1 = ch_crc c"
    using declared_step_good [of c c0 rest n] g assms(2,3) by blast
  have step: "\<exists>c'. chain_step crc32 n c = (bs, None, c') \<and> ch_source c' = ch_source c1 \<and> ch_owed c' = ch_owed c1"
  proof (cases "ch_crc c")
    case None with d(1) show ?thesis by (simp add: chain_step_def)
  next
    case (Some cv)
    then obtain cv0 where cv0: "ch_crc c0 = Some cv0" "check_at crc32 (Some cv0) got (Some cv)"
      using g by (auto simp: chain_at_def check_at_def split: option.splits)
    have run: "0 < cv_remaining cv" using check_running [of crc32 "Some cv0" got rest cv] cv0 g assms(2,3) by auto
    obtain e cv' where a: "crc_after crc32 bs cv = (e, cv')" by fastforce
    have "e = None" using crc_after_true [OF _ cv0(2) run a, of rest'] g cv0(1) d(4) by simp
    with a run Some d(1) show ?thesis by (simp add: chain_step_def)
  qed
  then obtain c' where c': "chain_step crc32 n c = (bs, None, c')" "ch_source c' = ch_source c1" "ch_owed c' = ch_owed c1" by blast
  from chain_step_at [OF _ c'(1), of c0 got] g have "chain_at crc32 c0 (got @ bs) c'" by simp
  with c' d g show ?thesis by (auto simp: chain_good_def)
qed

text \<open>At its end the chain reads nothing, and that is no error.\<close>

lemma chain_step_end:
  assumes "chain_good crc32 c0 got [] c"
  shows "\<exists>c'. chain_step crc32 n c = ([], None, c') \<and> chain_good crc32 c0 got [] c'"
proof -
  note g = assms [unfolded chain_good_def]
  show ?thesis
  proof (cases "ch_crc c")
    case None
    then have "ch_crc c0 = None" using g by (auto simp: chain_at_def check_at_def split: option.splits)
    then have "fst (flow (ch_source c)) = []" using g by (simp add: left_over_def)
    then have "ch_source c = []" using g steady_flow by blast
    then have "declared_step n c = ([], None, c)" using g by (cases c) (simp add: declared_step_def)
    with None assms show ?thesis by (simp add: chain_step_def)
  next
    case (Some cv)
    have "\<not> 0 < cv_remaining cv" using check_running [of crc32 "ch_crc c0" got "[]" cv] g Some by (simp add: chain_at_def)
    with Some assms show ?thesis by (simp add: chain_step_def)
  qed
qed

section \<open>A file's reader\<close>

definition entry_good :: "(byte list \<Rightarrow> u32) \<Rightarrow> chain \<Rightarrow> byte list \<Rightarrow> entry_reader \<Rightarrow> byte list \<Rightarrow> byte list \<Rightarrow> byte list \<Rightarrow> entry_reader \<Rightarrow> bool" where
  "entry_good crc32 c0 got r0 tk left rest r \<longleftrightarrow> entry_at crc32 c0 got r0 tk r
     \<and> chain_good crc32 c0 (got @ tk) (left @ rest) (er_chain r) \<and> er_remain r = length left
     \<and> er_fault r = None \<and> check_true crc32 (er_crc r0) (tk @ left)"

lemma entry_step_good:
  assumes good: "entry_good (ly_crc32 ly) c0 got r0 tk left rest r" and n: "0 < n" and more: "left \<noteq> []"
  shows "\<exists>bs left' r'. entry_step ly n r = (bs, None, r') \<and> bs \<noteq> [] \<and> left = bs @ left'
    \<and> entry_good (ly_crc32 ly) c0 got r0 (tk @ bs) left' rest r'"
proof -
  note g = good [unfolded entry_good_def]
  let ?m = "min n (er_remain r)"
  have m: "0 < ?m" "?m \<le> length (left @ rest)" using n more g by simp_all
  have chain: "chain_good (ly_crc32 ly) c0 (got @ tk) (left @ rest) (er_chain r)" using g by simp
  obtain bs rest' c' where c: "chain_step (ly_crc32 ly) ?m (er_chain r) = (bs, None, c')" "bs \<noteq> []" "length bs \<le> ?m"
      "left @ rest = bs @ rest'" "chain_good (ly_crc32 ly) c0 ((got @ tk) @ bs) rest' c'"
    using chain_step_good [OF chain m] by blast
  obtain left' where left: "left = bs @ left'" "rest' = left' @ rest"
  proof
    have "length bs \<le> length left" using c(3) g by simp
    then have "bs = take (length bs) left" using arg_cong [OF c(4), of "take (length bs)"] by simp
    then show "left = bs @ drop (length bs) left" by (metis append_take_drop_id)
    with c(4) show "rest' = drop (length bs) left @ rest" by (metis append.assoc same_append_eq)
  qed
  define r1 where "r1 = r\<lparr>er_chain := c', er_remain := er_remain r - length bs\<rparr>"
  have b: "bounded_step ly n r = (bs, None, r1)"
    using c(1,2) n more g by (simp add: bounded_step_def Let_def r1_def fault_record_def)
  have "\<exists>x. entry_step ly n r = (bs, None, r1\<lparr>er_crc := x\<rparr>)"
  proof (cases "er_crc r")
    case None
    then have "r1 = r1\<lparr>er_crc := None\<rparr>" by (simp add: r1_def)
    with None b g have "entry_step ly n r = (bs, None, r1\<lparr>er_crc := None\<rparr>)"
      by (simp add: entry_step_def checked_step_def fault_record_def)
    then show ?thesis ..
  next
    case (Some cv)
    then obtain cv0 where cv0: "er_crc r0 = Some cv0" "check_at (ly_crc32 ly) (Some cv0) tk (Some cv)"
      using g by (auto simp: entry_at_def check_at_def split: option.splits)
    have run: "0 < cv_remaining cv" using check_running [of "ly_crc32 ly" "Some cv0" tk left cv] cv0 g more by simp
    obtain e cv' where a: "crc_after (ly_crc32 ly) bs cv = (e, cv')" by fastforce
    have "e = None" using crc_after_true [OF _ cv0(2) run a, of left'] g cv0(1) left by simp
    with a run Some b have "entry_step ly n r = (bs, None, r1\<lparr>er_crc := Some cv'\<rparr>)"
      by (simp add: entry_step_def checked_step_def fault_record_def)
    then show ?thesis ..
  qed
  then obtain x where s: "entry_step ly n r = (bs, None, r1\<lparr>er_crc := x\<rparr>)" ..
  have "er_fault (r1\<lparr>er_crc := x\<rparr>) = None" using g by (simp add: r1_def)
  with entry_step_at [OF _ s, of c0 got r0 tk] g have at: "entry_at (ly_crc32 ly) c0 got r0 (tk @ bs) (r1\<lparr>er_crc := x\<rparr>)" by simp
  with g c(5) left s show ?thesis
    by (intro exI conjI) (auto simp: entry_good_def r1_def c(2))
qed

lemma entry_step_end:
  assumes "entry_good (ly_crc32 ly) c0 got r0 tk [] rest r"
  shows "entry_step ly n r = ([], None, r)"
proof -
  note g = assms [unfolded entry_good_def]
  have b: "bounded_step ly n r = ([], None, r)" using g by (simp add: bounded_step_def)
  show ?thesis
  proof (cases "er_crc r")
    case None with b g show ?thesis by (cases r) (simp add: entry_step_def checked_step_def fault_record_def)
  next
    case (Some cv)
    have "\<not> 0 < cv_remaining cv" using check_running [of "ly_crc32 ly" "er_crc r0" tk "[]" cv] g Some by (simp add: entry_at_def)
    with Some g show ?thesis by (cases r) (simp add: entry_step_def checked_step_def fault_record_def)
  qed
qed

section \<open>The rest of a file, stored\<close>

lemma entry_good_end: "entry_good crc32 c0 got r0 tk left rest r \<Longrightarrow> left = [] \<Longrightarrow> entry_good crc32 c0 got r0 tk [] rest r"
  by simp

lemma copy_rest_good:
  "entry_good (ly_crc32 ly) c0 got r0 tk left rest r \<Longrightarrow> \<exists>pieces r'. copy_rest ly (\<lambda>_. None) n ps r = (Inr (n + length left), ps @ pieces, r')
     \<and> concat pieces = left \<and> entry_good (ly_crc32 ly) c0 got r0 (tk @ left) [] rest r'"
proof (induction "length left" arbitrary: tk left r n ps rule: less_induct)
  case less
  show ?case
  proof (cases "left = []")
    case True
    with entry_step_end less.prems show ?thesis
      by (intro exI [of _ "[]"] exI [of _ r]) (simp add: copy_rest.simps [of ly "\<lambda>_. None" n ps r])
  next
    case False
    have "0 < COPY_REST_BYTES" by (simp add: COPY_REST_BYTES_def)
    from entry_step_good [OF less.prems this False] obtain bs left' r1 where
      s: "entry_step ly COPY_REST_BYTES r = (bs, None, r1)" "bs \<noteq> []" "left = bs @ left'"
      and good: "entry_good (ly_crc32 ly) c0 got r0 (tk @ bs) left' rest r1" by blast
    have "length left' < length left" using s by simp
    from less.hyps [OF this good, of "n + length bs" "ps @ [bs]"] obtain pieces r' where
      "copy_rest ly (\<lambda>_. None) (n + length bs) (ps @ [bs]) r1 = (Inr (n + length bs + length left'), (ps @ [bs]) @ pieces, r')"
      "concat pieces = left'" "entry_good (ly_crc32 ly) c0 got r0 ((tk @ bs) @ left') [] rest r'" by blast
    with s show ?thesis
      by (intro exI [of _ "bs # pieces"] exI [of _ r'])
         (simp add: copy_rest.simps [of ly "\<lambda>_. None" n ps r] sink_write_def add.assoc)
  qed
qed

lemma push_rest_good:
  "entry_good (ly_crc32 ly) c0 got r0 tk left rest r \<Longrightarrow> \<exists>pieces r'. push_rest ly (\<lambda>_. None) n ps r = (Inr (n + length left), ps @ pieces, r')
     \<and> concat pieces = left \<and> entry_good (ly_crc32 ly) c0 got r0 (tk @ left) [] rest r'"
proof (induction "length left" arbitrary: tk left r n ps rule: less_induct)
  case less
  show ?case
  proof (cases "left = []")
    case True
    with entry_step_end less.prems show ?thesis
      by (intro exI [of _ "[]"] exI [of _ r]) (simp add: push_rest.simps [of ly "\<lambda>_. None" n ps r] sink_write_def)
  next
    case False
    have "0 < PUSH_STEP_BYTES" by (simp add: PUSH_STEP_BYTES_def)
    from entry_step_good [OF less.prems this False] obtain bs left' r1 where
      s: "entry_step ly PUSH_STEP_BYTES r = (bs, None, r1)" "bs \<noteq> []" "left = bs @ left'"
      and good: "entry_good (ly_crc32 ly) c0 got r0 (tk @ bs) left' rest r1" by blast
    have "length left' < length left" using s by simp
    from less.hyps [OF this good, of "n + length bs" "ps @ [bs]"] obtain pieces r' where
      "push_rest ly (\<lambda>_. None) (n + length bs) (ps @ [bs]) r1 = (Inr (n + length bs + length left'), (ps @ [bs]) @ pieces, r')"
      "concat pieces = left'" "entry_good (ly_crc32 ly) c0 got r0 ((tk @ bs) @ left') [] rest r'" by blast
    with s show ?thesis
      by (intro exI [of _ "bs # pieces"] exI [of _ r'])
         (simp add: push_rest.simps [of ly "\<lambda>_. None" n ps r] sink_write_def add.assoc)
  qed
qed

lemma write_rest_good:
  assumes "entry_good (ly_crc32 ly) c0 got r0 tk left rest r"
  shows "\<exists>pieces r'. write_rest ly (\<lambda>_. None) r = (Inr (length left), pieces, r') \<and> concat pieces = left
     \<and> entry_good (ly_crc32 ly) c0 got r0 (tk @ left) [] rest r'"
  using copy_rest_good [OF assms, of 0 "[]"] push_rest_good [OF assms, of 0 "[]"] by (auto simp: write_rest_def)

text \<open>A callback that writes each file to the end and keeps what it got.\<close>

definition store :: "archive_entry \<Rightarrow> (archive_entry \<times> byte list) list \<Rightarrow> (archive_entry \<times> byte list) list visit" where
  "store f u = Rest (\<lambda>_. None) (\<lambda>(x, pieces).
     Reply (case x of Inl e \<Rightarrow> Inl (Io e '''') | Inr _ \<Rightarrow> Inr True) (u @ [(f, concat pieces)]))"

lemma visit_empty_store [simp]: "visit_empty (store f u) = (Inr True, u @ [(f, [])])"
  by (simp add: store_def)

lemma visit_entry_store:
  assumes "entry_good (we_crc32 env) c0 got r0 [] bs rest r0" "r0 = entry_reader_for env p (wp_file p i) w"
  shows "\<exists>r. visit_entry env p (store f u) i w = (Inr True, u @ [(f, bs)], r) \<and> entry_good (we_crc32 env) c0 got r0 bs [] rest r"
proof -
  let ?ly = "walk_layers env p"
  have crc: "ly_crc32 ?ly = we_crc32 env" by (simp add: walk_layers_def)
  obtain pieces r where one: "write_rest ?ly (\<lambda>_. None) r0 = (Inr (length bs), pieces, r)" "concat pieces = bs"
      "entry_good (we_crc32 env) c0 got r0 bs [] rest r"
    using write_rest_good [of ?ly c0 got r0 "[]" bs rest r0] assms(1) by (auto simp: crc)
  obtain pieces' r' where two: "write_rest ?ly (\<lambda>_. None) r = (Inr 0, pieces', r')" "entry_good (we_crc32 env) c0 got r0 bs [] rest r'"
    using write_rest_good [of ?ly c0 got r0 bs "[]" rest r] one(3) by (auto simp: crc)
  from one two show ?thesis
    by (simp add: visit_entry_def Let_def store_def assms(2) drain_unread_def)
qed


section \<open>The walk of an intact block\<close>

definition walk_good :: "walk_env \<Rightarrow> chain \<Rightarrow> byte list \<Rightarrow> byte list \<Rightarrow> 'u walk \<Rightarrow> bool" where
  "walk_good env c0 got rest w \<longleftrightarrow> chain_good (we_crc32 env) c0 got rest (wk_chain w)
     \<and> unat (wk_consumed w) = length got \<and> unat (wk_offset w) = length got
     \<and> wk_fault w = None \<and> \<not> wk_ended w \<and> wk_queue w = []"

text \<open>What the archive says of a file's bytes.\<close>

definition file_true :: "walk_env \<Rightarrow> archive_entry \<Rightarrow> byte list \<Rightarrow> bool" where
  "file_true env f bs \<longleftrightarrow> length bs = unat (ae_size f) \<and> (ae_has_crc f \<longrightarrow> ae_crc f = ucast (we_crc32 env bs))"

definition reported :: "walk_env \<Rightarrow> archive_entry \<Rightarrow> bool" where
  "reported env f \<longleftrightarrow> sized f \<and> ae_has_crc f \<and> we_verify env"

lemma entry_good_start:
  assumes "walk_good env c0 got (bs @ rest) w" "file_true env f bs" "sized f" "length bs < 2 ^ 63"
  shows "entry_good (we_crc32 env) c0 got (entry_reader_for env p f w) [] bs rest (entry_reader_for env p f w)"
proof -
  let ?r = "entry_reader_for env p f w"
  have len: "er_remain ?r = length bs" using assms(2) by (simp add: entry_reader_for_def file_true_def)
  have new: "crc_check_new (unat (ae_size f)) (ae_crc f)
      = \<lparr>cv_digest = [], cv_expected = ae_crc f, cv_remaining = int (length bs), cv_report = None\<rparr>"
  proof -
    have "unat (ae_size f) = length bs" using assms(2) by (simp add: file_true_def)
    moreover have "int (length bs) < 2 ^ 63" using assms(4) by simp
    ultimately have "int (unat (ae_size f)) = int (length bs)" "int (length bs) \<le> 2 ^ 63 - 1" by simp_all
    then show ?thesis by (simp only: crc_check_new_def min_absorb1)
  qed
  have "0 < length bs" using assms(2) sized_positive [OF assms(3)] by (simp add: file_true_def)
  have chk: "er_crc ?r = None \<or> ae_has_crc f
      \<and> er_crc ?r = Some \<lparr>cv_digest = [], cv_expected = ae_crc f, cv_remaining = int (length bs), cv_report = None\<rparr>"
    unfolding entry_reader_for_def new by simp
  with \<open>0 < length bs\<close> have "fresh_check (er_crc ?r)" by (auto simp: fresh_check_def)
  moreover have "check_true (we_crc32 env) (er_crc ?r) bs"
    using chk assms(2) by (auto simp: check_true_def file_true_def)
  ultimately show ?thesis
    using assms(1) len by (simp add: entry_good_def entry_at_def walk_good_def chain_good_def check_at_start)
      (simp add: entry_reader_for_def)
qed

lemma check_over:
  assumes "check_at crc32 (Some cv0) got (Some cv)" "check_true crc32 (Some cv0) got"
  shows "cv_report cv = Some (crc32 got)"
proof -
  have "\<not> 0 < cv_remaining cv" using check_running [of crc32 "Some cv0" got "[]" cv] assms by simp
  with assms(1) show ?thesis by (simp add: check_at_def)
qed

lemma add_u64_fits: "unat a + unat b < 2 ^ 64 \<Longrightarrow> add_u64 a b = Inr (a + b) \<and> unat (a + b) = unat a + unat b"
  by (simp add: add_u64_def unat_word_ariths)

lemma walk_sized_store:
  assumes plain: "\<not> ds_folding (wp_stack p)" and good: "walk_good env c0 got (bs @ rest) w"
    and f: "file_true env (wp_file p i) bs" "sized (wp_file p i)" and small: "length (got @ bs) < 2 ^ 63"
  shows "\<exists>w'. walk_sized env p store i w = (Inr True, w') \<and> walk_good env c0 (got @ bs) rest w'
    \<and> wk_user w' = wk_user w @ [(wp_file p i, bs)]
    \<and> map cp_file (wk_events w') = map cp_file (wk_events w) @ (if reported env (wp_file p i) then [i] else [])"
proof -
  let ?f = "wp_file p i"
  define r0 where "r0 = entry_reader_for env p ?f w"
  note g = good [unfolded walk_good_def]
  have "entry_good (we_crc32 env) c0 got r0 [] bs rest r0"
    unfolding r0_def by (rule entry_good_start [OF good f]) (use small in simp)
  from visit_entry_store [OF this r0_def] obtain r where
    v: "visit_entry env p (store ?f (wk_user w)) i w = (Inr True, wk_user w @ [(?f, bs)], r)"
    and e: "entry_good (we_crc32 env) c0 got r0 bs [] rest r" by blast
  note en = e [unfolded entry_good_def]
  define report where "report = (case er_crc r of None \<Rightarrow> None | Some cv \<Rightarrow> cv_report cv)"
  have rep: "report \<noteq> None \<longleftrightarrow> reported env ?f"
  proof (cases "er_crc r0")
    case None
    with en have "er_crc r = None" by (auto simp: entry_at_def check_at_def split: option.splits)
    with None f(2) plain show ?thesis by (auto simp: report_def reported_def r0_def entry_reader_for_def split: if_splits)
  next
    case (Some cv0)
    with en obtain cv where "er_crc r = Some cv" "check_at (we_crc32 env) (Some cv0) bs (Some cv)"
      by (auto simp: entry_at_def check_at_def split: option.splits)
    with check_over [OF this(2)] en Some f(2) show ?thesis
      by (auto simp: report_def reported_def r0_def entry_reader_for_def split: if_splits)
  qed
  define w1 where "w1 = w\<lparr>wk_chain := er_chain r, wk_fault := None, wk_user := wk_user w @ [(?f, bs)]\<rparr>"
  have j: "judge env p (Inr True) (w\<lparr>wk_chain := er_chain r, wk_fault := er_fault r, wk_user := wk_user w @ [(?f, bs)]\<rparr>) = (Inr True, w1)"
    using en by (simp add: judge_def fault_take_def w1_def)
  have taken: "unat (ae_size ?f) - er_remain r = length bs" using en f(1) by (simp add: file_true_def)
  have lb: "unat (of_nat (length bs) :: u64) = length bs"
    using small by (simp add: unat_of_nat)
  have lb2: "unat (ae_size ?f) = length bs" using f(1) by (simp add: file_true_def)
  have con: "add_u64 (wk_consumed w1) (of_nat (length bs)) = Inr (wk_consumed w + of_nat (length bs))"
      "unat (wk_consumed w + of_nat (length bs)) = length (got @ bs)"
    using add_u64_fits [of "wk_consumed w" "of_nat (length bs)"] g small lb by (simp_all add: w1_def)
  have off: "add_u64 (wk_offset w) (ae_size ?f) = Inr (wk_offset w + ae_size ?f)" "unat (wk_offset w + ae_size ?f) = length (got @ bs)"
    using add_u64_fits [of "wk_offset w" "ae_size ?f"] g small lb2 by simp_all
  define w2 where "w2 = report_file p i report (w1\<lparr>wk_consumed := wk_consumed w + of_nat (length bs)\<rparr>)"
  have w2: "wk_chain w2 = er_chain r" "wk_consumed w2 = wk_consumed w + of_nat (length bs)" "wk_offset w2 = wk_offset w" "wk_fault w2 = None"
      "wk_ended w2 = wk_ended w" "wk_queue w2 = []" "wk_user w2 = wk_user w @ [(?f, bs)]"
      "map cp_file (wk_events w2) = map cp_file (wk_events w) @ (if reported env ?f then [i] else [])"
    using rep g by (cases report; simp add: w2_def report_file_def w1_def)+
  define w3 where "w3 = w2\<lparr>wk_offset := wk_offset w + ae_size ?f, wk_sub_stream := wk_sub_stream w2 + 1\<rparr>"
  have c: "close_file env p i report (length bs) w1 = (Inr (), w3)"
    using con(1) off(1) plain w2(3,6)
    by (simp add: close_file_def Let_def w2_def [symmetric] w3_def)
  have "walk_sized env p store i w = (Inr True, w3)"
    unfolding walk_sized_def Let_def v prod.case report_def [symmetric] taken j and_then_simps c by (rule refl)
  moreover have "walk_good env c0 (got @ bs) rest w3"
    using en con(2) off(2) w2 g by (simp add: walk_good_def w3_def)
  ultimately show ?thesis using w2(7,8) by (intro exI [of _ w3]) (simp add: w3_def)
qed


text \<open>A block's bytes dealt out to its files in order; a file without bytes of its own gets none.\<close>

fun deal :: "archive \<Rightarrow> nat list \<Rightarrow> byte list \<Rightarrow> (archive_entry \<times> byte list) list" where
  "deal a [] bs = []"
| "deal a (i # is) bs =
     (let f = ar_files a ! i; n = (if sized f then unat (ae_size f) else 0) in (f, take n bs) # deal a is (drop n bs))"

definition dealt_true :: "walk_env \<Rightarrow> archive \<Rightarrow> nat list \<Rightarrow> byte list \<Rightarrow> bool" where
  "dealt_true env a is bs \<longleftrightarrow> length bs = (\<Sum>j\<leftarrow>filter (\<lambda>j. sized (ar_files a ! j)) is. unat (ae_size (ar_files a ! j)))
     \<and> (\<forall>(f, part) \<in> set (deal a is bs). if sized f then file_true env f part else \<not> empty_file_crc_mismatch f (we_verify env))"

lemma dealt_true_Cons:
  assumes "dealt_true env a (i # is) bs" "f = ar_files a ! i"
  shows "sized f \<Longrightarrow> file_true env f (take (unat (ae_size f)) bs) \<and> dealt_true env a is (drop (unat (ae_size f)) bs)"
    and "\<not> sized f \<Longrightarrow> \<not> empty_file_crc_mismatch f (we_verify env) \<and> dealt_true env a is bs"
  using assms by (simp_all add: dealt_true_def Let_def)

lemma walk_unsized_store:
  assumes "walk_good env c0 got rest w" "\<not> sized (wp_file p i)" "\<not> empty_file_crc_mismatch (wp_file p i) (we_verify env)"
  shows "\<exists>w'. walk_unsized env p store i w = (Inr True, w') \<and> walk_good env c0 got rest w'
    \<and> wk_user w' = wk_user w @ [(wp_file p i, [])] \<and> wk_events w' = wk_events w"
  using assms by (simp add: walk_unsized_def Let_def walk_good_def)

lemma walk_files_store:
  "\<lbrakk>\<not> ds_folding (wp_stack p); walk_good env c0 got (bs @ rest) w; dealt_true env (wp_archive p) is bs; length (got @ bs) < 2 ^ 63\<rbrakk>
   \<Longrightarrow> \<exists>w'. walk_files env p store is w = (Inr True, w') \<and> walk_good env c0 (got @ bs) rest w'
    \<and> wk_user w' = wk_user w @ deal (wp_archive p) is bs
    \<and> map cp_file (wk_events w') = map cp_file (wk_events w) @ filter (\<lambda>i. reported env (wp_file p i)) is"
proof (induction "is" arbitrary: got bs w)
  case Nil
  then show ?case by (simp add: dealt_true_def)
next
  case (Cons i "is")
  let ?f = "wp_file p i"
  note deal = dealt_true_Cons [OF Cons.prems(3) refl]
  show ?case
  proof (cases "sized ?f")
    case True
    let ?n = "unat (ae_size ?f)"
    have split: "bs = take ?n bs @ drop ?n bs" by simp
    have "walk_good env c0 got (take ?n bs @ (drop ?n bs @ rest)) w" using Cons.prems(2) by (simp flip: append_assoc)
    moreover have "length (got @ take ?n bs) < 2 ^ 63" using Cons.prems(4) by (simp add: min_def)
    ultimately
    obtain w1 where one: "walk_sized env p store i w = (Inr True, w1)"
      and good: "walk_good env c0 (got @ take ?n bs) (drop ?n bs @ rest) w1"
      and user: "wk_user w1 = wk_user w @ [(?f, take ?n bs)]"
      and events: "map cp_file (wk_events w1) = map cp_file (wk_events w) @ (if reported env ?f then [i] else [])"
      using walk_sized_store [OF Cons.prems(1) _ _ True] deal(1) [OF True] by blast
    have "length ((got @ take ?n bs) @ drop ?n bs) < 2 ^ 63" using Cons.prems(4) by simp
    from Cons.IH [OF Cons.prems(1) good conjunct2 [OF deal(1) [OF True]] this] one True user events show ?thesis
      by (auto simp: Let_def)
  next
    case False
    from walk_unsized_store [OF Cons.prems(2) False] deal(2) [OF False] obtain w1 where
      one: "walk_unsized env p store i w = (Inr True, w1)" "walk_good env c0 got (bs @ rest) w1"
        "wk_user w1 = wk_user w @ [(?f, [])]" "wk_events w1 = wk_events w" by blast
    from Cons.IH [OF Cons.prems(1) one(2) conjunct2 [OF deal(2) [OF False]] Cons.prems(4)] one False show ?thesis
      by (auto simp: Let_def reported_def)
  qed
qed

lemma reach_end_good:
  assumes "walk_good env c0 got [] w"
  shows "\<exists>c. reach_end env p 0 w = (Inr (), w\<lparr>wk_chain := c\<rparr>)"
proof -
  let ?ly = "walk_layers env p"
  obtain c where "chain_step (we_crc32 env) 1 (wk_chain w) = ([], None, c)"
    using chain_step_end [of "we_crc32 env" c0 got "wk_chain w" 1] assms by (auto simp: walk_good_def)
  then have "block_read ?ly 1 (wk_chain w, wk_fault w) = (Inr [], c, wk_fault w)"
    by (simp add: block_read_def walk_layers_def fault_record_def)
  then have "probe_end ?ly (wk_chain w, wk_fault w) = (Inr (), c, wk_fault w)"
    by (simp add: probe_end.simps [of ?ly "(wk_chain w, wk_fault w)"])
  then show ?thesis by (intro exI [of _ c]) (simp add: reach_end_def read_to_stream_end_def skip_left.simps)
qed

lemma close_block_good:
  assumes "\<not> ds_folding (wp_stack p)" "walk_good env c0 got [] w" "unat (wp_unpack_size p) = length got" "got \<noteq> []"
  shows "\<exists>w'. close_block env p True w = (Inr \<lparr>bo_finished = True, bo_read_in_full = True\<rparr>, w')
    \<and> wk_events w' = wk_events w \<and> wk_user w' = wk_user w"
proof -
  note g = assms(2) [unfolded walk_good_def]
  have con: "wk_consumed w = wp_unpack_size p" using g assms(3) by (metis word_unat_eq_iff)
  have some: "wp_unpack_size p \<noteq> 0" using assms(3,4) by auto
  obtain c where "reach_end env p 0 w = (Inr (), w\<lparr>wk_chain := c\<rparr>)" using reach_end_good [OF assms(2)] by blast
  with g con some assms(1) show ?thesis
    by (simp add: close_block_def check_block_fold_def Let_def)
qed

section \<open>Intact blocks and archives\<close>

definition files_of :: "archive \<Rightarrow> nat \<Rightarrow> nat list" where
  "files_of a i = (case block_file_range a i of (start, end) \<Rightarrow> [start..<end])"

text \<open>
  A block that holds \<open>bs\<close>: its decoder yields them, its checksums are theirs, and its files share them out.
  What the decoder would yield after them is only looked for where the block has no check of its own.
\<close>

definition intact_block :: "walk_env \<Rightarrow> archive \<Rightarrow> nat \<Rightarrow> byte list \<Rightarrow> bool" where
  "intact_block env a i bs \<longleftrightarrow> (let b = ar_blocks a ! i in
     (case we_stack env i of Inl _ \<Rightarrow> False
      | Inr st \<Rightarrow> \<not> ds_folding st \<and> steady (ds_source st) \<and> take (length bs) (fst (flow (ds_source st))) = bs
          \<and> (has_crc b \<and> we_verify env \<or> fst (flow (ds_source st)) = bs))
   \<and> bs \<noteq> [] \<and> length bs < 2 ^ 63 \<and> get_unpack_size b = Inr (of_nat (length bs))
   \<and> (has_crc b \<longrightarrow> crc b = ucast (we_crc32 env bs))
   \<and> dealt_true env a (files_of a i) bs)"

lemma walk_delivers:
  assumes "check_block_mapping a i = Inr ()" "intact_block env a i bs"
  shows "\<exists>events. walk_entries env a i store u =
      (Inr \<lparr>bo_finished = True, bo_read_in_full = True\<rparr>, events, u @ deal a (files_of a i) bs)
    \<and> map cp_file events = filter (\<lambda>j. reported env (ar_files a ! j)) (files_of a i)"
proof -
  let ?b = "ar_blocks a ! i" and ?n = "of_nat (length bs) :: u64"
  note w = assms(2) [unfolded intact_block_def Let_def]
  obtain st where st: "we_stack env i = Inr st" "\<not> ds_folding st" "steady (ds_source st)" "take (length bs) (fst (flow (ds_source st))) = bs"
      "has_crc ?b \<and> we_verify env \<or> fst (flow (ds_source st)) = bs"
    using w by (auto split: sum.splits)
  have n: "unat ?n = length bs" using w by (simp add: unat_of_nat)
  obtain first where first: "sso_get (sm_block_first_sub_stream_index (ar_stream_map a)) i = Some first"
    using assms(1) by (auto simp: check_block_mapping_def Let_def bindE_def split: sum.splits if_splits)
  obtain start end' where r: "block_file_range a i = (start, end')" by fastforce
  then have fs: "files_of a i = [start..<end']" by (simp add: files_of_def)
  define po where "po = (case block_pack_streams a i of [] \<Rightarrow> 0 | r # _ \<Rightarrow> ps_offset r)"
  define p where "p = walk_place_of env a i po st ?n first"
  have p: "wp_archive p = a" "wp_unpack_size p = ?n" "wp_stack p = st" by (simp_all add: p_def walk_place_of_def)
  define c0 where "c0 = block_chain env ?b ?n st"
  have c0: "ch_source c0 = ds_source st" "ch_owed c0 = length bs" "ch_crc c0 = None \<or> has_crc ?b
      \<and> ch_crc c0 = Some \<lparr>cv_digest = [], cv_expected = crc ?b, cv_remaining = int (length bs), cv_report = None\<rparr>"
  proof -
    have "int (length bs) \<le> 2 ^ 63 - 1" using w by simp
    then have "min (int (length bs)) (2 ^ 63 - 1) = int (length bs)" by (rule min_absorb1)
    then show "ch_crc c0 = None \<or> has_crc ?b
      \<and> ch_crc c0 = Some \<lparr>cv_digest = [], cv_expected = crc ?b, cv_remaining = int (length bs), cv_report = None\<rparr>"
      unfolding c0_def block_chain_def crc_check_new_def n by simp
  qed (simp_all add: c0_def block_chain_def n)
  have fresh: "fresh_check (ch_crc c0)" "check_true (we_crc32 env) (ch_crc c0) bs"
    using c0(3) w by (auto simp: fresh_check_def check_true_def)
  have over: "left_over c0 bs (fst (flow (ds_source st)))"
    using st by (auto simp: left_over_def c0_def block_chain_def)
  have good: "walk_good env c0 [] (bs @ []) (walk_start c0 u)"
    using chain_at_start [OF fresh(1)] steady_ended [OF st(3)] st(3) fresh(2) c0(1,2) over
    by (simp add: walk_good_def walk_start_def chain_good_def)
  have "dealt_true env (wp_archive p) [start..<end'] bs" "length ([] @ bs) < 2 ^ 63" using w p fs by simp_all
  from walk_files_store [OF _ good this] p st(2) obtain w1 where files: "walk_files env p store [start..<end'] (walk_start c0 u) = (Inr True, w1)"
    and g1: "walk_good env c0 bs [] w1" and user: "wk_user w1 = u @ deal a [start..<end'] bs"
    and events: "map cp_file (wk_events w1) = filter (\<lambda>i. reported env (ar_files a ! i)) [start..<end']"
    by (auto simp: walk_start_def)
  obtain w2 where close: "close_block env p True w1 = (Inr \<lparr>bo_finished = True, bo_read_in_full = True\<rparr>, w2)"
      "wk_events w2 = wk_events w1" "wk_user w2 = wk_user w1"
    using close_block_good [of p env c0 bs w1] g1 p st(2) n w by auto
  have "walk_entries env a i store u = (Inr \<lparr>bo_finished = True, bo_read_in_full = True\<rparr>, wk_events w2, wk_user w2)"
    using assms(1) w first r st(1) files close(1)
    by (simp add: walk_entries_def Let_def po_def [symmetric] p_def [symmetric] p c0_def [symmetric] bindE_def ok_or_def)
  with close user events fs show ?thesis by simp
qed

end
