(* ===== verification/Archive_Walk.thy ===== *)
theory Archive_Walk
  imports Walk_Complete "HOL-Library.Multiset"
begin

text \<open>
  Walking a whole archive: the files a block's walk visits are those the stream map gives the block, so
  the walk of an archive that was opened visits every entry once.
\<close>

section \<open>The range of a block\<close>

lemma stream_rank_mono: "i \<le> j \<Longrightarrow> stream_rank files i \<le> stream_rank files j"
proof -
  assume "i \<le> j"
  then have "take j files = take i files @ take (j - i) (drop i files)" by (metis le_add_diff_inverse take_add)
  then show ?thesis by (simp add: stream_rank_def)
qed

lemma stream_rank_past:
  assumes "i < j" "i < length files" "ae_has_stream (files ! i)"
  shows "stream_rank files i < stream_rank files j"
proof -
  have "stream_rank files (Suc i) = Suc (stream_rank files i)" using assms by (simp add: stream_rank_Suc)
  with stream_rank_mono [of "Suc i" j files] assms(1) show ?thesis by simp
qed

lemma shrink_bounds:
  assumes "n \<le> length fb"
  shows "shrink_to_block fb i start n \<le> n"
    and "\<forall>j. start \<le> j \<and> j < n \<and> fb ! j = Some i \<longrightarrow> j < shrink_to_block fb i start n"
    and "start < shrink_to_block fb i start n \<longrightarrow> fb ! (shrink_to_block fb i start n - 1) = Some i"
  using assms
proof (induction n)
  case (Suc n)
  {
    case 1 then show ?case using Suc.IH(1) by (simp add: le_Suc_eq)
  next
    case 2
    then show ?case using Suc.IH(2) by (auto simp: get_def less_Suc_eq)
  next
    case 3
    then show ?case using Suc.IH(3) by (auto simp: get_def)
  }
qed simp_all

text \<open>A block's files are an interval: from its first file on, those with fewer streams before them than the next block.\<close>

lemma in_block_interval:
  assumes "holds bl b (stream_rank files s)" "stream_rank files s = sub_offset bl b" "s < length files" "ae_has_stream (files ! s)"
    and "j < length files"
  shows "file_in_block bl files j b \<longleftrightarrow> s \<le> j \<and> stream_rank files j < sub_offset bl (Suc b)"
proof -
  have b: "b < length bl" using assms(1) by (simp add: holds_def)
  show ?thesis
  proof (cases "j < s")
    case True
    have "stream_rank files j \<le> stream_rank files s" using True stream_rank_mono by simp
    moreover have "ae_has_stream (files ! j) \<Longrightarrow> stream_rank files j < stream_rank files s"
      using stream_rank_past [OF True assms(5)] by simp
    ultimately show ?thesis using True assms(2) by (auto simp: file_in_block_def holds_def)
  next
    case False
    have "s = j \<or> stream_rank files s < stream_rank files j"
    proof (cases "s = j")
      case False
      with \<open>\<not> j < s\<close> have "s < j" by simp
      from stream_rank_past [OF this assms(3,4)] show ?thesis ..
    qed simp
    with False b assms(2,4) show ?thesis by (auto simp: file_in_block_def holds_def sub_offset_Suc)
  qed
qed

lemma find_None_upt: "find P [m..<n] = None \<longleftrightarrow> (\<forall>j. m \<le> j \<and> j < n \<longrightarrow> \<not> P j)"
  by (auto simp: find_None_iff)

lemma find_Some_upt:
  assumes "find P [m..<n] = Some j"
  shows "m \<le> j \<and> j < n \<and> P j \<and> (\<forall>i. m \<le> i \<and> i < j \<longrightarrow> \<not> P i)"
proof -
  from assms obtain k where "k < n - m" "P ([m..<n] ! k)" "j = [m..<n] ! k" "\<forall>i<k. \<not> P ([m..<n] ! i)"
    by (auto simp: find_Some_iff)
  then have "k < n - m" "j = m + k" "P j" and none: "\<And>i. i < k \<Longrightarrow> \<not> P (m + i)" by auto
  moreover have "\<not> P i" if "m \<le> i" "i < j" for i using none [of "i - m"] that \<open>j = m + k\<close> by simp
  ultimately show ?thesis by auto
qed

lemma filter_interval:
  assumes "\<And>j. j < n \<Longrightarrow> P j \<longleftrightarrow> s \<le> j \<and> j < e" "e \<le> n"
  shows "filter P [0..<n] = [s..<e]"
proof (cases "s \<le> e")
  case True
  have "[0..<n] = [0..<s] @ [s..<e] @ [e..<n]"
    using upt_add_eq_append [of 0 s "n - s"] upt_add_eq_append [of s e "n - e"] True assms(2) by simp
  moreover have "filter P [0..<s] = []" "filter P [s..<e] = [s..<e]" "filter P [e..<n] = []"
    using assms True by (auto simp: filter_empty_conv filter_id_conv)
  ultimately show ?thesis by simp
next
  case False
  with assms(1) show ?thesis by (auto simp: filter_empty_conv)
qed

definition all_streams_paired :: "archive \<Rightarrow> bool" where
  "all_streams_paired a \<longleftrightarrow> stream_map_ok a (ar_files a) (ar_stream_map a)
     \<and> (ar_files a = [] \<or> sum_list (map num_unpack_sub_streams (ar_blocks a)) = length (filter ae_has_stream (ar_files a)))"

lemma block_range_exact:
  assumes "all_streams_paired a" "i < length (ar_blocks a)"
  shows "files_of a i = filter (\<lambda>j. sm_file_block_index (ar_stream_map a) ! j = Some i) [0..<length (ar_files a)]"
proof -
  let ?files = "ar_files a" and ?bl = "ar_blocks a" and ?fb = "sm_file_block_index (ar_stream_map a)"
    and ?first = "sm_block_first_file_index (ar_stream_map a)" and ?num = "\<lambda>i. num_unpack_sub_streams (ar_blocks a ! i)"
  let ?len = "length ?files"
  note ok = assms(1) [unfolded all_streams_paired_def stream_map_ok_def]
  have fb: "?fb ! j = Some i \<longleftrightarrow> file_in_block ?bl ?files j i" if "j < ?len" for j using ok that by blast
  have lens: "length ?fb = ?len" "length ?first = length ?bl" using ok by simp_all
  show ?thesis
  proof (cases "?files = [] \<or> ?num i = 0")
    case True
    then have "\<not> file_in_block ?bl ?files j i" if "j < ?len" for j
      using that by (auto simp: file_in_block_def holds_def)
    then have none: "filter (\<lambda>j. ?fb ! j = Some i) [0..<?len] = []" using fb by (simp add: filter_empty_conv)
    have "shrink_to_block ?fb i 0 0 = 0" by simp
    with True assms(2) lens none show ?thesis by (auto simp: files_of_def block_file_range_def Let_def get_def split: option.splits)
  next
    case False
    then have num: "0 < ?num i" and total: "sum_list (map num_unpack_sub_streams ?bl) = stream_rank ?files ?len"
      using ok by (auto simp: stream_rank_def)
    have off: "b \<le> length ?bl \<Longrightarrow> sub_offset ?bl b \<le> stream_rank ?files ?len" for b
      using sub_offset_mono [of b "length ?bl" ?bl] total by (simp add: sub_offset_def)
    have starts: "?first ! b < ?len \<and> ae_has_stream (?files ! (?first ! b)) \<and> stream_rank ?files (?first ! b) = sub_offset ?bl b"
      if "b < length ?bl" "0 < ?num b" for b
    proof -
      have "sub_offset ?bl b < sub_offset ?bl (Suc b)" using that by (simp add: sub_offset_Suc)
      also have "\<dots> \<le> stream_rank ?files ?len" using off [of "Suc b"] that(1) by simp
      finally show ?thesis using ok that by blast
    qed
    let ?s = "?first ! i"
    note s = starts [OF assms(2) num]
    have iv: "?fb ! j = Some i \<longleftrightarrow> ?s \<le> j \<and> stream_rank ?files j < sub_offset ?bl (Suc i)" if "j < ?len" for j
      using in_block_interval [of ?bl i ?files ?s j] s assms(2) num that fb [OF that]
      by (simp add: holds_def)
    define end' where "end' = (case find (\<lambda>j. ?num j \<noteq> 0) [Suc i..<length ?bl] of
         None \<Rightarrow> ?len | Some j \<Rightarrow> (case get ?first j of None \<Rightarrow> ?len | Some n \<Rightarrow> n))"
    have past: "end' \<le> ?len \<and> (\<forall>j < ?len. stream_rank ?files j < sub_offset ?bl (Suc i) \<longrightarrow> j < end')"
    proof (cases "find (\<lambda>j. ?num j \<noteq> 0) [Suc i..<length ?bl]")
      case None then show ?thesis by (simp add: end'_def)
    next
      case (Some k)
      from find_Some_upt [OF this] have k: "Suc i \<le> k" "k < length ?bl" "0 < ?num k" "\<forall>j. Suc i \<le> j \<and> j < k \<longrightarrow> ?num j = 0" by auto
      have e: "end' = ?first ! k" using Some k(2) lens by (simp add: end'_def get_def)
      have "stream_rank ?files (?first ! k) = sub_offset ?bl (Suc i)"
        using starts [OF k(2,3)] sub_offset_const [OF k(4,1)] k(2) by simp
      moreover have "j < ?first ! k" if "stream_rank ?files j < stream_rank ?files (?first ! k)" for j
        using stream_rank_mono [of "?first ! k" j ?files] that by (meson leD linorder_not_less)
      ultimately show ?thesis using starts [OF k(2,3)] e by simp
    qed
    let ?n = "min (max end' ?s) ?len"
    let ?e = "shrink_to_block ?fb i ?s ?n"
    have range: "block_file_range a i = (?s, ?e)"
      using assms(2) lens num s by (simp add: block_file_range_def Let_def get_def end'_def min_absorb1)
    have n: "?n \<le> length ?fb" using lens by simp
    note shrink = shrink_bounds [OF n, where i = i and start = ?s]
    have "filter (\<lambda>j. ?fb ! j = Some i) [0..<?len] = [?s..<?e]"
    proof (rule filter_interval)
      show "?e \<le> ?len" using shrink(1) by simp
      fix j assume j: "j < ?len"
      show "?fb ! j = Some i \<longleftrightarrow> ?s \<le> j \<and> j < ?e"
      proof
        assume at: "?fb ! j = Some i"
        then have low: "?s \<le> j" "stream_rank ?files j < sub_offset ?bl (Suc i)" using iv [OF j] by blast+
        then have "j < end'" using past j by blast
        then have below: "j < ?n" using j by simp
        have "j < ?e" by (intro shrink(2) [rule_format] conjI low(1) at below)
        with low(1) show "?s \<le> j \<and> j < ?e" ..
      next
        assume in_range: "?s \<le> j \<and> j < ?e"
        have e1: "?e - 1 < ?len" using shrink(1) in_range by linarith
        have "?fb ! (?e - 1) = Some i" using shrink(3) in_range by simp
        with iv [OF e1] have "stream_rank ?files (?e - 1) < sub_offset ?bl (Suc i)" by simp
        moreover have "j \<le> ?e - 1" using in_range by linarith
        then have "stream_rank ?files j \<le> stream_rank ?files (?e - 1)" by (rule stream_rank_mono)
        ultimately show "?fb ! j = Some i" using iv [OF j] in_range by simp
      qed
    qed
    then show ?thesis by (simp add: files_of_def range)
  qed
qed


section \<open>The walk of an archive\<close>

lemma walk_blocks_store:
  "\<forall>i \<in> set is. check_block_mapping a i = Inr () \<and> intact_block env a i (content i) \<Longrightarrow> \<exists>aw'. walk_blocks env a store is aw = (Inr (), aw')
     \<and> aw_user aw' = aw_user aw @ concat (map (\<lambda>i. deal a (files_of a i) (content i)) is)
     \<and> map bc_block (aw_blocks aw') = map bc_block (aw_blocks aw) @ is"
proof (induction "is" arbitrary: aw)
  case (Cons i "is")
  then have intact: "check_block_mapping a i = Inr ()" "intact_block env a i (content i)" by simp_all
  obtain events where w: "walk_entries env a i store (aw_user aw) =
      (Inr \<lparr>bo_finished = True, bo_read_in_full = True\<rparr>, events, aw_user aw @ deal a (files_of a i) (content i))"
    using walk_delivers [OF intact] by blast
  have "get_unpack_size (ar_blocks a ! i) = Inr (of_nat (length (content i)))"
    using intact(2) by (simp add: intact_block_def Let_def)
  then have "\<exists>bc. block_completed a i \<lparr>bo_finished = True, bo_read_in_full = True\<rparr> = Inr [bc] \<and> bc_block bc = i"
    by (simp add: block_completed_def Let_def bindE_def)
  with w obtain aw1 where one: "decode_block_alone env a store i aw = (Inr (), aw1)"
      "aw_user aw1 = aw_user aw @ deal a (files_of a i) (content i)" "map bc_block (aw_blocks aw1) = map bc_block (aw_blocks aw) @ [i]"
    by (auto simp: decode_block_alone_def Let_def bindE_def)
  have "\<forall>i \<in> set is. check_block_mapping a i = Inr () \<and> intact_block env a i (content i)" using Cons.prems by simp
  from Cons.IH [OF this, of aw1] one show ?case by auto
qed simp

lemma walk_empty_store:
  assumes "\<forall>i \<in> set is. sm_file_block_index (ar_stream_map a) ! i = None \<longrightarrow> \<not> empty_file_crc_mismatch (ar_files a ! i) (we_verify env)"
  shows "walk_empty env a store is aw = (Inr (), aw\<lparr>aw_user := aw_user aw @
     map (\<lambda>i. (ar_files a ! i, [])) (filter (\<lambda>i. sm_file_block_index (ar_stream_map a) ! i = None) is)\<rparr>)"
  using assms by (induction "is" arbitrary: aw) (auto simp: Let_def)

lemma deal_files: "map fst (deal a is bs) = map ((!) (ar_files a)) is"
  by (induction "is" arbitrary: bs) (simp_all add: Let_def)

text \<open>A list of the positions taken block by block, those of none at the end, is each position once.\<close>

lemma grouped_positions:
  assumes "\<forall>j < n. \<forall>b. g j = Some b \<longrightarrow> b < m"
  shows "mset (concat (map (\<lambda>i. filter (\<lambda>j. g j = Some i) [0..<n]) [0..<m]) @ filter (\<lambda>j. g j = None) [0..<n]) = mset [0..<n]"
proof -
  have "mset (concat (map (\<lambda>i. filter (\<lambda>j. g j = Some i) [0..<n]) [0..<k])) = filter_mset (\<lambda>j. \<exists>i<k. g j = Some i) (mset [0..<n])" for k
  proof (induction k)
    case (Suc k)
    have "filter_mset (\<lambda>j. \<exists>i<Suc k. g j = Some i) M
        = filter_mset (\<lambda>j. \<exists>i<k. g j = Some i) M + filter_mset (\<lambda>j. g j = Some k) M" for M :: "nat multiset"
      by (induction M) (auto simp: less_Suc_eq)
    with Suc show ?case by (simp del: mset_upt)
  qed simp
  from this [of m] have "mset (concat (map (\<lambda>i. filter (\<lambda>j. g j = Some i) [0..<n]) [0..<m]))
      = filter_mset (\<lambda>j. g j \<noteq> None) (mset [0..<n])"
    using assms by (auto simp del: mset_upt intro!: filter_mset_cong)
  then show ?thesis using multiset_partition [of "mset [0..<n]" "\<lambda>j. g j \<noteq> None"] by (simp del: mset_upt)
qed

lemma archive_delivers:
  assumes paired: "all_streams_paired a" and bare: "\<forall>f \<in> set (ar_files a). ae_has_stream f \<or> \<not> ae_has_crc f"
    and intact: "\<forall>i < length (ar_blocks a). check_block_mapping a i = Inr () \<and> intact_block env a i (content i)"
  shows "\<exists>aw. for_each_entries env a store [] = (Inr (), aw)
    \<and> aw_user aw = concat (map (\<lambda>i. deal a (files_of a i) (content i)) [0..<length (ar_blocks a)])
        @ map (\<lambda>j. (ar_files a ! j, [])) (filter (\<lambda>j. sm_file_block_index (ar_stream_map a) ! j = None) [0..<length (ar_files a)])
    \<and> mset (map fst (aw_user aw)) = mset (ar_files a)
    \<and> map bc_block (aw_blocks aw) = [0..<length (ar_blocks a)]"
proof -
  let ?fb = "sm_file_block_index (ar_stream_map a)" and ?nf = "length (ar_files a)" and ?nb = "length (ar_blocks a)"
  note ok = paired [unfolded all_streams_paired_def stream_map_ok_def]
  have fb: "?fb ! j = Some b \<longleftrightarrow> file_in_block (ar_blocks a) (ar_files a) j b" if "j < ?nf" for j b using ok that by blast
  have inside: "\<forall>j < ?nf. \<forall>b. ?fb ! j = Some b \<longrightarrow> b < ?nb" using fb by (auto simp: file_in_block_def holds_def)
  have lens: "length ?fb = ?nf" "length (sm_block_first_file_index (ar_stream_map a)) = ?nb" using ok by simp_all
  have covers: "map_covers a"
    using lens inside by (auto simp: map_covers_def Let_def in_set_conv_nth split: option.splits)
  have none: "\<not> empty_file_crc_mismatch (ar_files a ! j) (we_verify env)" if "j < ?nf" "?fb ! j = None" for j
  proof -
    have "\<not> ae_has_stream (ar_files a ! j)"
    proof
      assume stream: "ae_has_stream (ar_files a ! j)"
      have "ar_files a \<noteq> []" using that(1) by auto
      then have "sub_offset (ar_blocks a) ?nb = stream_rank (ar_files a) ?nf" using ok by (simp add: sub_offset_def stream_rank_def)
      with stream_rank_past [OF that(1) that(1) stream]
      have low: "stream_rank (ar_files a) j < sub_offset (ar_blocks a) ?nb" by simp
      have "\<exists>b. holds (ar_blocks a) b r" if "r < sub_offset (ar_blocks a) n" "n \<le> ?nb" for r n
        using that
      proof (induction n)
        case (Suc n)
        then show ?case by (cases "r < sub_offset (ar_blocks a) n") (auto simp: holds_def sub_offset_Suc intro: exI [of _ n])
      qed simp
      with low obtain b where "holds (ar_blocks a) b (stream_rank (ar_files a) j)" by blast
      with stream fb [OF that(1)] that(2) show False by (simp add: file_in_block_def)
    qed
    with bare that(1) show ?thesis by (auto simp: empty_file_crc_mismatch_def)
  qed
  obtain aw1 where blocks: "walk_blocks env a store [0..<?nb] \<lparr>aw_completions = [], aw_blocks = [], aw_user = []\<rparr> = (Inr (), aw1)"
      "aw_user aw1 = concat (map (\<lambda>i. deal a (files_of a i) (content i)) [0..<?nb])" "map bc_block (aw_blocks aw1) = [0..<?nb]"
    using walk_blocks_store [of "[0..<?nb]" a env content "\<lparr>aw_completions = [], aw_blocks = [], aw_user = []\<rparr>"] intact by auto
  have "\<forall>i \<in> set [0..<?nf]. ?fb ! i = None \<longrightarrow> \<not> empty_file_crc_mismatch (ar_files a ! i) (we_verify env)" using none by simp
  note empties = walk_empty_store [OF this]
  have run: "for_each_entries env a store [] = (Inr (), aw1\<lparr>aw_user := aw_user aw1 @
     map (\<lambda>j. (ar_files a ! j, [])) (filter (\<lambda>j. ?fb ! j = None) [0..<?nf])\<rparr>)"
    using covers blocks(1) empties by (simp add: for_each_entries_def)
  have ranges: "map (files_of a) [0..<?nb] = map (\<lambda>i. filter (\<lambda>j. ?fb ! j = Some i) [0..<?nf]) [0..<?nb]"
    using block_range_exact [OF paired] by simp
  have "map fst (concat (map (\<lambda>i. deal a (files_of a i) (content i)) [0..<?nb])
        @ map (\<lambda>j. (ar_files a ! j, [])) (filter (\<lambda>j. ?fb ! j = None) [0..<?nf]))
      = map ((!) (ar_files a)) (concat (map (\<lambda>i. filter (\<lambda>j. ?fb ! j = Some i) [0..<?nf]) [0..<?nb]) @ filter (\<lambda>j. ?fb ! j = None) [0..<?nf])"
    unfolding ranges [symmetric] by (simp add: map_concat comp_def deal_files)
  then have "mset (map fst (concat (map (\<lambda>i. deal a (files_of a i) (content i)) [0..<?nb])
        @ map (\<lambda>j. (ar_files a ! j, [])) (filter (\<lambda>j. ?fb ! j = None) [0..<?nf])))
      = image_mset ((!) (ar_files a)) (mset [0..<?nf])"
    by (simp only: mset_map grouped_positions [OF inside])
  also have "\<dots> = mset (map ((!) (ar_files a)) [0..<?nf])" by (simp del: mset_upt)
  also have "\<dots> = mset (ar_files a)" by (simp only: map_nth)
  finally have once: "mset (map fst (concat (map (\<lambda>i. deal a (files_of a i) (content i)) [0..<?nb])
        @ map (\<lambda>j. (ar_files a ! j, [])) (filter (\<lambda>j. ?fb ! j = None) [0..<?nf]))) = mset (ar_files a)" .
  have upd: "aw_user (aw\<lparr>aw_user := u\<rparr>) = u" "aw_blocks (aw\<lparr>aw_user := u\<rparr>) = aw_blocks aw"
    for aw :: "(archive_entry \<times> byte list) list archive_walk" and u
    by simp_all
  show ?thesis
    by (intro exI conjI, rule run) (simp_all only: upd blocks(2,3) once)
qed


section \<open>Archives that were opened\<close>

lemma stream_map_ok_flags:
  assumes "stream_map_ok a files sm" "ar_blocks a' = ar_blocks a"
    and "map (ae_compressed_size_update (\<lambda>_. 0)) files' = map (ae_compressed_size_update (\<lambda>_. 0)) files"
  shows "stream_map_ok a' files' sm" "length (filter ae_has_stream files') = length (filter ae_has_stream files)"
proof -
  have l: "length files' = length files" using assms(3) by (metis length_map)
  have flags: "map ae_has_stream files' = map ae_has_stream files"
    using l same_stream_flags(1) [OF assms(3)] by (intro nth_equalityI) simp_all
  have n: "length (filter ae_has_stream (take i xs)) = length (filter id (take i (map ae_has_stream xs)))" for i and xs :: "archive_entry list"
    by (simp add: take_map filter_map comp_def)
  have rank: "stream_rank files' = stream_rank files"
    by (intro ext) (simp only: stream_rank_def n flags)
  have stream: "j < length files \<Longrightarrow> ae_has_stream (files' ! j) = ae_has_stream (files ! j)" for j
    using same_stream_flags(1) [OF assms(3)] .
  then show "stream_map_ok a' files' sm"
    using assms(1) unfolding stream_map_ok_def file_in_block_def assms(2) rank l by auto
  show "length (filter ae_has_stream files') = length (filter ae_has_stream files)"
    using n [of "length files" files'] n [of "length files" files] flags l by simp
qed

lemma block_mapping_found:
  assumes "pack_map_ok a0 (ar_stream_map a)" "stream_map_ok a (ar_files a) (ar_stream_map a)"
    and "ar_blocks a0 = ar_blocks a" "ar_pack_sizes a0 = ar_pack_sizes a" "length (ar_pack_sizes a) \<le> usize_max"
    and "i < length (ar_blocks a)"
  shows "check_block_mapping a i = Inr ()"
proof -
  let ?sum = "\<lambda>i. sum_list (map (\<lambda>b. length (packed_streams b)) (take i (ar_blocks a)))"
  have "?sum i + length (packed_streams (ar_blocks a ! i)) = ?sum (Suc i)"
    using assms(6) by (simp add: take_Suc_conv_app_nth)
  also have "\<dots> \<le> sum_list (map (\<lambda>b. length (packed_streams b)) (ar_blocks a))"
    using sum_list_append [of "map (\<lambda>b. length (packed_streams b)) (take (Suc i) (ar_blocks a))"
        "map (\<lambda>b. length (packed_streams b)) (drop (Suc i) (ar_blocks a))"] by (simp flip: map_append)
  finally have end_in: "?sum i + length (packed_streams (ar_blocks a ! i)) \<le> length (ar_pack_sizes a)"
    using assms(1,3,4) by (simp add: pack_map_ok_def)
  have "from_counts (map num_unpack_sub_streams (ar_blocks a)) = Inr (sm_block_first_sub_stream_index (ar_stream_map a))"
    using assms(2) by (simp add: stream_map_ok_def)
  then have "sso_get (sm_block_first_sub_stream_index (ar_stream_map a)) i \<noteq> None"
    using assms(6) by (simp add: from_counts_spec)
  with end_in assms show ?thesis
    by (simp add: check_block_mapping_def Let_def get_def bindE_def ok_or_def pack_map_ok_def stream_map_ok_def)
qed

lemma opened_paired:
  assumes "opened l n a"
  shows "all_streams_paired a \<and> (\<forall>f \<in> set (ar_files a). ae_has_stream f \<or> \<not> ae_has_crc f)
    \<and> (length (ar_pack_sizes a) \<le> usize_max \<longrightarrow> (\<forall>i < length (ar_blocks a). check_block_mapping a i = Inr ()))"
proof -
  from assms obtain k a0 a1 where o: "header_ok \<lparr>hb_bytes = k, hb_limits = l\<rparr> a0" "calculate_stream_map a0 = Inr a1"
    and eq: "ar_blocks a = ar_blocks a0" "ar_pack_sizes a = ar_pack_sizes a0" "ar_sub_streams_info a = ar_sub_streams_info a0"
      "ar_files a = ar_files a1" "ar_stream_map a = ar_stream_map a1" by (rule opened_map)
  note spec = calculate_stream_map_spec [OF o(2)]
  have sm: "stream_map_ok a (ar_files a) (ar_stream_map a)"
    using stream_map_ok_flags(1) [of a0 "ar_files a0" "ar_stream_map a1" a "ar_files a"] spec eq by simp
  note files = opened_files [OF assms]
  have "ar_files a = [] \<or> sum_list (map num_unpack_sub_streams (ar_blocks a)) = length (filter ae_has_stream (ar_files a))"
    using files o(1) eq
    by (auto simp: files_ok_def header_ok_def streams_ok_def sub_streams_ok_def streams_absent_def total_unpack_sub_streams_def)
  moreover have "\<forall>f \<in> set (ar_files a). ae_has_stream f \<or> \<not> ae_has_crc f" using files by (auto simp: files_ok_def)
  moreover have "check_block_mapping a i = Inr ()" if "length (ar_pack_sizes a) \<le> usize_max" "i < length (ar_blocks a)" for i
    using block_mapping_found [of a0 a i] spec sm eq that by simp
  ultimately show ?thesis using sm by (simp add: all_streams_paired_def)
qed

lemma read_archive_paired:
  assumes "read_with_limits crc32 add_decoder f l = Inr a" "length (ar_pack_sizes a) \<le> usize_max"
  shows "all_streams_paired a \<and> (\<forall>f \<in> set (ar_files a). ae_has_stream f \<or> \<not> ae_has_crc f)
    \<and> (\<forall>i < length (ar_blocks a). check_block_mapping a i = Inr ())"
  using read_with_limits_opened [OF assms(1)] opened_paired [of l "length f" a] assms(2)
  by (auto simp: archive_default_def stream_map_default_def all_streams_paired_def stream_map_ok_def from_counts_def)

end
