(* ===== verification/Walk_Sample.thy ===== *)
theory Walk_Sample
  imports Archive_Walk Sample
begin

text \<open>
  Blocks small enough to walk by evaluation: a block of ten bytes that holds two files, between them an
  entry without data, decoded in uneven pieces; the same block with more behind its declared size; and
  the complete archive of \<open>Sample\<close>.
\<close>

definition byte_sum :: "byte list \<Rightarrow> u32" where
  "byte_sum bs = sum_list (map ucast bs)"

definition walked_entry :: "u64 \<Rightarrow> u64 \<Rightarrow> archive_entry" where
  "walked_entry n c = entry_default\<lparr>ae_has_stream := True, ae_size := n, ae_has_crc := True, ae_crc := c\<rparr>"

definition walked_block :: block where
  "walked_block = ten_byte_block\<lparr>has_crc := True, crc := 55\<rparr>"

definition walked_archive :: archive where
  "walked_archive = (case calculate_stream_map (archive_default\<lparr>ar_pack_sizes := [10], ar_blocks := [walked_block],
       ar_files := [walked_entry 4 10, entry_default, walked_entry 6 45]\<rparr>) of
     Inl _ \<Rightarrow> archive_default | Inr a \<Rightarrow> a)"

definition walk_env_of :: "(byte list \<Rightarrow> u32) \<Rightarrow> source \<Rightarrow> walk_env" where
  "walk_env_of crc32 s = \<lparr>we_crc32 = crc32, we_copied = id, we_from_coder = (\<lambda>_. None), we_verify = True,
     we_stack = (\<lambda>_. Inr \<lparr>ds_source = s, ds_folding = False, ds_pushes = False, ds_folded = (\<lambda>_ _ _. None)\<rparr>)\<rparr>"

definition walked_env :: "source \<Rightarrow> walk_env" where
  "walked_env = walk_env_of byte_sum"

definition walked_bytes :: "byte list" where
  "walked_bytes = [1, 2, 3, 4, 5, 6, 7, 8, 9, 10]"

definition walked_source :: source where
  "walked_source = [Yields [1, 2, 3], Yields [4, 5, 6, 7, 8, 9, 10]]"

lemma walked_archive_files:
  "files_of walked_archive 0 = [0, 1, 2]" "files_walked walked_archive 0 = [0, 2]"
  "check_block_mapping walked_archive 0 = Inr ()" "get_unpack_size (ar_blocks walked_archive ! 0) = Inr 10"
  "ar_blocks walked_archive ! 0 = walked_block" "map (unat \<circ> ae_size) (ar_files walked_archive) = [4, 0, 6]"
  "map ae_has_crc (ar_files walked_archive) = [True, False, True]" "map ae_crc (ar_files walked_archive) = [10, 0, 45]"
  by code_simp+

lemma walked_stack:
  "we_stack (walk_env_of c s) i = Inr \<lparr>ds_source = s, ds_folding = False, ds_pushes = False, ds_folded = (\<lambda>_ _ _. None)\<rparr>"
  "we_verify (walk_env_of c s)" "we_crc32 (walk_env_of c s) = c"
  by (simp_all add: walk_env_of_def)

lemma walked_block_sums: "has_crc walked_block" "crc walked_block = ucast (byte_sum walked_bytes)"
  "get_unpack_size walked_block = Inr (of_nat (length walked_bytes))"
  by code_simp+

lemma walked_dealt: "dealt_true (walked_env s) walked_archive [0, 1, 2] walked_bytes"
proof -
  have "we_verify (walked_env s) = we_verify (walked_env [])" "we_crc32 (walked_env s) = we_crc32 (walked_env [])"
    by (simp_all add: walked_env_def walked_stack)
  then have "dealt_true (walked_env s) walked_archive [0, 1, 2] walked_bytes = dealt_true (walked_env []) walked_archive [0, 1, 2] walked_bytes"
    unfolding dealt_true_def file_true_def by (simp only:)
  also have "\<dots>" by code_simp
  finally show ?thesis .
qed

lemma walked_steady: "steady (walked_source @ extra) = steady extra" "fst (flow (walked_source @ extra)) = walked_bytes @ fst (flow extra)"
  by (simp_all add: walked_source_def walked_bytes_def)

lemma walked_intact:
  assumes "steady extra"
  shows "intact_block (walked_env (walked_source @ extra)) walked_archive 0 walked_bytes"
  using walked_dealt walked_block_sums assms
  by (simp add: intact_block_def walked_steady walked_archive_files walked_env_def walked_stack)
     (simp add: walked_bytes_def)

definition walked_delivery :: "(archive_entry \<times> byte list) list" where
  "walked_delivery = deal walked_archive [0, 1, 2] walked_bytes"

lemma walked_delivered: "map snd walked_delivery = [[1, 2, 3, 4], [], [5, 6, 7, 8, 9, 10]]"
  by code_simp

text \<open>
  What a block with a checksum of its own decodes to past its declared size is not looked at: the walk
  ends as if it were not there.
\<close>

lemma trailing_bytes_unnoticed:
  assumes "steady extra"
  shows "\<exists>events. walk_entries (walked_env (walked_source @ extra)) walked_archive 0 store [] =
    (Inr \<lparr>bo_finished = True, bo_read_in_full = True\<rparr>, events, walked_delivery)"
  using walk_delivers [OF walked_archive_files(3) walked_intact [OF assms], of "[]"]
  by (auto simp: walked_archive_files walked_delivery_def)

lemma walked_once:
  "\<exists>events. walk_entries (walked_env walked_source) walked_archive 0 store [] =
    (Inr \<lparr>bo_finished = True, bo_read_in_full = True\<rparr>, events, walked_delivery)"
  using trailing_bytes_unnoticed [of "[]"] by simp

lemma walked_parts:
  "(\<Sum>j\<leftarrow>files_walked walked_archive 0. unat (ae_size (ar_files walked_archive ! j))) = 10"
  "file_part walked_archive [0, 2] walked_bytes 1 = [5, 6, 7, 8, 9, 10]"
  "ae_has_crc (ar_files walked_archive ! 2)" "ae_crc (ar_files walked_archive ! 2) = 45"
  by code_simp+

lemma walked_source_facts: "stays_ended walked_source" "flow walked_source = (walked_bytes, None)"
  by (simp_all add: stays_ended_def walked_source_def walked_bytes_def)

definition walked_stack_of :: "source \<Rightarrow> decode_stack" where
  "walked_stack_of s = \<lparr>ds_source = s, ds_folding = False, ds_pushes = False, ds_folded = (\<lambda>_ _ _. None)\<rparr>"

lemma walked_uses:
  "we_verify (walked_env s)" "we_stack (walked_env s) 0 = Inr (walked_stack_of s)"
  "stays_ended (ds_source (walked_stack_of walked_source))"
  "ds_folding (walked_stack_of s) \<longrightarrow> folds_truly env (walked_stack_of s)"
  "(\<Sum>j\<leftarrow>files_walked walked_archive 0. unat (ae_size (ar_files walked_archive ! j))) = unat (10 :: u64)"
  "walked_bytes = fst (flow (ds_source (walked_stack_of walked_source)))"
  by (simp_all add: walked_env_def walked_stack walked_stack_of_def walked_source_facts walked_parts)

text \<open>
  A file without a checksum is reported complete all the same when its bytes were folded on the workers.
\<close>

lemma unchecked_file_reported:
  assumes "ds_folded (wp_stack p) (ch_source (wk_chain w)) (wk_offset w) (ae_size (ar_files (wp_archive p) ! i)) = Some c"
    and "wk_queue w = []" "\<not> ae_has_crc (ar_files (wp_archive p) ! i)"
  shows "fold_file env p i whole w = (Inr (Some c), w)"
  using assms by (simp add: fold_file_def Let_def)

text \<open>The archive of \<open>Sample\<close>, with a checksum that is its file's.\<close>

definition sample_env :: walk_env where
  "sample_env = walk_env_of (\<lambda>_. 0x2A) [Yields [0x58]]"

lemma sample_parts:
  "length (ar_blocks sample_archive) = 1" "files_of sample_archive 0 = [0]" "length (ar_pack_sizes sample_archive) = 1"
  "\<not> has_crc (ar_blocks sample_archive ! 0)" "get_unpack_size (ar_blocks sample_archive ! 0) = Inr 1"
  "map ae_name (ar_files sample_archive) = [[0x61]]"
  by code_simp+

lemma sample_dealt: "dealt_true sample_env sample_archive [0] [0x58]"
  by code_simp

lemma sample_intact: "intact_block sample_env sample_archive 0 [0x58]"
  using sample_dealt by (simp add: intact_block_def sample_parts sample_env_def walked_stack)

lemma sample_delivery:
  "map snd (deal sample_archive (files_of sample_archive 0) [0x58]) = [[0x58]]"
  "filter (\<lambda>j. sm_file_block_index (ar_stream_map sample_archive) ! j = None) [0..<length (ar_files sample_archive)] = []"
  by code_simp+

end
