(* ===== verification/Spec2Isabelle.thy ===== *)
theory Spec2Isabelle
  imports Sample Histories Written_Sample Finished_Sample Ordered_Sample Cipher_Sample Walk_Sample
begin

text \<open>
  \<^bold>\<open>sevenz-turbo\<close> reads and writes 7z archives. This development models its container side, the code
  between the bytes of an archive and the codecs, and proves what a user of the crate relies on.

  \<^bold>\<open>The program.\<close> A 7z file is a start header, packed streams and an end header. The end header, plain
  or itself packed, describes blocks (graphs of coders over packed streams), their sub-streams, and
  the entries. Opening (\<^verbatim>\<open>src/src/reader.rs\<close>) parses it under limits a caller sets, checks the coder
  graphs and derives the map from entries to blocks and packed ranges. Writing (\<^verbatim>\<open>src/src/writer.rs\<close>)
  runs entries through chains of encoders, records what it wrote, and finishes with a header the
  reader accepts. Extracting walks the blocks, hands each entry to a callback through readers that bound
  and check it, and vouches for what it read. Around them are the error type, bit sets, the storage of blocks and coders, key
  derivation with its cache, the cipher streams, the encoder options, the filters, and the ordered
  fan-out that runs the folders of an archive on several threads.

  \<^bold>\<open>Theories and sources.\<close>
  \<^item> \<open>Prelude\<close>: \<^verbatim>\<open>Result\<close> as a sum, parsers over the remaining bytes, the law \<open>decodes\<close> (a parser reads back
    exactly what a writer wrote) and the locale \<open>codec\<close>, interpreted in \<open>Wire\<close>.
  \<^item> \<open>Errors\<close> (\<^verbatim>\<open>error.rs\<close>), \<open>Wire\<close> (\<^verbatim>\<open>lib.rs\<close>, integers of \<^verbatim>\<open>reader.rs\<close> and \<^verbatim>\<open>writer.rs\<close>), \<open>Bit_Set\<close>
    (\<^verbatim>\<open>bitset.rs\<close>; locale \<open>index_set\<close>), \<open>Unicode\<close> (UTF-16 of the standard library), \<open>Block_Model\<close>
    (\<^verbatim>\<open>block.rs\<close>; locale \<open>coder_storage\<close>), \<open>Archive_Model\<close> (\<^verbatim>\<open>archive.rs\<close>, \<^verbatim>\<open>time.rs\<close>), \<open>Limits\<close>
    (\<^verbatim>\<open>container.rs\<close>), \<open>Decoder_Memory\<close> (\<^verbatim>\<open>decoder.rs\<close>, \<^verbatim>\<open>codec/lzma_turbo.rs\<close>).
  \<^item> \<open>Coder_Graph\<close>, \<open>Streams_Reader\<close>, \<open>Files_Reader\<close>, \<open>Stream_Map\<close>, \<open>Archive_Reader\<close> (\<^verbatim>\<open>reader.rs\<close>): opening.
  \<^item> \<open>Entry_Readers\<close>, \<open>Block_Walk\<close> (\<^verbatim>\<open>reader.rs\<close>): the layers over a block's decoder, callbacks, and the walk of
    blocks and archives. \<open>Walk_Sound\<close>: what a walk that ended well says of the decoded bytes.
    \<open>Walk_Complete\<close>, \<open>Archive_Walk\<close>: intact blocks and archives are delivered whole.
  \<^item> \<open>Key_Derivation\<close> (\<^verbatim>\<open>encryption/aes.rs\<close>, \<^verbatim>\<open>encryption/password.rs\<close>), \<open>Encoder_Options\<close>
    (\<^verbatim>\<open>encoder_options.rs\<close>, \<^verbatim>\<open>encoder.rs\<close>).
  \<^item> \<open>Crypto_Backend\<close> (\<^verbatim>\<open>crypto_backend.rs\<close>; locales \<open>chained_cipher\<close>, the contract of a cipher called piece by
    piece, and \<open>cipher_lane\<close>, an implementation of a mode, interpreted on every backend) and
    \<open>Cipher_Streams\<close> (\<^verbatim>\<open>encryption/aes.rs\<close>): the AES decoder and encoder, proved over the contract.
    \<open>Cipher_Round_Trip\<close>: the two together over the default backend.
  \<^item> \<open>Header_Writer\<close>, \<open>Sources\<close>, \<open>Folder_Encoder\<close>, \<open>Archive_Writer\<close> (\<^verbatim>\<open>writer.rs\<close>, \<^verbatim>\<open>writer/\<close>): writing.
  \<^item> \<open>Ordered\<close> (\<^verbatim>\<open>ordered.rs\<close>): the fan-out as a step relation over threads, with its three condition
    variables, notifications outside the lock and spurious wake-ups.
  \<^item> \<open>Folder_Round_Trip\<close>, \<open>Streams_Round_Trip\<close>, \<open>Files_Round_Trip\<close>: the reader inverts the header writer.
    \<open>Writer_Invariants\<close>, \<open>Writer_Pushes\<close>, \<open>Writer_Histories\<close>: what every push, failed or not, keeps of the
    writer's records. \<open>Stream_Map_Total\<close>, \<open>Written_Archive\<close>: a finished file opens. \<open>Histories\<close>: runs of
    operations on bit sets and coders. \<open>Ordered_Invariants\<close>, \<open>Ordered_Liveness\<close>, \<open>Ordered_Sequential\<close>: the
    fan-out keeps its counters, loses no wake-up, ends, and does what a sequential run does.
  \<^item> \<open>Sample\<close>, \<open>Written_Sample\<close>, \<open>Writer_Sample\<close>, \<open>Finished_Sample\<close>, \<open>Ordered_Sample\<close>, \<open>Cipher_Sample\<close>,
    \<open>Walk_Sample\<close>: small archives, a small run and small streams on which the properties below are applied.

  \<^bold>\<open>How the code is modelled.\<close> A \<^verbatim>\<open>u64\<close>, \<^verbatim>\<open>u32\<close> or \<^verbatim>\<open>u8\<close> field is a word of that width; a \<^verbatim>\<open>usize\<close> that counts
  or indexes is a natural number, compared with \<open>usize_max\<close> where the code checks. The target is 64-bit,
  with threads and all codec features. A reader over the header is a function of the bytes that are
  left; an archive is the list of its bytes. An index out of range, a failed \<^verbatim>\<open>expect\<close> or an overflow is
  the error \<open>Panic\<close>, which the properties exclude. The writer is a record that every operation takes and
  returns; its output obeys a script of writes that succeed or stop half-way, and a source is the list
  of what its reads return. CRC-32, SHA-256, the block cipher, the coders, random initialization
  vectors, the versions of codecs and the addresses of allocations are parameters. Names are lists of
  Unicode scalar values. Of error messages the fixed text is kept.

  \<^bold>\<open>Bounds and fuel.\<close> No function of the model runs on fuel. Loops are structural recursions, or
  recursions with a measure: the bytes left, the items of a source, the coders not visited. The loop
  of the fan-out is a relation, and its end is a theorem.

  \<^bold>\<open>What the properties show.\<close> Opening returns an archive or an error on any bytes and never panics, and what it
  returns is as the limits promise; the graph check decides exactly the decodable graphs;
  sub-streams, files and packs are paired and placed as specified; a walk that ends well has checked what
  it handed out, and hands every entry of an intact archive its bytes once; memory and key derivation work
  are bounded; packed representations refine what they stand for; every part of the format
  reads back as it was written; the search for a lost header is decided by
  one position; key derivation is that of the format, and its cache is transparent;
  the cipher backends agree, and the cipher streams give back what went in, cut to its length;
  encoder options suffice for what they describe; folders are coded whole, the records
  describe the output whatever failed, and a finished file opens; the fan-out
  is sequential to its caller, always returns, and stages no more than it may.

  \<^bold>\<open>Not modelled.\<close> The codecs: LZMA, LZMA2, PPMd, BZip2, Deflate, Brotli, LZ4, Zstandard, and the converters
  under the branch and delta filters are other crates; their adapters (\<^verbatim>\<open>codec/\<close>) own no container
  logic. The threads of a block's pipeline (\<^verbatim>\<open>pipeline.rs\<close>); in a walk the decoder is the list of what its
  reads return, with the checksums it reports of ranges. Folders decoded in parallel while walking, the
  spans lent from a decoder's dictionary, and the extraction of single files. Extraction to a file system, positional and mapped
  input (\<^verbatim>\<open>util/\<close>, \<^verbatim>\<open>positional.rs\<close>), the WebAssembly bindings, benchmarks, fuzz targets and tools. The
  text of errors and \<^verbatim>\<open>Debug\<close> output. The manifest lists each part.
\<close>

section \<open>Opening an archive\<close>

text \<open>
  C1. Opening any sequence of bytes, under any limits, returns an archive or an error: no index out
  of range, no failed \<^verbatim>\<open>expect\<close>, no overflow, as long as the coders do not panic. The loops of the
  header reader all end.
\<close>

theorem open_never_panics:
  assumes "\<And>s n c opts. no_panic (add_decoder s n c opts)"
  shows "no_panic (read_with_limits crc32 add_decoder f l)"
  using assms by (rule no_panic_read_with_limits)

theorem open_never_panics_witness:
  "no_panic (read_with_limits sample_crc sample_builder sample_file sample_limits)"
  by (rule open_never_panics) (rule sample_builder_total)

text \<open>
  C2. Every packed range an opened archive hands out for a block lies after the start header and
  inside the file.
\<close>

theorem packed_ranges_inside:
  assumes "read_with_limits crc32 add_decoder f l = Inr a" "length f < 2 ^ 64"
    and "r \<in> set (block_pack_streams a b)"
  shows "32 \<le> unat (ps_offset r) \<and> unat (ps_offset r) + unat (ps_size r) \<le> length f"
proof -
  from assms(3) obtain i where i: "pack_range_at a i = Some r"
    by (auto simp: block_pack_streams_def List.map_filter_def split: option.splits)
  then have "a \<noteq> archive_default"
    by (auto simp: pack_range_at_def archive_default_def stream_map_default_def get_def)
  with read_with_limits_opened [OF assms(1)] have "opened l (length f) a" by blast
  from pack_range_inside [OF this assms(2) i] show ?thesis by simp
qed

theorem packed_ranges_inside_witness:
  "32 \<le> unat (ps_offset \<lparr>ps_index = 0, ps_offset = 32, ps_size = 1\<rparr>)
     \<and> unat (ps_offset \<lparr>ps_index = 0, ps_offset = 32, ps_size = 1\<rparr>) + unat (ps_size \<lparr>ps_index = 0, ps_offset = 32, ps_size = 1\<rparr>)
       \<le> length sample_file"
  by (rule packed_ranges_inside [OF sample_opens, where b = 0]) (simp_all add: sample_length sample_content)

text \<open>
  C3. Every block of an opened archive can be built: between 1 and 64 coders within the caller's
  limit, each with one output and no more inputs than allowed, every input bound or packed exactly
  once, one output left, no cycle behind it, and one unpacked size per output.
\<close>

theorem opened_blocks_decodable:
  assumes "read_with_limits crc32 add_decoder f l = Inr a" "b \<in> set (ar_blocks a)"
  shows "0 < length (coders b) \<and> length (coders b) \<le> 64
    \<and> length (coders b) \<le> unat (max_coders_per_block l)
    \<and> (\<forall>c \<in> set (coders b). num_out_streams c = 1 \<and> num_in_streams c \<le> max_streams_per_coder l)
    \<and> decodable b \<and> length (unpack_sizes b) = length (coders b)"
proof -
  from assms have "opened l (length f) a"
    by (auto simp: archive_default_def dest!: read_with_limits_opened)
  from opened_blocks [OF this assms(2)] show ?thesis
    by (auto simp: block_ok_def coder_ok_def block_sized_def)
qed

theorem opened_blocks_decodable_witness: "decodable (ar_blocks sample_archive ! 0)"
  using opened_blocks_decodable [OF sample_opens, of "ar_blocks sample_archive ! 0"] sample_content(3) by simp

text \<open>
  C4. The entries of an opened archive: at most as many as the caller allows, no name holds a NUL,
  an entry without data has size zero and no checksum, and the \<open>k\<close>-th entry with data has exactly
  the size and the checksum of the \<open>k\<close>-th sub-stream; none is left over on either side.
\<close>

theorem opened_entries_paired:
  assumes "read_with_limits crc32 add_decoder f l = Inr a"
  shows "length (ar_files a) \<le> unat (max_entries l) \<and> (ar_files a = [] \<or>
    (\<forall>e \<in> set (ar_files a). 0 \<notin> set (ae_name e) \<and> (\<not> ae_has_stream e \<longrightarrow> ae_size e = 0 \<and> \<not> ae_has_crc e))
    \<and> length (filter ae_has_stream (ar_files a)) =
        (case ar_sub_streams_info a of None \<Rightarrow> 0 | Some s \<Rightarrow> length (ssi_unpack_sizes s))
    \<and> (\<forall>k < length (filter ae_has_stream (ar_files a)).
         \<exists>s. ar_sub_streams_info a = Some s \<and> entry_from s k (filter ae_has_stream (ar_files a) ! k)))"
  using read_with_limits_opened [OF assms]
  by (auto simp: default_absent files_ok_def dest!: opened_files)

theorem opened_entries_paired_witness: "0 \<notin> set (ae_name (hd (ar_files sample_archive)))"
  using opened_entries_paired [OF sample_opens] sample_content(1) by (cases "ar_files sample_archive") auto



text \<open>
  C6. The decompression-bomb bounds: what an opened archive says it will produce stays within the
  bytes allowed, and within the allowed multiple of its packed bytes.
\<close>

theorem opened_output_bounded:
  assumes "read_with_limits crc32 add_decoder f l = Inr a"
  shows "(max_unpack_bytes l < - 1 \<longrightarrow> declared_output a \<le> unat (max_unpack_bytes l))
    \<and> (max_unpack_ratio l < - 1 \<longrightarrow> 0 < sum_list (map unat (ar_pack_sizes a)) \<longrightarrow>
         declared_output a div sum_list (map unat (ar_pack_sizes a)) \<le> unat (max_unpack_ratio l))"
proof -
  have "declared_output archive_default = 0" "ar_pack_sizes archive_default = []"
    by (simp_all add: declared_output_def archive_default_def)
  moreover have ?thesis if o: "opened l (length f) a"
  proof -
    from o obtain a1 where c: "check_archive l (length f) a1 = Inr a" and eq: "a1 = a\<lparr>ar_is_solid := ar_is_solid a1\<rparr>"
      by (rule opened_map)
    obtain t where t: "check_packed_range (length f) a1 = Inr t" "check_unpacked_totals l t a1 = Inr ()"
      using check_archive_Inr(2) [OF c] by blast
    have "declared_output a1 = declared_output a" "ar_pack_sizes a1 = ar_pack_sizes a"
      by (subst eq, simp add: declared_output_def)+
    with check_unpacked_totals_Inr [OF t(2)] check_packed_range_Inr [OF t(1)] show ?thesis
      by (auto simp: word_less_nat_alt)
  qed
  ultimately show ?thesis using read_with_limits_opened [OF assms] by auto
qed

theorem opened_output_bounded_witness: "declared_output sample_archive \<le> 9"
  using opened_output_bounded [OF sample_opens] by (simp add: sample_limits_def)

text \<open>
  C7. The packed ranges are laid out end to end from the pack position: each starts where the one
  before it ends, so no two overlap.
\<close>

theorem packed_ranges_end_to_end:
  assumes "read_with_limits crc32 add_decoder f l = Inr a" "length f < 2 ^ 64"
    and "pack_range_at a i = Some r" "pack_range_at a (Suc i) = Some r'"
  shows "unat (ps_offset r') = unat (ps_offset r) + unat (ps_size r)"
proof -
  have "a \<noteq> archive_default"
    using assms(3) by (auto simp: pack_range_at_def archive_default_def stream_map_default_def get_def)
  with read_with_limits_opened [OF assms(1)] have o: "opened l (length f) a" by blast
  have "i < length (ar_pack_sizes a)" "ps_size r = ar_pack_sizes a ! i"
    using assms(3) by (auto simp: pack_range_at_def get_def split: option.splits if_splits)
  with pack_range_inside [OF o assms(2,3)] pack_range_inside [OF o assms(2,4)] show ?thesis
    by (simp add: take_Suc_conv_app_nth)
qed

theorem packed_ranges_end_to_end_witness:
  "unat (ps_offset \<lparr>ps_index = 1, ps_offset = 33, ps_size = 2\<rparr>) = unat (32 :: u64) + unat (1 :: u64)"
  using packed_ranges_end_to_end [OF two_packs_opens, of 0] by (simp add: two_packs_content)

section \<open>The coder graph\<close>





section \<open>Sub-streams, files and blocks\<close>

text \<open>
  C10. The sizes read for the sub-streams of a block, with the last one computed, add up to the
  block's unpacked size; the sizes of other blocks are not touched.
\<close>

theorem sub_stream_sizes_sum:
  assumes "all_sub_sizes K_SIZE bl i sizes bs = Inr (sizes', bs')" "j < length bl"
    and "num_unpack_sub_streams (bl ! j) \<noteq> 0" "get_unpack_size (bl ! j) = Inr v"
    and "first = i + sum_list (take j (map num_unpack_sub_streams bl))"
  shows "(\<Sum>m = first..<first + num_unpack_sub_streams (bl ! j). unat (sizes' ! m)) = unat v"
proof -
  from all_sub_sizes_sum [OF assms(1)] assms(2,3) obtain w where "get_unpack_size (bl ! j) = Inr w"
    "(\<Sum>m = first..<first + num_unpack_sub_streams (bl ! j). unat (sizes' ! m)) = unat w"
    unfolding assms(5) Let_def by blast
  with assms(4) show ?thesis by simp
qed

theorem sub_stream_sizes_sum_witness:
  "(\<Sum>m = 0..<0 + num_unpack_sub_streams ([ten_byte_block] ! 0). unat ([4, 6 :: u64] ! m)) = unat (10 :: u64)"
  by (rule sub_stream_sizes_sum [OF ten_byte_block_read(1)]) (use ten_byte_block_read in simp_all)

text \<open>
  C11. The stream map of an accepted header: a file with data is mapped to the block that holds its
  sub-stream, a file without data to the block whose sub-streams enclose it and otherwise to none,
  every reached block starts at the file of its first sub-stream, and no block's span of files runs
  past the last one.
\<close>

theorem stream_map_places_files:
  assumes "calculate_stream_map a = Inr a'"
  shows "stream_map_ok a (ar_files a) (ar_stream_map a')"
  using calculate_stream_map_spec [OF assms] by blast

theorem stream_map_places_files_witness:
  "stream_map_ok sample_archive (ar_files sample_archive) (ar_stream_map sample_archive)"
  by (rule stream_map_places_files [OF sample_remapped])

text \<open>
  C12. The packed side of the map: the first pack stream of a block is the number of pack streams of
  the blocks before it, the offsets are the running sums of the sizes, and no block reaches past
  the sizes.
\<close>

theorem stream_map_places_packs:
  assumes "calculate_stream_map a = Inr a'"
  shows "pack_map_ok a (ar_stream_map a')"
  using calculate_stream_map_spec [OF assms] by blast

theorem stream_map_places_packs_witness: "pack_map_ok sample_archive (ar_stream_map sample_archive)"
  by (rule stream_map_places_packs [OF sample_remapped])

text \<open>
  C13. The sub-streams handed out block by block are the sub-streams of the archive, each once and
  in order.
\<close>

theorem sub_streams_partitioned:
  assumes "calculate_stream_map a = Inr a'"
  shows "concat (map (block_sub_streams a') [0..<length (ar_blocks a')]) =
    List.map_filter (sub_stream_at a') [0..<total_unpack_sub_streams a']"
proof (rule block_sub_streams_partition)
  show "from_counts (map num_unpack_sub_streams (ar_blocks a')) =
      Inr (sm_block_first_sub_stream_index (ar_stream_map a'))"
    using calculate_stream_map_spec [OF assms] calculated_blocks [OF assms] by (simp add: stream_map_ok_def)
qed

theorem sub_streams_partitioned_witness:
  "concat (map (block_sub_streams sample_archive) [0..<length (ar_blocks sample_archive)]) =
    List.map_filter (sub_stream_at sample_archive) [0..<total_unpack_sub_streams sample_archive]"
  by (rule sub_streams_partitioned [OF sample_remapped])

section \<open>Memory and work\<close>

section \<open>Extraction\<close>

text \<open>
  C14. What a block's walk vouches for, whatever the callbacks did: they may read in any pieces, skip, go
  on from errors or write to sinks that fail. When the walk ends well, none of them stopped it and the
  block was read in full, the decoder made at least the declared bytes, every file with a checksum has
  its part of them matching it, the block's own checksum matches, every completion told is of a file's
  part and carries its checksum, and a block without a checking reader of its own decodes to exactly
  its declared size.
\<close>

theorem block_walk_verifies:
  assumes "walk_entries env a i each u = (Inr outcome, events, u')" "bo_finished outcome" "bo_read_in_full outcome"
    and "we_verify env" "we_stack env i = Inr stack" "stays_ended (ds_source stack)"
    and "ds_folding stack \<longrightarrow> folds_truly env stack"
    and "get_unpack_size (ar_blocks a ! i) = Inr n" "n \<noteq> 0"
    and "(\<Sum>j\<leftarrow>files_walked a i. unat (ae_size (ar_files a ! j))) = unat n"
    and "bs = fst (flow (ds_source stack))"
  shows "unat n \<le> length bs
    \<and> (has_crc (ar_blocks a ! i) \<longrightarrow> ucast (we_crc32 env (take (unat n) bs)) = crc (ar_blocks a ! i))
    \<and> (\<not> has_crc (ar_blocks a ! i) \<or> ds_folding stack \<longrightarrow> flow (ds_source stack) = (take (unat n) bs, None))
    \<and> (\<forall>k < length (files_walked a i). ae_has_crc (ar_files a ! (files_walked a i ! k)) \<longrightarrow>
         ucast (we_crc32 env (file_part a (files_walked a i) bs k)) = ae_crc (ar_files a ! (files_walked a i ! k)))
    \<and> (\<forall>cp \<in> set events. \<exists>k < length (files_walked a i). cp_block cp = i \<and> cp_file cp = files_walked a i ! k
         \<and> unat (cp_offset cp) = (\<Sum>j\<leftarrow>take k (files_walked a i). unat (ae_size (ar_files a ! j)))
         \<and> cp_len cp = ae_size (ar_files a ! (files_walked a i ! k))
         \<and> cp_crc cp = we_crc32 env (file_part a (files_walked a i) bs k))"
proof -
  have "ds_folding stack \<Longrightarrow> folds_truly env stack" using assms(7) by simp
  note walk_verifies [OF assms(1-6) this assms(8-10), folded assms(11)]
  then show ?thesis by blast
qed

theorem block_walk_verifies_witness:
  "ucast (byte_sum (file_part walked_archive [0, 2] walked_bytes 1)) = (45 :: u64)"
proof -
  obtain events where "walk_entries (walked_env walked_source) walked_archive 0 store [] =
      (Inr \<lparr>bo_finished = True, bo_read_in_full = True\<rparr>, events, walked_delivery)" using walked_once by blast
  note block_walk_verifies [OF this _ _ walked_uses(1-4) walked_archive_files(4) _ walked_uses(5,6)]
  then show ?thesis using walked_parts walked_archive_files(2) by (auto simp: walked_env_def walked_stack)
qed





text \<open>
  C17. What a coder is charged when it is built exceeds the estimate published for it by less than
  one kilobyte, for every method both of them size.
\<close>

theorem charge_within_estimate:
  assumes "sized_coder_memory_kb c n = Some k" "coder_memory_estimate c = Inr m"
  shows "k * 1024 < unat m + 1024"
  using assms by (rule sized_coder_le_estimate)

theorem charge_within_estimate_witness: "(1029 :: nat) * 1024 < unat (1052673 :: u64) + 1024"
  by (rule charge_within_estimate [of odd_lzma 100000]) (rule odd_lzma_sizes)+

text \<open>
  C18. An archive passes the bound on key derivation if and only if every AES coder of every block
  has properties and a cost that is the raw-key marker or at most the smaller of the caller's
  limit and the hard ceiling.
\<close>

theorem aes_work_bounded:
  "check_aes_work a l = Inr () \<longleftrightarrow>
     (\<forall>b \<in> set (ar_blocks a). \<forall>c \<in> set (coders b). encoder_method_id c = ID_AES256_SHA256 \<longrightarrow>
        properties c \<noteq> [] \<and> (hd (properties c) AND 63 = 63 \<or>
          hd (properties c) AND 63 \<le> min (max_aes_cycles_power l) MAX_AES_CYCLES_POWER))"
  unfolding check_aes_work_ok_iff check_aes_coder_ok_iff ..

theorem aes_work_bounded_witness:
  "check_aes_work sample_archive sample_limits = Inr () \<longleftrightarrow>
     (\<forall>b \<in> set (ar_blocks sample_archive). \<forall>c \<in> set (coders b). encoder_method_id c = ID_AES256_SHA256 \<longrightarrow>
        properties c \<noteq> [] \<and> (hd (properties c) AND 63 = 63 \<or>
          hd (properties c) AND 63 \<le> min (max_aes_cycles_power sample_limits) MAX_AES_CYCLES_POWER))"
  by (rule aes_work_bounded)

section \<open>Packed representations\<close>

text \<open>
  C19. A bit set is a finite set of indices with a capacity: after any sequence of insertions,
  removals and reservations its members, its cardinality and its capacity are those of the model.
\<close>

theorem bit_set_refines:
  "{v. contains (fold bit_apply ks bs_new) v} = fst (fold model_apply ks ({}, 0))
   \<and> bs_len (fold bit_apply ks bs_new) = card (fst (fold model_apply ks ({}, 0)))
   \<and> bit_count (fold bit_apply ks bs_new) = snd (fold model_apply ks ({}, 0))"
  using represents_run [OF represents_new, of ks] represents_len by (auto simp: represents_def)



section \<open>Errors\<close>

text \<open>
  C21. Without a start header, the result of opening is decided by one position: from the end of the
  file down, over the last mebibyte, the first one with the mark of a header that opens to an error or
  to an archive with entries. A damaged candidate ends the search with its error, one that opens to
  nothing is passed over, and without any the file is corrupted.
\<close>

theorem search_first_decisive:
  "try_to_locale_end_header crc32 add_decoder f l =
     (let open = \<lambda>sh. init_archive crc32 add_decoder f sh False l;
          from = if length f < 12 + 1024 * 1024 then 12 else length f - 1024 * 1024
      in case find (decides open f) (rev [from..<length f - 1]) of
           None \<Rightarrow> Inl (Corrupted ''Start header corrupt and unable to guess end header'')
         | Some pos \<Rightarrow> open (candidate_header f pos))"
  by (simp add: try_to_locale_end_header_def locate_loop_find)

section \<open>What the writer writes, the reader reads\<close>

text \<open>
  C22. The header round trip. When the records of the writer are within the reader's limits, the
  bytes \<^verbatim>\<open>write_header\<close> makes of them are parsed to the end, with nothing left over, to the archive
  the records describe: pack streams, folders with their sizes, sub-streams, and every entry with
  its name, dates, attributes, size and checksum.
\<close>

theorem header_round_trip:
  assumes "header_written \<lparr>hb_bytes = length (tl (write_header p u es)), hb_limits = l\<rparr> p u bl es"
  shows "parse_header l K_HEADER (tl (write_header p u es)) = Inr (header_archive p u bl es)"
  using assms by (rule parse_written_header)

theorem header_round_trip_witness:
  "parse_header written_limits K_HEADER copied_header
     = Inr (header_archive copied_pack copied_unpack [read_copied_block] copied_entries)"
  unfolding copied_header_def
  by (rule header_round_trip) (rule copied_header_written [unfolded written_bounds_def copied_header_def])

text \<open>
  C23. A linear folder: the descriptor of a chain of methods is read back, whatever follows, as
  those coders in that order, each with its properties, each fed by the one before, the first by
  the pack stream.
\<close>

theorem chain_folder_round_trip:
  assumes "ms \<noteq> []" "hm_id (last ms) \<noteq> ID_BCJ2" "\<forall>m \<in> set ms. length (hm_properties m) < 128"
    and "folder_allowed bnd (map method_spec ms)" "write_folder ms = Inr bs"
  shows "read_block bnd (bs @ rest) = Inr (built_block (map method_spec ms) (chain_pairs (length ms)) [0], rest)"
  using chain_decodes [OF assms] by (simp add: decodes_def)

theorem chain_folder_round_trip_witness:
  "read_block written_bounds (bi_methods copied_block @ [1]) = Inr (read_copied_block, [1])"
  using chain_folder_round_trip [of "[copy_method]" written_bounds "bi_methods copied_block" "[1]"]
    copied_folder_allowed copied_methods by (simp add: read_copied_block_def)

text \<open>
  C24. A BCJ2 folder: the descriptor with the two side coders, the main chain and the four pack
  streams is read back, accepted by the graph check, with the bind pairs the writer means.
\<close>

theorem bcj2_folder_round_trip:
  assumes "2 \<le> length ms" "hm_id (last ms) = ID_BCJ2" "\<forall>m \<in> set (butlast ms). length (hm_properties m) < 128"
    and "folder_allowed bnd (bcj2_specs ms)" "write_folder ms = Inr bs"
  shows "read_block bnd (bs @ rest)
     = Inr (built_block (bcj2_specs ms) (bcj2_pairs (length ms - 1)) (bcj2_packed (length ms - 1)), rest)"
  using bcj2_decodes [OF assms] by (simp add: decodes_def)

theorem bcj2_folder_round_trip_witness:
  "read_block jump_bounds (projr (write_folder jump_methods) @ [0])
     = Inr (built_block (bcj2_specs jump_methods) (bcj2_pairs 1) (bcj2_packed 1), [0])"
  using bcj2_folder_round_trip [of jump_methods jump_bounds "projr (write_folder jump_methods)" "[0]"] jump_facts
    jump_allowed jump_written by (simp add: list_all_iff)

text \<open>
  C25. A folder copied from another archive keeps its descriptor: writing a block the reader
  accepted and reading it again gives the same coders, bind pairs and pack streams.
\<close>

theorem raw_folder_round_trip:
  assumes "block_ok bnd' b" "folder_allowed bnd (raw_specs b)"
  shows "read_block bnd (write_raw_block b @ rest) = Inr (raw_built b, rest)
    \<and> list_all2 coder_eq (coders (raw_built b)) (coders b) \<and> bind_pairs (raw_built b) = bind_pairs b
    \<and> packed_streams (raw_built b) = packed_streams b"
  using raw_block_decodes [OF assms] by (simp add: decodes_def)

theorem raw_folder_round_trip_witness:
  "read_block written_bounds (write_raw_block read_copied_block @ [1]) = Inr (raw_built read_copied_block, [1])"
  using raw_folder_round_trip [OF copied_block_ok copied_raw_allowed] by simp

section \<open>Encryption keys\<close>


text \<open>
  C27. The key cache is transparent: after any history of derivations, clones and changes of
  capacity, a derivation returns either the key the password and the properties determine, or an
  error that is no panic; it charges the asking copy nothing or the rounds of that key, within its
  budget, and the other copies nothing.
\<close>

theorem key_cache_transparent:
  assumes "password_reach sha password st" "aes_parse ps = Inr p" "i < length (ps_spent st)"
    and "derive_by sha password i p max_power max_rounds st = (r, st')"
  shows "no_panic r \<and> (case r of Inl e \<Rightarrow> True | Inr key \<Rightarrow> password \<noteq> [] \<and> key = pure_key sha password p)
    \<and> (ps_spent st' = ps_spent st \<or> (\<exists>n. ps_spent st' = (ps_spent st)[i := n] \<and> n \<le> max_rounds
        \<and> unat n = unat (ps_spent st ! i) + 2 ^ unat (ap_cycles_power p)))"
  by (rule derive_by_pure [OF assms])

theorem key_cache_transparent_witness:
  "case fst (derive_by (take 32) [7] 0 \<lparr>ap_cycles_power = 2, ap_salt = replicate 16 0, ap_salt_len = 0,
       ap_iv = replicate 16 0\<rparr> 24 9 password_new) of
     Inl e \<Rightarrow> True | Inr key \<Rightarrow> [7] \<noteq> ([] :: byte list) \<and> key = pure_key (take 32) [7]
       \<lparr>ap_cycles_power = 2, ap_salt = replicate 16 0, ap_salt_len = 0, ap_iv = replicate 16 0\<rparr>"
  using key_cache_transparent [OF password_reach.fresh, of "[2]" "\<lparr>ap_cycles_power = 2, ap_salt = replicate 16 0,
      ap_salt_len = 0, ap_iv = replicate 16 0\<rparr>" 0 "take 32" "[7]" 24 9 _ _ , OF _ _ prod.collapse [symmetric]]
  by (simp add: plain_power password_new_def)

text \<open>
  C28. The AES properties the writer records name the salt, the vector and the cycle count it
  encrypted with.
\<close>

theorem aes_properties_name_the_key:
  assumes "length (ao_salt a) = 16" "length (ao_iv a) = 16"
  shows "aes_parse (aes_properties_of a) = Inr \<lparr>ap_cycles_power = ao_num_cycles_power a AND 63,
     ap_salt = ao_salt a, ap_salt_len = 16, ap_iv = ao_iv a\<rparr>"
  using assms by (rule aes_properties_round_trip)

theorem aes_properties_name_the_key_witness:
  "map_sum id ap_salt (aes_parse (aes_properties_of \<lparr>ao_password = [7], ao_iv = replicate 16 1,
     ao_salt = replicate 16 2, ao_num_cycles_power = 19\<rparr>)) = Inr (replicate 16 2)"
  using aes_properties_name_the_key [of "\<lparr>ao_password = [7], ao_iv = replicate 16 1, ao_salt = replicate 16 2,
     ao_num_cycles_power = 19\<rparr>"] by simp

section \<open>The cipher streams\<close>

text \<open>
  C29. The three backends of the block cipher are interchangeable: where AWS-LC's one-shot call,
  RustCrypto's block mode and the embedder's hook do what they document, unpadded CBC over one block
  cipher, decryptors made from one key and vector answer any calls alike, on buffers of any length,
  each leaving the same bytes behind and refusing the same buffers.
\<close>

theorem cipher_backends_agree:
  assumes "block_cipher E D" "one_shot_decrypts D lib" "block_mode_decrypts D rust view" "hook_decrypts D hook"
    and "aws_new (al_decrypting_key lib) key iv = Inr a" "rust_new rust key iv = Inr m" "host_new key iv = Inr h"
  shows "cipher_calls (aws_decrypt lib) a pieces = cipher_calls (rust_call rust) m pieces
    \<and> cipher_calls (aws_decrypt lib) a pieces = cipher_calls (host_decrypt hook) h pieces"
  using lanes_agree [OF assms] by blast

theorem cipher_backends_agree_witness:
  "cipher_calls (aws_decrypt small_lc) \<lparr>ac_key = small_key, ac_iv = replicate 16 5\<rparr> [replicate 32 7, [1], replicate 16 8]
     = cipher_calls (rust_call small_rust) \<lparr>ac_key = small_key, ac_iv = replicate 16 5\<rparr> [replicate 32 7, [1], replicate 16 8]"
  by (rule cipher_backends_agree [OF small_cipher(1,2,4,5), of small_key "replicate 16 5", THEN conjunct1])
     (simp_all add: aws_new_def rust_new_def host_new_def key_and_iv_def AES256_KEY_LEN_def AES_BLOCK_LEN_def
        small_key_def small_lc_def small_rust_def)

text \<open>
  C30. What an AES decoder hands over is decided by its input alone, however it is asked: any
  sequence of reads and pushes of any sizes, enough of them, gets the CBC plaintext of the input's
  whole blocks up to the declared length, and then the end; where the input fails or ends inside a
  block before that length, it gets all the blocks before it, and then that error.
\<close>

theorem aes_decoder_serves:
  assumes "block_cipher E D" "one_shot_decrypts D lib"
    and "\<And>n. n \<le> PUSH_BUFFER_BYTES \<Longrightarrow> allocates n"
    and "aes_decoder_new (aws_new (al_decrypting_key lib)) sha input ps password mp mr (c, n) = (Inr d, st')"
    and "get_aes_key sha ps password mp mr (c, n) = (Inr (key, iv), st')"
    and "\<forall>q \<in> set qs. 0 < request_size q" "length (fst (stream_of (D key) iv len input)) < length qs"
  shows "serve_all (aws_decrypt lib) allocates qs (limit_output len d)
    = (fst (stream_of (D key) iv len input), Some (snd (stream_of (D key) iv len input)))"
  using assms by (rule aws_serves)

theorem aes_decoder_serves_witness:
  "serve_all (aws_decrypt small_lc) (\<lambda>_. True) (PushUpTo 3 # replicate 16 (ReadInto 5)) (limit_output 100 (small_decoder torn_input))
     = ([1, 2, 3, 4] @ replicate 12 0, Some (Some illegal_block_size))"
proof -
  obtain c n where st: "(ps_cache password_new, 0) = (c :: key_cache, n :: u64)" by simp
  show ?thesis
    using aes_decoder_serves [OF small_cipher(1,2), of "\<lambda>_. True" small_sha torn_input "aes_properties_of small_options"
        "ao_password small_options" MAX_AES_CYCLES_POWER "- 1" c n "small_decoder torn_input" "(c, n)" small_key
        "replicate 16 5" "PushUpTo 3 # replicate 16 (ReadInto 5)" 100]
    by (simp add: small_decoder_made small_key_made torn_stream)
qed

text \<open>
  C31. The \<^verbatim>\<open>aes256\<close> coder's round trip: what an encoder made of writes of any sizes, ended, is taken
  back by a decoder made from the recorded properties and the same password, whatever keys either
  copy's cache holds, in whatever pieces and with whatever interruptions its input gives it and
  whatever reads and pushes ask for it, without the padding of the last block.
\<close>

theorem aes_stream_round_trip:
  assumes "block_cipher E D" "one_shot_encrypts E lib" "one_shot_decrypts D lib"
    and "\<And>n. n \<le> PUSH_BUFFER_BYTES \<Longrightarrow> allocates n"
    and "password_reach sha (ao_password options) st1" "password_reach sha (ao_password options) st2"
    and "aes_encoder_new (aws_new (al_encrypting_key lib)) sha [] options (ps_cache st1, n1) = (Inr e, st1')"
    and "aes_decoder_new (aws_new (al_decrypting_key lib)) sha input (aes_properties_of options) (ao_password options) mp mr
        (ps_cache st2, n2) = (Inr d, st2')"
    and "[] \<notin> set bufs" "encode_all (aws_encrypt lib) feed bufs e = (Inr k, e')" "length (concat bufs) < 2 ^ 64"
    and "flow input = (concat (ae_written e'), None)"
    and "\<forall>q \<in> set qs. 0 < request_size q" "length (concat bufs) < length qs"
  shows "serve_all (aws_decrypt lib) allocates qs (limit_output (of_nat (length (concat bufs))) d) = (concat bufs, Some None)"
  using assms by (rule aes_round_trip)

theorem aes_stream_round_trip_witness:
  "serve_all (aws_decrypt small_lc) (\<lambda>_. True) [ReadInto 3, PushUpTo 1, ReadInto 70000, ReadInto 1, ReadInto 1]
     (limit_output 4 (small_decoder small_input)) = ([1, 2, 3, 4], Some None)"
proof -
  obtain e where e: "encode_all (aws_encrypt small_lc) (\<lambda>_. None) [[1, 2, 3], [4]] small_encoder = (Inr 0, e)"
      "ae_written e = [[7, 4, 5, 2] @ replicate 12 6, []]"
    using small_encoded by blast
  have flow: "flow small_input = (concat (ae_written e), None)"
    by (simp add: e(2) small_input_def interrupted_def)
  show ?thesis
    using aes_stream_round_trip [OF small_cipher(1,3,2) _ password_reach.fresh password_reach.fresh small_encoder_made
        small_decoder_made _ e(1) _ flow, of "\<lambda>_. True" "[ReadInto 3, PushUpTo 1, ReadInto 70000, ReadInto 1, ReadInto 1]"]
    by simp
qed

section \<open>Encoder options\<close>

text \<open>
  C32. The dictionary an archive names is never smaller than the one the encoder uses: the LZMA2
  property is the least whose table entry holds it, the LZMA properties name it exactly; and a
  dictionary shrunk to a folder of known size still covers the folder, or is the one asked for.
\<close>

theorem written_dictionary_suffices:
  "(ec_id mc = ID_LZMA2 \<longrightarrow> (\<exists>q. get_options_as_properties vs mc = [of_nat q] \<and> q \<le> 40
      \<and> unat (dict_size (lo_settings (lzma2_options_of mc))) \<le> lzma2_dictionary32 q
      \<and> (\<forall>j < q. lzma2_dictionary32 j < unat (dict_size (lo_settings (lzma2_options_of mc))))))
   \<and> (ec_id mc = ID_LZMA \<longrightarrow>
        lzma_dictionary_size (get_options_as_properties vs mc) = Inr (dict_size (lzma_settings_of mc)))
   \<and> (ls_input_size s = Some n \<longrightarrow> dict_size s \<le> requested_dict_size s
        \<and> min (unat (requested_dict_size s)) (unat n) \<le> unat (dict_size s))"
  using written_dictionaries dict_size_bounds by blast

theorem written_dictionary_suffices_witness:
  "lzma_dictionary_size (get_options_as_properties \<lparr>cv_brotli = 1, cv_zstd_major = 1, cv_zstd_minor = 5\<rparr> \<lparr>ec_method = (''LZMA'', ID_LZMA), ec_options = None\<rparr>)
     = Inr (dict_size lzma_options_default)"
  using written_dictionary_suffices [of "\<lparr>ec_method = (''LZMA'', ID_LZMA), ec_options = None\<rparr>"]
  by (simp add: ec_id_def lzma_settings_of_def)

section \<open>Writing an archive\<close>

text \<open>
  C33. A folder is coded whole: when coding an entry succeeds, the chain of its methods has been run
  over exactly the bytes of its source, read ahead or not, pulled or pushed, and the folder's size,
  checksums and coder sizes are those of that run.
\<close>

theorem entry_coded_whole:
  assumes "encode_entry_input lib fresh ivs send arc e s = (out, Inr f)" "uninterrupted (Entry s)" "Yields [] \<notin> set s"
  shows "\<exists>bs. source_content s = (bs, None, []) \<and> folder_made lib bs out f \<and> ef_entry f = e"
  using encode_entry_made(1,5) [OF assms(1)] assms(2,3) by blast

theorem entry_coded_whole_witness:
  "\<exists>bs. source_content [Yields [1, 2, 3]] = (bs, None, []) \<and> folder_made sum_lib bs [1, 2, 3]
     \<lparr>ef_entry = short_file, ef_methods = (1, [stored]), ef_size = 3, ef_more_sizes = [], ef_crc = 6,
      ef_compressed_len = 3, ef_compressed_crc = 6, ef_bcj2 = None\<rparr> \<and> short_file = short_file"
  using entry_coded_whole [OF short_file_coded [of 5 "[]" 1]] by (simp add: uninterrupted_def)

text \<open>
  C34. A solid block holds its entries' bytes one after another: the block's bytes are those of the
  sources in order, each entry with a stream has the size and checksum of its own, an entry without
  one brought no bytes, and the checksum folded from the parts is that of the whole.
\<close>

theorem solid_block_streams:
  assumes "encode_entries lib fresh ivs send arc es (map source_reader_new ss) = (pb_compressed b, Inr b)
      \<or> prepare_block lib fresh ivs arc es (map source_reader_new ss) = Inr b"
    and "uninterrupted (Solid (seq_reader_new (map source_reader_new ss)))" "crc_laws lib"
  shows "solid_made lib es ss b \<and> length es = length ss
    \<and> pb_crc b = lib_crc32 lib (concat (map (fst \<circ> source_content) ss))"
proof -
  have "solid_made lib es ss b \<and> length es = length ss"
    using encode_entries_made [OF _ assms(2)] prepare_block_made [OF _ assms(2)] assms(1) by blast
  with assms(3) show ?thesis by (simp add: solid_made_def Let_def)
qed

theorem solid_block_streams_witness:
  "solid_made sum_lib [short_file, other_file] block_sources solid_block \<and> length [short_file, other_file] = length block_sources
    \<and> pb_crc solid_block = lib_crc32 sum_lib (concat (map (fst \<circ> source_content) block_sources))"
  by (rule solid_block_streams [OF disjI2 [OF solid_prepared] _ sum_crc_laws])
     (use block_sources_ok in \<open>simp add: sources_ok_def\<close>)







section \<open>Ordered fan-out\<close>

text \<open>
  C38. However the threads are scheduled, the caller sees what it would see running the jobs one after
  the other: when the run returns, either nothing was run, or a worker panicked and the panic goes on,
  or the outcome, the consumer's state included, is that of the sequential run. What a job sends must
  not depend on the local state it is produced with.
\<close>

theorem ordered_run_sequential:
  assumes "reach cf s" "cf_jobs cf \<le> usize_max" "same_output cf out" "rn_caller s = Returned r"
  shows "r = NotRun \<or> r = Unwound \<and> rn_panicked s \<or> r = sequential cf out"
  using reach_agrees [OF assms(1-3)] assms(4) by (cases r) (auto simp: agrees_def)

theorem ordered_run_sequential_witness:
  "rn_caller ended_run = Returned (sequential small_config (\<lambda>j. [j + 7]))"
  using ordered_run_sequential [OF ended_reach(1) small_jobs small_output ended_reach(2)] ended_reach(2) by simp

text \<open>
  C39. The run returns. From every state it can be in, spurious wake-ups included, no schedule of the
  threads waits for ever: some thread can always go on, and after finitely many steps the caller has
  returned, whether jobs fail, panic, are cancelled or are passed over unread.
\<close>

theorem ordered_run_returns:
  assumes "reach cf s" "cf_jobs cf \<le> usize_max"
  shows "returns_always cf s"
  using assms by (rule reach_returns)

theorem ordered_run_returns_witness: "returns_always small_config queued_run"
  by (rule ordered_run_returns [OF queued_reach(1) small_jobs])

text \<open>
  C40. What is staged between the workers and the caller is bounded: at most a window of queues, each
  with no more than the cap or one message.
\<close>

theorem ordered_staging_bounded:
  assumes "reach cf s" "cf_jobs cf \<le> usize_max" "cap_of cf < usize_max"
    and "\<And>j m w. (m, w) \<in> set (sl_messages (slot_at (rn_pool s) j)) \<Longrightarrow> w \<le> b"
  shows "(\<Sum>j<pl_next (rn_pool s). queued_weight (rn_pool s) j) \<le> window_of cf * max (cap_of cf) b"
  using staged_bounded [OF reach_sound [OF assms(1,2)] assms(3,4)] .

theorem ordered_staging_bounded_witness:
  "(\<Sum>j<pl_next (rn_pool queued_run). queued_weight (rn_pool queued_run) j) \<le> 1 * max 4 3"
proof -
  have "window_of small_config = 1" "cap_of small_config = 4" by (simp_all add: small_config_def window_of_def cap_of_def)
  moreover have "w \<le> 3" if "(m, w) \<in> set (sl_messages (slot_at (rn_pool queued_run) j))" for j m w
    using that queued_empty [of j] queued_reach(2) by (cases "j = 0") auto
  ultimately show ?thesis using ordered_staging_bounded [OF queued_reach(1) small_jobs, of 3] by (simp add: usize_max_def)
qed

end
